(* ===== verification/Prelude.thy ===== *)
theory Prelude
  imports Main "HOL-Library.Word" "HOL-Library.Multiset"
begin

unbundle bit_operations_syntax

text \<open>
  Shared vocabulary of the development: the widths of the C++ integer types, the byte-addressed
  memory over which packed records and serialised indexes are read and written, the little-endian
  encodings that a cast such as \<^verbatim>\<open>*(uint32_t*)(data + off)\<close> performs on the supported platforms, and
  the list and word lemmas the component theories use.  Facts about memory accesses are collected
  in \<open>mem_simps\<close>.
\<close>

named_theorems mem_simps

type_synonym u8 = "8 word"
type_synonym u16 = "16 word"
type_synonym u32 = "32 word"
type_synonym u64 = "64 word"

text \<open>A byte-addressed memory, and the faults the C++ code would hit as undefined behaviour or abort.\<close>

type_synonym mem = "nat \<Rightarrow> u8"

datatype fault = OutOfBounds | UseAfterFree | NullDeref | AssertFailed | Aborted | Uninitialised | OverlappingCopy | Deadlock | NotLocked

text \<open>Sequencing of computations that may fault.\<close>

definition sbind :: "'e + 'a \<Rightarrow> ('a \<Rightarrow> 'e + 'b) \<Rightarrow> 'e + 'b" where
  "sbind x f = (case x of Inl e \<Rightarrow> Inl e | Inr a \<Rightarrow> f a)"

lemma sbind_simps [simp]: "sbind (Inl e) f = Inl e" "sbind (Inr a) f = f a"
  by (simp_all add: sbind_def)

lemma sbind_eq_Inr [simp]: "sbind x f = Inr b \<longleftrightarrow> (\<exists>a. x = Inr a \<and> f a = Inr b)"
  by (cases x) simp_all

section \<open>Byte memory\<close>

text \<open>\<open>read_bytes m a n\<close> is the content of the \<open>n\<close> bytes at \<open>a\<close>; \<open>write_bytes m a bs\<close> is \<^verbatim>\<open>memcpy\<close> to \<open>a\<close>.\<close>

definition read_bytes :: "mem \<Rightarrow> nat \<Rightarrow> nat \<Rightarrow> u8 list" where
  "read_bytes m a n = map (\<lambda>i. m (a + i)) [0..<n]"

definition write_bytes :: "mem \<Rightarrow> nat \<Rightarrow> u8 list \<Rightarrow> mem" where
  "write_bytes m a bs = (\<lambda>i. if a \<le> i \<and> i < a + length bs then bs ! (i - a) else m i)"

text \<open>Little-endian encoding of a natural number on \<open>n\<close> bytes, and its decoding.\<close>

fun le_bytes :: "nat \<Rightarrow> nat \<Rightarrow> u8 list" where
  "le_bytes 0 v = []"
| "le_bytes (Suc n) v = word_of_nat v # le_bytes n (v div 256)"

fun le_val :: "u8 list \<Rightarrow> nat" where
  "le_val [] = 0"
| "le_val (b # bs) = unat b + 256 * le_val bs"

text \<open>\<open>rd n m a\<close> reads an unsigned \<open>n\<close>-byte integer at \<open>a\<close>, \<open>wr n m a v\<close> stores one (truncating).\<close>

definition rd :: "nat \<Rightarrow> mem \<Rightarrow> nat \<Rightarrow> nat" where
  "rd n m a = le_val (read_bytes m a n)"

definition wr :: "nat \<Rightarrow> mem \<Rightarrow> nat \<Rightarrow> nat \<Rightarrow> mem" where
  "wr n m a v = write_bytes m a (le_bytes n v)"

text \<open>\<^verbatim>\<open>memset(a, 0, n)\<close>.\<close>

definition zero_bytes :: "mem \<Rightarrow> nat \<Rightarrow> nat \<Rightarrow> mem" where
  "zero_bytes m a n = write_bytes m a (replicate n 0)"

lemma unat_bound: "unat (w :: 'a::len word) < 2 ^ LENGTH('a)"
  by (rule unsigned_less)

lemma unat_u8: "unat (b :: u8) < 256"
  using unat_bound [of b] by simp

lemma length_read_bytes [simp]: "length (read_bytes m a n) = n"
  by (simp add: read_bytes_def)

lemma nth_read_bytes [simp]: "i < n \<Longrightarrow> read_bytes m a n ! i = m (a + i)"
  by (simp add: read_bytes_def)

lemma read_bytes_0 [simp]: "read_bytes m a 0 = []"
  by (simp add: read_bytes_def)

lemma read_bytes_Suc: "read_bytes m a (Suc n) = m a # read_bytes m (Suc a) n"
  by (rule nth_equalityI) (auto simp: nth_Cons split: nat.splits)

lemma read_bytes_numeral: "read_bytes m a (numeral k) = m a # read_bytes m (Suc a) (pred_numeral k)"
  by (simp add: numeral_eq_Suc read_bytes_Suc)

lemmas read_eval = rd_def read_bytes_numeral read_bytes_Suc

lemma length_le_bytes [simp]: "length (le_bytes n v) = n"
  by (induction n v rule: le_bytes.induct) auto

lemma le_val_le_bytes: "le_val (le_bytes n v) = v mod 256 ^ n"
proof (induction n v rule: le_bytes.induct)
  case (1 v)
  then show ?case by simp
next
  case (2 n v)
  have "unat (word_of_nat v :: u8) = v mod 256"
    by (simp add: unat_of_nat)
  with 2 show ?case
    by (simp add: mod_mult2_eq)
qed

lemma le_val_bound: "le_val bs < 256 ^ length bs"
proof (induction bs)
  case Nil
  then show ?case by simp
next
  case (Cons b bs)
  have "unat b < 256" by (rule unat_u8)
  with Cons show ?case by simp
qed

lemma le_bytes_le_val: "le_bytes (length bs) (le_val bs) = bs"
proof (induction bs)
  case Nil
  then show ?case by simp
next
  case (Cons b bs)
  have b: "unat b < 256" by (rule unat_u8)
  then have "(unat b + 256 * le_val bs) div 256 = le_val bs" by simp
  moreover have "word_of_nat (unat b + 256 * le_val bs) = b"
  proof -
    have z: "(256 :: u8) = 0" by simp
    show ?thesis by (simp only: of_nat_add of_nat_mult of_nat_numeral z) simp
  qed
  ultimately show ?case using Cons by simp
qed

lemma write_bytes_same [mem_simps]: "read_bytes (write_bytes m a bs) a (length bs) = bs"
  by (rule nth_equalityI) (auto simp: write_bytes_def)

lemma write_bytes_other [mem_simps]:
  "b + n \<le> a \<or> a + length bs \<le> b \<Longrightarrow> read_bytes (write_bytes m a bs) b n = read_bytes m b n"
  by (auto simp: write_bytes_def read_bytes_def)

lemma write_bytes_outside [mem_simps]:
  "i < a \<or> a + length bs \<le> i \<Longrightarrow> write_bytes m a bs i = m i"
  by (auto simp: write_bytes_def)

lemma write_bytes_inside: "i < length bs \<Longrightarrow> write_bytes m a bs (a + i) = bs ! i"
  by (simp add: write_bytes_def)

lemma write_bytes_Nil [simp]: "write_bytes m a [] = m"
  by (rule ext) (auto simp: write_bytes_def)

lemma write_bytes_append:
  "b = a + length xs \<Longrightarrow> write_bytes (write_bytes m a xs) b ys = write_bytes m a (xs @ ys)"
  by (auto simp: write_bytes_def nth_append fun_eq_iff)

lemma write_bytes_inner:
  assumes "a \<le> b" and "b + n \<le> a + length bs"
  shows "read_bytes (write_bytes m a bs) b n = take n (drop (b - a) bs)"
  using assms by (intro nth_equalityI) (auto simp: write_bytes_def)

lemma rd_wr_same [mem_simps]: "rd n (wr n m a v) a = v mod 256 ^ n"
  using write_bytes_same [of m a "le_bytes n v"] by (simp add: rd_def wr_def le_val_le_bytes)

lemma rd_wr_other [mem_simps]:
  "b + k \<le> a \<or> a + n \<le> b \<Longrightarrow> rd k (wr n m a v) b = rd k m b"
  by (simp add: rd_def wr_def write_bytes_other)

lemma rd_write_bytes_other [mem_simps]:
  "b + k \<le> a \<or> a + length bs \<le> b \<Longrightarrow> rd k (write_bytes m a bs) b = rd k m b"
  by (simp add: rd_def write_bytes_other)

lemma read_bytes_wr_other [mem_simps]:
  "b + k \<le> a \<or> a + n \<le> b \<Longrightarrow> read_bytes (wr n m a v) b k = read_bytes m b k"
  by (simp add: wr_def write_bytes_other)

lemma wr_outside [mem_simps]: "i < a \<or> a + n \<le> i \<Longrightarrow> wr n m a v i = m i"
  by (simp add: wr_def write_bytes_outside)

lemma zero_bytes_outside [mem_simps]: "i < a \<or> a + n \<le> i \<Longrightarrow> zero_bytes m a n i = m i"
  by (simp add: zero_bytes_def write_bytes_outside)

lemma zero_bytes_inside [mem_simps]: "a \<le> i \<Longrightarrow> i < a + n \<Longrightarrow> zero_bytes m a n i = 0"
  by (simp add: zero_bytes_def write_bytes_def)

lemma rd_zero_bytes_other [mem_simps]:
  "b + k \<le> a \<or> a + n \<le> b \<Longrightarrow> rd k (zero_bytes m a n) b = rd k m b"
  by (simp add: zero_bytes_def rd_write_bytes_other)

lemma read_zero_bytes_other [mem_simps]:
  "b + k \<le> a \<or> a + n \<le> b \<Longrightarrow> read_bytes (zero_bytes m a n) b k = read_bytes m b k"
  by (simp add: zero_bytes_def write_bytes_other)

lemma rd_bound: "rd n m a < 256 ^ n"
  using le_val_bound [of "read_bytes m a n"] by (simp add: rd_def)

lemma rd_1 [simp]: "rd (Suc 0) m a = unat (m a)"
  by (simp add: rd_def read_bytes_def)

section \<open>Masks of power-of-two sizes\<close>

lemma unat_and_mask:
  fixes w :: "'a::len word"
  shows "unat (w AND mask k) = unat w mod 2 ^ k"
  by (simp only: take_bit_eq_mask [symmetric] unsigned_take_bit_eq) (simp add: take_bit_eq_mod)

lemma mask_eq_pow_minus_1: "(2 ^ k - 1 :: 'a::len word) = mask k"
  by (simp add: mask_eq_exp_minus_1)

section \<open>Lists\<close>

lemma sorted_wrt_nth_mono:
  "sorted_wrt R xs \<Longrightarrow> i < j \<Longrightarrow> j < length xs \<Longrightarrow> R (xs ! i) (xs ! j)"
  by (simp add: sorted_wrt_iff_nth_less)

lemma map_upt_shift: "map f [a..<a + n] = map (\<lambda>i. f (a + i)) [0..<n]"
  by (rule nth_equalityI) auto

end
