(* ===== verification/Ring.thy ===== *)
theory Ring
  imports Prelude
begin

text \<open>
  Reading a circular buffer as a list, the abstract bounded queue, and the contract
  (\<open>bounded_fifo\<close>) that the two ring-buffer queues of \<^verbatim>\<open>util/\<close> are interpreted against.
\<close>

section \<open>Windows of a circular array\<close>

definition ring_read :: "'a list \<Rightarrow> nat \<Rightarrow> nat \<Rightarrow> 'a list" where
  "ring_read xs s n = map (\<lambda>i. xs ! ((s + i) mod length xs)) [0..<n]"

lemma length_ring_read [simp]: "length (ring_read xs s n) = n"
  by (simp add: ring_read_def)

lemma ring_read_0 [simp]: "ring_read xs s 0 = []"
  by (simp add: ring_read_def)

lemma ring_read_Nil_iff [simp]: "ring_read xs s n = [] \<longleftrightarrow> n = 0"
  by (simp add: ring_read_def)

lemma ring_read_mod [simp]: "ring_read xs (s mod length xs) n = ring_read xs s n"
  by (simp add: ring_read_def mod_add_left_eq)

lemma ring_read_Suc: "ring_read xs s (Suc n) = xs ! (s mod length xs) # ring_read xs (Suc s) n"
  by (simp add: ring_read_def upt_conv_Cons map_Suc_upt [symmetric] del: upt_Suc)

lemma mod_ring_neq:
  fixes s i j V :: nat
  assumes "i < j" and "j < V"
  shows "(s + i) mod V \<noteq> (s + j) mod V"
proof
  assume "(s + i) mod V = (s + j) mod V"
  then have "V dvd (s + j) - (s + i)"
    using assms mod_eq_dvd_iff_nat [of "s + i" "s + j" V] by simp
  with assms show False by (auto dest: dvd_imp_le)
qed

lemma ring_read_update:
  assumes "n \<le> j" and "j < length xs"
  shows "ring_read (xs[(s + j) mod length xs := v]) s n = ring_read xs s n"
proof -
  have "(s + i) mod length xs \<noteq> (s + j) mod length xs" if "i < n" for i
    using that assms by (intro mod_ring_neq) auto
  then show ?thesis
    by (auto simp: ring_read_def) (metis nth_list_update_neq)
qed

lemma ring_read_snoc:
  assumes "n < length xs"
  shows "ring_read (xs[(s + n) mod length xs := v]) s (Suc n) = ring_read xs s n @ [v]"
proof -
  have "(s + n) mod length xs < length xs" using assms by (intro mod_less_divisor) linarith
  then have "ring_read (xs[(s + n) mod length xs := v]) s (Suc n)
      = ring_read (xs[(s + n) mod length xs := v]) s n @ [v]"
    by (simp add: ring_read_def)
  with assms show ?thesis by (simp add: ring_read_update)
qed

lemma Suc_mod_cases: "n < V \<Longrightarrow> Suc n mod V = (if Suc n = V then 0 else Suc n)"
  by (simp add: mod_Suc)

lemma unat_2p_u32: "k \<le> 31 \<Longrightarrow> unat (2 ^ k :: u32) = 2 ^ k"
proof -
  assume "k \<le> 31"
  then have "(2::nat) ^ k < 2 ^ 32" by (intro power_strict_increasing) simp_all
  moreover have "(2 ^ k :: u32) = word_of_nat (2 ^ k)" by simp
  ultimately show ?thesis by (simp only: unat_of_nat) simp
qed

text \<open>Number of slots from \<open>t\<close> up to, and not including, \<open>h\<close> in a ring of \<open>V\<close> slots.\<close>

definition ring_count :: "nat \<Rightarrow> nat \<Rightarrow> nat \<Rightarrow> nat" where
  "ring_count V h t = (h + V - t) mod V"

lemma ring_count_cases:
  assumes "h < V" and "t < V"
  shows "ring_count V h t = (if t \<le> h then h - t else h + V - t)"
proof (cases "t \<le> h")
  case True
  then have "h + V - t = h - t + V" by simp
  with True assms show ?thesis by (simp only: ring_count_def mod_add_self2) (simp add: less_imp_diff_less)
next
  case False
  with assms show ?thesis by (simp add: ring_count_def)
qed

lemma ring_count_0_iff: "h < V \<Longrightarrow> t < V \<Longrightarrow> ring_count V h t = 0 \<longleftrightarrow> h = t"
  by (auto simp: ring_count_cases split: if_splits)

lemma ring_full_iff: "h < V \<Longrightarrow> t < V \<Longrightarrow> Suc h mod V = t \<longleftrightarrow> \<not> ring_count V h t < V - 1"
  by (auto simp: ring_count_cases Suc_mod_cases split: if_splits)

lemma Suc_mod_less: "h < V \<Longrightarrow> Suc h mod V < V"
  by (simp add: Suc_mod_cases)

lemma ring_count_push:
  "h < V \<Longrightarrow> t < V \<Longrightarrow> Suc h mod V \<noteq> t \<Longrightarrow> ring_count V (Suc h mod V) t = Suc (ring_count V h t)"
  by (auto simp: ring_count_cases Suc_mod_less) (auto simp: Suc_mod_cases split: if_splits)

lemma ring_count_pop:
  "h < V \<Longrightarrow> t < V \<Longrightarrow> h \<noteq> t \<Longrightarrow> ring_count V h t = Suc (ring_count V h (Suc t mod V))"
  by (auto simp: ring_count_cases Suc_mod_less) (auto simp: Suc_mod_cases split: if_splits)

lemma ring_write_slot: "h < V \<Longrightarrow> t < V \<Longrightarrow> (t + ring_count V h t) mod V = h"
  by (auto simp: ring_count_cases)

section \<open>The abstract queue and runs of operations\<close>

datatype 'a queue_op = Push 'a | Pop
datatype 'a queue_res = Pushed bool | Popped "'a option"

fun spec_run :: "nat \<Rightarrow> 'a list \<Rightarrow> 'a queue_op list \<Rightarrow> 'a queue_res list" where
  "spec_run cap xs [] = []"
| "spec_run cap xs (Push v # ops) =
     (if length xs < cap then Pushed True # spec_run cap (xs @ [v]) ops
      else Pushed False # spec_run cap xs ops)"
| "spec_run cap [] (Pop # ops) = Popped None # spec_run cap [] ops"
| "spec_run cap (x # xs) (Pop # ops) = Popped (Some x) # spec_run cap xs ops"

fun queue_run :: "('q \<Rightarrow> 'a \<Rightarrow> bool \<times> 'q) \<Rightarrow> ('q \<Rightarrow> 'a option \<times> 'q) \<Rightarrow> 'q \<Rightarrow> 'a queue_op list \<Rightarrow> 'a queue_res list" where
  "queue_run push pop q [] = []"
| "queue_run push pop q (Push v # ops) =
     (case push q v of (b, q') \<Rightarrow> Pushed b # queue_run push pop q' ops)"
| "queue_run push pop q (Pop # ops) =
     (case pop q of (r, q') \<Rightarrow> Popped r # queue_run push pop q' ops)"

section \<open>The contract\<close>

locale bounded_fifo =
  fixes push :: "'q \<Rightarrow> 'a \<Rightarrow> bool \<times> 'q"
    and pop :: "'q \<Rightarrow> 'a option \<times> 'q"
    and contents :: "'q \<Rightarrow> 'a list"
    and capacity :: "'q \<Rightarrow> nat"
    and inv :: "'q \<Rightarrow> bool"
  assumes push_full: "inv q \<Longrightarrow> \<not> length (contents q) < capacity q \<Longrightarrow> push q v = (False, q)"
    and push_room: "inv q \<Longrightarrow> length (contents q) < capacity q \<Longrightarrow>
          \<exists>q'. push q v = (True, q') \<and> inv q' \<and> contents q' = contents q @ [v] \<and> capacity q' = capacity q"
    and pop_empty: "inv q \<Longrightarrow> contents q = [] \<Longrightarrow> pop q = (None, q)"
    and pop_front: "inv q \<Longrightarrow> contents q = x # xs \<Longrightarrow>
          \<exists>q'. pop q = (Some x, q') \<and> inv q' \<and> contents q' = xs \<and> capacity q' = capacity q"
begin

text \<open>Every sequence of operations returns what the abstract bounded queue returns.\<close>

lemma run_refines:
  "inv q \<Longrightarrow> queue_run push pop q ops = spec_run (capacity q) (contents q) ops"
proof (induction ops arbitrary: q)
  case Nil
  then show ?case by simp
next
  case (Cons op ops)
  show ?case
  proof (cases op)
    case (Push v)
    show ?thesis
    proof (cases "length (contents q) < capacity q")
      case True
      then obtain q' where "push q v = (True, q')" "inv q'" "contents q' = contents q @ [v]"
        "capacity q' = capacity q"
        using push_room [OF Cons.prems] by blast
      with True Cons.IH [of q'] Push show ?thesis by simp
    next
      case False
      with push_full [OF Cons.prems False, of v] Cons.IH [OF Cons.prems] Push show ?thesis by simp
    qed
  next
    case Pop
    show ?thesis
    proof (cases "contents q")
      case Nil
      with pop_empty [OF Cons.prems] Cons.IH [OF Cons.prems] Pop show ?thesis by simp
    next
      case (Cons x xs)
      then obtain q' where "pop q = (Some x, q')" "inv q'" "contents q' = xs" "capacity q' = capacity q"
        using pop_front [OF Cons.prems] by blast
      with Cons Cons.IH [of q'] Pop show ?thesis by simp
    qed
  qed
qed

end

end
