(* ===== verification/ArrayQueue.thy ===== *)
theory ArrayQueue
  imports Ring
begin

unbundle bit_operations_syntax

text \<open>
  \<^verbatim>\<open>util/arrayQueue.h\<close>: a ring buffer whose capacity is rounded up to a power of two.  Positions are
  32-bit words; \<^verbatim>\<open>m_head\<close> is the last slot written and \<^verbatim>\<open>m_tail\<close> the last slot read.  The blocking
  variants take the wake-ups of their condition variable as an explicit list: for each wait, whether
  it timed out and the position the peer thread has published by then.  The theory shows that the
  non-blocking operations implement the abstract bounded queue, that the blocking ones add exactly
  their value or leave the queue alone, and that one producer and one consumer running push and pop
  without a lock, statement by statement, never lose, duplicate or reorder a value.
\<close>

record 'a arrayQueue =
  m_queue :: "'a list"
  m_volumn :: u32
  m_mask :: u32
  m_head :: u32
  m_tail :: u32

text \<open>\<^verbatim>\<open>while ((s <<= 1) < sz);\<close> wraps to 0 and then never ends when \<open>sz\<close> exceeds $2^{31}$.\<close>

partial_function (option) calVolumn_loop :: "u32 \<Rightarrow> u32 \<Rightarrow> u32 option" where
  "calVolumn_loop s sz =
     (let s' = push_bit 1 s in if s' < sz then calVolumn_loop s' sz else Some s')"

definition calVolumn :: "u32 \<Rightarrow> u32 option" where
  "calVolumn sz = calVolumn_loop 1 sz"

text \<open>
  The constructor; \<open>d\<close> is the value of a default-initialised element.  The request is an \<^verbatim>\<open>int\<close>, whose value is \<open>sint sz\<close>; \<^verbatim>\<open>calVolumn\<close> takes it as a
  \<^verbatim>\<open>uint32_t\<close>.
\<close>

definition arrayQueue_new :: "'a \<Rightarrow> 32 word \<Rightarrow> 'a arrayQueue option" where
  "arrayQueue_new d sz =
     (case calVolumn (word_of_int (sint sz)) of None \<Rightarrow> None
      | Some v \<Rightarrow> Some \<lparr>m_queue = replicate (unat v) d, m_volumn = v, m_mask = v - 1, m_head = 0, m_tail = 0\<rparr>)"

definition nextPos :: "'a arrayQueue \<Rightarrow> u32 \<Rightarrow> u32" where
  "nextPos q pos = (pos + 1) AND m_mask q"

definition isEndPos :: "'a arrayQueue \<Rightarrow> u32 \<Rightarrow> bool" where
  "isEndPos q pos = (nextPos q pos = m_tail q)"

definition aq_full :: "'a arrayQueue \<Rightarrow> bool" where
  "aq_full q = isEndPos q (m_head q)"

definition aq_empty :: "'a arrayQueue \<Rightarrow> bool" where
  "aq_empty q = (m_head q = m_tail q)"

definition aq_push :: "'a arrayQueue \<Rightarrow> 'a \<Rightarrow> bool \<times> 'a arrayQueue" where
  "aq_push q v =
     (let next = nextPos q (m_head q) in
      if next = m_tail q then (False, q)
      else (True, q\<lparr>m_queue := (m_queue q)[unat next := v], m_head := next\<rparr>))"

definition aq_pop :: "'a arrayQueue \<Rightarrow> 'a option \<times> 'a arrayQueue" where
  "aq_pop q =
     (if aq_empty q then (None, q)
      else let next = nextPos q (m_tail q) in
           (Some (m_queue q ! unat next), q\<lparr>m_tail := next\<rparr>))"

abbreviation no_timeout :: u32 where "no_timeout \<equiv> 0xffffffff"

text \<open>
  \<^verbatim>\<open>pushWithCond\<close> and \<^verbatim>\<open>pushWithLock_\<close> run the same loop, with and without holding the lock between
  waits.  \<open>None\<close> means that the call is still waiting when the given wake-ups are used up.
\<close>

fun aq_pushWithCond :: "'a arrayQueue \<Rightarrow> 'a \<Rightarrow> u32 \<Rightarrow> (bool \<times> u32) list \<Rightarrow> (bool \<times> 'a arrayQueue) option" where
  "aq_pushWithCond q v outTime wakes =
     (let next = nextPos q (m_head q) in
      if next = m_tail q then
        (case wakes of [] \<Rightarrow> None
         | (timedOut, tail) # ws \<Rightarrow>
             if timedOut \<and> outTime \<noteq> no_timeout then Some (False, q\<lparr>m_tail := tail\<rparr>)
             else aq_pushWithCond (q\<lparr>m_tail := tail\<rparr>) v outTime ws)
      else Some (True, q\<lparr>m_queue := (m_queue q)[unat next := v], m_head := next\<rparr>))"

definition aq_pushWithLock :: "'a arrayQueue \<Rightarrow> 'a \<Rightarrow> u32 \<Rightarrow> (bool \<times> u32) list \<Rightarrow> (bool \<times> 'a arrayQueue) option" where
  "aq_pushWithLock q v outTime wakes = aq_pushWithCond q v outTime wakes"

text \<open>A waiting consumer sees the array and the head as the producer has published them.\<close>

fun aq_popWithCond :: "'a arrayQueue \<Rightarrow> u32 \<Rightarrow> (bool \<times> 'a list \<times> u32) list \<Rightarrow> ('a option \<times> 'a arrayQueue) option" where
  "aq_popWithCond q outTime wakes =
     (if aq_empty q then
        (case wakes of [] \<Rightarrow> None
         | (timedOut, arr, hd') # ws \<Rightarrow>
             if timedOut \<and> outTime \<noteq> no_timeout then Some (None, q\<lparr>m_queue := arr, m_head := hd'\<rparr>)
             else aq_popWithCond (q\<lparr>m_queue := arr, m_head := hd'\<rparr>) outTime ws)
      else let next = nextPos q (m_tail q) in
           Some (Some (m_queue q ! unat next), q\<lparr>m_tail := next\<rparr>))"

definition aq_popWithLock :: "'a arrayQueue \<Rightarrow> u32 \<Rightarrow> (bool \<times> 'a list \<times> u32) list \<Rightarrow> ('a option \<times> 'a arrayQueue) option" where
  "aq_popWithLock q outTime wakes = aq_popWithCond q outTime wakes"

declare aq_pushWithCond.simps [simp del] aq_popWithCond.simps [simp del]

lemma nextPos_upd [simp]:
  "nextPos (q\<lparr>m_queue := xs\<rparr>) p = nextPos q p"
  "nextPos (q\<lparr>m_head := h\<rparr>) p = nextPos q p"
  "nextPos (q\<lparr>m_tail := t\<rparr>) p = nextPos q p"
  by (simp_all add: nextPos_def)

section \<open>Capacity computation\<close>

lemma calVolumn_loop_pow2:
  assumes "k < 31" and "sz \<le> (2 ^ 31 :: u32)"
  shows "\<exists>j. k < j \<and> j \<le> 31 \<and> calVolumn_loop (2 ^ k) sz = Some (2 ^ j) \<and> sz \<le> 2 ^ j"
  using assms
proof (induction "31 - k" arbitrary: k)
  case 0
  then show ?case by simp
next
  case (Suc d)
  have sh: "push_bit 1 (2 ^ k :: u32) = 2 ^ Suc k" by (simp add: push_bit_eq_mult)
  have step: "calVolumn_loop (2 ^ k) sz
      = (if 2 ^ Suc k < sz then calVolumn_loop (2 ^ Suc k) sz else Some (2 ^ Suc k))"
    by (subst calVolumn_loop.simps) (simp only: Let_def sh)
  show ?case
  proof (cases "(2 ^ Suc k :: u32) < sz")
    case True
    have "k \<noteq> 30"
    proof
      assume "k = 30"
      with True Suc.prems(2) show False by simp
    qed
    with Suc.hyps(2) Suc.prems
    have "\<exists>j. Suc k < j \<and> j \<le> 31 \<and> calVolumn_loop (2 ^ Suc k) sz = Some (2 ^ j) \<and> sz \<le> 2 ^ j"
      by (intro Suc.hyps(1)) simp_all
    with True show ?thesis by (metis Suc_lessD step)
  next
    case False
    then have "sz \<le> 2 ^ Suc k" by simp
    with False Suc.prems(1) show ?thesis
      by (intro exI [of _ "Suc k"]) (simp only: step, simp)
  qed
qed

lemma calVolumn_loop_zero: "0 < sz \<Longrightarrow> calVolumn_loop 0 sz = None"
proof (rule ccontr)
  assume sz: "0 < sz" and "calVolumn_loop 0 sz \<noteq> None"
  then obtain r where ret: "calVolumn_loop 0 sz = Some r" by auto
  have "\<not> ((0::u32) = 0 \<and> 0 < sz)"
  proof (rule calVolumn_loop.raw_induct [where P = "\<lambda>s sz r. \<not> (s = 0 \<and> 0 < sz)", OF _ ret])
    fix f :: "u32 \<Rightarrow> u32 \<Rightarrow> u32 option" and s sz r
    assume "\<And>s sz r. f s sz = Some r \<Longrightarrow> \<not> (s = 0 \<and> 0 < sz)"
      and "(let s' = push_bit 1 s in if s' < sz then f s' sz else Some s') = Some r"
    then show "\<not> (s = 0 \<and> 0 < sz)" by (auto simp: Let_def split: if_splits)
  qed
  with sz show False by simp
qed

section \<open>Representation invariant and abstraction\<close>

definition aq_inv :: "'a arrayQueue \<Rightarrow> bool" where
  "aq_inv q \<longleftrightarrow> (\<exists>k. 1 \<le> k \<and> k \<le> 31 \<and> m_volumn q = 2 ^ k \<and> m_mask q = 2 ^ k - 1 \<and> length (m_queue q) = 2 ^ k)
     \<and> unat (m_head q) < length (m_queue q) \<and> unat (m_tail q) < length (m_queue q)"

definition aq_count :: "'a arrayQueue \<Rightarrow> nat" where
  "aq_count q = (unat (m_head q) + length (m_queue q) - unat (m_tail q)) mod length (m_queue q)"

definition aq_contents :: "'a arrayQueue \<Rightarrow> 'a list" where
  "aq_contents q = ring_read (m_queue q) (Suc (unat (m_tail q))) (aq_count q)"

definition aq_capacity :: "'a arrayQueue \<Rightarrow> nat" where
  "aq_capacity q = length (m_queue q) - 1"

lemma unat_nextPos:
  assumes "aq_inv q" and "unat p < length (m_queue q)"
  shows "unat (nextPos q p) = Suc (unat p) mod length (m_queue q)"
proof -
  from assms(1) obtain k where k: "k \<le> 31" "m_mask q = 2 ^ k - 1" "length (m_queue q) = 2 ^ k"
    by (auto simp: aq_inv_def)
  have "unat p < 2 ^ 31"
    using assms(2) k power_increasing [of k 31 "2::nat"] by linarith
  then have "unat (p + 1) = Suc (unat p)"
    by (simp add: unat_word_ariths)
  with k show ?thesis by (simp add: nextPos_def mask_eq_pow_minus_1 unat_and_mask)
qed

lemma aq_lenD: "aq_inv q \<Longrightarrow> 2 \<le> length (m_queue q)"
proof -
  assume "aq_inv q"
  then obtain k where "1 \<le> k" and "length (m_queue q) = 2 ^ k" by (auto simp: aq_inv_def)
  then show ?thesis using power_increasing [of 1 k "2::nat"] by simp
qed

lemma aq_boundsD: "aq_inv q \<Longrightarrow> unat (m_head q) < length (m_queue q) \<and> unat (m_tail q) < length (m_queue q)"
  by (simp add: aq_inv_def)

lemma aq_count_cases:
  "aq_inv q \<Longrightarrow> aq_count q = (if unat (m_tail q) \<le> unat (m_head q) then unat (m_head q) - unat (m_tail q)
     else unat (m_head q) + length (m_queue q) - unat (m_tail q))"
proof -
  assume "aq_inv q"
  note b = aq_boundsD [OF this]
  show ?thesis
  proof (cases "unat (m_tail q) \<le> unat (m_head q)")
    case True
    then have "unat (m_head q) + length (m_queue q) - unat (m_tail q)
        = unat (m_head q) - unat (m_tail q) + length (m_queue q)" by simp
    with b have "aq_count q = unat (m_head q) - unat (m_tail q)"
      by (simp only: aq_count_def mod_add_self2) (simp add: less_imp_diff_less)
    with True show ?thesis by simp
  next
    case False
    with b have "unat (m_head q) + length (m_queue q) - unat (m_tail q) < length (m_queue q)" by linarith
    with False show ?thesis by (simp add: aq_count_def)
  qed
qed

lemma aq_empty_iff: "aq_inv q \<Longrightarrow> aq_empty q \<longleftrightarrow> aq_contents q = []"
proof -
  assume q: "aq_inv q"
  have "aq_empty q \<longleftrightarrow> aq_count q = 0"
    using aq_boundsD [OF q] by (auto simp: aq_empty_def aq_count_cases [OF q] word_unat_eq_iff split: if_splits)
  then show ?thesis by (auto simp: aq_contents_def dest: arg_cong [where f = length])
qed

lemma nextPos_tail_iff:
  assumes q: "aq_inv q"
  shows "nextPos q (m_head q) = m_tail q \<longleftrightarrow> \<not> length (aq_contents q) < aq_capacity q"
proof -
  note b = aq_boundsD [OF q]
  have "nextPos q (m_head q) = m_tail q \<longleftrightarrow> Suc (unat (m_head q)) mod length (m_queue q) = unat (m_tail q)"
    using unat_nextPos [OF q] b by (auto simp: word_unat_eq_iff)
  also have "\<dots> \<longleftrightarrow> \<not> aq_count q < length (m_queue q) - 1"
    using b aq_lenD [OF q] by (auto simp: aq_count_cases [OF q] Suc_mod_cases split: if_splits)
  finally show ?thesis by (simp add: aq_contents_def aq_capacity_def)
qed

text \<open>Storing at the slot after the head and publishing it appends; the slot is outside the live window.\<close>

lemma next_slot:
  assumes q: "aq_inv q"
  shows "unat (nextPos q (m_head q)) = (Suc (unat (m_tail q)) + aq_count q) mod length (m_queue q)"
proof -
  note b = aq_boundsD [OF q]
  have "(Suc (unat (m_tail q)) + aq_count q) mod length (m_queue q) = Suc (unat (m_head q)) mod length (m_queue q)"
  proof (cases "unat (m_tail q) \<le> unat (m_head q)")
    case True
    then show ?thesis by (simp add: aq_count_cases [OF q])
  next
    case False
    with b have "Suc (unat (m_tail q)) + aq_count q = Suc (unat (m_head q)) + length (m_queue q)"
      by (simp add: aq_count_cases [OF q])
    then show ?thesis by (simp only: mod_add_self2)
  qed
  with unat_nextPos [OF q] b show ?thesis by simp
qed

lemma aq_inv_store: "aq_inv q \<Longrightarrow> aq_inv (q\<lparr>m_queue := (m_queue q)[i := v]\<rparr>)"
  by (simp add: aq_inv_def)

lemma aq_inv_head: "aq_inv q \<Longrightarrow> unat p < length (m_queue q) \<Longrightarrow> aq_inv (q\<lparr>m_head := p\<rparr>)"
  by (simp add: aq_inv_def)

lemma aq_inv_tail: "aq_inv q \<Longrightarrow> unat p < length (m_queue q) \<Longrightarrow> aq_inv (q\<lparr>m_tail := p\<rparr>)"
  by (simp add: aq_inv_def)

lemma nextPos_less: "aq_inv q \<Longrightarrow> unat p < length (m_queue q) \<Longrightarrow> unat (nextPos q p) < length (m_queue q)"
  by (simp only: unat_nextPos) (rule mod_less_divisor, linarith)

lemma aq_store_contents:
  assumes q: "aq_inv q" and room: "nextPos q (m_head q) \<noteq> m_tail q"
  shows "aq_contents (q\<lparr>m_queue := (m_queue q)[unat (nextPos q (m_head q)) := v]\<rparr>) = aq_contents q"
proof -
  have "aq_count q < length (m_queue q)"
    using nextPos_tail_iff [OF q] room by (simp add: aq_contents_def aq_capacity_def)
  then show ?thesis
    using ring_read_update [of "aq_count q" "aq_count q" "m_queue q" "Suc (unat (m_tail q))" v]
    by (simp add: aq_contents_def aq_count_def next_slot [OF q])
qed

lemma aq_publish_contents:
  assumes q: "aq_inv q" and room: "nextPos q (m_head q) \<noteq> m_tail q"
  shows "aq_contents (q\<lparr>m_head := nextPos q (m_head q)\<rparr>)
       = aq_contents q @ [m_queue q ! unat (nextPos q (m_head q))]"
proof -
  let ?q = "q\<lparr>m_head := nextPos q (m_head q)\<rparr>"
  note b = aq_boundsD [OF q]
  have inv: "aq_inv ?q" using q b by (simp add: aq_inv_head nextPos_less)
  have small: "aq_count q < length (m_queue q) - 1"
    using nextPos_tail_iff [OF q] room by (simp add: aq_contents_def aq_capacity_def)
  have c: "aq_count ?q = Suc (aq_count q)"
    using b small by (auto simp: aq_count_cases [OF q] aq_count_cases [OF inv] unat_nextPos [OF q]
        Suc_mod_cases split: if_splits)
  show ?thesis
    by (simp add: aq_contents_def c next_slot [OF q]) (simp add: ring_read_def)
qed

lemma aq_consume_contents:
  assumes q: "aq_inv q" and data: "m_head q \<noteq> m_tail q"
  shows "aq_contents q = m_queue q ! unat (nextPos q (m_tail q)) # aq_contents (q\<lparr>m_tail := nextPos q (m_tail q)\<rparr>)"
proof -
  let ?q = "q\<lparr>m_tail := nextPos q (m_tail q)\<rparr>"
  note b = aq_boundsD [OF q]
  have inv: "aq_inv ?q" using q b by (simp add: aq_inv_tail nextPos_less)
  have "unat (m_head q) \<noteq> unat (m_tail q)" using data by (simp add: word_unat_eq_iff)
  then have c: "aq_count q = Suc (aq_count ?q)"
    using b by (auto simp: aq_count_cases [OF q] aq_count_cases [OF inv] unat_nextPos [OF q]
        Suc_mod_cases split: if_splits)
  have n: "unat (nextPos q (m_tail q)) = Suc (unat (m_tail q)) mod length (m_queue q)"
    using b by (simp add: unat_nextPos [OF q])
  have "ring_read (m_queue q) (Suc (Suc (unat (m_tail q)) mod length (m_queue q))) k
      = ring_read (m_queue q) (Suc (Suc (unat (m_tail q)))) k" for k
    using ring_read_mod [of "m_queue q" "Suc (Suc (unat (m_tail q)))" k]
    by (metis ring_read_mod mod_Suc_eq)
  then show ?thesis
    by (simp add: aq_contents_def c ring_read_Suc n)
qed

section \<open>Push and pop implement the bounded queue\<close>

lemma aq_push_room:
  fixes q :: "'a arrayQueue" and v :: 'a
  assumes q: "aq_inv q" and room: "nextPos q (m_head q) \<noteq> m_tail q"
  defines "q' \<equiv> q\<lparr>m_queue := (m_queue q)[unat (nextPos q (m_head q)) := v], m_head := nextPos q (m_head q)\<rparr>"
  shows "aq_inv q' \<and> aq_contents q' = aq_contents q @ [v] \<and> aq_capacity q' = aq_capacity q"
proof -
  let ?n = "nextPos q (m_head q)"
  let ?s = "q\<lparr>m_queue := (m_queue q)[unat ?n := v]\<rparr>"
  note b = aq_boundsD [OF q]
  have s: "aq_inv ?s" by (rule aq_inv_store [OF q])
  have n: "nextPos ?s (m_head ?s) = ?n" by simp
  have less: "unat ?n < length (m_queue q)" using q b by (simp add: nextPos_less)
  have eq: "q' = ?s\<lparr>m_head := nextPos ?s (m_head ?s)\<rparr>" by (simp add: q'_def n)
  have "aq_contents q' = aq_contents ?s @ [m_queue ?s ! unat ?n]"
    unfolding eq using aq_publish_contents [OF s] room n by simp
  moreover have "aq_contents ?s = aq_contents q" by (rule aq_store_contents [OF q room])
  moreover have "aq_inv q'" unfolding eq n by (rule aq_inv_head [OF s]) (simp add: less)
  ultimately show ?thesis using less by (simp add: q'_def aq_capacity_def)
qed

lemma aq_pop_front:
  fixes q :: "'a arrayQueue"
  assumes q: "aq_inv q" and data: "m_head q \<noteq> m_tail q"
  defines "q' \<equiv> q\<lparr>m_tail := nextPos q (m_tail q)\<rparr>"
  shows "aq_inv q' \<and> aq_contents q = m_queue q ! unat (nextPos q (m_tail q)) # aq_contents q'
       \<and> aq_capacity q' = aq_capacity q"
  using aq_consume_contents [OF q data] aq_boundsD [OF q] q
  by (simp add: q'_def aq_inv_tail nextPos_less aq_capacity_def)

interpretation aq: bounded_fifo aq_push aq_pop aq_contents aq_capacity aq_inv
proof
  fix q :: "'a arrayQueue" and v x and xs :: "'a list"
  assume q: "aq_inv q"
  {
    assume "\<not> length (aq_contents q) < aq_capacity q"
    then show "aq_push q v = (False, q)"
      using nextPos_tail_iff [OF q] by (simp add: aq_push_def)
  next
    assume "length (aq_contents q) < aq_capacity q"
    then have "nextPos q (m_head q) \<noteq> m_tail q" using nextPos_tail_iff [OF q] by simp
    with aq_push_room [OF q this, of v]
    show "\<exists>q'. aq_push q v = (True, q') \<and> aq_inv q' \<and> aq_contents q' = aq_contents q @ [v]
        \<and> aq_capacity q' = aq_capacity q"
      by (simp add: aq_push_def Let_def)
  next
    assume "aq_contents q = []"
    then show "aq_pop q = (None, q)" using aq_empty_iff [OF q] by (simp add: aq_pop_def)
  next
    assume c: "aq_contents q = x # xs"
    then have "m_head q \<noteq> m_tail q" using aq_empty_iff [OF q] by (simp add: aq_empty_def)
    with aq_pop_front [OF q this] c
    show "\<exists>q'. aq_pop q = (Some x, q') \<and> aq_inv q' \<and> aq_contents q' = xs \<and> aq_capacity q' = aq_capacity q"
      by (simp add: aq_pop_def aq_empty_def Let_def)
  }
qed

lemma calVolumn_pow2:
  "sz \<le> 2 ^ 31 \<Longrightarrow> \<exists>k. 1 \<le> k \<and> k \<le> 31 \<and> calVolumn sz = Some (2 ^ k) \<and> sz \<le> 2 ^ k"
  using calVolumn_loop_pow2 [of 0 sz] by (auto simp: calVolumn_def Suc_le_eq)

lemma le_2p31_signed: "w \<le> 2 ^ 31 \<longleftrightarrow> 0 \<le> sint w \<or> sint w = - (2 ^ 31)" for w :: "32 word"
proof -
  have u: "uint w < 2 ^ 32" "0 \<le> uint w" using uint_lt2p [of w] by simp_all
  have s: "sint w = (if uint w < 2 ^ 31 then uint w else uint w - 2 ^ 32)"
  proof -
    have "sint w = (uint w + 2 ^ 31) mod 2 ^ 32 - 2 ^ 31" by (simp add: sint_uint signed_take_bit_eq_take_bit_shift take_bit_eq_mod)
    moreover have "(uint w + 2 ^ 31) mod 2 ^ 32 = (if uint w < 2 ^ 31 then uint w + 2 ^ 31 else uint w - 2 ^ 31)"
    proof (cases "uint w < 2 ^ 31")
      case True
      then show ?thesis using u by simp
    next
      case False
      have "(uint w + 2 ^ 31) mod 2 ^ 32 = (uint w - 2 ^ 31) mod 2 ^ 32" by (simp add: mod_eq_dvd_iff)
      then show ?thesis using False u by simp
    qed
    ultimately show ?thesis by simp
  qed
  have "w \<le> 2 ^ 31 \<longleftrightarrow> uint w \<le> 2 ^ 31" by (simp add: word_le_def)
  then show ?thesis using u unfolding s by (auto split: if_splits)
qed

lemma arrayQueue_new_inv:
  assumes "sz \<le> 2 ^ 31"
  shows "\<exists>q. arrayQueue_new d sz = Some q \<and> aq_inv q \<and> aq_contents q = [] \<and> unat sz \<le> aq_capacity q + 1"
proof -
  from calVolumn_pow2 [OF assms] obtain k
    where k: "1 \<le> k" "k \<le> 31" "calVolumn sz = Some (2 ^ k)" "sz \<le> 2 ^ k" by blast
  let ?q = "\<lparr>m_queue = replicate (2 ^ k) d, m_volumn = 2 ^ k, m_mask = 2 ^ k - 1, m_head = 0, m_tail = 0\<rparr>"
  have "arrayQueue_new d sz = Some ?q" using k by (simp add: arrayQueue_new_def unat_2p_u32)
  moreover have "aq_inv ?q" using k by (auto simp: aq_inv_def)
  moreover have "aq_contents ?q = []" by (simp add: aq_contents_def aq_count_def)
  moreover have "unat sz \<le> aq_capacity ?q + 1"
    using k by (simp add: aq_capacity_def word_le_nat_alt unat_2p_u32)
  ultimately show ?thesis by blast
qed

lemma calVolumn_too_big: "2 ^ 31 < sz \<Longrightarrow> calVolumn sz = None"
proof -
  assume big: "2 ^ 31 < sz"
  have "calVolumn_loop (2 ^ k) sz = None" if "k \<le> 31" for k
    using that
  proof (induction "31 - k" arbitrary: k)
    case 0
    then have "push_bit 1 (2 ^ k :: u32) = 0" by simp
    moreover have "0 < sz" using big by (metis not_less_zero word_gt_0 word_not_simps(1))
    ultimately show ?case by (subst calVolumn_loop.simps) (simp add: calVolumn_loop_zero)
  next
    case (Suc d)
    have sh: "push_bit 1 (2 ^ k :: u32) = 2 ^ Suc k" by (simp add: push_bit_eq_mult)
    from Suc.hyps(2) have k: "Suc k \<le> 31" by simp
    then have "(2::nat) ^ Suc k \<le> 2 ^ 31" by (intro power_increasing) simp_all
    then have "(2 ^ Suc k :: u32) \<le> 2 ^ 31"
      using k by (simp only: word_le_nat_alt unat_2p_u32)
    then have "(2 ^ Suc k :: u32) < sz" using big by (rule le_less_trans)
    moreover have "calVolumn_loop (2 ^ Suc k) sz = None"
      using Suc.hyps(2) k by (intro Suc.hyps(1)) simp_all
    ultimately show ?case by (subst calVolumn_loop.simps) (simp only: Let_def sh if_True)
  qed
  from this [of 0] show ?thesis by (simp add: calVolumn_def)
qed

section \<open>The blocking operations\<close>

lemma pushWithCond_result:
  assumes "aq_inv q" and "\<forall>(b, t) \<in> set wakes. unat t < length (m_queue q)"
    and "aq_pushWithCond q v outTime wakes = Some (ok, q')"
  shows "\<exists>t. unat t < length (m_queue q) \<and>
     (if ok then aq_inv q' \<and> aq_contents q' = aq_contents (q\<lparr>m_tail := t\<rparr>) @ [v]
      else outTime \<noteq> no_timeout \<and> q' = q\<lparr>m_tail := t\<rparr>)"
  using assms
proof (induction q v outTime wakes rule: aq_pushWithCond.induct)
  case (1 q v outTime wakes)
  show ?case
  proof (cases "nextPos q (m_head q) = m_tail q")
    case False
    with 1 have "ok" and "q' = q\<lparr>m_queue := (m_queue q)[unat (nextPos q (m_head q)) := v], m_head := nextPos q (m_head q)\<rparr>"
      by (auto simp: aq_pushWithCond.simps [of q] Let_def)
    with aq_push_room [OF "1.prems"(1) False, of v] aq_boundsD [OF "1.prems"(1)] show ?thesis
      by (intro exI [of _ "m_tail q"]) simp
  next
    case True
    with 1 obtain b t ws where w: "wakes = (b, t) # ws"
      by (cases wakes) (auto simp: aq_pushWithCond.simps [of q] Let_def)
    with "1.prems" have t: "unat t < length (m_queue q)" by simp
    show ?thesis
    proof (cases "b \<and> outTime \<noteq> no_timeout")
      case timeout: True
      with True w "1.prems"(3) t show ?thesis
        by (intro exI [of _ t]) (auto simp: aq_pushWithCond.simps [of q] Let_def)
    next
      case retry: False
      with True w "1.prems"(3) have "aq_pushWithCond (q\<lparr>m_tail := t\<rparr>) v outTime ws = Some (ok, q')"
        by (simp add: aq_pushWithCond.simps [of q] Let_def)
      with 1(1) [OF refl True w refl retry] "1.prems" w t show ?thesis
        by (auto simp: aq_inv_tail)
    qed
  qed
qed

text \<open>Without a time limit a producer succeeds as soon as one wake-up finds room.\<close>

lemma pushWithCond_progress:
  assumes "\<exists>(b, t) \<in> set wakes. nextPos q (m_head q) \<noteq> t"
  shows "\<exists>q'. aq_pushWithCond q v no_timeout wakes = Some (True, q')"
  using assms
proof (induction wakes arbitrary: q)
  case Nil
  then show ?case by simp
next
  case (Cons w ws)
  obtain b t where w: "w = (b, t)" by (cases w)
  show ?case
  proof (cases "nextPos q (m_head q) = m_tail q")
    case True
    show ?thesis
    proof (cases "nextPos q (m_head q) = t")
      case eq: True
      with Cons.prems w have "\<exists>(b, u) \<in> set ws. nextPos (q\<lparr>m_tail := t\<rparr>) (m_head (q\<lparr>m_tail := t\<rparr>)) \<noteq> u"
        by auto
      from Cons.IH [OF this] True w show ?thesis
        by (auto simp: aq_pushWithCond.simps [of q] Let_def eq)
    next
      case False
      then show ?thesis
        using True w by (simp add: aq_pushWithCond.simps [of q] aq_pushWithCond.simps [of "q\<lparr>m_tail := t\<rparr>"] Let_def)
    qed
  next
    case False
    then show ?thesis by (simp add: aq_pushWithCond.simps [of q] Let_def)
  qed
qed

section \<open>One producer and one consumer without a lock\<close>

text \<open>
  \<^verbatim>\<open>push\<close> and \<^verbatim>\<open>pop\<close> of one producer and one consumer thread, interleaved at the granularity of the
  accesses to the shared fields: the test against the peer's position, the array access, and the
  publication of the own position.  Accesses take effect in program order.  \<open>sent\<close> and \<open>received\<close>
  record the values of the completed calls that returned true.
\<close>

datatype 'a producer = PIdle | PRoom 'a u32 | PStored 'a u32
datatype 'a consumer = CIdle | CData u32 | CLoaded 'a u32

record 'a spsc =
  shared :: "'a arrayQueue"
  prod :: "'a producer"
  cons :: "'a consumer"
  sent :: "'a list"
  received :: "'a list"

inductive spsc_step :: "'a spsc \<Rightarrow> 'a spsc \<Rightarrow> bool" where
  p_full: "prod s = PIdle \<Longrightarrow> nextPos (shared s) (m_head (shared s)) = m_tail (shared s) \<Longrightarrow> spsc_step s s"
| p_room: "prod s = PIdle \<Longrightarrow> next = nextPos (shared s) (m_head (shared s)) \<Longrightarrow> next \<noteq> m_tail (shared s) \<Longrightarrow>
    spsc_step s (s\<lparr>prod := PRoom v next\<rparr>)"
| p_store: "prod s = PRoom v next \<Longrightarrow>
    spsc_step s (s\<lparr>shared := (shared s)\<lparr>m_queue := (m_queue (shared s))[unat next := v]\<rparr>, prod := PStored v next\<rparr>)"
| p_publish: "prod s = PStored v next \<Longrightarrow>
    spsc_step s (s\<lparr>shared := (shared s)\<lparr>m_head := next\<rparr>, prod := PIdle, sent := sent s @ [v]\<rparr>)"
| c_empty: "cons s = CIdle \<Longrightarrow> aq_empty (shared s) \<Longrightarrow> spsc_step s s"
| c_data: "cons s = CIdle \<Longrightarrow> \<not> aq_empty (shared s) \<Longrightarrow>
    spsc_step s (s\<lparr>cons := CData (nextPos (shared s) (m_tail (shared s)))\<rparr>)"
| c_load: "cons s = CData next \<Longrightarrow>
    spsc_step s (s\<lparr>cons := CLoaded (m_queue (shared s) ! unat next) next\<rparr>)"
| c_publish: "cons s = CLoaded v next \<Longrightarrow>
    spsc_step s (s\<lparr>shared := (shared s)\<lparr>m_tail := next\<rparr>, cons := CIdle, received := received s @ [v]\<rparr>)"

definition spsc_init :: "'a arrayQueue \<Rightarrow> 'a spsc" where
  "spsc_init q = \<lparr>shared = q, prod = PIdle, cons = CIdle, sent = [], received = []\<rparr>"

fun prod_ok :: "'a arrayQueue \<Rightarrow> 'a producer \<Rightarrow> bool" where
  "prod_ok q PIdle = True"
| "prod_ok q (PRoom v n) = (n = nextPos q (m_head q) \<and> n \<noteq> m_tail q)"
| "prod_ok q (PStored v n) = (n = nextPos q (m_head q) \<and> n \<noteq> m_tail q \<and> m_queue q ! unat n = v)"

fun cons_ok :: "'a arrayQueue \<Rightarrow> 'a consumer \<Rightarrow> bool" where
  "cons_ok q CIdle = True"
| "cons_ok q (CData n) = (n = nextPos q (m_tail q) \<and> m_head q \<noteq> m_tail q)"
| "cons_ok q (CLoaded v n) = (n = nextPos q (m_tail q) \<and> m_head q \<noteq> m_tail q \<and> m_queue q ! unat n = v)"

definition spsc_inv :: "'a spsc \<Rightarrow> bool" where
  "spsc_inv s \<longleftrightarrow> aq_inv (shared s) \<and> prod_ok (shared s) (prod s) \<and> cons_ok (shared s) (cons s)
     \<and> sent s = received s @ aq_contents (shared s)"

lemma nextPos_inj:
  assumes q: "aq_inv q" and "unat a < length (m_queue q)" and "unat b < length (m_queue q)"
    and "nextPos q a = nextPos q b"
  shows "a = b"
proof -
  have "Suc (unat a) mod length (m_queue q) = Suc (unat b) mod length (m_queue q)"
    using assms unat_nextPos [OF q] by metis
  with assms(2,3) show ?thesis
    by (simp add: Suc_mod_cases word_unat_eq_iff split: if_splits)
qed

text \<open>A full producer and a non-empty consumer never touch the same slot.\<close>

lemma slots_apart:
  assumes "aq_inv q" and "m_head q \<noteq> m_tail q"
  shows "nextPos q (m_head q) \<noteq> nextPos q (m_tail q)"
  using assms nextPos_inj [of q "m_head q" "m_tail q"] aq_boundsD [of q] by blast

lemma unat_slots_apart:
  assumes "aq_inv q" and "m_head q \<noteq> m_tail q"
  shows "unat (nextPos q (m_head q)) \<noteq> unat (nextPos q (m_tail q))"
  using slots_apart [OF assms] by (simp add: word_unat_eq_iff)

lemma nextPos_neq:
  assumes "aq_inv q" and "unat p < length (m_queue q)"
  shows "nextPos q p \<noteq> p"
  using unat_nextPos [OF assms] aq_lenD [OF assms(1)] assms(2)
  by (auto simp: Suc_mod_cases word_unat_eq_iff split: if_splits)

lemma cons_ok_store:
  assumes "aq_inv q" and "cons_ok q c"
  shows "cons_ok (q\<lparr>m_queue := (m_queue q)[unat (nextPos q (m_head q)) := v]\<rparr>) c"
  using assms(2) unat_slots_apart [OF assms(1)] by (cases c) auto

lemma cons_ok_publish:
  assumes q: "aq_inv q" and "cons_ok q c" and room: "nextPos q (m_head q) \<noteq> m_tail q"
  shows "cons_ok (q\<lparr>m_head := nextPos q (m_head q)\<rparr>) c"
  using assms by (cases c) auto

lemma prod_ok_consume:
  assumes q: "aq_inv q" and "prod_ok q p" and data: "m_head q \<noteq> m_tail q"
  shows "prod_ok (q\<lparr>m_tail := nextPos q (m_tail q)\<rparr>) p"
  using assms slots_apart [OF q data] by (cases p) auto

lemma spsc_inv_step:
  assumes "spsc_step s t" and I: "spsc_inv s"
  shows "spsc_inv t"
proof -
  note q = I [unfolded spsc_inv_def, THEN conjunct1]
  note b = aq_boundsD [OF q]
  note d = spsc_inv_def
  from assms(1) show ?thesis
  proof cases
    case (p_room "next" v)
    with I show ?thesis by (simp add: d)
  next
    case (p_store v "next")
    with I have n: "next = nextPos (shared s) (m_head (shared s))" "next \<noteq> m_tail (shared s)" by (auto simp: d)
    with I p_store show ?thesis
      using b nextPos_less [OF q, of "m_head (shared s)"]
      by (simp add: d aq_inv_store cons_ok_store aq_store_contents)
  next
    case (p_publish v "next")
    with I have n: "next = nextPos (shared s) (m_head (shared s))" "next \<noteq> m_tail (shared s)"
      "m_queue (shared s) ! unat next = v" by (auto simp: d)
    with I p_publish show ?thesis
      using b by (simp add: d aq_inv_head nextPos_less cons_ok_publish aq_publish_contents)
  next
    case c_data
    with I show ?thesis by (simp add: d aq_empty_def)
  next
    case (c_load "next")
    with I show ?thesis by (simp add: d)
  next
    case (c_publish v "next")
    with I have n: "next = nextPos (shared s) (m_tail (shared s))" "m_head (shared s) \<noteq> m_tail (shared s)"
      "m_queue (shared s) ! unat next = v" by (auto simp: d)
    with I c_publish show ?thesis
      using b aq_consume_contents [OF q n(2)] by (simp add: d aq_inv_tail nextPos_less prod_ok_consume)
  qed (use I in simp_all)
qed

lemma spsc_inv_reachable:
  assumes "spsc_step\<^sup>*\<^sup>* (spsc_init q) s" and "aq_inv q" and "aq_contents q = []"
  shows "spsc_inv s"
  using assms(1)
proof (induction rule: rtranclp_induct)
  case base
  with assms show ?case by (simp add: spsc_inv_def spsc_init_def)
next
  case (step s t)
  then show ?case by (simp add: spsc_inv_step)
qed

lemma aq_contents_bound:
  assumes "aq_inv q"
  shows "length (aq_contents q) \<le> aq_capacity q"
proof -
  have "aq_count q < length (m_queue q)"
    using aq_lenD [OF assms] unfolding aq_count_def by (intro mod_less_divisor) linarith
  then show ?thesis by (simp add: aq_contents_def aq_capacity_def)
qed

section \<open>The waiting consumer\<close>

text \<open>\<open>published q w\<close> is the queue a consumer sees after the wake-up \<open>w\<close>.\<close>

abbreviation published :: "'a arrayQueue \<Rightarrow> bool \<times> 'a list \<times> u32 \<Rightarrow> 'a arrayQueue" where
  "published q w \<equiv> q\<lparr>m_queue := fst (snd w), m_head := snd (snd w)\<rparr>"

lemma popWithCond_result:
  assumes "aq_inv q" and "\<forall>w \<in> set wakes. aq_inv (published q w)"
    and "aq_popWithCond q outTime wakes = Some (r, q')"
  shows "\<exists>q1. (q1 = q \<or> q1 \<in> published q ` set wakes) \<and>
     (case r of Some x \<Rightarrow> aq_inv q' \<and> aq_contents q1 = x # aq_contents q' \<and> aq_capacity q' = aq_capacity q1
      | None \<Rightarrow> q' = q1 \<and> outTime \<noteq> no_timeout)"
  using assms
proof (induction q outTime wakes rule: aq_popWithCond.induct)
  case (1 q outTime wakes)
  show ?case
  proof (cases "aq_empty q")
    case False
    with 1 have "r = Some (m_queue q ! unat (nextPos q (m_tail q)))" and "q' = q\<lparr>m_tail := nextPos q (m_tail q)\<rparr>"
      by (auto simp: aq_popWithCond.simps [of q] Let_def)
    with aq_pop_front [OF "1.prems"(1)] False show ?thesis
      by (intro exI [of _ q]) (simp add: aq_empty_def)
  next
    case True
    with "1.prems"(3) obtain b arr h ws where w: "wakes = (b, arr, h) # ws"
      by (cases wakes) (auto simp: aq_popWithCond.simps [of q] Let_def)
    let ?p = "q\<lparr>m_queue := arr, m_head := h\<rparr>"
    show ?thesis
    proof (cases "b \<and> outTime \<noteq> no_timeout")
      case timeout: True
      with True w "1.prems"(3) show ?thesis
        by (intro exI [of _ ?p]) (auto simp: aq_popWithCond.simps [of q])
    next
      case retry: False
      with True w "1.prems"(3) have "aq_popWithCond ?p outTime ws = Some (r, q')"
        by (simp add: aq_popWithCond.simps [of q])
      moreover have "aq_inv ?p" and "\<forall>w \<in> set ws. aq_inv (published ?p w)"
        using "1.prems"(2) w by auto
      ultimately obtain q1 where "q1 = ?p \<or> q1 \<in> published ?p ` set ws"
        and r: "case r of Some x \<Rightarrow> aq_inv q' \<and> aq_contents q1 = x # aq_contents q' \<and> aq_capacity q' = aq_capacity q1
          | None \<Rightarrow> q' = q1 \<and> outTime \<noteq> no_timeout"
        using 1(1) [OF True w refl refl retry] by blast
      then have "q1 \<in> published q ` set wakes" using w by auto
      with r show ?thesis by blast
    qed
  qed
qed

definition aq_full_example :: "nat arrayQueue" where
  "aq_full_example = \<lparr>m_queue = [0, 5], m_volumn = 2, m_mask = 1, m_head = 1, m_tail = 0\<rparr>"

definition aq_drained_example :: "nat arrayQueue" where
  "aq_drained_example = \<lparr>m_queue = [0, 5], m_volumn = 2, m_mask = 1, m_head = 1, m_tail = 1\<rparr>"

lemma aq_examples_inv: "aq_inv aq_full_example" "aq_inv aq_drained_example"
  by (auto simp: aq_inv_def aq_full_example_def aq_drained_example_def intro!: exI [of _ "1::nat"])

section \<open>Claims\<close>

text \<open>
  C10: a queue constructed with any request that is at most $2^{31}$ as a \<^verbatim>\<open>uint32_t\<close>, in particular every
  one that is not negative, exists, holds at least one element less than requested, and every sequence of \<^verbatim>\<open>push\<close> and \<^verbatim>\<open>pop\<close> calls on it returns exactly what the
  abstract bounded FIFO queue returns.
\<close>

theorem arrayQueue_refines_fifo:
  fixes d :: 'a
  assumes "sz \<le> 2 ^ 31"
  shows "\<exists>q cap. arrayQueue_new d sz = Some q \<and> unat sz \<le> cap + 1 \<and>
     (\<forall>ops. queue_run aq_push aq_pop q ops = spec_run cap [] ops)"
proof -
  obtain q where q: "arrayQueue_new d sz = Some q" "aq_inv q" "aq_contents q = []" "unat sz \<le> aq_capacity q + 1"
    using arrayQueue_new_inv [OF assms, of d] by blast
  have "queue_run aq_push aq_pop q ops = spec_run (aq_capacity q) [] ops" for ops
    using aq.run_refines [OF q(2)] q(3) by simp
  with q show ?thesis by blast
qed

theorem arrayQueue_refines_fifo_witness:
  "\<exists>q cap. arrayQueue_new (0::nat) 3 = Some q \<and> unat (3::u32) \<le> cap + 1 \<and>
     queue_run aq_push aq_pop q [Push 7, Push 8, Pop, Pop, Pop]
       = [Pushed True, Pushed True, Popped (Some 7), Popped (Some 8), Popped None]"
proof -
  have "(3::u32) \<le> 2 ^ 31" by simp
  from arrayQueue_refines_fifo [OF this, of "0::nat"] obtain q cap
    where q: "arrayQueue_new (0::nat) 3 = Some q" "unat (3::u32) \<le> cap + 1"
      "\<forall>ops. queue_run aq_push aq_pop q ops = spec_run cap [] ops" by blast
  from q(2) have "2 \<le> cap" by simp
  then have "spec_run cap [] [Push 7, Push 8, Pop, Pop, Pop]
      = [Pushed True, Pushed True, Popped (Some 7), Popped (Some (8::nat)), Popped None]" by simp
  with q show ?thesis by metis
qed

text \<open>
  C32: the constructor returns for every request that is not negative, and for the least \<^verbatim>\<open>int\<close>, which is converted to $2^{31}$; for every other negative request the shifted
  word becomes 0 and the constructor does not return.
\<close>

theorem arrayQueue_new_returns_iff: "arrayQueue_new d sz \<noteq> None \<longleftrightarrow> 0 \<le> sint sz \<or> sint sz = - (2 ^ 31)"
proof -
  have "arrayQueue_new d sz \<noteq> None \<longleftrightarrow> sz \<le> 2 ^ 31"
  proof (cases "sz \<le> 2 ^ 31")
    case True
    with arrayQueue_new_inv [OF True, of d] show ?thesis by auto
  next
    case False
    then show ?thesis using calVolumn_too_big [of sz] by (simp add: arrayQueue_new_def not_le)
  qed
  also have "\<dots> \<longleftrightarrow> 0 \<le> sint sz \<or> sint sz = - (2 ^ 31)" by (rule le_2p31_signed)
  finally show ?thesis .
qed

text \<open>
  C21: however a lock-free producer and a lock-free consumer interleave, statement by statement, the
  values received are a prefix of the values sent, in the same order, what is missing is exactly the
  content of the queue, and never more than its capacity.
\<close>

theorem spsc_no_loss_no_reorder:
  assumes "arrayQueue_new d sz = Some q" and "spsc_step\<^sup>*\<^sup>* (spsc_init q) s"
  shows "sent s = received s @ aq_contents (shared s) \<and> aq_inv (shared s)
    \<and> length (sent s) \<le> length (received s) + aq_capacity (shared s)"
proof -
  have "sz \<le> 2 ^ 31" using assms(1) calVolumn_too_big [of sz] by (cases "sz \<le> 2 ^ 31") (auto simp: arrayQueue_new_def not_le)
  from arrayQueue_new_inv [OF this, of d] assms have "spsc_inv s"
    by (intro spsc_inv_reachable [of q]) auto
  then show ?thesis using aq_contents_bound [of "shared s"] by (simp add: spsc_inv_def)
qed

theorem spsc_no_loss_no_reorder_witness:
  "\<exists>q s. arrayQueue_new (0::nat) 2 = Some q \<and> spsc_step\<^sup>*\<^sup>* (spsc_init q) s \<and> sent s = [5]
     \<and> sent s = received s @ aq_contents (shared s) \<and> length (sent s) \<le> length (received s) + aq_capacity (shared s)"
proof -
  have "(2::u32) \<le> 2 ^ 31" by simp
  from arrayQueue_new_inv [OF this, of "0::nat"] obtain q
    where q: "arrayQueue_new (0::nat) 2 = Some q" "aq_inv q" "aq_contents q = []" "1 \<le> aq_capacity q" by auto
  then have room: "nextPos q (m_head q) \<noteq> m_tail q" using nextPos_tail_iff [of q] by simp
  let ?n = "nextPos q (m_head q)"
  let ?s0 = "spsc_init q"
  let ?s1 = "?s0\<lparr>prod := PRoom 5 ?n\<rparr>"
  let ?s2 = "?s1\<lparr>shared := q\<lparr>m_queue := (m_queue q)[unat ?n := 5]\<rparr>, prod := PStored 5 ?n\<rparr>"
  let ?s3 = "?s2\<lparr>shared := (shared ?s2)\<lparr>m_head := ?n\<rparr>, prod := PIdle, sent := sent ?s2 @ [5]\<rparr>"
  have "spsc_step ?s0 ?s1" using room by (intro p_room) (simp_all add: spsc_init_def)
  moreover have "spsc_step ?s1 ?s2" using p_store [of ?s1 5 ?n] by (simp add: spsc_init_def)
  moreover have "spsc_step ?s2 ?s3" by (rule p_publish) simp
  ultimately have r: "spsc_step\<^sup>*\<^sup>* ?s0 ?s3" by (meson rtranclp.rtrancl_into_rtrancl rtranclp.rtrancl_refl)
  have "sent ?s3 = [5]" by (simp add: spsc_init_def)
  with spsc_no_loss_no_reorder [OF q(1) r] q(1) r show ?thesis by blast
qed

text \<open>
  \<^verbatim>\<open>pushWithCond\<close> called by the only producer either appends its value at the end of the queue as
  left by the consumer's last published position, or gives up after a time-out without storing
  anything; it gives up only when a time limit was asked for.
\<close>

theorem pushWithCond_appends_or_times_out:
  assumes "aq_inv q" and "\<forall>(b, t) \<in> set wakes. unat t < length (m_queue q)"
    and "aq_pushWithCond q v outTime wakes = Some (ok, q')"
  shows "\<exists>t. unat t < length (m_queue q) \<and>
     (if ok then aq_inv q' \<and> aq_contents q' = aq_contents (q\<lparr>m_tail := t\<rparr>) @ [v]
      else outTime \<noteq> no_timeout \<and> q' = q\<lparr>m_tail := t\<rparr>)"
  by (rule pushWithCond_result [OF assms])

theorem pushWithCond_appends_or_times_out_witness:
  "\<exists>q' t. aq_pushWithCond aq_full_example 9 no_timeout [(True, 0), (False, 1)] = Some (True, q')
     \<and> aq_inv q' \<and> aq_contents q' = aq_contents (aq_full_example\<lparr>m_tail := t\<rparr>) @ [9]"
proof -
  let ?q = "aq_full_example\<lparr>m_queue := [9, 5], m_head := 0, m_tail := 1\<rparr>"
  have "aq_pushWithCond aq_full_example 9 no_timeout [(True, 0), (False, 1)] = Some (True, ?q)"
    by (simp add: aq_pushWithCond.simps nextPos_def aq_full_example_def)
  moreover from pushWithCond_appends_or_times_out [OF aq_examples_inv(1) _ this]
  obtain t where "aq_inv ?q \<and> aq_contents ?q = aq_contents (aq_full_example\<lparr>m_tail := t\<rparr>) @ [9]"
    by (auto simp: aq_full_example_def)
  ultimately show ?thesis by blast
qed

text \<open>
  C33: without a time limit \<^verbatim>\<open>pushWithCond\<close> returns true as soon as one of its wake-ups finds that the
  consumer has moved on, whatever other wake-ups and time-outs come before it.
\<close>

theorem pushWithCond_eventually_succeeds:
  assumes "\<exists>(b, t) \<in> set wakes. nextPos q (m_head q) \<noteq> t"
  shows "\<exists>q'. aq_pushWithCond q v no_timeout wakes = Some (True, q')"
  by (rule pushWithCond_progress [OF assms])

theorem pushWithCond_eventually_succeeds_witness:
  "\<exists>q'. aq_pushWithCond aq_full_example 9 no_timeout [(True, 0), (False, 1)] = Some (True, q')"
  by (rule pushWithCond_eventually_succeeds) (simp add: nextPos_def aq_full_example_def)

text \<open>
  \<^verbatim>\<open>popWithCond\<close> returns the front element of the queue as the producer had published it at one of
  the wake-ups and removes exactly that element, or gives up after a time-out it was asked for.
\<close>

theorem popWithCond_takes_front_or_times_out:
  assumes "aq_inv q" and "\<forall>w \<in> set wakes. aq_inv (published q w)"
    and "aq_popWithCond q outTime wakes = Some (r, q')"
  shows "\<exists>q1. (q1 = q \<or> q1 \<in> published q ` set wakes) \<and>
     (case r of Some x \<Rightarrow> aq_inv q' \<and> aq_contents q1 = x # aq_contents q' \<and> aq_capacity q' = aq_capacity q1
      | None \<Rightarrow> q' = q1 \<and> outTime \<noteq> no_timeout)"
  by (rule popWithCond_result [OF assms])

theorem popWithCond_takes_front_or_times_out_witness:
  "\<exists>q1 q'. aq_popWithCond aq_drained_example 100 [(False, [9, 5], 0)] = Some (Some 9, q')
     \<and> aq_contents q1 = 9 # aq_contents q'"
proof -
  let ?q = "aq_drained_example\<lparr>m_queue := [9, 5], m_head := 0, m_tail := 0\<rparr>"
  have "aq_popWithCond aq_drained_example 100 [(False, [9, 5], 0)] = Some (Some 9, ?q)"
    by (simp add: aq_popWithCond.simps aq_empty_def nextPos_def aq_drained_example_def)
  moreover have "aq_inv (published aq_drained_example (False, [9, 5], 0))"
    by (auto simp: aq_inv_def aq_drained_example_def intro!: exI [of _ "1::nat"])
  ultimately show ?thesis
    using popWithCond_takes_front_or_times_out [OF aq_examples_inv(2), of "[(False, [9, 5], 0)]" 100 "Some 9" ?q]
    by auto
qed

end
