(* ===== verification/RingFixedQueue.thy ===== *)
theory RingFixedQueue
  imports Ring
begin

unbundle bit_operations_syntax

text \<open>
  \<^verbatim>\<open>util/ringFixedQueue.h\<close>: a ring buffer with one producer and, by its comment, any number of
  consumers.  \<^verbatim>\<open>head\<close> is the next slot to write and \<^verbatim>\<open>end\<close> the next slot to read; both are \<^verbatim>\<open>int32_t\<close> in
  the code and 32-bit words here, which agree because positions stay below the size of the ring and
  \<^verbatim>\<open>head + 1\<close> leaves the signed range only in a ring of $2^{31}$ slots.  Waiting calls take the
  positions that the peer has published by each retry as an explicit list.  The theory shows that
  \<^verbatim>\<open>push\<close> and \<^verbatim>\<open>pop\<close> called one after the other implement the abstract bounded queue, what \<^verbatim>\<open>size\<close>
  returns, and an interleaving of two consumers in which a value is delivered twice and another lost.
\<close>

record 'a ringFixedQueue =
  rq_array :: "'a list"
  arraySize :: u32
  rq_mask :: u32
  rq_head :: u32
  rq_end :: u32

partial_function (option) ring_size_loop :: "u32 \<Rightarrow> u32 \<Rightarrow> u32 option" where
  "ring_size_loop s sz = (if sz \<le> s then Some s else ring_size_loop (push_bit 1 s) sz)"

definition ringFixedQueue_new :: "'a \<Rightarrow> u32 \<Rightarrow> 'a ringFixedQueue option" where
  "ringFixedQueue_new d sz =
     (case ring_size_loop 1 sz of None \<Rightarrow> None
      | Some s \<Rightarrow> Some \<lparr>rq_array = replicate (unat s) d, arraySize = s, rq_mask = s - 1, rq_head = 0, rq_end = 0\<rparr>)"

text \<open>\<open>ends\<close> are the values of \<^verbatim>\<open>end\<close> seen by the retries; it stays as it is when they are used up.\<close>

fun rq_push :: "'a ringFixedQueue \<Rightarrow> 'a \<Rightarrow> nat \<Rightarrow> u32 list \<Rightarrow> bool \<times> 'a ringFixedQueue" where
  "rq_push q v outtime ends =
     (let next = (rq_head q + 1) AND rq_mask q in
      if next = rq_end q then
        (case outtime of 0 \<Rightarrow> (False, q)
         | Suc n \<Rightarrow> (case ends of [] \<Rightarrow> rq_push q v n [] | e # es \<Rightarrow> rq_push (q\<lparr>rq_end := e\<rparr>) v n es))
      else (True, q\<lparr>rq_array := (rq_array q)[unat (rq_head q) := v], rq_head := next\<rparr>))"

text \<open>\<open>pubs\<close> are the array and the head as the producer has published them by each retry.\<close>

fun rq_pop :: "'a ringFixedQueue \<Rightarrow> nat \<Rightarrow> ('a list \<times> u32) list \<Rightarrow> 'a option \<times> 'a ringFixedQueue" where
  "rq_pop q outtime pubs =
     (if rq_end q = rq_head q then
        (case outtime of 0 \<Rightarrow> (None, q)
         | Suc n \<Rightarrow> (case pubs of [] \<Rightarrow> rq_pop q n []
                    | (arr, hd') # ps \<Rightarrow> rq_pop (q\<lparr>rq_array := arr, rq_head := hd'\<rparr>) n ps))
      else (Some (rq_array q ! unat (rq_end q)), q\<lparr>rq_end := (rq_end q + 1) AND rq_mask q\<rparr>))"

declare rq_push.simps [simp del] rq_pop.simps [simp del]

text \<open>Both positions are compared as signed 32-bit integers.\<close>

definition rq_size :: "'a ringFixedQueue \<Rightarrow> u32" where
  "rq_size q =
     (let e = rq_end q in
      if sint (rq_head q) < sint e then rq_head q + arraySize q - e else e - rq_head q)"

section \<open>Representation invariant and abstraction\<close>

definition rq_inv :: "'a ringFixedQueue \<Rightarrow> bool" where
  "rq_inv q \<longleftrightarrow> (\<exists>k. k \<le> 31 \<and> arraySize q = 2 ^ k \<and> rq_mask q = 2 ^ k - 1 \<and> length (rq_array q) = 2 ^ k)
     \<and> unat (rq_head q) < length (rq_array q) \<and> unat (rq_end q) < length (rq_array q)"

definition rq_count :: "'a ringFixedQueue \<Rightarrow> nat" where
  "rq_count q = ring_count (length (rq_array q)) (unat (rq_head q)) (unat (rq_end q))"

definition rq_contents :: "'a ringFixedQueue \<Rightarrow> 'a list" where
  "rq_contents q = ring_read (rq_array q) (unat (rq_end q)) (rq_count q)"

definition rq_capacity :: "'a ringFixedQueue \<Rightarrow> nat" where
  "rq_capacity q = length (rq_array q) - 1"

lemma rq_boundsD: "rq_inv q \<Longrightarrow> unat (rq_head q) < length (rq_array q) \<and> unat (rq_end q) < length (rq_array q)"
  by (simp add: rq_inv_def)

lemma unat_rq_next:
  assumes "rq_inv q" and "unat p < length (rq_array q)"
  shows "unat ((p + 1) AND rq_mask q) = Suc (unat p) mod length (rq_array q)"
proof -
  from assms(1) obtain k where k: "k \<le> 31" "rq_mask q = 2 ^ k - 1" "length (rq_array q) = 2 ^ k"
    by (auto simp: rq_inv_def)
  have "unat p < 2 ^ 31"
    using assms(2) k power_increasing [of k 31 "2::nat"] by linarith
  then have "unat (p + 1) = Suc (unat p)" by (simp add: unat_word_ariths)
  with k show ?thesis by (simp add: mask_eq_pow_minus_1 unat_and_mask)
qed

lemma rq_full_iff:
  assumes q: "rq_inv q"
  shows "(rq_head q + 1) AND rq_mask q = rq_end q \<longleftrightarrow> \<not> length (rq_contents q) < rq_capacity q"
proof -
  note b = rq_boundsD [OF q]
  have "(rq_head q + 1) AND rq_mask q = rq_end q \<longleftrightarrow> Suc (unat (rq_head q)) mod length (rq_array q) = unat (rq_end q)"
    using unat_rq_next [OF q] b by (auto simp: word_unat_eq_iff)
  also have "\<dots> \<longleftrightarrow> \<not> rq_count q < length (rq_array q) - 1"
    unfolding rq_count_def using b by (intro ring_full_iff) simp_all
  finally show ?thesis by (simp add: rq_contents_def rq_capacity_def)
qed

lemma rq_empty_iff: "rq_inv q \<Longrightarrow> rq_end q = rq_head q \<longleftrightarrow> rq_contents q = []"
  using rq_boundsD [of q] ring_count_0_iff [of "unat (rq_head q)" "length (rq_array q)" "unat (rq_end q)"]
  by (auto simp: rq_contents_def rq_count_def word_unat_eq_iff)

lemma rq_push_room:
  assumes q: "rq_inv q" and room: "length (rq_contents q) < rq_capacity q"
  shows "\<exists>q'. rq_push q v n es = (True, q') \<and> rq_inv q' \<and> rq_contents q' = rq_contents q @ [v] \<and> rq_capacity q' = rq_capacity q"
proof -
  let ?V = "length (rq_array q)" and ?h = "unat (rq_head q)" and ?t = "unat (rq_end q)"
  let ?n = "(rq_head q + 1) AND rq_mask q"
  let ?q = "q\<lparr>rq_array := (rq_array q)[?h := v], rq_head := ?n\<rparr>"
  note b = rq_boundsD [OF q] and nx = unat_rq_next [OF q, of "rq_head q"]
  have free: "?n \<noteq> rq_end q" using rq_full_iff [OF q] room by simp
  then have "Suc ?h mod ?V \<noteq> ?t" using nx b by (simp add: word_unat_eq_iff)
  then have c: "rq_count ?q = Suc (rq_count q)" using nx b by (simp add: rq_count_def ring_count_push)
  have "rq_count q < ?V" using room by (simp add: rq_contents_def rq_capacity_def)
  then have "rq_contents ?q = rq_contents q @ [v]"
    using ring_read_snoc [of "rq_count q" "rq_array q" ?t v] b ring_write_slot
    by (simp add: rq_contents_def c) (simp add: rq_count_def)
  moreover have "rq_inv ?q" using q b nx by (auto simp: rq_inv_def Suc_mod_less)
  ultimately show ?thesis using free by (simp add: rq_push.simps [of q] Let_def rq_capacity_def)
qed

lemma rq_pop_front:
  assumes q: "rq_inv q" and c: "rq_contents q = x # xs"
  shows "\<exists>q'. rq_pop q n ps = (Some x, q') \<and> rq_inv q' \<and> rq_contents q' = xs \<and> rq_capacity q' = rq_capacity q"
proof -
  let ?V = "length (rq_array q)" and ?h = "unat (rq_head q)" and ?t = "unat (rq_end q)"
  let ?q = "q\<lparr>rq_end := (rq_end q + 1) AND rq_mask q\<rparr>"
  note b = rq_boundsD [OF q] and nx = unat_rq_next [OF q, of "rq_end q"]
  have ne: "rq_end q \<noteq> rq_head q" using rq_empty_iff [OF q] c by simp
  then have "?h \<noteq> ?t" by (auto simp: word_unat_eq_iff)
  then have "rq_count q = Suc (rq_count ?q)" using nx b by (simp add: rq_count_def ring_count_pop)
  then have "rq_contents q = rq_array q ! ?t # rq_contents ?q"
    using nx b by (simp add: rq_contents_def ring_read_Suc)
  moreover have "rq_inv ?q" using q b nx by (auto simp: rq_inv_def Suc_mod_less)
  ultimately show ?thesis using ne c by (simp add: rq_pop.simps [of q] rq_capacity_def)
qed

text \<open>The default arguments: no waiting.\<close>

abbreviation rq_push0 :: "'a ringFixedQueue \<Rightarrow> 'a \<Rightarrow> bool \<times> 'a ringFixedQueue" where
  "rq_push0 q v \<equiv> rq_push q v 0 []"

abbreviation rq_pop0 :: "'a ringFixedQueue \<Rightarrow> 'a option \<times> 'a ringFixedQueue" where
  "rq_pop0 q \<equiv> rq_pop q 0 []"

interpretation rq: bounded_fifo rq_push0 rq_pop0 rq_contents rq_capacity rq_inv
proof
  fix q :: "'a ringFixedQueue" and v x and xs :: "'a list"
  assume q: "rq_inv q"
  {
    assume "\<not> length (rq_contents q) < rq_capacity q"
    then show "rq_push0 q v = (False, q)" using rq_full_iff [OF q] by (simp add: rq_push.simps)
  next
    assume "length (rq_contents q) < rq_capacity q"
    then show "\<exists>q'. rq_push0 q v = (True, q') \<and> rq_inv q' \<and> rq_contents q' = rq_contents q @ [v] \<and> rq_capacity q' = rq_capacity q"
      by (rule rq_push_room [OF q])
  next
    assume "rq_contents q = []"
    then show "rq_pop0 q = (None, q)" using rq_empty_iff [OF q] by (simp add: rq_pop.simps)
  next
    assume "rq_contents q = x # xs"
    then show "\<exists>q'. rq_pop0 q = (Some x, q') \<and> rq_inv q' \<and> rq_contents q' = xs \<and> rq_capacity q' = rq_capacity q"
      by (rule rq_pop_front [OF q])
  }
qed

section \<open>Construction\<close>

lemma ring_size_loop_pow2:
  assumes "k \<le> 31" and "sz \<le> (2 ^ 31 :: u32)"
  shows "\<exists>j. j \<le> 31 \<and> ring_size_loop (2 ^ k) sz = Some (2 ^ j) \<and> sz \<le> 2 ^ j"
  using assms
proof (induction "31 - k" arbitrary: k)
  case 0
  then show ?case by (subst ring_size_loop.simps) (auto intro!: exI [of _ "31::nat"])
next
  case (Suc d)
  show ?case
  proof (cases "sz \<le> 2 ^ k")
    case True
    then show ?thesis using Suc.prems by (subst ring_size_loop.simps) auto
  next
    case False
    have "push_bit 1 (2 ^ k :: u32) = 2 ^ Suc k" by (simp add: push_bit_eq_mult)
    with False have "ring_size_loop (2 ^ k) sz = ring_size_loop (2 ^ Suc k) sz"
      by (subst ring_size_loop.simps) (simp only: if_False)
    moreover have "d = 31 - Suc k" "Suc k \<le> 31" using Suc.hyps(2) by simp_all
    ultimately show ?thesis using Suc.hyps(1) [of "Suc k"] Suc.prems(2) by metis
  qed
qed

lemma ringFixedQueue_new_inv:
  fixes d :: 'a
  assumes "sz \<le> 2 ^ 31"
  shows "\<exists>q. ringFixedQueue_new d sz = Some q \<and> rq_inv q \<and> rq_contents q = [] \<and> unat sz \<le> rq_capacity q + 1"
proof -
  from ring_size_loop_pow2 [of 0, OF _ assms] obtain k
    where k: "k \<le> 31" "ring_size_loop 1 sz = Some (2 ^ k)" "sz \<le> 2 ^ k" by auto
  let ?q = "\<lparr>rq_array = replicate (2 ^ k) d, arraySize = 2 ^ k, rq_mask = 2 ^ k - 1, rq_head = 0, rq_end = 0\<rparr>"
  have "ringFixedQueue_new d sz = Some ?q" using k by (simp add: ringFixedQueue_new_def unat_2p_u32)
  moreover have "rq_inv ?q" using k by (auto simp: rq_inv_def)
  moreover have "rq_contents ?q = []" by (simp add: rq_contents_def rq_count_def ring_count_def)
  moreover have "unat sz \<le> rq_capacity ?q + 1"
    using k by (simp add: rq_capacity_def word_le_nat_alt unat_2p_u32)
  ultimately show ?thesis by blast
qed

section \<open>Several consumers\<close>

text \<open>
  A consumer reads the slot at \<^verbatim>\<open>end\<close> and then advances \<^verbatim>\<open>end\<close> by a compare-and-swap; when that fails
  it starts again with the position the swap has loaded.  The single producer's push is one step.
\<close>

datatype 'a rq_consumer = RIdle | RRead u32 'a

record 'a rq_system =
  rq_shared :: "'a ringFixedQueue"
  rq_cons :: "nat \<Rightarrow> 'a rq_consumer"
  rq_sent :: "'a list"
  rq_received :: "'a list"

inductive rq_step :: "'a rq_system \<Rightarrow> 'a rq_system \<Rightarrow> bool" where
  rs_push: "rq_push0 (rq_shared s) v = (True, q) \<Longrightarrow> rq_step s (s\<lparr>rq_shared := q, rq_sent := rq_sent s @ [v]\<rparr>)"
| rs_read: "rq_cons s i = RIdle \<Longrightarrow> e = rq_end (rq_shared s) \<Longrightarrow> e \<noteq> rq_head (rq_shared s) \<Longrightarrow>
    rq_step s (s\<lparr>rq_cons := (rq_cons s)(i := RRead e (rq_array (rq_shared s) ! unat e))\<rparr>)"
| rs_cas: "rq_cons s i = RRead e v \<Longrightarrow> rq_end (rq_shared s) = e \<Longrightarrow>
    rq_step s (s\<lparr>rq_shared := (rq_shared s)\<lparr>rq_end := (e + 1) AND rq_mask (rq_shared s)\<rparr>,
      rq_cons := (rq_cons s)(i := RIdle), rq_received := rq_received s @ [v]\<rparr>)"
| rs_cas_fail: "rq_cons s i = RRead e v \<Longrightarrow> rq_end (rq_shared s) \<noteq> e \<Longrightarrow>
    rq_step s (s\<lparr>rq_cons := (rq_cons s)(i := RIdle)\<rparr>)"

definition rq_init :: "'a ringFixedQueue \<Rightarrow> 'a rq_system" where
  "rq_init q = \<lparr>rq_shared = q, rq_cons = (\<lambda>_. RIdle), rq_sent = [], rq_received = []\<rparr>"

text \<open>A queue of two slots (capacity 1) in a given state.\<close>

abbreviation rq2 :: "nat \<Rightarrow> nat \<Rightarrow> u32 \<Rightarrow> u32 \<Rightarrow> nat ringFixedQueue" where
  "rq2 a b hd' e \<equiv> \<lparr>rq_array = [a, b], arraySize = 2, rq_mask = 1, rq_head = hd', rq_end = e\<rparr>"

abbreviation rq_sys :: "nat ringFixedQueue \<Rightarrow> nat rq_consumer \<Rightarrow> nat rq_consumer \<Rightarrow> nat list \<Rightarrow> nat list \<Rightarrow> nat rq_system" where
  "rq_sys q c0 c1 snt rcv \<equiv>
     \<lparr>rq_shared = q, rq_cons = (\<lambda>_. RIdle)(0 := c0, 1 := c1), rq_sent = snt, rq_received = rcv\<rparr>"

lemma rq_aba_steps:
  "rq_step (rq_sys (rq2 0 0 0 0) RIdle RIdle [] []) (rq_sys (rq2 1 0 1 0) RIdle RIdle [1] [])"
  "rq_step (rq_sys (rq2 1 0 1 0) RIdle RIdle [1] []) (rq_sys (rq2 1 0 1 0) (RRead 0 1) RIdle [1] [])"
  "rq_step (rq_sys (rq2 1 0 1 0) (RRead 0 1) RIdle [1] []) (rq_sys (rq2 1 0 1 0) (RRead 0 1) (RRead 0 1) [1] [])"
  "rq_step (rq_sys (rq2 1 0 1 0) (RRead 0 1) (RRead 0 1) [1] []) (rq_sys (rq2 1 0 1 1) (RRead 0 1) RIdle [1] [1])"
  "rq_step (rq_sys (rq2 1 0 1 1) (RRead 0 1) RIdle [1] [1]) (rq_sys (rq2 1 2 0 1) (RRead 0 1) RIdle [1, 2] [1])"
  "rq_step (rq_sys (rq2 1 2 0 1) (RRead 0 1) RIdle [1, 2] [1]) (rq_sys (rq2 1 2 0 1) (RRead 0 1) (RRead 1 2) [1, 2] [1])"
  "rq_step (rq_sys (rq2 1 2 0 1) (RRead 0 1) (RRead 1 2) [1, 2] [1]) (rq_sys (rq2 1 2 0 0) (RRead 0 1) RIdle [1, 2] [1, 2])"
  "rq_step (rq_sys (rq2 1 2 0 0) (RRead 0 1) RIdle [1, 2] [1, 2]) (rq_sys (rq2 3 2 1 0) (RRead 0 1) RIdle [1, 2, 3] [1, 2])"
  "rq_step (rq_sys (rq2 3 2 1 0) (RRead 0 1) RIdle [1, 2, 3] [1, 2]) (rq_sys (rq2 3 2 1 1) RIdle RIdle [1, 2, 3] [1, 2, 1])"
  subgoal using rs_push [of "rq_sys (rq2 0 0 0 0) RIdle RIdle [] []" 1 "rq2 1 0 1 0"] by (simp add: rq_push.simps)
  subgoal using rs_read [of "rq_sys (rq2 1 0 1 0) RIdle RIdle [1] []" 0 0] by (simp add: fun_upd_twist)
  subgoal using rs_read [of "rq_sys (rq2 1 0 1 0) (RRead 0 1) RIdle [1] []" 1 0] by simp
  subgoal using rs_cas [of "rq_sys (rq2 1 0 1 0) (RRead 0 1) (RRead 0 1) [1] []" 1 0 1] by simp
  subgoal using rs_push [of "rq_sys (rq2 1 0 1 1) (RRead 0 1) RIdle [1] [1]" 2 "rq2 1 2 0 1"] by (simp add: rq_push.simps)
  subgoal using rs_read [of "rq_sys (rq2 1 2 0 1) (RRead 0 1) RIdle [1, 2] [1]" 1 1] by simp
  subgoal using rs_cas [of "rq_sys (rq2 1 2 0 1) (RRead 0 1) (RRead 1 2) [1, 2] [1]" 1 1 2] by simp
  subgoal using rs_push [of "rq_sys (rq2 1 2 0 0) (RRead 0 1) RIdle [1, 2] [1, 2]" 3 "rq2 3 2 1 0"] by (simp add: rq_push.simps)
  subgoal using rs_cas [of "rq_sys (rq2 3 2 1 0) (RRead 0 1) RIdle [1, 2, 3] [1, 2]" 0 0 1] by (simp add: fun_upd_twist)
  done

section \<open>Claims\<close>

text \<open>
  C22: a queue constructed with any size up to $2^{31}$ exists, holds at least one element less than
  requested, and every sequence of \<^verbatim>\<open>push\<close> and \<^verbatim>\<open>pop\<close> calls (without waiting) on it returns exactly what
  the abstract bounded FIFO queue returns.
\<close>

theorem ringFixedQueue_refines_fifo:
  fixes d :: 'a
  assumes "sz \<le> 2 ^ 31"
  shows "\<exists>q cap. ringFixedQueue_new d sz = Some q \<and> unat sz \<le> cap + 1 \<and>
     (\<forall>ops. queue_run (\<lambda>q v. rq_push q v 0 []) (\<lambda>q. rq_pop q 0 []) q ops = spec_run cap [] ops)"
proof -
  obtain q where q: "ringFixedQueue_new d sz = Some q" "rq_inv q" "rq_contents q = []" "unat sz \<le> rq_capacity q + 1"
    using ringFixedQueue_new_inv [OF assms, of d] by blast
  have "queue_run rq_push0 rq_pop0 q ops = spec_run (rq_capacity q) [] ops" for ops
    using rq.run_refines [OF q(2)] q(3) by simp
  with q show ?thesis by blast
qed

theorem ringFixedQueue_refines_fifo_witness:
  "\<exists>q cap. ringFixedQueue_new (0::nat) 3 = Some q \<and> unat (3::u32) \<le> cap + 1 \<and>
     (\<forall>ops. queue_run (\<lambda>q v. rq_push q v 0 []) (\<lambda>q. rq_pop q 0 []) q ops = spec_run cap [] ops)"
  by (rule ringFixedQueue_refines_fifo) simp

text \<open>
  \<^verbatim>\<open>size\<close> returns the number of queued elements when the read position is ahead of the write
  position, and 0 or the two's complement of that number otherwise: the subtraction of the second
  branch has its operands the wrong way round.
\<close>

theorem rq_size_result:
  assumes q: "rq_inv q"
  shows "rq_size q = (if unat (rq_head q) < unat (rq_end q) then word_of_nat (length (rq_contents q))
                      else - word_of_nat (length (rq_contents q)))"
proof -
  note b = rq_boundsD [OF q]
  from q obtain k where k: "k \<le> 31" "arraySize q = 2 ^ k" "length (rq_array q) = 2 ^ k" by (auto simp: rq_inv_def)
  have lt: "unat p < 2 ^ 31" if "unat p < length (rq_array q)" for p :: u32
    using that k power_increasing [of k 31 "2::nat"] by linarith
  have "sint p = int (unat p)" if "unat p < 2 ^ 31" for p :: u32
  proof -
    from that have "int (unat p) < int (2 ^ 31)" by (simp only: of_nat_less_iff)
    moreover have "- (2 ^ 31) \<le> uint p" by (rule order_trans [OF _ unsigned_greater_eq]) simp
    ultimately show ?thesis by (simp add: sint_uint signed_take_bit_int_eq_self_iff)
  qed
  with lt b have cmp: "sint (rq_head q) < sint (rq_end q) \<longleftrightarrow> unat (rq_head q) < unat (rq_end q)"
    by (simp add: word_less_nat_alt flip: word_less_def)
  show ?thesis
  proof (cases "unat (rq_head q) < unat (rq_end q)")
    case True
    with b have "length (rq_contents q) = unat (rq_head q) + 2 ^ k - unat (rq_end q)"
      by (simp add: rq_contents_def rq_count_def ring_count_cases k)
    moreover have "unat (rq_end q) \<le> unat (rq_head q) + 2 ^ k" using b k by simp
    ultimately have "word_of_nat (length (rq_contents q)) = rq_head q + 2 ^ k - rq_end q"
      by (simp add: of_nat_diff)
    with True cmp show ?thesis by (simp add: rq_size_def Let_def k)
  next
    case False
    with b have "length (rq_contents q) = unat (rq_head q) - unat (rq_end q)"
      by (simp add: rq_contents_def rq_count_def ring_count_cases)
    with False have "word_of_nat (length (rq_contents q)) = rq_head q - rq_end q"
      by (simp add: of_nat_diff)
    with False cmp show ?thesis by (simp add: rq_size_def Let_def)
  qed
qed

theorem rq_size_result_witness: "rq_inv (rq2 7 0 1 0) \<and> rq_size (rq2 7 0 1 0) = 0xffffffff"
proof
  show inv: "rq_inv (rq2 7 0 1 0)" by (auto simp: rq_inv_def intro!: exI [of _ "1::nat"])
  have "length (rq_contents (rq2 7 0 1 0)) = 1" by (simp add: rq_contents_def rq_count_def ring_count_cases)
  with rq_size_result [OF inv] show "rq_size (rq2 7 0 1 0) = 0xffffffff" by simp
qed

text \<open>
  C34: with two consumers the queue can deliver a value twice and lose another one.  A consumer that
  has read its value is overtaken by the other consumer and by the producer for a whole round of
  the ring, after which its compare-and-swap succeeds because \<^verbatim>\<open>end\<close> has its old value again.
\<close>

theorem ringFixedQueue_two_consumers_aba:
  "\<exists>s. rq_step\<^sup>*\<^sup>* (rq_init (rq2 0 0 0 0)) s \<and> rq_sent s = [1, 2, 3] \<and> rq_received s = [1, 2, 1]
     \<and> rq_contents (rq_shared s) = []"
proof -
  have "rq_init (rq2 0 0 0 0) = rq_sys (rq2 0 0 0 0) RIdle RIdle [] []"
    by (simp add: rq_init_def fun_upd_idem)
  moreover have "rq_step\<^sup>*\<^sup>* (rq_sys (rq2 0 0 0 0) RIdle RIdle [] []) (rq_sys (rq2 3 2 1 1) RIdle RIdle [1, 2, 3] [1, 2, 1])"
    apply (rule converse_rtranclp_into_rtranclp, rule rq_aba_steps)+
    apply (rule rtranclp.rtrancl_refl)
    done
  moreover have "rq_contents (rq2 3 2 1 1) = []" by (simp add: rq_contents_def rq_count_def ring_count_def)
  ultimately show ?thesis by auto
qed

end
