(* ===== verification/MinHeap.thy ===== *)
theory MinHeap
  imports Prelude
begin

text \<open>
  \<^verbatim>\<open>util/heap.h\<close>: a binary heap in the array \<^verbatim>\<open>h\<close>, whose slot 0 is unused.  \<^verbatim>\<open>compare\<close> is a parameter
  of the operations; the contract of a comparison (a strict weak order) is the locale \<open>comparison\<close>,
  interpreted on the two comparison classes of the file.  \<^verbatim>\<open>adjust\<close> may run forever when started at
  index 0, so it is a partial function; it is shown to return for every other start.  The theory
  shows that \<^verbatim>\<open>insert\<close> and \<^verbatim>\<open>pop\<close> keep the heap order and the multiset of elements, that \<^verbatim>\<open>get\<close> and
  \<^verbatim>\<open>getSecond\<close> return the two least elements, and exactly when \<^verbatim>\<open>popAndInsert\<close> keeps the order.
  Indexes and sizes are natural numbers: they stay at most \<^verbatim>\<open>maxSize\<close>, which is below $2^{30}$ by the
  invariant, so neither \<^verbatim>\<open>int\<close> nor \<^verbatim>\<open>uint32_t\<close> arithmetic on them wraps.
\<close>

record 'a minheap =
  h :: "'a list"
  maxSize :: nat
  currentSize :: nat

definition heap_parent :: "nat \<Rightarrow> nat" where "heap_parent i = i div 2"

definition heap_left :: "nat \<Rightarrow> nat" where "heap_left i = 2 * i"

definition heap_right :: "nat \<Rightarrow> nat" where "heap_right i = 1 + 2 * i"

definition heap_swap :: "'a list \<Rightarrow> nat \<Rightarrow> nat \<Rightarrow> 'a list" where
  "heap_swap xs src dest = xs[dest := xs ! src, src := xs ! dest]"

partial_function (option) adjust_loop :: "('a \<Rightarrow> 'a \<Rightarrow> bool) \<Rightarrow> 'a list \<Rightarrow> nat \<Rightarrow> nat \<Rightarrow> nat \<Rightarrow> 'a list option" where
  "adjust_loop lt xs p c end =
     (if c \<le> end then
        let c' = (if c + 1 < end \<and> lt (xs ! (c + 1)) (xs ! c) then c + 1 else c) in
        if lt (xs ! p) (xs ! c') then Some xs
        else adjust_loop lt (heap_swap xs p c') c' (heap_left c') end
      else Some xs)"

definition adjust :: "('a \<Rightarrow> 'a \<Rightarrow> bool) \<Rightarrow> 'a list \<Rightarrow> nat \<Rightarrow> nat \<Rightarrow> 'a list option" where
  "adjust lt xs start end = adjust_loop lt xs start (heap_left start) end"

definition heap_new :: "'a \<Rightarrow> nat \<Rightarrow> 'a minheap" where
  "heap_new d heapSize = \<lparr>h = replicate (heapSize + 1) d, maxSize = heapSize, currentSize = 0\<rparr>"

text \<open>\<^verbatim>\<open>set\<close> writes past the array when the data is longer than the heap.\<close>

definition heap_set :: "'a minheap \<Rightarrow> 'a list \<Rightarrow> fault + 'a minheap" where
  "heap_set hp data =
     (if length (h hp) \<le> length data then Inl OutOfBounds
      else Inr (hp\<lparr>h := take 1 (h hp) @ data @ drop (length data + 1) (h hp), currentSize := length data + 1\<rparr>))"

definition heap_clear :: "'a minheap \<Rightarrow> 'a minheap" where
  "heap_clear hp = hp\<lparr>currentSize := 0\<rparr>"

text \<open>The two loops of \<^verbatim>\<open>sort\<close>: \<open>i\<close> counts down to 1 and to 2.\<close>

fun sort_build :: "('a \<Rightarrow> 'a \<Rightarrow> bool) \<Rightarrow> nat \<Rightarrow> nat \<Rightarrow> 'a list \<Rightarrow> 'a list option" where
  "sort_build lt lst 0 xs = Some xs"
| "sort_build lt lst (Suc i) xs =
     (case adjust lt xs (Suc i) lst of None \<Rightarrow> None | Some ys \<Rightarrow> sort_build lt lst i ys)"

fun sort_extract :: "('a \<Rightarrow> 'a \<Rightarrow> bool) \<Rightarrow> nat \<Rightarrow> 'a list \<Rightarrow> 'a list option" where
  "sort_extract lt 0 xs = Some xs"
| "sort_extract lt (Suc 0) xs = Some xs"
| "sort_extract lt (Suc (Suc i)) xs =
     (case adjust lt (heap_swap xs 0 (Suc (Suc i))) 0 (Suc i) of None \<Rightarrow> None
      | Some ys \<Rightarrow> sort_extract lt (Suc i) ys)"

definition heap_sort :: "('a \<Rightarrow> 'a \<Rightarrow> bool) \<Rightarrow> 'a minheap \<Rightarrow> 'a minheap option" where
  "heap_sort lt hp =
     (case sort_build lt (currentSize hp - 1) (heap_parent (currentSize hp) - 1) (h hp) of None \<Rightarrow> None
      | Some xs \<Rightarrow> (case sort_extract lt (currentSize hp - 1) xs of None \<Rightarrow> None
                   | Some ys \<Rightarrow> Some (hp\<lparr>h := ys\<rparr>)))"

definition heap_size :: "'a minheap \<Rightarrow> nat" where "heap_size hp = currentSize hp"

definition heap_get :: "'a minheap \<Rightarrow> 'a" where "heap_get hp = h hp ! 1"

text \<open>\<open>None\<close> is the result -1; otherwise the position returned and the value stored in \<^verbatim>\<open>second\<close>.\<close>

definition heap_getSecond :: "('a \<Rightarrow> 'a \<Rightarrow> bool) \<Rightarrow> 'a minheap \<Rightarrow> (nat \<times> 'a) option" where
  "heap_getSecond lt hp =
     (if currentSize hp \<le> 1 then None
      else if currentSize hp = 2 \<or> lt (h hp ! 2) (h hp ! 3) then Some (1, h hp ! 2)
      else Some (2, h hp ! 3))"

definition heap_replaceAt :: "('a \<Rightarrow> 'a \<Rightarrow> bool) \<Rightarrow> 'a minheap \<Rightarrow> 'a \<Rightarrow> nat \<Rightarrow> 'a minheap option" where
  "heap_replaceAt lt hp data pos =
     (case adjust lt ((h hp)[pos + 1 := data]) (pos + 1) (currentSize hp) of None \<Rightarrow> None
      | Some xs \<Rightarrow> Some (hp\<lparr>h := xs, currentSize := (if currentSize hp = 0 then 1 else currentSize hp)\<rparr>))"

definition heap_popAt :: "('a \<Rightarrow> 'a \<Rightarrow> bool) \<Rightarrow> 'a minheap \<Rightarrow> nat \<Rightarrow> 'a minheap option" where
  "heap_popAt lt hp pos =
     (if currentSize hp \<le> 1 then Some (hp\<lparr>currentSize := 0\<rparr>)
      else case adjust lt ((h hp)[pos + 1 := h hp ! currentSize hp]) (pos + 1) (currentSize hp) of None \<Rightarrow> None
           | Some xs \<Rightarrow> Some (hp\<lparr>h := xs, currentSize := currentSize hp - 1\<rparr>))"

lemma heap_parent_less [termination_simp]: "1 < i \<Longrightarrow> heap_parent i < i"
  by (simp add: heap_parent_def)

fun insert_up :: "('a \<Rightarrow> 'a \<Rightarrow> bool) \<Rightarrow> 'a list \<Rightarrow> nat \<Rightarrow> 'a list" where
  "insert_up lt xs i =
     (if 1 < i then
        if lt (xs ! i) (xs ! heap_parent i) then insert_up lt (heap_swap xs (heap_parent i) i) (heap_parent i)
        else xs
      else xs)"

declare insert_up.simps [simp del]

definition heap_insert :: "('a \<Rightarrow> 'a \<Rightarrow> bool) \<Rightarrow> 'a minheap \<Rightarrow> 'a \<Rightarrow> fault + 'a minheap" where
  "heap_insert lt hp data =
     (let n = currentSize hp + 1 in
      if length (h hp) \<le> n then Inl OutOfBounds
      else Inr (hp\<lparr>h := insert_up lt ((h hp)[n := data]) n, currentSize := n\<rparr>))"

definition heap_pop :: "('a \<Rightarrow> 'a \<Rightarrow> bool) \<Rightarrow> 'a minheap \<Rightarrow> 'a minheap option" where
  "heap_pop lt hp = heap_popAt lt hp 0"

definition heap_popAndInsert :: "('a \<Rightarrow> 'a \<Rightarrow> bool) \<Rightarrow> 'a minheap \<Rightarrow> 'a \<Rightarrow> 'a minheap option" where
  "heap_popAndInsert lt hp data = heap_replaceAt lt hp data 0"

definition defaultLessCompare :: "'a::linorder \<Rightarrow> 'a \<Rightarrow> bool" where
  "defaultLessCompare src dest = (src < dest)"

definition defaultGreaterCompare :: "'a::linorder \<Rightarrow> 'a \<Rightarrow> bool" where
  "defaultGreaterCompare src dest = (src > dest)"

section \<open>Heap order, contents, invariant\<close>

text \<open>\<open>heap_on lt xs n\<close>: no element of slots 2 to \<open>n\<close> is smaller than its parent.  In
  \<open>heap_hole lt xs n p\<close> slot \<open>p\<close> may be larger than its children, which are bounded by its parent.\<close>

definition heap_on :: "('a \<Rightarrow> 'a \<Rightarrow> bool) \<Rightarrow> 'a list \<Rightarrow> nat \<Rightarrow> bool" where
  "heap_on lt xs n \<longleftrightarrow> (\<forall>i \<in> {2..n}. \<not> lt (xs ! i) (xs ! (i div 2)))"

definition heap_hole :: "('a \<Rightarrow> 'a \<Rightarrow> bool) \<Rightarrow> 'a list \<Rightarrow> nat \<Rightarrow> nat \<Rightarrow> bool" where
  "heap_hole lt xs n p \<longleftrightarrow>
     (\<forall>i \<in> {2..n}. i div 2 \<noteq> p \<longrightarrow> \<not> lt (xs ! i) (xs ! (i div 2)))
     \<and> (1 < p \<longrightarrow> (\<forall>i \<in> {2..n}. i div 2 = p \<longrightarrow> \<not> lt (xs ! i) (xs ! (p div 2))))"

text \<open>In \<open>heap_up lt xs n i\<close> slot \<open>i\<close> may be smaller than its parent, which bounds its children.\<close>

definition heap_up :: "('a \<Rightarrow> 'a \<Rightarrow> bool) \<Rightarrow> 'a list \<Rightarrow> nat \<Rightarrow> nat \<Rightarrow> bool" where
  "heap_up lt xs n i \<longleftrightarrow> (\<forall>j \<in> {2..n}. j \<noteq> i \<longrightarrow> \<not> lt (xs ! j) (xs ! (j div 2)))
     \<and> (1 < i \<longrightarrow> (\<forall>j \<in> {2..n}. j div 2 = i \<longrightarrow> \<not> lt (xs ! j) (xs ! (i div 2))))"

definition slots :: "'a list \<Rightarrow> nat \<Rightarrow> 'a list" where
  "slots xs n = take n (drop 1 xs)"

definition heap_contents :: "'a minheap \<Rightarrow> 'a multiset" where
  "heap_contents hp = mset (slots (h hp) (currentSize hp))"

definition heap_inv :: "('a \<Rightarrow> 'a \<Rightarrow> bool) \<Rightarrow> 'a minheap \<Rightarrow> bool" where
  "heap_inv lt hp \<longleftrightarrow> length (h hp) = maxSize hp + 1 \<and> maxSize hp < 2 ^ 30 \<and> currentSize hp \<le> maxSize hp
     \<and> heap_on lt (h hp) (currentSize hp)"

lemma slots_swap:
  assumes "1 \<le> i" "i \<le> n" "1 \<le> j" "j \<le> n" "n < length xs"
  shows "mset (slots (heap_swap xs i j) n) = mset (slots xs n)"
proof -
  from assms obtain x ys where xs: "xs = x # ys" by (cases xs) auto
  obtain i' j' where ij: "i = Suc i'" "j = Suc j'" using assms by (cases i; cases j) auto
  have "slots (heap_swap xs i j) n = (take n ys)[j' := take n ys ! i', i' := take n ys ! j']"
    using assms ij xs by (simp add: slots_def heap_swap_def take_update_swap)
  moreover have "mset ((take n ys)[j' := take n ys ! i', i' := take n ys ! j']) = mset (take n ys)"
    using assms ij xs by (intro mset_swap) auto
  ultimately show ?thesis using xs by (simp add: slots_def)
qed

lemma length_heap_swap [simp]: "length (heap_swap xs i j) = length xs"
  by (simp add: heap_swap_def)

lemma nth_heap_swap:
  "i < length xs \<Longrightarrow> j < length xs \<Longrightarrow>
   heap_swap xs i j ! k = (if k = i then xs ! j else if k = j then xs ! i else xs ! k)"
  by (auto simp: heap_swap_def nth_list_update)

lemma slots_Suc: "Suc n < length xs \<Longrightarrow> slots xs (Suc n) = slots xs n @ [xs ! Suc n]"
  by (cases xs) (simp_all add: slots_def take_Suc_conv_app_nth)

lemma slots_beyond [simp]: "n < i \<Longrightarrow> slots (xs[i := v]) n = slots xs n"
  by (cases xs; cases i) (simp_all add: slots_def)

lemma mset_slots_update:
  assumes "1 \<le> i" and "i \<le> n" and "n < length xs"
  shows "add_mset (xs ! i) (mset (slots (xs[i := v]) n)) = add_mset v (mset (slots xs n))"
proof -
  from assms obtain x ys where xs: "xs = x # ys" by (cases xs) auto
  from assms obtain j where i: "i = Suc j" by (cases i) auto
  let ?zs = "take n ys"
  have j: "j < length ?zs" using assms xs i by simp
  have "add_mset (?zs ! j) (mset (?zs[j := v])) = add_mset v (add_mset (?zs ! j) (mset ?zs - {#?zs ! j#}))"
    by (simp only: mset_update [OF j] add_mset_commute)
  also have "\<dots> = add_mset v (mset ?zs)" by (simp only: insert_DiffM nth_mem_mset [OF j])
  finally show ?thesis using xs i j by (simp add: slots_def take_update_swap)
qed

lemma in_set_slots_iff:
  assumes "n < length xs"
  shows "x \<in> set (slots xs n) \<longleftrightarrow> (\<exists>i. 1 \<le> i \<and> i \<le> n \<and> x = xs ! i)"
proof -
  from assms obtain y ys where xs: "xs = y # ys" by (cases xs) auto
  have "(\<exists>i<n. x = ys ! i) \<longleftrightarrow> (\<exists>i. 1 \<le> i \<and> i \<le> n \<and> x = xs ! i)"
    unfolding xs by (metis One_nat_def Suc_le_eq Suc_pred nth_Cons_Suc zero_less_Suc)
  then show ?thesis
    using assms xs by (auto simp: slots_def in_set_conv_nth)
qed

section \<open>The contract of a comparison\<close>

locale comparison =
  fixes lt :: "'a \<Rightarrow> 'a \<Rightarrow> bool"
  assumes asym: "lt x y \<Longrightarrow> \<not> lt y x"
    and not_lt_trans: "\<not> lt x y \<Longrightarrow> \<not> lt y z \<Longrightarrow> \<not> lt x z"
begin

lemma irrefl: "\<not> lt x x"
  using asym by blast

lemma heap_root_least:
  assumes "heap_on lt xs n" and "1 \<le> i" and "i \<le> n"
  shows "\<not> lt (xs ! i) (xs ! 1)"
  using assms(2,3)
proof (induction i rule: less_induct)
  case (less i)
  show ?case
  proof (cases "i = 1")
    case True
    then show ?thesis by (simp add: irrefl)
  next
    case False
    with less.prems have "\<not> lt (xs ! i) (xs ! (i div 2))" using assms(1) by (simp add: heap_on_def)
    moreover have "\<not> lt (xs ! (i div 2)) (xs ! 1)" using less False by simp
    ultimately show ?thesis by (rule not_lt_trans)
  qed
qed

text \<open>One step of \<^verbatim>\<open>adjust\<close>: swapping the hole with its least child moves the hole down.\<close>

lemma hole_down:
  assumes hole: "heap_hole lt xs m p" and n: "m < length xs" and p: "1 \<le> p"
    and c: "c \<in> {2..m}" "c div 2 = p" and le: "\<not> lt (xs ! p) (xs ! c)"
    and least: "\<And>j. j \<in> {2..m} \<Longrightarrow> j div 2 = p \<Longrightarrow> \<not> lt (xs ! j) (xs ! c)"
  shows "heap_hole lt (heap_swap xs p c) m c"
proof -
  have pc: "p < c" "p < length xs" "c < length xs" using c n p by auto
  note sw = nth_heap_swap [OF pc(2,3)]
  have 1: "\<not> lt (heap_swap xs p c ! i) (heap_swap xs p c ! (i div 2))" if i: "i \<in> {2..m}" "i div 2 \<noteq> c" for i
  proof (cases "i div 2 = p")
    case True
    then have "i \<noteq> p" using p i by auto
    then show ?thesis using True least [OF i(1) True] le pc by (auto simp: sw)
  next
    case False
    then have "i \<noteq> c" using c by auto
    show ?thesis
    proof (cases "i = p")
      case True
      with i p have "1 < p" by simp
      then have "\<not> lt (xs ! c) (xs ! (p div 2))" using hole c by (simp add: heap_hole_def)
      then show ?thesis using True False i by (simp add: sw)
    next
      case False
      with \<open>i div 2 \<noteq> p\<close> \<open>i \<noteq> c\<close> i hole show ?thesis by (simp add: sw heap_hole_def)
    qed
  qed
  have 2: "\<not> lt (heap_swap xs p c ! i) (heap_swap xs p c ! (c div 2))" if i: "i \<in> {2..m}" "i div 2 = c" for i
  proof -
    have "i \<noteq> p" "i \<noteq> c" using i pc by auto
    moreover have "\<not> lt (xs ! i) (xs ! (i div 2))" using hole i pc by (auto simp: heap_hole_def)
    ultimately show ?thesis using i c pc by (simp add: sw)
  qed
  from 1 2 show ?thesis by (simp add: heap_hole_def)
qed

lemma hole_closed:
  assumes hole: "heap_hole lt xs m p"
    and least: "\<And>j. j \<in> {2..m} \<Longrightarrow> j div 2 = p \<Longrightarrow> \<not> lt (xs ! j) (xs ! p)"
  shows "heap_on lt xs m"
proof -
  have "\<not> lt (xs ! i) (xs ! (i div 2))" if "i \<in> {2..m}" for i
    using hole least [OF that] that by (cases "i div 2 = p") (auto simp: heap_hole_def)
  then show ?thesis by (simp add: heap_on_def)
qed

text \<open>
  \<^verbatim>\<open>adjust(p, end)\<close> never looks at a right child in slot \<open>end\<close>; so it sifts down in a heap of \<open>m\<close>
  elements, where \<open>m\<close> is the even one of \<open>end\<close> and \<open>end - 1\<close>.
\<close>

lemma adjust_sifts:
  assumes "heap_hole lt xs m p" and "even m" and "end = m \<or> end = m + 1" and "end < length xs"
    and "1 \<le> p" and "p \<le> end"
  shows "\<exists>ys. adjust lt xs p end = Some ys \<and> heap_on lt ys m \<and> length ys = length xs
    \<and> mset (slots ys m) = mset (slots xs m) \<and> drop (m + 1) ys = drop (m + 1) xs
    \<and> (xs ! end = xs ! p \<longrightarrow> ys ! end = xs ! end)"
  using assms
proof (induction "end - p" arbitrary: xs p rule: less_induct)
  case less
  let ?c = "2 * p"
  show ?case
  proof (cases "?c \<le> end")
    case False
    then have "adjust lt xs p end = Some xs"
      by (simp add: adjust_def heap_left_def adjust_loop.simps)
    moreover have "heap_on lt xs m" by (rule hole_closed [OF less.prems(1)]) (use False less.prems in auto)
    ultimately show ?thesis by simp
  next
    case True
    then have cm: "?c \<le> m" using less.prems(2,3) by auto
    let ?r = "?c + 1 < end \<and> lt (xs ! (?c + 1)) (xs ! ?c)"
    define c where "c = (if ?r then ?c + 1 else ?c)"
    have r: "?c + 1 < end \<longleftrightarrow> ?c + 1 \<le> m" using less.prems(2,3) by presburger
    have cs: "c \<in> {2..m}" "c div 2 = p" "p < c" using cm r less.prems(5) by (auto simp: c_def)
    have least: "\<not> lt (xs ! j) (xs ! c)" if "j \<in> {2..m}" "j div 2 = p" for j
    proof -
      have "j = ?c \<or> j = ?c + 1" using that by auto
      then show ?thesis
        using r that asym irrefl by (auto simp: c_def)
    qed
    have step: "adjust lt xs p end = (if lt (xs ! p) (xs ! c) then Some xs else adjust lt (heap_swap xs p c) c end)"
      unfolding adjust_def heap_left_def
      by (subst adjust_loop.simps) (simp only: True if_True Let_def c_def [symmetric] heap_left_def)
    show ?thesis
    proof (cases "lt (xs ! p) (xs ! c)")
      case lt: True
      then have "heap_on lt xs m"
        using hole_closed [OF less.prems(1)] least asym not_lt_trans by blast
      with lt step show ?thesis by simp
    next
      case False
      let ?ys = "heap_swap xs p c"
      have mlen: "m < length xs" using less.prems by auto
      have "heap_hole lt ?ys m c"
        using hole_down [OF less.prems(1) mlen less.prems(5) cs(1,2) False least] by blast
      moreover have "end - c < end - p" using cs less.prems by auto
      ultimately obtain ys where ys: "adjust lt ?ys c end = Some ys" "heap_on lt ys m"
        "length ys = length ?ys" "mset (slots ys m) = mset (slots ?ys m)"
        "drop (m + 1) ys = drop (m + 1) ?ys" "?ys ! end = ?ys ! c \<longrightarrow> ys ! end = ?ys ! end"
        using less.hyps [of c ?ys] less.prems cs by auto
      have "mset (slots ?ys m) = mset (slots xs m)"
        using cs less.prems mlen by (intro slots_swap) auto
      moreover have "?ys ! end = xs ! end \<and> ?ys ! c = xs ! end" if "xs ! end = xs ! p"
        using that cs less.prems mlen by (auto simp: nth_heap_swap)
      moreover have "drop (m + 1) ?ys = drop (m + 1) xs" using cs by (simp add: heap_swap_def)
      ultimately show ?thesis using ys False step by simp
    qed
  qed
qed

lemma heap_up_step:
  assumes up: "heap_up lt xs n i" and i: "1 < i" "i \<le> n" "n < length xs" and less: "lt (xs ! i) (xs ! (i div 2))"
  shows "heap_up lt (heap_swap xs (i div 2) i) n (i div 2)"
proof -
  let ?p = "i div 2"
  let ?ys = "heap_swap xs ?p i"
  have b: "?p < length xs" "i < length xs" "?p < i" using i by auto
  note sw = nth_heap_swap [OF b(1,2)]
  have pi: "\<not> lt (xs ! ?p) (xs ! i)" using asym less by blast
  have sib: "\<not> lt (xs ! j) (xs ! ?p)" if "j \<in> {2..n}" "j \<noteq> i" "j div 2 = ?p" for j
    using up that unfolding heap_up_def by metis
  have "\<not> lt (?ys ! j) (?ys ! (j div 2))" if j: "j \<in> {2..n}" "j \<noteq> ?p" for j
  proof -
    consider "j = i" | "j \<noteq> i" "j div 2 = ?p" | "j div 2 = i" | "j \<noteq> i" "j div 2 \<noteq> ?p" "j div 2 \<noteq> i" by blast
    then show ?thesis
    proof cases
      case 1
      with pi b show ?thesis by (simp add: sw)
    next
      case 2
      with sib [OF j(1) 2] not_lt_trans [OF _ pi] j b show ?thesis by (auto simp: sw)
    next
      case 3
      then have "j \<noteq> i" "j \<noteq> ?p" using b j by auto
      moreover have "i \<noteq> ?p" using b by simp
      ultimately show ?thesis using 3 up i j by (simp add: sw heap_up_def)
    next
      case 4
      with up j show ?thesis by (simp add: sw heap_up_def)
    qed
  qed
  moreover have "\<not> lt (?ys ! j) (?ys ! (?p div 2))" if j: "1 < ?p" "j \<in> {2..n}" "j div 2 = ?p" for j
  proof -
    have g: "\<not> lt (xs ! ?p) (xs ! (?p div 2))" using up j i by (auto simp: heap_up_def)
    have ne: "j \<noteq> ?p" "?p div 2 \<noteq> ?p" "?p div 2 \<noteq> i" using j by auto
    show ?thesis
    proof (cases "j = i")
      case True
      with g ne show ?thesis by (simp add: sw)
    next
      case False
      with not_lt_trans [OF sib [OF j(2) False j(3)] g] ne show ?thesis by (simp add: sw)
    qed
  qed
  ultimately show ?thesis by (simp add: heap_up_def)
qed

lemma insert_up_heap:
  assumes "heap_up lt xs n i" and "1 \<le> i" and "i \<le> n" and "n < length xs"
  shows "heap_on lt (insert_up lt xs i) n \<and> mset (slots (insert_up lt xs i) n) = mset (slots xs n)
    \<and> length (insert_up lt xs i) = length xs"
  using assms
proof (induction i arbitrary: xs rule: less_induct)
  case (less i)
  let ?p = "i div 2"
  show ?case
  proof (cases "1 < i \<and> lt (xs ! i) (xs ! ?p)")
    case True
    then have "heap_up lt (heap_swap xs ?p i) n ?p" using less.prems by (intro heap_up_step) auto
    moreover have "mset (slots (heap_swap xs ?p i) n) = mset (slots xs n)"
      using True less.prems by (intro slots_swap) auto
    moreover have "1 \<le> ?p" "?p \<le> n" using True less.prems by auto
    ultimately show ?thesis
      using less.IH [of ?p "heap_swap xs ?p i"] True less.prems
      by (simp add: insert_up.simps [of lt xs] heap_parent_def)
  next
    case False
    then have "insert_up lt xs i = xs" by (auto simp: insert_up.simps heap_parent_def)
    moreover have "heap_on lt xs n"
      using less.prems False by (auto simp: heap_on_def heap_up_def)
    ultimately show ?thesis by simp
  qed
qed

lemma size_heap_contents: "heap_inv lt hp \<Longrightarrow> size (heap_contents hp) = currentSize hp"
  by (simp add: heap_inv_def heap_contents_def slots_def)

lemma heap_insert_ok:
  assumes inv: "heap_inv lt hp" and room: "currentSize hp < maxSize hp"
  shows "\<exists>hp'. heap_insert lt hp x = Inr hp' \<and> heap_inv lt hp' \<and> heap_contents hp' = add_mset x (heap_contents hp)
    \<and> maxSize hp' = maxSize hp"
proof -
  let ?n = "Suc (currentSize hp)" and ?xs = "(h hp)[Suc (currentSize hp) := x]"
  from assms have len: "?n < length ?xs" by (simp add: heap_inv_def)
  have "heap_up lt ?xs ?n ?n"
    using inv by (auto simp: heap_up_def heap_inv_def heap_on_def nth_list_update)
  from insert_up_heap [OF this _ _ len]
  have up: "heap_on lt (insert_up lt ?xs ?n) ?n" "mset (slots (insert_up lt ?xs ?n) ?n) = mset (slots ?xs ?n)"
    "length (insert_up lt ?xs ?n) = length (h hp)" by simp_all
  moreover have "mset (slots ?xs ?n) = add_mset x (mset (slots (h hp) (currentSize hp)))"
    using slots_Suc [OF len] len by simp
  ultimately show ?thesis
    using inv room len by (simp add: heap_insert_def heap_inv_def heap_contents_def Let_def)
qed

text \<open>The even one of \<open>n\<close> and \<open>n - 1\<close> is what \<^verbatim>\<open>adjust(1, n)\<close> restores.\<close>

lemma adjust_root:
  assumes heap: "heap_on lt xs n" and n: "1 \<le> n" "n < length xs" and m: "m = n - n mod 2"
  shows "\<exists>ys. adjust lt (xs[1 := x]) 1 n = Some ys \<and> heap_on lt ys m \<and> length ys = length xs
    \<and> mset (slots ys m) = mset (slots (xs[1 := x]) m)
    \<and> (1 < n \<longrightarrow> xs ! n = x \<longrightarrow> ys ! n = x)"
proof -
  have hole: "heap_hole lt (xs[1 := x]) m 1"
    using heap m by (auto simp: heap_hole_def heap_on_def nth_list_update)
  have "n = m \<or> n = m + 1" using m n by presburger
  moreover have "even m" using m by simp
  ultimately obtain ys where "adjust lt (xs[1 := x]) 1 n = Some ys" "heap_on lt ys m" "length ys = length xs"
    "mset (slots ys m) = mset (slots (xs[1 := x]) m)" "xs[1 := x] ! n = xs[1 := x] ! 1 \<longrightarrow> ys ! n = xs[1 := x] ! n"
    using adjust_sifts [OF hole, of n] n by (metis length_list_update order_refl)
  then show ?thesis using n by simp
qed

lemma heap_pop_ok:
  assumes inv: "heap_inv lt hp" and ne: "currentSize hp \<noteq> 0"
  shows "\<exists>hp'. heap_pop lt hp = Some hp' \<and> heap_inv lt hp' \<and> heap_contents hp = add_mset (heap_get hp) (heap_contents hp')
    \<and> maxSize hp' = maxSize hp"
proof (cases "currentSize hp = 1")
  case True
  then show ?thesis
    using inv slots_Suc [of 0 "h hp"]
    by (auto simp: heap_pop_def heap_popAt_def heap_inv_def heap_on_def heap_contents_def heap_get_def slots_def)
next
  case False
  define n where "n = currentSize hp"
  define m where "m = n - n mod 2"
  let ?xs = "h hp"
  let ?x = "?xs ! n"
  from False ne inv have n: "1 < n" "n < length ?xs" "heap_on lt ?xs n"
    by (auto simp: n_def heap_inv_def)
  obtain ys where ys: "adjust lt (?xs[1 := ?x]) 1 n = Some ys" "heap_on lt ys m" "length ys = length ?xs"
    "mset (slots ys m) = mset (slots (?xs[1 := ?x]) m)" "ys ! n = ?x"
    using adjust_root [OF n(3) _ n(2) m_def, of ?x] n(1) by auto
  have mn: "n - 1 \<le> m" "m = n \<or> m = n - 1" unfolding m_def by presburger+
  have sl: "slots zs n = slots zs (n - 1) @ [zs ! n]" if "length zs = length ?xs" for zs
    using slots_Suc [of "n - 1" zs] that n by simp
  have "mset (slots ys (n - 1)) = mset (slots (?xs[1 := ?x]) (n - 1))"
    using mn(2) ys(3,4,5) sl [of ys] sl [of "?xs[1 := ?x]"] n by auto
  then have "add_mset (?xs ! 1) (mset (slots ys (n - 1))) = add_mset ?x (mset (slots ?xs (n - 1)))"
    using mset_slots_update [of 1 "n - 1" ?xs ?x] n by simp
  moreover have "heap_on lt ys (n - 1)" using ys(2) mn(1) by (auto simp: heap_on_def)
  moreover have "heap_pop lt hp = Some (hp\<lparr>h := ys, currentSize := n - 1\<rparr>)"
    using ys(1) n(1) by (simp add: heap_pop_def heap_popAt_def n_def)
  ultimately show ?thesis
    using inv ys(3) n sl [of ?xs] by (auto simp: heap_inv_def heap_contents_def heap_get_def n_def)
qed

text \<open>\<^verbatim>\<open>popAndInsert\<close> restores the order whenever the size is even.\<close>

lemma heap_popAndInsert_even:
  assumes inv: "heap_inv lt hp" and n: "currentSize hp \<noteq> 0" "even (currentSize hp)"
  shows "\<exists>hp'. heap_popAndInsert lt hp x = Some hp' \<and> heap_inv lt hp' \<and> maxSize hp' = maxSize hp
    \<and> add_mset (heap_get hp) (heap_contents hp') = add_mset x (heap_contents hp)"
proof -
  let ?n = "currentSize hp"
  from inv n have len: "?n < length (h hp)" "heap_on lt (h hp) ?n" "1 \<le> ?n" by (auto simp: heap_inv_def)
  obtain ys where "adjust lt ((h hp)[1 := x]) 1 ?n = Some ys" "heap_on lt ys ?n" "length ys = length (h hp)"
    "mset (slots ys ?n) = mset (slots ((h hp)[1 := x]) ?n)"
    using adjust_root [OF len(2,3,1) refl, of x] n by auto
  then show ?thesis
    using inv n mset_slots_update [of 1 ?n "h hp" x] len
    by (simp add: heap_popAndInsert_def heap_replaceAt_def heap_inv_def heap_contents_def heap_get_def)
qed

lemma heap_get_least:
  assumes inv: "heap_inv lt hp" and ne: "currentSize hp \<noteq> 0"
  shows "heap_get hp \<in># heap_contents hp \<and> (\<forall>y \<in># heap_contents hp. \<not> lt y (heap_get hp))"
proof -
  have len: "currentSize hp < length (h hp)" using inv by (simp add: heap_inv_def)
  from ne have "h hp ! 1 \<in> set (slots (h hp) (currentSize hp))"
    by (subst in_set_slots_iff [OF len]) (use ne in auto)
  moreover have "\<not> lt y (h hp ! 1)" if "y \<in> set (slots (h hp) (currentSize hp))" for y
    using that inv heap_root_least by (auto simp: in_set_slots_iff [OF len] heap_inv_def)
  ultimately show ?thesis by (simp add: heap_contents_def heap_get_def)
qed

lemma heap_second_least:
  assumes inv: "heap_inv lt hp" and n: "1 < currentSize hp"
  shows "\<exists>pos v. heap_getSecond lt hp = Some (pos, v) \<and> v = h hp ! (pos + 1) \<and> (pos = 1 \<or> pos = 2)
    \<and> pos < currentSize hp \<and> (\<forall>i. 2 \<le> i \<and> i \<le> currentSize hp \<longrightarrow> \<not> lt (h hp ! i) v)"
proof -
  let ?n = "currentSize hp" and ?xs = "h hp"
  have heap: "heap_on lt ?xs ?n" using inv by (simp add: heap_inv_def)
  have sub: "\<not> lt (?xs ! i) (?xs ! 2) \<or> \<not> lt (?xs ! i) (?xs ! 3)" if "2 \<le> i" "i \<le> ?n" for i
    using that
  proof (induction i rule: less_induct)
    case (less i)
    show ?case
    proof (cases "i \<le> 3")
      case True
      with less.prems have "i = 2 \<or> i = 3" by auto
      then show ?thesis using irrefl by auto
    next
      case False
      then have "\<not> lt (?xs ! i) (?xs ! (i div 2))" using heap less.prems by (simp add: heap_on_def)
      moreover have "\<not> lt (?xs ! (i div 2)) (?xs ! 2) \<or> \<not> lt (?xs ! (i div 2)) (?xs ! 3)"
        using less False by auto
      ultimately show ?thesis using not_lt_trans by blast
    qed
  qed
  show ?thesis
  proof (cases "?n = 2 \<or> lt (?xs ! 2) (?xs ! 3)")
    case True
    have "\<not> lt (?xs ! i) (?xs ! 2)" if i: "2 \<le> i" "i \<le> ?n" for i
    proof (cases "?n = 2")
      case True
      with i show ?thesis by (simp add: irrefl)
    next
      case False
      with True have "\<not> lt (?xs ! 3) (?xs ! 2)" using asym by blast
      with sub [OF i] show ?thesis using not_lt_trans by blast
    qed
    with True n show ?thesis by (simp add: heap_getSecond_def flip: numeral_2_eq_2)
  next
    case False
    then have "\<not> lt (?xs ! i) (?xs ! 3)" if "2 \<le> i" "i \<le> ?n" for i
      using sub [OF that] not_lt_trans by blast
    with False n show ?thesis by (auto simp: heap_getSecond_def)
  qed
qed

end

section \<open>The contract of a bounded priority queue\<close>

text \<open>\<open>drain pq_get pq_pop n q\<close> takes the least element out \<open>n\<close> times.\<close>

fun drain :: "('q \<Rightarrow> 'a) \<Rightarrow> ('q \<Rightarrow> 'q option) \<Rightarrow> nat \<Rightarrow> 'q \<Rightarrow> 'a list option" where
  "drain pq_get pq_pop 0 q = Some []"
| "drain pq_get pq_pop (Suc n) q =
     (case pq_pop q of None \<Rightarrow> None
      | Some q' \<Rightarrow> map_option (\<lambda>xs. pq_get q # xs) (drain pq_get pq_pop n q'))"

fun insert_all :: "('q \<Rightarrow> 'a \<Rightarrow> fault + 'q) \<Rightarrow> 'q \<Rightarrow> 'a list \<Rightarrow> fault + 'q" where
  "insert_all pq_insert q [] = Inr q"
| "insert_all pq_insert q (x # xs) = (case pq_insert q x of Inl e \<Rightarrow> Inl e | Inr q' \<Rightarrow> insert_all pq_insert q' xs)"

locale bounded_pq =
  fixes lt :: "'a \<Rightarrow> 'a \<Rightarrow> bool"
    and pq_insert :: "'q \<Rightarrow> 'a \<Rightarrow> fault + 'q"
    and pq_get :: "'q \<Rightarrow> 'a"
    and pq_pop :: "'q \<Rightarrow> 'q option"
    and pq_inv :: "'q \<Rightarrow> bool"
    and pq_contents :: "'q \<Rightarrow> 'a multiset"
    and pq_capacity :: "'q \<Rightarrow> nat"
  assumes pq_insert_room: "pq_inv q \<Longrightarrow> size (pq_contents q) < pq_capacity q \<Longrightarrow>
      \<exists>q'. pq_insert q x = Inr q' \<and> pq_inv q' \<and> pq_contents q' = add_mset x (pq_contents q) \<and> pq_capacity q' = pq_capacity q"
    and pq_insert_full: "pq_inv q \<Longrightarrow> \<not> size (pq_contents q) < pq_capacity q \<Longrightarrow> pq_insert q x = Inl OutOfBounds"
    and pq_get_least: "pq_inv q \<Longrightarrow> pq_contents q \<noteq> {#} \<Longrightarrow> y \<in># pq_contents q \<Longrightarrow> \<not> lt y (pq_get q)"
    and pq_pop_least: "pq_inv q \<Longrightarrow> pq_contents q \<noteq> {#} \<Longrightarrow>
      \<exists>q'. pq_pop q = Some q' \<and> pq_inv q' \<and> pq_contents q = add_mset (pq_get q) (pq_contents q') \<and> pq_capacity q' = pq_capacity q"
begin

lemma insert_all_ok:
  assumes "pq_inv q" and "size (pq_contents q) + length xs \<le> pq_capacity q"
  shows "\<exists>q'. insert_all pq_insert q xs = Inr q' \<and> pq_inv q' \<and> pq_contents q' = pq_contents q + mset xs"
  using assms
proof (induction xs arbitrary: q)
  case Nil
  then show ?case by simp
next
  case (Cons x xs)
  then obtain q' where "pq_insert q x = Inr q'" "pq_inv q'" "pq_contents q' = add_mset x (pq_contents q)"
    "pq_capacity q' = pq_capacity q"
    using pq_insert_room [of q x] by auto
  with Cons.IH [of q'] Cons.prems show ?case by auto
qed

lemma drain_sorted:
  assumes "pq_inv q" and "size (pq_contents q) = n"
  shows "\<exists>xs. drain pq_get pq_pop n q = Some xs \<and> mset xs = pq_contents q \<and> sorted_wrt (\<lambda>x y. \<not> lt y x) xs"
  using assms
proof (induction n arbitrary: q)
  case 0
  then show ?case by simp
next
  case (Suc n)
  then have ne: "pq_contents q \<noteq> {#}" by auto
  from pq_pop_least [OF Suc.prems(1) ne] obtain q'
    where q': "pq_pop q = Some q'" "pq_inv q'" "pq_contents q = add_mset (pq_get q) (pq_contents q')" by blast
  with Suc obtain xs where xs: "drain pq_get pq_pop n q' = Some xs" "mset xs = pq_contents q'"
    "sorted_wrt (\<lambda>x y. \<not> lt y x) xs" by fastforce
  have "\<not> lt y (pq_get q)" if "y \<in> set xs" for y
    using that xs(2) q'(3) by (intro pq_get_least [OF Suc.prems(1) ne]) (simp flip: set_mset_mset)
  with q' xs show ?case by auto
qed

lemma heapsort:
  assumes "pq_inv q" and "pq_contents q = {#}" and "length xs \<le> pq_capacity q"
  shows "\<exists>q' ys. insert_all pq_insert q xs = Inr q' \<and> drain pq_get pq_pop (length xs) q' = Some ys
    \<and> mset ys = mset xs \<and> sorted_wrt (\<lambda>x y. \<not> lt y x) ys"
proof -
  from insert_all_ok [of q xs] assms obtain q'
    where q': "insert_all pq_insert q xs = Inr q'" "pq_inv q'" "pq_contents q' = mset xs" by auto
  with drain_sorted [of q' "length xs"] show ?thesis by auto
qed

end

sublocale comparison \<subseteq> pq: bounded_pq lt "heap_insert lt" heap_get "heap_pop lt" "heap_inv lt" heap_contents maxSize
proof
  fix hp :: "'a minheap" and x y
  assume inv: "heap_inv lt hp"
  note sz = size_heap_contents [OF inv]
  {
    assume "size (heap_contents hp) < maxSize hp"
    with sz heap_insert_ok [OF inv] show "\<exists>q'. heap_insert lt hp x = Inr q' \<and> heap_inv lt q' \<and>
      heap_contents q' = add_mset x (heap_contents hp) \<and> maxSize q' = maxSize hp" by simp
  next
    assume "\<not> size (heap_contents hp) < maxSize hp"
    with sz inv show "heap_insert lt hp x = Inl OutOfBounds"
      by (simp add: heap_insert_def heap_inv_def)
  next
    assume "heap_contents hp \<noteq> {#}"
    then have ne: "currentSize hp \<noteq> 0" using sz by (metis size_eq_0_iff_empty)
    from heap_pop_ok [OF inv ne] show "\<exists>q'. heap_pop lt hp = Some q' \<and> heap_inv lt q' \<and>
      heap_contents hp = add_mset (heap_get hp) (heap_contents q') \<and> maxSize q' = maxSize hp" .
    assume "y \<in># heap_contents hp"
    with heap_get_least [OF inv ne] show "\<not> lt y (heap_get hp)" by blast
  }
qed

interpretation less_heap: comparison "defaultLessCompare :: 'a::linorder \<Rightarrow> 'a \<Rightarrow> bool"
  by unfold_locales (auto simp: defaultLessCompare_def)

interpretation greater_heap: comparison "defaultGreaterCompare :: 'a::linorder \<Rightarrow> 'a \<Rightarrow> bool"
  by unfold_locales (auto simp: defaultGreaterCompare_def)

lemma heap_new_inv: "n < 2 ^ 30 \<Longrightarrow> heap_inv lt (heap_new d n) \<and> heap_contents (heap_new d n) = {#} \<and> maxSize (heap_new d n) = n"
  by (simp add: heap_inv_def heap_new_def heap_on_def heap_contents_def slots_def)

section \<open>The sort member\<close>

text \<open>\<^verbatim>\<open>adjust(0, 1)\<close> swaps slot 0 with itself forever, since the left child of 0 is 0.\<close>

lemma adjust_loop_zero:
  assumes irr: "\<And>x. \<not> lt x x"
  shows "adjust_loop lt xs 0 0 (Suc 0) = None"
proof (rule ccontr)
  assume "adjust_loop lt xs 0 0 (Suc 0) \<noteq> None"
  then obtain r where ret: "adjust_loop lt xs 0 0 (Suc 0) = Some r" by auto
  let ?P = "\<lambda>lt' (xs :: 'a list) (p::nat) (c::nat) end (r :: 'a list). \<not> (lt' = lt \<and> p = 0 \<and> c = 0 \<and> end = Suc (0::nat))"
  have "?P lt xs 0 0 (Suc 0) r"
  proof (rule adjust_loop.raw_induct [where P = ?P, OF _ ret])
    fix f :: "('a \<Rightarrow> 'a \<Rightarrow> bool) \<Rightarrow> 'a list \<Rightarrow> nat \<Rightarrow> nat \<Rightarrow> nat \<Rightarrow> 'a list option" and lt' xs p c "end" r
    assume IH: "\<And>lt' xs p c end r. f lt' xs p c end = Some r \<Longrightarrow> ?P lt' xs p c end r"
      and eq: "(if c \<le> end then
        let c' = (if c + 1 < end \<and> lt' (xs ! (c + 1)) (xs ! c) then c + 1 else c) in
        if lt' (xs ! p) (xs ! c') then Some xs
        else f lt' (heap_swap xs p c') c' (heap_left c') end
      else Some xs) = Some r"
    show "?P lt' xs p c end r"
    proof
      assume "lt' = lt \<and> p = 0 \<and> c = 0 \<and> end = Suc 0"
      with eq irr have "f lt (heap_swap xs 0 0) 0 0 (Suc 0) = Some r" by (simp add: heap_left_def)
      from IH [OF this] show False by simp
    qed
  qed
  then show False by simp
qed

lemma sort_extract_diverges: "(\<And>x. \<not> lt x x) \<Longrightarrow> sort_extract lt (Suc (Suc i)) xs = None"
proof (induction i arbitrary: xs)
  case 0
  then show ?case by (simp add: adjust_def heap_left_def adjust_loop_zero)
next
  case (Suc i)
  from Suc.IH [OF Suc.prems] show ?case by (simp split: option.split)
qed

section \<open>Claims\<close>

text \<open>
  C11: inserting any list into a new heap of sufficient size and popping every element out again
  returns the elements of the list in increasing order, none lost and none added.
\<close>

theorem minheap_sorts:
  fixes xs :: "'a::linorder list"
  assumes "length xs \<le> n" and "n < 2 ^ 30"
  shows "\<exists>hp ys. insert_all (heap_insert defaultLessCompare) (heap_new d n) xs = Inr hp
    \<and> drain heap_get (heap_pop defaultLessCompare) (length xs) hp = Some ys \<and> mset ys = mset xs \<and> sorted ys"
proof -
  have "sorted_wrt (\<lambda>x y. \<not> defaultLessCompare y x) ys \<longleftrightarrow> sorted ys" for ys :: "'a list"
    by (simp add: defaultLessCompare_def not_less)
  with less_heap.pq.heapsort [of "heap_new d n" xs] heap_new_inv [OF assms(2), of defaultLessCompare d] assms(1)
  show ?thesis by simp
qed

theorem minheap_sorts_witness:
  "\<exists>hp ys. insert_all (heap_insert defaultLessCompare) (heap_new 0 4) [3, 1, 2 :: nat] = Inr hp
    \<and> drain heap_get (heap_pop defaultLessCompare) (length [3, 1, 2 :: nat]) hp = Some ys
    \<and> mset ys = mset [3, 1, 2] \<and> sorted ys"
  by (rule minheap_sorts) simp_all

text \<open>
  C31: with any strict weak order as comparison, \<^verbatim>\<open>insert\<close> below capacity keeps the heap invariant and
  adds exactly its argument, \<^verbatim>\<open>insert\<close> at capacity writes past the array, and \<^verbatim>\<open>pop\<close> of a non-empty
  heap returns, keeps the invariant and removes exactly the element \<^verbatim>\<open>get\<close> returns, which is least.
\<close>

theorem heap_operations_correct:
  assumes "comparison lt" and "heap_inv lt hp"
  shows "(case heap_insert lt hp x of
       Inr hp' \<Rightarrow> currentSize hp < maxSize hp \<and> heap_inv lt hp' \<and> heap_contents hp' = add_mset x (heap_contents hp)
     | Inl e \<Rightarrow> currentSize hp = maxSize hp \<and> e = OutOfBounds)
    \<and> (currentSize hp = 0 \<or> (\<exists>hp'. heap_pop lt hp = Some hp' \<and> heap_inv lt hp'
         \<and> heap_contents hp = add_mset (heap_get hp) (heap_contents hp')
         \<and> (\<forall>y \<in># heap_contents hp. \<not> lt y (heap_get hp))))"
proof -
  note L = comparison.heap_insert_ok [OF assms] comparison.heap_pop_ok [OF assms] comparison.heap_get_least [OF assms]
  have "heap_insert lt hp x = Inl OutOfBounds" if "currentSize hp = maxSize hp"
    using assms(2) that by (simp add: heap_insert_def heap_inv_def)
  moreover have "currentSize hp \<le> maxSize hp" using assms(2) by (simp add: heap_inv_def)
  ultimately have "case heap_insert lt hp x of
       Inr hp' \<Rightarrow> currentSize hp < maxSize hp \<and> heap_inv lt hp' \<and> heap_contents hp' = add_mset x (heap_contents hp)
     | Inl e \<Rightarrow> currentSize hp = maxSize hp \<and> e = OutOfBounds"
    using L(1) [of x] by (cases "currentSize hp < maxSize hp") auto
  with L(2,3) show ?thesis by blast
qed

text \<open>A heap of three elements: the least at the root, and 5 and 2 below it.\<close>

definition heap_example :: "nat minheap" where
  "heap_example = \<lparr>h = [0, 1, 5, 2], maxSize = 3, currentSize = 3\<rparr>"

lemma heap_example_inv: "heap_inv defaultLessCompare heap_example"
proof -
  have "{2..3} = {2, 3::nat}" by auto
  then show ?thesis by (simp add: heap_inv_def heap_example_def heap_on_def defaultLessCompare_def)
qed

theorem heap_operations_correct_witness:
  "\<exists>hp'. heap_pop defaultLessCompare heap_example = Some hp' \<and> heap_inv defaultLessCompare hp'
     \<and> heap_contents heap_example = add_mset 1 (heap_contents hp')"
proof -
  have "currentSize heap_example \<noteq> 0" "heap_get heap_example = 1" by (simp_all add: heap_example_def heap_get_def)
  with heap_operations_correct [OF less_heap.comparison_axioms heap_example_inv, of 0] show ?thesis by auto
qed

text \<open>
  \<^verbatim>\<open>popAndInsert\<close> on a non-empty heap of even size replaces the least element by the new one and
  keeps the heap invariant.
\<close>

theorem popAndInsert_even_correct:
  assumes "comparison lt" and "heap_inv lt hp" and "currentSize hp \<noteq> 0" and "even (currentSize hp)"
  shows "\<exists>hp'. heap_popAndInsert lt hp x = Some hp' \<and> heap_inv lt hp'
    \<and> add_mset (heap_get hp) (heap_contents hp') = add_mset x (heap_contents hp)"
  using comparison.heap_popAndInsert_even [OF assms] by blast

definition heap_example2 :: "nat minheap" where
  "heap_example2 = \<lparr>h = [0, 1, 5, 2], maxSize = 3, currentSize = 2\<rparr>"

lemma heap_example2_inv: "heap_inv defaultLessCompare heap_example2"
  by (simp add: heap_inv_def heap_example2_def heap_on_def defaultLessCompare_def)

theorem popAndInsert_even_correct_witness:
  "\<exists>hp'. heap_popAndInsert defaultLessCompare heap_example2 9 = Some hp' \<and> heap_inv defaultLessCompare hp'
    \<and> add_mset 1 (heap_contents hp') = add_mset 9 (heap_contents heap_example2)"
  using popAndInsert_even_correct [OF less_heap.comparison_axioms heap_example2_inv, of 9]
  by (simp add: heap_example2_def heap_get_def)

text \<open>
  On a heap of odd size \<^verbatim>\<open>adjust\<close> does not look at the last element when it is a right child, so
  \<^verbatim>\<open>popAndInsert\<close> may leave a root that is not least: replacing 1 by 10 in the heap 1, 5, 2 puts 5 at
  the root although 2 is still there, and the invariant is lost.
\<close>

theorem popAndInsert_odd_loses_order:
  "\<exists>hp'. heap_inv defaultLessCompare heap_example
     \<and> heap_popAndInsert defaultLessCompare heap_example 10 = Some hp'
     \<and> heap_contents hp' = {#2, 5, 10#} \<and> heap_get hp' = 5 \<and> \<not> heap_inv defaultLessCompare hp'"
proof -
  let ?hp = "\<lparr>h = [0, 5, 10, 2], maxSize = 3, currentSize = 3\<rparr> :: nat minheap"
  have "heap_popAndInsert defaultLessCompare heap_example 10 = Some ?hp"
    by (simp add: heap_popAndInsert_def heap_replaceAt_def heap_example_def adjust_def heap_left_def
        defaultLessCompare_def heap_swap_def adjust_loop.simps)
  moreover have "heap_contents ?hp = {#2, 5, 10#}" by (simp add: heap_contents_def slots_def numeral_3_eq_3)
  moreover have "\<not> heap_inv defaultLessCompare ?hp"
    by (auto simp: heap_inv_def heap_on_def defaultLessCompare_def intro!: bexI [of _ "3::nat"])
  ultimately show ?thesis using heap_example_inv by (simp add: heap_get_def)
qed

text \<open>
  On a heap of at least two elements \<^verbatim>\<open>getSecond\<close> returns the position (from 0) and the value of
  an element that no element other than the root is smaller than.
\<close>

theorem getSecond_is_second_least:
  assumes "comparison lt" and "heap_inv lt hp" and "1 < currentSize hp"
  shows "\<exists>pos v. heap_getSecond lt hp = Some (pos, v) \<and> v = h hp ! (pos + 1) \<and> (pos = 1 \<or> pos = 2)
    \<and> pos < currentSize hp \<and> (\<forall>i. 2 \<le> i \<and> i \<le> currentSize hp \<longrightarrow> \<not> lt (h hp ! i) v)"
  by (rule comparison.heap_second_least [OF assms])

theorem getSecond_is_second_least_witness:
  "\<exists>pos v. heap_getSecond defaultLessCompare heap_example = Some (pos, v) \<and> v = h heap_example ! (pos + 1)
     \<and> \<not> (5::nat) < v"
  using getSecond_is_second_least [OF less_heap.comparison_axioms heap_example_inv]
  by (force simp: heap_example_def defaultLessCompare_def)

text \<open>
  \<^verbatim>\<open>sort\<close> never returns on a heap whose size field is at least 3: its last round runs
  \<^verbatim>\<open>adjust(0, 1)\<close>, and the left child of slot 0 is slot 0 itself.
\<close>

theorem heap_sort_never_returns:
  assumes "comparison lt" and "3 \<le> currentSize hp"
  shows "heap_sort lt hp = None"
proof -
  obtain i where "currentSize hp - 1 = Suc (Suc i)" using assms(2) by (intro that [of "currentSize hp - 3"]) simp
  moreover have "sort_extract lt (Suc (Suc i)) xs = None" for xs
    by (rule sort_extract_diverges) (rule comparison.irrefl [OF assms(1)])
  ultimately show ?thesis by (simp add: heap_sort_def split: option.split)
qed

theorem heap_sort_never_returns_witness: "heap_sort defaultLessCompare heap_example = None"
  by (rule heap_sort_never_returns [OF less_heap.comparison_axioms]) (simp add: heap_example_def)

end
