(* ===== verification/PageTable.thy ===== *)
theory PageTable
  imports Prelude
begin

unbundle bit_operations_syntax

text \<open>
  \<^verbatim>\<open>util/pageTable.h\<close>: the three-level table through which \<^verbatim>\<open>database\<close> finds its blocks by 32-bit id.
  Nodes live in explicit stores of middle and low nodes; a pointer is a number, 0 is null, and
  following or deleting a pointer whose node has been freed is the fault \<open>UseAfterFree\<close>.  Values are
  64-bit words, 0 being the null value.  The operations are those of one thread.  The theory shows
  that \<^verbatim>\<open>get\<close>, \<^verbatim>\<open>set\<close>, \<^verbatim>\<open>update\<close>, \<^verbatim>\<open>updateCas\<close> and \<^verbatim>\<open>erase\<close> implement a finite map, that \<^verbatim>\<open>clear\<close> empties it
  and passes every value to the destroy function exactly once, and what \<^verbatim>\<open>purge\<close> does.
\<close>

record pageTable =
  root :: "nat \<Rightarrow> nat"
  mids :: "nat \<rightharpoonup> (nat \<Rightarrow> nat)"
  lows :: "nat \<rightharpoonup> (nat \<Rightarrow> u64)"
  pt_min :: u32
  pt_max :: u32
  hasDestroy :: bool
  pt_next :: nat
  destroyed :: "u64 list"

definition PT_HIGH :: "u32 \<Rightarrow> nat" where "PT_HIGH pid = unat (drop_bit (12 + 12) pid)"

definition PT_MID :: "u32 \<Rightarrow> nat" where "PT_MID pid = unat (drop_bit 12 (pid AND 0x00fff000))"

definition PT_LOW :: "u32 \<Rightarrow> nat" where "PT_LOW pid = unat (pid AND 0x00000fff)"

definition pageTable_new :: "bool \<Rightarrow> pageTable" where
  "pageTable_new f = \<lparr>root = (\<lambda>_. 0), mids = Map.empty, lows = Map.empty, pt_min = 0, pt_max = 0,
     hasDestroy = f, pt_next = 1, destroyed = []\<rparr>"

definition deref_mid :: "pageTable \<Rightarrow> nat \<Rightarrow> fault + (nat \<Rightarrow> nat)" where
  "deref_mid pt p = (case mids pt p of None \<Rightarrow> Inl UseAfterFree | Some m \<Rightarrow> Inr m)"

definition deref_low :: "pageTable \<Rightarrow> nat \<Rightarrow> fault + (nat \<Rightarrow> u64)" where
  "deref_low pt p = (case lows pt p of None \<Rightarrow> Inl UseAfterFree | Some l \<Rightarrow> Inr l)"

text \<open>The pointer to the low node of \<open>pid\<close>, 0 when a level is missing or \<open>pid\<close> is out of range.\<close>

definition out_of_range :: "pageTable \<Rightarrow> u32 \<Rightarrow> bool" where
  "out_of_range pt pid = (pt_min pt > pid \<or> pt_max pt < pid)"

definition find_low :: "pageTable \<Rightarrow> u32 \<Rightarrow> fault + nat" where
  "find_low pt pid =
     (let mid = root pt (PT_HIGH pid) in
      if mid = 0 then Inr 0
      else sbind (deref_mid pt mid) (\<lambda>m. Inr (m (PT_MID pid))))"

definition pt_get :: "pageTable \<Rightarrow> u32 \<Rightarrow> fault + u64" where
  "pt_get pt pid =
     (if out_of_range pt pid then Inr 0
      else sbind (find_low pt pid) (\<lambda>low.
        if low = 0 then Inr 0
        else sbind (deref_low pt low) (\<lambda>l. Inr (l (PT_LOW pid)))))"

definition store_low :: "pageTable \<Rightarrow> nat \<Rightarrow> nat \<Rightarrow> u64 \<Rightarrow> fault + pageTable" where
  "store_low pt low k v = sbind (deref_low pt low) (\<lambda>l. Inr (pt\<lparr>lows := (lows pt)(low \<mapsto> l(k := v))\<rparr>))"

definition pt_update :: "pageTable \<Rightarrow> u32 \<Rightarrow> u64 \<Rightarrow> fault + bool \<times> pageTable" where
  "pt_update pt pid data =
     (if out_of_range pt pid then Inr (False, pt)
      else sbind (find_low pt pid) (\<lambda>low.
        if low = 0 then Inr (False, pt)
        else sbind (deref_low pt low) (\<lambda>l.
          if l (PT_LOW pid) = 0 then Inr (False, pt)
          else sbind (store_low pt low (PT_LOW pid) data) (\<lambda>pt'. Inr (True, pt')))))"

text \<open>\<^verbatim>\<open>updateCas\<close> also returns the new content of its reference argument \<^verbatim>\<open>expect\<close>.\<close>

definition pt_updateCas :: "pageTable \<Rightarrow> u32 \<Rightarrow> u64 \<Rightarrow> u64 \<Rightarrow> fault + bool \<times> u64 \<times> pageTable" where
  "pt_updateCas pt pid data expect =
     (if out_of_range pt pid then Inr (False, 0, pt)
      else sbind (find_low pt pid) (\<lambda>low.
        if low = 0 then Inr (False, 0, pt)
        else sbind (deref_low pt low) (\<lambda>l.
          if l (PT_LOW pid) = expect
          then sbind (store_low pt low (PT_LOW pid) data) (\<lambda>pt'. Inr (True, expect, pt'))
          else Inr (False, l (PT_LOW pid), pt))))"

definition pt_begin :: "pageTable \<Rightarrow> fault + u64" where "pt_begin pt = pt_get pt (pt_min pt)"

definition pt_end :: "pageTable \<Rightarrow> fault + u64" where "pt_end pt = pt_get pt (pt_max pt)"

definition ensure_mid :: "pageTable \<Rightarrow> nat \<Rightarrow> nat \<times> pageTable" where
  "ensure_mid pt i =
     (if root pt i = 0
      then (pt_next pt, pt\<lparr>root := (root pt)(i := pt_next pt), mids := (mids pt)(pt_next pt \<mapsto> (\<lambda>_. 0)),
                           pt_next := pt_next pt + 1\<rparr>)
      else (root pt i, pt))"

definition ensure_low :: "pageTable \<Rightarrow> nat \<Rightarrow> nat \<Rightarrow> fault + nat \<times> pageTable" where
  "ensure_low pt mid j =
     sbind (deref_mid pt mid) (\<lambda>m.
       if m j = 0
       then Inr (pt_next pt, pt\<lparr>mids := (mids pt)(mid \<mapsto> m(j := pt_next pt)), lows := (lows pt)(pt_next pt \<mapsto> (\<lambda>_. 0)),
                                pt_next := pt_next pt + 1\<rparr>)
       else Inr (m j, pt))"

definition widen_range :: "pageTable \<Rightarrow> u32 \<Rightarrow> pageTable" where
  "widen_range pt pid =
     pt\<lparr>pt_min := (if pt_min pt \<le> pid then pt_min pt else pid), pt_max := (if pt_max pt \<ge> pid then pt_max pt else pid)\<rparr>"

definition pt_set :: "pageTable \<Rightarrow> u32 \<Rightarrow> u64 \<Rightarrow> fault + u64 \<times> pageTable" where
  "pt_set pt pid data =
     (case ensure_mid pt (PT_HIGH pid) of (mid, pt1) \<Rightarrow>
      sbind (ensure_low pt1 mid (PT_MID pid)) (\<lambda>(low, pt2).
      sbind (deref_low pt2 low) (\<lambda>l.
        if l (PT_LOW pid) \<noteq> 0 then Inr (l (PT_LOW pid), pt2)
        else sbind (store_low pt2 low (PT_LOW pid) data) (\<lambda>pt3. Inr (data, widen_range pt3 pid)))))"

definition destroy :: "pageTable \<Rightarrow> u64 list \<Rightarrow> pageTable" where
  "destroy pt vs = (if hasDestroy pt then pt\<lparr>destroyed := destroyed pt @ vs\<rparr> else pt)"

definition pt_erase :: "pageTable \<Rightarrow> u32 \<Rightarrow> fault + pageTable" where
  "pt_erase pt pid =
     (if out_of_range pt pid then Inr pt
      else sbind (find_low pt pid) (\<lambda>low.
        if low = 0 then Inr pt
        else sbind (deref_low pt low) (\<lambda>l.
          if l (PT_LOW pid) = 0 then Inr pt
          else sbind (store_low pt low (PT_LOW pid) 0) (\<lambda>pt'. Inr (destroy pt' [l (PT_LOW pid)])))))"

text \<open>Destroy the values of the first \<open>n\<close> slots of a low node and delete the node.\<close>

definition drop_low :: "nat \<Rightarrow> pageTable \<Rightarrow> nat \<Rightarrow> fault + pageTable" where
  "drop_low n pt low =
     sbind (deref_low pt low) (\<lambda>l.
       Inr ((destroy pt (filter (\<lambda>v. v \<noteq> 0) (map l [0..<n])))\<lparr>lows := (lows pt)(low := None)\<rparr>))"

text \<open>Drop the low nodes below a middle node, with or without resetting the child pointers.\<close>

fun drop_children :: "bool \<Rightarrow> nat \<Rightarrow> pageTable \<Rightarrow> nat \<Rightarrow> nat list \<Rightarrow> fault + pageTable" where
  "drop_children reset n pt mid [] = Inr pt"
| "drop_children reset n pt mid (j # js) =
     sbind (deref_mid pt mid) (\<lambda>m.
       if m j = 0 then drop_children reset n pt mid js
       else sbind (drop_low n (if reset then pt\<lparr>mids := (mids pt)(mid \<mapsto> m(j := 0))\<rparr> else pt) (m j)) (\<lambda>pt'.
            drop_children reset n pt' mid js))"

definition free_mid :: "pageTable \<Rightarrow> nat \<Rightarrow> fault + pageTable" where
  "free_mid pt mid = sbind (deref_mid pt mid) (\<lambda>_. Inr (pt\<lparr>mids := (mids pt)(mid := None)\<rparr>))"

fun clear_roots :: "pageTable \<Rightarrow> nat list \<Rightarrow> fault + pageTable" where
  "clear_roots pt [] = Inr pt"
| "clear_roots pt (i # is) =
     (if root pt i = 0 then clear_roots pt is
      else sbind (drop_children True 4096 pt (root pt i) [0..<4096]) (\<lambda>pt1.
           sbind (free_mid pt1 (root pt i)) (\<lambda>pt2.
           clear_roots (pt2\<lparr>root := (root pt2)(i := 0)\<rparr>) is)))"

definition pt_clear :: "pageTable \<Rightarrow> fault + pageTable" where
  "pt_clear pt = clear_roots (pt\<lparr>pt_min := 0, pt_max := 0\<rparr>) [0..<256]"

text \<open>\<^verbatim>\<open>purge\<close> deletes the middle nodes but leaves the pointers to them in the root.\<close>

fun purge_roots :: "pageTable \<Rightarrow> nat list \<Rightarrow> fault + pageTable" where
  "purge_roots pt [] = Inr pt"
| "purge_roots pt (i # is) =
     (if root pt i = 0 then purge_roots (pt\<lparr>root := (root pt)(i := 0)\<rparr>) is
      else sbind (drop_children False 4095 pt (root pt i) [0..<4095]) (\<lambda>pt1.
           sbind (free_mid pt1 (root pt i)) (\<lambda>pt2. purge_roots pt2 is)))"

definition purge_slots :: "pageTable \<Rightarrow> nat \<Rightarrow> nat \<Rightarrow> fault + pageTable" where
  "purge_slots pt low n =
     sbind (deref_low pt low) (\<lambda>l.
       Inr ((destroy pt (filter (\<lambda>v. v \<noteq> 0) (map l [0..<n])))\<lparr>lows := (lows pt)(low \<mapsto> (\<lambda>k. if k < n then 0 else l k))\<rparr>))"

definition pt_purge :: "pageTable \<Rightarrow> u32 \<Rightarrow> fault + pageTable" where
  "pt_purge pt pid =
     (if out_of_range pt pid then Inr pt
      else sbind (purge_roots (pt\<lparr>pt_min := (if pt_min pt \<le> pid then pt_min pt else pid)\<rparr>) [0..<PT_HIGH pid]) (\<lambda>pt1.
        let mid = root pt1 (PT_HIGH pid) in
        if mid = 0 then Inr pt1
        else sbind (drop_children True 4095 pt1 mid [0..<PT_MID pid]) (\<lambda>pt2.
             sbind (deref_mid pt2 mid) (\<lambda>m.
             if m (PT_MID pid) = 0 then Inr pt2 else purge_slots pt2 (m (PT_MID pid)) (PT_LOW pid)))))"

section \<open>Abstraction and invariant\<close>

definition lowptr :: "pageTable \<Rightarrow> nat \<Rightarrow> nat \<Rightarrow> nat" where
  "lowptr pt i j = (if root pt i = 0 then 0 else case mids pt (root pt i) of None \<Rightarrow> 0 | Some m \<Rightarrow> m j)"

definition pt_val :: "pageTable \<Rightarrow> nat \<Rightarrow> nat \<Rightarrow> nat \<Rightarrow> u64" where
  "pt_val pt i j k = (if lowptr pt i j = 0 then 0 else case lows pt (lowptr pt i j) of None \<Rightarrow> 0 | Some l \<Rightarrow> l k)"

definition pt_lookup :: "pageTable \<Rightarrow> u32 \<Rightarrow> u64" where
  "pt_lookup pt pid = pt_val pt (PT_HIGH pid) (PT_MID pid) (PT_LOW pid)"

text \<open>Every pointer leads to a live node, no node is shared, nodes lie below the allocation mark.\<close>

definition pt_wf :: "pageTable \<Rightarrow> bool" where
  "pt_wf pt \<longleftrightarrow> 0 < pt_next pt
     \<and> (\<forall>p. mids pt p \<noteq> None \<longrightarrow> p < pt_next pt) \<and> (\<forall>p. lows pt p \<noteq> None \<longrightarrow> p < pt_next pt)
     \<and> (\<forall>i. root pt i \<noteq> 0 \<longrightarrow> i < 256 \<and> mids pt (root pt i) \<noteq> None)
     \<and> (\<forall>i i'. root pt i = root pt i' \<and> root pt i \<noteq> 0 \<longrightarrow> i = i')
     \<and> (\<forall>i j. lowptr pt i j \<noteq> 0 \<longrightarrow> j < 4096 \<and> lows pt (lowptr pt i j) \<noteq> None)
     \<and> (\<forall>i j i' j'. lowptr pt i j = lowptr pt i' j' \<and> lowptr pt i j \<noteq> 0 \<longrightarrow> i = i' \<and> j = j')"

definition pt_inv :: "pageTable \<Rightarrow> bool" where
  "pt_inv pt \<longleftrightarrow> pt_wf pt \<and> (\<forall>pid. pt_lookup pt pid \<noteq> 0 \<longrightarrow> pt_min pt \<le> pid \<and> pid \<le> pt_max pt)"

lemma pt_wfD:
  assumes "pt_wf pt"
  shows "0 < pt_next pt" and "mids pt p \<noteq> None \<Longrightarrow> p < pt_next pt" and "lows pt p \<noteq> None \<Longrightarrow> p < pt_next pt"
    and "root pt i \<noteq> 0 \<Longrightarrow> i < 256 \<and> mids pt (root pt i) \<noteq> None"
    and "root pt i = root pt i' \<Longrightarrow> root pt i \<noteq> 0 \<Longrightarrow> i = i'"
    and "lowptr pt i j \<noteq> 0 \<Longrightarrow> j < 4096 \<and> lows pt (lowptr pt i j) \<noteq> None"
    and "lowptr pt i j = lowptr pt i' j' \<Longrightarrow> lowptr pt i j \<noteq> 0 \<Longrightarrow> i = i' \<and> j = j'"
  using assms unfolding pt_wf_def by blast+

lemma pt_wfI:
  assumes "0 < pt_next pt" and "\<And>p. mids pt p \<noteq> None \<Longrightarrow> p < pt_next pt" and "\<And>p. lows pt p \<noteq> None \<Longrightarrow> p < pt_next pt"
    and "\<And>i. root pt i \<noteq> 0 \<Longrightarrow> i < 256 \<and> mids pt (root pt i) \<noteq> None"
    and "\<And>i i'. root pt i = root pt i' \<Longrightarrow> root pt i \<noteq> 0 \<Longrightarrow> i = i'"
    and "\<And>i j. lowptr pt i j \<noteq> 0 \<Longrightarrow> j < 4096 \<and> lows pt (lowptr pt i j) \<noteq> None"
    and "\<And>i j i' j'. lowptr pt i j = lowptr pt i' j' \<Longrightarrow> lowptr pt i j \<noteq> 0 \<Longrightarrow> i = i' \<and> j = j'"
  shows "pt_wf pt"
proof -
  have 2: "\<forall>p. mids pt p \<noteq> None \<longrightarrow> p < pt_next pt" and 3: "\<forall>p. lows pt p \<noteq> None \<longrightarrow> p < pt_next pt"
    using assms(2,3) by blast+
  have 4: "\<forall>i. root pt i \<noteq> 0 \<longrightarrow> i < 256 \<and> mids pt (root pt i) \<noteq> None" using assms(4) by blast
  have 5: "\<forall>i i'. root pt i = root pt i' \<and> root pt i \<noteq> 0 \<longrightarrow> i = i'" using assms(5) by blast
  have 6: "\<forall>i j. lowptr pt i j \<noteq> 0 \<longrightarrow> j < 4096 \<and> lows pt (lowptr pt i j) \<noteq> None" using assms(6) by blast
  have 7: "\<forall>i j i' j'. lowptr pt i j = lowptr pt i' j' \<and> lowptr pt i j \<noteq> 0 \<longrightarrow> i = i' \<and> j = j'"
    using assms(7) by blast
  show ?thesis unfolding pt_wf_def by (intro conjI) (fact assms(1) 2 3 4 5 6 7)+
qed

lemma pt_wf_lows: "(\<And>p. (L p = None) = (lows pt p = None)) \<Longrightarrow> pt_wf (pt\<lparr>lows := L\<rparr>) = pt_wf pt"
  unfolding pt_wf_def by (simp add: lowptr_def)

lemma PT_HIGH_div: "PT_HIGH pid = unat pid div 2 ^ 24"
  by (simp only: PT_HIGH_def unat_drop_bit_eq) (simp add: drop_bit_eq_div)

lemma PT_LOW_mod: "PT_LOW pid = unat pid mod 2 ^ 12"
proof -
  have m: "(0x00000fff :: u32) = mask 12" by (simp add: mask_eq_exp_minus_1)
  show ?thesis by (simp only: PT_LOW_def m unat_and_mask)
qed

lemma PT_MID_mod: "PT_MID pid = unat pid div 2 ^ 12 mod 2 ^ 12"
proof -
  have m: "(0x00fff000 :: u32) = push_bit 12 (mask 12)" by (simp add: mask_eq_exp_minus_1 push_bit_eq_mult)
  have "drop_bit 12 (pid AND push_bit 12 (mask 12)) = take_bit 12 (drop_bit 12 pid)"
    by (rule bit_word_eqI) (auto simp: bit_simps)
  then show ?thesis
    by (simp only: PT_MID_def m unsigned_take_bit_eq unat_drop_bit_eq) (simp add: take_bit_eq_mod drop_bit_eq_div)
qed

lemma PT_bounds: "PT_HIGH pid < 256" "PT_MID pid < 4096" "PT_LOW pid < 4096"
proof -
  have "unat pid < 2 ^ 32" using unat_bound [of pid] by simp
  then show "PT_HIGH pid < 256" by (simp add: PT_HIGH_div less_mult_imp_div_less)
qed (simp_all add: PT_MID_mod PT_LOW_mod)

lemma three_digits: "(n::nat) = n div (a * a) * (a * a) + n div a mod a * a + n mod a"
proof -
  have "n = (n div a div a * a + n div a mod a) * a + n mod a" by (simp only: div_mult_mod_eq)
  also have "\<dots> = n div (a * a) * (a * a) + n div a mod a * a + n mod a" by (simp only: div_mult2_eq distrib_right mult.assoc)
  finally show ?thesis .
qed

lemma unat_PT: "unat pid = PT_HIGH pid * 2 ^ 24 + PT_MID pid * 2 ^ 12 + PT_LOW pid"
  unfolding PT_HIGH_div PT_MID_mod PT_LOW_mod
  using three_digits [of "unat pid" "2 ^ 12"] by simp

lemma PT_inj: "PT_HIGH a = PT_HIGH b \<Longrightarrow> PT_MID a = PT_MID b \<Longrightarrow> PT_LOW a = PT_LOW b \<Longrightarrow> a = b"
  by (metis unat_PT word_unat_eq_iff)

lemma lowptr_upd [simp]:
  "lowptr (pt\<lparr>lows := L\<rparr>) = lowptr pt" "lowptr (pt\<lparr>pt_min := a\<rparr>) = lowptr pt" "lowptr (pt\<lparr>pt_max := a\<rparr>) = lowptr pt"
  "lowptr (pt\<lparr>pt_next := n\<rparr>) = lowptr pt" "lowptr (pt\<lparr>destroyed := d\<rparr>) = lowptr pt"
  by (rule ext, rule ext, simp add: lowptr_def)+

lemma pt_val_upd [simp]:
  "pt_val (pt\<lparr>pt_min := a\<rparr>) = pt_val pt" "pt_val (pt\<lparr>pt_max := a\<rparr>) = pt_val pt"
  "pt_val (pt\<lparr>destroyed := d\<rparr>) = pt_val pt"
  by (rule ext, rule ext, rule ext, simp add: pt_val_def)+

lemma pt_wf_upd [simp]:
  "pt_wf (pt\<lparr>pt_min := a\<rparr>) = pt_wf pt" "pt_wf (pt\<lparr>pt_max := a\<rparr>) = pt_wf pt"
  "pt_wf (pt\<lparr>destroyed := d\<rparr>) = pt_wf pt"
  by (simp_all add: pt_wf_def)

lemma find_low_wf: "pt_wf pt \<Longrightarrow> find_low pt pid = Inr (lowptr pt (PT_HIGH pid) (PT_MID pid))"
  using pt_wfD(4) [of pt "PT_HIGH pid"]
  by (auto simp: find_low_def Let_def lowptr_def deref_mid_def)

lemma deref_low_wf:
  assumes "pt_wf pt" and "lowptr pt i j \<noteq> 0"
  obtains l where "lows pt (lowptr pt i j) = Some l" and "\<And>k. pt_val pt i j k = l k"
  using pt_wfD(6) [OF assms] assms(2) by (auto simp: pt_val_def)

lemma pt_get_lookup:
  assumes "pt_inv pt"
  shows "pt_get pt pid = Inr (pt_lookup pt pid)"
proof (cases "out_of_range pt pid")
  case True
  then have "pt_lookup pt pid = 0" using assms unfolding pt_inv_def out_of_range_def by (meson not_less)
  with True show ?thesis by (simp add: pt_get_def)
next
  case False
  have wf: "pt_wf pt" using assms by (simp add: pt_inv_def)
  let ?p = "lowptr pt (PT_HIGH pid) (PT_MID pid)"
  show ?thesis
  proof (cases "?p = 0")
    case True
    with False show ?thesis by (simp add: pt_get_def find_low_wf [OF wf] pt_lookup_def pt_val_def)
  next
    case nz: False
    from deref_low_wf [OF wf nz] obtain l where "lows pt ?p = Some l" "\<And>k. pt_val pt (PT_HIGH pid) (PT_MID pid) k = l k"
      by blast
    with False nz show ?thesis by (simp add: pt_get_def find_low_wf [OF wf] pt_lookup_def deref_low_def)
  qed
qed

text \<open>A store into an existing low node changes one value.\<close>

lemma store_low_ok:
  assumes wf: "pt_wf pt" and p: "lowptr pt i j \<noteq> 0"
  shows "\<exists>pt'. store_low pt (lowptr pt i j) k v = Inr pt' \<and> pt_wf pt' \<and> lowptr pt' = lowptr pt
    \<and> (\<forall>a b c. pt_val pt' a b c = (if a = i \<and> b = j \<and> c = k then v else pt_val pt a b c))
    \<and> pt_min pt' = pt_min pt \<and> pt_max pt' = pt_max pt \<and> hasDestroy pt' = hasDestroy pt \<and> destroyed pt' = destroyed pt"
proof -
  let ?p = "lowptr pt i j"
  from deref_low_wf [OF wf p] obtain l where l: "lows pt ?p = Some l" "\<And>k. pt_val pt i j k = l k" by blast
  let ?pt = "pt\<lparr>lows := (lows pt)(?p \<mapsto> l(k := v))\<rparr>"
  have "pt_val ?pt a b c = (if a = i \<and> b = j \<and> c = k then v else pt_val pt a b c)" for a b c
  proof (cases "lowptr pt a b = ?p")
    case True
    with pt_wfD(7) [OF wf True] p l show ?thesis by (auto simp: pt_val_def)
  next
    case False
    then show ?thesis by (auto simp: pt_val_def)
  qed
  moreover have "pt_wf ?pt" using wf l(1) by (subst pt_wf_lows) auto
  ultimately show ?thesis using l by (simp add: store_low_def deref_low_def)
qed

lemma ensure_mid_ok:
  assumes wf: "pt_wf pt" and i: "i < 256"
  shows "\<exists>p pt'. ensure_mid pt i = (p, pt') \<and> pt_wf pt' \<and> p \<noteq> 0 \<and> root pt' i = p \<and> lowptr pt' = lowptr pt \<and> lows pt' = lows pt
    \<and> pt_min pt' = pt_min pt \<and> pt_max pt' = pt_max pt \<and> hasDestroy pt' = hasDestroy pt \<and> destroyed pt' = destroyed pt"
proof (cases "root pt i = 0")
  case False
  with wf show ?thesis by (simp add: ensure_mid_def)
next
  case True
  let ?p = "pt_next pt"
  let ?pt = "pt\<lparr>root := (root pt)(i := ?p), mids := (mids pt)(?p \<mapsto> (\<lambda>_. 0)), pt_next := ?p + 1\<rparr>"
  have fresh: "root pt a \<noteq> ?p" for a
    using pt_wfD(1) [OF wf] pt_wfD(4) [OF wf, of a] pt_wfD(2) [OF wf, of "root pt a"] by (cases "root pt a = 0") auto
  have lp: "lowptr ?pt = lowptr pt"
    using True fresh by (intro ext) (auto simp: lowptr_def)
  have "pt_wf ?pt"
  proof (rule pt_wfI, unfold lp)
    show "mids ?pt q \<noteq> None \<Longrightarrow> q < pt_next ?pt" for q
      using pt_wfD(2) [OF wf, of q] by (auto split: if_splits)
    show "lows ?pt q \<noteq> None \<Longrightarrow> q < pt_next ?pt" for q
      using pt_wfD(3) [OF wf, of q] by auto
    show "root ?pt a \<noteq> 0 \<Longrightarrow> a < 256 \<and> mids ?pt (root ?pt a) \<noteq> None" for a
      using pt_wfD(4) [OF wf, of a] i by (auto split: if_splits)
    show "root ?pt a = root ?pt b \<Longrightarrow> root ?pt a \<noteq> 0 \<Longrightarrow> a = b" for a b
      using pt_wfD(5) [OF wf, of a b] fresh [of a] fresh [of b] by (simp split: if_splits)
    show "lowptr pt a b \<noteq> 0 \<Longrightarrow> b < 4096 \<and> lows ?pt (lowptr pt a b) \<noteq> None" for a b
      using pt_wfD(6) [OF wf, of a b] by simp
    show "lowptr pt a b = lowptr pt c d \<Longrightarrow> lowptr pt a b \<noteq> 0 \<Longrightarrow> a = c \<and> b = d" for a b c d
      by (rule pt_wfD(7) [OF wf])
  qed simp
  with True lp pt_wfD(1) [OF wf] show ?thesis by (simp add: ensure_mid_def)
qed

lemma ensure_low_ok:
  assumes wf: "pt_wf pt" and r: "root pt i = p" "p \<noteq> 0" and j: "j < 4096"
  shows "\<exists>q pt'. ensure_low pt p j = Inr (q, pt') \<and> pt_wf pt' \<and> q \<noteq> 0 \<and> lowptr pt' i j = q \<and> pt_val pt' = pt_val pt
    \<and> pt_min pt' = pt_min pt \<and> pt_max pt' = pt_max pt \<and> hasDestroy pt' = hasDestroy pt \<and> destroyed pt' = destroyed pt"
proof -
  from pt_wfD(4) [OF wf, of i] r obtain m where m: "mids pt p = Some m" by auto
  then have mj: "lowptr pt i j = m j" using r by (simp add: lowptr_def)
  show ?thesis
  proof (cases "m j = 0")
    case False
    with m mj wf show ?thesis by (simp add: ensure_low_def deref_mid_def)
  next
    case True
    let ?q = "pt_next pt"
    let ?pt = "pt\<lparr>mids := (mids pt)(p \<mapsto> m(j := ?q)), lows := (lows pt)(?q \<mapsto> (\<lambda>_. 0)), pt_next := ?q + 1\<rparr>"
    have pos: "0 < ?q" by (rule pt_wfD(1) [OF wf])
    have lp: "lowptr ?pt a b = (if a = i \<and> b = j then ?q else lowptr pt a b)" for a b
    proof (cases "a = i")
      case True
      with r m show ?thesis by (simp add: lowptr_def)
    next
      case False
      with pt_wfD(5) [OF wf, of a i] r have "root pt a \<noteq> p" by auto
      with False show ?thesis by (simp add: lowptr_def)
    qed
    have old: "lowptr pt a b \<noteq> ?q" for a b
      using pt_wfD(3) [OF wf, of "lowptr pt a b"] pt_wfD(6) [OF wf, of a b] pos by (cases "lowptr pt a b = 0") auto
    have val: "pt_val ?pt = pt_val pt"
    proof (intro ext)
      fix a b c
      show "pt_val ?pt a b c = pt_val pt a b c"
        unfolding pt_val_def lp using old [of a b] pos mj True by auto
    qed
    have "pt_wf ?pt"
    proof (rule pt_wfI, unfold lp)
      show "mids ?pt a \<noteq> None \<Longrightarrow> a < pt_next ?pt" for a
        using pt_wfD(2) [OF wf, of a] m by (auto split: if_splits)
      show "lows ?pt a \<noteq> None \<Longrightarrow> a < pt_next ?pt" for a
        using pt_wfD(3) [OF wf, of a] by (auto split: if_splits)
      show "root ?pt a \<noteq> 0 \<Longrightarrow> a < 256 \<and> mids ?pt (root ?pt a) \<noteq> None" for a
        using pt_wfD(4) [OF wf, of a] by auto
      show "root ?pt a = root ?pt b \<Longrightarrow> root ?pt a \<noteq> 0 \<Longrightarrow> a = b" for a b
        using pt_wfD(5) [OF wf, of a b] by simp
      show "(if a = i \<and> b = j then ?q else lowptr pt a b) \<noteq> 0 \<Longrightarrow>
          b < 4096 \<and> lows ?pt (if a = i \<and> b = j then ?q else lowptr pt a b) \<noteq> None" for a b
        using pt_wfD(6) [OF wf, of a b] j by (simp split: if_splits)
      show "(if a = i \<and> b = j then ?q else lowptr pt a b) = (if c = i \<and> d = j then ?q else lowptr pt c d) \<Longrightarrow>
          (if a = i \<and> b = j then ?q else lowptr pt a b) \<noteq> 0 \<Longrightarrow> a = c \<and> b = d" for a b c d
        using pt_wfD(7) [OF wf, of a b c d] old [of a b] old [of c d] by (simp split: if_splits)
    qed simp
    moreover have "ensure_low pt p j = Inr (?q, ?pt)" using True m by (simp add: ensure_low_def deref_mid_def)
    moreover have "lowptr ?pt i j = ?q" by (simp only: lp) simp
    ultimately show ?thesis using val pos by (intro exI [of _ ?q] exI [of _ ?pt]) simp
  qed
qed

section \<open>The map operations\<close>

lemma pt_lookup_store:
  assumes "\<forall>a b c. pt_val pt' a b c = (if a = PT_HIGH pid \<and> b = PT_MID pid \<and> c = PT_LOW pid then v else pt_val pt a b c)"
  shows "pt_lookup pt' q = (if q = pid then v else pt_lookup pt q)"
  using assms PT_inj [of q pid] by (auto simp: pt_lookup_def)

lemma pt_set_ok:
  assumes inv: "pt_inv pt"
  shows "\<exists>pt'. pt_set pt pid v = Inr (if pt_lookup pt pid = 0 then v else pt_lookup pt pid, pt') \<and> pt_inv pt'
    \<and> (\<forall>q. pt_lookup pt' q = (if q = pid \<and> pt_lookup pt pid = 0 then v else pt_lookup pt q))
    \<and> hasDestroy pt' = hasDestroy pt \<and> destroyed pt' = destroyed pt"
proof -
  have wf: "pt_wf pt" using inv by (simp add: pt_inv_def)
  let ?i = "PT_HIGH pid" and ?j = "PT_MID pid" and ?k = "PT_LOW pid"
  obtain p pt1 where 1: "ensure_mid pt ?i = (p, pt1)" "pt_wf pt1" "p \<noteq> 0" "root pt1 ?i = p" "lowptr pt1 = lowptr pt"
    "lows pt1 = lows pt" "pt_min pt1 = pt_min pt" "pt_max pt1 = pt_max pt" "hasDestroy pt1 = hasDestroy pt" "destroyed pt1 = destroyed pt"
    using ensure_mid_ok [OF wf PT_bounds(1)] by blast
  have v1: "pt_val pt1 = pt_val pt" using 1 by (intro ext) (simp add: pt_val_def)
  obtain q pt2 where 2: "ensure_low pt1 p ?j = Inr (q, pt2)" "pt_wf pt2" "q \<noteq> 0" "lowptr pt2 ?i ?j = q" "pt_val pt2 = pt_val pt1"
    "pt_min pt2 = pt_min pt1" "pt_max pt2 = pt_max pt1" "hasDestroy pt2 = hasDestroy pt1" "destroyed pt2 = destroyed pt1"
    using ensure_low_ok [OF 1(2,4,3) PT_bounds(2)] by blast
  from deref_low_wf [OF 2(2), of ?i ?j] 2(3,4) obtain l
    where l: "lows pt2 q = Some l" "\<And>k. pt_val pt2 ?i ?j k = l k" by auto
  then have lk: "l ?k = pt_lookup pt pid" using 2(5) v1 by (simp add: pt_lookup_def)
  have look2: "pt_lookup pt2 = pt_lookup pt" using 2(5) v1 by (intro ext) (simp add: pt_lookup_def)
  show ?thesis
  proof (cases "pt_lookup pt pid = 0")
    case False
    have "pt_inv pt2" using 1 2 look2 inv by (simp add: pt_inv_def)
    with False 1 2 l lk look2 show ?thesis by (simp add: pt_set_def deref_low_def)
  next
    case True
    obtain pt3 where 3: "store_low pt2 q ?k v = Inr pt3" "pt_wf pt3"
      "\<forall>a b c. pt_val pt3 a b c = (if a = ?i \<and> b = ?j \<and> c = ?k then v else pt_val pt2 a b c)"
      "pt_min pt3 = pt_min pt2" "pt_max pt3 = pt_max pt2" "hasDestroy pt3 = hasDestroy pt2" "destroyed pt3 = destroyed pt2"
      using store_low_ok [OF 2(2), of ?i ?j ?k v] 2(3,4) by auto
    have look: "pt_lookup pt3 r = (if r = pid then v else pt_lookup pt r)" for r
      using pt_lookup_store [OF 3(3)] look2 by simp
    have wl: "pt_lookup (widen_range pt3 pid) = pt_lookup pt3"
      by (intro ext) (simp add: pt_lookup_def widen_range_def)
    have mm: "pt_min pt3 = pt_min pt" "pt_max pt3 = pt_max pt" using 3 2 1 by simp_all
    have "pt_min (widen_range pt3 pid) \<le> r \<and> r \<le> pt_max (widen_range pt3 pid)" if "pt_lookup pt3 r \<noteq> 0" for r
    proof (cases "r = pid")
      case True
      then show ?thesis by (auto simp: widen_range_def)
    next
      case False
      then have "pt_min pt \<le> r" "r \<le> pt_max pt" using inv that look by (auto simp: pt_inv_def)
      then show ?thesis by (auto simp: widen_range_def mm)
    qed
    then have "pt_inv (widen_range pt3 pid)"
      using 3(2) unfolding pt_inv_def wl by (simp add: widen_range_def)
    with True 1 2 3 l lk look wl show ?thesis
      by (simp add: pt_set_def deref_low_def) (simp add: widen_range_def)
  qed
qed

lemma in_range: "pt_inv pt \<Longrightarrow> out_of_range pt pid \<Longrightarrow> pt_lookup pt pid = 0"
  unfolding pt_inv_def out_of_range_def by (meson not_less)

lemma lookup_no_low: "lowptr pt (PT_HIGH pid) (PT_MID pid) = 0 \<Longrightarrow> pt_lookup pt pid = 0"
  by (simp add: pt_lookup_def pt_val_def)

text \<open>A store at an id whose value is present keeps the invariant and changes that value only.\<close>

lemma store_present:
  assumes inv: "pt_inv pt" and present: "pt_lookup pt pid \<noteq> 0"
  defines "p \<equiv> lowptr pt (PT_HIGH pid) (PT_MID pid)"
  shows "\<not> out_of_range pt pid \<and> p \<noteq> 0 \<and> (\<exists>l. lows pt p = Some l \<and> l (PT_LOW pid) = pt_lookup pt pid)
    \<and> (\<exists>pt'. store_low pt p (PT_LOW pid) v = Inr pt' \<and> pt_inv pt' \<and> (\<forall>q. pt_lookup pt' q = (if q = pid then v else pt_lookup pt q))
         \<and> hasDestroy pt' = hasDestroy pt \<and> destroyed pt' = destroyed pt)"
proof -
  have wf: "pt_wf pt" using inv by (simp add: pt_inv_def)
  have p: "p \<noteq> 0" using present lookup_no_low p_def by metis
  from deref_low_wf [OF wf p [unfolded p_def]] obtain l
    where l: "lows pt p = Some l" "l (PT_LOW pid) = pt_lookup pt pid" unfolding p_def pt_lookup_def by metis
  obtain pt' where 3: "store_low pt p (PT_LOW pid) v = Inr pt'" "pt_wf pt'"
    "\<forall>a b c. pt_val pt' a b c = (if a = PT_HIGH pid \<and> b = PT_MID pid \<and> c = PT_LOW pid then v else pt_val pt a b c)"
    "pt_min pt' = pt_min pt" "pt_max pt' = pt_max pt" "hasDestroy pt' = hasDestroy pt" "destroyed pt' = destroyed pt"
    using store_low_ok [OF wf p [unfolded p_def]] unfolding p_def by blast
  note look = pt_lookup_store [OF 3(3)]
  have "pt_inv pt'" using inv present 3(2,4,5) unfolding pt_inv_def look by auto
  with p l 3 look show ?thesis using in_range [OF inv, of pid] present by auto
qed

lemma pt_update_ok:
  assumes inv: "pt_inv pt"
  shows "\<exists>pt'. pt_update pt pid v = Inr (pt_lookup pt pid \<noteq> 0, pt') \<and> pt_inv pt'
    \<and> (\<forall>q. pt_lookup pt' q = (if q = pid \<and> pt_lookup pt pid \<noteq> 0 then v else pt_lookup pt q))"
proof (cases "pt_lookup pt pid = 0")
  case True
  have wf: "pt_wf pt" using inv by (simp add: pt_inv_def)
  let ?p = "lowptr pt (PT_HIGH pid) (PT_MID pid)"
  have "pt_update pt pid v = Inr (False, pt)"
  proof (cases "?p = 0")
    case False
    from deref_low_wf [OF wf this] obtain l where "lows pt ?p = Some l" "l (PT_LOW pid) = 0"
      using True unfolding pt_lookup_def by metis
    with False show ?thesis by (simp add: pt_update_def find_low_wf [OF wf] deref_low_def)
  qed (simp add: pt_update_def find_low_wf [OF wf])
  with True inv show ?thesis by simp
next
  case False
  from store_present [OF inv False, of v] obtain pt' l where s: "\<not> out_of_range pt pid"
    "lowptr pt (PT_HIGH pid) (PT_MID pid) \<noteq> 0" "lows pt (lowptr pt (PT_HIGH pid) (PT_MID pid)) = Some l"
    "l (PT_LOW pid) = pt_lookup pt pid" "store_low pt (lowptr pt (PT_HIGH pid) (PT_MID pid)) (PT_LOW pid) v = Inr pt'"
    "pt_inv pt'" "\<forall>q. pt_lookup pt' q = (if q = pid then v else pt_lookup pt q)" by blast
  then have "pt_update pt pid v = Inr (True, pt')"
    using inv False by (simp add: pt_update_def find_low_wf pt_inv_def deref_low_def)
  with s False show ?thesis by simp
qed

lemma pt_erase_ok:
  assumes inv: "pt_inv pt"
  shows "\<exists>pt'. pt_erase pt pid = Inr pt' \<and> pt_inv pt' \<and> (\<forall>q. pt_lookup pt' q = (if q = pid then 0 else pt_lookup pt q))
    \<and> destroyed pt' = destroyed pt @ (if hasDestroy pt \<and> pt_lookup pt pid \<noteq> 0 then [pt_lookup pt pid] else [])"
proof (cases "pt_lookup pt pid = 0")
  case True
  have wf: "pt_wf pt" using inv by (simp add: pt_inv_def)
  let ?p = "lowptr pt (PT_HIGH pid) (PT_MID pid)"
  have "pt_erase pt pid = Inr pt"
  proof (cases "?p = 0")
    case False
    from deref_low_wf [OF wf this] obtain l where "lows pt ?p = Some l" "l (PT_LOW pid) = 0"
      using True unfolding pt_lookup_def by metis
    with False show ?thesis by (simp add: pt_erase_def find_low_wf [OF wf] deref_low_def)
  qed (simp add: pt_erase_def find_low_wf [OF wf])
  with True inv show ?thesis by auto
next
  case False
  from store_present [OF inv False, of 0] obtain pt' l where s: "\<not> out_of_range pt pid"
    "lowptr pt (PT_HIGH pid) (PT_MID pid) \<noteq> 0" "lows pt (lowptr pt (PT_HIGH pid) (PT_MID pid)) = Some l"
    "l (PT_LOW pid) = pt_lookup pt pid" "store_low pt (lowptr pt (PT_HIGH pid) (PT_MID pid)) (PT_LOW pid) 0 = Inr pt'"
    "pt_inv pt'" "\<forall>q. pt_lookup pt' q = (if q = pid then 0 else pt_lookup pt q)"
    "hasDestroy pt' = hasDestroy pt" "destroyed pt' = destroyed pt" by blast
  have d: "pt_inv (destroy pt' vs) = pt_inv pt'" "pt_lookup (destroy pt' vs) = pt_lookup pt'" for vs
    by (auto simp: destroy_def pt_inv_def pt_lookup_def)
  have "pt_erase pt pid = Inr (destroy pt' [pt_lookup pt pid])"
    using s inv False by (simp add: pt_erase_def find_low_wf pt_inv_def deref_low_def)
  with s d False show ?thesis by (simp add: destroy_def)
qed

lemma pt_updateCas_ok:
  assumes inv: "pt_inv pt" and present: "pt_lookup pt pid \<noteq> 0"
  shows "\<exists>pt'. pt_updateCas pt pid v expect = Inr (pt_lookup pt pid = expect, pt_lookup pt pid, pt') \<and> pt_inv pt'
    \<and> (\<forall>q. pt_lookup pt' q = (if q = pid \<and> pt_lookup pt pid = expect then v else pt_lookup pt q))"
proof -
  from store_present [OF inv present, of v] obtain pt' l where s: "\<not> out_of_range pt pid"
    "lowptr pt (PT_HIGH pid) (PT_MID pid) \<noteq> 0" "lows pt (lowptr pt (PT_HIGH pid) (PT_MID pid)) = Some l"
    "l (PT_LOW pid) = pt_lookup pt pid" "store_low pt (lowptr pt (PT_HIGH pid) (PT_MID pid)) (PT_LOW pid) v = Inr pt'"
    "pt_inv pt'" "\<forall>q. pt_lookup pt' q = (if q = pid then v else pt_lookup pt q)" by blast
  then have "pt_updateCas pt pid v expect
      = Inr (pt_lookup pt pid = expect, pt_lookup pt pid, if pt_lookup pt pid = expect then pt' else pt)"
    using inv by (auto simp: pt_updateCas_def find_low_wf pt_inv_def deref_low_def)
  with s inv show ?thesis by auto
qed

section \<open>Dropping nodes\<close>

text \<open>The values of the first \<open>n\<close> slots below a pointer, as the destroy function receives them.\<close>

definition low_values :: "pageTable \<Rightarrow> nat \<Rightarrow> nat \<Rightarrow> u64 list" where
  "low_values pt n p = (case lows pt p of None \<Rightarrow> [] | Some l \<Rightarrow> filter (\<lambda>v. v \<noteq> 0) (map l [0..<n]))"

lemma drop_low_ok:
  assumes "lows pt p \<noteq> None"
  shows "drop_low n pt p = Inr (pt\<lparr>lows := (lows pt)(p := None),
    destroyed := destroyed pt @ (if hasDestroy pt then low_values pt n p else [])\<rparr>)"
  using assms by (auto simp: drop_low_def deref_low_def destroy_def low_values_def)

text \<open>What \<^verbatim>\<open>drop_children\<close> does, in closed form.\<close>

definition dropped :: "bool \<Rightarrow> nat \<Rightarrow> pageTable \<Rightarrow> nat \<Rightarrow> (nat \<Rightarrow> nat) \<Rightarrow> nat list \<Rightarrow> pageTable" where
  "dropped reset n pt mid m js = pt\<lparr>
     mids := (if reset then (mids pt)(mid \<mapsto> (\<lambda>j. if j \<in> set js then 0 else m j)) else mids pt),
     lows := (\<lambda>p. if \<exists>j \<in> set js. m j \<noteq> 0 \<and> p = m j then None else lows pt p),
     destroyed := destroyed pt @ (if hasDestroy pt then concat (map (\<lambda>j. if m j = 0 then [] else low_values pt n (m j)) js) else [])\<rparr>"

lemma drop_children_ok:
  assumes "mids pt mid = Some m" and "distinct js"
    and "\<And>j. j \<in> set js \<Longrightarrow> m j \<noteq> 0 \<Longrightarrow> lows pt (m j) \<noteq> None"
    and "\<And>j k. j \<in> set js \<Longrightarrow> k \<in> set js \<Longrightarrow> m j \<noteq> 0 \<Longrightarrow> m j = m k \<Longrightarrow> j = k"
  shows "drop_children reset n pt mid js = Inr (dropped reset n pt mid m js)"
  using assms
proof (induction js arbitrary: pt m)
  case Nil
  then show ?case by (cases pt) (auto simp: dropped_def fun_upd_idem)
next
  case (Cons j js)
  let ?tail = "drop_children reset n"
  show ?case
  proof (cases "m j = 0")
    case True
    have "drop_children reset n pt mid js = Inr (dropped reset n pt mid m js)"
      using Cons.prems by (intro Cons.IH) auto
    moreover have "(\<lambda>k. if k \<in> set js then 0 else m k) = (\<lambda>k. if k \<in> set (j # js) then 0 else m k)"
      using True by (intro ext) simp
    then have "dropped reset n pt mid m js = dropped reset n pt mid m (j # js)"
      using True by (simp add: dropped_def)
    ultimately show ?thesis using True Cons.prems(1) by (simp add: deref_mid_def)
  next
    case False
    let ?m' = "if reset then m(j := 0) else m"
    let ?pt1 = "if reset then pt\<lparr>mids := (mids pt)(mid \<mapsto> m(j := 0))\<rparr> else pt"
    let ?pt2 = "?pt1\<lparr>lows := (lows pt)(m j := None), destroyed := destroyed pt @ (if hasDestroy pt then low_values pt n (m j) else [])\<rparr>"
    have live: "lows ?pt1 (m j) \<noteq> None" using Cons.prems(3) False by simp
    have d: "drop_low n ?pt1 (m j) = Inr ?pt2"
      using drop_low_ok [OF live, of n] by (simp add: low_values_def)
    have ne: "m k \<noteq> m j" if "k \<in> set js" for k
      using Cons.prems(2,4) that False by auto
    have rest: "drop_children reset n ?pt2 mid js = Inr (dropped reset n ?pt2 mid ?m' js)"
    proof (rule Cons.IH)
      show "mids ?pt2 mid = Some ?m'" using Cons.prems(1) by simp
      show "distinct js" using Cons.prems(2) by simp
      show "lows ?pt2 (?m' k) \<noteq> None" if "k \<in> set js" "?m' k \<noteq> 0" for k
        using Cons.prems(2,3) that ne [OF that(1)] by (auto split: if_splits)
      show "k = l" if "k \<in> set js" "l \<in> set js" "?m' k \<noteq> 0" "?m' k = ?m' l" for k l
        using Cons.prems(2) Cons.prems(4) [of k l] that by (auto split: if_splits)
    qed
    have vals: "low_values ?pt2 n (m k) = low_values pt n (m k)" if "k \<in> set js" for k
      using ne [OF that] by (simp add: low_values_def)
    have "dropped reset n ?pt2 mid ?m' js = dropped reset n pt mid m (j # js)"
    proof (rule pageTable.equality)
      show "mids (dropped reset n ?pt2 mid ?m' js) = mids (dropped reset n pt mid m (j # js))"
        by (cases reset) (auto simp: dropped_def fun_eq_iff)
      show "lows (dropped reset n ?pt2 mid ?m' js) = lows (dropped reset n pt mid m (j # js))"
        using False Cons.prems(2) by (cases reset) (auto simp: dropped_def fun_eq_iff)
      have "map (\<lambda>k. if ?m' k = 0 then [] else low_values ?pt2 n (?m' k)) js
          = map (\<lambda>k. if m k = 0 then [] else low_values pt n (m k)) js"
        using vals Cons.prems(2) by (auto simp: map_eq_conv)
      then show "destroyed (dropped reset n ?pt2 mid ?m' js) = destroyed (dropped reset n pt mid m (j # js))"
        using False unfolding dropped_def by (cases reset) (auto cong: map_cong)
    qed (cases reset; simp add: dropped_def)+
    with rest d False Cons.prems(1) show ?thesis by (simp add: deref_mid_def)
  qed
qed

lemma children_live:
  assumes wf: "pt_wf pt" and r: "root pt i \<noteq> 0" "mids pt (root pt i) = Some m"
  shows "m j \<noteq> 0 \<Longrightarrow> j < 4096 \<and> lows pt (m j) \<noteq> None" and "m j \<noteq> 0 \<Longrightarrow> m j = m k \<Longrightarrow> j = k"
proof -
  have m: "lowptr pt i b = m b" for b using r by (simp add: lowptr_def)
  show "m j \<noteq> 0 \<Longrightarrow> j < 4096 \<and> lows pt (m j) \<noteq> None" using pt_wfD(6) [OF wf, of i j] m by simp
  show "m j \<noteq> 0 \<Longrightarrow> m j = m k \<Longrightarrow> j = k" using pt_wfD(7) [OF wf, of i j i k] m by simp
qed

text \<open>All values below entry \<open>i\<close> of the root, in the order of their ids.\<close>

definition low_vals :: "pageTable \<Rightarrow> nat \<Rightarrow> nat \<Rightarrow> u64 list" where
  "low_vals pt i j = filter (\<lambda>v. v \<noteq> 0) (map (pt_val pt i j) [0..<4096])"

definition mid_vals :: "pageTable \<Rightarrow> nat \<Rightarrow> u64 list" where
  "mid_vals pt i = concat (map (low_vals pt i) [0..<4096])"

definition all_values :: "pageTable \<Rightarrow> u64 list" where
  "all_values pt = concat (map (mid_vals pt) [0..<256])"

lemma low_vals_node:
  assumes r: "root pt i \<noteq> 0" "mids pt (root pt i) = Some m"
  shows "low_vals pt i j = (if m j = 0 then [] else low_values pt 4096 (m j))"
proof -
  have m: "lowptr pt i j = m j" using r by (simp add: lowptr_def)
  have "pt_val pt i j = (if m j = 0 then (\<lambda>_. 0) else case lows pt (m j) of None \<Rightarrow> (\<lambda>_. 0) | Some l \<Rightarrow> l)"
    by (intro ext) (simp add: pt_val_def m split: option.split)
  then show ?thesis
    by (cases "lows pt (m j)") (auto simp: low_vals_def low_values_def filter_empty_conv)
qed

lemma clear_one:
  assumes wf: "pt_wf pt" and r: "root pt i \<noteq> 0"
  shows "\<exists>pt1 pt2. drop_children True 4096 pt (root pt i) [0..<4096] = Inr pt1 \<and> free_mid pt1 (root pt i) = Inr pt2
    \<and> pt_wf (pt2\<lparr>root := (root pt2)(i := 0)\<rparr>)
    \<and> (\<forall>a b c. pt_val (pt2\<lparr>root := (root pt2)(i := 0)\<rparr>) a b c = (if a = i then 0 else pt_val pt a b c))
    \<and> root pt2 = root pt \<and> destroyed pt2 = destroyed pt @ (if hasDestroy pt then mid_vals pt i else [])
    \<and> hasDestroy pt2 = hasDestroy pt \<and> pt_min pt2 = pt_min pt \<and> pt_max pt2 = pt_max pt"
proof -
  let ?p = "root pt i"
  from pt_wfD(4) [OF wf r] obtain m where m: "mids pt ?p = Some m" by blast
  note live = children_live [OF wf r m]
  let ?pt1 = "dropped True 4096 pt ?p m [0..<4096]"
  let ?pt2 = "?pt1\<lparr>mids := (mids pt)(?p := None)\<rparr>"
  let ?pt3 = "?pt2\<lparr>root := (root ?pt2)(i := 0)\<rparr>"
  have 1: "drop_children True 4096 pt ?p [0..<4096] = Inr ?pt1"
    using live by (intro drop_children_ok [OF m]) auto
  have 2: "free_mid ?pt1 ?p = Inr ?pt2" by (simp add: free_mid_def deref_mid_def dropped_def)
  have lp: "lowptr ?pt3 a b = (if a = i then 0 else lowptr pt a b)" for a b
    using pt_wfD(5) [OF wf, of a i] by (auto simp: lowptr_def dropped_def)
  have mi: "lowptr pt i b = m b" for b using r m by (simp add: lowptr_def)
  have lw: "lows ?pt3 (lowptr pt a b) = lows pt (lowptr pt a b)" if "a \<noteq> i" "lowptr pt a b \<noteq> 0" for a b
  proof -
    have "lowptr pt a b \<noteq> m j" for j using pt_wfD(7) [OF wf, of a b i j] mi that by auto
    then show ?thesis by (auto simp: dropped_def)
  qed
  have val: "pt_val ?pt3 a b c = (if a = i then 0 else pt_val pt a b c)" for a b c
    unfolding pt_val_def lp using lw [of a b] by simp
  have wf3: "pt_wf ?pt3"
  proof (rule pt_wfI, unfold lp)
    show "0 < pt_next ?pt3" using pt_wfD(1) [OF wf] by (simp add: dropped_def)
    show "mids ?pt3 q \<noteq> None \<Longrightarrow> q < pt_next ?pt3" for q
      using pt_wfD(2) [OF wf, of q] by (auto simp: dropped_def split: if_splits)
    show "lows ?pt3 q \<noteq> None \<Longrightarrow> q < pt_next ?pt3" for q
      using pt_wfD(3) [OF wf, of q] by (auto simp: dropped_def split: if_splits)
    show "root ?pt3 a \<noteq> 0 \<Longrightarrow> a < 256 \<and> mids ?pt3 (root ?pt3 a) \<noteq> None" for a
      using pt_wfD(4) [OF wf, of a] pt_wfD(5) [OF wf, of a i] by (auto simp: dropped_def split: if_splits)
    show "root ?pt3 a = root ?pt3 b \<Longrightarrow> root ?pt3 a \<noteq> 0 \<Longrightarrow> a = b" for a b
      using pt_wfD(5) [OF wf, of a b] by (auto simp: dropped_def split: if_splits)
    show "(if a = i then 0 else lowptr pt a b) \<noteq> 0 \<Longrightarrow>
        b < 4096 \<and> lows ?pt3 (if a = i then 0 else lowptr pt a b) \<noteq> None" for a b
      using pt_wfD(6) [OF wf, of a b] lw [of a b] by (simp split: if_splits)
    show "(if a = i then 0 else lowptr pt a b) = (if c = i then 0 else lowptr pt c d) \<Longrightarrow>
        (if a = i then 0 else lowptr pt a b) \<noteq> 0 \<Longrightarrow> a = c \<and> b = d" for a b c d
      using pt_wfD(7) [OF wf, of a b c d] by (simp split: if_splits)
  qed
  have "destroyed ?pt2 = destroyed pt @ (if hasDestroy pt then mid_vals pt i else [])"
  proof -
    have "low_vals pt i = (\<lambda>j. if m j = 0 then [] else low_values pt 4096 (m j))"
      by (intro ext) (rule low_vals_node [OF r m])
    then show ?thesis by (simp add: dropped_def mid_vals_def)
  qed
  with 1 2 wf3 val show ?thesis
    by (intro exI [of _ ?pt1] exI [of _ ?pt2]) (simp add: dropped_def)
qed

lemma clear_roots_ok:
  assumes "pt_wf pt" and "distinct is"
  shows "\<exists>pt'. clear_roots pt is = Inr pt' \<and> pt_wf pt'
    \<and> (\<forall>a b c. pt_val pt' a b c = (if a \<in> set is then 0 else pt_val pt a b c))
    \<and> (\<forall>a. root pt' a = (if a \<in> set is then 0 else root pt a))
    \<and> destroyed pt' = destroyed pt @ (if hasDestroy pt then concat (map (mid_vals pt) is) else [])
    \<and> pt_min pt' = pt_min pt \<and> pt_max pt' = pt_max pt"
  using assms
proof (induction "is" arbitrary: pt)
  case Nil
  then show ?case by simp
next
  case (Cons i "is")
  show ?case
  proof (cases "root pt i = 0")
    case True
    then have v0: "pt_val pt i b c = 0" for b c by (simp add: pt_val_def lowptr_def)
    then have "mid_vals pt i = []" by (simp add: mid_vals_def low_vals_def)
    moreover obtain pt' where "clear_roots pt is = Inr pt'" "pt_wf pt'"
      "\<forall>a b c. pt_val pt' a b c = (if a \<in> set is then 0 else pt_val pt a b c)"
      "\<forall>a. root pt' a = (if a \<in> set is then 0 else root pt a)"
      "destroyed pt' = destroyed pt @ (if hasDestroy pt then concat (map (mid_vals pt) is) else [])"
      "pt_min pt' = pt_min pt" "pt_max pt' = pt_max pt"
      using Cons.IH [OF Cons.prems(1)] Cons.prems(2) by auto
    ultimately show ?thesis using True v0 by auto
  next
    case False
    from clear_one [OF Cons.prems(1) False] obtain pt1 pt2 where
      c: "drop_children True 4096 pt (root pt i) [0..<4096] = Inr pt1" "free_mid pt1 (root pt i) = Inr pt2"
      and wf2: "pt_wf (pt2\<lparr>root := (root pt2)(i := 0)\<rparr>)"
      and val: "\<forall>a b c. pt_val (pt2\<lparr>root := (root pt2)(i := 0)\<rparr>) a b c = (if a = i then 0 else pt_val pt a b c)"
      and e: "root pt2 = root pt" "destroyed pt2 = destroyed pt @ (if hasDestroy pt then mid_vals pt i else [])"
        "hasDestroy pt2 = hasDestroy pt" "pt_min pt2 = pt_min pt" "pt_max pt2 = pt_max pt" by blast
    let ?pt3 = "pt2\<lparr>root := (root pt2)(i := 0)\<rparr>"
    have mv: "mid_vals ?pt3 a = mid_vals pt a" if "a \<in> set is" for a
    proof -
      have "pt_val ?pt3 a = pt_val pt a" using val that Cons.prems(2) by (intro ext) auto
      then have "low_vals ?pt3 a = low_vals pt a" by (intro ext) (simp add: low_vals_def)
      then show ?thesis by (simp add: mid_vals_def)
    qed
    have cm: "concat (map (mid_vals ?pt3) is) = concat (map (mid_vals pt) is)"
      using mv by (metis map_cong)
    from Cons.IH [OF wf2] Cons.prems(2) obtain pt' where pt': "clear_roots ?pt3 is = Inr pt'" "pt_wf pt'"
      "\<forall>a b c. pt_val pt' a b c = (if a \<in> set is then 0 else pt_val ?pt3 a b c)"
      "\<forall>a. root pt' a = (if a \<in> set is then 0 else root ?pt3 a)"
      "destroyed pt' = destroyed ?pt3 @ (if hasDestroy ?pt3 then concat (map (mid_vals ?pt3) is) else [])"
      "pt_min pt' = pt_min ?pt3" "pt_max pt' = pt_max ?pt3" by auto
    show ?thesis
    proof (intro exI [of _ pt'] conjI)
      show "clear_roots pt (i # is) = Inr pt'" using False c pt'(1) by simp
      show "\<forall>a b c. pt_val pt' a b c = (if a \<in> set (i # is) then 0 else pt_val pt a b c)"
        using pt'(3) val by simp
      show "\<forall>a. root pt' a = (if a \<in> set (i # is) then 0 else root pt a)" using pt'(4) e(1) by simp
      show "destroyed pt' = destroyed pt @ (if hasDestroy pt then concat (map (mid_vals pt) (i # is)) else [])"
        using pt'(5) cm e by simp
    qed (use pt' e in simp_all)
  qed
qed

section \<open>Purging\<close>

lemma dropped_reset:
  assumes wf: "pt_wf pt" and r: "root pt i \<noteq> 0" and m: "mids pt (root pt i) = Some m"
  defines "pt' \<equiv> \<lambda>k n. dropped True n pt (root pt i) m [0..<k]"
  shows "lowptr (pt' k n) a b = (if a = i \<and> b < k then 0 else lowptr pt a b)"
    and "pt_val (pt' k n) a b c = (if a = i \<and> b < k then 0 else pt_val pt a b c)"
    and "pt_wf (pt' k n)"
proof -
  have mi: "lowptr pt i b = m b" for b using r m by (simp add: lowptr_def)
  have lp: "lowptr (pt' k n) a b = (if a = i \<and> b < k then 0 else lowptr pt a b)" for a b
    using pt_wfD(5) [OF wf, of a i] r m by (auto simp: lowptr_def dropped_def pt'_def)
  have lw: "lows (pt' k n) (lowptr pt a b) = lows pt (lowptr pt a b)" if "\<not> (a = i \<and> b < k)" "lowptr pt a b \<noteq> 0" for a b
  proof -
    have "lowptr pt a b \<noteq> m j" if "j < k" for j
      using pt_wfD(7) [OF wf, of a b i j] mi that \<open>\<not> (a = i \<and> b < k)\<close> \<open>lowptr pt a b \<noteq> 0\<close> by auto
    then show ?thesis by (auto simp: dropped_def pt'_def)
  qed
  show "lowptr (pt' k n) a b = (if a = i \<and> b < k then 0 else lowptr pt a b)" by (rule lp)
  show "pt_val (pt' k n) a b c = (if a = i \<and> b < k then 0 else pt_val pt a b c)"
    unfolding pt_val_def lp using lw [of a b] by simp
  show "pt_wf (pt' k n)"
  proof (rule pt_wfI, unfold lp)
    show "0 < pt_next (pt' k n)" using pt_wfD(1) [OF wf] by (simp add: dropped_def pt'_def)
    show "mids (pt' k n) q \<noteq> None \<Longrightarrow> q < pt_next (pt' k n)" for q
      using pt_wfD(2) [OF wf, of q] m by (auto simp: dropped_def pt'_def split: if_splits)
    show "lows (pt' k n) q \<noteq> None \<Longrightarrow> q < pt_next (pt' k n)" for q
      using pt_wfD(3) [OF wf, of q] by (auto simp: dropped_def pt'_def split: if_splits)
    show "root (pt' k n) a \<noteq> 0 \<Longrightarrow> a < 256 \<and> mids (pt' k n) (root (pt' k n) a) \<noteq> None" for a
      using pt_wfD(4) [OF wf, of a] by (auto simp: dropped_def pt'_def)
    show "root (pt' k n) a = root (pt' k n) b \<Longrightarrow> root (pt' k n) a \<noteq> 0 \<Longrightarrow> a = b" for a b
      using pt_wfD(5) [OF wf, of a b] by (auto simp: dropped_def pt'_def)
    show "(if a = i \<and> b < k then 0 else lowptr pt a b) \<noteq> 0 \<Longrightarrow>
        b < 4096 \<and> lows (pt' k n) (if a = i \<and> b < k then 0 else lowptr pt a b) \<noteq> None" for a b
      using pt_wfD(6) [OF wf, of a b] lw [of a b] by (auto split: if_splits)
    show "(if a = i \<and> b < k then 0 else lowptr pt a b) = (if c = i \<and> d < k then 0 else lowptr pt c d) \<Longrightarrow>
        (if a = i \<and> b < k then 0 else lowptr pt a b) \<noteq> 0 \<Longrightarrow> a = c \<and> b = d" for a b c d
      using pt_wfD(7) [OF wf, of a b c d] by (simp split: if_splits)
  qed
qed

lemma purge_slots_ok:
  assumes wf: "pt_wf pt" and p: "lowptr pt i j \<noteq> 0"
  shows "\<exists>pt'. purge_slots pt (lowptr pt i j) n = Inr pt' \<and> pt_wf pt'
    \<and> (\<forall>a b c. pt_val pt' a b c = (if a = i \<and> b = j \<and> c < n then 0 else pt_val pt a b c))
    \<and> pt_min pt' = pt_min pt \<and> pt_max pt' = pt_max pt"
proof -
  let ?p = "lowptr pt i j"
  from deref_low_wf [OF wf p] obtain l where l: "lows pt ?p = Some l" "\<And>k. pt_val pt i j k = l k" by blast
  let ?L = "(lows pt)(?p \<mapsto> (\<lambda>k. if k < n then 0 else l k))"
  let ?pt = "(destroy pt (filter (\<lambda>v. v \<noteq> 0) (map l [0..<n])))\<lparr>lows := ?L\<rparr>"
  have d: "lowptr (destroy pt vs) = lowptr pt" "pt_wf (destroy pt vs) = pt_wf pt" "lows (destroy pt vs) = lows pt"
    "pt_min (destroy pt vs) = pt_min pt" "pt_max (destroy pt vs) = pt_max pt" for vs
    by (simp_all add: destroy_def)
  have "pt_val ?pt a b c = (if a = i \<and> b = j \<and> c < n then 0 else pt_val pt a b c)" for a b c
  proof (cases "lowptr pt a b = ?p")
    case True
    with pt_wfD(7) [OF wf True] p l show ?thesis by (auto simp: pt_val_def d)
  next
    case False
    then show ?thesis by (auto simp: pt_val_def d)
  qed
  moreover have "pt_wf ?pt" using wf l(1) by (subst pt_wf_lows) (auto simp: d)
  ultimately show ?thesis using l by (simp add: purge_slots_def deref_low_def d)
qed

lemma below_id:
  assumes "PT_HIGH pid = 0"
  shows "unat q < unat pid \<longleftrightarrow> PT_HIGH q = 0 \<and> (PT_MID q < PT_MID pid \<or> PT_MID q = PT_MID pid \<and> PT_LOW q < PT_LOW pid)"
  using unat_PT [of q] unat_PT [of pid] PT_bounds [of q] PT_bounds [of pid] assms by auto

text \<open>In the first $2^{24}$ ids, purging removes exactly the ids below the given one.\<close>

lemma pt_purge_ok:
  assumes inv: "pt_inv pt" and range: "\<not> out_of_range pt pid" and high: "PT_HIGH pid = 0"
  shows "\<exists>pt'. pt_purge pt pid = Inr pt' \<and> pt_inv pt' \<and> (\<forall>q. pt_lookup pt' q = (if q < pid then 0 else pt_lookup pt q))"
proof -
  have wf: "pt_wf pt" using inv by (simp add: pt_inv_def)
  have "\<exists>pt'. pt_purge pt pid = Inr pt' \<and> pt_wf pt' \<and> pt_min pt' = pt_min pt \<and> pt_max pt' = pt_max pt
    \<and> (\<forall>a b c. pt_val pt' a b c = (if a = 0 \<and> (b < PT_MID pid \<or> b = PT_MID pid \<and> c < PT_LOW pid) then 0 else pt_val pt a b c))"
  proof (cases "root pt 0 = 0")
    case True
    then have "pt_val pt 0 b c = 0" for b c by (simp add: pt_val_def lowptr_def)
    moreover have "pt_purge pt pid = Inr pt"
      using True high range by (cases pt) (auto simp: pt_purge_def out_of_range_def not_less)
    ultimately show ?thesis using wf by auto
  next
    case False
    from pt_wfD(4) [OF wf False] obtain m where m: "mids pt (root pt 0) = Some m" by blast
    let ?pt1 = "dropped True 4095 pt (root pt 0) m [0..<PT_MID pid]"
    have same: "pt\<lparr>pt_min := if pt_min pt \<le> pid then pt_min pt else pid\<rparr> = pt"
      using range by (cases pt) (auto simp: out_of_range_def not_less)
    have 1: "drop_children True 4095 pt (root pt 0) [0..<PT_MID pid] = Inr ?pt1"
      using children_live [OF wf False m] by (intro drop_children_ok [OF m]) auto
    note dr = dropped_reset [OF wf False m]
    have m1: "mids ?pt1 (root pt 0) = Some (\<lambda>j. if j < PT_MID pid then 0 else m j)" by (simp add: dropped_def)
    have lp: "lowptr ?pt1 0 (PT_MID pid) = m (PT_MID pid)" using dr(1) False m by (simp add: lowptr_def)
    have mm: "pt_min ?pt1 = pt_min pt" "pt_max ?pt1 = pt_max pt" by (simp_all add: dropped_def)
    have eq: "pt_purge pt pid = (if m (PT_MID pid) = 0 then Inr ?pt1 else purge_slots ?pt1 (m (PT_MID pid)) (PT_LOW pid))"
      using range high False 1 m1 by (simp add: pt_purge_def same deref_mid_def Let_def)
    show ?thesis
    proof (cases "m (PT_MID pid) = 0")
      case True
      then have "pt_val pt 0 (PT_MID pid) c = 0" for c using False m by (simp add: pt_val_def lowptr_def)
      with True eq dr(2,3) mm show ?thesis by auto
    next
      case nz: False
      then have p: "lowptr ?pt1 0 (PT_MID pid) \<noteq> 0" using lp by simp
      from purge_slots_ok [OF dr(3) p, of "PT_LOW pid"] obtain pt2
        where "purge_slots ?pt1 (m (PT_MID pid)) (PT_LOW pid) = Inr pt2" "pt_wf pt2" "pt_min pt2 = pt_min pt" "pt_max pt2 = pt_max pt"
        "\<forall>a b c. pt_val pt2 a b c = (if a = 0 \<and> b = PT_MID pid \<and> c < PT_LOW pid then 0 else pt_val ?pt1 a b c)"
        unfolding lp mm by blast
      with nz eq dr(2) show ?thesis by auto
    qed
  qed
  then obtain pt' where pt': "pt_purge pt pid = Inr pt'" "pt_wf pt'" "pt_min pt' = pt_min pt" "pt_max pt' = pt_max pt"
    "\<forall>a b c. pt_val pt' a b c = (if a = 0 \<and> (b < PT_MID pid \<or> b = PT_MID pid \<and> c < PT_LOW pid) then 0 else pt_val pt a b c)"
    by blast
  have look: "pt_lookup pt' q = (if q < pid then 0 else pt_lookup pt q)" for q
    using pt'(5) below_id [OF high, of q] by (simp add: pt_lookup_def word_less_nat_alt)
  then have "pt_inv pt'" using inv pt'(2,3,4) by (simp add: pt_inv_def)
  with pt'(1) look show ?thesis by blast
qed

text \<open>Beyond them, the middle nodes below the id are freed while the root still points to them.\<close>

definition live_root :: "pageTable \<Rightarrow> pageTable \<Rightarrow> nat \<Rightarrow> bool" where
  "live_root pt0 pt i \<longleftrightarrow> root pt i = root pt0 i
     \<and> (root pt0 i \<noteq> 0 \<longrightarrow> mids pt (root pt0 i) = mids pt0 (root pt0 i)
        \<and> (\<forall>j. lowptr pt0 i j \<noteq> 0 \<longrightarrow> lows pt (lowptr pt0 i j) = lows pt0 (lowptr pt0 i j)))"

lemma purge_one:
  assumes wf: "pt_wf pt0" and live: "live_root pt0 pt i" and r: "root pt0 i \<noteq> 0"
  shows "\<exists>pt1 pt2. drop_children False 4095 pt (root pt i) [0..<4095] = Inr pt1 \<and> free_mid pt1 (root pt i) = Inr pt2
    \<and> mids pt2 = (mids pt)(root pt0 i := None) \<and> root pt2 = root pt \<and> pt_min pt2 = pt_min pt \<and> pt_max pt2 = pt_max pt
    \<and> (\<forall>a. a \<noteq> i \<and> live_root pt0 pt a \<longrightarrow> live_root pt0 pt2 a)"
proof -
  let ?p = "root pt0 i"
  from pt_wfD(4) [OF wf r] obtain m where m0: "mids pt0 ?p = Some m" by blast
  have m: "mids pt ?p = Some m" and ri: "root pt i = ?p" using live r m0 by (auto simp: live_root_def)
  have mi: "lowptr pt0 i b = m b" for b using r m0 by (simp add: lowptr_def)
  note ch = children_live [OF wf r m0]
  have al: "lows pt (m j) \<noteq> None" if "m j \<noteq> 0" for j
    using ch(1) [OF that] live r mi that by (auto simp: live_root_def)
  let ?pt1 = "dropped False 4095 pt ?p m [0..<4095]"
  let ?pt2 = "?pt1\<lparr>mids := (mids pt)(?p := None)\<rparr>"
  have 1: "drop_children False 4095 pt ?p [0..<4095] = Inr ?pt1"
    using al ch(2) by (intro drop_children_ok [OF m]) auto
  have 2: "free_mid ?pt1 ?p = Inr ?pt2" using m by (simp add: free_mid_def deref_mid_def dropped_def)
  have 3: "live_root pt0 ?pt2 a" if a: "a \<noteq> i" "live_root pt0 pt a" for a
  proof -
    have "root pt0 a \<noteq> 0 \<Longrightarrow> root pt0 a \<noteq> ?p" using pt_wfD(5) [OF wf, of a i] a by auto
    moreover have "lowptr pt0 a b \<noteq> 0 \<Longrightarrow> lowptr pt0 a b \<noteq> m j" for b j
      using pt_wfD(7) [OF wf, of a b i j] a mi by auto
    ultimately show ?thesis using a(2) by (auto simp: live_root_def dropped_def)
  qed
  from 1 2 3 ri show ?thesis
    by (intro exI [of _ ?pt1] exI [of _ ?pt2]) (simp add: dropped_def)
qed

lemma purge_roots_frees:
  assumes wf: "pt_wf pt0" and "\<forall>i \<in> set is. live_root pt0 pt i" and "distinct is"
  shows "\<exists>pt'. purge_roots pt is = Inr pt' \<and> root pt' = root pt \<and> pt_min pt' = pt_min pt \<and> pt_max pt' = pt_max pt
    \<and> (\<forall>p. mids pt p = None \<longrightarrow> mids pt' p = None) \<and> (\<forall>i \<in> set is. root pt i \<noteq> 0 \<longrightarrow> mids pt' (root pt i) = None)
    \<and> (\<forall>a. a \<notin> set is \<and> live_root pt0 pt a \<longrightarrow> live_root pt0 pt' a)"
  using assms(2,3)
proof (induction "is" arbitrary: pt)
  case Nil
  then show ?case by simp
next
  case (Cons i "is")
  have ri: "root pt i = root pt0 i" using Cons.prems(1) by (simp add: live_root_def)
  show ?case
  proof (cases "root pt i = 0")
    case True
    then have "pt\<lparr>root := (root pt)(i := 0)\<rparr> = pt" by (cases pt) (auto simp: fun_upd_idem)
    with Cons.IH [of pt] Cons.prems True show ?thesis by fastforce
  next
    case False
    from purge_one [OF wf, of pt i] Cons.prems(1) False ri obtain pt1 pt2
      where p: "drop_children False 4095 pt (root pt i) [0..<4095] = Inr pt1" "free_mid pt1 (root pt i) = Inr pt2"
        "mids pt2 = (mids pt)(root pt0 i := None)" "root pt2 = root pt" "pt_min pt2 = pt_min pt" "pt_max pt2 = pt_max pt"
        "\<forall>a. a \<noteq> i \<and> live_root pt0 pt a \<longrightarrow> live_root pt0 pt2 a" by auto
    have "\<forall>a \<in> set is. live_root pt0 pt2 a" using p(7) Cons.prems by auto
    from Cons.IH [OF this] Cons.prems(2) obtain pt' where pt': "purge_roots pt2 is = Inr pt'" "root pt' = root pt2"
      "pt_min pt' = pt_min pt2" "pt_max pt' = pt_max pt2" "\<forall>p. mids pt2 p = None \<longrightarrow> mids pt' p = None"
      "\<forall>i \<in> set is. root pt2 i \<noteq> 0 \<longrightarrow> mids pt' (root pt2 i) = None"
      "\<forall>a. a \<notin> set is \<and> live_root pt0 pt2 a \<longrightarrow> live_root pt0 pt' a" by auto
    have "purge_roots pt (i # is) = Inr pt'" using False p(1,2) pt'(1) by simp
    then show ?thesis using pt' p ri by (intro exI [of _ pt']) auto
  qed
qed

lemma purge_roots_again:
  assumes "\<forall>i \<in> set is. root pt i \<noteq> 0 \<longrightarrow> mids pt (root pt i) = None" and "\<exists>i \<in> set is. root pt i \<noteq> 0"
  shows "purge_roots pt is = Inl UseAfterFree"
  using assms
proof (induction "is")
  case Nil
  then show ?case by simp
next
  case (Cons i "is")
  show ?case
  proof (cases "root pt i = 0")
    case True
    then have "pt\<lparr>root := (root pt)(i := 0)\<rparr> = pt" by (cases pt) (auto simp: fun_upd_idem)
    with Cons True show ?thesis by auto
  next
    case False
    have "[0..<4095] = 0 # [1..<4095::nat]" by (subst upt_conv_Cons) simp_all
    with False Cons.prems(1) show ?thesis by (simp add: deref_mid_def)
  qed
qed

lemma purge_dangling:
  assumes inv: "pt_inv pt" and range: "\<not> out_of_range pt pid" and i: "i < PT_HIGH pid" "root pt i \<noteq> 0"
  shows "\<exists>pt'. pt_purge pt pid = Inr pt' \<and> pt_purge pt' pid = Inl UseAfterFree
    \<and> (\<forall>q. PT_HIGH q = i \<and> \<not> out_of_range pt q \<longrightarrow> pt_get pt' q = Inl UseAfterFree)"
proof -
  have wf: "pt_wf pt" using inv by (simp add: pt_inv_def)
  let ?H = "PT_HIGH pid"
  have same: "t\<lparr>pt_min := if pt_min t \<le> pid then pt_min t else pid\<rparr> = t" if "\<not> out_of_range t pid" for t
    using that by (cases t) (auto simp: out_of_range_def not_less)
  have live: "live_root pt pt a" for a by (simp add: live_root_def)
  obtain pt1 where pt1: "purge_roots pt [0..<?H] = Inr pt1" "root pt1 = root pt" "pt_min pt1 = pt_min pt" "pt_max pt1 = pt_max pt"
    "\<forall>a \<in> set [0..<?H]. root pt a \<noteq> 0 \<longrightarrow> mids pt1 (root pt a) = None" "live_root pt pt1 ?H"
    using purge_roots_frees [OF wf, of "[0..<?H]" pt] live by auto
  have "\<exists>pt'. pt_purge pt pid = Inr pt' \<and> root pt' = root pt \<and> pt_min pt' = pt_min pt \<and> pt_max pt' = pt_max pt
     \<and> (\<forall>p. p \<noteq> root pt ?H \<longrightarrow> mids pt' p = mids pt1 p)"
  proof (cases "root pt ?H = 0")
    case True
    then show ?thesis using range pt1 by (simp add: pt_purge_def same Let_def)
  next
    case False
    from pt_wfD(4) [OF wf False] obtain m where m0: "mids pt (root pt ?H) = Some m" by blast
    have m: "mids pt1 (root pt ?H) = Some m" using pt1(6) False m0 by (simp add: live_root_def)
    have mi: "lowptr pt ?H b = m b" for b using False m0 by (simp add: lowptr_def)
    note ch = children_live [OF wf False m0]
    have al: "lows pt1 (m j) = lows pt (m j)" if "m j \<noteq> 0" for j
      using pt1(6) False mi that by (auto simp: live_root_def)
    let ?pt2 = "dropped True 4095 pt1 (root pt ?H) m [0..<PT_MID pid]"
    have 2: "drop_children True 4095 pt1 (root pt ?H) [0..<PT_MID pid] = Inr ?pt2"
      using al ch by (intro drop_children_ok [OF m]) auto
    have eq: "pt_purge pt pid = (if m (PT_MID pid) = 0 then Inr ?pt2 else purge_slots ?pt2 (m (PT_MID pid)) (PT_LOW pid))"
      using range False pt1 2 by (simp add: pt_purge_def same Let_def deref_mid_def dropped_def)
    show ?thesis
    proof (cases "m (PT_MID pid) = 0")
      case True
      with eq pt1 show ?thesis by (simp add: dropped_def)
    next
      case nz: False
      have "lows ?pt2 (m (PT_MID pid)) = lows pt (m (PT_MID pid))"
        using al [OF nz] ch(2) [of "PT_MID pid"] nz by (auto simp: dropped_def)
      with ch(1) [OF nz] obtain l where "lows ?pt2 (m (PT_MID pid)) = Some l" by auto
      with nz eq pt1 show ?thesis by (auto simp: purge_slots_def deref_low_def destroy_def dropped_def)
    qed
  qed
  then obtain pt' where pt': "pt_purge pt pid = Inr pt'" "root pt' = root pt" "pt_min pt' = pt_min pt" "pt_max pt' = pt_max pt"
    "\<forall>p. p \<noteq> root pt ?H \<longrightarrow> mids pt' p = mids pt1 p" by blast
  have freed: "mids pt' (root pt a) = None" if "a < ?H" "root pt a \<noteq> 0" for a
  proof -
    have "root pt a \<noteq> root pt ?H" using pt_wfD(5) [OF wf, of a ?H] that by auto
    then show ?thesis using pt'(5) pt1(5) that by simp
  qed
  have oor: "out_of_range pt' q = out_of_range pt q" for q using pt' by (simp add: out_of_range_def)
  have "purge_roots pt' [0..<?H] = Inl UseAfterFree"
    using freed i pt'(2) by (intro purge_roots_again) auto
  then have "pt_purge pt' pid = Inl UseAfterFree" using range oor by (simp add: pt_purge_def same)
  moreover have "pt_get pt' q = Inl UseAfterFree" if "PT_HIGH q = i" "\<not> out_of_range pt q" for q
    using that freed [OF i] i(2) pt'(2) oor by (simp add: pt_get_def find_low_def Let_def deref_mid_def)
  ultimately show ?thesis using pt'(1) by blast
qed

lemma pageTable_new_inv: "pt_inv (pageTable_new f)" "pt_lookup (pageTable_new f) q = 0"
proof -
  have "lowptr (pageTable_new f) a b = 0" for a b by (simp add: lowptr_def pageTable_new_def)
  then show "pt_lookup (pageTable_new f) q = 0" "pt_inv (pageTable_new f)"
    by (simp_all add: pt_inv_def pt_wf_def pt_lookup_def pt_val_def pageTable_new_def)
qed

section \<open>The contract of a table of ids\<close>

datatype map_op = MGet u32 | MSet u32 u64 | MUpdate u32 u64 | MErase u32

text \<open>What a total map, in which 0 means absent, answers: the value read, the value in place after an
  insertion that never overwrites, and whether there was a value to update.\<close>

fun map_run :: "(u32 \<Rightarrow> u64) \<Rightarrow> map_op list \<Rightarrow> u64 list" where
  "map_run m [] = []"
| "map_run m (MGet i # ops) = m i # map_run m ops"
| "map_run m (MSet i v # ops) =
     (if m i = 0 then v # map_run (m(i := v)) ops else m i # map_run m ops)"
| "map_run m (MUpdate i v # ops) =
     (if m i \<noteq> 0 then 1 # map_run (m(i := v)) ops else 0 # map_run m ops)"
| "map_run m (MErase i # ops) = 0 # map_run (m(i := 0)) ops"

fun table_run :: "('t \<Rightarrow> u32 \<Rightarrow> fault + u64) \<Rightarrow> ('t \<Rightarrow> u32 \<Rightarrow> u64 \<Rightarrow> fault + u64 \<times> 't) \<Rightarrow>
    ('t \<Rightarrow> u32 \<Rightarrow> u64 \<Rightarrow> fault + bool \<times> 't) \<Rightarrow> ('t \<Rightarrow> u32 \<Rightarrow> fault + 't) \<Rightarrow> 't \<Rightarrow> map_op list \<Rightarrow> fault + u64 list" where
  "table_run g s u e t [] = Inr []"
| "table_run g s u e t (MGet i # ops) =
     sbind (g t i) (\<lambda>v. sbind (table_run g s u e t ops) (\<lambda>rs. Inr (v # rs)))"
| "table_run g s u e t (MSet i v # ops) =
     sbind (s t i v) (\<lambda>(r, t'). sbind (table_run g s u e t' ops) (\<lambda>rs. Inr (r # rs)))"
| "table_run g s u e t (MUpdate i v # ops) =
     sbind (u t i v) (\<lambda>(b, t'). sbind (table_run g s u e t' ops) (\<lambda>rs. Inr ((if b then 1 else 0) # rs)))"
| "table_run g s u e t (MErase i # ops) =
     sbind (e t i) (\<lambda>t'. sbind (table_run g s u e t' ops) (\<lambda>rs. Inr (0 # rs)))"

locale id_table =
  fixes tget :: "'t \<Rightarrow> u32 \<Rightarrow> fault + u64"
    and tset :: "'t \<Rightarrow> u32 \<Rightarrow> u64 \<Rightarrow> fault + u64 \<times> 't"
    and tupdate :: "'t \<Rightarrow> u32 \<Rightarrow> u64 \<Rightarrow> fault + bool \<times> 't"
    and terase :: "'t \<Rightarrow> u32 \<Rightarrow> fault + 't"
    and tlookup :: "'t \<Rightarrow> u32 \<Rightarrow> u64"
    and tinv :: "'t \<Rightarrow> bool"
  assumes tget: "tinv t \<Longrightarrow> tget t i = Inr (tlookup t i)"
    and tset: "tinv t \<Longrightarrow> \<exists>t'. tset t i v = Inr (if tlookup t i = 0 then v else tlookup t i, t') \<and> tinv t'
      \<and> tlookup t' = (if tlookup t i = 0 then (tlookup t)(i := v) else tlookup t)"
    and tupdate: "tinv t \<Longrightarrow> \<exists>t'. tupdate t i v = Inr (tlookup t i \<noteq> 0, t') \<and> tinv t'
      \<and> tlookup t' = (if tlookup t i \<noteq> 0 then (tlookup t)(i := v) else tlookup t)"
    and terase: "tinv t \<Longrightarrow> \<exists>t'. terase t i = Inr t' \<and> tinv t' \<and> tlookup t' = (tlookup t)(i := 0)"
begin

lemma run_is_map_run: "tinv t \<Longrightarrow> table_run tget tset tupdate terase t ops = Inr (map_run (tlookup t) ops)"
proof (induction ops arbitrary: t)
  case Nil
  then show ?case by simp
next
  case (Cons op ops)
  show ?case
  proof (cases op)
    case (MGet i)
    with Cons show ?thesis by (simp add: tget)
  next
    case (MSet i v)
    from tset [OF Cons.prems, of i v] obtain t' where "tset t i v = Inr (if tlookup t i = 0 then v else tlookup t i, t')"
      "tinv t'" "tlookup t' = (if tlookup t i = 0 then (tlookup t)(i := v) else tlookup t)" by blast
    with Cons.IH [of t'] MSet show ?thesis by simp
  next
    case (MUpdate i v)
    from tupdate [OF Cons.prems, of i v] obtain t' where "tupdate t i v = Inr (tlookup t i \<noteq> 0, t')"
      "tinv t'" "tlookup t' = (if tlookup t i \<noteq> 0 then (tlookup t)(i := v) else tlookup t)" by blast
    with Cons.IH [of t'] MUpdate show ?thesis by simp
  next
    case (MErase i)
    from terase [OF Cons.prems, of i] obtain t' where "terase t i = Inr t'" "tinv t'" "tlookup t' = (tlookup t)(i := 0)"
      by blast
    with Cons.IH [of t'] MErase show ?thesis by (simp add: fun_upd_def)
  qed
qed

end

interpretation ptab: id_table pt_get pt_set pt_update pt_erase pt_lookup pt_inv
proof
  fix t i v assume inv: "pt_inv t"
  show "pt_get t i = Inr (pt_lookup t i)" by (rule pt_get_lookup [OF inv])
  show "\<exists>t'. pt_set t i v = Inr (if pt_lookup t i = 0 then v else pt_lookup t i, t') \<and> pt_inv t'
      \<and> pt_lookup t' = (if pt_lookup t i = 0 then (pt_lookup t)(i := v) else pt_lookup t)"
    using pt_set_ok [OF inv, of i v] by (auto simp: fun_eq_iff)
  show "\<exists>t'. pt_update t i v = Inr (pt_lookup t i \<noteq> 0, t') \<and> pt_inv t'
      \<and> pt_lookup t' = (if pt_lookup t i \<noteq> 0 then (pt_lookup t)(i := v) else pt_lookup t)"
    using pt_update_ok [OF inv, of i v] by (auto simp: fun_eq_iff)
  show "\<exists>t'. pt_erase t i = Inr t' \<and> pt_inv t' \<and> pt_lookup t' = (pt_lookup t)(i := 0)"
    using pt_erase_ok [OF inv, of i] by (auto simp: fun_eq_iff)
qed

section \<open>Claims\<close>

text \<open>
  C9: on a new table every sequence of \<^verbatim>\<open>get\<close>, \<^verbatim>\<open>set\<close>, \<^verbatim>\<open>update\<close> and \<^verbatim>\<open>erase\<close> calls on any 32-bit ids runs
  without touching a freed or missing node and returns what a map from ids to values returns, where
  \<^verbatim>\<open>set\<close> does not overwrite and \<^verbatim>\<open>update\<close> only overwrites.
\<close>

theorem pageTable_refines_map:
  "table_run pt_get pt_set pt_update pt_erase (pageTable_new f) ops = Inr (map_run (\<lambda>_. 0) ops)"
proof -
  have "pt_lookup (pageTable_new f) = (\<lambda>_. 0)" by (intro ext) (rule pageTable_new_inv(2))
  with ptab.run_is_map_run [OF pageTable_new_inv(1), of f ops] show ?thesis by simp
qed

text \<open>A table holding the values 5 at id 3 and 7 at id $2^{24}+1$.\<close>

definition pt_example :: pageTable where
  "pt_example = snd (projr (pt_set (snd (projr (pt_set (pageTable_new True) 3 5))) 0x1000001 7))"

lemma pt_example: "pt_inv pt_example" "pt_lookup pt_example q = (if q = 0x1000001 then 7 else if q = 3 then 5 else 0)"
  "hasDestroy pt_example" "destroyed pt_example = []" "pt_min pt_example = 0" "0x1000001 \<le> pt_max pt_example"
proof -
  note new = pageTable_new_inv [of True]
  have new_fields: "hasDestroy (pageTable_new True)" "destroyed (pageTable_new True) = []" by (simp_all add: pageTable_new_def)
  from pt_set_ok [OF new(1), of 3 5] obtain t1 where t1: "pt_set (pageTable_new True) 3 5 = Inr (5, t1)" "pt_inv t1"
    "\<forall>q. pt_lookup t1 q = (if q = 3 then 5 else 0)" "hasDestroy t1" "destroyed t1 = []"
    unfolding new(2) using new_fields by auto
  from pt_set_ok [OF t1(2), of "0x1000001" 7] obtain t2 where t2: "pt_set t1 0x1000001 7 = Inr (7, t2)" "pt_inv t2"
    "\<forall>q. pt_lookup t2 q = (if q = 0x1000001 then 7 else pt_lookup t1 q)" "hasDestroy t2" "destroyed t2 = []"
    using t1 by auto
  have e: "pt_example = t2" using t1(1) t2(1) by (simp add: pt_example_def)
  have "pt_lookup t2 0x1000001 \<noteq> 0" using t2 by simp
  then show "0x1000001 \<le> pt_max pt_example" using t2(2) e by (simp add: pt_inv_def)
  have "pt_min t = 0" if "pt_set u a b = Inr (c, t)" "pt_min u = 0" for u a b c t
    using that by (auto simp: pt_set_def ensure_mid_def ensure_low_def store_low_def widen_range_def deref_mid_def deref_low_def
        split: prod.splits if_splits option.splits)
  then show "pt_min pt_example = 0" using t1(1) t2(1) e by (metis pageTable.select_convs(4) pageTable_new_def)
  show "pt_inv pt_example" "hasDestroy pt_example" "destroyed pt_example = []" using t2 e by simp_all
  show "pt_lookup pt_example q = (if q = 0x1000001 then 7 else if q = 3 then 5 else 0)" using t1 t2 e by simp
qed

text \<open>
  \<^verbatim>\<open>clear\<close> on a table that satisfies the invariant frees every node without a fault, leaves a table
  in which every id is absent, and calls the destroy function exactly once for each value held, in
  the order of the ids.
\<close>

theorem pt_clear_empties:
  assumes "pt_inv pt"
  shows "\<exists>pt'. pt_clear pt = Inr pt' \<and> pt_inv pt' \<and> (\<forall>pid. pt_get pt' pid = Inr 0) \<and> (\<forall>i. root pt' i = 0)
    \<and> destroyed pt' = destroyed pt @ (if hasDestroy pt then all_values pt else [])"
proof -
  let ?pt = "pt\<lparr>pt_min := 0, pt_max := 0\<rparr>"
  have wf: "pt_wf ?pt" using assms by (simp add: pt_inv_def)
  have "low_vals ?pt = low_vals pt" by (intro ext) (simp add: low_vals_def)
  then have mv: "mid_vals ?pt = mid_vals pt" by (intro ext) (simp add: mid_vals_def)
  from clear_roots_ok [OF wf, of "[0..<256]"] obtain pt' where pt': "clear_roots ?pt [0..<256] = Inr pt'" "pt_wf pt'"
    "\<forall>a b c. pt_val pt' a b c = (if a \<in> set [0..<256] then 0 else pt_val ?pt a b c)"
    "\<forall>a. root pt' a = (if a \<in> set [0..<256] then 0 else root ?pt a)"
    "destroyed pt' = destroyed pt @ (if hasDestroy pt then all_values pt else [])"
    unfolding mv all_values_def by auto
  have look: "pt_lookup pt' pid = 0" for pid using pt'(3) PT_bounds [of pid] by (simp add: pt_lookup_def)
  then have inv: "pt_inv pt'" using pt'(2) by (simp add: pt_inv_def)
  moreover have "root pt' a = 0" for a
    using pt'(4) pt_wfD(4) [of pt a] assms by (auto simp: pt_inv_def)
  ultimately show ?thesis using pt' look pt_get_lookup [OF inv] by (simp add: pt_clear_def)
qed

theorem pt_clear_empties_witness:
  "\<exists>pt'. pt_clear pt_example = Inr pt' \<and> (\<forall>pid. pt_get pt' pid = Inr 0) \<and> destroyed pt' = all_values pt_example"
  using pt_clear_empties [OF pt_example(1)] pt_example(3,4) by auto

text \<open>
  \<^verbatim>\<open>purge(id)\<close> for an id below $2^{24}$ within the range of the table removes exactly the entries with
  smaller ids and keeps the invariant, so every later operation still behaves as on a map.
\<close>

theorem pt_purge_removes_below:
  assumes "pt_inv pt" and "\<not> out_of_range pt pid" and "PT_HIGH pid = 0"
  shows "\<exists>pt'. pt_purge pt pid = Inr pt' \<and> pt_inv pt' \<and> (\<forall>q. pt_get pt' q = Inr (if q < pid then 0 else pt_lookup pt q))"
proof -
  from pt_purge_ok [OF assms] obtain pt' where pt': "pt_purge pt pid = Inr pt'" "pt_inv pt'"
    "\<forall>q. pt_lookup pt' q = (if q < pid then 0 else pt_lookup pt q)" by blast
  with pt_get_lookup [OF pt'(2)] show ?thesis by (intro exI [of _ pt']) simp
qed

theorem pt_purge_removes_below_witness:
  "\<exists>pt'. pt_purge pt_example 4 = Inr pt' \<and> pt_get pt' 3 = Inr 0 \<and> pt_get pt' 0x1000001 = Inr 7"
proof -
  have "\<not> out_of_range pt_example 4"
    using pt_example(5,6) by (auto simp: out_of_range_def not_less intro: order_trans [of _ "0x1000001"])
  moreover have "PT_HIGH 4 = 0" by (simp add: PT_HIGH_div)
  ultimately show ?thesis using pt_purge_removes_below [OF pt_example(1), of 4] by (force simp: pt_example(2))
qed

text \<open>
  When a middle node lies below the purged id, \<^verbatim>\<open>purge\<close> deletes the node and leaves the pointer to
  it in the root: every later \<^verbatim>\<open>get\<close> of an id under that node, and the next \<^verbatim>\<open>purge\<close>, use freed memory.
\<close>

theorem pt_purge_leaves_dangling_pointer:
  assumes "pt_inv pt" and "\<not> out_of_range pt pid" and "i < PT_HIGH pid" and "root pt i \<noteq> 0"
  shows "\<exists>pt'. pt_purge pt pid = Inr pt' \<and> pt_purge pt' pid = Inl UseAfterFree
    \<and> (\<forall>q. PT_HIGH q = i \<and> \<not> out_of_range pt q \<longrightarrow> pt_get pt' q = Inl UseAfterFree)"
  by (rule purge_dangling [OF assms])

theorem pt_purge_leaves_dangling_pointer_witness:
  "\<exists>pt'. pt_purge pt_example 0x1000001 = Inr pt' \<and> pt_get pt' 3 = Inl UseAfterFree"
proof -
  have r: "\<not> out_of_range pt_example 0x1000001" "\<not> out_of_range pt_example 3"
    using pt_example(5,6) by (auto simp: out_of_range_def not_less intro: order_trans [of _ "0x1000001"])
  have h: "PT_HIGH 0x1000001 = 1" "PT_HIGH 3 = 0" by (simp_all add: PT_HIGH_div)
  have "pt_lookup pt_example 3 \<noteq> 0" by (simp add: pt_example(2))
  then have "root pt_example 0 \<noteq> 0" using h by (auto simp: pt_lookup_def pt_val_def lowptr_def split: if_splits)
  with pt_purge_leaves_dangling_pointer [OF pt_example(1) r(1), of 0] h r(2) show ?thesis by auto
qed

end
