(* ===== verification/BitUtil.thy ===== *)
theory BitUtil
  imports Prelude
begin

text \<open>
  \<^verbatim>\<open>util/bitUtil.h\<close>: the position (counted from 1) of the highest set bit of an unsigned integer,
  computed by splitting the integer into its little-endian halves and testing the bits of one byte.
  The buddy allocator uses it to pick a size class.  The reference is \<open>bitlen\<close>, the number of binary
  digits; the four routines are proved equal to it.
\<close>

unbundle bit_operations_syntax

definition highPosOfUchar :: "u8 \<Rightarrow> u8" where
  "highPosOfUchar c =
     (if c AND 0xf0 \<noteq> 0 then
        (if c AND 0x80 = 0x80 then 8
         else if c AND 0x40 = 0x40 then 7
         else if c AND 0x20 = 0x20 then 6
         else if c AND 0x10 = 0x10 then 5
         else 0)
      else if c \<noteq> 0 then
        (if c AND 0x8 = 0x8 then 4
         else if c AND 0x4 = 0x4 then 3
         else if c AND 0x2 = 0x2 then 2
         else if c AND 0x1 = 0x1 then 1
         else 0)
      else 0)"

text \<open>\<^verbatim>\<open>((uint8_t*)&s)[1]\<close> and \<^verbatim>\<open>[0]\<close> are the high and the low half on a little-endian machine.\<close>

definition highPosOfUShort :: "u16 \<Rightarrow> u8" where
  "highPosOfUShort s =
     (if (ucast (drop_bit 8 s) :: u8) \<noteq> 0 then 8 + highPosOfUchar (ucast (drop_bit 8 s))
      else highPosOfUchar (ucast s))"

definition highPosOfUint :: "u32 \<Rightarrow> u8" where
  "highPosOfUint i =
     (if (ucast (drop_bit 16 i) :: u16) \<noteq> 0 then 16 + highPosOfUShort (ucast (drop_bit 16 i))
      else highPosOfUShort (ucast i))"

definition highPosOfULong :: "u64 \<Rightarrow> u8" where
  "highPosOfULong l =
     (if (ucast (drop_bit 32 l) :: u32) \<noteq> 0 then 32 + highPosOfUint (ucast (drop_bit 32 l))
      else highPosOfUint (ucast l))"

section \<open>The reference: number of binary digits\<close>

fun bitlen :: "nat \<Rightarrow> nat" where
  "bitlen n = (if n = 0 then 0 else Suc (bitlen (n div 2)))"

declare bitlen.simps [simp del]

lemma bitlen_0 [simp]: "bitlen 0 = 0"
  by (simp add: bitlen.simps)

lemma bitlen_bounds: "n \<noteq> 0 \<Longrightarrow> 2 ^ (bitlen n - 1) \<le> n \<and> n < 2 ^ bitlen n"
proof (induction n rule: bitlen.induct)
  case (1 n)
  show ?case
  proof (cases "n div 2 = 0")
    case True
    with 1 have "n = 1" by auto
    then show ?thesis by (simp add: bitlen.simps)
  next
    case False
    with 1 have ih: "2 ^ (bitlen (n div 2) - 1) \<le> n div 2 \<and> n div 2 < 2 ^ bitlen (n div 2)"
      by simp
    from False have "bitlen (n div 2) \<noteq> 0" by (simp add: bitlen.simps [of "n div 2"])
    then obtain k where k: "bitlen (n div 2) = Suc k" by (cases "bitlen (n div 2)") auto
    from False have "bitlen n = Suc (bitlen (n div 2))" by (auto simp: bitlen.simps [of n])
    with ih k show ?thesis by auto
  qed
qed

lemma bitlen_split: "n div 2 ^ k \<noteq> 0 \<Longrightarrow> bitlen n = k + bitlen (n div 2 ^ k)"
proof (induction k arbitrary: n)
  case 0
  then show ?case by simp
next
  case (Suc k)
  then have d: "n div 2 div 2 ^ k \<noteq> 0" by (simp add: div_mult2_eq)
  then have "bitlen (n div 2) = k + bitlen (n div 2 div 2 ^ k)" by (rule Suc.IH)
  moreover from d have "n \<noteq> 0" by (metis div_0)
  ultimately show ?case by (simp add: bitlen.simps [of n] div_mult2_eq)
qed

lemma bitlen_le: "n < 2 ^ k \<Longrightarrow> bitlen n \<le> k"
proof (rule ccontr)
  assume n: "n < 2 ^ k" and big: "\<not> bitlen n \<le> k"
  then have "k \<le> bitlen n - 1" by simp
  moreover from big have "n \<noteq> 0" by (cases n) auto
  ultimately have "2 ^ k \<le> n"
    using bitlen_bounds [of n] power_increasing [of k "bitlen n - 1" "2::nat"]
    by (metis le_trans one_le_numeral)
  with n show False by simp
qed

section \<open>Correctness of the four routines\<close>

lemma highPosOfUchar_table: "\<forall>n \<in> set [0..<256]. unat (highPosOfUchar (word_of_nat n)) = bitlen n"
  by code_simp

lemma unat_highPosOfUchar: "unat (highPosOfUchar c) = bitlen (unat c)"
proof -
  have "unat c \<in> set [0..<256]" using unat_u8 [of c] by simp
  then have "unat (highPosOfUchar (word_of_nat (unat c))) = bitlen (unat c)"
    using highPosOfUchar_table by blast
  then show ?thesis by simp
qed

lemma half_bytes:
  fixes w :: "'a::len word"
  assumes k: "LENGTH('b::len) = k" and "LENGTH('a) = 2 * k"
  shows "unat (ucast (drop_bit k w) :: 'b word) = unat w div 2 ^ k"
    and "unat (ucast w :: 'b word) = unat w mod 2 ^ k"
proof -
  have "unat w < 2 ^ k * 2 ^ k"
    using unat_bound [of w] assms by (simp add: power_add mult_2)
  then have "unat w div 2 ^ k < 2 ^ k"
    by (simp add: less_mult_imp_div_less)
  moreover have "unat (drop_bit k w) = unat w div 2 ^ k"
    by (simp only: unsigned_drop_bit_eq) (simp add: drop_bit_eq_div take_bit_nat_eq_self unat_bound)
  ultimately show "unat (ucast (drop_bit k w) :: 'b word) = unat w div 2 ^ k"
    using k by (simp only: unsigned_ucast_eq) (simp add: take_bit_eq_mod)
  show "unat (ucast w :: 'b word) = unat w mod 2 ^ k"
    using k by (simp only: unsigned_ucast_eq) (simp add: take_bit_eq_mod)
qed

text \<open>Each wider routine is the same step over the next narrower one.\<close>

lemma high_step:
  fixes w :: "'a::len word" and f :: "'b::len word \<Rightarrow> u8"
  assumes f: "\<And>x. unat (f x) = bitlen (unat x)"
    and b: "LENGTH('b) = k" and a: "LENGTH('a) = 2 * k" and kw: "unat kw = k" and small: "2 * k < 256"
  shows "unat (if (ucast (drop_bit k w) :: 'b word) \<noteq> 0 then kw + f (ucast (drop_bit k w))
               else f (ucast w)) = bitlen (unat w)"
proof (cases "(ucast (drop_bit k w) :: 'b word) = 0")
  case True
  then have "unat w div 2 ^ k = 0"
    using half_bytes(1) [OF b a, of w] by simp
  then have "unat w < 2 ^ k" by (simp add: div_eq_0_iff)
  with True show ?thesis by (simp add: f half_bytes(2) [OF b a])
next
  case False
  let ?hi = "unat w div 2 ^ k"
  have hi: "unat (ucast (drop_bit k w) :: 'b word) = ?hi" by (rule half_bytes(1) [OF b a])
  with False have nz: "?hi \<noteq> 0" by (metis unat_eq_zero)
  have "bitlen ?hi \<le> k"
    using unat_bound [of "ucast (drop_bit k w) :: 'b word"] hi b by (intro bitlen_le) simp
  with small have "k + bitlen ?hi < 256" by simp
  then have "unat (kw + f (ucast (drop_bit k w))) = k + bitlen ?hi"
    by (simp add: unat_word_ariths f hi kw)
  with False nz show ?thesis by (simp add: bitlen_split)
qed

lemma unat_highPosOfUShort: "unat (highPosOfUShort s) = bitlen (unat s)"
  unfolding highPosOfUShort_def by (rule high_step) (simp_all add: unat_highPosOfUchar)

lemma unat_highPosOfUint: "unat (highPosOfUint i) = bitlen (unat i)"
  unfolding highPosOfUint_def by (rule high_step) (simp_all add: unat_highPosOfUShort)

lemma unat_highPosOfULong: "unat (highPosOfULong l) = bitlen (unat l)"
  unfolding highPosOfULong_def by (rule high_step) (simp_all add: unat_highPosOfUint)

text \<open>
  Each of the four routines returns the number of binary digits of its argument, so that for a
  non-zero 64-bit word the result $h$ is the unique one with $2^{h-1} \le l < 2^h$.
\<close>

theorem highPos_is_bit_length:
  "unat (highPosOfUchar c) = bitlen (unat c) \<and> unat (highPosOfUShort s) = bitlen (unat s)
   \<and> unat (highPosOfUint i) = bitlen (unat i) \<and> unat (highPosOfULong l) = bitlen (unat l)
   \<and> (l = 0 \<or> 2 ^ (unat (highPosOfULong l) - 1) \<le> unat l \<and> unat l < 2 ^ unat (highPosOfULong l))"
  using bitlen_bounds [of "unat l"]
  by (auto simp: unat_highPosOfUchar unat_highPosOfUShort unat_highPosOfUint unat_highPosOfULong unat_eq_0)

end
