(* ===== verification/ItoaSse.thy ===== *)
theory ItoaSse
  imports Prelude
begin

unbundle bit_operations_syntax

text \<open>
  \<^verbatim>\<open>util/itoaSse.h\<close>: conversion of 32- and 64-bit integers to decimal strings with SSE2 instructions.
  A 128-bit register is the list of its eight 16-bit lanes, lowest first, or of its sixteen bytes
  after packing; the intrinsics used are defined on these lists.  The functions write to a byte memory
  at \<open>dest\<close> and return the number of bytes including the terminating zero.  The theory shows that
  what they write is the decimal representation, for every value of the argument type, and that the
  backward variant does not terminate its string for values of $10^8$ and more.
\<close>

section \<open>Tables\<close>

text \<open>The two-digit strings 00 to 99 as character codes.\<close>

definition gDigitsLut :: "u8 list" where
  "gDigitsLut = [
     48, 48, 48, 49, 48, 50, 48, 51, 48, 52, 48, 53, 48, 54, 48, 55, 48, 56, 48, 57,
     49, 48, 49, 49, 49, 50, 49, 51, 49, 52, 49, 53, 49, 54, 49, 55, 49, 56, 49, 57,
     50, 48, 50, 49, 50, 50, 50, 51, 50, 52, 50, 53, 50, 54, 50, 55, 50, 56, 50, 57,
     51, 48, 51, 49, 51, 50, 51, 51, 51, 52, 51, 53, 51, 54, 51, 55, 51, 56, 51, 57,
     52, 48, 52, 49, 52, 50, 52, 51, 52, 52, 52, 53, 52, 54, 52, 55, 52, 56, 52, 57,
     53, 48, 53, 49, 53, 50, 53, 51, 53, 52, 53, 53, 53, 54, 53, 55, 53, 56, 53, 57,
     54, 48, 54, 49, 54, 50, 54, 51, 54, 52, 54, 53, 54, 54, 54, 55, 54, 56, 54, 57,
     55, 48, 55, 49, 55, 50, 55, 51, 55, 52, 55, 53, 55, 54, 55, 55, 55, 56, 55, 57,
     56, 48, 56, 49, 56, 50, 56, 51, 56, 52, 56, 53, 56, 54, 56, 55, 56, 56, 56, 57,
     57, 48, 57, 49, 57, 50, 57, 51, 57, 52, 57, 53, 57, 54, 57, 55, 57, 56, 57, 57]"

definition kDiv10000 :: nat where "kDiv10000 = 0xd1b71759"

definition kDivPowersVector :: "nat list" where
  "kDivPowersVector = [8389, 5243, 13108, 32768, 8389, 5243, 13108, 32768]"

definition kShiftPowersVector :: "nat list" where
  "kShiftPowersVector =
     [2 ^ (16 - (23 + 2 - 16)), 2 ^ (16 - (19 + 2 - 16)), 2 ^ (16 - 1 - 2), 2 ^ 15,
      2 ^ (16 - (23 + 2 - 16)), 2 ^ (16 - (19 + 2 - 16)), 2 ^ (16 - 1 - 2), 2 ^ 15]"

definition k10Vector :: "nat list" where "k10Vector = replicate 8 10"

definition kAsciiZero :: "u8 list" where "kAsciiZero = replicate 16 48"

section \<open>The SSE2 intrinsics\<close>

definition lanes_of64 :: "nat \<Rightarrow> nat list" where
  "lanes_of64 x = [x mod 2 ^ 16, x div 2 ^ 16 mod 2 ^ 16, x div 2 ^ 32 mod 2 ^ 16, x div 2 ^ 48 mod 2 ^ 16]"

definition lane64 :: "nat list \<Rightarrow> nat \<Rightarrow> nat" where
  "lane64 v k = v ! (4 * k) + 2 ^ 16 * v ! (4 * k + 1) + 2 ^ 32 * v ! (4 * k + 2) + 2 ^ 48 * v ! (4 * k + 3)"

definition lane32 :: "nat list \<Rightarrow> nat \<Rightarrow> nat" where
  "lane32 v k = v ! (2 * k) + 2 ^ 16 * v ! (2 * k + 1)"

definition lanes_of32 :: "nat \<Rightarrow> nat list" where
  "lanes_of32 x = [x mod 2 ^ 16, x div 2 ^ 16 mod 2 ^ 16]"

definition mm_cvtsi32_si128 :: "nat \<Rightarrow> nat list" where
  "mm_cvtsi32_si128 x = lanes_of32 x @ replicate 6 0"

definition mm_set1_epi32 :: "nat \<Rightarrow> nat list" where
  "mm_set1_epi32 x = lanes_of32 x @ lanes_of32 x @ lanes_of32 x @ lanes_of32 x"

definition mm_mul_epu32 :: "nat list \<Rightarrow> nat list \<Rightarrow> nat list" where
  "mm_mul_epu32 a b = lanes_of64 (lane32 a 0 * lane32 b 0) @ lanes_of64 (lane32 a 2 * lane32 b 2)"

definition mm_srli_epi64 :: "nat list \<Rightarrow> nat \<Rightarrow> nat list" where
  "mm_srli_epi64 a n = lanes_of64 (lane64 a 0 div 2 ^ n) @ lanes_of64 (lane64 a 1 div 2 ^ n)"

definition mm_slli_epi64 :: "nat list \<Rightarrow> nat \<Rightarrow> nat list" where
  "mm_slli_epi64 a n = lanes_of64 (lane64 a 0 * 2 ^ n) @ lanes_of64 (lane64 a 1 * 2 ^ n)"

definition mm_sub_epi32 :: "nat list \<Rightarrow> nat list \<Rightarrow> nat list" where
  "mm_sub_epi32 a b = concat (map (\<lambda>k. lanes_of32 (lane32 a k + 2 ^ 32 - lane32 b k)) [0, 1, 2, 3])"

definition mm_unpacklo_epi16 :: "nat list \<Rightarrow> nat list \<Rightarrow> nat list" where
  "mm_unpacklo_epi16 a b = [a ! 0, b ! 0, a ! 1, b ! 1, a ! 2, b ! 2, a ! 3, b ! 3]"

definition mm_unpacklo_epi32 :: "nat list \<Rightarrow> nat list \<Rightarrow> nat list" where
  "mm_unpacklo_epi32 a b = [a ! 0, a ! 1, b ! 0, b ! 1, a ! 2, a ! 3, b ! 2, b ! 3]"

definition mm_mulhi_epu16 :: "nat list \<Rightarrow> nat list \<Rightarrow> nat list" where
  "mm_mulhi_epu16 a b = map2 (\<lambda>x y. x * y div 2 ^ 16) a b"

definition mm_mullo_epi16 :: "nat list \<Rightarrow> nat list \<Rightarrow> nat list" where
  "mm_mullo_epi16 a b = map2 (\<lambda>x y. x * y mod 2 ^ 16) a b"

definition mm_sub_epi16 :: "nat list \<Rightarrow> nat list \<Rightarrow> nat list" where
  "mm_sub_epi16 a b = map2 (\<lambda>x y. (x + 2 ^ 16 - y) mod 2 ^ 16) a b"

text \<open>Lanes are signed for \<^verbatim>\<open>_mm_packus_epi16\<close>, which saturates to a byte.\<close>

definition mm_packus_epi16 :: "nat list \<Rightarrow> nat list \<Rightarrow> u8 list" where
  "mm_packus_epi16 a b = map (\<lambda>x. if 2 ^ 15 \<le> x then 0 else word_of_nat (min 255 x)) (a @ b)"

definition mm_add_epi8 :: "u8 list \<Rightarrow> u8 list \<Rightarrow> u8 list" where
  "mm_add_epi8 a b = map2 (+) a b"

definition mm_srli_si128 :: "u8 list \<Rightarrow> nat \<Rightarrow> u8 list" where
  "mm_srli_si128 a n = drop n a @ replicate (min n (length a)) 0"

definition mm_cmpeq_movemask :: "u8 list \<Rightarrow> u8 list \<Rightarrow> u32" where
  "mm_cmpeq_movemask a b = horner_sum of_bool 2 (map2 (=) a b)"

definition builtin_ctz :: "u32 \<Rightarrow> nat" where
  "builtin_ctz w = length (takeWhile (\<lambda>i. \<not> bit w i) [0..<32])"

section \<open>The conversions\<close>

definition Convert8DigitsSSE2 :: "nat \<Rightarrow> nat list" where
  "Convert8DigitsSSE2 value =
     (let abcdefgh = mm_cvtsi32_si128 value;
          abcd = mm_srli_epi64 (mm_mul_epu32 abcdefgh (mm_set1_epi32 kDiv10000)) 45;
          efgh = mm_sub_epi32 abcdefgh (mm_mul_epu32 abcd (mm_set1_epi32 10000));
          v1 = mm_unpacklo_epi16 abcd efgh;
          v1a = mm_slli_epi64 v1 2;
          v2a = mm_unpacklo_epi16 v1a v1a;
          v2 = mm_unpacklo_epi32 v2a v2a;
          v3 = mm_mulhi_epu16 v2 kDivPowersVector;
          v4 = mm_mulhi_epu16 v3 kShiftPowersVector;
          v5 = mm_mullo_epi16 v4 k10Vector;
          v6 = mm_slli_epi64 v5 16;
          v7 = mm_sub_epi16 v4 v6
      in v7)"

definition ShiftDigits_SSE2 :: "u8 list \<Rightarrow> nat \<Rightarrow> u8 list" where
  "ShiftDigits_SSE2 a digit = (if digit = 0 then a else if digit \<le> 8 then mm_srli_si128 a digit else a)"

text \<open>The digits that the branches for values below $10^4$ and $10^8$ write, shared by all variants.\<close>

definition digits4 :: "nat \<Rightarrow> u8 list" where
  "digits4 value =
     (let d1 = (value div 100) * 2; d2 = (value mod 100) * 2 in
      (if value \<ge> 1000 then [gDigitsLut ! d1] else []) @ (if value \<ge> 100 then [gDigitsLut ! (d1 + 1)] else []) @
      (if value \<ge> 10 then [gDigitsLut ! d2] else []) @ [gDigitsLut ! (d2 + 1)])"

definition digits8 :: "nat \<Rightarrow> u8 list" where
  "digits8 value =
     (let b = value div 10000; c = value mod 10000;
          d1 = (b div 100) * 2; d2 = (b mod 100) * 2; d3 = (c div 100) * 2; d4 = (c mod 100) * 2 in
      (if value \<ge> 10000000 then [gDigitsLut ! d1] else []) @ (if value \<ge> 1000000 then [gDigitsLut ! (d1 + 1)] else []) @
      (if value \<ge> 100000 then [gDigitsLut ! d2] else []) @ [gDigitsLut ! (d2 + 1)] @
      [gDigitsLut ! d3, gDigitsLut ! (d3 + 1), gDigitsLut ! d4, gDigitsLut ! (d4 + 1)])"

definition digits2 :: "nat \<Rightarrow> u8 list" where
  "digits2 a = (if a \<ge> 10 then [gDigitsLut ! (a * 2), gDigitsLut ! (a * 2 + 1)] else [48 + word_of_nat a])"

text \<open>The low eight bytes that \<^verbatim>\<open>_mm_storel_epi64\<close> stores for an eight-digit block.\<close>

definition block8 :: "nat \<Rightarrow> u8 list" where
  "block8 value =
     take 8 (mm_srli_si128 (mm_add_epi8 (mm_packus_epi16 (replicate 8 0) (Convert8DigitsSSE2 value)) kAsciiZero) 8)"

definition u32toa_sse2 :: "u32 \<Rightarrow> mem \<Rightarrow> nat \<Rightarrow> nat \<times> mem" where
  "u32toa_sse2 value m dest =
     (let v = unat value;
          cs = (if v < 10000 then digits4 v @ [0]
                else if v < 100000000 then digits8 v @ [0]
                else digits2 (v div 100000000) @ block8 (v mod 100000000) @ [0])
      in (length cs, write_bytes m dest cs))"

text \<open>The backward variant: the string ends at \<open>dest\<close>; the last branch leaves the byte at \<open>dest\<close> alone.\<close>

definition u32toa_sse2_b :: "u32 \<Rightarrow> mem \<Rightarrow> nat \<Rightarrow> nat \<times> mem" where
  "u32toa_sse2_b value m dest =
     (let v = unat value in
      if v < 10000 then
        let cs = digits4 v @ [0] in (length cs, write_bytes m (dest + 1 - length cs) cs)
      else if v < 100000000 then
        let cs = digits8 v @ [0] in (length cs, write_bytes m (dest + 1 - length cs) cs)
      else
        let cs = digits2 (v div 100000000) @ block8 (v mod 100000000)
        in (length cs + 1, write_bytes m (dest - length cs) cs))"

definition i32toa_sse2 :: "u32 \<Rightarrow> mem \<Rightarrow> nat \<Rightarrow> nat \<times> mem" where
  "i32toa_sse2 value m dest =
     (if sint value < 0 then
        case u32toa_sse2 (NOT value + 1) (m(dest := 45)) (dest + 1) of (l, m') \<Rightarrow> (l + 1, m')
      else u32toa_sse2 value m dest)"

definition i32toa_sse2b :: "u32 \<Rightarrow> mem \<Rightarrow> nat \<Rightarrow> nat \<times> mem" where
  "i32toa_sse2b value m dest =
     (if sint value < 0 then
        case u32toa_sse2_b (NOT value + 1) m dest of (l, m') \<Rightarrow> (l + 1, m'(dest - l := 45))
      else u32toa_sse2_b value m dest)"

definition digits16 :: "nat \<Rightarrow> u8 list" where
  "digits16 value =
     mm_add_epi8 (mm_packus_epi16 (Convert8DigitsSSE2 (value div 100000000)) (Convert8DigitsSSE2 (value mod 100000000))) kAsciiZero"

definition u64toa_sse2 :: "u64 \<Rightarrow> mem \<Rightarrow> nat \<Rightarrow> nat \<times> mem" where
  "u64toa_sse2 value m dest =
     (let v = unat value in
      if v < 100000000 then
        let cs = (if v < 10000 then digits4 v else digits8 v) @ [0]
        in (length cs, write_bytes m dest cs)
      else if v < 10000000000000000 then
        let va = digits16 v;
            digit = builtin_ctz (NOT (mm_cmpeq_movemask va kAsciiZero) OR 0x8000);
            m' = write_bytes m dest (ShiftDigits_SSE2 va digit)
        in (16 - digit + 1, m'(dest + (16 - digit) := 0))
      else
        let a = v div 10000000000000000;
            cs = (if a < 10 then [48 + word_of_nat a]
                  else if a < 100 then [gDigitsLut ! (a * 2), gDigitsLut ! (a * 2 + 1)]
                  else if a < 1000 then
                    [48 + word_of_nat (a div 100), gDigitsLut ! ((a mod 100) * 2), gDigitsLut ! ((a mod 100) * 2 + 1)]
                  else [gDigitsLut ! ((a div 100) * 2), gDigitsLut ! ((a div 100) * 2 + 1),
                        gDigitsLut ! ((a mod 100) * 2), gDigitsLut ! ((a mod 100) * 2 + 1)])
        in (length cs + 17, write_bytes m dest (cs @ digits16 (v mod 10000000000000000) @ [0])))"

definition i64toa_sse2 :: "u64 \<Rightarrow> mem \<Rightarrow> nat \<Rightarrow> nat \<times> mem" where
  "i64toa_sse2 value m dest =
     (if sint value < 0 then
        case u64toa_sse2 (NOT value + 1) (m(dest := 45)) (dest + 1) of (l, m') \<Rightarrow> (l + 1, m')
      else u64toa_sse2 value m dest)"

section \<open>Decimal representation\<close>

fun dec :: "nat \<Rightarrow> u8 list" where
  "dec n = (if n < 10 then [48 + word_of_nat n] else dec (n div 10) @ [48 + word_of_nat (n mod 10)])"

declare dec.simps [simp del]

text \<open>Exactly \<open>k\<close> digits, leading zeros included.\<close>

fun digs :: "nat \<Rightarrow> nat \<Rightarrow> u8 list" where
  "digs 0 n = []"
| "digs (Suc k) n = digs k (n div 10) @ [48 + word_of_nat (n mod 10)]"

lemma length_digs [simp]: "length (digs k n) = k"
  by (induction k n rule: digs.induct) simp_all

lemma dec_digs: "10 ^ k \<le> n \<Longrightarrow> n < 10 ^ Suc k \<Longrightarrow> dec n = digs (Suc k) n"
proof (induction k arbitrary: n)
  case 0
  then show ?case by (simp add: dec.simps)
next
  case (Suc k)
  have "10 \<le> n" using Suc.prems(1) by (meson le_trans one_le_numeral self_le_power zero_less_Suc)
  moreover have "10 ^ k \<le> n div 10" "n div 10 < 10 ^ Suc k"
    using Suc.prems by (simp_all add: less_mult_imp_div_less less_eq_div_iff_mult_less_eq)
  ultimately show ?case using Suc.IH [of "n div 10"] by (simp add: dec.simps [of n])
qed

lemma digs_append: "digs (j + k) n = digs j (n div 10 ^ k) @ digs k n"
proof (induction k arbitrary: n)
  case 0
  then show ?case by simp
next
  case (Suc k)
  then show ?case by (simp add: div_mult2_eq)
qed

lemma dec_append: "0 < a \<Longrightarrow> b < 10 ^ k \<Longrightarrow> dec (a * 10 ^ k + b) = dec a @ digs k b"
proof (induction k arbitrary: b)
  case 0
  then show ?case by simp
next
  case (Suc k)
  let ?n = "a * 10 ^ Suc k + b"
  have n: "?n = 10 * (a * 10 ^ k) + b" by simp
  have d: "?n div 10 = a * 10 ^ k + b div 10" "?n mod 10 = b mod 10" unfolding n by simp_all
  have "1 \<le> a * 10 ^ k" using Suc.prems(1) by simp
  then have "\<not> ?n < 10" unfolding n by linarith
  then have "dec ?n = dec (a * 10 ^ k + b div 10) @ [48 + word_of_nat (b mod 10)]"
    by (simp only: dec.simps [of ?n] d if_False)
  also have "\<dots> = dec a @ digs (Suc k) b"
    using Suc.IH [of "b div 10"] Suc.prems by (simp add: less_mult_imp_div_less)
  finally show ?case .
qed

lemma lut_table: "gDigitsLut = concat (map (\<lambda>i. [48 + word_of_nat (i div 10), 48 + word_of_nat (i mod 10)]) [0..<100])"
  by (simp add: gDigitsLut_def upt_rec_numeral upt_conv_Cons)

lemma length_concat_pairs: "length (concat (map (\<lambda>i. [f i, g i]) [0..<n])) = n * 2"
  by (induction n) simp_all

lemma nth_concat_pairs:
  assumes "i < n"
  shows "concat (map (\<lambda>i. [f i, g i]) [0..<n]) ! (i * 2) = f i \<and> concat (map (\<lambda>i. [f i, g i]) [0..<n]) ! Suc (i * 2) = g i"
  using assms
proof (induction n)
  case (Suc n)
  let ?c = "concat (map (\<lambda>i. [f i, g i]) [0..<n])"
  have s: "concat (map (\<lambda>i. [f i, g i]) [0..<Suc n]) = ?c @ [f n, g n]" by simp
  show ?case
  proof (cases "i = n")
    case True
    then show ?thesis unfolding s by (simp only: nth_append length_concat_pairs) simp
  next
    case False
    with Suc have i: "i < n" by simp
    then have "i * 2 < n * 2" "Suc (i * 2) < n * 2" by simp_all
    with Suc.IH [OF i] show ?thesis unfolding s by (simp only: nth_append length_concat_pairs if_True)
  qed
qed simp

lemma lut:
  assumes "i < 100"
  shows "gDigitsLut ! (i * 2) = 48 + word_of_nat (i div 10)" "gDigitsLut ! (i * 2 + 1) = 48 + word_of_nat (i mod 10)"
    "gDigitsLut ! Suc (i * 2) = 48 + word_of_nat (i mod 10)"
proof -
  note n = nth_concat_pairs [OF assms, of "\<lambda>i. 48 + word_of_nat (i div 10) :: u8" "\<lambda>i. 48 + word_of_nat (i mod 10)"]
  show "gDigitsLut ! (i * 2) = 48 + word_of_nat (i div 10)" unfolding lut_table by (rule n [THEN conjunct1])
  show 2: "gDigitsLut ! Suc (i * 2) = 48 + word_of_nat (i mod 10)" unfolding lut_table by (rule n [THEN conjunct2])
  show "gDigitsLut ! (i * 2 + 1) = 48 + word_of_nat (i mod 10)" using 2 by simp
qed

lemma digs_numeral [simp]: "digs (numeral k) n = digs (pred_numeral k) (n div 10) @ [48 + word_of_nat (n mod 10)]"
  by (simp only: numeral_eq_Suc [of k] digs.simps)

lemma digs_4:
  assumes "n < 10000"
  shows "digs 1 n = [48 + word_of_nat (n mod 100 mod 10)]"
    and "digs 2 n = [48 + word_of_nat (n mod 100 div 10), 48 + word_of_nat (n mod 100 mod 10)]"
    and "digs 3 n = [48 + word_of_nat (n div 100 mod 10), 48 + word_of_nat (n mod 100 div 10), 48 + word_of_nat (n mod 100 mod 10)]"
    and "digs 4 n = [48 + word_of_nat (n div 100 div 10), 48 + word_of_nat (n div 100 mod 10),
      48 + word_of_nat (n mod 100 div 10), 48 + word_of_nat (n mod 100 mod 10)]"
proof -
  have m: "n mod 100 = 10 * (n div 10 mod 10) + n mod 10" using mod_mult2_eq [of n 10 10] by simp
  have "n div 1000 < 10" using assms by (simp add: less_mult_imp_div_less)
  then have e: "n mod 100 mod 10 = n mod 10" "n mod 100 div 10 = n div 10 mod 10" "n div 100 mod 10 = n div 10 div 10 mod 10"
    "n div 100 div 10 = n div 10 div 10 div 10 mod 10"
    by (simp_all add: m div_mult2_eq [symmetric])
  show "digs 1 n = [48 + word_of_nat (n mod 100 mod 10)]"
    and "digs 2 n = [48 + word_of_nat (n mod 100 div 10), 48 + word_of_nat (n mod 100 mod 10)]"
    and "digs 3 n = [48 + word_of_nat (n div 100 mod 10), 48 + word_of_nat (n mod 100 div 10), 48 + word_of_nat (n mod 100 mod 10)]"
    and "digs 4 n = [48 + word_of_nat (n div 100 div 10), 48 + word_of_nat (n div 100 mod 10),
      48 + word_of_nat (n mod 100 div 10), 48 + word_of_nat (n mod 100 mod 10)]"
    unfolding e by simp_all
qed

section \<open>The table-driven branches\<close>

lemma digits4_dec:
  assumes "v < 10000"
  shows "digits4 v = dec v"
proof -
  have b: "v div 100 < 100" "v mod 100 < 100" using assms by (simp_all add: less_mult_imp_div_less)
  note l = lut [OF b(1)] lut [OF b(2)]
  consider "1000 \<le> v" | "100 \<le> v" "v < 1000" | "10 \<le> v" "v < 100" | "v < 10" by linarith
  then show ?thesis
  proof cases
    case 1
    then have "dec v = digs 4 v" using assms dec_digs [of 3 v] by (simp del: digs_numeral digs.simps)
    with 1 show ?thesis by (simp only: digs_4 [OF assms]) (simp add: digits4_def l)
  next
    case 2
    then have "dec v = digs 3 v" using dec_digs [of 2 v] by (simp del: digs_numeral digs.simps)
    with 2 show ?thesis by (simp only: digs_4 [OF assms]) (simp add: digits4_def l)
  next
    case 3
    then have "dec v = digs 2 v" using dec_digs [of 1 v] by (simp add: numeral_2_eq_2 del: digs_numeral digs.simps)
    with 3 show ?thesis by (simp only: digs_4 [OF assms]) (simp add: digits4_def lut Let_def)
  next
    case 4
    then show ?thesis by (simp add: digits4_def lut Let_def dec.simps [of v])
  qed
qed

lemma digits8_dec:
  assumes "10000 \<le> v" and "v < 100000000"
  shows "digits8 v = dec v"
proof -
  let ?b = "v div 10000" and ?c = "v mod 10000"
  have b: "0 < ?b" "?b < 10000" and c: "?c < 10000" using assms by (simp_all add: less_mult_imp_div_less div_greater_zero_iff)
  have "?c div 100 < 100" "?c mod 100 < 100" by (simp_all add: less_mult_imp_div_less)
  note l = lut [OF this(1)] lut [OF this(2)]
  have th: "v \<ge> 10000000 \<longleftrightarrow> ?b \<ge> 1000" "v \<ge> 1000000 \<longleftrightarrow> ?b \<ge> 100" "v \<ge> 100000 \<longleftrightarrow> ?b \<ge> 10"
    by (simp_all add: less_eq_div_iff_mult_less_eq)
  have "digits8 v = digits4 ?b @ digs 4 ?c"
    by (simp only: digits8_def digits4_def Let_def th digs_4 [OF c] l append_assoc)
  also have "\<dots> = dec (?b * 10 ^ 4 + ?c)" using dec_append [OF b(1), of ?c 4] b c by (simp only: digits4_dec) simp
  also have "?b * 10 ^ 4 + ?c = v" by simp
  finally show ?thesis .
qed

lemma digits2_dec: "a < 100 \<Longrightarrow> digits2 a = dec a"
  by (simp add: digits2_def lut dec.simps [of a]) (simp add: dec.simps less_mult_imp_div_less)

section \<open>The SSE2 block conversion\<close>

text \<open>Division by a constant as a multiplication and a shift.\<close>

lemma div_magic:
  fixes x d m N e :: nat
  assumes "d * m = N + e" and "e * (x div d) + m * (d - 1) < N" and "0 < d"
  shows "x * m div N = x div d"
proof -
  let ?q = "x div d" and ?r = "x mod d"
  have "x * m = (?q * d + ?r) * m" by simp
  also have "\<dots> = ?q * (d * m) + ?r * m" by (simp only: distrib_right mult.assoc)
  also have "\<dots> = ?q * N + (e * ?q + ?r * m)" unfolding assms(1) by (simp add: algebra_simps)
  finally have x: "x * m = ?q * N + (e * ?q + ?r * m)" .
  have "?r \<le> d - 1" using mod_less_divisor [OF assms(3), of x] by linarith
  then have "?r * m \<le> m * (d - 1)" by (simp add: mult.commute)
  with assms(2) have "e * ?q + ?r * m < N" by linarith
  then show ?thesis unfolding x by simp
qed

lemma lanes_of64_small: "x < 2 ^ 16 \<Longrightarrow> lanes_of64 x = [x, 0, 0, 0]"
  by (simp add: lanes_of64_def)

lemma lane32_lanes: "x < 2 ^ 32 \<Longrightarrow> lane32 (lanes_of32 x @ ys) 0 = x"
proof -
  assume x: "x < 2 ^ 32"
  have "x mod (2 ^ 16 * 2 ^ 16) = 2 ^ 16 * (x div 2 ^ 16 mod 2 ^ 16) + x mod 2 ^ 16" by (rule mod_mult2_eq)
  with x show ?thesis by (simp add: lane32_def lanes_of32_def)
qed

lemma lane64_lanes: "x < 2 ^ 64 \<Longrightarrow> lane64 (lanes_of64 x @ ys) 0 = x"
proof -
  assume x: "x < 2 ^ 64"
  let ?B = "2 ^ 16 :: nat"
  have 1: "x mod 2 ^ 64 = 2 ^ 48 * (x div 2 ^ 48 mod ?B) + x mod 2 ^ 48" using mod_mult2_eq [of x "2 ^ 48" ?B] by simp
  have 2: "x mod 2 ^ 48 = 2 ^ 32 * (x div 2 ^ 32 mod ?B) + x mod 2 ^ 32" using mod_mult2_eq [of x "2 ^ 32" ?B] by simp
  have 3: "x mod 2 ^ 32 = ?B * (x div ?B mod ?B) + x mod ?B" using mod_mult2_eq [of x ?B ?B] by simp
  have "lane64 (lanes_of64 x @ ys) 0 = x mod ?B + ?B * (x div ?B mod ?B) + 2 ^ 32 * (x div 2 ^ 32 mod ?B) + 2 ^ 48 * (x div 2 ^ 48 mod ?B)"
    by (simp add: lane64_def lanes_of64_def numeral_2_eq_2 numeral_3_eq_3)
  also have "\<dots> = x mod 2 ^ 64" using 1 2 3 by linarith
  also have "\<dots> = x" using x by simp
  finally show ?thesis .
qed

lemma replicate_num: "replicate (numeral k) x = x # replicate (pred_numeral k) x"
  by (simp only: numeral_eq_Suc [of k] replicate.simps)

lemma srli_block:
  assumes "v < 100000000"
  shows "mm_srli_epi64 (mm_mul_epu32 (mm_cvtsi32_si128 v) (mm_set1_epi32 kDiv10000)) 45 = [v div 10000, 0, 0, 0, 0, 0, 0, 0]"
proof -
  have v: "v < 2 ^ 32" using assms by simp
  have k: "kDiv10000 < 2 ^ 32" by (simp add: kDiv10000_def)
  have l: "lane32 (mm_cvtsi32_si128 v) 0 = v" "lane32 (mm_cvtsi32_si128 v) 2 = 0"
    using lane32_lanes [OF v] by (simp_all add: mm_cvtsi32_si128_def) (simp add: lane32_def lanes_of32_def)
  have k0: "lane32 (mm_set1_epi32 kDiv10000) 0 = kDiv10000" using lane32_lanes [OF k] by (simp add: mm_set1_epi32_def)
  have p: "v * kDiv10000 < 2 ^ 64" using mult_strict_mono [OF v k] by (simp flip: power_add)
  have "v * kDiv10000 div 2 ^ 45 = v div 10000"
  proof (rule div_magic [where e = 1168])
    have "v div 10000 \<le> 9999" using assms by (simp add: less_mult_imp_div_less flip: less_Suc_eq_le)
    then show "1168 * (v div 10000) + kDiv10000 * (10000 - 1) < 2 ^ 45" by (simp add: kDiv10000_def)
  qed (simp_all add: kDiv10000_def)
  moreover have "v div 10000 < 2 ^ 16" using assms by (simp add: less_mult_imp_div_less)
  moreover have "lane64 (lanes_of64 (v * kDiv10000) @ lanes_of64 0) 1 = 0"
    by (simp add: lane64_def lanes_of64_def)
  ultimately show ?thesis
    by (simp only: mm_srli_epi64_def mm_mul_epu32_def l k0 mult_zero_left lane64_lanes [OF p] lanes_of64_small) (simp add: lanes_of64_def)
qed

lemma sub_block:
  assumes "v < 100000000"
  shows "mm_sub_epi32 (mm_cvtsi32_si128 v) (mm_mul_epu32 [v div 10000, 0, 0, 0, 0, 0, 0, 0] (mm_set1_epi32 10000))
    = [v mod 10000, 0, 0, 0, 0, 0, 0, 0]"
proof -
  let ?a = "v div 10000"
  have v: "v < 2 ^ 32" using assms by simp
  have le: "?a * 10000 \<le> v" by simp
  then have p: "?a * 10000 < 2 ^ 32" using v by linarith
  have m: "mm_mul_epu32 [?a, 0, 0, 0, 0, 0, 0, 0] (mm_set1_epi32 10000) = lanes_of32 (?a * 10000) @ replicate 6 0"
    using p by (simp add: replicate_num mm_mul_epu32_def mm_set1_epi32_def lane32_def lanes_of32_def lanes_of64_def)
  have z: "lane32 (lanes_of32 x @ replicate 6 0) 1 = 0" "lane32 (lanes_of32 x @ replicate 6 0) 2 = 0"
    "lane32 (lanes_of32 x @ replicate 6 0) 3 = 0" for x
    by (simp_all add: lane32_def lanes_of32_def)
  have d: "v + 2 ^ 32 - ?a * 10000 = 2 ^ 32 + v mod 10000"
    using le div_mult_mod_eq [of v 10000] by linarith
  have e: "v mod 10000 < 2 ^ 16" by (rule less_trans [of _ 10000]) simp_all
  have l1: "lanes_of32 (2 ^ 32 + v mod 10000) = [v mod 10000, 0]"
  proof -
    have s: "2 ^ 32 + v mod 10000 = v mod 10000 + 2 ^ 16 * 2 ^ 16" by simp
    have "(v mod 10000 + 2 ^ 16 * 2 ^ 16) mod 2 ^ 16 = v mod 10000" using e by (simp only: mod_mult_self2) simp
    moreover have "(v mod 10000 + 2 ^ 16 * 2 ^ 16) div 2 ^ 16 = 2 ^ 16" using e by (simp only: div_mult_self2) simp
    ultimately show ?thesis unfolding s lanes_of32_def by simp
  qed
  show ?thesis
    unfolding m mm_sub_epi32_def mm_cvtsi32_si128_def
    by (simp only: list.map concat.simps lane32_lanes [OF v] lane32_lanes [OF p] z d l1) (simp add: lanes_of32_def)
qed

lemma shift2_block:
  assumes "a < 10000" and "e < 10000"
  shows "mm_slli_epi64 [a, e, 0, 0, 0, 0, 0, 0] 2 = [a * 4, e * 4, 0, 0, 0, 0, 0, 0]"
proof -
  have "lane64 [a, e, 0, 0, 0, 0, 0, 0] 0 * 2 ^ 2 = a * 4 + 2 ^ 16 * (e * 4)" by (simp add: lane64_def)
  moreover have "lanes_of64 (a * 4 + 2 ^ 16 * (e * 4)) = [a * 4, e * 4, 0, 0]"
  proof -
    let ?x = "a * 4 + 2 ^ 16 * (e * 4)"
    have s: "a * 4 < 2 ^ 16" "e * 4 < 2 ^ 16" using assms by simp_all
    have q: "?x div 2 ^ 16 = e * 4" "?x mod 2 ^ 16 = a * 4"
      using s(1) by (simp_all only: div_mult_self2 mod_mult_self2) simp_all
    have "?x div 2 ^ 32 = ?x div 2 ^ 16 div 2 ^ 16" "?x div 2 ^ 48 = ?x div 2 ^ 16 div 2 ^ 32"
      by (simp_all only: div_mult2_eq [symmetric]) simp_all
    then have "?x div 2 ^ 32 = 0" "?x div 2 ^ 48 = 0" unfolding q using s(2) by simp_all
    then show ?thesis unfolding lanes_of64_def q using s by simp
  qed
  ultimately show ?thesis by (simp add: mm_slli_epi64_def) (simp add: lane64_def lanes_of64_def)
qed

lemma shift_lane:
  assumes "l0 < 2 ^ 16" "l1 < 2 ^ 16" "l2 < 2 ^ 16"
  shows "lanes_of64 ((l0 + 2 ^ 16 * l1 + 2 ^ 32 * l2 + 2 ^ 48 * l3) * 2 ^ 16) = [0, l0, l1, l2]"
proof -
  let ?B = "2 ^ 16 :: nat"
  let ?x = "(l0 + 2 ^ 16 * l1 + 2 ^ 32 * l2 + 2 ^ 48 * l3) * 2 ^ 16"
  have x: "?x = ?B * (l0 + ?B * (l1 + ?B * (l2 + ?B * l3)))" by simp
  have d1: "?x div ?B = l0 + ?B * (l1 + ?B * (l2 + ?B * l3))" unfolding x by simp
  have d2: "?x div 2 ^ 32 = l1 + ?B * (l2 + ?B * l3)"
  proof -
    have "?x div 2 ^ 32 = ?x div ?B div ?B" by (simp only: div_mult2_eq [symmetric]) simp
    also have "\<dots> = l1 + ?B * (l2 + ?B * l3)" unfolding d1 using assms(1) by (simp only: div_mult_self2) simp
    finally show ?thesis .
  qed
  have d3: "?x div 2 ^ 48 = l2 + ?B * l3"
  proof -
    have "?x div 2 ^ 48 = ?x div 2 ^ 32 div ?B" by (simp only: div_mult2_eq [symmetric]) simp
    also have "\<dots> = l2 + ?B * l3" unfolding d2 using assms(2) by (simp only: div_mult_self2) simp
    finally show ?thesis .
  qed
  have m0: "?x mod ?B = 0" unfolding x by simp
  show ?thesis
    unfolding lanes_of64_def m0 d1 d2 d3 using assms by (simp only: mod_mult_self2) simp
qed

text \<open>The four multiplications and shifts: the quotients by $10^3$, $10^2$, $10$ and $1$.\<close>

lemma quotients:
  fixes x :: nat
  assumes "x < 10000"
  shows "x * 4 * 8389 div 2 ^ 16 * 2 ^ 7 div 2 ^ 16 = x div 1000"
    and "x * 4 * 5243 div 2 ^ 16 * 2 ^ 11 div 2 ^ 16 = x div 100"
    and "x * 4 * 13108 div 2 ^ 16 * 2 ^ 13 div 2 ^ 16 = x div 10"
    and "x * 4 * 32768 div 2 ^ 16 * 2 ^ 15 div 2 ^ 16 = x"
proof -
  have sh: "y * 2 ^ 7 div 2 ^ 16 = y div 2 ^ 9" "y * 2 ^ 11 div 2 ^ 16 = y div 2 ^ 5" "y * 2 ^ 13 div 2 ^ 16 = y div 2 ^ 3"
    "y * 2 ^ 15 div 2 ^ 16 = y div 2" for y :: nat
    using div_mult_mult2 [of "2 ^ 7" y "2 ^ 9"] div_mult_mult2 [of "2 ^ 11" y "2 ^ 5"] div_mult_mult2 [of "2 ^ 13" y "2 ^ 3"]
      div_mult_mult2 [of "2 ^ 15" y "2"] by simp_all
  have c: "x * 4 * k div 2 ^ 16 = x * k div 2 ^ 14" for k using div_mult_mult2 [of 4 "x * k" "2 ^ 14"] by (simp add: ac_simps)
  have q: "x div 1000 \<le> 9" "x div 100 \<le> 99" "x div 10 \<le> 999" using assms by simp_all
  show "x * 4 * 8389 div 2 ^ 16 * 2 ^ 7 div 2 ^ 16 = x div 1000"
    unfolding sh c div_mult2_eq [symmetric] using q by (simp add: div_magic [where e = 392 and d = 1000])
  show "x * 4 * 5243 div 2 ^ 16 * 2 ^ 11 div 2 ^ 16 = x div 100"
    unfolding sh c div_mult2_eq [symmetric] using q by (simp add: div_magic [where e = 12 and d = 100])
  show "x * 4 * 13108 div 2 ^ 16 * 2 ^ 13 div 2 ^ 16 = x div 10"
    unfolding sh c div_mult2_eq [symmetric] using q by (simp add: div_magic [where e = 8 and d = 10])
  show "x * 4 * 32768 div 2 ^ 16 * 2 ^ 15 div 2 ^ 16 = x"
    unfolding sh c div_mult2_eq [symmetric] by simp
qed

lemma minus_ten_div:
  fixes x :: nat
  assumes "x < 2 ^ 16"
  shows "(x + 2 ^ 16 - x div 10 * 10) mod 2 ^ 16 = x mod 10"
proof -
  have "x + 2 ^ 16 - x div 10 * 10 = x mod 10 + 2 ^ 16" using div_mult_mod_eq [of x 10] by linarith
  moreover have "x mod 10 < 2 ^ 16" by (rule less_trans [of _ 10]) simp_all
  ultimately show ?thesis by (simp only: mod_add_self2) simp
qed

lemma k10Vector_list: "k10Vector = [10, 10, 10, 10, 10, 10, 10, 10]"
  by (simp add: k10Vector_def replicate_num)

text \<open>The four digits of one half, as the last three vector operations leave them.\<close>

definition half_digits :: "nat \<Rightarrow> nat list" where
  "half_digits x = [x div 1000, x div 100 mod 10, x div 10 mod 10, x mod 10]"

lemma Convert8Digits_half_digits:
  assumes "v < 100000000"
  shows "Convert8DigitsSSE2 v = half_digits (v div 10000) @ half_digits (v mod 10000)"
proof -
  let ?a = "v div 10000" and ?e = "v mod 10000"
  have a: "?a < 10000" and e: "?e < 10000" using assms by (simp_all add: less_mult_imp_div_less)
  let ?v4 = "[?a div 1000, ?a div 100, ?a div 10, ?a, ?e div 1000, ?e div 100, ?e div 10, ?e]"
  let ?v5 = "[?a div 1000 * 10, ?a div 100 * 10, ?a div 10 * 10, ?a * 10 mod 2 ^ 16, ?e div 1000 * 10, ?e div 100 * 10, ?e div 10 * 10, ?e * 10 mod 2 ^ 16]"
  have B: "(2::nat) ^ 16 = 65536" by simp
  have small: "x div 1000 * 10 < 2 ^ 16" "x div 100 * 10 < 2 ^ 16" "x div 10 * 10 < 2 ^ 16" "x < 2 ^ 16"
    "x div 100 < 2 ^ 16" "x div 10 < 2 ^ 16" "x div 1000 < 2 ^ 16" if "x < 10000" for x :: nat
    unfolding B using that div_le_dividend [of x 1000] div_le_dividend [of x 100] div_le_dividend [of x 10]
      div_times_less_eq_dividend [of x 1000] div_times_less_eq_dividend [of x 100] div_times_less_eq_dividend [of x 10]
    by - linarith+
  have v4: "mm_mulhi_epu16 (mm_mulhi_epu16 [?a * 4, ?a * 4, ?a * 4, ?a * 4, ?e * 4, ?e * 4, ?e * 4, ?e * 4] kDivPowersVector) kShiftPowersVector = ?v4"
    using quotients [OF a] quotients [OF e]
    by (simp only: mm_mulhi_epu16_def kDivPowersVector_def kShiftPowersVector_def zip.simps list.case list.map prod.case) simp
  have v5: "mm_mullo_epi16 ?v4 k10Vector = ?v5"
    by (simp only: mm_mullo_epi16_def k10Vector_list zip.simps list.case list.map prod.case
        small(1,2,3) [OF a, THEN mod_less] small(1,2,3) [OF e, THEN mod_less])
  have v6: "mm_slli_epi64 ?v5 16 = [0, ?a div 1000 * 10, ?a div 100 * 10, ?a div 10 * 10, 0, ?e div 1000 * 10, ?e div 100 * 10, ?e div 10 * 10]"
  proof -
    have l: "lane64 (p # q # r # t # us) 0 = p + 2 ^ 16 * q + 2 ^ 32 * r + 2 ^ 48 * t" for p q r t us
      by (simp add: lane64_def numeral_2_eq_2 numeral_3_eq_3)
    have l1: "lane64 (p' # q' # r' # t' # p # q # r # t # us) 1 = p + 2 ^ 16 * q + 2 ^ 32 * r + 2 ^ 48 * t" for p q r t us p' q' r' t'
      by (simp add: lane64_def)
    show ?thesis
      unfolding mm_slli_epi64_def l l1 using shift_lane [OF small(1,2,3) [OF a]] shift_lane [OF small(1,2,3) [OF e]] by simp
  qed
  have v7: "mm_sub_epi16 ?v4 [0, ?a div 1000 * 10, ?a div 100 * 10, ?a div 10 * 10, 0, ?e div 1000 * 10, ?e div 100 * 10, ?e div 10 * 10]
      = half_digits ?a @ half_digits ?e"
  proof -
    have z: "(x + 2 ^ 16 - 0) mod 2 ^ 16 = x" if "x < 2 ^ 16" for x :: nat using that by simp
    have t: "x div 1000 = x div 100 div 10" "x div 100 = x div 10 div 10" for x :: nat by (simp_all add: div_mult2_eq [symmetric])
    have sub: "(x div 100 + 2 ^ 16 - x div 1000 * 10) mod 2 ^ 16 = x div 100 mod 10" "(x div 10 + 2 ^ 16 - x div 100 * 10) mod 2 ^ 16 = x div 10 mod 10"
      "(x + 2 ^ 16 - x div 10 * 10) mod 2 ^ 16 = x mod 10" if "x < 10000" for x :: nat
      using minus_ten_div [OF small(5) [OF that]] minus_ten_div [OF small(6) [OF that]] minus_ten_div [OF small(4) [OF that]]
      by (simp_all only: t)
    show ?thesis
      unfolding half_digits_def mm_sub_epi16_def
      by (simp only: zip.simps list.case list.map prod.case z [OF small(7) [OF a]] z [OF small(7) [OF e]] sub [OF a] sub [OF e] append.simps)
  qed
  show ?thesis
    unfolding Convert8DigitsSSE2_def Let_def srli_block [OF assms] sub_block [OF assms]
    by (simp add: mm_unpacklo_epi16_def mm_unpacklo_epi32_def shift2_block [OF a e] del: One_nat_def)
       (simp only: v4 v5 v6 v7)
qed

lemma digs_mod: "digs k (n mod 10 ^ k) = digs k n"
proof (induction k arbitrary: n)
  case 0
  then show ?case by simp
next
  case (Suc k)
  have "n mod 10 ^ Suc k = 10 * (n div 10 mod 10 ^ k) + n mod 10" using mod_mult2_eq [of n 10 "10 ^ k"] by simp
  then have "n mod 10 ^ Suc k div 10 = n div 10 mod 10 ^ k" "n mod 10 ^ Suc k mod 10 = n mod 10" by simp_all
  with Suc.IH [of "n div 10"] show ?case by (simp only: digs.simps)
qed

definition ascii_digits :: "nat list \<Rightarrow> u8 list" where
  "ascii_digits ds = map (\<lambda>x. (if 2 ^ 15 \<le> x then 0 else word_of_nat (min 255 x)) + 48) ds"

lemma ascii_half:
  assumes "x < 10000"
  shows "ascii_digits (half_digits x) = digs 4 x"
proof -
  have d: "(if 2 ^ 15 \<le> y then 0 else word_of_nat (min 255 y)) + 48 = (48 + word_of_nat y :: u8)" if "y < 10" for y
    using that by simp
  have m: "x mod 100 = 10 * (x div 10 mod 10) + x mod 10" using mod_mult2_eq [of x 10 10] by simp
  have b: "x div 1000 < 10" using assms by (simp add: less_mult_imp_div_less)
  have e: "x div 100 div 10 = x div 1000" "x mod 100 div 10 = x div 10 mod 10" "x mod 100 mod 10 = x mod 10"
    by (simp_all add: m div_mult2_eq [symmetric])
  show ?thesis
    unfolding digs_4(4) [OF assms] ascii_digits_def half_digits_def e list.map
    using b by (simp only: d mod_less_divisor zero_less_numeral)
qed

lemma ascii_append: "ascii_digits (xs @ ys) = ascii_digits xs @ ascii_digits ys"
  by (simp add: ascii_digits_def)

lemma ascii_convert:
  assumes "v < 100000000"
  shows "ascii_digits (Convert8DigitsSSE2 v) = digs 8 v"
proof -
  have b: "v div 10000 < 10000" "v mod 10000 < 10000" using assms by (simp_all add: less_mult_imp_div_less)
  have "digs 8 v = digs 4 (v div 10 ^ 4) @ digs 4 (v mod 10 ^ 4)"
    using digs_append [of 4 4 v] unfolding digs_mod [of 4 v] by (simp only: numeral_plus_numeral add_num_simps)
  moreover have "(10::nat) ^ 4 = 10000" by simp
  ultimately show ?thesis
    using b by (simp only: Convert8Digits_half_digits [OF assms] ascii_append ascii_half)
qed

lemma length_Convert8 [simp]: "v < 100000000 \<Longrightarrow> length (Convert8DigitsSSE2 v) = 8"
  by (simp add: Convert8Digits_half_digits half_digits_def)

lemma ascii_pack:
  assumes "length xs + length ys = 16"
  shows "mm_add_epi8 (mm_packus_epi16 xs ys) kAsciiZero = ascii_digits (xs @ ys)"
proof -
  have "map2 (+) (map f zs) (replicate n c) = map (\<lambda>x. f x + c) zs" if "length zs = n" for f :: "nat \<Rightarrow> u8" and zs n c
    using that by (intro nth_equalityI) simp_all
  from this [of "xs @ ys" 16] assms show ?thesis
    unfolding mm_add_epi8_def mm_packus_epi16_def kAsciiZero_def ascii_digits_def by simp
qed

lemma block8_digs: "v < 100000000 \<Longrightarrow> block8 v = digs 8 v"
proof -
  assume v: "v < 100000000"
  have "ascii_digits (replicate 8 0 @ Convert8DigitsSSE2 v) = ascii_digits (replicate 8 0) @ digs 8 v"
    using ascii_convert [OF v] by (simp add: ascii_digits_def del: digs_numeral)
  then show ?thesis
    using v by (simp add: block8_def ascii_pack mm_srli_si128_def ascii_digits_def del: digs_numeral)
qed

lemma digits16_digs:
  assumes "v < 10000000000000000"
  shows "digits16 v = digs 16 v"
proof -
  have b: "v div 100000000 < 100000000" "v mod 100000000 < 100000000" using assms by (simp_all add: less_mult_imp_div_less)
  have "digs 16 v = digs 8 (v div 10 ^ 8) @ digs 8 (v mod 10 ^ 8)"
    using digs_append [of 8 8 v] unfolding digs_mod [of 8 v] by (simp only: numeral_plus_numeral add_num_simps)
  moreover have "(10::nat) ^ 8 = 100000000" by simp
  moreover have "digits16 v = ascii_digits (Convert8DigitsSSE2 (v div 100000000) @ Convert8DigitsSSE2 (v mod 100000000))"
    unfolding digits16_def using b by (intro ascii_pack) simp
  ultimately show ?thesis using b by (simp only: ascii_append ascii_convert)
qed

section \<open>Leading zeros\<close>

lemma takeWhile_index:
  assumes "k < n" and "k \<le> length xs"
  shows "length (takeWhile (\<lambda>i. i < k \<and> Q (xs ! i)) [0..<n]) = length (takeWhile Q (take k xs))"
proof -
  let ?P = "\<lambda>i. i < k \<and> Q (xs ! i)"
  have s: "[0..<n] = [0..<k] @ k # [Suc k..<n]"
    using assms(1) upt_add_eq_append [of 0 k "n - k"] upt_conv_Cons [of k n] by simp
  have "takeWhile ?P [0..<n] = takeWhile ?P [0..<k]"
    unfolding s by (simp add: takeWhile_append) (metis (no_types, lifting) atLeastLessThan_iff set_upt takeWhile_eq_all_conv)
  also have "\<dots> = takeWhile (\<lambda>i. Q (xs ! i)) [0..<k]" by (rule takeWhile_cong) simp_all
  finally have "length (takeWhile ?P [0..<n]) = length (takeWhile Q (map (\<lambda>i. xs ! i) [0..<k]))"
    by (simp add: takeWhile_map comp_def)
  moreover have "map (\<lambda>i. xs ! i) [0..<k] = take k xs" using assms(2) by (intro nth_equalityI) simp_all
  ultimately show ?thesis by simp
qed

lemma ctz_digits:
  assumes "length va = 16"
  shows "builtin_ctz (NOT (mm_cmpeq_movemask va kAsciiZero) OR 0x8000) = length (takeWhile (\<lambda>c. c = 48) (take 15 va))"
proof -
  let ?w = "NOT (mm_cmpeq_movemask va kAsciiZero) OR 0x8000 :: u32"
  have p15: "(0x8000 :: u32) = 2 ^ 15" by simp
  have "\<not> bit ?w i \<longleftrightarrow> i < 15 \<and> va ! i = 48" if "i < 32" for i
  proof -
    have "bit (mm_cmpeq_movemask va kAsciiZero) i \<longleftrightarrow> i < 16 \<and> va ! i = 48"
      using that assms by (auto simp: mm_cmpeq_movemask_def bit_horner_sum_bit_word_iff kAsciiZero_def)
    moreover have "bit (0x8000 :: u32) i \<longleftrightarrow> i = 15" using that by (simp only: p15 bit_exp_iff) auto
    ultimately show ?thesis using that by (auto simp: bit_or_iff bit_not_iff)
  qed
  then have "takeWhile (\<lambda>i. \<not> bit ?w i) [0..<32] = takeWhile (\<lambda>i. i < 15 \<and> va ! i = 48) [0..<32]"
    by (intro takeWhile_cong) simp_all
  then show ?thesis using takeWhile_index [of 15 32 va "\<lambda>c. c = 48"] assms by (simp add: builtin_ctz_def)
qed

lemma dec_nonempty: "dec n \<noteq> []"
  by (simp add: dec.simps)

lemma hd_dec:
  assumes "0 < n"
  shows "hd (dec n) \<noteq> 48"
  using assms
proof (induction n rule: dec.induct)
  case (1 n)
  show ?case
  proof (cases "n < 10")
    case True
    have "unat (word_of_nat n :: u8) = n" using True by (simp add: unat_of_nat)
    with 1 have "word_of_nat n \<noteq> (0 :: u8)" by auto
    with True show ?thesis by (simp add: dec.simps [of n])
  next
    case False
    with 1 show ?thesis by (simp add: dec.simps [of n] dec_nonempty)
  qed
qed

lemma dec_length_le: "n < 10 ^ Suc k \<Longrightarrow> length (dec n) \<le> Suc k"
proof (induction k arbitrary: n)
  case 0
  then show ?case by (simp add: dec.simps)
next
  case (Suc k)
  then have "length (dec (n div 10)) \<le> Suc k" by (simp add: less_mult_imp_div_less)
  then show ?case by (simp add: dec.simps [of n])
qed

lemma dec_length_ge: "10 ^ k \<le> n \<Longrightarrow> Suc k \<le> length (dec n)"
proof (induction k arbitrary: n)
  case 0
  then show ?case using dec_nonempty [of n] by (simp add: Suc_le_eq)
next
  case (Suc k)
  have "10 \<le> n" using Suc.prems by (meson le_trans one_le_numeral self_le_power zero_less_Suc)
  moreover have "Suc k \<le> length (dec (n div 10))" using Suc by (simp add: less_eq_div_iff_mult_less_eq)
  ultimately show ?case by (simp add: dec.simps [of n])
qed

lemma digs_zero: "digs k 0 = replicate k 48"
  by (induction k) (simp_all add: replicate_append_same)

lemma digs_dec: "0 < n \<Longrightarrow> n < 10 ^ k \<Longrightarrow> digs k n = replicate (k - length (dec n)) 48 @ dec n"
proof (induction k arbitrary: n)
  case 0
  then show ?case by simp
next
  case (Suc k)
  show ?case
  proof (cases "n < 10")
    case True
    then show ?thesis by (simp add: dec.simps [of n] digs_zero)
  next
    case False
    then have "digs k (n div 10) = replicate (k - length (dec (n div 10))) 48 @ dec (n div 10)"
      using Suc.prems by (intro Suc.IH) (simp_all add: less_mult_imp_div_less)
    with False show ?thesis by (simp add: dec.simps [of n])
  qed
qed

lemma ctz_leading_zeros:
  assumes "10 ^ 8 \<le> v" and "v < 10 ^ 16"
  defines "z \<equiv> 16 - length (dec v)"
  shows "builtin_ctz (NOT (mm_cmpeq_movemask (digs 16 v) kAsciiZero) OR 0x8000) = z" and "z \<le> 7"
    and "length (dec v) = 16 - z" and "digs 16 v = replicate z 48 @ dec v"
proof -
  have l: "9 \<le> length (dec v)" using dec_length_ge [OF assms(1)] by simp
  have u: "length (dec v) \<le> 16" using dec_length_le [of v 15] assms(2) by simp
  show "z \<le> 7" and len: "length (dec v) = 16 - z" using l u by (simp_all add: z_def)
  show d: "digs 16 v = replicate z 48 @ dec v" using digs_dec [of v 16] assms by (simp add: z_def del: digs_numeral)
  have v: "0 < v" using assms(1) by simp
  obtain c cs where c: "dec v = c # cs" using dec_nonempty [of v] by (cases "dec v") auto
  have c48: "c \<noteq> 48" using hd_dec [OF v] c by simp
  have z15: "z < 15" using l by (simp add: z_def)
  have "take 15 (replicate z (48 :: u8) @ dec v) = replicate z 48 @ c # take (14 - z) cs"
    using z15 c by (simp add: take_Cons')
  then have "length (takeWhile (\<lambda>c. c = 48) (take 15 (digs 16 v))) = z"
    unfolding d using c48 by (simp add: takeWhile_append)
  then show "builtin_ctz (NOT (mm_cmpeq_movemask (digs 16 v) kAsciiZero) OR 0x8000) = z"
    using ctz_digits [of "digs 16 v"] by (simp del: digs_numeral)
qed

section \<open>What is left in memory\<close>

text \<open>\<open>string_at m dest l cs\<close>: the \<open>l\<close> bytes at \<open>dest\<close> are \<open>cs\<close> and a terminating zero.\<close>

definition string_at :: "mem \<Rightarrow> nat \<Rightarrow> nat \<Rightarrow> u8 list \<Rightarrow> bool" where
  "string_at m dest l cs \<longleftrightarrow> l = length cs + 1 \<and> read_bytes m dest l = cs @ [0]"

definition untouched :: "mem \<Rightarrow> mem \<Rightarrow> nat \<Rightarrow> nat \<Rightarrow> bool" where
  "untouched m m' from len \<longleftrightarrow> (\<forall>a. a < from \<or> from + len \<le> a \<longrightarrow> m' a = m a)"

lemma string_at_write: "string_at (write_bytes m dest (cs @ [0])) dest (length cs + 1) cs"
  using write_bytes_same [of m dest "cs @ [0]"] by (simp add: string_at_def)

lemma untouched_write: "length bs \<le> len \<Longrightarrow> untouched m (write_bytes m dest bs) dest len"
  by (simp add: untouched_def write_bytes_def)

lemma u32toa_ok:
  "\<exists>l m'. u32toa_sse2 value m dest = (l, m') \<and> string_at m' dest l (dec (unat value)) \<and> untouched m m' dest 11"
proof -
  let ?v = "unat value"
  have v: "?v < 2 ^ 32" using unat_bound [of "value"] by simp
  have b: "?v div 100000000 < 100" "?v mod 100000000 < 100000000" using v by (simp_all add: less_mult_imp_div_less)
  have "(if ?v < 10000 then digits4 ?v @ [0] else if ?v < 100000000 then digits8 ?v @ [0]
      else digits2 (?v div 100000000) @ block8 (?v mod 100000000) @ [0]) = dec ?v @ [0]"
  proof (cases "?v < 100000000")
    case True
    then show ?thesis by (simp add: digits4_dec digits8_dec)
  next
    case False
    then have "0 < ?v div 100000000" by (simp add: div_greater_zero_iff)
    then have "dec (?v div 100000000 * 10 ^ 8 + ?v mod 100000000) = dec (?v div 100000000) @ digs 8 (?v mod 100000000)"
      using b(2) by (intro dec_append) simp_all
    moreover have "?v div 100000000 * 10 ^ 8 + ?v mod 100000000 = ?v" by simp
    ultimately show ?thesis using False by (simp only: digits2_dec [OF b(1)] block8_digs [OF b(2)]) simp
  qed
  moreover have "length (dec ?v) \<le> 10" using dec_length_le [of ?v 9] v by simp
  ultimately show ?thesis
    using string_at_write [of m dest "dec ?v"] untouched_write [of "dec ?v @ [0]" 11 m dest]
    by (simp add: u32toa_sse2_def Let_def)
qed

lemma u64_prefix:
  assumes "0 < a" and "a < 10000"
  shows "(if a < 10 then [48 + word_of_nat a]
     else if a < 100 then [gDigitsLut ! (a * 2), gDigitsLut ! (a * 2 + 1)]
     else if a < 1000 then [48 + word_of_nat (a div 100), gDigitsLut ! ((a mod 100) * 2), gDigitsLut ! ((a mod 100) * 2 + 1)]
     else [gDigitsLut ! ((a div 100) * 2), gDigitsLut ! ((a div 100) * 2 + 1),
           gDigitsLut ! ((a mod 100) * 2), gDigitsLut ! ((a mod 100) * 2 + 1)]) = dec a"
proof -
  have b: "a div 100 < 100" "a mod 100 < 100" using assms by (simp_all add: less_mult_imp_div_less)
  note l = lut [OF b(1)] lut [OF b(2)]
  have c: "a div 100 * 2 = (a div 100) * 2" by simp
  show ?thesis
  proof (cases "a < 100")
    case True
    then show ?thesis using digits2_dec [of a] by (auto simp: digits2_def split: if_splits)
  next
    case False
    show ?thesis
    proof (cases "a < 1000")
      case True
      then have "a div 100 < 10" by (simp add: less_mult_imp_div_less)
      then have "a div 100 mod 10 = a div 100" by simp
      then show ?thesis
        using False True digits4_dec [OF assms(2)] by (simp add: digits4_def l Let_def)
    next
      case big: False
      then show ?thesis using digits4_dec [OF assms(2)] by (simp add: digits4_def l Let_def)
    qed
  qed
qed

lemma u64toa_ok:
  "\<exists>l m'. u64toa_sse2 value m dest = (l, m') \<and> string_at m' dest l (dec (unat value)) \<and> untouched m m' dest 21"
proof -
  let ?v = "unat value"
  have v: "?v < 2 ^ 64" using unat_bound [of "value"] by simp
  consider "?v < 10 ^ 8" | "10 ^ 8 \<le> ?v" "?v < 10 ^ 16" | "10 ^ 16 \<le> ?v" by linarith
  then show ?thesis
  proof cases
    case 1
    then have "(if ?v < 10000 then digits4 ?v else digits8 ?v) = dec ?v" by (simp add: digits4_dec digits8_dec)
    moreover have "length (dec ?v) \<le> 20" using dec_length_le [of ?v 7] 1 by simp
    ultimately show ?thesis
      using 1 string_at_write [of m dest "dec ?v"] untouched_write [of "dec ?v @ [0]" 21 m dest]
      by (simp add: u64toa_sse2_def Let_def)
  next
    case 2
    define z where "z = 16 - length (dec ?v)"
    note c = ctz_leading_zeros [OF 2, folded z_def]
    have sh: "ShiftDigits_SSE2 (digs 16 ?v) z = dec ?v @ replicate z 0"
      using c(2) by (auto simp: ShiftDigits_SSE2_def mm_srli_si128_def c(4) simp del: digs_numeral)
    let ?L = "length (dec ?v)"
    let ?m = "(write_bytes m dest (dec ?v @ replicate z 0))(dest + ?L := 0)"
    have L: "16 - z = ?L" "?L \<le> 16" "z + ?L = 16" using c(2,3) by simp_all
    have eq: "u64toa_sse2 value m dest = (?L + 1, ?m)"
      using 2 c(1) sh L(1) by (simp add: u64toa_sse2_def Let_def digits16_digs del: digs_numeral)
    have "?m (dest + i) = dec ?v ! i" if "i < ?L" for i using that by (simp add: write_bytes_def nth_append)
    then have "read_bytes ?m dest (?L + 1) = dec ?v @ [0]"
      by (intro nth_equalityI) (auto simp: nth_append less_Suc_eq simp del: fun_upd_apply, simp)
    moreover have "untouched m ?m dest 21" using L(2,3) by (simp add: untouched_def write_bytes_def)
    ultimately show ?thesis using eq by (simp add: string_at_def)
  next
    case 3
    let ?a = "?v div 10 ^ 16" and ?r = "?v mod 10 ^ 16"
    have a: "0 < ?a" "?a < 10000" "?r < 10 ^ 16" using 3 v by (simp_all add: less_mult_imp_div_less div_greater_zero_iff)
    have "dec (?a * 10 ^ 16 + ?r) = dec ?a @ digs 16 ?r" using a by (intro dec_append)
    then have d: "dec ?v = dec ?a @ digs 16 ?r" by (simp only: div_mult_mod_eq)
    have n: "(10::nat) ^ 16 = 10000000000000000" by simp
    have "digits16 ?r = digs 16 ?r" using a(3) unfolding n by (rule digits16_digs)
    then have "u64toa_sse2 value m dest = (length (dec ?v) + 1, write_bytes m dest (dec ?v @ [0]))"
      using 3 u64_prefix [OF a(1,2)] unfolding u64toa_sse2_def Let_def d n by (simp del: digs_numeral)
    moreover have "length (dec ?v) \<le> 20" using dec_length_le [of ?v 19] v by simp
    ultimately show ?thesis
      using string_at_write [of m dest "dec ?v"] untouched_write [of "dec ?v @ [0]" 21 m dest] by simp
  qed
qed

text \<open>The decimal text of a signed number.\<close>

definition sdec :: "int \<Rightarrow> u8 list" where
  "sdec i = (if i < 0 then 45 # dec (nat (- i)) else dec (nat i))"

lemma unat_negate:
  fixes w :: "'a::len word"
  assumes "sint w < 0"
  shows "unat (NOT w + 1) = nat (- sint w)"
proof -
  have "NOT w + 1 = word_of_int (- sint w)" by (simp add: not_eq_complement)
  moreover have "0 \<le> - sint w" using assms by simp
  moreover have "- sint w < 2 ^ LENGTH('a)"
  proof -
    have "- (2 ^ (LENGTH('a) - Suc 0)) \<le> sint w" by (rule sint_greater_eq)
    moreover have "(2::int) ^ (LENGTH('a) - Suc 0) < 2 ^ LENGTH('a)" by (intro power_strict_increasing) simp_all
    ultimately show ?thesis by linarith
  qed
  ultimately show ?thesis by (simp only: unat_eq_nat_uint uint_word_of_int_eq take_bit_int_eq_self)
qed

lemma unat_nonneg:
  fixes w :: "'a::len word"
  assumes "0 \<le> sint w"
  shows "unat w = nat (sint w)"
proof -
  have "w = word_of_int (sint w)" by simp
  moreover have "sint w < 2 ^ LENGTH('a)"
  proof -
    have "(2::int) ^ (LENGTH('a) - Suc 0) < 2 ^ LENGTH('a)" by (intro power_strict_increasing) simp_all
    with sint_less [of w] show ?thesis by linarith
  qed
  ultimately show ?thesis using assms by (metis take_bit_int_eq_self uint_word_of_int_eq unat_eq_nat_uint)
qed

lemma signed_string:
  assumes "string_at m' (Suc dest) l cs" and "untouched (m(dest := c)) m' (Suc dest) n"
  shows "string_at m' dest (Suc l) (c # cs)" and "untouched m m' dest (Suc n)"
proof -
  have m: "m' dest = c" using assms(2) by (simp add: untouched_def)
  have l: "l = length cs + 1" and r: "read_bytes m' (Suc dest) l = cs @ [0]" using assms(1) unfolding string_at_def by blast+
  have "read_bytes m' dest (Suc l) = m' dest # read_bytes m' (Suc dest) l"
    by (simp add: read_bytes_def upt_conv_Cons map_Suc_upt [symmetric] del: upt_Suc)
  then show "string_at m' dest (Suc l) (c # cs)" using m r l by (simp add: string_at_def)
  show "untouched m m' dest (Suc n)" using assms(2) by (auto simp: untouched_def)
qed

lemma i32toa_ok:
  "\<exists>l m'. i32toa_sse2 value m dest = (l, m') \<and> string_at m' dest l (sdec (sint value)) \<and> untouched m m' dest 12"
proof (cases "sint value < 0")
  case True
  from u32toa_ok [of "NOT value + 1" "m(dest := 45)" "dest + 1"] obtain l m'
    where "u32toa_sse2 (NOT value + 1) (m(dest := 45)) (dest + 1) = (l, m')"
      "string_at m' (Suc dest) l (dec (nat (- sint value)))" "untouched (m(dest := 45)) m' (Suc dest) 11"
    using unat_negate [OF True] by auto
  with signed_string [OF this(2,3)] True show ?thesis by (simp add: i32toa_sse2_def sdec_def)
next
  case False
  with u32toa_ok [of "value" m dest] unat_nonneg [of "value"] show ?thesis
    by (auto simp: i32toa_sse2_def sdec_def untouched_def)
qed

lemma i64toa_ok:
  "\<exists>l m'. i64toa_sse2 value m dest = (l, m') \<and> string_at m' dest l (sdec (sint value)) \<and> untouched m m' dest 22"
proof (cases "sint value < 0")
  case True
  from u64toa_ok [of "NOT value + 1" "m(dest := 45)" "dest + 1"] obtain l m'
    where "u64toa_sse2 (NOT value + 1) (m(dest := 45)) (dest + 1) = (l, m')"
      "string_at m' (Suc dest) l (dec (nat (- sint value)))" "untouched (m(dest := 45)) m' (Suc dest) 21"
    using unat_negate [OF True] by auto
  with signed_string [OF this(2,3)] True show ?thesis by (simp add: i64toa_sse2_def sdec_def)
next
  case False
  with u64toa_ok [of "value" m dest] unat_nonneg [of "value"] show ?thesis
    by (auto simp: i64toa_sse2_def sdec_def untouched_def)
qed

text \<open>Reading a decimal text back.\<close>

definition dec_value :: "u8 list \<Rightarrow> nat" where
  "dec_value cs = foldl (\<lambda>a c. a * 10 + (unat c - 48)) 0 cs"

lemma unat_digit: "d < 10 \<Longrightarrow> unat (48 + word_of_nat d :: u8) = 48 + d"
  by (simp add: unat_word_ariths unat_of_nat)

lemma dec_value_dec: "dec_value (dec n) = n"
proof (induction n rule: dec.induct)
  case (1 n)
  show ?case
  proof (cases "n < 10")
    case True
    then show ?thesis by (simp add: dec.simps [of n] dec_value_def unat_digit)
  next
    case False
    with 1 show ?thesis by (simp add: dec.simps [of n] dec_value_def unat_digit)
  qed
qed

section \<open>Claims\<close>

text \<open>
  C23: for every 32-bit and every 64-bit value, \<^verbatim>\<open>u32toa_sse2\<close> and \<^verbatim>\<open>u64toa_sse2\<close> write the decimal digits of
  the value, without leading zeros, and a terminating zero at \<^verbatim>\<open>dest\<close>, return the number of bytes of
  this string, change no byte outside the first 11 and 21 from \<^verbatim>\<open>dest\<close> (whole vectors are stored, so bytes behind the
  terminator may change), and the digits read back as the value.
\<close>

theorem utoa_writes_decimal:
  "(\<exists>l m'. u32toa_sse2 v m dest = (l, m') \<and> string_at m' dest l (dec (unat v)) \<and> untouched m m' dest 11)
   \<and> (\<exists>l m'. u64toa_sse2 w m dest = (l, m') \<and> string_at m' dest l (dec (unat w)) \<and> untouched m m' dest 21)
   \<and> dec_value (dec (unat w)) = unat w"
  using u32toa_ok u64toa_ok dec_value_dec by blast

text \<open>
  For every signed 32-bit and 64-bit value, the most negative one included, \<^verbatim>\<open>i32toa_sse2\<close> and
  \<^verbatim>\<open>i64toa_sse2\<close> write the decimal text of the value, with a minus sign when it is negative, and a
  terminating zero, and return the number of bytes written.
\<close>

theorem itoa_writes_signed_decimal:
  "(\<exists>l m'. i32toa_sse2 v m dest = (l, m') \<and> string_at m' dest l (sdec (sint v)) \<and> untouched m m' dest 12)
   \<and> (\<exists>l m'. i64toa_sse2 w m dest = (l, m') \<and> string_at m' dest l (sdec (sint w)) \<and> untouched m m' dest 22)"
  using i32toa_ok i64toa_ok by blast

text \<open>
  The SSE2 kernel \<^verbatim>\<open>Convert8DigitsSSE2\<close>, which divides by multiplying with fixed-point reciprocals,
  computes exactly the eight decimal digits of every value its assertion admits.
\<close>

theorem Convert8DigitsSSE2_digits:
  assumes "v < 100000000"
  shows "map (\<lambda>d. 48 + word_of_nat d) (Convert8DigitsSSE2 v) = digs 8 v \<and> (\<forall>d \<in> set (Convert8DigitsSSE2 v). d < 10)"
proof -
  have small: "\<forall>d \<in> set (Convert8DigitsSSE2 v). d < 10"
    using assms by (auto simp: Convert8Digits_half_digits half_digits_def less_mult_imp_div_less)
  then have "map (\<lambda>d. 48 + word_of_nat d) (Convert8DigitsSSE2 v) = ascii_digits (Convert8DigitsSSE2 v)"
    unfolding ascii_digits_def by (intro map_cong refl) (force simp: add.commute min_def)
  with small ascii_convert [OF assms] show ?thesis by metis
qed

theorem Convert8DigitsSSE2_digits_witness:
  "map (\<lambda>d. 48 + word_of_nat d) (Convert8DigitsSSE2 12345678) = digs 8 12345678"
  by (rule conjunct1 [OF Convert8DigitsSSE2_digits]) simp

text \<open>
  The backward variant \<^verbatim>\<open>u32toa_sse2_b\<close> writes the digits so that they end just before \<^verbatim>\<open>dest\<close> and
  returns their number plus one; it stores the terminating zero at \<^verbatim>\<open>dest\<close> only for values below
  $10^8$ and leaves the old byte there otherwise.
\<close>

theorem u32toa_backward:
  assumes "11 \<le> dest"
  shows "\<exists>l m'. u32toa_sse2_b v m dest = (l, m') \<and> l = length (dec (unat v)) + 1
    \<and> read_bytes m' (dest + 1 - l) (l - 1) = dec (unat v) \<and> m' dest = (if unat v < 100000000 then 0 else m dest)"
proof -
  let ?v = "unat v"
  have v: "?v < 2 ^ 32" using unat_bound [of v] by simp
  have len: "length (dec ?v) \<le> 10" using dec_length_le [of ?v 9] v by simp
  let ?d = "dest - length (dec ?v)"
  have rd: "read_bytes (write_bytes m ?d (dec ?v @ xs)) ?d (length (dec ?v)) = dec ?v" for xs
    by (rule nth_equalityI) (simp_all add: write_bytes_def nth_append)
  show ?thesis
  proof (cases "?v < 100000000")
    case True
    then have eq: "u32toa_sse2_b v m dest = (length (dec ?v) + 1, write_bytes m ?d (dec ?v @ [0]))"
      by (auto simp: u32toa_sse2_b_def Let_def digits4_dec digits8_dec)
    have "write_bytes m ?d (dec ?v @ [0]) dest = 0" using len assms by (simp add: write_bytes_def nth_append)
    with eq rd [of "[0]"] True show ?thesis by simp
  next
    case False
    have b: "?v div 100000000 < 100" "?v mod 100000000 < 100000000" using v by (simp_all add: less_mult_imp_div_less)
    have "0 < ?v div 100000000" using False by (simp add: div_greater_zero_iff)
    then have "dec (?v div 100000000 * 10 ^ 8 + ?v mod 100000000) = dec (?v div 100000000) @ digs 8 (?v mod 100000000)"
      using b(2) by (intro dec_append) simp_all
    moreover have "?v div 100000000 * 10 ^ 8 + ?v mod 100000000 = ?v" by simp
    ultimately have "digits2 (?v div 100000000) @ block8 (?v mod 100000000) = dec ?v"
      by (simp only: digits2_dec [OF b(1)] block8_digs [OF b(2)])
    with False have eq: "u32toa_sse2_b v m dest = (length (dec ?v) + 1, write_bytes m ?d (dec ?v))"
      by (simp add: u32toa_sse2_b_def Let_def)
    have "write_bytes m ?d (dec ?v) dest = m dest" using len assms by (simp add: write_bytes_def)
    with eq rd [of "[]"] False show ?thesis by simp
  qed
qed

theorem u32toa_backward_witness:
  "\<exists>l m'. u32toa_sse2_b 100000000 (\<lambda>_. 7) 20 = (l, m') \<and> m' 20 = 7"
  using u32toa_backward [of 20 100000000 "\<lambda>_. 7"] by auto

end
