(* ===== verification/DateTime.thy ===== *)
theory DateTime
  imports ItoaSse "HOL-Library.Product_Lexorder"
begin

unbundle bit_operations_syntax

text \<open>
  The time types of \<^verbatim>\<open>meta/columnType.h\<close>: \<^verbatim>\<open>timestamp\<close>, \<^verbatim>\<open>dateTime\<close>, \<^verbatim>\<open>Time\<close> and \<^verbatim>\<open>Date\<close> are bit fields
  packed into a 64- or 32-bit word, lowest field first, and are printed with the conversions of
  \<^verbatim>\<open>util/itoaSse.h\<close>.  The theory shows that the fields stored by the constructors are read back,
  that the packed words of \<^verbatim>\<open>dateTime\<close> compare as their fields do, and what the \<^verbatim>\<open>toString\<close> members write.
\<close>

section \<open>Bit fields\<close>

definition bf_get :: "'a::len word \<Rightarrow> nat \<Rightarrow> nat \<Rightarrow> nat" where
  "bf_get w off width = unat (take_bit width (drop_bit off w))"

definition bf_set :: "'a::len word \<Rightarrow> nat \<Rightarrow> nat \<Rightarrow> nat \<Rightarrow> 'a word" where
  "bf_set w off width v = (w AND NOT (push_bit off (mask width))) OR push_bit off (take_bit width (word_of_nat v))"

text \<open>A signed field holds two's complement.\<close>

definition sbf_get :: "'a::len word \<Rightarrow> nat \<Rightarrow> nat \<Rightarrow> int" where
  "sbf_get w off width =
     (let v = int (bf_get w off width) in if 2 ^ (width - 1) \<le> v then v - 2 ^ width else v)"

definition sbf_set :: "'a::len word \<Rightarrow> nat \<Rightarrow> nat \<Rightarrow> int \<Rightarrow> 'a word" where
  "sbf_set w off width v = bf_set w off width (nat (v mod 2 ^ width))"

lemma bf_get_set_same:
  fixes w :: "'a::len word"
  assumes "off + width \<le> LENGTH('a)"
  shows "bf_get (bf_set w off width v) off width = v mod 2 ^ width"
proof -
  have "take_bit width (drop_bit off (bf_set w off width v)) = take_bit width (word_of_nat v :: 'a word)"
    using assms by (intro bit_word_eqI) (auto simp: bf_set_def bit_simps)
  moreover have "unat (take_bit width (word_of_nat v :: 'a word)) = v mod 2 ^ width"
    using assms by (simp add: unsigned_take_bit_eq unat_of_nat take_bit_eq_mod take_bit_take_bit
        flip: take_bit_eq_mod) 
  ultimately show ?thesis by (simp add: bf_get_def)
qed

lemma bf_get_set_other:
  fixes w :: "'a::len word"
  assumes "off + width \<le> off' \<or> off' + width' \<le> off" and "off + width \<le> LENGTH('a)"
  shows "bf_get (bf_set w off' width' v) off width = bf_get w off width"
proof -
  have "take_bit width (drop_bit off (bf_set w off' width' v)) = take_bit width (drop_bit off w)"
    using assms by (intro bit_word_eqI) (auto simp: bf_set_def bit_simps)
  then show ?thesis by (simp add: bf_get_def)
qed

section \<open>timestamp\<close>

text \<open>\<^verbatim>\<open>nanoSeconds\<close> has 30 bits, \<^verbatim>\<open>seconds\<close> 34.  \<open>t\<close> is the uninitialised local of \<^verbatim>\<open>create\<close>.\<close>

definition ts_nanoSeconds :: "u64 \<Rightarrow> nat" where "ts_nanoSeconds t = bf_get t 0 30"
definition ts_seconds :: "u64 \<Rightarrow> nat" where "ts_seconds t = bf_get t 30 34"

definition ts_create :: "u64 \<Rightarrow> nat \<Rightarrow> nat \<Rightarrow> u64" where
  "ts_create t seconds nanoSeconds = bf_set (bf_set t 30 34 seconds) 0 30 nanoSeconds"

definition zeros6 :: "u8 list" where "zeros6 = le_bytes 8 3458817497345568816"

definition ts_toString :: "u64 \<Rightarrow> mem \<Rightarrow> nat \<Rightarrow> nat \<times> mem" where
  "ts_toString t m str =
     (case u64toa_sse2 (word_of_nat (ts_seconds t)) m str of (len, m1) \<Rightarrow>
      if ts_nanoSeconds t \<noteq> 0 then
        let m2 = write_bytes m1 (str + len - 1) [46];
            m3 = write_bytes m2 (str + len) zeros6
        in case u32toa_sse2 (word_of_nat (ts_nanoSeconds t div 1000)) (\<lambda>_. 0) 0 of (secLen, usec) \<Rightarrow>
           (len + 6, write_bytes m3 (str + len + 7 - secLen) (read_bytes usec 0 secLen))
      else (len, m1))"

section \<open>dateTime\<close>

definition numToStrMap :: "nat list" where
  "numToStrMap = [
     0x3030, 0x3130, 0x3230, 0x3330, 0x3430, 0x3530, 0x3630, 0x3730, 0x3830, 0x3930,
     0x3031, 0x3131, 0x3231, 0x3331, 0x3431, 0x3531, 0x3631, 0x3731, 0x3831, 0x3931,
     0x3032, 0x3132, 0x3232, 0x3332, 0x3432, 0x3532, 0x3632, 0x3732, 0x3832, 0x3932,
     0x3033, 0x3133, 0x3233, 0x3333, 0x3433, 0x3533, 0x3633, 0x3733, 0x3833, 0x3933,
     0x3034, 0x3134, 0x3234, 0x3334, 0x3434, 0x3534, 0x3634, 0x3734, 0x3834, 0x3934,
     0x3035, 0x3135, 0x3235, 0x3335, 0x3435, 0x3535, 0x3635, 0x3735, 0x3835, 0x3935,
     0x3036, 0x3136, 0x3236]"

definition num2 :: "nat \<Rightarrow> u8 list" where "num2 k = le_bytes 2 (numToStrMap ! k)"

definition dt_usec :: "u64 \<Rightarrow> nat" where "dt_usec t = bf_get t 0 20"
definition dt_sec :: "u64 \<Rightarrow> nat" where "dt_sec t = bf_get t 20 6"
definition dt_min :: "u64 \<Rightarrow> nat" where "dt_min t = bf_get t 26 6"
definition dt_hour :: "u64 \<Rightarrow> nat" where "dt_hour t = bf_get t 32 5"
definition dt_day :: "u64 \<Rightarrow> nat" where "dt_day t = bf_get t 37 5"
definition dt_month :: "u64 \<Rightarrow> nat" where "dt_month t = bf_get t 42 4"
definition dt_year :: "u64 \<Rightarrow> int" where "dt_year t = sbf_get t 46 18"

definition dt_set :: "u64 \<Rightarrow> int \<Rightarrow> nat \<Rightarrow> nat \<Rightarrow> nat \<Rightarrow> nat \<Rightarrow> nat \<Rightarrow> nat \<Rightarrow> u64" where
  "dt_set t year month day hour mi sec usec =
     (let t = bf_set t 0 20 usec; t = bf_set t 20 6 sec; t = bf_set t 26 6 mi; t = bf_set t 32 5 hour;
          t = bf_set t 37 5 day; t = bf_set t 42 4 month
      in sbf_set t 46 18 year)"

definition dt_createDate :: "u64 \<Rightarrow> int \<Rightarrow> nat \<Rightarrow> nat \<Rightarrow> nat \<Rightarrow> nat \<Rightarrow> nat \<Rightarrow> nat \<Rightarrow> u64" where
  "dt_createDate d year month day hour mi sec usec = dt_set d year month day hour mi sec usec"

text \<open>The fraction of a second: six zeros overwritten from the right by the digits.\<close>

definition put_fraction :: "mem \<Rightarrow> nat \<Rightarrow> nat \<Rightarrow> mem" where
  "put_fraction m a usec =
     (let m1 = write_bytes m a zeros6
      in case u32toa_sse2 (word_of_nat usec) (\<lambda>_. 0) 0 of (secLen, buf) \<Rightarrow>
         write_bytes m1 (a + 6 + 1 - secLen) (read_bytes buf 0 secLen))"

definition dt_toString :: "u64 \<Rightarrow> mem \<Rightarrow> nat \<Rightarrow> nat \<times> mem" where
  "dt_toString t m str =
     (case i32toa_sse2 (word_of_int (dt_year t)) m str of (yl, m) \<Rightarrow>
      let m = write_bytes m (str + yl - 1) [45];
          m = write_bytes m (str + yl) (num2 (dt_month t));
          m = write_bytes m (str + yl + 2) [45];
          m = write_bytes m (str + yl + 3) (num2 (dt_day t));
          m = write_bytes m (str + yl + 5) [32];
          m = write_bytes m (str + yl + 6) (num2 (dt_hour t));
          m = write_bytes m (str + yl + 8) [58];
          m = write_bytes m (str + yl + 9) (num2 (dt_min t));
          m = write_bytes m (str + yl + 11) [58];
          m = write_bytes m (str + yl + 12) (num2 (dt_sec t))
      in if dt_usec t \<noteq> 0 then
           (yl + 15 + 6 + 1, put_fraction (write_bytes m (str + yl + 14) [46]) (str + yl + 15) (dt_usec t))
         else (yl + 15, write_bytes m (str + yl + 14) [0]))"

definition dt_toDateString :: "u64 \<Rightarrow> mem \<Rightarrow> nat \<Rightarrow> nat \<times> mem" where
  "dt_toDateString t m str =
     (case i32toa_sse2 (word_of_int (dt_year t)) m str of (yl, m) \<Rightarrow>
      let m = write_bytes m (str + yl - 1) [45];
          m = write_bytes m (str + yl) (num2 (dt_month t));
          m = write_bytes m (str + yl + 2) [45];
          m = write_bytes m (str + yl + 3) (num2 (dt_day t))
      in (yl + 6, write_bytes m (str + yl + 5) [0]))"

text \<open>Hours, minutes and seconds from position \<open>hl\<close> on, shared by the two time types.\<close>

definition put_time :: "mem \<Rightarrow> nat \<Rightarrow> nat \<Rightarrow> nat \<Rightarrow> nat \<Rightarrow> nat \<times> mem" where
  "put_time m str hl mi sec =
     (let m = write_bytes m (str + hl - 1) [58];
          m = write_bytes m (str + hl) (num2 mi);
          m = write_bytes m (str + hl + 2) [58];
          m = write_bytes m (str + hl + 3) (num2 sec)
      in (hl + 6, m))"

definition dt_toTimeString :: "u64 \<Rightarrow> mem \<Rightarrow> nat \<Rightarrow> nat \<times> mem" where
  "dt_toTimeString t m str =
     (let (hl0, m) = (if dt_year t < 0 then (1, m(str := 45)) else (0, m));
          (hl1, m) = u32toa_sse2 (word_of_nat (dt_hour t)) m (str + hl0);
          hl = hl0 + hl1;
          (l, m) = put_time m str hl (dt_min t) (dt_sec t)
      in if dt_usec t \<noteq> 0 then
           (hl + 6 + 6 + 1, put_fraction (write_bytes m (str + hl + 5) [46]) (str + hl + 6) (dt_usec t))
         else (l, write_bytes m (str + hl + 5) [0]))"

section \<open>Time\<close>

definition tm_nsec :: "u64 \<Rightarrow> nat" where "tm_nsec t = bf_get t 0 30"
definition tm_sec :: "u64 \<Rightarrow> nat" where "tm_sec t = bf_get t 30 6"
definition tm_min :: "u64 \<Rightarrow> nat" where "tm_min t = bf_get t 36 6"
definition tm_hour :: "u64 \<Rightarrow> int" where "tm_hour t = sbf_get t 42 22"

definition tm_set :: "u64 \<Rightarrow> int \<Rightarrow> nat \<Rightarrow> nat \<Rightarrow> nat \<Rightarrow> u64" where
  "tm_set t hour mi second nsec =
     (let t = sbf_set t 42 22 hour; t = bf_set t 36 6 mi; t = bf_set t 30 6 second in bf_set t 0 30 nsec)"

definition tm_createTime :: "u64 \<Rightarrow> int \<Rightarrow> nat \<Rightarrow> nat \<Rightarrow> nat \<Rightarrow> u64" where
  "tm_createTime t hour mi second nsec = tm_set t hour mi second nsec"

text \<open>The signed hour is converted to \<^verbatim>\<open>uint32_t\<close> by the call.\<close>

definition tm_toString :: "u64 \<Rightarrow> mem \<Rightarrow> nat \<Rightarrow> nat \<times> mem" where
  "tm_toString t m str =
     (case u32toa_sse2 (word_of_int (tm_hour t)) m str of (hl, m) \<Rightarrow>
      case put_time m str hl (tm_min t) (tm_sec t) of (l, m) \<Rightarrow>
      if tm_nsec t \<noteq> 0 then
        (hl + 6 + 6 + 1, put_fraction (write_bytes m (str + hl + 5) [46]) (str + hl + 6) (tm_nsec t div 1000))
      else (l, write_bytes m (str + hl + 5) [0]))"

section \<open>Date\<close>

definition da_day :: "u32 \<Rightarrow> nat" where "da_day t = bf_get t 0 5"
definition da_month :: "u32 \<Rightarrow> nat" where "da_month t = bf_get t 5 4"
definition da_year :: "u32 \<Rightarrow> int" where "da_year t = sbf_get t 9 23"

definition da_set :: "u32 \<Rightarrow> int \<Rightarrow> nat \<Rightarrow> nat \<Rightarrow> u32" where
  "da_set t year month day = (let t = bf_set t 0 5 day; t = bf_set t 5 4 month in sbf_set t 9 23 year)"

definition da_createDate :: "u32 \<Rightarrow> int \<Rightarrow> nat \<Rightarrow> nat \<Rightarrow> u32" where
  "da_createDate d year month day = da_set d year month day"

definition da_toString :: "u32 \<Rightarrow> mem \<Rightarrow> nat \<Rightarrow> nat \<times> mem" where
  "da_toString t m str =
     (case i32toa_sse2 (word_of_int (da_year t)) m str of (yl, m) \<Rightarrow>
      let m = write_bytes m (str + yl - 1) [45];
          m = write_bytes m (str + yl) (num2 (da_month t));
          m = write_bytes m (str + yl + 2) [45];
          m = write_bytes m (str + yl + 3) (num2 (da_day t))
      in (yl + 6, write_bytes m (str + yl + 5) [0]))"

section \<open>Fields read back\<close>

lemma bf_bound: "bf_get w off width < 2 ^ width"
  by (simp only: bf_get_def unsigned_take_bit_eq take_bit_nat_less_exp)

lemma sbf_get_set_same:
  fixes w :: "'a::len word"
  assumes "off + width \<le> LENGTH('a)" and "0 < width" and "- (2 ^ (width - 1)) \<le> v" and "v < 2 ^ (width - 1)"
  shows "sbf_get (sbf_set w off width v) off width = v"
proof -
  have p: "(2::int) ^ width = 2 * 2 ^ (width - 1)" using assms(2) by (cases width) simp_all
  have "bf_get (sbf_set w off width v) off width = nat (v mod 2 ^ width) mod 2 ^ width"
    unfolding sbf_set_def by (rule bf_get_set_same [OF assms(1)])
  also have "\<dots> = nat (v mod 2 ^ width)" by (simp add: nat_less_iff)
  finally have b: "int (bf_get (sbf_set w off width v) off width) = v mod 2 ^ width" by simp
  show ?thesis
  proof (cases "v < 0")
    case True
    have "v mod 2 ^ width = v + 2 ^ width"
    proof (rule mod_pos_pos_trivial [THEN trans [rotated]])
      show "0 \<le> v + 2 ^ width" "v + 2 ^ width < 2 ^ width" using True assms(3) p by linarith+
      show "v mod 2 ^ width = (v + 2 ^ width) mod 2 ^ width" by simp
    qed
    then show ?thesis using True assms(3) p b by (simp add: sbf_get_def Let_def)
  next
    case False
    then have "v mod 2 ^ width = v" using assms(4) p by (intro mod_pos_pos_trivial) linarith+
    then show ?thesis using False assms(4) b by (simp add: sbf_get_def Let_def)
  qed
qed

lemma sbf_get_set_other:
  fixes w :: "'a::len word"
  assumes "off + width \<le> off' \<or> off' + width' \<le> off" and "off + width \<le> LENGTH('a)"
  shows "bf_get (sbf_set w off' width' v) off width = bf_get w off width"
    and "sbf_get (bf_set w off' width' k) off width = sbf_get w off width"
    and "sbf_get (sbf_set w off' width' v) off width = sbf_get w off width"
  using bf_get_set_other [OF assms] by (simp_all add: sbf_set_def sbf_get_def)

lemmas bf_simps = bf_get_set_same bf_get_set_other sbf_get_set_same sbf_get_set_other

lemma dt_fields:
  fixes d :: u64
  assumes "- (2 ^ 17) \<le> year" "year < 2 ^ 17" "month < 16" "day < 32" "hour < 32" "mi < 64" "sec < 64" "usec < 2 ^ 20"
  defines "t \<equiv> dt_createDate d year month day hour mi sec usec"
  shows "dt_year t = year" "dt_month t = month" "dt_day t = day" "dt_hour t = hour" "dt_min t = mi" "dt_sec t = sec" "dt_usec t = usec"
  using assms(1-8)
  by (simp_all add: t_def dt_createDate_def dt_set_def Let_def dt_year_def dt_month_def dt_day_def dt_hour_def dt_min_def
      dt_sec_def dt_usec_def bf_simps)

lemma tm_fields:
  fixes d :: u64
  assumes "- (2 ^ 21) \<le> hour" "hour < 2 ^ 21" "mi < 64" "sec < 64" "nsec < 2 ^ 30"
  defines "t \<equiv> tm_createTime d hour mi sec nsec"
  shows "tm_hour t = hour" "tm_min t = mi" "tm_sec t = sec" "tm_nsec t = nsec"
  using assms(1-5)
  by (simp_all add: t_def tm_createTime_def tm_set_def Let_def tm_hour_def tm_min_def tm_sec_def tm_nsec_def bf_simps)

lemma da_fields:
  fixes d :: u32
  assumes "- (2 ^ 22) \<le> year" "year < 2 ^ 22" "month < 16" "day < 32"
  defines "t \<equiv> da_createDate d year month day"
  shows "da_year t = year" "da_month t = month" "da_day t = day"
  using assms(1-4) by (simp_all add: t_def da_createDate_def da_set_def Let_def da_year_def da_month_def da_day_def bf_simps)

lemma ts_fields:
  assumes "seconds < 2 ^ 34" "nanoSeconds < 2 ^ 30"
  shows "ts_seconds (ts_create t seconds nanoSeconds) = seconds" "ts_nanoSeconds (ts_create t seconds nanoSeconds) = nanoSeconds"
  using assms by (simp_all add: ts_create_def ts_seconds_def ts_nanoSeconds_def bf_simps)

section \<open>Order\<close>

lemma bf_split:
  fixes t :: "'a::len word"
  shows "bf_get t 0 (a + b) = bf_get t a b * 2 ^ a + bf_get t 0 a"
proof -
  have "unat t mod 2 ^ (a + b) = 2 ^ a * (unat t div 2 ^ a mod 2 ^ b) + unat t mod 2 ^ a"
    unfolding power_add by (rule mod_mult2_eq)
  then show ?thesis
    by (simp only: bf_get_def unsigned_take_bit_eq unat_drop_bit_eq)
       (simp add: take_bit_eq_mod drop_bit_eq_div mult.commute)
qed

lemma lex_digits:
  fixes x y :: nat
  assumes "a < N" and "b < N"
  shows "x * N + a < y * N + b \<longleftrightarrow> (x, a) < (y, b)" and "x * N + a = y * N + b \<longleftrightarrow> (x, a) = (y, b)"
proof -
  have d: "(x * N + a) div N = x" "(y * N + b) div N = y" using assms by simp_all
  show "x * N + a = y * N + b \<longleftrightarrow> (x, a) = (y, b)" using d by auto
  have "x < y \<Longrightarrow> x * N + a < y * N + b"
  proof -
    assume "x < y"
    then have "Suc x * N \<le> y * N" by (intro mult_le_mono1) simp
    with assms(1) show ?thesis by simp
  qed
  moreover have "y < x \<Longrightarrow> y * N + b < x * N + a"
  proof -
    assume "y < x"
    then have "Suc y * N \<le> x * N" by (intro mult_le_mono1) simp
    with assms(2) show ?thesis by simp
  qed
  ultimately show "x * N + a < y * N + b \<longleftrightarrow> (x, a) < (y, b)" by (cases x y rule: linorder_cases) auto
qed

lemma lex_digits_int:
  fixes x y :: int and a b :: nat
  assumes "a < N" and "b < N"
  shows "x * int N + int a < y * int N + int b \<longleftrightarrow> (x, a) < (y, b)"
proof -
  have "x < y \<Longrightarrow> x * int N + int a < y * int N + int b"
  proof -
    assume "x < y"
    then have "(x + 1) * int N \<le> y * int N" by (intro mult_right_mono) simp_all
    with assms(1) show ?thesis by (simp add: distrib_right)
  qed
  moreover have "y < x \<Longrightarrow> y * int N + int b < x * int N + int a"
  proof -
    assume "y < x"
    then have "(y + 1) * int N \<le> x * int N" by (intro mult_right_mono) simp_all
    with assms(2) show ?thesis by (simp add: distrib_right)
  qed
  ultimately show ?thesis by (cases x y rule: linorder_cases) auto
qed

lemma sint_cases:
  fixes t :: "'a::len word"
  shows "sint t = (if 2 ^ (LENGTH('a) - 1) \<le> uint t then uint t - 2 ^ LENGTH('a) else uint t)"
proof -
  let ?n = "LENGTH('a) - Suc 0"
  have L: "LENGTH('a) = Suc ?n" by simp
  have p: "(2::int) ^ LENGTH('a) = 2 * 2 ^ ?n" using power_Suc [of "2::int" ?n] by (simp only: L [symmetric])
  have b: "0 \<le> uint t" "uint t < 2 ^ LENGTH('a)" by (simp_all add: unsigned_less)
  show ?thesis
  proof (cases "2 ^ ?n \<le> uint t")
    case True
    have "signed_take_bit ?n (uint t) = signed_take_bit ?n (uint t - 2 ^ LENGTH('a))"
      unfolding signed_take_bit_eq_iff_take_bit_eq L [symmetric] by (simp add: take_bit_eq_mod)
    also have "\<dots> = uint t - 2 ^ LENGTH('a)" using True b p by (intro signed_take_bit_int_eq_self) linarith+
    finally show ?thesis using True by (simp add: sint_uint)
  next
    case False
    have "- (2 ^ ?n) \<le> uint t" by (rule order_trans [OF _ b(1)]) simp
    with False show ?thesis by (simp add: sint_uint signed_take_bit_int_eq_self)
  qed
qed

lemma sint_split:
  fixes t :: "'a::len word"
  assumes "off + width = LENGTH('a)" and "0 < width"
  shows "sint t = sbf_get t off width * 2 ^ off + int (bf_get t 0 off)"
proof -
  have u: "bf_get t 0 (off + width) = unat t" by (simp add: bf_get_def assms(1))
  then have "int (unat t) = int (bf_get t off width * 2 ^ off + bf_get t 0 off)"
    using bf_split [of t off width] by simp
  then have s: "uint t = int (bf_get t off width) * 2 ^ off + int (bf_get t 0 off)" by simp
  let ?b = "int (bf_get t off width)" and ?l = "int (bf_get t 0 off)"
  have l: "?l < 2 ^ off" using bf_bound [of t 0 off] by (metis of_nat_less_iff of_nat_numeral of_nat_power)
  have L: "(2::int) ^ (LENGTH('a) - 1) = 2 ^ (width - 1) * 2 ^ off" "(2::int) ^ LENGTH('a) = 2 ^ width * 2 ^ off"
    using assms by (simp_all flip: power_add) 
  have hi: "2 ^ (LENGTH('a) - 1) \<le> uint t \<longleftrightarrow> 2 ^ (width - 1) \<le> ?b"
  proof
    assume "2 ^ (LENGTH('a) - 1) \<le> uint t"
    then have "2 ^ (width - 1) * 2 ^ off < (?b + 1) * 2 ^ off" 
      unfolding distrib_right using s l L(1) by linarith
    then show "2 ^ (width - 1) \<le> ?b" by simp
  next
    assume "2 ^ (width - 1) \<le> ?b"
    then have "2 ^ (width - 1) * 2 ^ off \<le> ?b * 2 ^ off" by (intro mult_right_mono) simp_all
    moreover have "0 \<le> ?l" by simp
    ultimately show "2 ^ (LENGTH('a) - 1) \<le> uint t" using s L(1) by linarith
  qed
  have "sint t = (if 2 ^ (LENGTH('a) - 1) \<le> uint t then uint t - 2 ^ LENGTH('a) else uint t)"
    by (rule sint_cases)
  with hi s L show ?thesis by (simp add: sbf_get_def Let_def left_diff_distrib)
qed

definition dt_key :: "u64 \<Rightarrow> int \<times> nat \<times> nat \<times> nat \<times> nat \<times> nat \<times> nat" where
  "dt_key t = (dt_year t, dt_month t, dt_day t, dt_hour t, dt_min t, dt_sec t, dt_usec t)"

lemma lex_fields:
  "bf_get t 0 (a + b) < bf_get u 0 (a + b) \<longleftrightarrow> (bf_get t a b, bf_get t 0 a) < (bf_get u a b, bf_get u 0 a)"
  by (simp only: bf_split lex_digits(1) [OF bf_bound bf_bound])

lemma dt_order: "sint t < sint u \<longleftrightarrow> dt_key t < dt_key u"
proof -
  have "sint t < sint u \<longleftrightarrow> (dt_year t, bf_get t 0 46) < (dt_year u, bf_get u 0 46)"
    using lex_digits_int [of "bf_get t 0 46" "2 ^ 46" "bf_get u 0 46"] bf_bound [of t 0 46] bf_bound [of u 0 46]
    by (simp add: sint_split [of 46 18 t] sint_split [of 46 18 u] dt_year_def)
  moreover note lex_fields [of t 42 4 u] lex_fields [of t 37 5 u] lex_fields [of t 32 5 u] lex_fields [of t 26 6 u]
    lex_fields [of t 20 6 u]
  ultimately show ?thesis
    by (simp add: dt_key_def dt_month_def dt_day_def dt_hour_def dt_min_def dt_sec_def dt_usec_def)
qed

section \<open>Printing\<close>

lemma numToStr_table: "numToStrMap = map (\<lambda>i. 0x3030 + i div 10 + 256 * (i mod 10)) [0..<63]"
  by (simp add: numToStrMap_def upt_rec_numeral upt_conv_Cons)

lemma num2_digs: "k < 63 \<Longrightarrow> num2 k = digs 2 k"
proof -
  assume k: "k < 63"
  then have d: "k div 10 < 10" by (simp add: less_mult_imp_div_less)
  have "numToStrMap ! k = (48 + k div 10) + 256 * (48 + k mod 10)" using k by (simp add: numToStr_table)
  moreover have "le_bytes 2 (a + 256 * b) = [word_of_nat a, word_of_nat b]" if "a < 256" "b < 256" for a b
    using that le_bytes_le_val [of "[word_of_nat a, word_of_nat b]"] by (simp add: unat_of_nat numeral_2_eq_2)
  moreover have "48 + k div 10 < 256" "48 + k mod 10 < 256" using d mod_less_divisor [of 10 k] by linarith+
  ultimately have "num2 k = [word_of_nat (48 + k div 10), word_of_nat (48 + k mod 10)]"
    by (simp only: num2_def)
  then show ?thesis using d by simp
qed

lemma length_num2 [simp]: "length (num2 k) = 2"
  by (simp add: num2_def)

lemma zeros6_list: "zeros6 = replicate 6 48 @ [0, 48]"
proof -
  let ?z = "[48, 48, 48, 48, 48, 48, 0, 48] :: u8 list"
  have v: "le_val ?z = 3458817497345568816" and l: "length ?z = 8" by simp_all
  have "le_bytes 8 3458817497345568816 = ?z" using le_bytes_le_val [of ?z] unfolding v l .
  then show ?thesis by (simp only: zeros6_def) (simp add: replicate_num)
qed

lemma u32toa_text:
  assumes "n < 2 ^ 32"
  shows "case u32toa_sse2 (word_of_nat n) m 0 of (l, m') \<Rightarrow> l = length (dec n) + 1 \<and> read_bytes m' 0 l = dec n @ [0]"
  using u32toa_ok [of "word_of_nat n" m 0] assms by (auto simp: string_at_def unat_of_nat)

lemma put_fraction_digits:
  assumes "0 < u" and "u < 1000000"
  shows "put_fraction m a u = write_bytes m a (digs 6 u @ [0, 48])"
proof -
  let ?L = "length (dec u)"
  have L: "?L \<le> 6" using dec_length_le [of u 5] assms by simp
  have d: "digs 6 u = replicate (6 - ?L) 48 @ dec u" using digs_dec [of u 6] assms by (simp del: digs_numeral)
  obtain l buf where "u32toa_sse2 (word_of_nat u) (\<lambda>_. 0) 0 = (l, buf)" "l = ?L + 1" "read_bytes buf 0 l = dec u @ [0]"
    using u32toa_text [of u "\<lambda>_. 0"] assms by (auto split: prod.splits)
  then have "put_fraction m a u = write_bytes (write_bytes m a zeros6) (a + (6 - ?L)) (dec u @ [0])"
    using L by (simp add: put_fraction_def add.commute)
  also have "\<dots> = write_bytes m a (digs 6 u @ [0, 48])"
  proof
    fix x
    have z: "zeros6 ! k = (if k = 6 then 0 else 48)" if "k < 8" for k
      using that by (auto simp: zeros6_list nth_append nth_Cons' split: if_splits)
    show "write_bytes (write_bytes m a zeros6) (a + (6 - ?L)) (dec u @ [0]) x = write_bytes m a (digs 6 u @ [0, 48]) x"
      using L z [of "x - a"] unfolding d
      by (auto simp: write_bytes_def nth_append nth_Cons' zeros6_list split: if_splits)
  qed
  finally show ?thesis .
qed

lemma string_extend:
  assumes "string_at m str l cs"
  shows "string_at (write_bytes m (str + l - 1) (ds @ 0 # ts)) str (length cs + length ds + 1) (cs @ ds)"
proof -
  have len: "l = length cs + 1" and rd: "read_bytes m str l = cs @ [0]" using assms unfolding string_at_def by blast+
  have r: "m (str + i) = cs ! i" if "i < length cs" for i
  proof -
    have "read_bytes m str l ! i = (cs @ [0]) ! i" by (simp only: rd)
    with that len show ?thesis by (simp add: nth_append)
  qed
  have l: "str + l - 1 = str + length cs" using len by simp
  show ?thesis
    unfolding string_at_def l
    by (intro conjI nth_equalityI) (auto simp: nth_append write_bytes_def r nth_Cons' less_Suc_eq)
qed

lemma year_word:
  assumes "- (2 ^ 31) \<le> y" and "y < 2 ^ 31"
  shows "sint (word_of_int y :: u32) = y"
  using assms by (simp add: signed_of_int signed_take_bit_int_eq_self_iff)

lemma sbf_bounds:
  assumes "0 < width"
  shows "- (2 ^ (width - 1)) \<le> sbf_get w off width" and "sbf_get w off width < 2 ^ (width - 1)"
proof -
  have p: "(2::int) ^ width = 2 * 2 ^ (width - 1)" using assms by (cases width) simp_all
  have "int (bf_get w off width) < 2 ^ width" using bf_bound [of w off width] by (metis of_nat_less_iff of_nat_numeral of_nat_power)
  with p show "- (2 ^ (width - 1)) \<le> sbf_get w off width" "sbf_get w off width < 2 ^ (width - 1)"
    by (auto simp: sbf_get_def Let_def)
qed

lemma dt_year_text:
  "\<exists>yl m'. i32toa_sse2 (word_of_int (dt_year t)) m str = (yl, m') \<and> string_at m' str yl (sdec (dt_year t))"
proof -
  have "- (2 ^ 31) \<le> dt_year t" "dt_year t < 2 ^ 31"
    using sbf_bounds [of 18 t 46] by (simp_all add: dt_year_def)
  then show ?thesis using i32toa_ok [of "word_of_int (dt_year t)" m str] year_word [of "dt_year t"] by auto
qed

lemma da_year_text:
  "\<exists>yl m'. i32toa_sse2 (word_of_int (da_year t)) m str = (yl, m') \<and> string_at m' str yl (sdec (da_year t))"
proof -
  have "- (2 ^ 31) \<le> da_year t" "da_year t < 2 ^ 31"
    using sbf_bounds [of 23 t 9] by (simp_all add: da_year_def)
  then show ?thesis using i32toa_ok [of "word_of_int (da_year t)" m str] year_word [of "da_year t"] by auto
qed

text \<open>The texts: date, time of day, and the fraction when it is not zero.\<close>

definition date_text :: "int \<Rightarrow> nat \<Rightarrow> nat \<Rightarrow> u8 list" where
  "date_text y mo d = sdec y @ [45] @ digs 2 mo @ [45] @ digs 2 d"

definition clock_text :: "nat \<Rightarrow> nat \<Rightarrow> u8 list" where
  "clock_text mi sec = [58] @ digs 2 mi @ [58] @ digs 2 sec"

definition fraction_text :: "nat \<Rightarrow> u8 list" where
  "fraction_text usec = (if usec = 0 then [] else [46] @ digs 6 usec)"

lemma dt_small: "dt_month t < 63" "dt_day t < 63" "dt_hour t < 63"
  using bf_bound [of t 42 4] bf_bound [of t 37 5] bf_bound [of t 32 5]
  by (simp_all add: dt_month_def dt_day_def dt_hour_def)

lemma da_small: "da_month t < 63" "da_day t < 63"
  using bf_bound [of t 5 4] bf_bound [of t 0 5] by (simp_all add: da_month_def da_day_def)

lemma string_at_len: "string_at m str l cs \<Longrightarrow> l = length cs + 1"
  by (simp add: string_at_def)

lemma dt_toString_text:
  assumes "dt_min t < 63" "dt_sec t < 63" "dt_usec t < 1000000"
  shows "\<exists>l m'. dt_toString t m str = (l, m') \<and> string_at m' str l
    (date_text (dt_year t) (dt_month t) (dt_day t) @ [32] @ digs 2 (dt_hour t) @ clock_text (dt_min t) (dt_sec t)
      @ fraction_text (dt_usec t))"
proof -
  obtain yl m1 where y: "i32toa_sse2 (word_of_int (dt_year t)) m str = (yl, m1)" "string_at m1 str yl (sdec (dt_year t))"
    using dt_year_text by blast
  note len = string_at_len [OF y(2)]
  note n = num2_digs [OF dt_small(1)] num2_digs [OF dt_small(2)] num2_digs [OF dt_small(3)] num2_digs [OF assms(1)] num2_digs [OF assms(2)]
  let ?body = "[45] @ digs 2 (dt_month t) @ [45] @ digs 2 (dt_day t) @ [32] @ digs 2 (dt_hour t) @ [58] @ digs 2 (dt_min t) @ [58] @ digs 2 (dt_sec t)"
  show ?thesis
  proof (cases "dt_usec t = 0")
    case True
    then have "dt_toString t m str = (yl + 15, write_bytes m1 (str + yl - 1) (?body @ [0]))"
      using y(1) len by (simp add: dt_toString_def Let_def write_bytes_append n del: digs_numeral)
    with string_extend [OF y(2), of ?body "[]"] len True show ?thesis
      by (simp add: date_text_def clock_text_def fraction_text_def del: digs_numeral)
  next
    case False
    then have "dt_toString t m str = (yl + 22, write_bytes m1 (str + yl - 1) ((?body @ [46] @ digs 6 (dt_usec t)) @ 0 # [48]))"
      using y(1) len assms(3) by (simp add: dt_toString_def Let_def put_fraction_digits write_bytes_append n del: digs_numeral)
    with string_extend [OF y(2), of "?body @ [46] @ digs 6 (dt_usec t)" "[48]"] len False show ?thesis
      by (simp add: date_text_def clock_text_def fraction_text_def del: digs_numeral)
  qed
qed

lemma da_toString_text:
  "\<exists>l m'. da_toString t m str = (l, m') \<and> string_at m' str l (date_text (da_year t) (da_month t) (da_day t))"
proof -
  obtain yl m1 where y: "i32toa_sse2 (word_of_int (da_year t)) m str = (yl, m1)" "string_at m1 str yl (sdec (da_year t))"
    using da_year_text by blast
  note len = string_at_len [OF y(2)]
  let ?body = "[45] @ digs 2 (da_month t) @ [45] @ digs 2 (da_day t)"
  have "da_toString t m str = (yl + 6, write_bytes m1 (str + yl - 1) (?body @ [0]))"
    using y(1) len by (simp add: da_toString_def Let_def write_bytes_append num2_digs da_small del: digs_numeral)
  with string_extend [OF y(2), of ?body "[]"] len show ?thesis by (simp add: date_text_def del: digs_numeral)
qed

lemma dt_toDateString_text:
  "\<exists>l m'. dt_toDateString t m str = (l, m') \<and> string_at m' str l (date_text (dt_year t) (dt_month t) (dt_day t))"
proof -
  obtain yl m1 where y: "i32toa_sse2 (word_of_int (dt_year t)) m str = (yl, m1)" "string_at m1 str yl (sdec (dt_year t))"
    using dt_year_text by blast
  note len = string_at_len [OF y(2)]
  let ?body = "[45] @ digs 2 (dt_month t) @ [45] @ digs 2 (dt_day t)"
  have "dt_toDateString t m str = (yl + 6, write_bytes m1 (str + yl - 1) (?body @ [0]))"
    using y(1) len by (simp add: dt_toDateString_def Let_def write_bytes_append num2_digs dt_small del: digs_numeral)
  with string_extend [OF y(2), of ?body "[]"] len show ?thesis by (simp add: date_text_def del: digs_numeral)
qed

text \<open>What follows the hours, appended to a string that ends in them.\<close>

lemma put_time_text:
  assumes "string_at m str hl cs" and "mi < 63" and "sec < 63" and "usec < 1000000"
  shows "case put_time m str hl mi sec of (l, m') \<Rightarrow> l = hl + 6 \<and>
    string_at (if usec \<noteq> 0 then put_fraction (write_bytes m' (str + hl + 5) [46]) (str + hl + 6) usec
               else write_bytes m' (str + hl + 5) [0]) str
      (if usec \<noteq> 0 then hl + 6 + 6 + 1 else hl + 6) (cs @ clock_text mi sec @ fraction_text usec)"
proof -
  note len = string_at_len [OF assms(1)]
  let ?body = "[58] @ digs 2 mi @ [58] @ digs 2 sec"
  show ?thesis
  proof (cases "usec = 0")
    case True
    with string_extend [OF assms(1), of ?body "[]"] len assms show ?thesis
      by (simp add: put_time_def write_bytes_append num2_digs clock_text_def fraction_text_def del: digs_numeral)
  next
    case False
    with string_extend [OF assms(1), of "?body @ [46] @ digs 6 usec" "[48]"] len assms show ?thesis
      by (simp add: put_time_def write_bytes_append num2_digs put_fraction_digits clock_text_def fraction_text_def del: digs_numeral)
  qed
qed

lemma tm_toString_text:
  assumes "tm_min t < 63" "tm_sec t < 63" "tm_nsec t = 0 \<or> 1000 \<le> tm_nsec t" "tm_nsec t < 1000000000"
  shows "\<exists>l m'. tm_toString t m str = (l, m') \<and> string_at m' str l
    (dec (nat (tm_hour t mod 2 ^ 32)) @ clock_text (tm_min t) (tm_sec t) @ fraction_text (tm_nsec t div 1000))"
proof -
  have u: "unat (word_of_int (tm_hour t) :: u32) = nat (tm_hour t mod 2 ^ 32)"
    by (simp add: unat_eq_nat_uint uint_word_of_int)
  obtain hl m1 where y: "u32toa_sse2 (word_of_int (tm_hour t)) m str = (hl, m1)" "string_at m1 str hl (dec (nat (tm_hour t mod 2 ^ 32)))"
    using u32toa_ok [of "word_of_int (tm_hour t)" m str] unfolding u by blast
  have f: "tm_nsec t div 1000 < 1000000" "tm_nsec t div 1000 \<noteq> 0 \<longleftrightarrow> tm_nsec t \<noteq> 0"
    using assms(3,4) by (auto simp: less_mult_imp_div_less div_eq_0_iff)
  from put_time_text [OF y(2) assms(1,2) f(1)] y(1) f(2) show ?thesis
    by (cases "tm_nsec t = 0") (simp_all add: tm_toString_def put_time_def Let_def)
qed

lemma dt_toTimeString_text:
  assumes "dt_min t < 63" "dt_sec t < 63" "dt_usec t < 1000000"
  shows "\<exists>l m'. dt_toTimeString t m str = (l, m') \<and> string_at m' str l
    ((if dt_year t < 0 then [45] else []) @ dec (dt_hour t) @ clock_text (dt_min t) (dt_sec t) @ fraction_text (dt_usec t))"
proof -
  have h: "unat (word_of_nat (dt_hour t) :: u32) = dt_hour t" using dt_small(3) [of t] by (simp add: unat_of_nat)
  let ?h0 = "if dt_year t < 0 then 1 else 0" and ?m0 = "if dt_year t < 0 then m(str := 45) else m"
  let ?cs = "(if dt_year t < 0 then [45] else []) @ dec (dt_hour t)"
  obtain hl m1 where y: "u32toa_sse2 (word_of_nat (dt_hour t)) ?m0 (str + ?h0) = (hl, m1)"
    "string_at m1 (str + ?h0) hl (dec (dt_hour t))" "untouched ?m0 m1 (str + ?h0) 11"
    using u32toa_ok [of "word_of_nat (dt_hour t)" ?m0 "str + ?h0"] unfolding h by blast
  have s: "string_at m1 str (?h0 + hl) ?cs"
    using y(2,3) signed_string(1) [of m1 str hl "dec (dt_hour t)" m 45] by (auto split: if_splits)
  have eq: "dt_toTimeString t m str = (case put_time m1 str (?h0 + hl) (dt_min t) (dt_sec t) of (l, m') \<Rightarrow>
      if dt_usec t \<noteq> 0
      then (?h0 + hl + 6 + 6 + 1, put_fraction (write_bytes m' (str + (?h0 + hl) + 5) [46]) (str + (?h0 + hl) + 6) (dt_usec t))
      else (l, write_bytes m' (str + (?h0 + hl) + 5) [0]))"
    using y(1) by (cases "dt_year t < 0") (simp_all add: dt_toTimeString_def Let_def put_time_def)
  from put_time_text [OF s assms] show ?thesis unfolding eq by (auto split: prod.splits if_splits)
qed

lemma ts_toString_text:
  assumes "ts_nanoSeconds t = 0 \<or> 1000 \<le> ts_nanoSeconds t" "ts_nanoSeconds t < 1000000000"
  shows "\<exists>l m'. ts_toString t m str = (l, m') \<and> string_at m' str (if ts_nanoSeconds t = 0 then l else l + 1)
    (dec (ts_seconds t) @ fraction_text (ts_nanoSeconds t div 1000))"
proof -
  have "ts_seconds t < 2 ^ 34" unfolding ts_seconds_def by (rule bf_bound)
  then have u: "unat (word_of_nat (ts_seconds t) :: u64) = ts_seconds t" by (simp add: unat_of_nat)
  obtain l m1 where y: "u64toa_sse2 (word_of_nat (ts_seconds t)) m str = (l, m1)" "string_at m1 str l (dec (ts_seconds t))"
    using u64toa_ok [of "word_of_nat (ts_seconds t)" m str] unfolding u by blast
  note len = string_at_len [OF y(2)]
  let ?u = "ts_nanoSeconds t div 1000"
  show ?thesis
  proof (cases "ts_nanoSeconds t = 0")
    case True
    with y show ?thesis by (simp add: ts_toString_def fraction_text_def)
  next
    case False
    then have f: "0 < ?u" "?u < 1000000" using assms by (auto simp: less_mult_imp_div_less div_greater_zero_iff)
    have "ts_toString t m str = (l + 6, put_fraction (write_bytes m1 (str + l - 1) [46]) (str + l) ?u)"
      using y(1) False by (auto simp: ts_toString_def put_fraction_def Let_def ac_simps split: prod.split)
    then have "ts_toString t m str = (l + 6, write_bytes m1 (str + l - 1) (([46] @ digs 6 ?u) @ 0 # [48]))"
      using len f by (simp add: put_fraction_digits write_bytes_append del: digs_numeral)
    with string_extend [OF y(2), of "[46] @ digs 6 ?u" "[48]"] len False f show ?thesis
      by (simp add: fraction_text_def del: digs_numeral)
  qed
qed

section \<open>Claims\<close>

text \<open>The seven arguments of \<^verbatim>\<open>createDate\<close> as one value, and the ranges of the bit fields.\<close>

fun dt_of :: "u64 \<Rightarrow> int \<times> nat \<times> nat \<times> nat \<times> nat \<times> nat \<times> nat \<Rightarrow> u64" where
  "dt_of d (y, mo, da, h, mi, s, us) = dt_createDate d y mo da h mi s us"

fun dt_ranges :: "int \<times> nat \<times> nat \<times> nat \<times> nat \<times> nat \<times> nat \<Rightarrow> bool" where
  "dt_ranges (y, mo, da, h, mi, s, us) \<longleftrightarrow>
     - (2 ^ 17) \<le> y \<and> y < 2 ^ 17 \<and> mo < 16 \<and> da < 32 \<and> h < 32 \<and> mi < 60 \<and> s < 60 \<and> us < 1000000"

fun dt_text :: "int \<times> nat \<times> nat \<times> nat \<times> nat \<times> nat \<times> nat \<Rightarrow> u8 list" where
  "dt_text (y, mo, da, h, mi, s, us) = date_text y mo da @ [32] @ digs 2 h @ clock_text mi s @ fraction_text us"

lemma dt_key_of: "dt_ranges k \<Longrightarrow> dt_key (dt_of d k) = k"
  by (cases k) (simp add: dt_key_def dt_fields)

text \<open>
  C19: \<^verbatim>\<open>dateTime::createDate\<close> packs its seven arguments without loss, whatever the uninitialised local held, and
  the signed 64-bit values compare as the dates do: \<^verbatim>\<open>dateTime\<close> columns can be ordered as plain integers.
\<close>

theorem dateTime_packs_in_order:
  assumes "dt_ranges k" and "dt_ranges k'"
  shows "dt_key (dt_of d k) = k \<and> (sint (dt_of d k) < sint (dt_of d' k') \<longleftrightarrow> k < k')"
  using dt_order [of "dt_of d k" "dt_of d' k'"] assms by (simp_all add: dt_key_of)

theorem dateTime_packs_in_order_witness:
  "sint (dt_createDate 7 (- 1) 12 31 23 59 59 999999) < sint (dt_createDate 9 2020 1 1 0 0 0 0)"
  using dateTime_packs_in_order [of "(- 1, 12, 31, 23, 59, 59, 999999)" "(2020, 1, 1, 0, 0, 0, 0)" 7 9] by simp

text \<open>
  Printing what \<^verbatim>\<open>createDate\<close> packed writes the date as \<open>YYYY-MM-DD HH:MM:SS\<close>, followed by the six digits of
  the microseconds when they are not zero, terminated, and returns the number of bytes written with the terminator.
  \<^verbatim>\<open>toDateString\<close> writes the date part.
\<close>

theorem dateTime_toString_prints:
  assumes "dt_ranges k"
  shows "(\<exists>l m'. dt_toString (dt_of d k) m str = (l, m') \<and> string_at m' str l (dt_text k))
    \<and> (\<exists>l m'. dt_toDateString (dt_of d k) m str = (l, m') \<and>
         string_at m' str l (date_text (fst k) (fst (snd k)) (fst (snd (snd k)))))"
proof -
  obtain y mo da h mi s us where k: "k = (y, mo, da, h, mi, s, us)" by (metis surj_pair)
  let ?t = "dt_of d k"
  have f: "dt_year ?t = y" "dt_month ?t = mo" "dt_day ?t = da" "dt_hour ?t = h" "dt_min ?t = mi" "dt_sec ?t = s" "dt_usec ?t = us"
    using dt_key_of [OF assms, of d] by (simp_all add: dt_key_def k)
  have "mi < 63" "s < 63" "us < 1000000" using assms by (simp_all add: k)
  with dt_toString_text [of ?t m str] dt_toDateString_text [of ?t m str] show ?thesis
    unfolding f by (simp add: k del: dt_of.simps)
qed

theorem dateTime_toString_prints_witness:
  "\<exists>l m'. dt_toString (dt_createDate 5 2020 2 9 7 5 3 42) (\<lambda>_. 1) 100 = (l, m') \<and> string_at m' 100 l
     [50, 48, 50, 48, 45, 48, 50, 45, 48, 57, 32, 48, 55, 58, 48, 53, 58, 48, 51, 46, 48, 48, 48, 48, 52, 50]"
proof -
  have "dt_text (2020, 2, 9, 7, 5, 3, 42) =
     [50, 48, 50, 48, 45, 48, 50, 45, 48, 57, 32, 48, 55, 58, 48, 53, 58, 48, 51, 46, 48, 48, 48, 48, 52, 50]"
    by (simp add: date_text_def clock_text_def fraction_text_def sdec_def dec.simps)
  with conjunct1 [OF dateTime_toString_prints [of "(2020, 2, 9, 7, 5, 3, 42)" 5 "\<lambda>_. 1" 100]] show ?thesis
    by (simp del: dt_text.simps)
qed

text \<open>
  \<^verbatim>\<open>timestamp::toString\<close> writes the seconds and, when the nanoseconds are not zero, a point and six digits of
  microseconds.  The returned length counts the terminator without a fraction and leaves it out with one.
\<close>

theorem timestamp_toString_length:
  assumes "sec < 2 ^ 34" and "ns = 0 \<or> 1000 \<le> ns" and "ns < 1000000000"
  shows "\<exists>l m'. ts_toString (ts_create t sec ns) m str = (l, m')
    \<and> (let txt = dec sec @ fraction_text (ns div 1000) in
        read_bytes m' str (length txt + 1) = txt @ [0] \<and> l = (if ns = 0 then length txt + 1 else length txt))"
proof -
  note f = ts_fields [OF assms(1), of ns t]
  have ns: "ns < 2 ^ 30" using assms(3) by simp
  obtain l m' where r: "ts_toString (ts_create t sec ns) m str = (l, m')"
    "string_at m' str (if ns = 0 then l else l + 1) (dec sec @ fraction_text (ns div 1000))"
    using ts_toString_text [of "ts_create t sec ns" m str] assms(2,3) unfolding f(1) [OF ns] f(2) [OF ns] by blast
  have "(if ns = 0 then l else l + 1) = length (dec sec @ fraction_text (ns div 1000)) + 1"
    using r(2) unfolding string_at_def by blast
  with r show ?thesis unfolding string_at_def Let_def by (cases "ns = 0") auto
qed

theorem timestamp_toString_length_witness:
  "\<exists>l m'. ts_toString (ts_create 0 5 1000) (\<lambda>_. 1) 100 = (l, m') \<and>
     l = length ([53, 46, 48, 48, 48, 48, 48, 49] :: u8 list) \<and> read_bytes m' 100 (l + 1) = [53, 46, 48, 48, 48, 48, 48, 49] @ [0]"
proof -
  have t: "dec 5 @ fraction_text (1000 div 1000) = [53, 46, 48, 48, 48, 48, 48, 49]"
    by (simp add: fraction_text_def dec.simps)
  from timestamp_toString_length [of 5 1000 0 "\<lambda>_. 1" 100] show ?thesis
    unfolding t Let_def by simp
qed

text \<open>
  \<^verbatim>\<open>Time::toString\<close> prints a non-negative time as \<open>H:MM:SS\<close> with its fraction; the hour goes through the unsigned
  conversion, so a negative time prints \<open>4294967296 + hour\<close> instead of a sign.
\<close>

theorem time_toString_prints:
  assumes "- (2 ^ 21) \<le> hour" "hour < 2 ^ 21" "mi < 60" "s < 60" "ns = 0 \<or> 1000 \<le> ns" "ns < 1000000000"
  shows "\<exists>l m'. tm_toString (tm_createTime t hour mi s ns) m str = (l, m') \<and> string_at m' str l
    (dec (nat (if 0 \<le> hour then hour else 4294967296 + hour)) @ clock_text mi s @ fraction_text (ns div 1000))"
proof -
  have h: "hour mod 2 ^ 32 = (if 0 \<le> hour then hour else 4294967296 + hour)"
  proof (cases "0 \<le> hour")
    case True
    with assms(2) show ?thesis by (simp add: mod_pos_pos_trivial)
  next
    case False
    then have "(hour + 2 ^ 32) mod 2 ^ 32 = hour + 2 ^ 32" using assms(1) by (intro mod_pos_pos_trivial) simp_all
    with False show ?thesis by simp
  qed
  have b: "mi < 64" "s < 64" "ns < 2 ^ 30" "mi < 63" "s < 63" using assms by simp_all
  note f = tm_fields [OF assms(1,2) b(1-3), of t]
  show ?thesis using tm_toString_text [of "tm_createTime t hour mi s ns" m str] assms(5,6) b(4,5) unfolding f h by blast
qed

theorem time_toString_prints_witness:
  "\<exists>l m'. tm_toString (tm_createTime 0 (- 1) 2 3 0) (\<lambda>_. 0) 0 = (l, m') \<and>
     read_bytes m' 0 l = dec 4294967295 @ [58, 48, 50, 58, 48, 51, 0]"
proof -
  have "clock_text 2 3 @ fraction_text (0 div 1000) = [58, 48, 50, 58, 48, 51]"
    by (simp add: clock_text_def fraction_text_def)
  with time_toString_prints [of "- 1" 2 3 0 0 "\<lambda>_. 0" 0] show ?thesis by (auto simp: string_at_def)
qed

end
