(* ===== verification/ColumnType.thy ===== *)
theory ColumnType
  imports Prelude BitUtil "HOL-Library.List_Lexorder"
begin

unbundle bit_operations_syntax

text \<open>
  The column types of \<^verbatim>\<open>meta/columnType.h\<close> and \<^verbatim>\<open>meta/columnType.cpp\<close>: the enumeration and its table of
  sizes, the description of a key (\<^verbatim>\<open>unionKeyMeta\<close>) and how it follows a change of the columns, the byte strings
  \<^verbatim>\<open>binaryType\<close>, and the serialised keys \<^verbatim>\<open>unionKey\<close> with their comparison.  Keys live in byte memory; the theory
  shows on which keys the comparison is the lexicographic order of the column values.
\<close>

section \<open>Column types\<close>

datatype COLUMN_TYPE =
    T_UNION | T_UINT8 | T_INT8 | T_UINT16 | T_INT16 | T_UINT32 | T_INT32 | T_UINT64 | T_INT64 | T_BIG_NUMBER
  | T_FLOAT | T_DOUBLE | T_DECIMAL | T_TIMESTAMP | T_DATETIME | T_DATE | T_YEAR | T_TIME | T_BLOB | T_STRING
  | T_JSON | T_XML | T_GEOMETRY | T_SET | T_ENUM | T_BYTE | T_BINARY | T_TEXT | T_BOOL
  | T_CURRENT_VERSION_MAX_TYPE | T_MAX_TYPE

fun TID :: "COLUMN_TYPE \<Rightarrow> nat" where
  "TID T_UNION = 0" | "TID T_UINT8 = 1" | "TID T_INT8 = 2" | "TID T_UINT16 = 3" | "TID T_INT16 = 4"
| "TID T_UINT32 = 5" | "TID T_INT32 = 6" | "TID T_UINT64 = 7" | "TID T_INT64 = 8" | "TID T_BIG_NUMBER = 9"
| "TID T_FLOAT = 10" | "TID T_DOUBLE = 11" | "TID T_DECIMAL = 12" | "TID T_TIMESTAMP = 13" | "TID T_DATETIME = 14"
| "TID T_DATE = 15" | "TID T_YEAR = 16" | "TID T_TIME = 17" | "TID T_BLOB = 18" | "TID T_STRING = 19"
| "TID T_JSON = 20" | "TID T_XML = 21" | "TID T_GEOMETRY = 22" | "TID T_SET = 23" | "TID T_ENUM = 24"
| "TID T_BYTE = 25" | "TID T_BINARY = 26" | "TID T_TEXT = 27" | "TID T_BOOL = 28"
| "TID T_CURRENT_VERSION_MAX_TYPE = 29" | "TID T_MAX_TYPE = 255"

record columnTypeInfo =
  cti_type :: COLUMN_TYPE
  columnTypeSize :: nat
  asIndex :: bool
  cti_fixed :: bool
  stringType :: bool

abbreviation cti :: "COLUMN_TYPE \<Rightarrow> nat \<Rightarrow> bool \<Rightarrow> bool \<Rightarrow> bool \<Rightarrow> columnTypeInfo" where
  "cti t n i f s \<equiv> \<lparr>cti_type = t, columnTypeSize = n, asIndex = i, cti_fixed = f, stringType = s\<rparr>"

definition columnInfos :: "columnTypeInfo list" where
  "columnInfos = [
     cti T_UNION 4 True False False,
     cti T_UINT8 1 True True False,
     cti T_INT8 1 True True False,
     cti T_UINT16 2 True True False,
     cti T_INT16 2 True True False,
     cti T_UINT32 4 True True False,
     cti T_INT32 4 True True False,
     cti T_UINT64 8 True True False,
     cti T_INT64 8 True True False,
     cti T_BIG_NUMBER 4 False False False,
     cti T_FLOAT 4 True True False,
     cti T_DOUBLE 8 True True False,
     cti T_DECIMAL 4 False False True,
     cti T_TIMESTAMP 8 True True False,
     cti T_DATETIME 8 True True False,
     cti T_DATE 4 True True False,
     cti T_YEAR 2 True True False,
     cti T_TIME 8 True True False,
     cti T_BLOB 4 True True False,
     cti T_STRING 4 True False True,
     cti T_JSON 4 False True True,
     cti T_XML 4 False True True,
     cti T_GEOMETRY 4 False True False,
     cti T_SET 8 False True True,
     cti T_ENUM 2 False True True,
     cti T_BYTE 8 False True False,
     cti T_BINARY 4 True False False,
     cti T_TEXT 4 True False True]"

text \<open>
  Lookups in the table.  The table ends at \<^verbatim>\<open>T_TEXT\<close>: for the three later enumerators the C++ code reads past its
  end, and \<open>nth\<close> is unspecified there; the theorems speak of types in the table.
\<close>

definition in_table :: "COLUMN_TYPE \<Rightarrow> bool" where "in_table t \<longleftrightarrow> TID t < length columnInfos"
definition col_fixed :: "COLUMN_TYPE \<Rightarrow> bool" where "col_fixed t = cti_fixed (columnInfos ! TID t)"
definition col_size :: "COLUMN_TYPE \<Rightarrow> nat" where "col_size t = columnTypeSize (columnInfos ! TID t)"
definition col_asIndex :: "COLUMN_TYPE \<Rightarrow> bool" where "col_asIndex t = asIndex (columnInfos ! TID t)"

lemma columnInfos_aligned: "in_table t \<Longrightarrow> cti_type (columnInfos ! TID t) = t"
  by (cases t) (simp_all add: in_table_def columnInfos_def)

lemma in_table_iff: "in_table t \<longleftrightarrow> t \<notin> {T_BOOL, T_CURRENT_VERSION_MAX_TYPE, T_MAX_TYPE}"
  by (cases t) (simp_all add: in_table_def columnInfos_def)

lemma col_simps [simp]:
  "col_fixed T_UINT8" "col_fixed T_INT8" "col_fixed T_UINT16" "col_fixed T_INT16" "col_fixed T_UINT32" "col_fixed T_INT32"
  "col_fixed T_UINT64" "col_fixed T_INT64" "col_fixed T_FLOAT" "col_fixed T_DOUBLE" "\<not> col_fixed T_STRING"
  "col_size T_UINT8 = 1" "col_size T_INT8 = 1" "col_size T_UINT16 = 2" "col_size T_INT16 = 2" "col_size T_UINT32 = 4"
  "col_size T_INT32 = 4" "col_size T_UINT64 = 8" "col_size T_INT64 = 8" "col_size T_FLOAT = 4" "col_size T_DOUBLE = 8"
  by (simp_all add: col_fixed_def col_size_def columnInfos_def)

lemma col_size_bound: "in_table t \<Longrightarrow> 1 \<le> col_size t \<and> col_size t \<le> 8"
  by (cases t) (simp_all add: in_table_def col_size_def columnInfos_def)

section \<open>hashBinary\<close>

text \<open>\<^verbatim>\<open>*s++\<close> is a signed \<^verbatim>\<open>char\<close>, extended by sign when it is added.\<close>

fun hash_loop :: "u32 \<Rightarrow> u8 list \<Rightarrow> u32" where
  "hash_loop h [] = h"
| "hash_loop h (c # cs) = hash_loop (h XOR (push_bit 5 h + signed c + drop_bit 2 h)) cs"

definition hashBinary :: "mem \<Rightarrow> nat \<Rightarrow> nat \<Rightarrow> u32" where
  "hashBinary m s sz = hash_loop 1315423911 (read_bytes m s sz) AND 0x7FFFFFFF"

section \<open>unionKeyMeta\<close>

datatype KEY_TYPE = PRIMARY_KEY | UNIQUE_KEY | INDEX

fun KID :: "KEY_TYPE \<Rightarrow> nat" where
  "KID PRIMARY_KEY = 0" | "KID UNIQUE_KEY = 1" | "KID INDEX = 2"

record uniqueKeyTypePair =
  kc_type :: COLUMN_TYPE
  kc_columnId :: u16

record unionKeyMeta =
  uk_columnCount :: u16
  uk_size :: u16
  uk_fixed :: u8
  uk_keyType :: u8
  uk_keyId :: u8
  uk_varColumnCount :: u8
  uk_columnInfo :: "uniqueKeyTypePair list"

text \<open>Packed, the structure has 11 bytes of which the one inline \<^verbatim>\<open>uniqueKeyTypePair\<close> takes 3.\<close>

definition ukm_memSize :: "nat \<Rightarrow> nat" where
  "ukm_memSize keyCount = nat (11 + 3 * (int keyCount - 1))"

definition ukm_bytes :: "unionKeyMeta \<Rightarrow> u8 list" where
  "ukm_bytes k = le_bytes 2 (unat (uk_columnCount k)) @ le_bytes 2 (unat (uk_size k)) @
     [uk_fixed k, uk_keyType k, uk_keyId k, uk_varColumnCount k] @
     concat (map (\<lambda>p. word_of_nat (TID (kc_type p)) # le_bytes 2 (unat (kc_columnId p))) (uk_columnInfo k))"

text \<open>\<^verbatim>\<open>memcmp\<close> on byte lists of equal length: the difference of the first pair that differs.\<close>

fun memcmp :: "u8 list \<Rightarrow> u8 list \<Rightarrow> int" where
  "memcmp (x # xs) (y # ys) = (if x \<noteq> y then int (unat x) - int (unat y) else memcmp xs ys)"
| "memcmp _ _ = 0"

text \<open>
  \<^verbatim>\<open>operator==\<close> as written: the parenthesis of \<^verbatim>\<open>memcmp\<close> closes after \<^verbatim>\<open>!= 0\<close>, so the number of bytes compared is the
  truth value of \<^verbatim>\<open>memSize(columnCount) != 0\<close>.
\<close>

definition ukm_eq :: "unionKeyMeta \<Rightarrow> unionKeyMeta \<Rightarrow> bool" where
  "ukm_eq a b =
     (let n = (if ukm_memSize (unat (uk_columnCount a)) \<noteq> 0 then 1 else 0)
      in \<not> (uk_columnCount a \<noteq> uk_columnCount b \<or> memcmp (take n (ukm_bytes a)) (take n (ukm_bytes b)) \<noteq> 0))"

definition ukm_neq :: "unionKeyMeta \<Rightarrow> unionKeyMeta \<Rightarrow> bool" where
  "ukm_neq a b = (\<not> ukm_eq a b)"

text \<open>The constructor and the assignment copy \<^verbatim>\<open>memSize\<close> bytes, that is the whole description.\<close>

definition ukm_copy :: "unionKeyMeta \<Rightarrow> unionKeyMeta" where
  "ukm_copy dest = dest\<lparr>uk_columnInfo := take (unat (uk_columnCount dest)) (uk_columnInfo dest)\<rparr>"

definition update_column :: "u16 \<Rightarrow> u16 \<Rightarrow> COLUMN_TYPE \<Rightarrow> unionKeyMeta \<Rightarrow> nat \<Rightarrow> unionKeyMeta" where
  "update_column from to newType k i =
     (let p = uk_columnInfo k ! i; c = kc_columnId p; t = kc_type p in
      if c < min from to \<or> c > max from to then k
      else if c = from then
        let k = (if col_fixed t \<and> \<not> col_fixed newType then
                   k\<lparr>uk_size := uk_size k - word_of_nat (col_size t) + 2, uk_varColumnCount := uk_varColumnCount k + 1\<rparr>
                 else if \<not> col_fixed t \<and> col_fixed newType then
                   k\<lparr>uk_size := uk_size k - 2 + word_of_nat (col_size newType), uk_varColumnCount := uk_varColumnCount k - 1\<rparr>
                 else if col_fixed t then
                   k\<lparr>uk_size := uk_size k - word_of_nat (col_size t) + word_of_nat (col_size newType)\<rparr>
                 else k)
        in k\<lparr>uk_columnInfo := (uk_columnInfo k)[i := p\<lparr>kc_columnId := to, kc_type := newType\<rparr>]\<rparr>
      else k\<lparr>uk_columnInfo := (uk_columnInfo k)[i := p\<lparr>kc_columnId := (if from > to then c + 1 else c - 1)\<rparr>]\<rparr>)"

definition ukm_columnUpdate :: "u16 \<Rightarrow> u16 \<Rightarrow> COLUMN_TYPE \<Rightarrow> unionKeyMeta \<Rightarrow> unionKeyMeta" where
  "ukm_columnUpdate from to newType k =
     (let k = foldl (update_column from to newType) k [0..<unat (uk_columnCount k)] in
      if uk_varColumnCount k > 0 \<and> uk_fixed k > 0 then k\<lparr>uk_size := uk_size k + 2, uk_fixed := 0\<rparr>
      else if uk_varColumnCount k = 0 \<and> uk_fixed k = 0 then k\<lparr>uk_size := uk_size k - 2, uk_fixed := 1\<rparr>
      else k)"

section \<open>binaryType\<close>

record binaryType =
  bt_size :: u16
  bt_data :: nat

definition bt_hash :: "mem \<Rightarrow> binaryType \<Rightarrow> u32" where
  "bt_hash m b = hashBinary m (bt_data b) (unat (bt_size b))"

definition bt_compare :: "mem \<Rightarrow> binaryType \<Rightarrow> binaryType \<Rightarrow> int" where
  "bt_compare m s d =
     (let ns = unat (bt_size s); nd = unat (bt_size d) in
      if ns = nd then memcmp (read_bytes m (bt_data s) ns) (read_bytes m (bt_data d) ns)
      else if ns < nd then
        (if memcmp (read_bytes m (bt_data s) ns) (read_bytes m (bt_data d) ns) > 0 then 1 else -1)
      else
        (if memcmp (read_bytes m (bt_data s) nd) (read_bytes m (bt_data d) nd) \<ge> 0 then 1 else -1))"

definition bt_less :: "mem \<Rightarrow> binaryType \<Rightarrow> binaryType \<Rightarrow> bool" where "bt_less m s d = (bt_compare m s d < 0)"
definition bt_eq :: "mem \<Rightarrow> binaryType \<Rightarrow> binaryType \<Rightarrow> bool" where "bt_eq m s d = (bt_compare m s d = 0)"
definition bt_greater :: "mem \<Rightarrow> binaryType \<Rightarrow> binaryType \<Rightarrow> bool" where "bt_greater m s d = (bt_compare m s d > 0)"

section \<open>IEEE 754 numbers\<close>

text \<open>
  \<^verbatim>\<open>float\<close> and \<^verbatim>\<open>double\<close> columns are compared through a subtraction.  A number is \<open>m * 2 ^ e\<close>, an infinity or not a
  number; \<open>p\<close> is the number of stored bits of the significand (23 or 52) and \<open>w\<close> the width of the exponent (8 or 11).
  The result of a subtraction is rounded to nearest, ties to even.
\<close>

datatype fp = Fin int int | Inf bool | NaN

definition fp_of :: "nat \<Rightarrow> nat \<Rightarrow> nat \<Rightarrow> fp" where
  "fp_of p w v =
     (let neg = (v div 2 ^ (p + w) mod 2 = 1); e = v div 2 ^ p mod 2 ^ w; f = v mod 2 ^ p;
          bias = 2 ^ (w - 1) - 1 :: int
      in if e = 2 ^ w - 1 then (if f = 0 then Inf neg else NaN)
         else let m = int (if e = 0 then f else 2 ^ p + f)
              in Fin (if neg then - m else m) (int (max e 1) - bias - int p))"

definition fp_round :: "nat \<Rightarrow> nat \<Rightarrow> int \<Rightarrow> int \<Rightarrow> fp" where
  "fp_round p w d e =
     (let a = nat \<bar>d\<bar>; excess = bitlen a - (p + 1);
          q = a div 2 ^ excess; r = a mod 2 ^ excess;
          q = (if 2 * r > 2 ^ excess \<or> 2 * r = 2 ^ excess \<and> odd q then q + 1 else q);
          e' = e + int excess
      in if int (bitlen q) + e' > 2 ^ (w - 1) then Inf (d < 0)
         else Fin (if d < 0 then - int q else int q) e')"

fun fp_sub :: "nat \<Rightarrow> nat \<Rightarrow> fp \<Rightarrow> fp \<Rightarrow> fp" where
  "fp_sub p w (Fin m1 e1) (Fin m2 e2) =
     (let e = min e1 e2 in fp_round p w (m1 * 2 ^ nat (e1 - e) - m2 * 2 ^ nat (e2 - e)) e)"
| "fp_sub p w (Inf s) (Inf t) = (if s = t then NaN else Inf s)"
| "fp_sub p w (Inf s) (Fin m e) = Inf s"
| "fp_sub p w (Fin m e) (Inf t) = Inf (\<not> t)"
| "fp_sub p w _ _ = NaN"

fun fp_less :: "fp \<Rightarrow> fp \<Rightarrow> bool" where
  "fp_less (Fin m1 e1) (Fin m2 e2) = (let e = min e1 e2 in m1 * 2 ^ nat (e1 - e) < m2 * 2 ^ nat (e2 - e))"
| "fp_less (Inf s) (Inf t) = (s \<and> \<not> t)"
| "fp_less (Inf s) (Fin m e) = s"
| "fp_less (Fin m e) (Inf t) = (\<not> t)"
| "fp_less _ _ = False"

text \<open>\<^verbatim>\<open>0.000001f\<close> and its negation; widening to \<^verbatim>\<open>double\<close> keeps the value.\<close>

definition micro :: fp where "micro = fp_of 23 8 0x358637BD"
definition neg_micro :: fp where "neg_micro = fp_of 23 8 0xB58637BD"

definition fp_compare :: "nat \<Rightarrow> nat \<Rightarrow> fp \<Rightarrow> fp \<Rightarrow> int" where
  "fp_compare p w x y =
     (let d = fp_sub p w x y in
      if fp_less micro d \<or> fp_less d neg_micro then (if fp_less y x then 1 else -1) else 0)"

section \<open>unionKey\<close>

record unionKey =
  key_ptr :: nat
  key_meta :: unionKeyMeta

abbreviation sval :: "nat \<Rightarrow> nat \<Rightarrow> int" where
  "sval n v \<equiv> (if 2 * v < 256 ^ n then int v else int v - 256 ^ n)"

text \<open>
  One column of \<^verbatim>\<open>unionKey::compare\<close>: 0 continues with the next column.  The differences of 8- and 16-bit values
  are computed as \<^verbatim>\<open>int\<close>; those of 32-bit values wrap at 32 bits and are returned as \<^verbatim>\<open>int\<close> (for \<^verbatim>\<open>int32_t\<close> the
  overflow is undefined behaviour of which the two's-complement result is modelled).  A type the switch does not list
  aborts.
\<close>

fun column_compare :: "mem \<Rightarrow> COLUMN_TYPE \<Rightarrow> nat \<Rightarrow> nat \<Rightarrow> fault + int" where
  "column_compare m T_UINT8 s d = Inr (int (rd 1 m s) - int (rd 1 m d))"
| "column_compare m T_INT8 s d = Inr (sval 1 (rd 1 m s) - sval 1 (rd 1 m d))"
| "column_compare m T_UINT16 s d = Inr (int (rd 2 m s) - int (rd 2 m d))"
| "column_compare m T_INT16 s d = Inr (sval 2 (rd 2 m s) - sval 2 (rd 2 m d))"
| "column_compare m T_UINT32 s d = Inr (sint (word_of_nat (rd 4 m s) - word_of_nat (rd 4 m d) :: u32))"
| "column_compare m T_INT32 s d = Inr (sint (word_of_nat (rd 4 m s) - word_of_nat (rd 4 m d) :: u32))"
| "column_compare m T_UINT64 s d =
     Inr (if rd 8 m s \<noteq> rd 8 m d then (if rd 8 m s > rd 8 m d then 1 else -1) else 0)"
| "column_compare m T_INT64 s d =
     (let a = sval 8 (rd 8 m s); b = sval 8 (rd 8 m d) in Inr (if a \<noteq> b then (if a > b then 1 else -1) else 0))"
| "column_compare m T_FLOAT s d = Inr (fp_compare 23 8 (fp_of 23 8 (rd 4 m s)) (fp_of 23 8 (rd 4 m d)))"
| "column_compare m T_DOUBLE s d = Inr (fp_compare 52 11 (fp_of 52 11 (rd 8 m s)) (fp_of 52 11 (rd 8 m d)))"
| "column_compare m T_STRING s d =
     Inr (bt_compare m \<lparr>bt_size = word_of_nat (rd 2 m s), bt_data = s + 2\<rparr> \<lparr>bt_size = word_of_nat (rd 2 m d), bt_data = d + 2\<rparr>)"
| "column_compare m T_BLOB s d =
     Inr (bt_compare m \<lparr>bt_size = word_of_nat (rd 2 m s), bt_data = s + 2\<rparr> \<lparr>bt_size = word_of_nat (rd 2 m d), bt_data = d + 2\<rparr>)"
| "column_compare m _ s d = Inl Aborted"

definition column_advance :: "mem \<Rightarrow> COLUMN_TYPE \<Rightarrow> nat \<Rightarrow> nat" where
  "column_advance m t a = (if col_fixed t then a + col_size t else a + (2 + rd 2 m a))"

fun compare_loop :: "mem \<Rightarrow> COLUMN_TYPE list \<Rightarrow> nat \<Rightarrow> nat \<Rightarrow> fault + int" where
  "compare_loop m [] s d = Inr 0"
| "compare_loop m (t # ts) s d =
     sbind (column_compare m t s d)
       (\<lambda>c. if c \<noteq> 0 then Inr c else compare_loop m ts (column_advance m t s) (column_advance m t d))"

definition key_types :: "unionKeyMeta \<Rightarrow> COLUMN_TYPE list" where
  "key_types k = map kc_type (take (unat (uk_columnCount k)) (uk_columnInfo k))"

definition uk_startOffset :: "unionKeyMeta \<Rightarrow> nat" where
  "uk_startOffset k = (if uk_fixed k \<noteq> 0 then 0 else 2)"

definition uk_compare :: "mem \<Rightarrow> unionKey \<Rightarrow> unionKey \<Rightarrow> fault + int" where
  "uk_compare m a b =
     (if key_meta a \<noteq> key_meta b then Inl AssertFailed
      else compare_loop m (key_types (key_meta a)) (key_ptr a + uk_startOffset (key_meta b)) (key_ptr b + uk_startOffset (key_meta b)))"

definition uk_eq :: "mem \<Rightarrow> unionKey \<Rightarrow> unionKey \<Rightarrow> bool" where
  "uk_eq m a b =
     (if uk_fixed (key_meta a) \<noteq> 0 then
        memcmp (read_bytes m (key_ptr a) (unat (uk_size (key_meta a)))) (read_bytes m (key_ptr b) (unat (uk_size (key_meta a)))) = 0
      else if rd 2 m (key_ptr a) \<noteq> rd 2 m (key_ptr b) then False
      else memcmp (read_bytes m (key_ptr a + 2) (rd 2 m (key_ptr a))) (read_bytes m (key_ptr b + 2) (rd 2 m (key_ptr a))) = 0)"

definition uk_externSize :: "unionKeyMeta \<Rightarrow> nat" where
  "uk_externSize k = unat (uk_varColumnCount k) * 2"

definition uk_appendValue :: "mem \<Rightarrow> unionKey \<Rightarrow> u8 list \<Rightarrow> u16 \<Rightarrow> nat \<Rightarrow> u16 \<Rightarrow> mem \<times> u16" where
  "uk_appendValue m k val len columnId offset =
     (let t = kc_type (uk_columnInfo (key_meta k) ! columnId) in
      if col_fixed t then
        (write_bytes m (key_ptr k + unat offset) (take (col_size t) val), offset + word_of_nat (col_size t))
      else
        (write_bytes (wr 2 m (key_ptr k + unat offset) (unat len)) (key_ptr k + unat offset + 2) (take (unat len) val),
         offset + 2 + len))"

definition uk_setVarSize :: "mem \<Rightarrow> unionKey \<Rightarrow> u16 \<Rightarrow> mem" where
  "uk_setVarSize m k sz = wr 2 m (key_ptr k) (unat sz)"

definition uk_hash :: "mem \<Rightarrow> unionKey \<Rightarrow> u32" where
  "uk_hash m k = (if uk_fixed (key_meta k) \<noteq> 0 then hashBinary m (key_ptr k) (unat (uk_size (key_meta k)))
                  else hashBinary m (key_ptr k) (rd 2 m (key_ptr k)))"

section \<open>Byte strings compare lexicographically\<close>

lemma uint_eqD: "uint x = uint y \<Longrightarrow> x = (y :: u8)"
  by (rule unsigned_word_eqI)

lemma Nil_less_iff: "[] < ys \<longleftrightarrow> ys \<noteq> []"
  by (cases ys) simp_all

lemma memcmp_less: "xs < ys \<longleftrightarrow> memcmp xs ys < 0 \<or> memcmp xs ys = 0 \<and> length xs < length ys"
  by (induction xs ys rule: memcmp.induct) (auto simp: word_less_def Nil_less_iff dest: uint_eqD)

lemma memcmp_eq: "length xs = length ys \<Longrightarrow> memcmp xs ys = 0 \<longleftrightarrow> xs = ys"
  by (induction xs ys rule: memcmp.induct) (auto dest: uint_eqD)

lemma memcmp_take: "n = min (length xs) (length ys) \<Longrightarrow> memcmp (take n xs) (take n ys) = memcmp xs ys"
  by (induction xs ys arbitrary: n rule: memcmp.induct) auto

definition bt_bytes :: "mem \<Rightarrow> binaryType \<Rightarrow> u8 list" where
  "bt_bytes m b = read_bytes m (bt_data b) (unat (bt_size b))"

lemma take_read_bytes: "n \<le> k \<Longrightarrow> take n (read_bytes m a k) = read_bytes m a n"
  by (simp add: read_bytes_def take_map)

lemma bt_compare_less: "bt_compare m s d < 0 \<longleftrightarrow> bt_bytes m s < bt_bytes m d"
  and bt_compare_eq: "bt_compare m s d = 0 \<longleftrightarrow> bt_bytes m s = bt_bytes m d"
proof -
  let ?x = "bt_bytes m s" and ?y = "bt_bytes m d" and ?n = "min (unat (bt_size s)) (unat (bt_size d))"
  have l: "length ?x = unat (bt_size s)" "length ?y = unat (bt_size d)" by (simp_all add: bt_bytes_def)
  have c: "memcmp (read_bytes m (bt_data s) ?n) (read_bytes m (bt_data d) ?n) = memcmp ?x ?y"
    using memcmp_take [of ?n ?x ?y] by (simp add: l) (simp add: bt_bytes_def take_read_bytes)
  consider "unat (bt_size s) = unat (bt_size d)" | "unat (bt_size s) < unat (bt_size d)" | "unat (bt_size s) > unat (bt_size d)"
    by linarith
  then have "(bt_compare m s d < 0 \<longleftrightarrow> ?x < ?y) \<and> (bt_compare m s d = 0 \<longleftrightarrow> ?x = ?y)"
  proof cases
    case 1
    then show ?thesis using c memcmp_less [of ?x ?y] memcmp_eq [of ?x ?y] l by (simp add: bt_compare_def)
  next
    case 2
    then have "?x \<noteq> ?y" using l by auto
    with 2 show ?thesis using c memcmp_less [of ?x ?y] l by (simp add: bt_compare_def Let_def) linarith
  next
    case 3
    then have "?x \<noteq> ?y" using l by auto
    with 3 show ?thesis using c memcmp_less [of ?x ?y] l by (simp add: bt_compare_def Let_def)
  qed
  then show "bt_compare m s d < 0 \<longleftrightarrow> ?x < ?y" "bt_compare m s d = 0 \<longleftrightarrow> ?x = ?y" by blast+
qed

section \<open>Keys compare lexicographically\<close>

text \<open>The value of a key column: an integer or a byte string, ordered within its kind.\<close>

datatype kval = KInt int | KBytes "u8 list"

instantiation kval :: linorder
begin

fun less_kval :: "kval \<Rightarrow> kval \<Rightarrow> bool" where
  "less_kval (KInt a) (KInt b) = (a < b)"
| "less_kval (KInt a) (KBytes b) = True"
| "less_kval (KBytes a) (KInt b) = False"
| "less_kval (KBytes a) (KBytes b) = (a < b)"

definition less_eq_kval :: "kval \<Rightarrow> kval \<Rightarrow> bool" where
  "less_eq_kval a b \<longleftrightarrow> a < b \<or> a = b"

instance
proof
  fix x y z :: kval
  show "x < y \<longleftrightarrow> x \<le> y \<and> \<not> y \<le> x" by (cases x; cases y) (auto simp: less_eq_kval_def)
  show "x \<le> x" by (simp add: less_eq_kval_def)
  show "x \<le> y \<Longrightarrow> y \<le> z \<Longrightarrow> x \<le> z" by (cases x; cases y; cases z) (auto simp: less_eq_kval_def)
  show "x \<le> y \<Longrightarrow> y \<le> x \<Longrightarrow> x = y" by (cases x; cases y) (auto simp: less_eq_kval_def)
  show "x \<le> y \<or> y \<le> x" by (cases x; cases y) (auto simp: less_eq_kval_def)
qed

end

fun col_val :: "mem \<Rightarrow> COLUMN_TYPE \<Rightarrow> nat \<Rightarrow> kval" where
  "col_val m T_UINT8 a = KInt (int (rd 1 m a))"
| "col_val m T_INT8 a = KInt (sval 1 (rd 1 m a))"
| "col_val m T_UINT16 a = KInt (int (rd 2 m a))"
| "col_val m T_INT16 a = KInt (sval 2 (rd 2 m a))"
| "col_val m T_UINT32 a = KInt (int (rd 4 m a))"
| "col_val m T_INT32 a = KInt (sval 4 (rd 4 m a))"
| "col_val m T_UINT64 a = KInt (int (rd 8 m a))"
| "col_val m T_INT64 a = KInt (sval 8 (rd 8 m a))"
| "col_val m t a = KBytes (read_bytes m (a + 2) (rd 2 m a))"

fun key_vals :: "mem \<Rightarrow> COLUMN_TYPE list \<Rightarrow> nat \<Rightarrow> kval list" where
  "key_vals m [] a = []"
| "key_vals m (t # ts) a = col_val m t a # key_vals m ts (column_advance m t a)"

definition exact_types :: "COLUMN_TYPE set" where
  "exact_types = {T_UINT8, T_INT8, T_UINT16, T_INT16, T_UINT32, T_INT32, T_UINT64, T_INT64, T_STRING}"

text \<open>Two values of a 32-bit column that are less than $2^{31}$ apart; other columns are not restricted.\<close>

fun near :: "COLUMN_TYPE \<Rightarrow> kval \<Rightarrow> kval \<Rightarrow> bool" where
  "near t (KInt a) (KInt b) \<longleftrightarrow> t \<notin> {T_UINT32, T_INT32} \<or> (- (2 ^ 31) \<le> a - b \<and> a - b < 2 ^ 31)"
| "near t _ _ \<longleftrightarrow> True"

lemma sint_diff:
  assumes "- (2 ^ 31) \<le> a - b" and "a - b < 2 ^ 31"
  shows "sint (word_of_int a - word_of_int b :: u32) = a - b"
  using assms by (simp add: signed_of_int signed_take_bit_int_eq_self_iff flip: of_int_diff)

lemma word_sval: "(word_of_nat v :: u32) = word_of_int (sval 4 v)"
proof -
  have "(word_of_int (int v - 256 ^ 4) :: u32) = word_of_int (int v) - word_of_int (2 ^ 32)" by simp
  also have "(word_of_int (2 ^ 32) :: u32) = 0" by (simp add: word_of_int_2p_len flip: word_of_int_power_hom)
  finally show ?thesis by simp
qed

text \<open>One column of the comparison against the values.\<close>

definition agrees :: "fault + int \<Rightarrow> 'a::linorder \<Rightarrow> 'a \<Rightarrow> bool" where
  "agrees r x y \<longleftrightarrow> (\<exists>c. r = Inr c \<and> (c < 0 \<longleftrightarrow> x < y) \<and> (c = 0 \<longleftrightarrow> x = y))"

lemma column_compare_agrees:
  assumes "t \<in> exact_types" and "near t (col_val m t s) (col_val m t d)"
  shows "agrees (column_compare m t s d) (col_val m t s) (col_val m t d)"
proof -
  have rd2: "unat (word_of_nat (rd 2 m a) :: u16) = rd 2 m a" for a
    using rd_bound [of 2 m a] by (simp add: unat_of_nat)
  consider "t = T_UINT32" | "t = T_INT32" | "t = T_STRING" | "t \<in> {T_UINT8, T_INT8, T_UINT16, T_INT16, T_UINT64, T_INT64}"
    using assms(1) unfolding exact_types_def by blast
  then show ?thesis
  proof cases
    case 1
    have "sint (word_of_int (int (rd 4 m s)) - word_of_int (int (rd 4 m d)) :: u32) = int (rd 4 m s) - int (rd 4 m d)"
      using assms(2) 1 by (intro sint_diff) simp_all
    with 1 show ?thesis by (simp add: agrees_def)
  next
    case 2
    have "sint (word_of_int (sval 4 (rd 4 m s)) - word_of_int (sval 4 (rd 4 m d)) :: u32) = sval 4 (rd 4 m s) - sval 4 (rd 4 m d)"
      using assms(2) 2 by (intro sint_diff) simp_all
    with 2 show ?thesis by (simp only: agrees_def column_compare.simps col_val.simps word_sval less_kval.simps kval.inject) simp
  next
    case 3
    then show ?thesis by (simp add: agrees_def bt_compare_less bt_compare_eq bt_bytes_def rd2)
  next
    case 4
    then show ?thesis by (auto simp: agrees_def Let_def simp del: rd_1)
  qed
qed

text \<open>The hypotheses about the 32-bit columns, as long as the comparison looks at them.\<close>

fun near_keys :: "COLUMN_TYPE list \<Rightarrow> kval list \<Rightarrow> kval list \<Rightarrow> bool" where
  "near_keys (t # ts) (v # vs) (w # ws) \<longleftrightarrow> near t v w \<and> (v = w \<longrightarrow> near_keys ts vs ws)"
| "near_keys _ _ _ \<longleftrightarrow> True"

lemma compare_loop_agrees:
  assumes "set ts \<subseteq> exact_types" and "near_keys ts (key_vals m ts s) (key_vals m ts d)"
  shows "agrees (compare_loop m ts s d) (key_vals m ts s) (key_vals m ts d)"
  using assms
proof (induction ts arbitrary: s d)
  case Nil
  then show ?case by (simp add: agrees_def)
next
  case (Cons t ts)
  obtain c where c: "column_compare m t s d = Inr c" "c < 0 \<longleftrightarrow> col_val m t s < col_val m t d" "c = 0 \<longleftrightarrow> col_val m t s = col_val m t d"
    using column_compare_agrees [of t m s d] Cons.prems by (auto simp: agrees_def)
  show ?case
  proof (cases "c = 0")
    case True
    with Cons c show ?thesis by (simp add: agrees_def)
  next
    case False
    with c show ?thesis by (auto simp: agrees_def)
  qed
qed

section \<open>Keys follow a change of the columns\<close>

text \<open>Where column \<open>c\<close> is after the column at \<open>from\<close> has moved to \<open>to\<close>, and what becomes of an entry of a key.\<close>

definition moved_id :: "u16 \<Rightarrow> u16 \<Rightarrow> u16 \<Rightarrow> u16" where
  "moved_id from to c =
     (if c < min from to \<or> c > max from to then c else if c = from then to else if from > to then c + 1 else c - 1)"

definition moved_entry :: "u16 \<Rightarrow> u16 \<Rightarrow> COLUMN_TYPE \<Rightarrow> uniqueKeyTypePair \<Rightarrow> uniqueKeyTypePair" where
  "moved_entry from to newType p =
     p\<lparr>kc_columnId := moved_id from to (kc_columnId p), kc_type := (if kc_columnId p = from then newType else kc_type p)\<rparr>"

text \<open>The bytes an entry takes in a serialised key, apart from the characters of a string.\<close>

definition entry_width :: "uniqueKeyTypePair \<Rightarrow> nat" where
  "entry_width p = (if col_fixed (kc_type p) then col_size (kc_type p) else 2)"

definition var_entries :: "uniqueKeyTypePair list \<Rightarrow> nat" where
  "var_entries ps = length (filter (\<lambda>p. \<not> col_fixed (kc_type p)) ps)"

definition width_sum :: "uniqueKeyTypePair list \<Rightarrow> nat" where
  "width_sum ps = sum_list (map entry_width ps)"

definition ukm_wf :: "unionKeyMeta \<Rightarrow> bool" where
  "ukm_wf k \<longleftrightarrow> unat (uk_columnCount k) = length (uk_columnInfo k) \<and>
     uk_varColumnCount k = word_of_nat (var_entries (uk_columnInfo k)) \<and>
     uk_fixed k = (if var_entries (uk_columnInfo k) = 0 then 1 else 0) \<and>
     uk_size k = word_of_nat (width_sum (uk_columnInfo k))"

lemma update_column_effect:
  fixes fr to :: u16 and T :: COLUMN_TYPE
  assumes "i < length (uk_columnInfo k)"
  defines "k' \<equiv> update_column fr to T k i" and "p \<equiv> uk_columnInfo k ! i" and "q \<equiv> moved_entry fr to T (uk_columnInfo k ! i)"
  shows "uk_columnInfo k' = (uk_columnInfo k)[i := q]"
    and "uk_size k' - word_of_nat (entry_width q) = uk_size k - word_of_nat (entry_width p)"
    and "uk_varColumnCount k' - word_of_nat (var_entries [q]) = uk_varColumnCount k - word_of_nat (var_entries [p])"
    and "uk_columnCount k' = uk_columnCount k" and "uk_fixed k' = uk_fixed k"
  using assms(1)
  by (auto simp: k'_def p_def q_def update_column_def moved_entry_def moved_id_def entry_width_def var_entries_def Let_def)

lemma width_sum_Cons [simp]: "width_sum (p # ps) = entry_width p + width_sum ps"
  and width_sum_append [simp]: "width_sum (ps @ qs) = width_sum ps + width_sum qs"
  by (simp_all add: width_sum_def)

lemma entries_Nil [simp]: "width_sum [] = 0" "var_entries [] = 0"
  by (simp_all add: width_sum_def var_entries_def)

lemma var_entries_Cons: "var_entries (p # ps) = var_entries [p] + var_entries ps"
  and var_entries_append [simp]: "var_entries (ps @ qs) = var_entries ps + var_entries qs"
  by (simp_all add: var_entries_def)

lemma swap_summand:
  fixes s :: "'a::ab_group_add"
  assumes "s' - q = s - p" and "s - (a + (p + b)) = t"
  shows "s' - (a + (q + b)) = t"
proof -
  have "s' - (a + (q + b)) = (s' - q) - (a + b)" by (simp add: algebra_simps)
  also have "\<dots> = s - (a + (p + b))" unfolding assms(1) by (simp add: algebra_simps)
  finally show ?thesis using assms(2) by simp
qed

lemma update_columns:
  assumes "j \<le> length (uk_columnInfo k)"
  shows "let k' = foldl (update_column fr to T) k [0..<j]; ps = uk_columnInfo k; qs = map (moved_entry fr to T) (take j ps) @ drop j ps in
    uk_columnInfo k' = qs \<and>
    uk_size k' - word_of_nat (width_sum qs) = uk_size k - word_of_nat (width_sum ps) \<and>
    uk_varColumnCount k' - word_of_nat (var_entries qs) = uk_varColumnCount k - word_of_nat (var_entries ps) \<and>
    uk_columnCount k' = uk_columnCount k \<and> uk_fixed k' = uk_fixed k"
  using assms
proof (induction j)
  case 0
  then show ?case by simp
next
  case (Suc j)
  let ?ps = "uk_columnInfo k" and ?f = "moved_entry fr to T"
  let ?k = "foldl (update_column fr to T) k [0..<j]"
  let ?a = "map ?f (take j ?ps)" and ?p = "?ps ! j" and ?b = "drop (Suc j) ?ps"
  have IH: "uk_columnInfo ?k = ?a @ ?p # ?b"
    "uk_size ?k - word_of_nat (width_sum (?a @ ?p # ?b)) = uk_size k - word_of_nat (width_sum ?ps)"
    "uk_varColumnCount ?k - word_of_nat (var_entries (?a @ ?p # ?b)) = uk_varColumnCount k - word_of_nat (var_entries ?ps)"
    "uk_columnCount ?k = uk_columnCount k" "uk_fixed ?k = uk_fixed k"
    using Suc Cons_nth_drop_Suc [of j ?ps] unfolding Let_def by simp_all
  have len: "length ?a = j" using Suc.prems by simp
  have nth: "uk_columnInfo ?k ! j = ?p" using len by (simp add: IH(1) nth_append)
  have eq: "map ?f (take (Suc j) ?ps) @ ?b = ?a @ ?f ?p # ?b" using Suc.prems by (simp add: take_Suc_conv_app_nth)
  note u = update_column_effect [of j ?k fr to T, unfolded nth]
  have i: "j < length (uk_columnInfo ?k)" using IH(1) len by simp
  have "(?a @ ?p # ?b)[j := ?f ?p] = ?a @ ?f ?p # ?b" using len by (simp add: list_update_append)
  moreover have "uk_size (update_column fr to T ?k j) - word_of_nat (width_sum (?a @ ?f ?p # ?b)) = uk_size k - word_of_nat (width_sum ?ps)"
    using IH(2) unfolding width_sum_append width_sum_Cons of_nat_add by (rule swap_summand [OF u(2) [OF i]])
  moreover have "uk_varColumnCount (update_column fr to T ?k j) - word_of_nat (var_entries (?a @ ?f ?p # ?b)) =
      uk_varColumnCount k - word_of_nat (var_entries ?ps)"
    using IH(3) unfolding var_entries_append var_entries_Cons [of _ ?b] of_nat_add by (rule swap_summand [OF u(3) [OF i]])
  ultimately show ?case unfolding Let_def using u(1,4,5) [OF i] IH(1,4,5) by (simp add: eq)
qed

text \<open>The list of columns after a move, as the table's column array has it.\<close>

definition move_column :: "nat \<Rightarrow> nat \<Rightarrow> 'a list \<Rightarrow> 'a list" where
  "move_column f t xs = (let ys = take f xs @ drop (Suc f) xs in take t ys @ xs ! f # drop t ys)"

lemma insert_nth:
  "t \<le> length ys \<Longrightarrow> (take t ys @ x # drop t ys) ! i = (if i < t then ys ! i else if i = t then x else ys ! (i - 1))"
  by (auto simp: nth_append nth_Cons')

lemma remove_nth:
  "f < length xs \<Longrightarrow> i < length xs - 1 \<Longrightarrow> (take f xs @ drop (Suc f) xs) ! i = (if i < f then xs ! i else xs ! (i + 1))"
  by (auto simp: nth_append)

lemma move_column_nth:
  assumes "f < length xs" and "t < length xs" and "c < length xs"
  shows "move_column f t xs ! (if c < min f t \<or> c > max f t then c else if c = f then t else if f > t then c + 1 else c - 1) = xs ! c"
proof -
  let ?ys = "take f xs @ drop (Suc f) xs"
  have "t \<le> length ?ys" using assms by simp
  note i = insert_nth [OF this, of "xs ! f"]
  consider "c = f" | "c < f" "c < t" | "c > f" "c > t" | "c < f" "t \<le> c" | "f < c" "c \<le> t" by linarith
  then show ?thesis
    using assms unfolding move_column_def Let_def i by cases (auto simp: remove_nth min_def max_def)
qed

lemma unat_moved_id:
  "unat (moved_id fr to c) =
    (if unat c < min (unat fr) (unat to) \<or> unat c > max (unat fr) (unat to) then unat c
     else if unat c = unat fr then unat to else if unat fr > unat to then unat c + 1 else unat c - 1)"
proof -
  have inc: "unat (c + 1) = unat c + 1" if "unat c < unat fr"
    using that unat_bound [of fr] by (simp add: unat_word_ariths)
  have dec: "unat (c - 1) = unat c - 1" if "unat fr < unat c"
    using that by (intro unat_minus_one) auto
  have eq: "c = fr \<longleftrightarrow> unat c = unat fr" using word_unat_eq_iff [of c fr] by blast
  show ?thesis
    unfolding moved_id_def eq word_less_nat_alt min_def max_def word_le_nat_alt
    by (cases "unat fr \<le> unat to"; cases "unat c = unat fr") (auto simp: inc dec)
qed

lemma moved_id_nth:
  assumes "unat fr < length xs" and "unat to < length xs" and "unat c < length xs"
  shows "move_column (unat fr) (unat to) xs ! unat (moved_id fr to c) = xs ! unat c"
  unfolding unat_moved_id by (rule move_column_nth [OF assms])

text \<open>Whether the column at \<open>from\<close> makes the key switch between fixed and variable size.\<close>

definition size_error :: "unionKeyMeta \<Rightarrow> uniqueKeyTypePair list \<Rightarrow> u16" where
  "size_error k qs = (if uk_fixed k = 1 \<and> 0 < var_entries qs then 2 else if uk_fixed k = 0 \<and> var_entries qs = 0 then - 2 else 0)"

lemma columnUpdate_effect:
  fixes fr to :: u16 and T :: COLUMN_TYPE
  assumes "ukm_wf k" and "length (uk_columnInfo k) < 256"
  defines "k' \<equiv> ukm_columnUpdate fr to T k" and "qs \<equiv> map (moved_entry fr to T) (uk_columnInfo k)"
  shows "uk_columnInfo k' = qs" and "unat (uk_varColumnCount k') = var_entries qs"
    and "uk_fixed k' = (if var_entries qs = 0 then 1 else 0)"
    and "uk_size k' = word_of_nat (width_sum qs) + size_error k qs"
    and "uk_columnCount k' = uk_columnCount k"
proof -
  let ?n = "unat (uk_columnCount k)" and ?l = "foldl (update_column fr to T) k [0..<unat (uk_columnCount k)]"
  have n: "?n = length (uk_columnInfo k)" using assms(1) by (simp add: ukm_wf_def)
  have l: "uk_columnInfo ?l = qs" "uk_size ?l = word_of_nat (width_sum qs)" "uk_varColumnCount ?l = word_of_nat (var_entries qs)"
    "uk_columnCount ?l = uk_columnCount k" "uk_fixed ?l = uk_fixed k"
    using update_columns [of ?n k fr to T] assms(1) n by (simp_all add: Let_def qs_def ukm_wf_def)
  have v: "unat (word_of_nat (var_entries qs) :: u8) = var_entries qs"
  proof -
    have "var_entries qs \<le> length qs" by (simp add: var_entries_def)
    then show ?thesis using assms(2) by (simp add: qs_def unat_of_nat)
  qed
  then have z: "(word_of_nat (var_entries qs) :: u8) = 0 \<longleftrightarrow> var_entries qs = 0"
    using unat_eq_zero [of "word_of_nat (var_entries qs) :: u8"] by argo
  have f: "uk_fixed k = 0 \<or> uk_fixed k = 1" using assms(1) by (simp add: ukm_wf_def)
  show "uk_columnInfo k' = qs" "uk_columnCount k' = uk_columnCount k"
    by (simp_all add: k'_def ukm_columnUpdate_def Let_def l)
  show "unat (uk_varColumnCount k') = var_entries qs"
    using v by (simp add: k'_def ukm_columnUpdate_def Let_def l z)
  show "uk_fixed k' = (if var_entries qs = 0 then 1 else 0)"
    "uk_size k' = word_of_nat (width_sum qs) + size_error k qs"
    using f by (auto simp: k'_def ukm_columnUpdate_def Let_def l z size_error_def word_gt_0)
qed

section \<open>Claims\<close>

text \<open>
  C16: \<^verbatim>\<open>unionKey::compare\<close> on two keys of integer and string columns returns normally, and its sign is the
  lexicographic order of the column values (strings compared bytewise), as long as values of 32-bit columns it meets are
  less than $2^{31}$ apart.
\<close>

theorem unionKey_compare_lexicographic:
  fixes m :: mem and a b :: unionKey
  assumes "key_meta a = key_meta b" and "set ts \<subseteq> exact_types" and "ts = key_types (key_meta b)"
    and "near_keys ts (key_vals m ts (key_ptr a + uk_startOffset (key_meta b))) (key_vals m ts (key_ptr b + uk_startOffset (key_meta b)))"
  shows "agrees (uk_compare m a b) (key_vals m ts (key_ptr a + uk_startOffset (key_meta b)))
    (key_vals m ts (key_ptr b + uk_startOffset (key_meta b)))"
  using compare_loop_agrees [OF assms(2,4)] assms(1,3) by (simp add: uk_compare_def)

definition sample_meta :: unionKeyMeta where
  "sample_meta = \<lparr>uk_columnCount = 2, uk_size = 4, uk_fixed = 0, uk_keyType = 0, uk_keyId = 0, uk_varColumnCount = 1,
     uk_columnInfo = [\<lparr>kc_type = T_UINT16, kc_columnId = 0\<rparr>, \<lparr>kc_type = T_STRING, kc_columnId = 1\<rparr>]\<rparr>"

definition sample_mem :: mem where
  "sample_mem = write_bytes (\<lambda>_. 0) 0 [6, 0, 5, 1, 2, 0, 97, 98, 5, 0, 5, 1, 1, 0, 98]"

theorem unionKey_compare_lexicographic_witness:
  "agrees (uk_compare sample_mem \<lparr>key_ptr = 0, key_meta = sample_meta\<rparr> \<lparr>key_ptr = 8, key_meta = sample_meta\<rparr>)
     [KInt 261, KBytes [97, 98]] [KInt 261, KBytes [98]]"
proof -
  let ?a = "\<lparr>key_ptr = 0, key_meta = sample_meta\<rparr>" and ?b = "\<lparr>key_ptr = 8, key_meta = sample_meta\<rparr>"
  have ts: "key_types sample_meta = [T_UINT16, T_STRING]" by (simp add: key_types_def sample_meta_def)
  have v: "key_vals sample_mem [T_UINT16, T_STRING] 2 = [KInt 261, KBytes [97, 98]]"
    "key_vals sample_mem [T_UINT16, T_STRING] 10 = [KInt 261, KBytes [98]]"
    by (simp_all add: column_advance_def sample_mem_def read_eval write_bytes_def)
  have o: "uk_startOffset sample_meta = 2" by (simp add: uk_startOffset_def sample_meta_def)
  have n: "near_keys [T_UINT16, T_STRING] [KInt 261, KBytes [97, 98]] [KInt 261, KBytes [98]]" by simp
  have p: "key_ptr ?a + uk_startOffset (key_meta ?b) = 2" "key_ptr ?b + uk_startOffset (key_meta ?b) = 10"
    by (simp_all add: o)
  have k: "key_meta ?a = key_meta ?b" "set [T_UINT16, T_STRING] \<subseteq> exact_types" "[T_UINT16, T_STRING] = key_types (key_meta ?b)"
    by (simp_all add: exact_types_def ts)
  show ?thesis using unionKey_compare_lexicographic [OF k, of sample_mem, unfolded p, unfolded v, OF n] .
qed

text \<open>
  On a \<^verbatim>\<open>T_UINT32\<close> column the difference is returned as a signed \<^verbatim>\<open>int\<close>: a value that is smaller by more than
  $2^{31}$ compares as greater, whatever columns follow.
\<close>

theorem unionKey_compare_uint32_inverted:
  assumes "rd 4 m s + 2 ^ 31 < rd 4 m d"
  shows "\<exists>c. compare_loop m (T_UINT32 # ts) s d = Inr c \<and> 0 < c"
proof -
  let ?x = "int (rd 4 m s)" and ?y = "int (rd 4 m d)"
  have b: "?y < 2 ^ 32" using rd_bound [of 4 m d] by simp
  have z: "(word_of_int (2 ^ 32) :: u32) = 0" by simp
  have "(word_of_nat (rd 4 m s) - word_of_nat (rd 4 m d) :: u32) = word_of_int (?x + 2 ^ 32) - word_of_int ?y"
    unfolding of_int_add z by simp
  also have "sint \<dots> = ?x + 2 ^ 32 - ?y" using assms b by (intro sint_diff) auto
  finally show ?thesis using b by (auto intro!: exI [of _ "?x + 2 ^ 32 - ?y"])
qed

theorem unionKey_compare_uint32_inverted_witness:
  "\<exists>c. compare_loop (write_bytes (\<lambda>_. 0) 0 [0, 0, 0, 0, 255, 255, 255, 255]) [T_UINT32] 0 4 = Inr c \<and> 0 < c"
  by (rule unionKey_compare_uint32_inverted) (simp add: rd_def read_bytes_def write_bytes_def upt_rec)

text \<open>
  \<^verbatim>\<open>unionKeyMeta::columnUpdate\<close> keeps a key on its columns when a column moves from \<open>fr\<close> to \<open>to\<close> and changes its
  type: every entry's new id finds in the moved column list the column its old id found in the old list, and the number
  of variable-length columns and the fixed flag are again those of the entries.  The size field is right unless the key
  changes between fixed and variable size: then it is 2 too large or 2 too small.
\<close>

theorem columnUpdate_follows_columns:
  assumes "ukm_wf k" and "length (uk_columnInfo k) < 256" and "unat fr < length cols" and "unat to < length cols"
    and "i < length (uk_columnInfo k)" and "unat (kc_columnId (uk_columnInfo k ! i)) < length cols"
  shows "let k' = ukm_columnUpdate fr to T k; qs = uk_columnInfo k' in
    length qs = length (uk_columnInfo k) \<and>
    move_column (unat fr) (unat to) cols ! unat (kc_columnId (qs ! i)) = cols ! unat (kc_columnId (uk_columnInfo k ! i)) \<and>
    kc_type (qs ! i) = (if kc_columnId (uk_columnInfo k ! i) = fr then T else kc_type (uk_columnInfo k ! i)) \<and>
    unat (uk_varColumnCount k') = var_entries qs \<and> uk_fixed k' = (if var_entries qs = 0 then 1 else 0) \<and>
    uk_size k' = word_of_nat (width_sum qs) + size_error k qs"
  using columnUpdate_effect [OF assms(1,2), of fr to T] assms(3-6) by (simp add: Let_def moved_entry_def moved_id_nth)

theorem columnUpdate_follows_columns_witness:
  "uk_size (ukm_columnUpdate 1 0 T_UINT8 sample_meta) = 1"
proof -
  let ?k = "ukm_columnUpdate 1 0 T_UINT8 sample_meta"
  have w: "ukm_wf sample_meta"
    by (simp add: ukm_wf_def sample_meta_def var_entries_def width_sum_def entry_width_def)
  have e: "width_sum (uk_columnInfo ?k) = 3" "var_entries (uk_columnInfo ?k) = 0"
    by (simp_all add: ukm_columnUpdate_def update_column_def sample_meta_def width_sum_def entry_width_def var_entries_def upt_rec)
  have f: "uk_fixed sample_meta = 0" "length (uk_columnInfo sample_meta) = 2" "kc_columnId (uk_columnInfo sample_meta ! 0) = 0"
    by (simp_all add: sample_meta_def)
  have "uk_size ?k = word_of_nat (width_sum (uk_columnInfo ?k)) + size_error sample_meta (uk_columnInfo ?k)"
    using columnUpdate_follows_columns [OF w, of 1 "[(), ()]" 0 0 T_UINT8] f unfolding Let_def by simp
  then show ?thesis unfolding e size_error_def f by simp
qed

text \<open>
  \<^verbatim>\<open>unionKeyMeta::operator==\<close> compares a single byte: two key descriptions are equal for it exactly when they have
  the same number of columns, whatever their columns and types.
\<close>

theorem unionKeyMeta_eq_counts_only:
  "ukm_eq a b \<longleftrightarrow> uk_columnCount a = uk_columnCount b"
  by (auto simp: ukm_eq_def ukm_memSize_def ukm_bytes_def Let_def numeral_2_eq_2)

text \<open>
  Keys of \<^verbatim>\<open>float\<close> columns are not ordered: three numbers near 1 of which the first and the second, and the second and
  the third compare equal, while the first is less than the third.
\<close>

lemma floats_near_1:
  "fp_of 23 8 0x3F800000 = Fin 8388608 (- 23)" "fp_of 23 8 0x3F800008 = Fin 8388616 (- 23)"
  "fp_of 23 8 0x3F800010 = Fin 8388624 (- 23)" "micro = Fin 8796093 (- 43)" "neg_micro = Fin (- 8796093) (- 43)"
  by (simp_all add: fp_of_def micro_def neg_micro_def Let_def)

lemma float_compare_not_transitive:
  "fp_compare 23 8 (fp_of 23 8 0x3F800000) (fp_of 23 8 0x3F800008) = 0 \<and>
   fp_compare 23 8 (fp_of 23 8 0x3F800008) (fp_of 23 8 0x3F800010) = 0 \<and>
   fp_compare 23 8 (fp_of 23 8 0x3F800000) (fp_of 23 8 0x3F800010) = - 1"
proof -
  have b: "bitlen 8 = 4" "bitlen 16 = 5"
    by (simp_all add: bitlen.simps [of 8] bitlen.simps [of 16] bitlen.simps [of 4] bitlen.simps [of 2] bitlen.simps [of "Suc 0"])
  have r: "fp_round 23 8 (- 8) (- 23) = Fin (- 8) (- 23)" "fp_round 23 8 (- 16) (- 23) = Fin (- 16) (- 23)"
    by (simp_all add: fp_round_def Let_def b)
  have l: "fp_less (Fin a (- 43)) (Fin b (- 23)) \<longleftrightarrow> a < b * 1048576" "fp_less (Fin b (- 23)) (Fin a (- 43)) \<longleftrightarrow> b * 1048576 < a" for a b
    by simp_all
  have l0: "fp_less (Fin a e) (Fin b e) \<longleftrightarrow> a < b" for a b e by simp
  show ?thesis
    unfolding floats_near_1 fp_compare_def by (simp add: r l l0 Let_def del: fp_less.simps)
qed

end
