(* ===== verification/Names.thy ===== *)
theory Names
  imports Prelude "HOL-Library.List_Lexorder"
begin

unbundle bit_operations_syntax

text \<open>
  Names of databases, tables, columns and character sets: the C string comparisons, \<^verbatim>\<open>meta/nameCompare.h\<close>, and the
  character set table with its binary search (\<^verbatim>\<open>meta/charset.h\<close>, \<^verbatim>\<open>meta/charset.cpp\<close>).  A C string is the list of its
  characters before the terminator.
\<close>

section \<open>C strings\<close>

text \<open>\<^verbatim>\<open>strcmp\<close> subtracts characters as \<^verbatim>\<open>unsigned char\<close>; \<^verbatim>\<open>strcasecmp\<close> does so after \<^verbatim>\<open>tolower\<close> in the C locale.\<close>

definition ord_char :: "char \<Rightarrow> int" where "ord_char c = of_char c"

definition to_lower :: "char \<Rightarrow> char" where
  "to_lower c = (if 65 \<le> ord_char c \<and> ord_char c \<le> 90 then char_of (ord_char c + 32) else c)"

fun strcmp :: "string \<Rightarrow> string \<Rightarrow> int" where
  "strcmp [] [] = 0"
| "strcmp [] (y # ys) = - ord_char y"
| "strcmp (x # xs) [] = ord_char x"
| "strcmp (x # xs) (y # ys) = (if x = y then strcmp xs ys else ord_char x - ord_char y)"

definition strcasecmp :: "string \<Rightarrow> string \<Rightarrow> int" where
  "strcasecmp s d = strcmp (map to_lower s) (map to_lower d)"

definition strncasecmp :: "string \<Rightarrow> string \<Rightarrow> nat \<Rightarrow> int" where
  "strncasecmp s d n = strcasecmp (take n s) (take n d)"

text \<open>A string of a C program holds no zero character before its end.\<close>

definition c_string :: "string \<Rightarrow> bool" where "c_string s \<longleftrightarrow> (\<forall>c \<in> set s. ord_char c \<noteq> 0)"

section \<open>nameCompare\<close>

record nameCompare = caseSensitive :: bool

definition nc_compare :: "nameCompare \<Rightarrow> string \<Rightarrow> string \<Rightarrow> int" where
  "nc_compare n src dest = (if caseSensitive n then strcmp src dest else strcasecmp src dest)"

text \<open>The characters enter the hash as signed \<^verbatim>\<open>char\<close>; the case-insensitive variant adds \<^verbatim>\<open>'a' - 'A'\<close> to capitals.\<close>

definition schar :: "char \<Rightarrow> u32" where
  "schar c = word_of_int (if ord_char c < 128 then ord_char c else ord_char c - 256)"

fun nc_hash_loop :: "bool \<Rightarrow> u32 \<Rightarrow> string \<Rightarrow> u32" where
  "nc_hash_loop cs h [] = h"
| "nc_hash_loop cs h (c # s) =
     nc_hash_loop cs
       (if \<not> cs \<and> 65 \<le> ord_char c \<and> ord_char c \<le> 90 then h XOR (push_bit 5 h + schar c + 32 + drop_bit 2 h)
        else h XOR (push_bit 5 h + schar c + drop_bit 2 h)) s"

definition nc_hash :: "nameCompare \<Rightarrow> string \<Rightarrow> u32" where
  "nc_hash n s = nc_hash_loop (caseSensitive n) 1315423911 s AND 0x7FFFFFFF"

section \<open>Character sets\<close>

record charsetInfo =
  cs_name :: string
  nameSize :: nat
  byteSizePerChar :: nat
  cs_id :: nat

text \<open>The enumeration, as the names in the order of their numbers, and the table.\<close>

definition CHARSET_names :: "string list" where
  "CHARSET_names = [
     ''big5'', ''dec8'', ''cp850'', ''hp8'', ''koi8r'', ''latin1'', ''latin2'', ''swe7'', ''ascii'', ''ujis'',
     ''sjis'', ''hebrew'', ''tis620'', ''euckr'', ''koi8u'', ''gb2312'', ''greek'', ''cp1250'', ''gbk'', ''latin5'',
     ''armscii8'', ''utf8'', ''ucs2'', ''cp866'', ''keybcs2'', ''macce'', ''macroman'', ''cp852'', ''latin7'',
     ''utf8mb4'', ''cp1251'', ''utf16'', ''utf16le'', ''cp1256'', ''cp1257'', ''utf32'', ''binary'', ''geostd8'',
     ''cp932'', ''eucjpms'', ''gb18030'']"

definition MAX_CHARSET :: nat where "MAX_CHARSET = 41"

definition charsets :: "charsetInfo list" where
  "charsets = [
     \<lparr>cs_name = ''big5'', nameSize = 4, byteSizePerChar = 2, cs_id = 0\<rparr>,
     \<lparr>cs_name = ''dec8'', nameSize = 4, byteSizePerChar = 1, cs_id = 1\<rparr>,
     \<lparr>cs_name = ''cp850'', nameSize = 5, byteSizePerChar = 1, cs_id = 2\<rparr>,
     \<lparr>cs_name = ''hp8'', nameSize = 3, byteSizePerChar = 1, cs_id = 3\<rparr>,
     \<lparr>cs_name = ''koi8r'', nameSize = 5, byteSizePerChar = 1, cs_id = 4\<rparr>,
     \<lparr>cs_name = ''latin1'', nameSize = 6, byteSizePerChar = 1, cs_id = 5\<rparr>,
     \<lparr>cs_name = ''latin2'', nameSize = 6, byteSizePerChar = 1, cs_id = 6\<rparr>,
     \<lparr>cs_name = ''swe7'', nameSize = 4, byteSizePerChar = 1, cs_id = 7\<rparr>,
     \<lparr>cs_name = ''ascii'', nameSize = 5, byteSizePerChar = 1, cs_id = 8\<rparr>,
     \<lparr>cs_name = ''ujis'', nameSize = 4, byteSizePerChar = 3, cs_id = 9\<rparr>,
     \<lparr>cs_name = ''sjis'', nameSize = 4, byteSizePerChar = 2, cs_id = 10\<rparr>,
     \<lparr>cs_name = ''hebrew'', nameSize = 6, byteSizePerChar = 1, cs_id = 11\<rparr>,
     \<lparr>cs_name = ''tis620'', nameSize = 6, byteSizePerChar = 1, cs_id = 12\<rparr>,
     \<lparr>cs_name = ''euckr'', nameSize = 5, byteSizePerChar = 2, cs_id = 13\<rparr>,
     \<lparr>cs_name = ''koi8u'', nameSize = 5, byteSizePerChar = 1, cs_id = 14\<rparr>,
     \<lparr>cs_name = ''gb2312'', nameSize = 6, byteSizePerChar = 2, cs_id = 15\<rparr>,
     \<lparr>cs_name = ''greek'', nameSize = 5, byteSizePerChar = 1, cs_id = 16\<rparr>,
     \<lparr>cs_name = ''cp1250'', nameSize = 6, byteSizePerChar = 1, cs_id = 17\<rparr>,
     \<lparr>cs_name = ''gbk'', nameSize = 3, byteSizePerChar = 2, cs_id = 18\<rparr>,
     \<lparr>cs_name = ''latin5'', nameSize = 6, byteSizePerChar = 1, cs_id = 19\<rparr>,
     \<lparr>cs_name = ''armscii8'', nameSize = 8, byteSizePerChar = 1, cs_id = 20\<rparr>,
     \<lparr>cs_name = ''utf8'', nameSize = 4, byteSizePerChar = 3, cs_id = 21\<rparr>,
     \<lparr>cs_name = ''ucs2'', nameSize = 4, byteSizePerChar = 2, cs_id = 22\<rparr>,
     \<lparr>cs_name = ''cp866'', nameSize = 5, byteSizePerChar = 1, cs_id = 23\<rparr>,
     \<lparr>cs_name = ''keybcs2'', nameSize = 7, byteSizePerChar = 1, cs_id = 24\<rparr>,
     \<lparr>cs_name = ''macce'', nameSize = 5, byteSizePerChar = 1, cs_id = 25\<rparr>,
     \<lparr>cs_name = ''macroman'', nameSize = 8, byteSizePerChar = 1, cs_id = 26\<rparr>,
     \<lparr>cs_name = ''cp852'', nameSize = 5, byteSizePerChar = 1, cs_id = 27\<rparr>,
     \<lparr>cs_name = ''latin7'', nameSize = 6, byteSizePerChar = 1, cs_id = 28\<rparr>,
     \<lparr>cs_name = ''utf8mb4'', nameSize = 7, byteSizePerChar = 4, cs_id = 29\<rparr>,
     \<lparr>cs_name = ''cp1251'', nameSize = 6, byteSizePerChar = 1, cs_id = 30\<rparr>,
     \<lparr>cs_name = ''utf16'', nameSize = 5, byteSizePerChar = 4, cs_id = 31\<rparr>,
     \<lparr>cs_name = ''utf16le'', nameSize = 7, byteSizePerChar = 4, cs_id = 32\<rparr>,
     \<lparr>cs_name = ''cp1256'', nameSize = 6, byteSizePerChar = 1, cs_id = 33\<rparr>,
     \<lparr>cs_name = ''cp1257'', nameSize = 6, byteSizePerChar = 1, cs_id = 34\<rparr>,
     \<lparr>cs_name = ''utf32'', nameSize = 5, byteSizePerChar = 4, cs_id = 35\<rparr>,
     \<lparr>cs_name = ''binary'', nameSize = 6, byteSizePerChar = 1, cs_id = 36\<rparr>,
     \<lparr>cs_name = ''geostd8'', nameSize = 7, byteSizePerChar = 1, cs_id = 37\<rparr>,
     \<lparr>cs_name = ''cp932'', nameSize = 5, byteSizePerChar = 2, cs_id = 38\<rparr>,
     \<lparr>cs_name = ''eucjpms'', nameSize = 7, byteSizePerChar = 3, cs_id = 39\<rparr>,
     \<lparr>cs_name = ''gb18030'', nameSize = 7, byteSizePerChar = 4, cs_id = 40\<rparr>]"

definition sortedCharsetInfo :: "(string \<times> nat) list" where
  "sortedCharsetInfo = [
     (''armscii8'', 20), (''ascii'', 8), (''big5'', 0), (''binary'', 36), (''cp1250'', 17), (''cp1251'', 30),
     (''cp1256'', 33), (''cp1257'', 34), (''cp850'', 2), (''cp852'', 27), (''cp866'', 23), (''cp932'', 38),
     (''dec8'', 1), (''eucjpms'', 39), (''euckr'', 13), (''gb18030'', 40), (''gb2312'', 15), (''gbk'', 18),
     (''geostd8'', 37), (''greek'', 16), (''hebrew'', 11), (''hp8'', 3), (''keybcs2'', 24), (''koi8r'', 4),
     (''koi8u'', 14), (''latin1'', 5), (''latin2'', 6), (''latin5'', 19), (''latin7'', 28), (''macce'', 25),
     (''macroman'', 26), (''sjis'', 10), (''swe7'', 7), (''tis620'', 12), (''ucs2'', 22), (''ujis'', 9),
     (''utf16'', 31), (''utf16le'', 32), (''utf32'', 35), (''utf8'', 21), (''utf8mb4'', 29)]"

text \<open>
  The binary search.  \<^verbatim>\<open>m = (s + e) / 2\<close> is computed as \<^verbatim>\<open>int\<close>; the result of the comparison is narrowed to
  \<^verbatim>\<open>int8_t\<close>.
\<close>

definition int8 :: "int \<Rightarrow> int" where "int8 c = (c + 128) mod 256 - 128"

function charset_search :: "(string \<Rightarrow> int) \<Rightarrow> int \<Rightarrow> int \<Rightarrow> charsetInfo option" where
  "charset_search cmp s e =
     (if s \<le> e \<and> s < int MAX_CHARSET then
        let m = (s + e) div 2; c = int8 (cmp (fst (sortedCharsetInfo ! nat m))) in
        if c = 0 then Some (charsets ! snd (sortedCharsetInfo ! nat m))
        else if c > 0 then charset_search cmp s (m - 1)
        else charset_search cmp (m + 1) e
      else None)"
  by auto
termination by (relation "measure (\<lambda>(cmp, s, e). nat (e - s + 1))") auto

declare charset_search.simps [simp del]

definition getCharset :: "string \<Rightarrow> charsetInfo option" where
  "getCharset name = charset_search (\<lambda>t. strcasecmp t name) 0 (int MAX_CHARSET - 1)"

definition getCharset_n :: "string \<Rightarrow> nat \<Rightarrow> charsetInfo option" where
  "getCharset_n name sz = charset_search (\<lambda>t. strncasecmp t name sz) 0 (int MAX_CHARSET - 1)"

section \<open>Comparison and hash agree\<close>

lemma ord_char_inj: "ord_char a = ord_char b \<longleftrightarrow> a = b"
  by (simp add: ord_char_def of_char_eq_iff)

lemma ord_char_range: "0 \<le> ord_char c" "ord_char c < 256"
proof -
  have "ord_char c mod 256 = ord_char c" unfolding ord_char_def by (rule of_char_mod_256)
  then show "0 \<le> ord_char c" "ord_char c < 256" using pos_mod_sign [of 256 "ord_char c"] pos_mod_bound [of 256 "ord_char c"] by simp_all
qed

lemma c_string_simps [simp]: "c_string []" "c_string (c # s) \<longleftrightarrow> ord_char c \<noteq> 0 \<and> c_string s"
  by (simp_all add: c_string_def)

lemma strcmp_eq_0: "c_string s \<Longrightarrow> c_string d \<Longrightarrow> strcmp s d = 0 \<longleftrightarrow> s = d"
  by (induction s d rule: strcmp.induct) (auto simp: ord_char_inj)

lemma strcmp_bound: "- 256 < strcmp s d \<and> strcmp s d < 256"
proof (induction s d rule: strcmp.induct)
  case (2 y ys)
  then show ?case using ord_char_range [of y] by simp
next
  case (3 x xs)
  then show ?case using ord_char_range [of x] by simp
next
  case (4 x xs y ys)
  then show ?case using ord_char_range [of x] ord_char_range [of y] by simp
qed simp

lemma ord_to_lower: "ord_char (to_lower c) = (if 65 \<le> ord_char c \<and> ord_char c \<le> 90 then ord_char c + 32 else ord_char c)"
  by (simp add: to_lower_def) (simp add: ord_char_def)

lemma c_string_lower: "c_string s \<Longrightarrow> c_string (map to_lower s)"
  by (auto simp: c_string_def ord_to_lower)

lemma to_lower_idem [simp]: "to_lower (to_lower c) = to_lower c"
  by (auto simp: to_lower_def [of "to_lower c"] ord_to_lower)

lemma strcasecmp_eq_0:
  assumes "c_string s" and "c_string d"
  shows "strcasecmp s d = 0 \<longleftrightarrow> map to_lower s = map to_lower d"
  unfolding strcasecmp_def by (rule strcmp_eq_0) (simp_all add: c_string_lower assms)

lemma hash_lower: "nc_hash_loop False h s = nc_hash_loop True h (map to_lower s)"
proof (induction s arbitrary: h)
  case (Cons c s)
  have "schar (to_lower c) = (if 65 \<le> ord_char c \<and> ord_char c \<le> 90 then schar c + 32 else schar c)"
    by (simp add: schar_def ord_to_lower)
  with Cons show ?case by (simp add: add.assoc)
qed simp

section \<open>The binary search finds every character set\<close>

lemma charset_search_sound:
  assumes "charset_search cmp s e = Some ci" and "0 \<le> s" and "e < int MAX_CHARSET"
  shows "\<exists>(n, i) \<in> set sortedCharsetInfo. int8 (cmp n) = 0 \<and> ci = charsets ! i"
  using assms
proof (induction cmp s e rule: charset_search.induct)
  case (1 cmp s e)
  let ?m = "(s + e) div 2"
  let ?c = "int8 (cmp (fst (sortedCharsetInfo ! nat ?m)))"
  have le: "s \<le> e \<and> s < int MAX_CHARSET" using 1(3) charset_search.simps [of cmp s e] by (metis option.distinct(1))
  have m: "s \<le> ?m" "?m \<le> e" using le by linarith+
  have len: "nat ?m < length sortedCharsetInfo" using m 1(4,5) by (simp add: sortedCharsetInfo_def MAX_CHARSET_def)
  have step: "charset_search cmp s e = (if ?c = 0 then Some (charsets ! snd (sortedCharsetInfo ! nat ?m))
      else if ?c > 0 then charset_search cmp s (?m - 1) else charset_search cmp (?m + 1) e)"
    using le by (subst charset_search.simps) (simp only: Let_def simp_thms if_True)
  consider "?c = 0" | "?c > 0" | "?c < 0" by linarith
  then show ?case
  proof cases
    case 1
    with step "1.prems"(1) have "ci = charsets ! snd (sortedCharsetInfo ! nat ?m)" by (simp only: simp_thms if_True option.inject)
    with 1 show ?thesis using nth_mem [OF len] by (intro bexI [of _ "sortedCharsetInfo ! nat ?m"]) (simp_all only: case_prod_beta)
  next
    case 2
    then have c: "?c \<noteq> 0" by simp
    have "charset_search cmp s (?m - 1) = Some ci" using step "1.prems"(1) 2 c by argo
    moreover have "?m - 1 < int MAX_CHARSET" using m(2) "1.prems"(3) by linarith
    ultimately show ?thesis by (rule "1.IH"(1) [OF le refl refl c 2 _ "1.prems"(2)])
  next
    case 3
    then have c: "?c \<noteq> 0" "\<not> ?c > 0" by simp_all
    have "charset_search cmp (?m + 1) e = Some ci" using step "1.prems"(1) c by argo
    moreover have "0 \<le> ?m + 1" using m(1) "1.prems"(2) by linarith
    ultimately show ?thesis by (rule "1.IH"(2) [OF le refl refl c _ _ "1.prems"(3)])
  qed
qed

lemma int8_0:
  assumes "- 256 < c" and "c < 256" and "int8 c = 0"
  shows "c = 0"
proof -
  have "c + 128 = 256 * ((c + 128) div 256) + (c + 128) mod 256" by simp
  then obtain q where "c = 256 * q" using assms(3) unfolding int8_def by (metis add_diff_cancel_right' diff_eq_eq add.commute add_0)
  with assms(1,2) show ?thesis by simp
qed

lemma getCharset_lower: "getCharset (map to_lower name) = getCharset name"
  by (simp add: getCharset_def strcasecmp_def comp_def)

text \<open>\<^verbatim>\<open>strcmp\<close> orders C strings lexicographically; on ASCII strings its result fits in 8 bits.\<close>

lemma strcmp_less: "c_string s \<Longrightarrow> c_string d \<Longrightarrow> strcmp s d < 0 \<longleftrightarrow> map ord_char s < map ord_char d"
proof (induction s d rule: strcmp.induct)
  case (2 y ys)
  then show ?case using ord_char_range [of y] by simp
next
  case (3 x xs)
  then show ?case using ord_char_range [of x] by simp
next
  case (4 x xs y ys)
  then show ?case by (auto simp: ord_char_inj)
qed simp

definition ascii_string :: "string \<Rightarrow> bool" where "ascii_string s \<longleftrightarrow> (\<forall>c \<in> set s. 0 < ord_char c \<and> ord_char c < 128)"

lemma ascii_c_string: "ascii_string s \<Longrightarrow> c_string s"
  by (auto simp: ascii_string_def c_string_def)

lemma ascii_strcmp: "ascii_string s \<Longrightarrow> ascii_string d \<Longrightarrow> int8 (strcmp s d) = strcmp s d"
proof -
  assume "ascii_string s" "ascii_string d"
  then have "- 128 < strcmp s d \<and> strcmp s d < 128"
    by (induction s d rule: strcmp.induct) (auto simp: ascii_string_def)
  then show ?thesis by (simp add: int8_def)
qed

lemma sorted_table: "sorted_wrt (<) (map (map ord_char \<circ> fst) sortedCharsetInfo)"
  by (simp add: sortedCharsetInfo_def ord_char_def sorted_wrt2_simps del: sorted_wrt.simps(2))

lemma names_lower: "list_all (\<lambda>n. map to_lower n = n \<and> ascii_string n) (map fst sortedCharsetInfo)"
  by (simp add: sortedCharsetInfo_def to_lower_def ascii_string_def ord_char_def)

lemma table_length: "length sortedCharsetInfo = MAX_CHARSET"
  by (simp add: sortedCharsetInfo_def MAX_CHARSET_def)

lemma table_name:
  assumes "i < MAX_CHARSET"
  shows "map to_lower (fst (sortedCharsetInfo ! i)) = fst (sortedCharsetInfo ! i)" and "ascii_string (fst (sortedCharsetInfo ! i))"
  using names_lower nth_mem [of i sortedCharsetInfo] assms table_length by (auto simp: list_all_iff)

lemma table_compare:
  assumes "i < MAX_CHARSET" and "k < MAX_CHARSET" and "map to_lower name = fst (sortedCharsetInfo ! k)"
  defines "c \<equiv> int8 (strcasecmp (fst (sortedCharsetInfo ! i)) name)"
  shows "c = 0 \<longleftrightarrow> i = k" and "c < 0 \<longleftrightarrow> i < k"
proof -
  let ?n = "\<lambda>i. fst (sortedCharsetInfo ! i)"
  note a = table_name(2) [OF assms(1)] table_name(2) [OF assms(2)]
  have c: "c = strcmp (?n i) (?n k)"
    using assms(3) table_name(1) [OF assms(1)] ascii_strcmp [OF a] by (simp add: c_def strcasecmp_def)
  have less: "map ord_char (?n x) < map ord_char (?n y)" if "x < y" "y < MAX_CHARSET" for x y
    using sorted_wrt_nth_less [OF sorted_table, of x y] that table_length by simp
  have "c < 0 \<longleftrightarrow> map ord_char (?n i) < map ord_char (?n k)" "c = 0 \<longleftrightarrow> ?n i = ?n k"
    using c strcmp_less [OF a [THEN ascii_c_string]] strcmp_eq_0 [OF a [THEN ascii_c_string]] by simp_all
  moreover consider "i < k" | "i = k" | "k < i" by linarith
  ultimately show "c = 0 \<longleftrightarrow> i = k" "c < 0 \<longleftrightarrow> i < k"
    using less [of i k] less [of k i] assms(1,2) by (cases; force)+
qed

lemma charset_search_complete:
  assumes "k < MAX_CHARSET" and "map to_lower name = fst (sortedCharsetInfo ! k)"
    and "0 \<le> s" and "s \<le> int k" and "int k \<le> e" and "e < int MAX_CHARSET"
  shows "charset_search (\<lambda>t. strcasecmp t name) s e = Some (charsets ! snd (sortedCharsetInfo ! k))"
  using assms(3-6)
proof (induction "\<lambda>t. strcasecmp t name" s e rule: charset_search.induct)
  case (1 s e)
  let ?m = "(s + e) div 2"
  have le: "s \<le> e \<and> s < int MAX_CHARSET" using 1(3-6) by linarith
  have m: "s \<le> ?m" "?m \<le> e" using le by linarith+
  have mk: "nat ?m < MAX_CHARSET" using m 1(3-6) by linarith
  note c = table_compare [OF mk assms(1,2)]
  consider "nat ?m = k" | "nat ?m < k" | "k < nat ?m" by linarith
  then show ?case
  proof cases
    case 1
    then show ?thesis using le c by (subst charset_search.simps) (simp add: Let_def)
  next
    case 2
    then have "charset_search (\<lambda>t. strcasecmp t name) (?m + 1) e = Some (charsets ! snd (sortedCharsetInfo ! k))"
      using "1.hyps"(2) [OF le refl refl] c "1.prems" m by (simp add: Let_def)
    then show ?thesis using 2 le c by (subst charset_search.simps) (simp add: Let_def)
  next
    case 3
    then have "charset_search (\<lambda>t. strcasecmp t name) s (?m - 1) = Some (charsets ! snd (sortedCharsetInfo ! k))"
      using "1.hyps"(1) [OF le refl refl] c "1.prems" m by (simp add: Let_def)
    then show ?thesis using 3 le c by (subst charset_search.simps) (simp add: Let_def)
  qed
qed

lemma getCharset_table:
  assumes "k < MAX_CHARSET" and "map to_lower name = fst (sortedCharsetInfo ! k)"
  shows "getCharset name = Some (charsets ! snd (sortedCharsetInfo ! k))"
  unfolding getCharset_def using assms by (intro charset_search_complete) (simp_all add: MAX_CHARSET_def)

lemma table_names: "list_all (\<lambda>(n, i). i < length charsets \<and> cs_name (charsets ! i) = n) sortedCharsetInfo"
  by (simp add: sortedCharsetInfo_def charsets_def)

text \<open>The table follows the enumeration, so a character set's number is its position, and the name sizes are right.\<close>

lemma charsets_enum:
  "map cs_name charsets = CHARSET_names" "map cs_id charsets = [0..<MAX_CHARSET]" "list_all (\<lambda>ci. nameSize ci = length (cs_name ci)) charsets"
  by (simp_all add: charsets_def CHARSET_names_def MAX_CHARSET_def upt_rec)

lemma table_covers: "list_all (\<lambda>j. j \<in> set (map snd sortedCharsetInfo)) [0..<length charsets]"
  by (simp add: sortedCharsetInfo_def charsets_def upt_rec)

section \<open>Claims\<close>

text \<open>
  \<^verbatim>\<open>nameCompare\<close> is usable as comparison and hash of one hash table: for C strings \<^verbatim>\<open>compare\<close> returns 0 exactly
  for equal names (up to case unless case-sensitive), and names that compare equal have the same hash.
\<close>

theorem nameCompare_hash_consistent:
  assumes "c_string s" and "c_string d"
  shows "(nc_compare n s d = 0 \<longleftrightarrow> (if caseSensitive n then s = d else map to_lower s = map to_lower d)) \<and>
    (nc_compare n s d = 0 \<longrightarrow> nc_hash n s = nc_hash n d)"
  using assms by (cases "caseSensitive n") (simp_all add: nc_compare_def nc_hash_def strcmp_eq_0 strcasecmp_eq_0 hash_lower)

theorem nameCompare_hash_consistent_witness:
  "nc_hash \<lparr>caseSensitive = False\<rparr> ''Orders'' = nc_hash \<lparr>caseSensitive = False\<rparr> ''ORDERS''"
proof -
  have c: "c_string ''Orders''" "c_string ''ORDERS''" by (simp_all add: ord_char_def)
  have "map to_lower ''Orders'' = map to_lower ''ORDERS''" by (simp add: to_lower_def ord_char_def char_of_def)
  then show ?thesis using nameCompare_hash_consistent [OF c, of "\<lparr>caseSensitive = False\<rparr>"] by simp
qed

text \<open>
  C20: \<^verbatim>\<open>getCharset(name)\<close>, a binary search whose comparison result is narrowed to 8 bits, equals the linear search of
  the character set table for the name in lower case, for every C string.
\<close>

theorem getCharset_equals_linear_search:
  assumes "c_string name"
  shows "getCharset name = find (\<lambda>ci. cs_name ci = map to_lower name) charsets"
proof (cases "find (\<lambda>ci. cs_name ci = map to_lower name) charsets")
  case (Some ci)
  then have ci: "ci \<in> set charsets" "cs_name ci = map to_lower name" by (auto simp: find_Some_iff)
  then obtain j where j: "j < length charsets" "charsets ! j = ci" by (metis in_set_conv_nth)
  then obtain n where n: "(n, j) \<in> set sortedCharsetInfo" using table_covers by (force simp: list_all_iff)
  then obtain k where k: "k < MAX_CHARSET" "sortedCharsetInfo ! k = (n, j)" using table_length by (metis in_set_conv_nth)
  have "n = cs_name ci" using n j(2) table_names by (auto simp: list_all_iff)
  with getCharset_table [of k name] ci(2) j(2) k Some show ?thesis by simp
next
  case None
  have "getCharset name = None"
  proof (rule ccontr)
    assume "getCharset name \<noteq> None"
    then obtain x where "charset_search (\<lambda>t. strcasecmp t name) 0 (int MAX_CHARSET - 1) = Some x" by (auto simp: getCharset_def)
    from charset_search_sound [OF this] obtain n i where n: "(n, i) \<in> set sortedCharsetInfo" "int8 (strcasecmp n name) = 0"
      by auto
    have "strcasecmp n name = 0"
      using int8_0 [of "strcasecmp n name"] n(2) strcmp_bound [of "map to_lower n" "map to_lower name"]
      unfolding strcasecmp_def by blast
    moreover have l: "map to_lower n = n" "c_string n" using n(1) names_lower ascii_c_string by (auto simp: list_all_iff)
    ultimately have "map to_lower name = n" using strcasecmp_eq_0 [OF l(2) assms] by simp
    moreover have "charsets ! i \<in> set charsets" "cs_name (charsets ! i) = n"
      using n(1) table_names by (auto simp: list_all_iff)
    ultimately show False using None by (auto simp: find_None_iff)
  qed
  with None show ?thesis by simp
qed

theorem getCharset_equals_linear_search_witness:
  "getCharset ''UTF8MB4'' = find (\<lambda>ci. cs_name ci = ''utf8mb4'') charsets"
proof -
  have "map to_lower ''UTF8MB4'' = ''utf8mb4''" by (simp add: to_lower_def ord_char_def char_of_def)
  then show ?thesis using getCharset_equals_linear_search [of "''UTF8MB4''"] by (simp add: ord_char_def)
qed

end
