(* ===== verification/MetaData.thy ===== *)
theory MetaData
  imports ColumnType Names
begin

text \<open>
  Table descriptions (\<^verbatim>\<open>meta/metaData.h\<close>, \<^verbatim>\<open>meta/metaData.cpp\<close>): the columns of a table, its primary key, unique keys
  and indexes, the row layout derived from the columns, and the DDL operations that change them.  Column and key counts
  are the lengths of the lists that model the arrays, and the index of a column is a natural number; the 16-bit integers of the code agree with them
  below 65536 columns.  An operation
  returns its integer result with the new description, or the fault the C++ code runs into.  A key slot \<open>None\<close> is a
  pointer that was never initialised.
\<close>

section \<open>stringArray\<close>

text \<open>\<open>sa_array\<close> are the slots that were written, of which the first \<open>sa_count\<close> belong to the array.\<close>

record stringArray =
  sa_array :: "string list"
  sa_count :: nat

definition sa_new :: stringArray where "sa_new = \<lparr>sa_array = [], sa_count = 0\<rparr>"

definition sa_add :: "stringArray \<Rightarrow> string \<Rightarrow> stringArray" where
  "sa_add a str = \<lparr>sa_array = take (sa_count a) (sa_array a) @ [str], sa_count = sa_count a + 1\<rparr>"

definition sa_clean :: "stringArray \<Rightarrow> stringArray" where
  "sa_clean a = \<lparr>sa_array = [], sa_count = 0\<rparr>"

definition sa_assign :: "stringArray \<Rightarrow> stringArray \<Rightarrow> stringArray" where
  "sa_assign a c = (let a = sa_clean a in \<lparr>sa_array = sa_array a @ take (sa_count c) (sa_array c), sa_count = sa_count c\<rparr>)"

text \<open>Assignment from a list writes every element to slot \<^verbatim>\<open>m_count\<close>, which stays 0.\<close>

definition sa_assign_list :: "stringArray \<Rightarrow> string list \<Rightarrow> stringArray" where
  "sa_assign_list a l = foldl (\<lambda>a s. a\<lparr>sa_array := take (sa_count a) (sa_array a) @ [s]\<rparr>) (sa_clean a) l"

definition sa_eq :: "stringArray \<Rightarrow> stringArray \<Rightarrow> bool" where
  "sa_eq a b \<longleftrightarrow> sa_count a = sa_count b \<and>
     list_all (\<lambda>i. strcmp (sa_array a ! i) (sa_array b ! i) = 0) [0..<sa_count a]"

section \<open>columnMeta\<close>

record columnMeta =
  m_columnType :: COLUMN_TYPE
  m_srcColumnType :: u8
  m_columnIndex :: nat
  m_columnName :: string
  m_alias :: string
  m_collate :: string
  m_charset :: "charsetInfo option"
  m_size :: u32
  m_precision :: u32
  m_decimals :: u32
  m_setAndEnumValueList :: stringArray
  m_signed :: bool
  m_nullable :: bool
  m_isPrimary :: bool
  m_isUnique :: bool
  m_isIndex :: bool
  m_generated :: bool

definition columnMeta_new :: columnMeta where
  "columnMeta_new = \<lparr>m_columnType = T_MAX_TYPE, m_srcColumnType = 0, m_columnIndex = 0, m_columnName = [], m_alias = [],
     m_collate = [], m_charset = None, m_size = 0, m_precision = 0, m_decimals = 0, m_setAndEnumValueList = sa_new,
     m_signed = False, m_nullable = True, m_isPrimary = False, m_isUnique = False, m_isIndex = False, m_generated = False\<rparr>"

text \<open>Assignment copies every field but the alias, which keeps the value of the left-hand side.\<close>

definition cm_assign :: "columnMeta \<Rightarrow> columnMeta \<Rightarrow> columnMeta" where
  "cm_assign a c = c\<lparr>m_alias := m_alias a, m_setAndEnumValueList := sa_assign (m_setAndEnumValueList a) (m_setAndEnumValueList c)\<rparr>"

definition cm_eq :: "columnMeta \<Rightarrow> columnMeta \<Rightarrow> bool" where
  "cm_eq a c \<longleftrightarrow> \<not> (m_columnType a \<noteq> m_columnType c \<or> m_srcColumnType a \<noteq> m_srcColumnType c \<or>
     m_columnIndex a \<noteq> m_columnIndex c \<or> m_columnName a \<noteq> m_columnName c \<or> m_collate a \<noteq> m_collate c \<or>
     m_charset a \<noteq> m_charset c \<or> m_size a \<noteq> m_size c \<or> m_precision a \<noteq> m_precision c \<or>
     m_decimals a \<noteq> m_decimals c \<or> \<not> sa_eq (m_setAndEnumValueList a) (m_setAndEnumValueList c) \<or>
     m_signed a \<noteq> m_signed c \<or> m_nullable a \<noteq> m_nullable c \<or> m_isPrimary a \<noteq> m_isPrimary c \<or>
     m_isUnique a \<noteq> m_isUnique c \<or> m_isIndex a \<noteq> m_isIndex c \<or> m_generated a \<noteq> m_generated c)"

section \<open>tableMeta\<close>

text \<open>
  \<open>tbl_ukFreed\<close> and \<open>tbl_idxFreed\<close> record that the pointer arrays were freed without being reset when their last key was
  dropped.
\<close>

record tableMeta =
  tbl_dbName :: string
  tbl_tableName :: string
  tbl_charset :: "charsetInfo option"
  tbl_collate :: string
  tbl_columns :: "columnMeta list"
  tbl_realIndexInRowFormat :: "nat list"
  tbl_fixedColumnOffsetsInRecord :: "u16 list"
  tbl_fixedColumnCount :: nat
  tbl_varColumnCount :: nat
  tbl_id :: u64
  tbl_primaryKey :: "unionKeyMeta option"
  tbl_uniqueKeys :: "unionKeyMeta option list"
  tbl_uniqueKeyNames :: "string list"
  tbl_ukFreed :: bool
  tbl_indexs :: "unionKeyMeta option list"
  tbl_indexNames :: "string list"
  tbl_idxFreed :: bool
  tbl_nameCompare :: nameCompare

abbreviation columnsCount :: "tableMeta \<Rightarrow> nat" where "columnsCount t \<equiv> length (tbl_columns t)"

type_synonym ddl_result = "fault + int \<times> tableMeta"

definition tableVersion :: "u64 \<Rightarrow> u16" where "tableVersion i = ucast (i AND 0xffff)"
definition tableID :: "u64 \<Rightarrow> u64" where "tableID i = drop_bit 16 (i AND 0xffffffffffff0000)"
definition genTableId :: "u64 \<Rightarrow> u16 \<Rightarrow> u64" where "genTableId tableid version = push_bit 16 tableid OR ucast version"

definition tableMeta_new :: "bool \<Rightarrow> tableMeta" where
  "tableMeta_new cs = \<lparr>tbl_dbName = [], tbl_tableName = [], tbl_charset = None, tbl_collate = [], tbl_columns = [],
     tbl_realIndexInRowFormat = [], tbl_fixedColumnOffsetsInRecord = [], tbl_fixedColumnCount = 0, tbl_varColumnCount = 0,
     tbl_id = 0, tbl_primaryKey = None, tbl_uniqueKeys = [], tbl_uniqueKeyNames = [], tbl_ukFreed = False, tbl_indexs = [],
     tbl_indexNames = [], tbl_idxFreed = False, tbl_nameCompare = \<lparr>caseSensitive = cs\<rparr>\<rparr>"

text \<open>\<^verbatim>\<open>clean\<close> frees the key arrays again when they dangle.\<close>

definition tbl_clean :: "tableMeta \<Rightarrow> fault + tableMeta" where
  "tbl_clean t =
     (if tbl_ukFreed t \<or> tbl_idxFreed t then Inl UseAfterFree
      else if None \<in> set (tbl_uniqueKeys t) \<or> None \<in> set (tbl_indexs t) then Inl Uninitialised
      else Inr (t\<lparr>tbl_dbName := [], tbl_tableName := [], tbl_charset := None, tbl_columns := [], tbl_fixedColumnCount := 0,
        tbl_varColumnCount := 0, tbl_id := 0, tbl_primaryKey := None, tbl_uniqueKeys := [], tbl_uniqueKeyNames := [],
        tbl_indexs := [], tbl_indexNames := [], tbl_realIndexInRowFormat := [], tbl_fixedColumnOffsetsInRecord := []\<rparr>))"

text \<open>
  Pointers to columns are positions in the array.  \<^verbatim>\<open>getColumn(idx)\<close> lets \<^verbatim>\<open>idx == m_columnsCount\<close> pass, a pointer past
  the end that \<open>column_at\<close> refuses when it is followed.
\<close>

definition getColumn_id :: "tableMeta \<Rightarrow> nat \<Rightarrow> nat option" where
  "getColumn_id t idx = (if idx > columnsCount t then None else Some idx)"

definition column_at :: "tableMeta \<Rightarrow> nat option \<Rightarrow> fault + columnMeta" where
  "column_at t p = (case p of None \<Rightarrow> Inl NullDeref
                    | Some i \<Rightarrow> if i < columnsCount t then Inr (tbl_columns t ! i) else Inl OutOfBounds)"

fun index_of :: "('a \<Rightarrow> bool) \<Rightarrow> 'a list \<Rightarrow> nat option" where
  "index_of P [] = None"
| "index_of P (x # xs) = (if P x then Some 0 else map_option Suc (index_of P xs))"

definition getColumn :: "tableMeta \<Rightarrow> string \<Rightarrow> nat option" where
  "getColumn t columnName = index_of (\<lambda>c. nc_compare (tbl_nameCompare t) (m_columnName c) columnName = 0) (tbl_columns t)"

definition key_id :: "tableMeta \<Rightarrow> string list \<Rightarrow> string \<Rightarrow> int" where
  "key_id t names n = (case index_of (\<lambda>k. nc_compare (tbl_nameCompare t) k n = 0) names of None \<Rightarrow> -1 | Some i \<Rightarrow> int i)"

definition getUniqueKeyId :: "tableMeta \<Rightarrow> string \<Rightarrow> int" where "getUniqueKeyId t n = key_id t (tbl_uniqueKeyNames t) n"

definition getUniqueKey :: "tableMeta \<Rightarrow> string \<Rightarrow> nat option" where
  "getUniqueKey t n = (let i = getUniqueKeyId t n in if i > 0 then Some (nat i) else None)"

definition getIndexId :: "tableMeta \<Rightarrow> string \<Rightarrow> int" where "getIndexId t n = key_id t (tbl_indexNames t) n"

definition getIndex :: "tableMeta \<Rightarrow> string \<Rightarrow> nat option" where
  "getIndex t n = (let i = getIndexId t n in if i > 0 then Some (nat i) else None)"

definition isMe :: "tableMeta \<Rightarrow> string \<Rightarrow> string \<Rightarrow> bool" where
  "isMe t database table \<longleftrightarrow> nc_compare (tbl_nameCompare t) database (tbl_dbName t) = 0 \<and>
     nc_compare (tbl_nameCompare t) table (tbl_tableName t) = 0"

section \<open>Keys and row layout\<close>

fun create_loop :: "tableMeta \<Rightarrow> u16 list \<Rightarrow> unionKeyMeta \<Rightarrow> unionKeyMeta option" where
  "create_loop t [] uk = Some uk"
| "create_loop t (c # cs) uk =
     (if unat c \<ge> columnsCount t \<or> \<not> col_asIndex (m_columnType (tbl_columns t ! unat c)) then None
      else let ty = m_columnType (tbl_columns t ! unat c);
               uk = uk\<lparr>uk_columnInfo := uk_columnInfo uk @ [\<lparr>kc_type = ty, kc_columnId = c\<rparr>]\<rparr> in
        create_loop t cs
          (if \<not> col_fixed ty then uk\<lparr>uk_varColumnCount := uk_varColumnCount uk + 1, uk_size := uk_size uk + 2, uk_fixed := 0\<rparr>
           else uk\<lparr>uk_size := uk_size uk + word_of_nat (col_size ty)\<rparr>))"

definition createUnionKey :: "tableMeta \<Rightarrow> nat \<Rightarrow> KEY_TYPE \<Rightarrow> u16 list \<Rightarrow> unionKeyMeta option" where
  "createUnionKey t keyId keyType columnIds =
     create_loop t columnIds \<lparr>uk_columnCount = word_of_nat (length columnIds), uk_size = 0, uk_fixed = 1,
       uk_keyType = word_of_nat (KID keyType), uk_keyId = word_of_nat keyId, uk_varColumnCount = 0, uk_columnInfo = []\<rparr>"

fun offset_loop :: "columnMeta list \<Rightarrow> nat \<Rightarrow> nat \<Rightarrow> nat \<Rightarrow> nat list \<times> u16 list \<times> nat \<times> nat \<times> nat" where
  "offset_loop [] fc vc off = ([], [], fc, vc, off)"
| "offset_loop (c # cs) fc vc off =
     (if col_fixed (m_columnType c) then
        case offset_loop cs (fc + 1) vc (off + col_size (m_columnType c)) of (r, os, x) \<Rightarrow> (fc # r, word_of_nat off # os, x)
      else case offset_loop cs fc (vc + 1) off of (r, os, x) \<Rightarrow> (vc # r, os, x))"

definition buildColumnOffsetList :: "tableMeta \<Rightarrow> tableMeta" where
  "buildColumnOffsetList t =
     (case offset_loop (tbl_columns t) 0 0 0 of (r, os, fc, vc, off) \<Rightarrow>
      t\<lparr>tbl_realIndexInRowFormat := r, tbl_fixedColumnOffsetsInRecord := os @ [word_of_nat off],
        tbl_fixedColumnCount := fc, tbl_varColumnCount := vc\<rparr>)"

definition map_keys :: "(unionKeyMeta \<Rightarrow> unionKeyMeta) \<Rightarrow> unionKeyMeta option list \<Rightarrow> fault + unionKeyMeta option list" where
  "map_keys f ks = (if None \<in> set ks then Inl Uninitialised else Inr (map (map_option f) ks))"

definition updateKeysWhenColumnUpdate :: "tableMeta \<Rightarrow> nat \<Rightarrow> nat \<Rightarrow> COLUMN_TYPE \<Rightarrow> fault + tableMeta" where
  "updateKeysWhenColumnUpdate t from to newType =
     (let f = ukm_columnUpdate (word_of_nat from) (word_of_nat to) newType;
          t = t\<lparr>tbl_primaryKey := map_option f (tbl_primaryKey t)\<rparr>
      in sbind (map_keys f (tbl_uniqueKeys t)) (\<lambda>us. sbind (map_keys f (tbl_indexs t)) (\<lambda>xs.
           Inr (t\<lparr>tbl_uniqueKeys := us, tbl_indexs := xs\<rparr>))))"

section \<open>DDL on columns\<close>

text \<open>Setting a flag through the pointer that \<^verbatim>\<open>getColumn(columnId)\<close> returns.\<close>

definition update_at :: "tableMeta \<Rightarrow> nat option \<Rightarrow> (columnMeta \<Rightarrow> columnMeta) \<Rightarrow> fault + tableMeta" where
  "update_at t p f = sbind (column_at t p) (\<lambda>c. Inr (t\<lparr>tbl_columns := (tbl_columns t)[the p := f c]\<rparr>))"

fun update_columns_of :: "tableMeta \<Rightarrow> u16 list \<Rightarrow> (columnMeta \<Rightarrow> columnMeta) \<Rightarrow> fault + tableMeta" where
  "update_columns_of t [] f = Inr t"
| "update_columns_of t (c # cs) f = sbind (update_at t (getColumn_id t (unat c)) f) (\<lambda>t. update_columns_of t cs f)"

definition key_columns :: "unionKeyMeta \<Rightarrow> u16 list" where
  "key_columns k = map kc_columnId (take (unat (uk_columnCount k)) (uk_columnInfo k))"

definition dropPrimaryKey :: "tableMeta \<Rightarrow> ddl_result" where
  "dropPrimaryKey t =
     (case tbl_primaryKey t of None \<Rightarrow> Inr (0, t)
      | Some k \<Rightarrow> sbind (update_columns_of t (key_columns k) (\<lambda>c. c\<lparr>m_isPrimary := False\<rparr>)) (\<lambda>t.
          Inr (0, t\<lparr>tbl_primaryKey := None\<rparr>)))"

text \<open>
  The new pointer array after a key is dropped.  The second copying loop ends one element early, so the last slot is left
  as \<^verbatim>\<open>malloc\<close> returned it unless the dropped key was the last.
\<close>

definition drop_slot :: "nat \<Rightarrow> unionKeyMeta option list \<Rightarrow> unionKeyMeta option list" where
  "drop_slot i ks =
     (let n = length ks;
          moved = map (map_option (\<lambda>k. k\<lparr>uk_keyId := uk_keyId k - 1\<rparr>)) (drop (i + 1) (take (n - 1) ks))
      in take i ks @ moved @ (if i + 1 < n then [None] else []))"

definition drop_name :: "nat \<Rightarrow> string list \<Rightarrow> string list" where
  "drop_name i ns = (let n = length ns in take i ns @ drop (i + 1) (take (n - 1) ns) @ (if i + 1 < n then [[]] else []))"

fun still_used :: "u16 \<Rightarrow> unionKeyMeta option list \<Rightarrow> fault + bool" where
  "still_used c [] = Inr False"
| "still_used c (None # ks) = Inl Uninitialised"
| "still_used c (Some k # ks) = (if c \<in> set (key_columns k) then Inr True else still_used c ks)"

fun clear_unused :: "tableMeta \<Rightarrow> u16 list \<Rightarrow> unionKeyMeta option list \<Rightarrow> (columnMeta \<Rightarrow> columnMeta) \<Rightarrow> fault + tableMeta" where
  "clear_unused t [] ks f = Inr t"
| "clear_unused t (c # cs) ks f =
     sbind (still_used c ks) (\<lambda>u.
       if u then clear_unused t cs ks f
       else sbind (update_at t (getColumn_id t (unat c)) f) (\<lambda>t. clear_unused t cs ks f))"

definition slot_key :: "unionKeyMeta option list \<Rightarrow> nat \<Rightarrow> fault + unionKeyMeta" where
  "slot_key ks i = (if i < length ks then case ks ! i of None \<Rightarrow> Inl Uninitialised | Some k \<Rightarrow> Inr k else Inl OutOfBounds)"

definition dropUniqueKey :: "tableMeta \<Rightarrow> string \<Rightarrow> ddl_result" where
  "dropUniqueKey t ukName =
     (case index_of (\<lambda>k. nc_compare (tbl_nameCompare t) k ukName = 0) (tbl_uniqueKeyNames t) of
        None \<Rightarrow> Inr (-1, t)
      | Some idx \<Rightarrow> sbind (slot_key (tbl_uniqueKeys t) idx) (\<lambda>k.
          if length (tbl_uniqueKeys t) = 1 then
            sbind (update_columns_of t (key_columns k) (\<lambda>c. c\<lparr>m_isUnique := False\<rparr>)) (\<lambda>t.
              Inr (0, t\<lparr>tbl_uniqueKeys := [], tbl_uniqueKeyNames := [], tbl_ukFreed := True\<rparr>))
          else let newUks = drop_slot idx (tbl_uniqueKeys t) in
            sbind (clear_unused t (key_columns k) newUks (\<lambda>c. c\<lparr>m_isUnique := False\<rparr>)) (\<lambda>t.
              Inr (0, t\<lparr>tbl_uniqueKeys := newUks, tbl_uniqueKeyNames := drop_name idx (tbl_uniqueKeyNames t)\<rparr>))))"

text \<open>
  \<^verbatim>\<open>dropColumn\<close> removes the column's entries from the keys with \<^verbatim>\<open>memcpy\<close> within one array.  For a unique key source
  and destination overlap as soon as an entry follows, for the primary key as soon as two entries follow, which is
  undefined behaviour; otherwise the copy does what it should.  The primary key's counter of variable-length columns is
  adjusted by the type found at the position after the move.
\<close>

fun uk_drop_loop :: "nat \<Rightarrow> uniqueKeyTypePair list \<Rightarrow> u8 \<Rightarrow> fault + uniqueKeyTypePair list \<times> u8" where
  "uk_drop_loop ci [] var = Inr ([], var)"
| "uk_drop_loop ci (p # ps) var =
     (if unat (kc_columnId p) = ci then
        (if ps \<noteq> [] then Inl OverlappingCopy
         else Inr ([], if \<not> col_fixed (kc_type p) then var - 1 else var))
      else sbind (uk_drop_loop ci ps var) (\<lambda>(qs, var).
        Inr ((if unat (kc_columnId p) > ci then p\<lparr>kc_columnId := kc_columnId p - 1\<rparr> else p) # qs, var)))"

fun pk_drop_loop :: "nat \<Rightarrow> uniqueKeyTypePair list \<Rightarrow> u8 \<Rightarrow> fault + uniqueKeyTypePair list \<times> u8" where
  "pk_drop_loop ci [] var = Inr ([], var)"
| "pk_drop_loop ci (p # ps) var =
     (if unat (kc_columnId p) = ci then
        (if length ps \<ge> 2 then Inl OverlappingCopy
         else pk_drop_loop ci ps (if \<not> col_fixed (kc_type (if ps = [] then p else hd ps)) then var - 1 else var))
      else sbind (pk_drop_loop ci ps var) (\<lambda>(qs, var).
        Inr ((if unat (kc_columnId p) > ci then p\<lparr>kc_columnId := kc_columnId p - 1\<rparr> else p) # qs, var)))"

definition drop_from_key ::
  "(nat \<Rightarrow> uniqueKeyTypePair list \<Rightarrow> u8 \<Rightarrow> fault + uniqueKeyTypePair list \<times> u8) \<Rightarrow> nat \<Rightarrow> unionKeyMeta \<Rightarrow> fault + unionKeyMeta" where
  "drop_from_key loop ci k =
     sbind (loop ci (take (unat (uk_columnCount k)) (uk_columnInfo k)) (uk_varColumnCount k)) (\<lambda>(ps, var).
       Inr (k\<lparr>uk_columnInfo := ps, uk_varColumnCount := var, uk_columnCount := word_of_nat (length ps)\<rparr>))"

fun uks_drop_column :: "nat \<Rightarrow> nat list \<Rightarrow> tableMeta \<Rightarrow> fault + tableMeta" where
  "uks_drop_column ci [] t = Inr t"
| "uks_drop_column ci (i # is) t =
     (if i < length (tbl_uniqueKeys t) then
        sbind (slot_key (tbl_uniqueKeys t) i) (\<lambda>k. sbind (drop_from_key uk_drop_loop ci k) (\<lambda>k.
          let t = t\<lparr>tbl_uniqueKeys := (tbl_uniqueKeys t)[i := Some k]\<rparr> in
          if uk_columnCount k = 0 then sbind (dropUniqueKey t (tbl_uniqueKeyNames t ! i)) (\<lambda>(r, t). uks_drop_column ci is t)
          else uks_drop_column ci is t))
      else Inr t)"

definition pk_drop_column :: "nat \<Rightarrow> tableMeta \<Rightarrow> fault + tableMeta" where
  "pk_drop_column ci t =
     (case tbl_primaryKey t of None \<Rightarrow> Inr t
      | Some k \<Rightarrow> sbind (drop_from_key pk_drop_loop ci k) (\<lambda>k.
          let t = t\<lparr>tbl_primaryKey := Some k\<rparr> in
          if uk_columnCount k = 0 then sbind (dropPrimaryKey t) (\<lambda>(r, t). Inr t) else Inr t))"

definition copy_column :: "columnMeta \<Rightarrow> columnMeta" where "copy_column c = cm_assign columnMeta_new c"

definition dropColumn_id :: "tableMeta \<Rightarrow> nat \<Rightarrow> ddl_result" where
  "dropColumn_id t ci =
     (if ci \<ge> columnsCount t then Inr (-1, t)
      else let columns = map copy_column (take ci (tbl_columns t)) @
                 map (\<lambda>c. (copy_column c)\<lparr>m_columnIndex := m_columnIndex c - 1\<rparr>) (drop (ci + 1) (tbl_columns t))
        in sbind (uks_drop_column ci [0..<length (tbl_uniqueKeys t)] t) (\<lambda>t. sbind (pk_drop_column ci t) (\<lambda>t.
             Inr (0, buildColumnOffsetList (t\<lparr>tbl_columns := columns\<rparr>)))))"

definition dropColumn :: "tableMeta \<Rightarrow> string \<Rightarrow> ddl_result" where
  "dropColumn t column =
     (case getColumn t column of None \<Rightarrow> Inr (-1, t) | Some d \<Rightarrow> dropColumn_id t (m_columnIndex (tbl_columns t ! d)))"

definition renameColumn :: "tableMeta \<Rightarrow> string \<Rightarrow> string \<Rightarrow> ddl_result" where
  "renameColumn t oldName newName =
     (case getColumn t oldName of None \<Rightarrow> Inr (-1, t)
      | Some c \<Rightarrow>
          if nc_compare (tbl_nameCompare t) oldName newName \<noteq> 0 \<and> getColumn t newName \<noteq> None then Inr (-1, t)
          else sbind (update_at t (Some (m_columnIndex (tbl_columns t ! c))) (\<lambda>c. c\<lparr>m_columnName := newName\<rparr>)) (\<lambda>t. Inr (0, t)))"

text \<open>A string column without a character set gets the table's, and its size is counted in bytes.\<close>

definition default_charset :: "tableMeta \<Rightarrow> columnMeta \<Rightarrow> fault + columnMeta" where
  "default_charset t c =
     (if stringType (columnInfos ! TID (m_columnType c)) \<and> m_charset c = None then
        let c = c\<lparr>m_charset := tbl_charset t\<rparr> in
        if m_size c > 0 then
          case tbl_charset t of None \<Rightarrow> Inl NullDeref
          | Some cs \<Rightarrow> Inr (c\<lparr>m_size := m_size c * word_of_nat (byteSizePerChar cs)\<rparr>)
        else Inr c
      else Inr c)"

definition shift_columns :: "nat \<Rightarrow> nat \<Rightarrow> columnMeta list \<Rightarrow> columnMeta list" where
  "shift_columns idx to cs =
     (if idx < to then
        foldl (\<lambda>cs i. cs[i - 1 := (cm_assign (cs ! (i - 1)) (cs ! i))\<lparr>m_columnIndex := i - 1\<rparr>]) cs [idx + 1..<to + 1]
      else
        foldl (\<lambda>cs i. cs[i + 1 := (cm_assign (cs ! (i + 1)) (cs ! i))\<lparr>m_columnIndex := i + 1\<rparr>]) cs (rev [to..<idx]))"

text \<open>The common part of \<^verbatim>\<open>modifyColumn\<close> and \<^verbatim>\<open>changeColumn\<close>: put the new column at \<open>to\<close>, after shifting those between.\<close>

definition place_column :: "tableMeta \<Rightarrow> nat \<Rightarrow> nat \<Rightarrow> columnMeta \<Rightarrow> columnMeta \<Rightarrow> ddl_result" where
  "place_column t idx to old column =
     (let cs = shift_columns idx to (tbl_columns t);
          c = (cm_assign (cs ! to) column)\<lparr>m_columnIndex := to, m_isPrimary := m_isPrimary old, m_isUnique := m_isUnique old,
                m_isIndex := m_isIndex old\<rparr>
      in sbind (default_charset t c) (\<lambda>c.
           sbind (updateKeysWhenColumnUpdate (t\<lparr>tbl_columns := cs[to := c]\<rparr>) idx to (m_columnType column)) (\<lambda>t.
             Inr (0, buildColumnOffsetList t))))"

definition alter_column :: "tableMeta \<Rightarrow> nat \<Rightarrow> columnMeta \<Rightarrow> bool \<Rightarrow> string option \<Rightarrow> ddl_result" where
  "alter_column t p column first addAfter =
     (let old = tbl_columns t ! p; idx = m_columnIndex old in
      if (m_isPrimary old \<or> m_isUnique old \<or> m_isIndex old) \<and> \<not> col_asIndex (m_columnType column) then Inr (-1, t)
      else if (\<not> first \<and> addAfter = None) \<or> (first \<and> idx = 0) then place_column t idx idx old column
      else if first then place_column t idx 0 old column
      else case getColumn t (the addAfter) of None \<Rightarrow> Inr (-1, t)
           | Some after \<Rightarrow> place_column t idx (m_columnIndex (tbl_columns t ! after)) old column)"

definition modifyColumn :: "tableMeta \<Rightarrow> columnMeta \<Rightarrow> bool \<Rightarrow> string option \<Rightarrow> ddl_result" where
  "modifyColumn t column first addAfter =
     (case getColumn t (m_columnName column) of None \<Rightarrow> Inr (-1, t) | Some p \<Rightarrow> alter_column t p column first addAfter)"

definition changeColumn :: "tableMeta \<Rightarrow> columnMeta \<Rightarrow> string \<Rightarrow> bool \<Rightarrow> string option \<Rightarrow> ddl_result" where
  "changeColumn t newColumn columnName first addAfter =
     (case getColumn t columnName of None \<Rightarrow> Inr (-1, t)
      | Some p \<Rightarrow>
          if nc_compare (tbl_nameCompare t) columnName (m_columnName newColumn) \<noteq> 0 \<and> getColumn t (m_columnName newColumn) \<noteq> None
          then Inr (-1, t) else alter_column t p newColumn first addAfter)"

definition addColumn :: "tableMeta \<Rightarrow> columnMeta \<Rightarrow> string option \<Rightarrow> bool \<Rightarrow> ddl_result" where
  "addColumn t column addAfter first =
     (if getColumn t (m_columnName column) \<noteq> None then Inr (-1, t)
      else if (case addAfter of Some a \<Rightarrow> getColumn t a = None | None \<Rightarrow> False) then Inr (-1, t)
      else let n = columnsCount t;
               idx = (case addAfter of Some a \<Rightarrow> m_columnIndex (tbl_columns t ! the (getColumn t a))
                      | None \<Rightarrow> if first then 0 else n);
               c = (cm_assign columnMeta_new column)\<lparr>m_columnIndex := idx\<rparr>
        in sbind (default_charset t c) (\<lambda>c.
             let t = t\<lparr>tbl_columns := map copy_column (take idx (tbl_columns t)) @ c #
                        map (\<lambda>c. (copy_column c)\<lparr>m_columnIndex := m_columnIndex c + 1\<rparr>) (drop idx (tbl_columns t))\<rparr>
             in sbind (if idx \<noteq> n then updateKeysWhenColumnUpdate t idx idx (m_columnType column) else Inr t) (\<lambda>t.
                  Inr (0, buildColumnOffsetList t))))"

section \<open>DDL on keys\<close>

fun column_ids :: "tableMeta \<Rightarrow> string list \<Rightarrow> u16 list option" where
  "column_ids t [] = Some []"
| "column_ids t (n # ns) =
     (case getColumn t n of None \<Rightarrow> None
      | Some p \<Rightarrow> map_option ((#) (word_of_nat (m_columnIndex (tbl_columns t ! p)))) (column_ids t ns))"

text \<open>\<^verbatim>\<open>m_columns[columnIds[i]].flag = true\<close>, for ids that \<^verbatim>\<open>createUnionKey\<close> has checked.\<close>

definition flag_columns :: "tableMeta \<Rightarrow> u16 list \<Rightarrow> (columnMeta \<Rightarrow> columnMeta) \<Rightarrow> tableMeta" where
  "flag_columns t ids f = t\<lparr>tbl_columns := foldl (\<lambda>cs c. cs[unat c := f (cs ! unat c)]) (tbl_columns t) ids\<rparr>"

definition createPrimaryKey :: "tableMeta \<Rightarrow> string list \<Rightarrow> int \<times> tableMeta" where
  "createPrimaryKey t columns =
     (if length columns \<ge> 256 \<or> columns = [] then (-1, t)
      else if tbl_primaryKey t \<noteq> None then (-1, t)
      else case column_ids t columns of None \<Rightarrow> (-1, t)
           | Some ids \<Rightarrow> let t = t\<lparr>tbl_primaryKey := createUnionKey t 0 PRIMARY_KEY ids\<rparr> in
               if tbl_primaryKey t \<noteq> None then (0, flag_columns t ids (\<lambda>c. c\<lparr>m_isPrimary := True\<rparr>)) else (-1, t))"

definition addIndex_slot :: "KEY_TYPE \<Rightarrow> tableMeta \<Rightarrow> unionKeyMeta \<Rightarrow> string \<Rightarrow> tableMeta" where
  "addIndex_slot keyType t index indexName =
     (if keyType = UNIQUE_KEY then
        t\<lparr>tbl_uniqueKeys := tbl_uniqueKeys t @ [Some index], tbl_uniqueKeyNames := tbl_uniqueKeyNames t @ [indexName], tbl_ukFreed := False\<rparr>
      else
        t\<lparr>tbl_indexs := tbl_indexs t @ [Some index], tbl_indexNames := tbl_indexNames t @ [indexName], tbl_idxFreed := False\<rparr>)"

fun dec_str :: "nat \<Rightarrow> string" where
  "dec_str n = (if n < 10 then [char_of (48 + n)] else dec_str (n div 10) @ [char_of (48 + n mod 10)])"

declare dec_str.simps [simp del]

definition unused_name :: "tableMeta \<Rightarrow> string \<Rightarrow> bool" where
  "unused_name t n \<longleftrightarrow> getIndex t n = None \<and> getUniqueKey t n = None"

text \<open>
  The name of an unnamed key: the first column's name, or that name with the first free number from 2 on.  There are more
  candidates below the bound than keys, so the loop of the code ends within it.
\<close>

definition gen_name :: "tableMeta \<Rightarrow> string \<Rightarrow> string option" where
  "gen_name t base =
     (if unused_name t base then Some base
      else find (unused_name t) (map (\<lambda>i. base @ ''_'' @ dec_str i)
             [2..<length (tbl_indexNames t) + length (tbl_uniqueKeyNames t) + 3]))"

fun flag_named :: "tableMeta \<Rightarrow> string list \<Rightarrow> (columnMeta \<Rightarrow> columnMeta) \<Rightarrow> tableMeta \<times> u16 list option" where
  "flag_named t [] f = (t, Some [])"
| "flag_named t (n # ns) f =
     (case getColumn t n of None \<Rightarrow> (t, None)
      | Some p \<Rightarrow> let c = tbl_columns t ! p; (t, ids) = flag_named (t\<lparr>tbl_columns := (tbl_columns t)[p := f c]\<rparr>) ns f in
          (t, map_option ((#) (word_of_nat (m_columnIndex c))) ids))"

definition addIndex :: "tableMeta \<Rightarrow> string option \<Rightarrow> string list \<Rightarrow> KEY_TYPE \<Rightarrow> int \<times> tableMeta" where
  "addIndex t indexName columns keyType =
     (if length columns \<ge> 256 \<or> columns = [] then (-1, t)
      else if keyType \<noteq> INDEX \<and> keyType \<noteq> UNIQUE_KEY then (-1, t)
      else if (case indexName of Some n \<Rightarrow> n \<noteq> [] \<and> \<not> unused_name t n | None \<Rightarrow> False) then (-1, t)
      else case flag_named t columns (\<lambda>c. if keyType = UNIQUE_KEY then c\<lparr>m_isUnique := True\<rparr> else c\<lparr>m_isIndex := True\<rparr>) of
             (t, None) \<Rightarrow> (-1, t)
           | (t, Some ids) \<Rightarrow>
               let name = (case indexName of Some n \<Rightarrow> if n \<noteq> [] then Some n else gen_name t (hd columns)
                           | None \<Rightarrow> gen_name t (hd columns))
               in case createUnionKey t (length (tbl_indexs t)) keyType ids of None \<Rightarrow> (-1, t)
                  | Some index \<Rightarrow> (0, addIndex_slot keyType (flag_columns t ids (\<lambda>c. c\<lparr>m_isIndex := True\<rparr>)) index (the name)))"

definition renameIndex :: "tableMeta \<Rightarrow> string \<Rightarrow> string \<Rightarrow> ddl_result" where
  "renameIndex t oldName newName =
     (case getIndex t oldName of None \<Rightarrow> Inr (-1, t)
      | Some i \<Rightarrow>
          if nc_compare (tbl_nameCompare t) oldName newName \<noteq> 0 then
            if getIndex t newName \<noteq> None then Inr (-1, t)
            else sbind (slot_key (tbl_indexs t) i) (\<lambda>k.
              if unat (uk_keyId k) < length (tbl_indexNames t) then
                Inr (0, t\<lparr>tbl_indexNames := (tbl_indexNames t)[unat (uk_keyId k) := newName]\<rparr>)
              else Inl OutOfBounds)
          else Inr (0, t))"

text \<open>\<^verbatim>\<open>_dropIndex\<close> on the slots \<open>ks\<close> and names \<open>ns\<close>; the result carries the new arrays and whether they dangle.\<close>

definition dropIndex_slot ::
  "tableMeta \<Rightarrow> nat \<Rightarrow> unionKeyMeta option list \<Rightarrow> string list \<Rightarrow> KEY_TYPE \<Rightarrow>
    fault + tableMeta \<times> unionKeyMeta option list \<times> string list \<times> bool" where
  "dropIndex_slot t idx ks ns keyType =
     sbind (slot_key ks idx) (\<lambda>k.
       if length ks = 1 then
         sbind (update_columns_of t (key_columns k) (\<lambda>c. c\<lparr>m_isIndex := False\<rparr>)) (\<lambda>t. Inr (t, [], [], True))
       else let newIndexs = drop_slot idx ks in
         sbind (clear_unused t (key_columns k) newIndexs
                  (\<lambda>c. if keyType = UNIQUE_KEY then c\<lparr>m_isUnique := False\<rparr> else if keyType = INDEX then c\<lparr>m_isIndex := False\<rparr> else c))
           (\<lambda>t. Inr (t, newIndexs, drop_name idx ns, False)))"

definition dropIndex :: "tableMeta \<Rightarrow> string \<Rightarrow> ddl_result" where
  "dropIndex t indexName =
     (case index_of (\<lambda>k. nc_compare (tbl_nameCompare t) k indexName = 0) (tbl_indexNames t) of
        Some idx \<Rightarrow> sbind (dropIndex_slot t idx (tbl_indexs t) (tbl_indexNames t) INDEX) (\<lambda>(t, ks, ns, freed).
          Inr (0, t\<lparr>tbl_indexs := ks, tbl_indexNames := ns, tbl_idxFreed := freed\<rparr>))
      | None \<Rightarrow>
          (case index_of (\<lambda>k. nc_compare (tbl_nameCompare t) k indexName = 0) (tbl_uniqueKeyNames t) of
             Some idx \<Rightarrow> sbind (dropIndex_slot t idx (tbl_uniqueKeys t) (tbl_uniqueKeyNames t) UNIQUE_KEY) (\<lambda>(t, ks, ns, freed).
               Inr (0, t\<lparr>tbl_uniqueKeys := ks, tbl_uniqueKeyNames := ns, tbl_ukFreed := freed\<rparr>))
           | None \<Rightarrow> Inr (-1, t)))"

section \<open>Character set, comparison, copy and printing\<close>

definition defaultCharset :: "tableMeta \<Rightarrow> charsetInfo option \<Rightarrow> int \<times> tableMeta" where
  "defaultCharset t charset = (if charset = None then (-1, t) else (0, t\<lparr>tbl_charset := charset\<rparr>))"

definition convertDefaultCharset :: "tableMeta \<Rightarrow> charsetInfo option \<Rightarrow> int \<times> tableMeta" where
  "convertDefaultCharset t charset =
     (if charset = None then (-1, t)
      else (0, t\<lparr>tbl_charset := charset, tbl_columns :=
         map (\<lambda>c. if stringType (columnInfos ! TID (m_columnType c)) then c\<lparr>m_charset := charset\<rparr> else c) (tbl_columns t)\<rparr>))"

fun keys_eq :: "unionKeyMeta option list \<Rightarrow> unionKeyMeta option list \<Rightarrow> fault + bool" where
  "keys_eq (Some a # as) (Some b # bs) = (if ukm_neq a b then Inr False else keys_eq as bs)"
| "keys_eq (None # as) _ = Inl Uninitialised"
| "keys_eq (_ # as) (None # bs) = Inl Uninitialised"
| "keys_eq _ _ = Inr True"

definition tbl_eq :: "tableMeta \<Rightarrow> tableMeta \<Rightarrow> fault + bool" where
  "tbl_eq a b =
     (if caseSensitive (tbl_nameCompare a) \<noteq> caseSensitive (tbl_nameCompare b) then Inr False
      else if nc_compare (tbl_nameCompare a) (tbl_dbName a) (tbl_dbName b) \<noteq> 0 \<or>
              nc_compare (tbl_nameCompare a) (tbl_tableName a) (tbl_tableName b) \<noteq> 0 \<or>
              tbl_charset a \<noteq> tbl_charset b \<or> tbl_collate a \<noteq> tbl_collate b \<or>
              tbl_fixedColumnCount a \<noteq> tbl_fixedColumnCount b \<or>
              length (tbl_indexs a) \<noteq> length (tbl_indexs b) \<or> length (tbl_uniqueKeys a) \<noteq> length (tbl_uniqueKeys b) then Inr False
      else if columnsCount a \<noteq> columnsCount b then Inr False
      else if \<not> list_all2 cm_eq (tbl_columns a) (tbl_columns b) then Inr False
      else case (tbl_primaryKey a, tbl_primaryKey b) of
             (Some k, Some l) \<Rightarrow>
               if ukm_neq k l then Inr False
               else sbind (keys_eq (tbl_uniqueKeys a) (tbl_uniqueKeys b)) (\<lambda>r.
                 if r then keys_eq (tbl_indexs a) (tbl_indexs b) else Inr False)
           | _ \<Rightarrow> Inl NullDeref)"

definition tbl_assign :: "tableMeta \<Rightarrow> tableMeta \<Rightarrow> fault + tableMeta" where
  "tbl_assign a t =
     sbind (tbl_clean a) (\<lambda>a.
       if None \<in> set (tbl_uniqueKeys t) \<or> None \<in> set (tbl_indexs t) then Inl Uninitialised
       else Inr (a\<lparr>tbl_tableName := tbl_tableName t, tbl_dbName := tbl_dbName t, tbl_charset := tbl_charset t,
         tbl_nameCompare := tbl_nameCompare t, tbl_columns := map copy_column (tbl_columns t), tbl_id := tbl_id t,
         tbl_primaryKey := map_option ukm_copy (tbl_primaryKey t),
         tbl_uniqueKeys := map (map_option ukm_copy) (tbl_uniqueKeys t), tbl_uniqueKeyNames := tbl_uniqueKeyNames t,
         tbl_indexs := map (map_option ukm_copy) (tbl_indexs t), tbl_indexNames := tbl_indexNames t,
         tbl_fixedColumnCount := tbl_fixedColumnCount t, tbl_varColumnCount := tbl_varColumnCount t,
         tbl_realIndexInRowFormat := tbl_realIndexInRowFormat t,
         tbl_fixedColumnOffsetsInRecord := tbl_fixedColumnOffsetsInRecord t\<rparr>))"

text \<open>SQL text; a type the switch does not list aborts, and a missing character set is dereferenced.\<close>

definition with_precision :: "string \<Rightarrow> columnMeta \<Rightarrow> string" where
  "with_precision name c = name @ (if m_precision c > 0 then ''('' @ dec_str (unat (m_precision c)) @ '')'' else [])"

definition sized :: "string \<Rightarrow> columnMeta \<Rightarrow> string" where
  "sized name c = name @ ''('' @ dec_str (unat (m_size c)) @ '','' @ dec_str (unat (m_decimals c)) @ '')''"

fun comma_list :: "string list \<Rightarrow> string" where
  "comma_list [] = []"
| "comma_list [x] = x"
| "comma_list (x # xs) = x @ '','' @ comma_list xs"

definition quoted_values :: "columnMeta \<Rightarrow> string" where
  "quoted_values c = comma_list (map (\<lambda>v. [CHR 0x27] @ v @ [CHR 0x27])
     (take (sa_count (m_setAndEnumValueList c)) (sa_array (m_setAndEnumValueList c))))"

definition charset_name :: "columnMeta \<Rightarrow> fault + string" where
  "charset_name c = (case m_charset c of None \<Rightarrow> Inl NullDeref | Some cs \<Rightarrow> Inr (cs_name cs))"

definition type_text :: "columnMeta \<Rightarrow> fault + string" where
  "type_text c = (case m_columnType c of
      T_DECIMAL \<Rightarrow> Inr (sized ''DECIMAL'' c)
    | T_DOUBLE \<Rightarrow> Inr (sized ''DOUBLE'' c)
    | T_FLOAT \<Rightarrow> Inr (sized ''FLOAT'' c)
    | T_BYTE \<Rightarrow> Inr (''BIT('' @ dec_str (unat (m_size c)) @ '')'')
    | T_UINT8 \<Rightarrow> Inr ''TINY UNSIGNED''
    | T_INT8 \<Rightarrow> Inr ''TINY''
    | T_UINT16 \<Rightarrow> Inr ''SMALLINT UNSIGNED''
    | T_INT16 \<Rightarrow> Inr ''SMALLINT''
    | T_UINT32 \<Rightarrow> Inr ''INT UNSIGNED''
    | T_INT32 \<Rightarrow> Inr ''INT''
    | T_UINT64 \<Rightarrow> Inr ''BIGINT UNSIGNED''
    | T_INT64 \<Rightarrow> Inr ''BIGINT''
    | T_DATETIME \<Rightarrow> Inr (with_precision ''DATETIME'' c)
    | T_TIMESTAMP \<Rightarrow> Inr (with_precision ''TIMESTAMP'' c)
    | T_DATE \<Rightarrow> Inr ''DATE''
    | T_TIME \<Rightarrow> Inr (with_precision ''TIME'' c)
    | T_YEAR \<Rightarrow> Inr (with_precision ''YEAR'' c)
    | T_STRING \<Rightarrow> (case m_charset c of None \<Rightarrow> Inl NullDeref
        | Some cs \<Rightarrow> Inr (''CHAR('' @ dec_str (unat (m_size c) div byteSizePerChar cs) @ '') CHARACTER SET '' @ cs_name cs))
    | T_TEXT \<Rightarrow> sbind (charset_name c) (\<lambda>n. Inr (''TEXT CHARACTER SET '' @ n))
    | T_BLOB \<Rightarrow> Inr ''BLOB''
    | T_ENUM \<Rightarrow> sbind (charset_name c) (\<lambda>n. Inr (''ENUM ('' @ quoted_values c @ '') CHARACTER SET '' @ n))
    | T_SET \<Rightarrow> sbind (charset_name c) (\<lambda>n. Inr (''SET ('' @ quoted_values c @ '') CHARACTER SET '' @ n))
    | T_GEOMETRY \<Rightarrow> Inr ''GEOMETRY''
    | T_JSON \<Rightarrow> Inr ''JSON''
    | _ \<Rightarrow> Inl Aborted)"

definition cm_toString :: "columnMeta \<Rightarrow> fault + string" where
  "cm_toString c =
     sbind (type_text c) (\<lambda>ty. Inr (''`'' @ m_columnName c @ ''` '' @ ty @ (if \<not> m_nullable c then '' not null'' else [])))"

fun sbind_list :: "('e + 'a) list \<Rightarrow> 'e + 'a list" where
  "sbind_list [] = Inr []"
| "sbind_list (x # xs) = sbind x (\<lambda>a. sbind (sbind_list xs) (\<lambda>as. Inr (a # as)))"

definition key_text :: "tableMeta \<Rightarrow> unionKeyMeta \<Rightarrow> fault + string" where
  "key_text t k =
     sbind (sbind_list (map (\<lambda>c. column_at t (getColumn_id t (unat c))) (key_columns k))) (\<lambda>cs.
       Inr (comma_list (map (\<lambda>c. ''`'' @ m_columnName c @ ''`'') cs)))"

definition unique_text :: "tableMeta \<Rightarrow> unionKeyMeta option \<times> string \<Rightarrow> fault + string" where
  "unique_text t = (\<lambda>(k, n). case k of None \<Rightarrow> Inl Uninitialised
     | Some k \<Rightarrow> sbind (key_text t k) (\<lambda>s. Inr (''UNIQUE KEY `'' @ n @ ''` ('' @ s @ '')'')))"

definition tbl_toString :: "tableMeta \<Rightarrow> fault + string" where
  "tbl_toString t =
     sbind (sbind_list (map cm_toString (tbl_columns t))) (\<lambda>cols.
     sbind (case tbl_primaryKey t of None \<Rightarrow> Inr []
            | Some k \<Rightarrow> sbind (key_text t k) (\<lambda>s. Inr ([CHR '','', CHR 0x0A, CHR 0x09] @ ''PRIMARY KEY ('' @ s @ '')''))) (\<lambda>pk.
     sbind (sbind_list (map (unique_text t) (zip (tbl_uniqueKeys t) (tbl_uniqueKeyNames t)))) (\<lambda>uks.
     case tbl_charset t of None \<Rightarrow> Inl NullDeref
     | Some cs \<Rightarrow> Inr (''CREATE TABLE `'' @ tbl_dbName t @ ''`.`'' @ tbl_tableName t @ ''` ('' @
         comma_list (map (\<lambda>s. [CHR 0x0A, CHR 0x09] @ s) cols) @ pk @
         concat (map (\<lambda>s. [CHR '','', CHR 0x0A, CHR 0x09] @ s) uks) @
         '' '' @ [CHR 0x0A] @ '') CHARACTER SET '' @ cs_name cs @ '';''))))"

end
