(* ===== verification/MetaDataProofs.thy ===== *)
theory MetaDataProofs
  imports MetaData
begin

text \<open>
  Properties of the table descriptions: the row layout computed from the columns, the invariant that every sequence of
  DDL operations keeps, how keys follow a moved column, and where adding columns and dropping keys goes wrong.
\<close>

section \<open>Row layout\<close>

definition fixed_cols :: "COLUMN_TYPE list \<Rightarrow> nat" where "fixed_cols ts = length (filter col_fixed ts)"
definition var_cols :: "COLUMN_TYPE list \<Rightarrow> nat" where "var_cols ts = length (filter (\<lambda>t. \<not> col_fixed t) ts)"
definition fixed_size :: "COLUMN_TYPE list \<Rightarrow> nat" where "fixed_size ts = sum_list (map col_size (filter col_fixed ts))"

lemma layout_Nil [simp]: "fixed_cols [] = 0" "var_cols [] = 0" "fixed_size [] = 0"
  by (simp_all add: fixed_cols_def var_cols_def fixed_size_def)

lemma layout_Cons [simp]:
  "fixed_cols (t # ts) = (if col_fixed t then Suc (fixed_cols ts) else fixed_cols ts)"
  "var_cols (t # ts) = (if col_fixed t then var_cols ts else Suc (var_cols ts))"
  "fixed_size (t # ts) = (if col_fixed t then col_size t + fixed_size ts else fixed_size ts)"
  by (simp_all add: fixed_cols_def var_cols_def fixed_size_def)

lemma layout_append [simp]:
  "fixed_cols (ts @ us) = fixed_cols ts + fixed_cols us" "var_cols (ts @ us) = var_cols ts + var_cols us"
  "fixed_size (ts @ us) = fixed_size ts + fixed_size us"
  by (simp_all add: fixed_cols_def var_cols_def fixed_size_def)

lemma layout_mono: "i \<le> j \<Longrightarrow> fixed_size (take i ts) \<le> fixed_size (take j ts)"
proof -
  assume "i \<le> j"
  then have "take j ts = take i ts @ take (j - i) (drop i ts)" by (metis le_add_diff_inverse take_add)
  then show ?thesis by simp
qed

lemma layout_take_le: "fixed_size (take i ts) \<le> fixed_size ts" "fixed_cols (take i ts) \<le> fixed_cols ts" "var_cols (take i ts) \<le> var_cols ts"
proof -
  have "ts = take i ts @ drop i ts" by simp
  then show "fixed_size (take i ts) \<le> fixed_size ts" "fixed_cols (take i ts) \<le> fixed_cols ts" "var_cols (take i ts) \<le> var_cols ts"
    using layout_append [of "take i ts" "drop i ts"] by simp_all
qed

lemma offset_loop_totals:
  "offset_loop cs fc vc off = (r, os, fc', vc', off') \<Longrightarrow>
    length r = length cs \<and> length os = fixed_cols (map m_columnType cs) \<and> fc' = fc + fixed_cols (map m_columnType cs) \<and>
    vc' = vc + var_cols (map m_columnType cs) \<and> off' = off + fixed_size (map m_columnType cs)"
  by (induction cs arbitrary: fc vc off r os fc' vc' off') (fastforce split: prod.splits if_splits)+

lemma offset_loop_nth:
  "offset_loop cs fc vc off = (r, os, x) \<Longrightarrow> i < length cs \<Longrightarrow>
    (if col_fixed (m_columnType (cs ! i)) then
       r ! i = fc + fixed_cols (map m_columnType (take i cs)) \<and>
       os ! fixed_cols (map m_columnType (take i cs)) = word_of_nat (off + fixed_size (map m_columnType (take i cs)))
     else r ! i = vc + var_cols (map m_columnType (take i cs)))"
proof (induction cs arbitrary: fc vc off r os x i)
  case (Cons c cs)
  show ?case
  proof (cases i)
    case 0
    then show ?thesis using Cons.prems by (auto split: prod.splits if_splits)
  next
    case (Suc j)
    obtain r' os' x' where rec:
      "offset_loop cs (if col_fixed (m_columnType c) then fc + 1 else fc) (if col_fixed (m_columnType c) then vc else vc + 1)
         (if col_fixed (m_columnType c) then off + col_size (m_columnType c) else off) = (r', os', x')"
      by (metis surj_pair)
    have j: "j < length cs" using Cons.prems(2) Suc by simp
    note ih = Cons.IH [OF rec j]
    have "r = (if col_fixed (m_columnType c) then fc else vc) # r'" "os = (if col_fixed (m_columnType c) then [word_of_nat off] else []) @ os'"
      using Cons.prems(1) rec by (auto split: prod.splits if_splits)
    with ih Suc show ?thesis by (auto simp: add.assoc split: if_splits)
  qed
qed simp

lemma offset_loop_types:
  "map m_columnType cs = map m_columnType ds \<Longrightarrow> offset_loop cs fc vc off = offset_loop ds fc vc off"
proof (induction cs arbitrary: ds fc vc off)
  case (Cons c cs)
  then obtain d ds' where "ds = d # ds'" "m_columnType c = m_columnType d" "map m_columnType cs = map m_columnType ds'" by auto
  with Cons.IH [of ds'] show ?case by simp
qed simp

text \<open>The layout fields of a description, as functions of the column types.\<close>

definition layout_ok :: "tableMeta \<Rightarrow> bool" where
  "layout_ok t \<longleftrightarrow> (case offset_loop (tbl_columns t) 0 0 0 of (r, os, fc, vc, off) \<Rightarrow>
     tbl_realIndexInRowFormat t = r \<and> tbl_fixedColumnOffsetsInRecord t = os @ [word_of_nat off] \<and>
     tbl_fixedColumnCount t = fc \<and> tbl_varColumnCount t = vc)"

lemma build_layout_ok [simp]: "layout_ok (buildColumnOffsetList t)"
  and build_columns [simp]: "tbl_columns (buildColumnOffsetList t) = tbl_columns t"
  by (auto simp: layout_ok_def buildColumnOffsetList_def split: prod.splits)

abbreviation col_types :: "tableMeta \<Rightarrow> COLUMN_TYPE list" where "col_types t \<equiv> map m_columnType (tbl_columns t)"

lemma layout_facts:
  assumes "layout_ok t"
  shows "tbl_fixedColumnCount t = fixed_cols (col_types t)" and "tbl_varColumnCount t = var_cols (col_types t)"
    and "length (tbl_realIndexInRowFormat t) = columnsCount t"
    and "length (tbl_fixedColumnOffsetsInRecord t) = fixed_cols (col_types t) + 1"
    and "tbl_fixedColumnOffsetsInRecord t ! fixed_cols (col_types t) = word_of_nat (fixed_size (col_types t))"
    and "i < columnsCount t \<Longrightarrow> col_fixed (col_types t ! i) \<Longrightarrow>
      tbl_realIndexInRowFormat t ! i = fixed_cols (take i (col_types t)) \<and>
      tbl_fixedColumnOffsetsInRecord t ! fixed_cols (take i (col_types t)) = word_of_nat (fixed_size (take i (col_types t)))"
    and "i < columnsCount t \<Longrightarrow> \<not> col_fixed (col_types t ! i) \<Longrightarrow> tbl_realIndexInRowFormat t ! i = var_cols (take i (col_types t))"
proof -
  obtain r os fc vc off where l: "offset_loop (tbl_columns t) 0 0 0 = (r, os, fc, vc, off)" by (metis surj_pair)
  note tot = offset_loop_totals [OF l]
  have f: "tbl_realIndexInRowFormat t = r" "tbl_fixedColumnOffsetsInRecord t = os @ [word_of_nat off]"
    "tbl_fixedColumnCount t = fc" "tbl_varColumnCount t = vc" using assms by (simp_all add: layout_ok_def l)
  show "tbl_fixedColumnCount t = fixed_cols (col_types t)" "tbl_varColumnCount t = var_cols (col_types t)"
    "length (tbl_realIndexInRowFormat t) = columnsCount t" "length (tbl_fixedColumnOffsetsInRecord t) = fixed_cols (col_types t) + 1"
    "tbl_fixedColumnOffsetsInRecord t ! fixed_cols (col_types t) = word_of_nat (fixed_size (col_types t))"
    using tot f by (simp_all add: nth_append)
  assume i: "i < columnsCount t"
  note n = offset_loop_nth [OF l i]
  have lt: "fixed_cols (take i (col_types t)) < fixed_cols (col_types t)" if "col_fixed (col_types t ! i)"
  proof -
    have "fixed_cols (take (Suc i) (col_types t)) \<le> fixed_cols (col_types t)" by (rule layout_take_le)
    with that i show ?thesis by (simp add: take_Suc_conv_app_nth)
  qed
  show "tbl_realIndexInRowFormat t ! i = fixed_cols (take i (col_types t)) \<and>
      tbl_fixedColumnOffsetsInRecord t ! fixed_cols (take i (col_types t)) = word_of_nat (fixed_size (take i (col_types t)))"
    if "col_fixed (col_types t ! i)"
    using n that i lt [OF that] tot f by (simp add: nth_append take_map)
  show "tbl_realIndexInRowFormat t ! i = var_cols (take i (col_types t))" if "\<not> col_fixed (col_types t ! i)"
    using n that i f by (simp add: take_map)
qed

section \<open>What DDL keeps\<close>

text \<open>What the invariant looks at: the columns' indexes and types and the layout fields.\<close>

definition cview :: "tableMeta \<Rightarrow> (nat \<times> COLUMN_TYPE) list \<times> nat list \<times> u16 list \<times> nat \<times> nat" where
  "cview t = (map (\<lambda>c. (m_columnIndex c, m_columnType c)) (tbl_columns t), tbl_realIndexInRowFormat t,
     tbl_fixedColumnOffsetsInRecord t, tbl_fixedColumnCount t, tbl_varColumnCount t)"

definition indexed :: "columnMeta list \<Rightarrow> bool" where
  "indexed cs \<longleftrightarrow> map m_columnIndex cs = [0..<length cs]"

definition tbl_inv :: "tableMeta \<Rightarrow> bool" where
  "tbl_inv t \<longleftrightarrow> indexed (tbl_columns t) \<and> (tbl_columns t = [] \<or> layout_ok t)"

lemma indexed_nth: "indexed cs \<longleftrightarrow> (\<forall>i < length cs. m_columnIndex (cs ! i) = i)"
  unfolding indexed_def list_eq_iff_nth_eq by simp

lemma cview_inv:
  assumes "cview t = cview u"
  shows "tbl_inv t \<longleftrightarrow> tbl_inv u"
proof -
  let ?f = "\<lambda>c. (m_columnIndex c, m_columnType c)"
  have c: "map ?f (tbl_columns t) = map ?f (tbl_columns u)" using assms by (simp add: cview_def)
  have f: "tbl_realIndexInRowFormat t = tbl_realIndexInRowFormat u" "tbl_fixedColumnOffsetsInRecord t = tbl_fixedColumnOffsetsInRecord u"
    "tbl_fixedColumnCount t = tbl_fixedColumnCount u" "tbl_varColumnCount t = tbl_varColumnCount u"
    using assms by (simp_all add: cview_def)
  have m: "map m_columnIndex (tbl_columns t) = map m_columnIndex (tbl_columns u)" "col_types t = col_types u"
    using arg_cong [OF c, of "map fst"] arg_cong [OF c, of "map snd"] by (simp_all add: comp_def)
  have n: "length (tbl_columns t) = length (tbl_columns u)" using c by (rule map_eq_imp_length_eq)
  then have e: "tbl_columns t = [] \<longleftrightarrow> tbl_columns u = []" by (simp only: flip: length_0_conv)
  show ?thesis
    unfolding tbl_inv_def indexed_def layout_ok_def f m(1) n e offset_loop_types [OF m(2), of 0 0 0] by (rule refl)
qed

text \<open>Changes of a column that keep its index and type, and of the key fields, are invisible.\<close>

definition keeps :: "(columnMeta \<Rightarrow> columnMeta) \<Rightarrow> bool" where
  "keeps f \<longleftrightarrow> (\<forall>c. m_columnIndex (f c) = m_columnIndex c \<and> m_columnType (f c) = m_columnType c)"

lemma keeps_flags [simp]:
  "keeps (\<lambda>c. c\<lparr>m_isPrimary := b\<rparr>)" "keeps (\<lambda>c. c\<lparr>m_isUnique := b\<rparr>)" "keeps (\<lambda>c. c\<lparr>m_isIndex := b\<rparr>)" "keeps (\<lambda>c. c\<lparr>m_columnName := n\<rparr>)"
  "keeps (\<lambda>c. if x then c\<lparr>m_isUnique := b\<rparr> else if y then c\<lparr>m_isIndex := b\<rparr> else c)"
  "keeps (\<lambda>c. if x then c\<lparr>m_isUnique := b\<rparr> else c\<lparr>m_isIndex := b\<rparr>)"
  "keeps (\<lambda>c. if stringType (columnInfos ! TID (m_columnType c)) then c\<lparr>m_charset := cs\<rparr> else c)"
  by (simp_all add: keeps_def)

lemma cview_column_update:
  assumes "keeps f" and "i < columnsCount t"
  shows "cview (t\<lparr>tbl_columns := (tbl_columns t)[i := f (tbl_columns t ! i)]\<rparr>) = cview t"
  using assms by (simp add: cview_def map_update keeps_def list_update_same_conv)

lemma cview_keys [simp]:
  "cview (t\<lparr>tbl_primaryKey := a\<rparr>) = cview t" "cview (t\<lparr>tbl_uniqueKeys := b\<rparr>) = cview t" "cview (t\<lparr>tbl_uniqueKeyNames := c\<rparr>) = cview t"
  "cview (t\<lparr>tbl_ukFreed := d\<rparr>) = cview t" "cview (t\<lparr>tbl_indexs := b\<rparr>) = cview t" "cview (t\<lparr>tbl_indexNames := c\<rparr>) = cview t"
  "cview (t\<lparr>tbl_idxFreed := d\<rparr>) = cview t" "cview (t\<lparr>tbl_charset := e\<rparr>) = cview t"
  by (simp_all add: cview_def)

lemma update_at_cview: "update_at t p f = Inr t' \<Longrightarrow> keeps f \<Longrightarrow> cview t' = cview t"
  by (auto simp: update_at_def column_at_def cview_column_update split: option.splits if_splits)

lemma update_columns_of_cview: "update_columns_of t cs f = Inr t' \<Longrightarrow> keeps f \<Longrightarrow> cview t' = cview t"
  by (induction t cs f rule: update_columns_of.induct) (auto dest: update_at_cview)

lemma clear_unused_cview: "clear_unused t cs ks f = Inr t' \<Longrightarrow> keeps f \<Longrightarrow> cview t' = cview t"
  by (induction t cs ks f rule: clear_unused.induct) (auto dest: update_at_cview split: if_splits)

lemma dropPrimaryKey_cview: "dropPrimaryKey t = Inr (r, t') \<Longrightarrow> cview t' = cview t"
  by (auto simp: dropPrimaryKey_def split: option.splits dest: update_columns_of_cview)

lemma dropUniqueKey_cview: "dropUniqueKey t n = Inr (r, t') \<Longrightarrow> cview t' = cview t"
  by (auto simp: dropUniqueKey_def Let_def split: option.splits if_splits dest: update_columns_of_cview clear_unused_cview)

lemma dropIndex_slot_cview: "dropIndex_slot t i ks ns ty = Inr (t', x) \<Longrightarrow> cview t' = cview t"
  by (auto simp: dropIndex_slot_def Let_def split: if_splits dest!: update_columns_of_cview clear_unused_cview)

lemma dropIndex_cview: "dropIndex t n = Inr (r, t') \<Longrightarrow> cview t' = cview t"
  by (auto simp: dropIndex_def split: option.splits dest!: dropIndex_slot_cview)

lemma renameIndex_cview: "renameIndex t a b = Inr (r, t') \<Longrightarrow> cview t' = cview t"
  by (auto simp: renameIndex_def split: option.splits if_splits)

lemma renameColumn_cview: "renameColumn t a b = Inr (r, t') \<Longrightarrow> cview t' = cview t"
  by (auto simp: renameColumn_def split: option.splits if_splits dest: update_at_cview)

lemma flag_columns_cview:
  assumes "keeps f"
  shows "cview (flag_columns t ids f) = cview t"
proof -
  have "map (\<lambda>c. (m_columnIndex c, m_columnType c)) (foldl (\<lambda>cs c. cs[unat c := f (cs ! unat c)]) cs ids) =
      map (\<lambda>c. (m_columnIndex c, m_columnType c)) cs" for cs
  proof (induction ids arbitrary: cs)
    case (Cons c ids)
    have "map (\<lambda>c. (m_columnIndex c, m_columnType c)) (cs[unat c := f (cs ! unat c)]) = map (\<lambda>c. (m_columnIndex c, m_columnType c)) cs"
      using assms by (cases "unat c < length cs") (simp_all add: map_update keeps_def list_update_same_conv list_update_beyond)
    with Cons show ?case by simp
  qed simp
  then show ?thesis by (simp add: cview_def flag_columns_def)
qed

lemma flag_named_cview: "flag_named t ns f = (t', ids) \<Longrightarrow> keeps f \<Longrightarrow> cview t' = cview t"
proof (induction t ns f arbitrary: t' ids rule: flag_named.induct)
  case (2 t n ns f)
  show ?case
  proof (cases "getColumn t n")
    case None
    with 2 show ?thesis by simp
  next
    case (Some p)
    let ?t = "t\<lparr>tbl_columns := (tbl_columns t)[p := f (tbl_columns t ! p)]\<rparr>"
    obtain ids' where "flag_named ?t ns f = (t', ids')" using 2(2) Some by (auto simp: Let_def split: prod.splits)
    from "2.IH" [OF Some refl this "2.prems"(2)] have "cview t' = cview ?t" .
    also have "\<dots> = cview t"
      using "2.prems"(2) by (cases "p < columnsCount t") (simp_all add: cview_column_update list_update_beyond)
    finally show ?thesis .
  qed
qed simp

lemma createPrimaryKey_cview: "createPrimaryKey t cs = (r, t') \<Longrightarrow> cview t' = cview t"
  by (auto simp: createPrimaryKey_def Let_def flag_columns_cview split: option.splits if_splits)

lemma addIndex_slot_cview [simp]: "cview (addIndex_slot ty t k n) = cview t"
  by (simp add: addIndex_slot_def)

lemma addIndex_cview: "addIndex t n cs ty = (r, t') \<Longrightarrow> cview t' = cview t"
  by (auto simp: addIndex_def Let_def flag_columns_cview split: option.splits if_splits prod.splits dest: flag_named_cview)

lemma convertDefaultCharset_cview: "convertDefaultCharset t cs = (r, t') \<Longrightarrow> cview t' = cview t"
  by (auto simp: convertDefaultCharset_def cview_def split: if_splits)

lemma defaultCharset_cview: "defaultCharset t cs = (r, t') \<Longrightarrow> cview t' = cview t"
  by (auto simp: defaultCharset_def split: if_splits)

text \<open>Operations on the columns end by computing the layout, so only the indexes matter.\<close>

lemma tbl_inv_build: "indexed (tbl_columns t) \<Longrightarrow> tbl_inv (buildColumnOffsetList t)"
  by (simp add: tbl_inv_def)

lemma copy_column_simps [simp]: "m_columnIndex (copy_column c) = m_columnIndex c" "m_columnType (copy_column c) = m_columnType c"
  "m_columnName (copy_column c) = m_columnName c"
  by (simp_all add: copy_column_def cm_assign_def)

lemma cm_assign_simps [simp]: "m_columnIndex (cm_assign a c) = m_columnIndex c" "m_columnType (cm_assign a c) = m_columnType c"
  "m_columnName (cm_assign a c) = m_columnName c"
  by (simp_all add: cm_assign_def)

lemma default_charset_keeps:
  "default_charset t c = Inr c' \<Longrightarrow> m_columnIndex c' = m_columnIndex c \<and> m_columnType c' = m_columnType c \<and> m_columnName c' = m_columnName c"
  by (auto simp: default_charset_def Let_def split: if_splits option.splits)

lemma updateKeys_columns: "updateKeysWhenColumnUpdate t a b ty = Inr t' \<Longrightarrow> tbl_columns t' = tbl_columns t"
  by (auto simp: updateKeysWhenColumnUpdate_def Let_def)

lemma dropColumn_id_inv:
  assumes "dropColumn_id t ci = Inr (r, t')" and "tbl_inv t"
  shows "tbl_inv t'"
proof (cases "ci < columnsCount t")
  case True
  let ?n = "columnsCount t"
  let ?cs = "map copy_column (take ci (tbl_columns t)) @
    map (\<lambda>c. (copy_column c)\<lparr>m_columnIndex := m_columnIndex c - 1\<rparr>) (drop (ci + 1) (tbl_columns t))"
  obtain u where "t' = buildColumnOffsetList (u\<lparr>tbl_columns := ?cs\<rparr>)"
    using assms(1) True by (auto simp: dropColumn_id_def Let_def)
  moreover have "indexed ?cs"
    using True assms(2) by (auto simp: tbl_inv_def indexed_nth nth_append min_def)
  ultimately show ?thesis using tbl_inv_build [of "u\<lparr>tbl_columns := ?cs\<rparr>"] by simp
next
  case False
  with assms show ?thesis by (simp add: dropColumn_id_def)
qed

lemma index_of_Some: "index_of P xs = Some i \<Longrightarrow> i < length xs \<and> P (xs ! i)"
  by (induction xs arbitrary: i) (auto split: if_splits)

lemma getColumn_less: "getColumn t n = Some p \<Longrightarrow> p < columnsCount t"
  by (auto simp: getColumn_def dest: index_of_Some)

lemma indexed_insert:
  assumes "indexed cs" and "p \<le> length cs" and "m_columnIndex c = p"
  shows "indexed (map copy_column (take p cs) @ c # map (\<lambda>c. (copy_column c)\<lparr>m_columnIndex := m_columnIndex c + 1\<rparr>) (drop p cs))"
  using assms by (auto simp: indexed_nth nth_append nth_Cons' min_def)

lemma addColumn_inv:
  assumes "addColumn t c a first = Inr (r, t')" and "tbl_inv t"
  shows "tbl_inv t'"
proof -
  let ?n = "columnsCount t"
  let ?idx = "case a of Some a \<Rightarrow> m_columnIndex (tbl_columns t ! the (getColumn t a)) | None \<Rightarrow> if first then 0 else ?n"
  let ?cs = "\<lambda>c. map copy_column (take ?idx (tbl_columns t)) @ c #
    map (\<lambda>c. (copy_column c)\<lparr>m_columnIndex := m_columnIndex c + 1\<rparr>) (drop ?idx (tbl_columns t))"
  consider "t' = t" | c' u where "t' = buildColumnOffsetList u" "tbl_columns u = ?cs c'" "m_columnIndex c' = ?idx"
    "\<And>x. a = Some x \<Longrightarrow> getColumn t x \<noteq> None"
    using assms(1) unfolding addColumn_def
    by (auto simp: Let_def split: if_splits option.splits dest!: default_charset_keeps updateKeys_columns)
  then show ?thesis
  proof cases
    case 1
    with assms(2) show ?thesis by simp
  next
    case 2
    have "?idx \<le> ?n"
    proof (cases a)
      case (Some x)
      then obtain p where p: "getColumn t x = Some p" using 2(4) by blast
      have "p < ?n" using p by (rule getColumn_less)
      then show ?thesis using Some p assms(2) by (simp add: tbl_inv_def indexed_nth)
    qed simp
    then have "indexed (?cs c')" using assms(2) 2(3) by (intro indexed_insert) (simp_all add: tbl_inv_def)
    with 2 show ?thesis by (simp add: tbl_inv_def)
  qed
qed

text \<open>The two shifting loops in closed form.\<close>

lemma shift_up_nth:
  assumes "idx \<le> k" and "k < length cs" and "i < length cs"
  shows "foldl (\<lambda>cs i. cs[i - 1 := (cm_assign (cs ! (i - 1)) (cs ! i))\<lparr>m_columnIndex := i - 1\<rparr>]) cs [idx + 1..<k + 1] ! i =
    (if idx \<le> i \<and> i < k then (cm_assign (cs ! i) (cs ! (i + 1)))\<lparr>m_columnIndex := i\<rparr> else cs ! i)"
    and "length (foldl (\<lambda>cs i. cs[i - 1 := (cm_assign (cs ! (i - 1)) (cs ! i))\<lparr>m_columnIndex := i - 1\<rparr>]) cs [idx + 1..<k + 1]) = length cs"
  using assms
proof (induction k arbitrary: i)
  case (Suc k)
  let ?F = "foldl (\<lambda>cs i. cs[i - 1 := (cm_assign (cs ! (i - 1)) (cs ! i))\<lparr>m_columnIndex := i - 1\<rparr>]) cs"
  {
    case 1
    show ?case
    proof (cases "idx \<le> k")
      case True
      have ih: "?F [idx + 1..<k + 1] ! j = (if idx \<le> j \<and> j < k then (cm_assign (cs ! j) (cs ! (j + 1)))\<lparr>m_columnIndex := j\<rparr> else cs ! j)"
        if "j < length cs" for j using Suc.IH(1) [of j] True 1 that by simp
      have len: "length (?F [idx + 1..<k + 1]) = length cs" using Suc.IH(2) [of i] True 1 by simp
      have "[idx + 1..<Suc k + 1] = [idx + 1..<k + 1] @ [k + 1]" using True by simp
      with ih [of i] ih [of k] ih [of "k + 1"] len True 1 show ?thesis by (auto simp: nth_list_update)
    next
      case False
      with 1 show ?thesis by auto
    qed
  next
    case 2
    show ?case
    proof (cases "idx \<le> k")
      case True
      then have "length (?F [idx + 1..<k + 1]) = length cs" using Suc.IH(2) [of i] 2 by simp
      with True show ?thesis by simp
    next
      case False
      with 2 show ?thesis by simp
    qed
  }
qed simp_all

lemma shift_down_nth:
  assumes "k \<le> idx" and "idx < length cs" and "i < length cs"
  shows "foldl (\<lambda>cs i. cs[i + 1 := (cm_assign (cs ! (i + 1)) (cs ! i))\<lparr>m_columnIndex := i + 1\<rparr>]) cs (rev [k..<idx]) ! i =
    (if k < i \<and> i \<le> idx then (cm_assign (cs ! i) (cs ! (i - 1)))\<lparr>m_columnIndex := i\<rparr> else cs ! i)"
    and "length (foldl (\<lambda>cs i. cs[i + 1 := (cm_assign (cs ! (i + 1)) (cs ! i))\<lparr>m_columnIndex := i + 1\<rparr>]) cs (rev [k..<idx])) = length cs"
  using assms
proof (induction "idx - k" arbitrary: k i)
  case (Suc d)
  let ?F = "foldl (\<lambda>cs i. cs[i + 1 := (cm_assign (cs ! (i + 1)) (cs ! i))\<lparr>m_columnIndex := i + 1\<rparr>]) cs"
  have d: "d = idx - Suc k" and k: "k < idx" using Suc.hyps(3) by simp_all
  have r: "rev [k..<idx] = rev [Suc k..<idx] @ [k]" using k by (simp add: upt_conv_Cons)
  {
    case 1
    have ih: "?F (rev [Suc k..<idx]) ! j = (if Suc k < j \<and> j \<le> idx then (cm_assign (cs ! j) (cs ! (j - 1)))\<lparr>m_columnIndex := j\<rparr> else cs ! j)"
      if "j < length cs" for j using Suc.hyps(1) [OF d, of j] k 1 that by simp
    have len: "length (?F (rev [Suc k..<idx])) = length cs" using Suc.hyps(2) [OF d, of i] k 1 by simp
    with ih [of i] ih [of k] ih [of "k + 1"] k 1 show ?case unfolding r by (auto simp: nth_list_update)
  next
    case 2
    have "length (?F (rev [Suc k..<idx])) = length cs" using Suc.hyps(2) [OF d, of i] k 2 by simp
    then show ?case unfolding r by simp
  }
qed auto

lemma shift_columns_nth:
  assumes "idx < length cs" and "to < length cs"
  shows "length (shift_columns idx to cs) = length cs"
    and "i < length cs \<Longrightarrow> shift_columns idx to cs ! i =
      (if idx \<le> i \<and> i < to then (cm_assign (cs ! i) (cs ! (i + 1)))\<lparr>m_columnIndex := i\<rparr>
       else if to < i \<and> i \<le> idx then (cm_assign (cs ! i) (cs ! (i - 1)))\<lparr>m_columnIndex := i\<rparr> else cs ! i)"
proof -
  show "length (shift_columns idx to cs) = length cs"
    using shift_up_nth(2) [of idx to cs idx] shift_down_nth(2) [of to idx cs idx] assms
    unfolding shift_columns_def by (cases "idx < to") simp_all
  assume i: "i < length cs"
  show "shift_columns idx to cs ! i =
      (if idx \<le> i \<and> i < to then (cm_assign (cs ! i) (cs ! (i + 1)))\<lparr>m_columnIndex := i\<rparr>
       else if to < i \<and> i \<le> idx then (cm_assign (cs ! i) (cs ! (i - 1)))\<lparr>m_columnIndex := i\<rparr> else cs ! i)"
  proof (cases "idx < to")
    case True
    have "\<not> (to < i \<and> i \<le> idx)" using True by simp
    with True show ?thesis using shift_up_nth(1) [of idx to cs i] assms i by (simp only: shift_columns_def if_True if_False less_imp_le)
  next
    case False
    have "\<not> (idx \<le> i \<and> i < to)" "to \<le> idx" using False by simp_all
    with False show ?thesis using shift_down_nth(1) [of to idx cs i] assms i by (simp only: shift_columns_def if_False)
  qed
qed

definition col_view :: "columnMeta \<Rightarrow> string \<times> COLUMN_TYPE" where
  "col_view c = (m_columnName c, m_columnType c)"

lemma shift_columns_view:
  assumes "idx < length cs" and "to < length cs"
  shows "(map col_view (shift_columns idx to cs))[to := v] = (move_column idx to (map col_view cs))[to := v]"
proof (rule nth_equalityI)
  let ?xs = "map col_view cs"
  let ?ys = "take idx ?xs @ drop (Suc idx) ?xs"
  have len: "length ?ys = length cs - 1" using assms by simp
  show l: "length ((map col_view (shift_columns idx to cs))[to := v]) = length ((move_column idx to ?xs)[to := v])"
    using assms len by (simp add: shift_columns_nth(1) move_column_def)
  fix i assume "i < length ((map col_view (shift_columns idx to cs))[to := v])"
  then have i: "i < length cs" using assms by (simp add: shift_columns_nth(1))
  have m: "move_column idx to ?xs ! i = (if i < to then ?ys ! i else if i = to then ?xs ! idx else ?ys ! (i - 1))"
    unfolding move_column_def Let_def using len assms by (intro insert_nth) simp
  have y: "?ys ! j = (if j < idx then ?xs ! j else ?xs ! (j + 1))" if "j < length cs - 1" for j
    using remove_nth [of idx ?xs j] assms that by simp
  show "(map col_view (shift_columns idx to cs))[to := v] ! i = (move_column idx to ?xs)[to := v] ! i"
  proof (cases "i = to")
    case True
    then show ?thesis using i l assms by (simp add: shift_columns_nth(1))
  next
    case False
    have "map col_view (shift_columns idx to cs) ! i = (if idx \<le> i \<and> i < to then ?xs ! (i + 1) else if to < i \<and> i \<le> idx then ?xs ! (i - 1) else ?xs ! i)"
      using assms i by (simp add: shift_columns_nth col_view_def)
    also have "\<dots> = move_column idx to ?xs ! i"
    proof (cases "i < to")
      case True
      then show ?thesis using m y [of i] assms by simp
    next
      case ge: False
      then have "\<not> i - 1 < idx \<longleftrightarrow> \<not> i \<le> idx" using False by linarith
      then show ?thesis using ge False m y [of "i - 1"] assms i by auto
    qed
    finally show ?thesis using False i l by (simp add: nth_list_update_neq)
  qed
qed

lemma place_column_effect:
  assumes "place_column t idx to old c = Inr (r, t')" and "idx < columnsCount t" and "to < columnsCount t" and "indexed (tbl_columns t)"
  shows "tbl_inv t'" and "map col_view (tbl_columns t') = (move_column idx to (map col_view (tbl_columns t)))[to := col_view c]"
    and "tbl_primaryKey t' = map_option (ukm_columnUpdate (word_of_nat idx) (word_of_nat to) (m_columnType c)) (tbl_primaryKey t)"
    and "tbl_uniqueKeys t' = map (map_option (ukm_columnUpdate (word_of_nat idx) (word_of_nat to) (m_columnType c))) (tbl_uniqueKeys t)"
    and "tbl_indexs t' = map (map_option (ukm_columnUpdate (word_of_nat idx) (word_of_nat to) (m_columnType c))) (tbl_indexs t)"
proof -
  let ?cs = "shift_columns idx to (tbl_columns t)"
  obtain c' u where c': "m_columnIndex c' = to" "col_view c' = col_view c"
    and u: "updateKeysWhenColumnUpdate (t\<lparr>tbl_columns := ?cs[to := c']\<rparr>) idx to (m_columnType c) = Inr u" "t' = buildColumnOffsetList u"
    using assms(1) by (auto simp: place_column_def Let_def col_view_def dest!: default_charset_keeps)
  have cols: "tbl_columns t' = ?cs[to := c']" using u by (simp add: updateKeys_columns)
  have "indexed (?cs[to := c'])"
    using assms(2-4) c'(1) by (auto simp: indexed_nth shift_columns_nth nth_list_update)
  then show "tbl_inv t'" using u tbl_inv_build [of u] by (simp add: updateKeys_columns)
  show "map col_view (tbl_columns t') = (move_column idx to (map col_view (tbl_columns t)))[to := col_view c]"
    unfolding cols map_update c'(2) by (rule shift_columns_view [OF assms(2,3)])
  show "tbl_primaryKey t' = map_option (ukm_columnUpdate (word_of_nat idx) (word_of_nat to) (m_columnType c)) (tbl_primaryKey t)"
    "tbl_uniqueKeys t' = map (map_option (ukm_columnUpdate (word_of_nat idx) (word_of_nat to) (m_columnType c))) (tbl_uniqueKeys t)"
    "tbl_indexs t' = map (map_option (ukm_columnUpdate (word_of_nat idx) (word_of_nat to) (m_columnType c))) (tbl_indexs t)"
    using u by (auto simp: updateKeysWhenColumnUpdate_def Let_def map_keys_def buildColumnOffsetList_def split: prod.splits if_splits)
qed

text \<open>Both column alterations fail without a change or place the column somewhere in the table.\<close>

lemma alter_column_cases:
  assumes "alter_column t p c first a = Inr (r, t')" and "p < columnsCount t" and "indexed (tbl_columns t)"
  obtains "r = -1" "t' = t" | to where "r = 0" "to < columnsCount t" "place_column t p to (tbl_columns t ! p) c = Inr (r, t')"
proof -
  have p: "m_columnIndex (tbl_columns t ! p) = p" using assms(2,3) by (simp add: indexed_nth)
  have z: "r' = 0" if "place_column t x y z w = Inr (r', t')" for x y z w r' using that by (auto simp: place_column_def Let_def)
  have w: "\<exists>to < columnsCount t. place_column t p to (tbl_columns t ! p) c = Inr (r, t')"
    if "place_column t p 0 (tbl_columns t ! p) c = Inr (r, t')"
    using that assms(2) by (intro exI [of _ 0]) auto
  have "r = -1 \<and> t' = t \<or> (\<exists>to < columnsCount t. place_column t p to (tbl_columns t ! p) c = Inr (r, t'))"
    using assms p w by (auto simp: alter_column_def Let_def indexed_nth split: if_splits option.splits dest: getColumn_less)
  then show ?thesis using that z by blast
qed

lemma alter_column_inv: "alter_column t p c first a = Inr (r, t') \<Longrightarrow> p < columnsCount t \<Longrightarrow> tbl_inv t \<Longrightarrow> tbl_inv t'"
  by (erule alter_column_cases) (auto simp: tbl_inv_def dest: place_column_effect(1))

lemma modifyColumn_inv: "modifyColumn t c first a = Inr (r, t') \<Longrightarrow> tbl_inv t \<Longrightarrow> tbl_inv t'"
  by (auto simp: modifyColumn_def split: option.splits dest: alter_column_inv getColumn_less)

lemma changeColumn_inv: "changeColumn t c n first a = Inr (r, t') \<Longrightarrow> tbl_inv t \<Longrightarrow> tbl_inv t'"
  by (auto simp: changeColumn_def split: option.splits if_splits dest: alter_column_inv getColumn_less)

text \<open>One DDL statement, and the descriptions that a sequence of them can produce.\<close>

inductive ddl_step :: "tableMeta \<Rightarrow> tableMeta \<Rightarrow> bool" where
  add_column: "addColumn t c a first = Inr (r, t') \<Longrightarrow> ddl_step t t'"
| drop_column: "dropColumn t n = Inr (r, t') \<Longrightarrow> ddl_step t t'"
| rename_column: "renameColumn t n n' = Inr (r, t') \<Longrightarrow> ddl_step t t'"
| modify_column: "modifyColumn t c first a = Inr (r, t') \<Longrightarrow> ddl_step t t'"
| change_column: "changeColumn t c n first a = Inr (r, t') \<Longrightarrow> ddl_step t t'"
| create_primary: "createPrimaryKey t ns = (r, t') \<Longrightarrow> ddl_step t t'"
| drop_primary: "dropPrimaryKey t = Inr (r, t') \<Longrightarrow> ddl_step t t'"
| drop_unique: "dropUniqueKey t n = Inr (r, t') \<Longrightarrow> ddl_step t t'"
| add_index: "addIndex t i ns ty = (r, t') \<Longrightarrow> ddl_step t t'"
| rename_index: "renameIndex t n n' = Inr (r, t') \<Longrightarrow> ddl_step t t'"
| drop_index: "dropIndex t n = Inr (r, t') \<Longrightarrow> ddl_step t t'"
| default_charset: "defaultCharset t cs = (r, t') \<Longrightarrow> ddl_step t t'"
| convert_charset: "convertDefaultCharset t cs = (r, t') \<Longrightarrow> ddl_step t t'"

inductive ddl_reach :: "bool \<Rightarrow> tableMeta \<Rightarrow> bool" where
  start: "ddl_reach cs (tableMeta_new cs)"
| step: "ddl_reach cs t \<Longrightarrow> ddl_step t t' \<Longrightarrow> ddl_reach cs t'"

lemmas ddl_cview = renameColumn_cview createPrimaryKey_cview dropPrimaryKey_cview dropUniqueKey_cview addIndex_cview
  renameIndex_cview dropIndex_cview defaultCharset_cview convertDefaultCharset_cview

lemma ddl_step_inv: "ddl_step t t' \<Longrightarrow> tbl_inv t \<Longrightarrow> tbl_inv t'"
proof (induction rule: ddl_step.induct)
  case (drop_column t n r t')
  then show ?case by (auto simp: dropColumn_def split: option.splits dest: dropColumn_id_inv)
qed (auto dest: addColumn_inv modifyColumn_inv changeColumn_inv, (metis cview_inv ddl_cview)+)

lemma ddl_reach_inv: "ddl_reach cs t \<Longrightarrow> tbl_inv t"
  by (induction rule: ddl_reach.induct) (auto dest: ddl_step_inv simp: tbl_inv_def indexed_def tableMeta_new_def)

text \<open>A table id and its version are packed without loss while the id has at most 48 bits.\<close>

lemma genTableId_parts:
  "tableVersion (genTableId i v) = v" "take_bit 48 i = i \<Longrightarrow> tableID (genTableId i v) = i"
proof -
  have m: "(0xffff :: u64) = mask 16" by (simp add: mask_eq_exp_minus_1)
  show "tableVersion (genTableId i v) = v"
    unfolding tableVersion_def genTableId_def m
    by (rule bit_word_eqI) (auto simp: bit_simps dest: bit_imp_le_length)
  assume "take_bit 48 i = i"
  then have hi: "\<not> bit i n" if "48 \<le> n" for n using that by (metis bit_take_bit_iff not_less)
  have m': "(0xffffffffffff0000 :: u64) = push_bit 16 (mask 48)" by (simp add: mask_eq_exp_minus_1 push_bit_eq_mult)
  show "tableID (genTableId i v) = i"
    unfolding tableID_def genTableId_def m'
  proof (rule bit_word_eqI)
    fix n
    have "\<not> bit v (16 + n)" using bit_imp_le_length [of v "16 + n"] by auto
    moreover have "n < 48 \<or> \<not> bit i n" using hi [of n] by linarith
    ultimately show "bit (drop_bit 16 ((push_bit 16 i OR ucast v) AND push_bit 16 (mask 48))) n \<longleftrightarrow> bit i n"
      using bit_imp_le_length [of i n] by (auto simp: bit_simps)
  qed
qed

text \<open>The lookup of a unique key by name never returns the first key: its position 0 is taken for absence.\<close>

lemma getUniqueKey_misses_first: "getUniqueKey t n \<noteq> Some 0" "getIndex t n \<noteq> Some 0"
  by (simp_all add: getUniqueKey_def getIndex_def Let_def)

section \<open>Claims\<close>

text \<open>
  C12: after any sequence of DDL statements on a new table description, statements that fail included, every column's
  \<^verbatim>\<open>m_columnIndex\<close> is its position, and the row layout is the one computed from the current columns.
\<close>

theorem ddl_keeps_columns_indexed:
  assumes "ddl_reach cs t"
  shows "(i < columnsCount t \<longrightarrow> m_columnIndex (tbl_columns t ! i) = i) \<and>
    (tbl_columns t \<noteq> [] \<longrightarrow> cview (buildColumnOffsetList t) = cview t)"
proof -
  have inv: "tbl_inv t" by (rule ddl_reach_inv [OF assms])
  then show ?thesis
    by (auto simp: tbl_inv_def indexed_nth layout_ok_def buildColumnOffsetList_def cview_def split: prod.splits)
qed

definition sample_column :: "string \<Rightarrow> COLUMN_TYPE \<Rightarrow> columnMeta" where
  "sample_column n t = columnMeta_new\<lparr>m_columnName := n, m_columnType := t\<rparr>"

definition sample_table :: tableMeta where
  "sample_table = (tableMeta_new True)\<lparr>
     tbl_columns := [(sample_column ''a'' T_INT32)\<lparr>m_columnIndex := 0\<rparr>],
     tbl_realIndexInRowFormat := [0], tbl_fixedColumnOffsetsInRecord := [0, 4], tbl_fixedColumnCount := 1\<rparr>"

lemma sample_table_added: "addColumn (tableMeta_new True) (sample_column ''a'' T_INT32) None False = Inr (0, sample_table)"
  by (simp add: addColumn_def getColumn_def tableMeta_new_def sample_column_def columnMeta_new_def default_charset_def
      columnInfos_def cm_assign_def sa_assign_def sa_clean_def sa_new_def buildColumnOffsetList_def sample_table_def)

theorem ddl_keeps_columns_indexed_witness: "m_columnIndex (tbl_columns sample_table ! 0) = 0"
proof -
  have "ddl_reach True sample_table" by (rule step [OF start add_column [OF sample_table_added]])
  moreover have "0 < columnsCount sample_table" by (simp add: sample_table_def)
  ultimately show ?thesis using ddl_keeps_columns_indexed [of True sample_table 0] by blast
qed

text \<open>
  C30: in the layout that \<^verbatim>\<open>buildColumnOffsetList\<close> computes for a table whose fixed-size columns take less than 64 KB,
  the slots of the fixed-size columns follow each other in column order without overlap and end before the offset array's
  last entry, and the variable-length columns are numbered in column order below \<^verbatim>\<open>m_varColumnCount\<close>.
\<close>

theorem row_layout_disjoint:
  fixes t :: tableMeta
  defines "t' \<equiv> buildColumnOffsetList t"
  defines "slot \<equiv> \<lambda>i. unat (tbl_fixedColumnOffsetsInRecord t' ! (tbl_realIndexInRowFormat t' ! i))"
  assumes "fixed_size (col_types t) < 65536" and "i < j" and "j < columnsCount t"
  shows "(col_fixed (col_types t ! i) \<and> col_fixed (col_types t ! j) \<longrightarrow>
      slot i + col_size (col_types t ! i) \<le> slot j \<and>
      slot j + col_size (col_types t ! j) \<le> unat (tbl_fixedColumnOffsetsInRecord t' ! tbl_fixedColumnCount t')) \<and>
    (\<not> col_fixed (col_types t ! i) \<and> \<not> col_fixed (col_types t ! j) \<longrightarrow>
      tbl_realIndexInRowFormat t' ! i < tbl_realIndexInRowFormat t' ! j \<and> tbl_realIndexInRowFormat t' ! j < tbl_varColumnCount t')"
proof -
  let ?ts = "col_types t"
  have l: "layout_ok t'" and c: "tbl_columns t' = tbl_columns t" by (simp_all add: t'_def)
  have i: "i < columnsCount t" using assms(4,5) by simp
  note f = layout_facts [OF l, unfolded c]
  have w: "unat (word_of_nat (fixed_size (take k ?ts)) :: u16) = fixed_size (take k ?ts)" for k
    using layout_take_le(1) [of k ?ts] assms(3) by (simp add: unat_of_nat)
  have tot: "unat (word_of_nat (fixed_size ?ts) :: u16) = fixed_size ?ts" using assms(3) by (simp add: unat_of_nat)
  have suc: "take (Suc k) ?ts = take k ?ts @ [?ts ! k]" if "k < columnsCount t" for k
    using that by (simp add: take_Suc_conv_app_nth)
  have m: "fixed_size (take (Suc i) ?ts) \<le> fixed_size (take j ?ts)" "fixed_size (take (Suc j) ?ts) \<le> fixed_size ?ts"
    using assms(4) layout_mono [of "Suc i" j ?ts] layout_take_le(1) by simp_all
  have v: "var_cols (take (Suc i) ?ts) \<le> var_cols (take j ?ts)" "var_cols (take (Suc j) ?ts) \<le> var_cols ?ts"
    using assms(4) layout_take_le(3) [of "Suc i" "take j ?ts"] layout_take_le(3) [of "Suc j" ?ts] by (simp_all add: min_def)
  show ?thesis
    using f(1,2,5) f(6) [of i] f(6) [of j] f(7) [of i] f(7) [of j] i assms(5) m v suc [OF i] suc [OF assms(5)] w tot
    by (auto simp: slot_def)
qed

definition wide_table :: tableMeta where
  "wide_table = (tableMeta_new True)\<lparr>tbl_columns := map (sample_column []) [T_UINT8, T_STRING, T_INT64]\<rparr>"

theorem row_layout_disjoint_witness:
  "unat (tbl_fixedColumnOffsetsInRecord (buildColumnOffsetList wide_table) ! (tbl_realIndexInRowFormat (buildColumnOffsetList wide_table) ! 0)) + 1
    \<le> unat (tbl_fixedColumnOffsetsInRecord (buildColumnOffsetList wide_table) ! (tbl_realIndexInRowFormat (buildColumnOffsetList wide_table) ! 2))"
proof -
  have ty: "col_types wide_table = [T_UINT8, T_STRING, T_INT64]" by (simp add: wide_table_def sample_column_def)
  have n: "columnsCount wide_table = 3" by (simp add: wide_table_def)
  show ?thesis using row_layout_disjoint [of wide_table 0 2] unfolding ty n by simp
qed

text \<open>
  \<^verbatim>\<open>modifyColumn\<close> and \<^verbatim>\<open>changeColumn\<close> keep the primary key on its columns.  When the alteration of the column at
  \<open>p\<close> succeeds, the entry that named column \<open>c\<close> names a column of the same name and type, the altered one if it was that.
\<close>

definition key_ok :: "tableMeta \<Rightarrow> unionKeyMeta \<Rightarrow> bool" where
  "key_ok t k \<longleftrightarrow> ukm_wf k \<and> length (uk_columnInfo k) < 256 \<and>
     (\<forall>e \<in> set (uk_columnInfo k). unat (kc_columnId e) < columnsCount t \<and> kc_type e = m_columnType (tbl_columns t ! unat (kc_columnId e)))"

theorem alter_column_keeps_keys:
  assumes "alter_column t p column first addAfter = Inr (0, t')" and "tbl_inv t" and "p < columnsCount t"
    and "columnsCount t < 65536" and "tbl_primaryKey t = Some k" and "key_ok t k" and "i < length (uk_columnInfo k)"
  shows "\<exists>k'. tbl_primaryKey t' = Some k' \<and> length (uk_columnInfo k') = length (uk_columnInfo k) \<and>
    (let old = unat (kc_columnId (uk_columnInfo k ! i)); new = unat (kc_columnId (uk_columnInfo k' ! i)) in
     m_columnName (tbl_columns t' ! new) = (if old = p then m_columnName column else m_columnName (tbl_columns t ! old)) \<and>
     kc_type (uk_columnInfo k' ! i) = m_columnType (tbl_columns t' ! new))"
proof -
  have ix: "indexed (tbl_columns t)" using assms(2) by (simp add: tbl_inv_def)
  obtain to where to: "to < columnsCount t" "place_column t p to (tbl_columns t ! p) column = Inr (0, t')"
    using alter_column_cases [OF assms(1,3) ix] by auto
  note e = place_column_effect [OF to(2) assms(3) to(1) ix]
  let ?fr = "word_of_nat p :: u16" and ?to = "word_of_nat to :: u16" and ?T = "m_columnType column"
  have u: "unat ?fr = p" "unat ?to = to" using assms(3,4) to(1) by (simp_all add: unat_of_nat)
  define k' where "k' = ukm_columnUpdate ?fr ?to ?T k"
  have wf: "ukm_wf k" "length (uk_columnInfo k) < 256" using assms(6) by (simp_all add: key_ok_def)
  have info: "uk_columnInfo k' = map (moved_entry ?fr ?to ?T) (uk_columnInfo k)"
    unfolding k'_def by (rule columnUpdate_effect(1) [OF wf])
  let ?e = "uk_columnInfo k ! i"
  let ?old = "unat (kc_columnId ?e)" and ?new = "unat (moved_id ?fr ?to (kc_columnId ?e))"
  have old: "?old < columnsCount t" "kc_type ?e = m_columnType (tbl_columns t ! ?old)"
    using assms(6,7) by (simp_all add: key_ok_def)
  have eq: "kc_columnId ?e = ?fr \<longleftrightarrow> ?old = p" using u(1) by (metis unsigned_word_eqI)
  have len: "columnsCount t' = columnsCount t" "length (move_column p to (map col_view (tbl_columns t))) = columnsCount t"
    using arg_cong [OF e(2), of length] assms(3) to(1) by (auto simp: move_column_def)
  have new: "?new < columnsCount t" using unat_moved_id [of ?fr ?to "kc_columnId ?e"] old(1) to(1) assms(3) u by auto
  have mv: "move_column p to (map col_view (tbl_columns t)) ! ?new = col_view (tbl_columns t ! ?old)"
    using moved_id_nth [of ?fr "map col_view (tbl_columns t)" ?to "kc_columnId ?e"] u assms(3) to(1) old(1) by simp
  have to_iff: "to = ?new \<longleftrightarrow> ?old = p" using unat_moved_id [of ?fr ?to "kc_columnId ?e"] u by auto
  have "col_view (tbl_columns t' ! ?new) = (if ?old = p then col_view column else col_view (tbl_columns t ! ?old))"
    using arg_cong [OF e(2), of "\<lambda>xs. xs ! ?new"] new len mv to_iff to(1) by (simp add: nth_list_update)
  then have view: "m_columnName (tbl_columns t' ! ?new) = (if ?old = p then m_columnName column else m_columnName (tbl_columns t ! ?old))"
    "m_columnType (tbl_columns t' ! ?new) = (if ?old = p then ?T else m_columnType (tbl_columns t ! ?old))"
    by (auto simp: col_view_def split: if_splits)
  have ent: "kc_columnId (uk_columnInfo k' ! i) = moved_id ?fr ?to (kc_columnId ?e)"
    "kc_type (uk_columnInfo k' ! i) = (if ?old = p then ?T else kc_type ?e)"
    using info assms(7) eq by (simp_all add: moved_entry_def)
  have "tbl_primaryKey t' = Some k'" using e(3) assms(5) by (simp add: k'_def)
  then show ?thesis using info view ent old(2) by (intro exI [of _ k']) (auto simp: Let_def)
qed

definition two_columns :: tableMeta where
  "two_columns = buildColumnOffsetList ((tableMeta_new True)\<lparr>
     tbl_columns := [sample_column ''a'' T_INT32, (sample_column ''b'' T_INT64)\<lparr>m_columnIndex := 1\<rparr>],
     tbl_primaryKey := Some \<lparr>uk_columnCount = 1, uk_size = 8, uk_fixed = 1, uk_keyType = 0, uk_keyId = 0, uk_varColumnCount = 0,
       uk_columnInfo = [\<lparr>kc_type = T_INT64, kc_columnId = 1\<rparr>]\<rparr>\<rparr>)"

lemma two_columns_fields:
  "tbl_columns two_columns = [sample_column ''a'' T_INT32, (sample_column ''b'' T_INT64)\<lparr>m_columnIndex := 1\<rparr>]"
  "tbl_primaryKey two_columns = Some \<lparr>uk_columnCount = 1, uk_size = 8, uk_fixed = 1, uk_keyType = 0, uk_keyId = 0, uk_varColumnCount = 0,
     uk_columnInfo = [\<lparr>kc_type = T_INT64, kc_columnId = 1\<rparr>]\<rparr>"
  "tbl_uniqueKeys two_columns = []" "tbl_indexs two_columns = []" "tbl_nameCompare two_columns = \<lparr>caseSensitive = True\<rparr>"
  "tbl_inv two_columns"
  by (simp_all add: two_columns_def buildColumnOffsetList_def tableMeta_new_def sample_column_def columnMeta_new_def
      tbl_inv_def indexed_def layout_ok_def)

lemma two_columns_key: "key_ok two_columns (the (tbl_primaryKey two_columns))"
  by (simp add: two_columns_fields key_ok_def ukm_wf_def var_entries_def width_sum_def entry_width_def sample_column_def)

theorem alter_column_keeps_keys_witness:
  "\<exists>t' k'. alter_column two_columns 1 (sample_column ''b'' T_UINT8) True None = Inr (0, t') \<and> tbl_primaryKey t' = Some k' \<and>
     m_columnName (tbl_columns t' ! unat (kc_columnId (uk_columnInfo k' ! 0))) = ''b''"
proof -
  have "\<exists>t'. alter_column two_columns 1 (sample_column ''b'' T_UINT8) True None = Inr (0, t')"
    by (simp add: alter_column_def two_columns_fields sample_column_def columnMeta_new_def place_column_def default_charset_def
        columnInfos_def cm_assign_def updateKeysWhenColumnUpdate_def map_keys_def Let_def)
  then obtain t' where t': "alter_column two_columns 1 (sample_column ''b'' T_UINT8) True None = Inr (0, t')" by blast
  have n: "1 < columnsCount two_columns" "columnsCount two_columns < 65536" by (simp_all add: two_columns_fields)
  obtain k where k: "tbl_primaryKey two_columns = Some k" "key_ok two_columns k" "length (uk_columnInfo k) = 1"
    "unat (kc_columnId (uk_columnInfo k ! 0)) = 1"
    using two_columns_key by (simp add: two_columns_fields)
  from alter_column_keeps_keys [OF t' two_columns_fields(6) n k(1,2), of 0] k(3,4) t' show ?thesis
    by (auto simp: Let_def sample_column_def)
qed

text \<open>
  \<^verbatim>\<open>addColumn\<close> with an \<^verbatim>\<open>AFTER\<close> column puts the new column directly before it, and does not move the keys: an entry of
  the primary key for a later column keeps its id and thereby designates the column before the one it was created for.
\<close>

theorem addColumn_after_displaces_keys:
  assumes "addColumn t c (Some a) first = Inr (0, t')" and "getColumn t a = Some p" and "tbl_inv t" and "columnsCount t < 65536"
    and "tbl_primaryKey t = Some k" and "ukm_wf k" and "length (uk_columnInfo k) < 256"
  shows "map m_columnName (tbl_columns t') = take p (map m_columnName (tbl_columns t)) @ m_columnName c # drop p (map m_columnName (tbl_columns t)) \<and>
    (\<exists>k'. tbl_primaryKey t' = Some k' \<and> map kc_columnId (uk_columnInfo k') = map kc_columnId (uk_columnInfo k))"
proof -
  have p: "p < columnsCount t" by (rule getColumn_less [OF assms(2)])
  then have ix: "m_columnIndex (tbl_columns t ! p) = p" using assms(3) by (simp add: tbl_inv_def indexed_nth)
  let ?w = "word_of_nat p :: u16"
  obtain c' u where c': "m_columnName c' = m_columnName c"
    and u: "updateKeysWhenColumnUpdate (t\<lparr>tbl_columns := map copy_column (take p (tbl_columns t)) @ c' #
        map (\<lambda>c. (copy_column c)\<lparr>m_columnIndex := m_columnIndex c + 1\<rparr>) (drop p (tbl_columns t))\<rparr>) p p (m_columnType c) = Inr u"
      "t' = buildColumnOffsetList u"
    using assms(1,2) p ix by (auto simp: addColumn_def Let_def split: if_splits dest!: default_charset_keeps)
  have names: "map m_columnName (tbl_columns t') =
      take p (map m_columnName (tbl_columns t)) @ m_columnName c # drop p (map m_columnName (tbl_columns t))"
    using u c' by (simp add: updateKeys_columns take_map drop_map comp_def)
  have "tbl_primaryKey t' = Some (ukm_columnUpdate ?w ?w (m_columnType c) k)"
    using u assms(5) by (auto simp: updateKeysWhenColumnUpdate_def Let_def buildColumnOffsetList_def split: prod.splits)
  moreover have "moved_id ?w ?w x = x" for x by (auto simp: moved_id_def)
  then have "map kc_columnId (uk_columnInfo (ukm_columnUpdate ?w ?w (m_columnType c) k)) = map kc_columnId (uk_columnInfo k)"
    unfolding columnUpdate_effect(1) [OF assms(6,7)] by (simp add: moved_entry_def)
  ultimately show ?thesis using names by simp
qed

theorem addColumn_after_displaces_keys_witness:
  "\<exists>t' k'. addColumn two_columns (sample_column ''c'' T_INT8) (Some ''a'') False = Inr (0, t') \<and>
     map m_columnName (tbl_columns t') = [''c'', ''a'', ''b''] \<and> tbl_primaryKey t' = Some k' \<and>
     map kc_columnId (uk_columnInfo k') = [1]"
proof -
  have g: "getColumn two_columns ''a'' = Some 0" "getColumn two_columns ''c'' = None"
    by (simp_all add: getColumn_def two_columns_fields nc_compare_def sample_column_def ord_char_def)
  have "\<exists>t'. addColumn two_columns (sample_column ''c'' T_INT8) (Some ''a'') False = Inr (0, t')"
    using g by (simp add: addColumn_def two_columns_fields sample_column_def columnMeta_new_def default_charset_def
        columnInfos_def cm_assign_def updateKeysWhenColumnUpdate_def map_keys_def Let_def)
  then obtain t' where t': "addColumn two_columns (sample_column ''c'' T_INT8) (Some ''a'') False = Inr (0, t')" by blast
  obtain k where k: "tbl_primaryKey two_columns = Some k" "key_ok two_columns k" "map kc_columnId (uk_columnInfo k) = [1]"
    using two_columns_key by (simp add: two_columns_fields)
  have w: "columnsCount two_columns < 65536" "ukm_wf k" "length (uk_columnInfo k) < 256"
    using k(2) by (simp_all add: two_columns_fields key_ok_def)
  from addColumn_after_displaces_keys [OF t' g(1) two_columns_fields(6) w(1) k(1) w(2,3)] t' k(3) show ?thesis
    by (auto simp: two_columns_fields sample_column_def)
qed

text \<open>
  Dropping a unique key that is not the last one, by \<^verbatim>\<open>dropUniqueKey\<close> or \<^verbatim>\<open>dropIndex\<close>, runs into an uninitialised key
  pointer at once or leaves one behind that \<^verbatim>\<open>clean\<close> frees: the description can no longer be destroyed safely.
\<close>

theorem dropUniqueKey_leaves_garbage:
  assumes "index_of (\<lambda>k. nc_compare (tbl_nameCompare t) k n = 0) (tbl_uniqueKeyNames t) = Some i"
    and "i + 1 < length (tbl_uniqueKeys t)"
  shows "(case dropUniqueKey t n of Inl e \<Rightarrow> True | Inr (r, t') \<Rightarrow> \<exists>e. tbl_clean t' = Inl e)"
  using assms by (auto simp: dropUniqueKey_def tbl_clean_def drop_slot_def Let_def sbind_def split: sum.splits)

theorem dropUniqueKey_leaves_garbage_witness:
  "case dropUniqueKey ((tableMeta_new True)\<lparr>tbl_uniqueKeyNames := [''x'', ''y''],
      tbl_uniqueKeys := [Some sample_meta, Some sample_meta]\<rparr>) ''x''
   of Inl e \<Rightarrow> True | Inr (r, t') \<Rightarrow> \<exists>e. tbl_clean t' = Inl e"
  by (rule dropUniqueKey_leaves_garbage [of _ _ 0]) (simp_all add: tableMeta_new_def nc_compare_def)

end
