(* ===== verification/DmlRecords.thy ===== *)
theory DmlRecords
  imports MetaDataProofs DateTime
begin

unbundle bit_operations_syntax

text \<open>
  Records (\<^verbatim>\<open>message/record.h\<close>): the packed record head, DML records that carry a row and, for updates, the old values of
  the changed columns, DDL records, and the keys that \<^verbatim>\<open>meta/columnType.cpp\<close> builds from a row.  A record object is a set
  of addresses into the byte memory that holds the message.
\<close>

section \<open>Head\<close>

text \<open>Offsets in the packed \<^verbatim>\<open>recordHead\<close>, which has 38 bytes.\<close>

definition H_size :: nat where "H_size = 0"
definition H_externSize :: nat where "H_externSize = 4"
definition H_headSize :: nat where "H_headSize = 5"
definition H_type :: nat where "H_type = 6"
definition H_version :: nat where "H_version = 7"
definition H_flag :: nat where "H_flag = 8"
definition H_recordId :: nat where "H_recordId = 10"
definition H_txnId :: nat where "H_txnId = 34"
definition recordHeadSize :: nat where "recordHeadSize = 38"

lemmas head_offsets = H_size_def H_externSize_def H_headSize_def H_type_def H_version_def H_flag_def H_recordId_def
  H_txnId_def recordHeadSize_def

datatype RecordType =
    R_INSERT | R_UPDATE | R_DELETE | R_REPLACE | R_ROLLBACK | R_DDL | R_TABLE_META | M_TABLE_META_REQ | R_DATABASE_META
  | M_DATABASE_META_REQ | R_HEARTBEAT | M_LOGIN_REQ | M_LOGIN_ACK | M_LOGIN | M_LOGIN_RESULT | M_SQL | MAX_RECORD_TYPE

fun RTYPE :: "RecordType \<Rightarrow> nat" where
  "RTYPE R_INSERT = 0" | "RTYPE R_UPDATE = 1" | "RTYPE R_DELETE = 2" | "RTYPE R_REPLACE = 3" | "RTYPE R_ROLLBACK = 4"
| "RTYPE R_DDL = 5" | "RTYPE R_TABLE_META = 6" | "RTYPE M_TABLE_META_REQ = 7" | "RTYPE R_DATABASE_META = 8"
| "RTYPE M_DATABASE_META_REQ = 9" | "RTYPE R_HEARTBEAT = 10" | "RTYPE M_LOGIN_REQ = 11" | "RTYPE M_LOGIN_ACK = 12"
| "RTYPE M_LOGIN = 13" | "RTYPE M_LOGIN_RESULT = 14" | "RTYPE M_SQL = 15" | "RTYPE MAX_RECORD_TYPE = 16"

definition record_init :: "mem \<Rightarrow> nat \<Rightarrow> mem" where
  "record_init m data =
     (let m = wr 1 m (data + H_externSize) 0; m = wr 1 m (data + H_version) 1; m = wr 1 m (data + H_headSize) recordHeadSize;
          m = wr 2 m (data + H_flag) 0; m = wr 8 m (data + H_recordId) 0
      in wr 4 m (data + H_txnId) 0)"

abbreviation headSize :: "mem \<Rightarrow> nat \<Rightarrow> nat" where "headSize m data \<equiv> rd 1 m (data + H_headSize)"
abbreviation head_type :: "mem \<Rightarrow> nat \<Rightarrow> nat" where "head_type m data \<equiv> rd 1 m (data + H_type)"

section \<open>Bitmaps\<close>

definition TEST_BITMAP :: "mem \<Rightarrow> nat \<Rightarrow> nat \<Rightarrow> bool" where
  "TEST_BITMAP m b i = bit (m (b + i div 8)) (i mod 8)"

definition SET_BITMAP :: "mem \<Rightarrow> nat \<Rightarrow> nat \<Rightarrow> mem" where
  "SET_BITMAP m b i = m(b + i div 8 := m (b + i div 8) OR push_bit (i mod 8) 1)"

definition UNSET_BITMAP :: "mem \<Rightarrow> nat \<Rightarrow> nat \<Rightarrow> mem" where
  "UNSET_BITMAP m b i = m(b + i div 8 := m (b + i div 8) AND NOT (push_bit (i mod 8) 1))"

text \<open>The remainder is taken with the mask 0x7f, so some bitmaps have one byte more than they need.\<close>

definition BITMAP_SIZE :: "nat \<Rightarrow> nat" where
  "BITMAP_SIZE l = l div 8 + (if l mod 128 \<noteq> 0 then 1 else 0)"

section \<open>DMLRecord\<close>

record DMLRecord =
  dml_data :: nat
  dml_tableMetaID :: nat
  dml_meta :: tableMeta
  dml_nullBitmap :: nat
  dml_columns :: nat
  dml_varLengthColumns :: nat
  dml_oldColumns :: "nat option"
  dml_oldVarLengthColumns :: "nat option"
  dml_updatedBitmap :: "nat option"
  dml_updatedNullBitmap :: "nat option"

text \<open>The entries of the row layout that the accessors use.\<close>

definition real_index :: "tableMeta \<Rightarrow> nat \<Rightarrow> nat" where "real_index t i = tbl_realIndexInRowFormat t ! i"
definition fixed_offset :: "tableMeta \<Rightarrow> nat \<Rightarrow> nat" where
  "fixed_offset t i = unat (tbl_fixedColumnOffsetsInRecord t ! real_index t i)"
definition fixed_end :: "tableMeta \<Rightarrow> nat" where
  "fixed_end t = unat (tbl_fixedColumnOffsetsInRecord t ! tbl_fixedColumnCount t)"
definition column_type :: "tableMeta \<Rightarrow> nat \<Rightarrow> COLUMN_TYPE" where "column_type t i = m_columnType (tbl_columns t ! i)"

text \<open>\<open>var_at v q\<close> is the address of \<^verbatim>\<open>varLengthColumns[q]\<close>, \<open>var_end\<close> the content of the last entry.\<close>

definition var_at :: "nat \<Rightarrow> nat \<Rightarrow> nat" where "var_at v q = v + 4 * q"
definition var_end :: "mem \<Rightarrow> tableMeta \<Rightarrow> nat \<Rightarrow> nat" where "var_end m t v = rd 4 m (var_at v (tbl_varColumnCount t))"

definition initRecord :: "mem \<Rightarrow> nat \<Rightarrow> tableMeta \<Rightarrow> RecordType \<Rightarrow> mem \<times> DMLRecord" where
  "initRecord m data t type =
     (let m = record_init m data;
          m = wr 1 m (data + H_type) (RTYPE type);
          m = wr 1 m (data + H_externSize) 0;
          ptr = data + headSize m data;
          m = wr 8 m ptr (unat (tbl_id t));
          nb = ptr + 8;
          m = zero_bytes m nb (BITMAP_SIZE (columnsCount t));
          cols = nb + BITMAP_SIZE (columnsCount t);
          vars = cols + fixed_end t;
          m = wr 4 m (var_at vars (tbl_varColumnCount t)) (var_at vars (tbl_varColumnCount t + 1) - cols)
      in (m, \<lparr>dml_data = data, dml_tableMetaID = unat (tbl_id t), dml_meta = t, dml_nullBitmap = nb, dml_columns = cols,
              dml_varLengthColumns = vars, dml_oldColumns = None, dml_oldVarLengthColumns = None, dml_updatedBitmap = None,
              dml_updatedNullBitmap = None\<rparr>))"

definition dml_allocSize :: "tableMeta \<Rightarrow> nat" where
  "dml_allocSize t = recordHeadSize + 8 + BITMAP_SIZE (columnsCount t) + fixed_end t + 4 * (tbl_varColumnCount t + 1)"

text \<open>
  The writers of one area: a null bitmap, the fixed-size slots at \<open>cols\<close> and the offsets and contents of the
  variable-length columns behind them.  The new values and the old values of an update each have such an area.
\<close>

definition put_fixed :: "mem \<Rightarrow> tableMeta \<Rightarrow> nat \<Rightarrow> nat \<Rightarrow> nat \<Rightarrow> u8 list \<Rightarrow> mem" where
  "put_fixed m t nb cols i val = SET_BITMAP (write_bytes m (cols + fixed_offset t i) val) nb i"

definition fill_var :: "mem \<Rightarrow> tableMeta \<Rightarrow> nat \<Rightarrow> nat \<Rightarrow> nat \<Rightarrow> nat \<Rightarrow> mem" where
  "fill_var m t nb vars i sz =
     (let m = wr 4 m (var_at vars (real_index t i)) (var_end m t vars);
          m = wr 4 m (var_at vars (tbl_varColumnCount t)) (var_end m t vars + sz)
      in SET_BITMAP m nb i)"

definition put_var :: "mem \<Rightarrow> tableMeta \<Rightarrow> nat \<Rightarrow> nat \<Rightarrow> nat \<Rightarrow> nat \<Rightarrow> u8 list \<Rightarrow> mem" where
  "put_var m t nb cols vars i val = fill_var (write_bytes m (cols + var_end m t vars) val) t nb vars i (length val)"

definition null_fixed :: "mem \<Rightarrow> tableMeta \<Rightarrow> nat \<Rightarrow> nat \<Rightarrow> nat \<Rightarrow> mem" where
  "null_fixed m t nb cols i = zero_bytes (UNSET_BITMAP m nb i) (cols + fixed_offset t i) (col_size (column_type t i))"

definition null_var :: "mem \<Rightarrow> tableMeta \<Rightarrow> nat \<Rightarrow> nat \<Rightarrow> nat \<Rightarrow> mem" where
  "null_var m t nb vars i =
     (let m = UNSET_BITMAP m nb i in wr 4 m (var_at vars (real_index t i)) (var_end m t vars))"

definition setFixedColumn :: "mem \<Rightarrow> DMLRecord \<Rightarrow> nat \<Rightarrow> u8 list \<Rightarrow> fault + mem" where
  "setFixedColumn m r i val =
     (if real_index (dml_meta r) i < columnsCount (dml_meta r)
      then Inr (put_fixed m (dml_meta r) (dml_nullBitmap r) (dml_columns r) i val) else Inl AssertFailed)"

definition setFixedColumnByMemcopy :: "mem \<Rightarrow> DMLRecord \<Rightarrow> nat \<Rightarrow> nat \<Rightarrow> fault + mem" where
  "setFixedColumnByMemcopy m r i src = setFixedColumn m r i (read_bytes m src (col_size (column_type (dml_meta r) i)))"

definition allocVarColumn :: "mem \<Rightarrow> DMLRecord \<Rightarrow> nat" where
  "allocVarColumn m r = dml_columns r + var_end m (dml_meta r) (dml_varLengthColumns r)"

definition filledVarColumns :: "mem \<Rightarrow> DMLRecord \<Rightarrow> nat \<Rightarrow> nat \<Rightarrow> mem" where
  "filledVarColumns m r i sz = fill_var m (dml_meta r) (dml_nullBitmap r) (dml_varLengthColumns r) i sz"

definition setVarColumn :: "mem \<Rightarrow> DMLRecord \<Rightarrow> nat \<Rightarrow> u8 list \<Rightarrow> mem" where
  "setVarColumn m r i val = put_var m (dml_meta r) (dml_nullBitmap r) (dml_columns r) (dml_varLengthColumns r) i val"

definition setVarColumnNull :: "mem \<Rightarrow> DMLRecord \<Rightarrow> nat \<Rightarrow> mem" where
  "setVarColumnNull m r i = null_var m (dml_meta r) (dml_nullBitmap r) (dml_varLengthColumns r) i"

definition setFixedColumnNull :: "mem \<Rightarrow> DMLRecord \<Rightarrow> nat \<Rightarrow> mem" where
  "setFixedColumnNull m r i = null_fixed m (dml_meta r) (dml_nullBitmap r) (dml_columns r) i"

text \<open>Old values.  Before \<^verbatim>\<open>startSetUpdateOldValue\<close> the pointers are null.\<close>

definition deref :: "nat option \<Rightarrow> fault + nat" where "deref p = (case p of None \<Rightarrow> Inl NullDeref | Some a \<Rightarrow> Inr a)"

definition setColumnNotUpdate :: "mem \<Rightarrow> DMLRecord \<Rightarrow> nat \<Rightarrow> fault + mem" where
  "setColumnNotUpdate m r i =
     (let t = dml_meta r in
      sbind (deref (dml_updatedBitmap r)) (\<lambda>ub. sbind (deref (dml_oldColumns r)) (\<lambda>oc. sbind (deref (dml_oldVarLengthColumns r)) (\<lambda>ov.
        let m = UNSET_BITMAP m ub i in
        if col_fixed (column_type t i) then Inr (zero_bytes m (oc + fixed_offset t i) (col_size (column_type t i)))
        else Inr (wr 4 m (var_at ov (real_index t i)) (var_end m t ov))))))"

definition startSetUpdateOldValue :: "mem \<Rightarrow> DMLRecord \<Rightarrow> mem \<times> DMLRecord" where
  "startSetUpdateOldValue m r =
     (let t = dml_meta r; bs = BITMAP_SIZE (columnsCount t);
          ub = dml_columns r + var_end m t (dml_varLengthColumns r);
          m = zero_bytes m ub (bs * 2);
          un = ub + bs; oc = un + bs; ov = oc + fixed_end t;
          m = wr 4 m (var_at ov (tbl_varColumnCount t)) (var_at ov (tbl_varColumnCount t + 1) - oc)
      in (m, r\<lparr>dml_updatedBitmap := Some ub, dml_updatedNullBitmap := Some un, dml_oldColumns := Some oc, dml_oldVarLengthColumns := Some ov\<rparr>))"

text \<open>\<^verbatim>\<open>setUpdatedVarColumnNull\<close> stores the end offset of the new values into the offsets of the old ones.\<close>

definition setUpdatedVarColumnNull :: "mem \<Rightarrow> DMLRecord \<Rightarrow> nat \<Rightarrow> fault + mem" where
  "setUpdatedVarColumnNull m r i =
     (let t = dml_meta r in
      sbind (deref (dml_updatedNullBitmap r)) (\<lambda>un. sbind (deref (dml_oldVarLengthColumns r)) (\<lambda>ov.
        let m = UNSET_BITMAP m un i in Inr (wr 4 m (var_at ov (real_index t i)) (var_end m t (dml_varLengthColumns r))))))"

definition setUpdatedFixedColumnNull :: "mem \<Rightarrow> DMLRecord \<Rightarrow> nat \<Rightarrow> fault + mem" where
  "setUpdatedFixedColumnNull m r i =
     sbind (deref (dml_updatedNullBitmap r)) (\<lambda>un. sbind (deref (dml_oldColumns r)) (\<lambda>oc. Inr (null_fixed m (dml_meta r) un oc i)))"

definition setFixedUpdatedColumn :: "mem \<Rightarrow> DMLRecord \<Rightarrow> nat \<Rightarrow> u8 list \<Rightarrow> fault + mem" where
  "setFixedUpdatedColumn m r i val =
     sbind (deref (dml_updatedNullBitmap r)) (\<lambda>un. sbind (deref (dml_oldColumns r)) (\<lambda>oc. sbind (deref (dml_updatedBitmap r)) (\<lambda>ub.
       Inr (SET_BITMAP (put_fixed m (dml_meta r) un oc i val) ub i))))"

definition allocVardUpdatedColumn :: "mem \<Rightarrow> DMLRecord \<Rightarrow> fault + nat" where
  "allocVardUpdatedColumn m r =
     sbind (deref (dml_oldColumns r)) (\<lambda>oc. sbind (deref (dml_oldVarLengthColumns r)) (\<lambda>ov. Inr (oc + var_end m (dml_meta r) ov)))"

text \<open>Like \<^verbatim>\<open>filledVarColumns\<close>, without marking the column as changed.\<close>

definition filledVardUpdatedColumn :: "mem \<Rightarrow> DMLRecord \<Rightarrow> nat \<Rightarrow> nat \<Rightarrow> fault + mem" where
  "filledVardUpdatedColumn m r i sz =
     sbind (deref (dml_updatedNullBitmap r)) (\<lambda>un. sbind (deref (dml_oldVarLengthColumns r)) (\<lambda>ov. Inr (fill_var m (dml_meta r) un ov i sz)))"

definition setVardUpdatedColumn :: "mem \<Rightarrow> DMLRecord \<Rightarrow> nat \<Rightarrow> u8 list \<Rightarrow> fault + mem" where
  "setVardUpdatedColumn m r i val =
     sbind (deref (dml_updatedNullBitmap r)) (\<lambda>un. sbind (deref (dml_oldColumns r)) (\<lambda>oc. sbind (deref (dml_oldVarLengthColumns r)) (\<lambda>ov.
       sbind (deref (dml_updatedBitmap r)) (\<lambda>ub. Inr (SET_BITMAP (put_var m (dml_meta r) un oc ov i val) ub i)))))"

definition finishedSet :: "mem \<Rightarrow> DMLRecord \<Rightarrow> mem" where
  "finishedSet m r =
     wr 4 m (dml_data r + H_size)
       (case (dml_oldColumns r, dml_oldVarLengthColumns r) of
          (Some oc, Some ov) \<Rightarrow> oc + var_end m (dml_meta r) ov - dml_data r
        | _ \<Rightarrow> dml_columns r + var_end m (dml_meta r) (dml_varLengthColumns r) - dml_data r)"

definition has_old_values :: "mem \<Rightarrow> nat \<Rightarrow> bool" where
  "has_old_values m data \<longleftrightarrow> head_type m data = RTYPE R_UPDATE \<or> head_type m data = RTYPE R_REPLACE"

definition dml_load :: "mem \<Rightarrow> nat \<Rightarrow> tableMeta \<Rightarrow> DMLRecord" where
  "dml_load m data t =
     (let nb = data + headSize m data + 8; bs = BITMAP_SIZE (columnsCount t);
          cols = nb + bs; vars = cols + fixed_end t;
          ptr = cols + var_end m t vars;
          oc = ptr + bs * 2
      in \<lparr>dml_data = data, dml_tableMetaID = rd 8 m (data + headSize m data), dml_meta = t, dml_nullBitmap = nb, dml_columns = cols,
          dml_varLengthColumns = vars,
          dml_oldColumns = (if has_old_values m data then Some oc else None),
          dml_oldVarLengthColumns = (if has_old_values m data then Some (oc + fixed_end t) else None),
          dml_updatedBitmap = (if has_old_values m data then Some ptr else None),
          dml_updatedNullBitmap = (if has_old_values m data then Some (ptr + bs) else None)\<rparr>)"

definition dml_tableId :: "mem \<Rightarrow> nat \<Rightarrow> nat" where
  "dml_tableId m data = rd 8 m (data + headSize m data)"

text \<open>The constructor for reading looks the description up in the collection \<open>mc\<close>.\<close>

definition dml_read :: "(nat \<Rightarrow> tableMeta option) \<Rightarrow> mem \<Rightarrow> nat \<Rightarrow> DMLRecord option" where
  "dml_read mc m data = map_option (dml_load m data) (mc (dml_tableId m data))"

definition column_in :: "mem \<Rightarrow> DMLRecord \<Rightarrow> nat \<Rightarrow> nat \<Rightarrow> nat \<Rightarrow> nat \<Rightarrow> nat option" where
  "column_in m r i nb cols vars =
     (if \<not> TEST_BITMAP m nb i then None
      else if col_fixed (column_type (dml_meta r) i) then Some (cols + fixed_offset (dml_meta r) i)
      else Some (cols + rd 4 m (var_at vars (real_index (dml_meta r) i))))"

definition dml_column :: "mem \<Rightarrow> DMLRecord \<Rightarrow> nat \<Rightarrow> nat option" where
  "dml_column m r i = column_in m r i (dml_nullBitmap r) (dml_columns r) (dml_varLengthColumns r)"

definition columnIsNull :: "mem \<Rightarrow> DMLRecord \<Rightarrow> nat \<Rightarrow> bool" where
  "columnIsNull m r i = (\<not> TEST_BITMAP m (dml_nullBitmap r) i)"

text \<open>
  The difference of two offsets is a 32-bit subtraction; the second one is read from the offsets of the new values
  whatever the area is.
\<close>

definition varColumnSize_in :: "mem \<Rightarrow> DMLRecord \<Rightarrow> nat \<Rightarrow> nat \<Rightarrow> nat \<Rightarrow> u32" where
  "varColumnSize_in m r i nb vars =
     (if \<not> TEST_BITMAP m nb i then 0
      else word_of_nat (rd 4 m (var_at vars (real_index (dml_meta r) i + 1)))
           - word_of_nat (rd 4 m (var_at (dml_varLengthColumns r) (real_index (dml_meta r) i))))"

definition varColumnSize :: "mem \<Rightarrow> DMLRecord \<Rightarrow> nat \<Rightarrow> u32" where
  "varColumnSize m r i = varColumnSize_in m r i (dml_nullBitmap r) (dml_varLengthColumns r)"

definition oldColumnOfUpdateType :: "mem \<Rightarrow> DMLRecord \<Rightarrow> nat \<Rightarrow> fault + nat option" where
  "oldColumnOfUpdateType m r i =
     sbind (deref (dml_updatedBitmap r)) (\<lambda>ub.
       if TEST_BITMAP m ub i then
         sbind (deref (dml_updatedNullBitmap r)) (\<lambda>un. sbind (deref (dml_oldColumns r)) (\<lambda>oc. sbind (deref (dml_oldVarLengthColumns r)) (\<lambda>ov.
           Inr (column_in m r i un oc ov))))
       else Inr (dml_column m r i))"

definition oldVarColumnSizeOfUpdateType :: "mem \<Rightarrow> DMLRecord \<Rightarrow> nat \<Rightarrow> fault + u32" where
  "oldVarColumnSizeOfUpdateType m r i =
     sbind (deref (dml_updatedBitmap r)) (\<lambda>ub.
       if TEST_BITMAP m ub i then
         sbind (deref (dml_updatedNullBitmap r)) (\<lambda>un. sbind (deref (dml_oldVarLengthColumns r)) (\<lambda>ov. Inr (varColumnSize_in m r i un ov)))
       else Inr (varColumnSize m r i))"

definition oldColumnIsNull :: "mem \<Rightarrow> DMLRecord \<Rightarrow> nat \<Rightarrow> fault + bool" where
  "oldColumnIsNull m r i =
     sbind (deref (dml_updatedBitmap r)) (\<lambda>ub.
       if TEST_BITMAP m ub i then sbind (deref (dml_updatedNullBitmap r)) (\<lambda>un. Inr (\<not> TEST_BITMAP m un i))
       else Inr (\<not> TEST_BITMAP m (dml_nullBitmap r) i))"

definition isKeyUpdated :: "mem \<Rightarrow> DMLRecord \<Rightarrow> unionKeyMeta \<Rightarrow> fault + bool" where
  "isKeyUpdated m r key =
     (if key_columns key = [] then Inr False
      else sbind (deref (dml_updatedBitmap r)) (\<lambda>ub. Inr (list_ex (\<lambda>c. TEST_BITMAP m ub (unat c)) (key_columns key))))"

end
