(* ===== verification/DmlRecordProofs.thy ===== *)
theory DmlRecordProofs
  imports DmlRecords
begin

unbundle bit_operations_syntax

text \<open>
  What is written into a record is read back: bitmaps, one area of columns filled in column order, whole DML records, the
  old values of an update, keys built from rows, and DDL records.
\<close>

section \<open>Bitmaps\<close>

lemma BITMAP_SIZE_bound: "i < n \<Longrightarrow> i div 8 < BITMAP_SIZE n"
proof -
  assume "i < n"
  show ?thesis
  proof (cases "n mod 128 = 0")
    case True
    then obtain q where "n = 128 * q" by (metis mod_0_imp_dvd dvdE)
    then have "n div 8 = 16 * q" "i < 128 * q" using \<open>i < n\<close> by simp_all
    then have "i div 8 < n div 8" by (simp add: less_mult_imp_div_less)
    then show ?thesis by (simp add: BITMAP_SIZE_def)
  next
    case False
    have "i div 8 \<le> n div 8" using \<open>i < n\<close> by (simp add: div_le_mono)
    with False show ?thesis by (simp add: BITMAP_SIZE_def)
  qed
qed

lemma div_mod_eq: "i div 8 = j div 8 \<Longrightarrow> i mod 8 = j mod 8 \<Longrightarrow> i = (j :: nat)"
  by (metis div_mult_mod_eq)

lemma TEST_SET [simp]: "TEST_BITMAP (SET_BITMAP m b i) b j \<longleftrightarrow> i = j \<or> TEST_BITMAP m b j"
proof (cases "i div 8 = j div 8")
  case True
  then have "i mod 8 = j mod 8 \<longleftrightarrow> i = j" using div_mod_eq by blast
  moreover have "j mod 8 < 8" by simp
  ultimately show ?thesis using True by (auto simp: TEST_BITMAP_def SET_BITMAP_def bit_simps)
qed (auto simp: TEST_BITMAP_def SET_BITMAP_def)

lemma TEST_UNSET [simp]: "TEST_BITMAP (UNSET_BITMAP m b i) b j \<longleftrightarrow> i \<noteq> j \<and> TEST_BITMAP m b j"
proof (cases "i div 8 = j div 8")
  case True
  then have "i mod 8 = j mod 8 \<longleftrightarrow> i = j" using div_mod_eq by blast
  moreover have "j mod 8 < 8" by simp
  ultimately show ?thesis using True by (auto simp: TEST_BITMAP_def UNSET_BITMAP_def bit_simps)
qed (auto simp: TEST_BITMAP_def UNSET_BITMAP_def)

text \<open>Two memories that agree on a range.\<close>

definition same_on :: "mem \<Rightarrow> mem \<Rightarrow> nat \<Rightarrow> nat \<Rightarrow> bool" where
  "same_on m m' a n \<longleftrightarrow> (\<forall>x. a \<le> x \<and> x < a + n \<longrightarrow> m' x = m x)"

lemma same_on_refl [simp]: "same_on m m a n"
  by (simp add: same_on_def)

lemma same_on_trans: "same_on m m' a n \<Longrightarrow> same_on m' m'' a n \<Longrightarrow> same_on m m'' a n"
  by (simp add: same_on_def)

lemma same_on_sub: "same_on m m' a n \<Longrightarrow> a \<le> b \<Longrightarrow> b + k \<le> a + n \<Longrightarrow> same_on m m' b k"
  by (simp add: same_on_def)

lemma same_on_read: "same_on m m' a n \<Longrightarrow> read_bytes m' a n = read_bytes m a n"
  by (rule nth_equalityI) (simp_all add: same_on_def)

lemma same_on_rd: "same_on m m' a n \<Longrightarrow> rd n m' a = rd n m a"
  by (simp add: rd_def same_on_read)

lemma same_on_TEST: "same_on m m' b n \<Longrightarrow> i div 8 < n \<Longrightarrow> TEST_BITMAP m' b i = TEST_BITMAP m b i"
  by (simp add: same_on_def TEST_BITMAP_def)

lemma same_on_SET: "a + n \<le> b + i div 8 \<or> b + i div 8 < a \<Longrightarrow> same_on m (SET_BITMAP m b i) a n"
  and same_on_UNSET: "a + n \<le> b + i div 8 \<or> b + i div 8 < a \<Longrightarrow> same_on m (UNSET_BITMAP m b i) a n"
  by (auto simp: same_on_def SET_BITMAP_def UNSET_BITMAP_def)

lemma same_on_write: "a + n \<le> b \<or> b + length bs \<le> a \<Longrightarrow> same_on m (write_bytes m b bs) a n"
  and same_on_wr: "a + n \<le> b \<or> b + k \<le> a \<Longrightarrow> same_on m (wr k m b v) a n"
  and same_on_zero: "a + n \<le> b \<or> b + k \<le> a \<Longrightarrow> same_on m (zero_bytes m b k) a n"
  by (auto simp: same_on_def mem_simps)

section \<open>Rows\<close>

type_synonym row = "u8 list option list"

definition vlen :: "u8 list option \<Rightarrow> nat" where "vlen v = (case v of None \<Rightarrow> 0 | Some b \<Rightarrow> length b)"
definition vsum :: "row \<Rightarrow> nat" where "vsum vs = sum_list (map vlen vs)"

lemma vlen_simps [simp]: "vlen None = 0" "vlen (Some b) = length b"
  by (simp_all add: vlen_def)

lemma vsum_simps [simp]: "vsum [] = 0" "vsum (v # vs) = vlen v + vsum vs" "vsum (vs @ ws) = vsum vs + vsum ws"
  by (simp_all add: vsum_def)

lemma vsum_take_le: "vsum (take q vs) \<le> vsum vs"
  by (metis append_take_drop_id le_add1 vsum_simps(3))

text \<open>The values of the variable-length columns, in the order of their offsets.\<close>

fun var_vals :: "COLUMN_TYPE list \<Rightarrow> row \<Rightarrow> row" where
  "var_vals (t # ts) (v # vs) = (if col_fixed t then var_vals ts vs else v # var_vals ts vs)"
| "var_vals _ _ = []"

lemma var_vals_length: "length row = length ts \<Longrightarrow> length (var_vals ts row) = var_cols ts"
  by (induction ts row rule: var_vals.induct) auto

lemma var_vals_nth:
  "length row = length ts \<Longrightarrow> i < length ts \<Longrightarrow> \<not> col_fixed (ts ! i) \<Longrightarrow> var_vals ts row ! var_cols (take i ts) = row ! i"
proof (induction ts row arbitrary: i rule: var_vals.induct)
  case (1 t ts v vs)
  then show ?case by (cases i) auto
qed auto

lemma var_cols_Suc: "i < length ts \<Longrightarrow> var_cols (take (Suc i) ts) = var_cols (take i ts) + (if col_fixed (ts ! i) then 0 else 1)"
  by (simp add: take_Suc_conv_app_nth)

lemma var_cols_less:
  assumes "i < length ts" and "\<not> col_fixed (ts ! i)"
  shows "var_cols (take i ts) < var_cols ts"
  using layout_take_le(3) [of "Suc i" ts] var_cols_Suc [OF assms(1)] assms(2) by simp

section \<open>The layout of an area\<close>

lemma column_type_nth: "i < columnsCount t \<Longrightarrow> column_type t i = col_types t ! i"
  by (simp add: column_type_def)

text \<open>The first offset behind the fixed-size slots and the array of offsets.\<close>

definition var_base :: "tableMeta \<Rightarrow> nat" where
  "var_base t = fixed_size (col_types t) + 4 * (var_cols (col_types t) + 1)"

text \<open>A row fits an area: one value per column, fixed-size values of the size of their type, and offsets that fit 32 bits.\<close>

definition row_fits :: "tableMeta \<Rightarrow> row \<Rightarrow> bool" where
  "row_fits t row \<longleftrightarrow> layout_ok t \<and> fixed_size (col_types t) < 65536 \<and> length row = columnsCount t \<and>
     (\<forall>i < columnsCount t. col_fixed (col_types t ! i) \<longrightarrow> row ! i \<noteq> None \<longrightarrow> vlen (row ! i) = col_size (col_types t ! i)) \<and>
     var_base t + vsum (var_vals (col_types t) row) < 2 ^ 32"

lemma row_fits_size:
  assumes "row_fits t row" and "i < columnsCount t" and "col_fixed (col_types t ! i)" and "row ! i = Some b"
  shows "length b = col_size (col_types t ! i)"
proof -
  have "vlen (row ! i) = col_size (col_types t ! i)" using assms unfolding row_fits_def by blast
  with assms(4) show ?thesis by simp
qed

lemma fixed_size_Suc:
  "i < length ts \<Longrightarrow> fixed_size (take (Suc i) ts) = fixed_size (take i ts) + (if col_fixed (ts ! i) then col_size (ts ! i) else 0)"
  by (simp add: take_Suc_conv_app_nth)

lemma area_layout:
  assumes "row_fits t row"
  shows "fixed_end t = fixed_size (col_types t)" and "tbl_varColumnCount t = var_cols (col_types t)"
    and "i < columnsCount t \<Longrightarrow> col_fixed (col_types t ! i) \<Longrightarrow> fixed_offset t i = fixed_size (take i (col_types t))"
    and "i < columnsCount t \<Longrightarrow> \<not> col_fixed (col_types t ! i) \<Longrightarrow> real_index t i = var_cols (take i (col_types t))"
proof -
  have l: "layout_ok t" and s: "fixed_size (col_types t) < 65536" using assms by (simp_all add: row_fits_def)
  have w: "unat (word_of_nat k :: u16) = k" if "k \<le> fixed_size (col_types t)" for k
    using that s by (simp add: unat_of_nat)
  show "fixed_end t = fixed_size (col_types t)" "tbl_varColumnCount t = var_cols (col_types t)"
    using layout_facts [OF l] by (simp_all add: fixed_end_def w)
  show "fixed_offset t i = fixed_size (take i (col_types t))" if "i < columnsCount t" "col_fixed (col_types t ! i)"
    using layout_facts(6) [OF l that] by (simp add: fixed_offset_def real_index_def w layout_take_le)
  show "real_index t i = var_cols (take i (col_types t))" if "i < columnsCount t" "\<not> col_fixed (col_types t ! i)"
    using layout_facts(7) [OF l that] by (simp add: real_index_def)
qed

lemma slot_order:
  assumes "i < j" and "j < columnsCount t" and "col_fixed (col_types t ! i)"
  shows "fixed_size (take i (col_types t)) + col_size (col_types t ! i) \<le> fixed_size (take j (col_types t))"
  using fixed_size_Suc [of i "col_types t"] layout_mono [of "Suc i" j "col_types t"] assms by simp

lemma slot_end:
  assumes "i < columnsCount t" and "col_fixed (col_types t ! i)"
  shows "fixed_size (take i (col_types t)) + col_size (col_types t ! i) \<le> fixed_size (col_types t)"
  using fixed_size_Suc [of i "col_types t"] layout_take_le(1) [of "Suc i" "col_types t"] assms by simp

section \<open>Filling an area in column order\<close>

text \<open>
  The first \<open>k\<close> columns of \<open>row\<close> are stored: the bitmap has the bits of the values that are not null, the slots and the
  variable-length contents hold the values, and the offsets are the partial sums of the lengths.
\<close>

definition area_inv :: "mem \<Rightarrow> tableMeta \<Rightarrow> nat \<Rightarrow> nat \<Rightarrow> row \<Rightarrow> nat \<Rightarrow> bool" where
  "area_inv m t nb cols row k \<longleftrightarrow>
     (let ts = col_types t; vs = var_vals ts row; kv = var_cols (take k ts); vars = cols + fixed_size ts in
        (\<forall>i < columnsCount t. TEST_BITMAP m nb i \<longleftrightarrow> i < k \<and> row ! i \<noteq> None) \<and>
        (\<forall>i < k. col_fixed (ts ! i) \<longrightarrow> (\<forall>b. row ! i = Some b \<longrightarrow> read_bytes m (cols + fixed_size (take i ts)) (length b) = b)) \<and>
        (\<forall>q < kv. rd 4 m (var_at vars q) = var_base t + vsum (take q vs)) \<and>
        rd 4 m (var_at vars (var_cols ts)) = var_base t + vsum (take kv vs) \<and>
        (\<forall>q < kv. \<forall>b. vs ! q = Some b \<longrightarrow> read_bytes m (cols + var_base t + vsum (take q vs)) (length b) = b))"

lemma area_invD:
  assumes "area_inv m t nb cols row k"
  shows "i < columnsCount t \<Longrightarrow> TEST_BITMAP m nb i \<longleftrightarrow> i < k \<and> row ! i \<noteq> None"
    and "i < k \<Longrightarrow> col_fixed (col_types t ! i) \<Longrightarrow> row ! i = Some b \<Longrightarrow>
           read_bytes m (cols + fixed_size (take i (col_types t))) (length b) = b"
    and "q < var_cols (take k (col_types t)) \<Longrightarrow>
           rd 4 m (var_at (cols + fixed_size (col_types t)) q) = var_base t + vsum (take q (var_vals (col_types t) row))"
    and "rd 4 m (var_at (cols + fixed_size (col_types t)) (var_cols (col_types t))) =
           var_base t + vsum (take (var_cols (take k (col_types t))) (var_vals (col_types t) row))"
    and "q < var_cols (take k (col_types t)) \<Longrightarrow> var_vals (col_types t) row ! q = Some c \<Longrightarrow>
           read_bytes m (cols + var_base t + vsum (take q (var_vals (col_types t) row))) (length c) = c"
  using assms by (simp_all add: area_inv_def Let_def)

lemma vsum_take_Suc: "q < length vs \<Longrightarrow> vsum (take (Suc q) vs) = vsum (take q vs) + vlen (vs ! q)"
  by (simp add: take_Suc_conv_app_nth)

lemma vsum_take_mono: "p \<le> q \<Longrightarrow> vsum (take p vs) \<le> vsum (take q vs)"
  by (metis min.absorb1 take_take vsum_take_le)

lemma vsum_entry_end:
  assumes "q < k" and "k \<le> length vs" and "vs ! q = Some b"
  shows "vsum (take q vs) + length b \<le> vsum (take k vs)"
  using vsum_take_Suc [of q vs] vsum_take_mono [of "Suc q" k vs] assms by simp

lemma area_step_fixed:
  assumes fits: "row_fits t row" and inv: "area_inv m t nb cols row k" and k: "k < columnsCount t" "col_fixed (col_types t ! k)"
    and bits: "\<And>i. i < columnsCount t \<Longrightarrow> TEST_BITMAP m' nb i = (if i = k then row ! k \<noteq> None else TEST_BITMAP m nb i)"
    and slot: "\<And>b. row ! k = Some b \<Longrightarrow> read_bytes m' (cols + fixed_size (take k (col_types t))) (length b) = b"
    and below: "same_on m m' cols (fixed_size (take k (col_types t)))"
    and above: "\<And>a l. cols + fixed_size (col_types t) \<le> a \<Longrightarrow> same_on m m' a l"
  shows "area_inv m' t nb cols row (Suc k)"
proof -
  let ?ts = "col_types t" and ?vs = "var_vals (col_types t) row"
  have kv: "var_cols (take (Suc k) ?ts) = var_cols (take k ?ts)" using k var_cols_Suc [of k ?ts] by simp
  have fixed: "read_bytes m' (cols + fixed_size (take i ?ts)) (length b) = b"
    if i: "i < Suc k" "col_fixed (?ts ! i)" "row ! i = Some b" for i b
  proof (cases "i = k")
    case False
    then have ik: "i < k" using i by simp
    have "length b = col_size (?ts ! i)" by (rule row_fits_size [OF fits]) (use i ik k in simp_all)
    with slot_order [OF ik k(1) i(2)] below
    have "same_on m m' (cols + fixed_size (take i ?ts)) (length b)" by (auto intro: same_on_sub)
    then show ?thesis using area_invD(2) [OF inv ik i(2,3)] by (simp add: same_on_read)
  qed (use slot i in simp)
  have offs: "rd 4 m' (var_at (cols + fixed_size ?ts) q) = rd 4 m (var_at (cols + fixed_size ?ts) q)" for q
    by (rule same_on_rd, rule above) (simp add: var_at_def)
  have cont: "read_bytes m' (cols + var_base t + s) l = read_bytes m (cols + var_base t + s) l" for s l
    by (rule same_on_read, rule above) (simp add: var_base_def)
  show ?thesis
    unfolding area_inv_def Let_def kv offs cont
    using fixed bits area_invD [OF inv] by (auto simp: less_Suc_eq)
qed

lemma area_step_var:
  assumes fits: "row_fits t row" and inv: "area_inv m t nb cols row k" and k: "k < columnsCount t" "\<not> col_fixed (col_types t ! k)"
    and kv: "kv = var_cols (take k (col_types t))" and E: "E = var_base t + vsum (take kv (var_vals (col_types t) row))"
    and bits: "\<And>i. i < columnsCount t \<Longrightarrow> TEST_BITMAP m' nb i = (if i = k then row ! k \<noteq> None else TEST_BITMAP m nb i)"
    and slots: "same_on m m' cols (fixed_size (col_types t))"
    and offs: "\<And>q. q < kv \<Longrightarrow> rd 4 m' (var_at (cols + fixed_size (col_types t)) q) = rd 4 m (var_at (cols + fixed_size (col_types t)) q)"
    and start: "rd 4 m' (var_at (cols + fixed_size (col_types t)) kv) = E"
    and stop: "rd 4 m' (var_at (cols + fixed_size (col_types t)) (var_cols (col_types t))) = E + vlen (row ! k)"
    and old: "same_on m m' (cols + var_base t) (vsum (take kv (var_vals (col_types t) row)))"
    and new: "\<And>b. row ! k = Some b \<Longrightarrow> read_bytes m' (cols + E) (length b) = b"
  shows "area_inv m' t nb cols row (Suc k)"
proof -
  let ?ts = "col_types t" and ?vs = "var_vals (col_types t) row"
  have len: "length row = length ?ts" using fits by (simp add: row_fits_def)
  have vk: "?vs ! kv = row ! k" using var_vals_nth [OF len, of k] k kv by simp
  have kl: "kv < length ?vs" using var_cols_less [of k ?ts] k kv var_vals_length [OF len] by simp
  have kS: "var_cols (take (Suc k) ?ts) = Suc kv" using k kv var_cols_Suc [of k ?ts] by simp
  have fixed: "read_bytes m' (cols + fixed_size (take i ?ts)) (length b) = b"
    if i: "i < Suc k" "col_fixed (?ts ! i)" "row ! i = Some b" for i b
  proof -
    have ik: "i < k" using i k by (cases "i = k") auto
    have "length b = col_size (?ts ! i)" by (rule row_fits_size [OF fits]) (use i ik k in simp_all)
    with slot_end [of i t] i ik k slots
    have "same_on m m' (cols + fixed_size (take i ?ts)) (length b)" by (auto intro: same_on_sub)
    then show ?thesis using area_invD(2) [OF inv ik i(2,3)] by (simp add: same_on_read)
  qed
  have cont: "read_bytes m' (cols + var_base t + vsum (take q ?vs)) (length b) = b" if q: "q < Suc kv" "?vs ! q = Some b" for q b
  proof (cases "q = kv")
    case False
    then have qk: "q < kv" using q by simp
    have "same_on m m' (cols + var_base t + vsum (take q ?vs)) (length b)"
      by (rule same_on_sub [OF old]) (use vsum_entry_end [OF qk _ q(2)] kl in simp_all)
    then show ?thesis using area_invD(5) [OF inv _ q(2)] qk kv by (simp add: same_on_read)
  qed (use new q vk E in \<open>simp add: add.assoc\<close>)
  show ?thesis
    unfolding area_inv_def Let_def kS
    using fixed bits cont area_invD [OF inv] offs start stop vsum_take_Suc [OF kl] vk E kv
    by (auto simp: less_Suc_eq)
qed

lemma area_room:
  assumes "row_fits t row" and "k < columnsCount t" and "\<not> col_fixed (col_types t ! k)"
  shows "vsum (take (var_cols (take k (col_types t))) (var_vals (col_types t) row)) + vlen (row ! k) \<le> vsum (var_vals (col_types t) row)"
    and "var_cols (take k (col_types t)) < var_cols (col_types t)"
proof -
  let ?ts = "col_types t" and ?vs = "var_vals (col_types t) row" and ?kv = "var_cols (take k (col_types t))"
  have len: "length row = length ?ts" using assms by (simp add: row_fits_def)
  show kv: "?kv < var_cols ?ts" using var_cols_less [of k ?ts] assms by simp
  then have "vsum (take (Suc ?kv) ?vs) = vsum (take ?kv ?vs) + vlen (row ! k)"
    using vsum_take_Suc [of ?kv ?vs] var_vals_nth [OF len, of k] assms var_vals_length [OF len] by simp
  then show "vsum (take ?kv ?vs) + vlen (row ! k) \<le> vsum ?vs" using vsum_take_le [of "Suc ?kv" ?vs] by simp
qed

text \<open>The bytes of an area are its bitmap and everything from \<open>cols\<close> to the end of the variable-length contents.\<close>

definition outside_area :: "tableMeta \<Rightarrow> nat \<Rightarrow> nat \<Rightarrow> row \<Rightarrow> nat \<Rightarrow> nat \<Rightarrow> bool" where
  "outside_area t nb cols row a l \<longleftrightarrow>
     (a + l \<le> nb \<or> nb + BITMAP_SIZE (columnsCount t) \<le> a) \<and>
     (a + l \<le> cols \<or> cols + var_base t + vsum (var_vals (col_types t) row) \<le> a)"

lemma put_fixed_area:
  assumes fits: "row_fits t row" and inv: "area_inv m t nb cols row k" and k: "k < columnsCount t" "col_fixed (col_types t ! k)"
    and sep: "nb + BITMAP_SIZE (columnsCount t) \<le> cols" and v: "row ! k = Some b"
  shows "area_inv (put_fixed m t nb cols k b) t nb cols row (Suc k)"
    and "outside_area t nb cols row a l \<Longrightarrow> same_on m (put_fixed m t nb cols k b) a l"
proof -
  have len: "length b = col_size (col_types t ! k)" by (rule row_fits_size [OF fits k v])
  note off = area_layout(3) [OF fits k] slot_end [OF k] BITMAP_SIZE_bound [OF k(1)]
  define w where "w = write_bytes m (cols + fixed_offset t k) b"
  have p: "put_fixed m t nb cols k b = SET_BITMAP w nb k" by (simp add: put_fixed_def w_def)
  have up: "same_on w (SET_BITMAP w nb k) a l" if "cols \<le> a" for a l using that off sep by (intro same_on_SET) simp
  show "area_inv (put_fixed m t nb cols k b) t nb cols row (Suc k)"
    unfolding p
  proof (rule area_step_fixed [OF fits inv k])
    fix i assume i: "i < columnsCount t"
    have "same_on m w nb (BITMAP_SIZE (columnsCount t))" using sep by (auto simp: w_def intro!: same_on_write)
    then have "TEST_BITMAP w nb i = TEST_BITMAP m nb i" using BITMAP_SIZE_bound [OF i] by (rule same_on_TEST)
    then show "TEST_BITMAP (SET_BITMAP w nb k) nb i = (if i = k then row ! k \<noteq> None else TEST_BITMAP m nb i)" using v by simp
  next
    fix c assume "row ! k = Some c"
    then have "c = b" using v by simp
    then show "read_bytes (SET_BITMAP w nb k) (cols + fixed_size (take k (col_types t))) (length c) = c"
      using same_on_read [OF up, of "cols + fixed_size (take k (col_types t))" "length b"] off(1)
        write_bytes_same [of m "cols + fixed_offset t k" b] by (simp add: w_def)
  next
    have "same_on m w cols (fixed_size (take k (col_types t)))" using off(1) by (auto simp: w_def intro!: same_on_write)
    then show "same_on m (SET_BITMAP w nb k) cols (fixed_size (take k (col_types t)))" using up by (rule same_on_trans) simp
  next
    fix a l assume a: "cols + fixed_size (col_types t) \<le> a"
    then have "same_on m w a l" using off len by (auto simp: w_def intro!: same_on_write)
    then show "same_on m (SET_BITMAP w nb k) a l" using up by (rule same_on_trans) (use a in simp)
  qed
  show "same_on m (put_fixed m t nb cols k b) a l" if out: "outside_area t nb cols row a l"
  proof -
    have "same_on m w a l" using out off len unfolding w_def outside_area_def var_base_def by (intro same_on_write) linarith
    moreover have "same_on w (SET_BITMAP w nb k) a l" using out off unfolding outside_area_def by (intro same_on_SET) linarith
    ultimately show ?thesis unfolding p by (rule same_on_trans)
  qed
qed

text \<open>Clearing a bit of the area's bitmap, or of one that lies in front of the area.\<close>

definition clears :: "tableMeta \<Rightarrow> nat \<Rightarrow> nat \<Rightarrow> bool" where
  "clears t nb b \<longleftrightarrow> b = nb \<or> b + BITMAP_SIZE (columnsCount t) \<le> nb"

lemma clears_bit:
  assumes "clears t nb b" and "i < columnsCount t" and "k < columnsCount t" and "area_inv m t nb cols row k"
  shows "TEST_BITMAP (UNSET_BITMAP m b k) nb i = (if i = k then False else TEST_BITMAP m nb i)"
proof (cases "b = nb")
  case False
  then have "b + BITMAP_SIZE (columnsCount t) \<le> nb" using assms(1) by (simp add: clears_def)
  then have "same_on m (UNSET_BITMAP m b k) nb (BITMAP_SIZE (columnsCount t))"
    using BITMAP_SIZE_bound [OF assms(3)] by (intro same_on_UNSET) simp
  then have "TEST_BITMAP (UNSET_BITMAP m b k) nb i = TEST_BITMAP m nb i" using BITMAP_SIZE_bound [OF assms(2)] by (rule same_on_TEST)
  then show ?thesis using area_invD(1) [OF assms(4) assms(2)] by auto
qed auto

lemma null_fixed_area:
  assumes fits: "row_fits t row" and inv: "area_inv m t nb cols row k" and k: "k < columnsCount t" "col_fixed (col_types t ! k)"
    and sep: "nb + BITMAP_SIZE (columnsCount t) \<le> cols" and v: "row ! k = None" and c: "clears t nb b"
  shows "area_inv (null_fixed m t b cols k) t nb cols row (Suc k)"
    and "outside_area t nb cols row a l \<Longrightarrow> a + l \<le> b \<or> b + BITMAP_SIZE (columnsCount t) \<le> a \<Longrightarrow> same_on m (null_fixed m t b cols k) a l"
proof -
  note off = area_layout(3) [OF fits k] slot_end [OF k] BITMAP_SIZE_bound [OF k(1)]
  define w where "w = UNSET_BITMAP m b k"
  define z where "z = zero_bytes w (cols + fixed_offset t k) (col_size (col_types t ! k))"
  have p: "null_fixed m t b cols k = z" using k by (simp add: null_fixed_def w_def z_def column_type_nth)
  have bc: "b + k div 8 < cols" using c sep off(3) by (auto simp: clears_def)
  have up: "same_on m w a l" if "cols \<le> a" for a l using that bc unfolding w_def by (intro same_on_UNSET) simp
  show "area_inv (null_fixed m t b cols k) t nb cols row (Suc k)"
    unfolding p
  proof (rule area_step_fixed [OF fits inv k])
    fix i assume i: "i < columnsCount t"
    have "same_on w z nb (BITMAP_SIZE (columnsCount t))" using sep by (auto simp: z_def intro!: same_on_zero)
    then have "TEST_BITMAP z nb i = TEST_BITMAP w nb i" using BITMAP_SIZE_bound [OF i] by (rule same_on_TEST)
    then show "TEST_BITMAP z nb i = (if i = k then row ! k \<noteq> None else TEST_BITMAP m nb i)"
      using clears_bit [OF c i k(1) inv] v by (simp add: w_def)
  next
    have "same_on w z cols (fixed_size (take k (col_types t)))" using off(1) by (auto simp: z_def intro!: same_on_zero)
    with up show "same_on m z cols (fixed_size (take k (col_types t)))" by (rule same_on_trans) simp
  next
    fix a l assume a: "cols + fixed_size (col_types t) \<le> a"
    then have "same_on w z a l" using off by (auto simp: z_def intro!: same_on_zero)
    with up show "same_on m z a l" by (rule same_on_trans) (use a in simp)
  qed (use v in simp)
  show "same_on m (null_fixed m t b cols k) a l"
    if out: "outside_area t nb cols row a l" and b: "a + l \<le> b \<or> b + BITMAP_SIZE (columnsCount t) \<le> a"
  proof -
    have "same_on w z a l" using out off unfolding z_def outside_area_def var_base_def by (intro same_on_zero) linarith
    moreover have "same_on m w a l" using b off unfolding w_def by (intro same_on_UNSET) linarith
    ultimately show ?thesis unfolding p by (rule same_on_trans [rotated])
  qed
qed

text \<open>The addresses of the offsets: apart from each other, behind the slots and in front of the contents.\<close>

lemma var_at_apart: "p \<noteq> q \<Longrightarrow> var_at v p + 4 \<le> var_at v q \<or> var_at v q + 4 \<le> var_at v p"
  by (auto simp: var_at_def)

lemma var_at_bounds:
  assumes "q \<le> var_cols (col_types t)"
  shows "cols + fixed_size (col_types t) \<le> var_at (cols + fixed_size (col_types t)) q"
    and "var_at (cols + fixed_size (col_types t)) q + 4 \<le> cols + var_base t"
  using assms by (simp_all add: var_at_def var_base_def)

lemma put_var_area:
  assumes fits: "row_fits t row" and inv: "area_inv m t nb cols row k" and k: "k < columnsCount t" "\<not> col_fixed (col_types t ! k)"
    and sep: "nb + BITMAP_SIZE (columnsCount t) \<le> cols" and v: "row ! k = Some b"
  shows "area_inv (put_var m t nb cols (cols + fixed_end t) k b) t nb cols row (Suc k)"
    and "outside_area t nb cols row a l \<Longrightarrow> same_on m (put_var m t nb cols (cols + fixed_end t) k b) a l"
proof -
  let ?ts = "col_types t" and ?vs = "var_vals (col_types t) row" and ?nv = "var_cols (col_types t)"
  define kv where "kv = var_cols (take k ?ts)"
  define E where "E = var_base t + vsum (take kv ?vs)"
  define vars where "vars = cols + fixed_size ?ts"
  note lay = area_layout(1,2) [OF fits] area_layout(4) [OF fits k]
  have room: "E + length b \<le> var_base t + vsum ?vs" "kv < ?nv"
    using area_room [OF fits k] v by (simp_all add: E_def kv_def)
  have big: "E + length b < 2 ^ 32" using room fits by (simp add: row_fits_def)
  define m1 where "m1 = write_bytes m (cols + E) b"
  define m2 where "m2 = wr 4 m1 (var_at vars kv) E"
  define m3 where "m3 = wr 4 m2 (var_at vars ?nv) (E + length b)"
  note at = var_at_bounds [of kv t cols, folded vars_def] var_at_bounds [of ?nv t cols, folded vars_def]
  have base: "cols + var_base t \<le> cols + E" "vars \<le> var_at vars kv" "cols \<le> vars" by (simp_all add: E_def var_at_def vars_def)
  have end0: "var_end m t vars = E" using area_invD(4) [OF inv] lay by (simp add: var_end_def E_def kv_def vars_def)
  have end1: "var_end m1 t vars = E"
    using end0 at(4) base by (simp add: var_end_def lay m1_def rd_write_bytes_other)
  have end2: "var_end m2 t vars = E"
    using end1 var_at_apart [of ?nv kv vars] room by (simp add: var_end_def lay m2_def rd_wr_other)
  have p: "put_var m t nb cols (cols + fixed_end t) k b = SET_BITMAP m3 nb k"
    using end0 end1 end2 lay by (simp add: put_var_def fill_var_def Let_def m1_def m2_def m3_def kv_def vars_def)
  note bound = BITMAP_SIZE_bound [OF k(1)]
  have up: "same_on m3 (SET_BITMAP m3 nb k) a l" if "cols \<le> a" for a l using that bound sep by (intro same_on_SET) simp
  have w: "same_on m m3 a l" if "a + l \<le> cols + E \<or> cols + E + length b \<le> a" "a + l \<le> var_at vars kv \<or> var_at vars kv + 4 \<le> a"
      "a + l \<le> var_at vars ?nv \<or> var_at vars ?nv + 4 \<le> a" for a l
    unfolding m3_def m2_def m1_def by (rule same_on_trans, rule same_on_trans, rule same_on_write, fact, rule same_on_wr, fact, rule same_on_wr, fact)
  show "area_inv (put_var m t nb cols (cols + fixed_end t) k b) t nb cols row (Suc k)"
    unfolding p
  proof (rule area_step_var [OF fits inv k kv_def E_def, folded vars_def])
    fix i assume i: "i < columnsCount t"
    have "same_on m m3 nb (BITMAP_SIZE (columnsCount t))" by (rule w) (use base sep room at in simp_all)
    then have "TEST_BITMAP m3 nb i = TEST_BITMAP m nb i" using BITMAP_SIZE_bound [OF i] by (rule same_on_TEST)
    then show "TEST_BITMAP (SET_BITMAP m3 nb k) nb i = (if i = k then row ! k \<noteq> None else TEST_BITMAP m nb i)" using v by simp
  next
    have "same_on m m3 cols (fixed_size ?ts)" by (rule w) (use base room at in \<open>simp_all add: vars_def var_base_def\<close>)
    then show "same_on m (SET_BITMAP m3 nb k) cols (fixed_size ?ts)" using up by (rule same_on_trans) simp
  next
    fix q assume q: "q < kv"
    have "same_on m m3 (var_at vars q) 4"
      by (rule w) (use q room base at var_at_bounds(2) [of q t cols] in \<open>simp_all add: vars_def [symmetric] var_at_apart\<close>)
    then have "same_on m (SET_BITMAP m3 nb k) (var_at vars q) 4" using up by (rule same_on_trans) (simp add: var_at_def vars_def)
    then show "rd 4 (SET_BITMAP m3 nb k) (var_at vars q) = rd 4 m (var_at vars q)" by (rule same_on_rd)
  next
    have "rd 4 m3 (var_at vars kv) = E"
      using var_at_apart [of kv ?nv vars] room big by (simp add: m3_def m2_def rd_wr_other rd_wr_same)
    then show "rd 4 (SET_BITMAP m3 nb k) (var_at vars kv) = E"
      using same_on_rd [OF up, of "var_at vars kv" 4] base by simp
  next
    have "rd 4 m3 (var_at vars ?nv) = E + length b" using big by (simp add: m3_def rd_wr_same)
    then show "rd 4 (SET_BITMAP m3 nb k) (var_at vars ?nv) = E + vlen (row ! k)"
      using same_on_rd [OF up, of "var_at vars ?nv" 4] base at v by simp
  next
    have "same_on m m3 (cols + var_base t) (vsum (take kv ?vs))" by (rule w) (use room at in \<open>simp_all add: E_def\<close>)
    then show "same_on m (SET_BITMAP m3 nb k) (cols + var_base t) (vsum (take kv ?vs))" using up by (rule same_on_trans) simp
  next
    fix c assume "row ! k = Some c"
    then have c: "c = b" using v by simp
    have "read_bytes m3 (cols + E) (length b) = b"
      using base room at by (simp add: m3_def m2_def m1_def read_bytes_wr_other write_bytes_same)
    then show "read_bytes (SET_BITMAP m3 nb k) (cols + E) (length c) = c"
      using same_on_read [OF up, of "cols + E" "length b"] c by simp
  qed
  show "same_on m (put_var m t nb cols (cols + fixed_end t) k b) a l" if out: "outside_area t nb cols row a l"
  proof -
    have "same_on m m3 a l" by (rule w) (use out base room at in \<open>auto simp: outside_area_def\<close>)
    moreover have "same_on m3 (SET_BITMAP m3 nb k) a l" using out bound unfolding outside_area_def by (intro same_on_SET) linarith
    ultimately show ?thesis unfolding p by (rule same_on_trans)
  qed
qed

lemma null_var_area:
  assumes fits: "row_fits t row" and inv: "area_inv m t nb cols row k" and k: "k < columnsCount t" "\<not> col_fixed (col_types t ! k)"
    and sep: "nb + BITMAP_SIZE (columnsCount t) \<le> cols" and v: "row ! k = None" and c: "clears t nb b"
  shows "area_inv (null_var m t b (cols + fixed_end t) k) t nb cols row (Suc k)"
    and "outside_area t nb cols row a l \<Longrightarrow> a + l \<le> b \<or> b + BITMAP_SIZE (columnsCount t) \<le> a \<Longrightarrow>
         same_on m (null_var m t b (cols + fixed_end t) k) a l"
proof -
  let ?ts = "col_types t" and ?vs = "var_vals (col_types t) row" and ?nv = "var_cols (col_types t)"
  define kv where "kv = var_cols (take k ?ts)"
  define E where "E = var_base t + vsum (take kv ?vs)"
  define vars where "vars = cols + fixed_size ?ts"
  note lay = area_layout(1,2) [OF fits] area_layout(4) [OF fits k]
  have kn: "kv < ?nv" using area_room(2) [OF fits k] by (simp add: kv_def)
  have big: "E < 2 ^ 32" using fits vsum_take_le [of kv ?vs] by (simp add: row_fits_def E_def)
  define w where "w = UNSET_BITMAP m b k"
  define z where "z = wr 4 w (var_at vars kv) E"
  note at = var_at_bounds [of kv t cols, folded vars_def] var_at_bounds [of ?nv t cols, folded vars_def]
  have bc: "b + k div 8 < cols" using c sep BITMAP_SIZE_bound [OF k(1)] by (auto simp: clears_def)
  have low: "cols \<le> vars" by (simp add: vars_def)
  have up: "same_on m w a l" if "cols \<le> a" for a l using that bc unfolding w_def by (intro same_on_UNSET) simp
  have end0: "rd 4 m (var_at vars ?nv) = E" using area_invD(4) [OF inv] by (simp add: E_def kv_def vars_def)
  have "var_end w t vars = E"
    using same_on_rd [OF up, of "var_at vars ?nv" 4] end0 at(3) low by (simp add: var_end_def lay)
  then have p: "null_var m t b (cols + fixed_end t) k = z"
    using lay by (simp add: null_var_def Let_def w_def z_def kv_def vars_def)
  have wz: "same_on w z a l" if "a + l \<le> var_at vars kv \<or> var_at vars kv + 4 \<le> a" for a l
    unfolding z_def by (rule same_on_wr) (fact that)
  show "area_inv (null_var m t b (cols + fixed_end t) k) t nb cols row (Suc k)"
    unfolding p
  proof (rule area_step_var [OF fits inv k kv_def E_def, folded vars_def])
    fix i assume i: "i < columnsCount t"
    have "same_on w z nb (BITMAP_SIZE (columnsCount t))" by (rule wz) (use low sep kn at in simp)
    then have "TEST_BITMAP z nb i = TEST_BITMAP w nb i" using BITMAP_SIZE_bound [OF i] by (rule same_on_TEST)
    then show "TEST_BITMAP z nb i = (if i = k then row ! k \<noteq> None else TEST_BITMAP m nb i)"
      using clears_bit [OF c i k(1) inv] v by (simp add: w_def)
  next
    have "same_on w z cols (fixed_size ?ts)" by (rule wz) (use kn at in \<open>simp add: vars_def\<close>)
    with up show "same_on m z cols (fixed_size ?ts)" by (rule same_on_trans) simp
  next
    fix q assume q: "q < kv"
    have "same_on w z (var_at vars q) 4" by (rule wz) (use q in \<open>simp add: var_at_apart\<close>)
    with up have "same_on m z (var_at vars q) 4" by (rule same_on_trans) (simp add: var_at_def vars_def)
    then show "rd 4 z (var_at vars q) = rd 4 m (var_at vars q)" by (rule same_on_rd)
  next
    show "rd 4 z (var_at vars kv) = E" using big by (simp add: z_def rd_wr_same)
  next
    have "same_on w z (var_at vars ?nv) 4" by (rule wz) (use kn in \<open>simp add: var_at_apart\<close>)
    with up have "same_on m z (var_at vars ?nv) 4" by (rule same_on_trans) (use low at in simp)
    then show "rd 4 z (var_at vars ?nv) = E + vlen (row ! k)" using end0 v by (simp add: same_on_rd)
  next
    have "same_on w z (cols + var_base t) (vsum (take kv ?vs))" by (rule wz) (use kn at in simp)
    with up show "same_on m z (cols + var_base t) (vsum (take kv ?vs))" by (rule same_on_trans) simp
  qed (use v in simp)
  show "same_on m (null_var m t b (cols + fixed_end t) k) a l"
    if out: "outside_area t nb cols row a l" and b: "a + l \<le> b \<or> b + BITMAP_SIZE (columnsCount t) \<le> a"
  proof -
    have "same_on w z a l" by (rule wz) (use out low kn at in \<open>auto simp: outside_area_def\<close>)
    moreover have "same_on m w a l" using b BITMAP_SIZE_bound [OF k(1)] unfolding w_def by (intro same_on_UNSET) linarith
    ultimately show ?thesis unfolding p by (rule same_on_trans [rotated])
  qed
qed

lemma area_inv_frame:
  assumes fits: "row_fits t row" and inv: "area_inv m t nb cols row k" and k: "k \<le> columnsCount t"
    and bits: "same_on m m' nb (BITMAP_SIZE (columnsCount t))"
    and rest: "same_on m m' cols (var_base t + vsum (var_vals (col_types t) row))"
  shows "area_inv m' t nb cols row k"
proof -
  let ?ts = "col_types t" and ?vs = "var_vals (col_types t) row"
  have len: "length row = length ?ts" using fits by (simp add: row_fits_def)
  have kv: "var_cols (take k ?ts) \<le> var_cols ?ts" by (rule layout_take_le)
  have 1: "TEST_BITMAP m' nb i = TEST_BITMAP m nb i" if "i < columnsCount t" for i
    using bits BITMAP_SIZE_bound [OF that] by (rule same_on_TEST)
  have 2: "rd 4 m' (var_at (cols + fixed_size ?ts) q) = rd 4 m (var_at (cols + fixed_size ?ts) q)" if "q \<le> var_cols ?ts" for q
    by (rule same_on_rd, rule same_on_sub [OF rest]) (use that in \<open>simp_all add: var_at_def var_base_def\<close>)
  have 3: "read_bytes m' (cols + fixed_size (take i ?ts)) (length b) = read_bytes m (cols + fixed_size (take i ?ts)) (length b)"
    if "i < k" "col_fixed (?ts ! i)" "row ! i = Some b" for i b
    by (rule same_on_read, rule same_on_sub [OF rest])
      (use that k slot_end [of i t] row_fits_size [OF fits, of i b] in \<open>simp_all add: var_base_def\<close>)
  have 4: "read_bytes m' (cols + var_base t + vsum (take q ?vs)) (length b) = read_bytes m (cols + var_base t + vsum (take q ?vs)) (length b)"
    if "q < var_cols (take k ?ts)" "?vs ! q = Some b" for q b
    by (rule same_on_read, rule same_on_sub [OF rest])
      (use that kv vsum_entry_end [of q "length ?vs" ?vs b] var_vals_length [OF len] in simp_all)
  show ?thesis
    unfolding area_inv_def Let_def
    using 1 2 3 4 kv area_invD [OF inv] by (auto simp del: nth_map)
qed

text \<open>What the readers find in a filled area.\<close>

lemma area_column:
  assumes fits: "row_fits t row" and inv: "area_inv m t nb cols row (columnsCount t)" and i: "i < columnsCount t"
    and r: "dml_meta r = t" and v: "row ! i = Some b"
  shows "\<exists>a. column_in m r i nb cols (cols + fixed_end t) = Some a \<and> read_bytes m a (length b) = b"
proof (cases "col_fixed (col_types t ! i)")
  case True
  then show ?thesis
    using area_invD(1,2) [OF inv] i v r area_layout(3) [OF fits i] by (simp add: column_in_def column_type_nth)
next
  case False
  let ?q = "var_cols (take i (col_types t))"
  have "length row = length (col_types t)" using fits by (simp add: row_fits_def)
  then have q: "?q < var_cols (col_types t)" "var_vals (col_types t) row ! ?q = Some b"
    using var_cols_less [of i "col_types t"] var_vals_nth [of row "col_types t" i] i v False by simp_all
  then show ?thesis
    using area_invD(1,3,5) [OF inv] i v r area_layout(1) [OF fits] area_layout(4) [OF fits i] False
    by (simp add: column_in_def column_type_nth add.assoc)
qed

lemma area_null:
  assumes "area_inv m t nb cols row (columnsCount t)" and "i < columnsCount t" and "row ! i = None"
  shows "column_in m r i nb cols vars = None"
  using area_invD(1) [OF assms(1,2)] assms(3) by (simp add: column_in_def)

lemma area_offset:
  assumes fits: "row_fits t row" and inv: "area_inv m t nb cols row (columnsCount t)" and q: "q \<le> var_cols (col_types t)"
  shows "rd 4 m (var_at (cols + fixed_end t) q) = var_base t + vsum (take q (var_vals (col_types t) row))"
  using area_invD(3,4) [OF inv] q area_layout(1) [OF fits] by (cases "q = var_cols (col_types t)") simp_all

lemma vsum_next:
  assumes fits: "row_fits t row" and i: "i < columnsCount t" "\<not> col_fixed (col_types t ! i)"
  shows "vsum (take (Suc (var_cols (take i (col_types t)))) (var_vals (col_types t) row)) =
         vsum (take (var_cols (take i (col_types t))) (var_vals (col_types t) row)) + vlen (row ! i)"
proof -
  have "length row = length (col_types t)" using fits by (simp add: row_fits_def)
  then show ?thesis
    using vsum_take_Suc [of "var_cols (take i (col_types t))" "var_vals (col_types t) row"] i
      var_cols_less [of i "col_types t"] var_vals_nth [of row "col_types t" i] var_vals_length [of row "col_types t"] by simp
qed

section \<open>Whole records\<close>

text \<open>Setting one column through the interface of the record, then all columns in order, then a whole record.\<close>

definition dml_set :: "mem \<Rightarrow> DMLRecord \<Rightarrow> nat \<Rightarrow> u8 list option \<Rightarrow> fault + mem" where
  "dml_set m r i v =
     (case v of
        Some b \<Rightarrow> if col_fixed (column_type (dml_meta r) i) then setFixedColumn m r i b else Inr (setVarColumn m r i b)
      | None \<Rightarrow> Inr (if col_fixed (column_type (dml_meta r) i) then setFixedColumnNull m r i else setVarColumnNull m r i))"

fun dml_set_from :: "mem \<Rightarrow> DMLRecord \<Rightarrow> nat \<Rightarrow> row \<Rightarrow> fault + mem" where
  "dml_set_from m r i [] = Inr m"
| "dml_set_from m r i (v # vs) = sbind (dml_set m r i v) (\<lambda>m. dml_set_from m r (Suc i) vs)"

definition write_dml :: "mem \<Rightarrow> nat \<Rightarrow> tableMeta \<Rightarrow> RecordType \<Rightarrow> row \<Rightarrow> fault + mem" where
  "write_dml m data t type row =
     (let (m, r) = initRecord m data t type in sbind (dml_set_from m r 0 row) (\<lambda>m. Inr (finishedSet m r)))"

text \<open>The old value of a column of an update: \<^const>\<open>None\<close> where the column was not changed.\<close>

definition dml_set_old :: "mem \<Rightarrow> DMLRecord \<Rightarrow> nat \<Rightarrow> u8 list option \<Rightarrow> fault + mem" where
  "dml_set_old m r i v =
     (case v of
        Some b \<Rightarrow> if col_fixed (column_type (dml_meta r) i) then setFixedUpdatedColumn m r i b else setVardUpdatedColumn m r i b
      | None \<Rightarrow> setColumnNotUpdate m r i)"

fun dml_set_old_from :: "mem \<Rightarrow> DMLRecord \<Rightarrow> nat \<Rightarrow> row \<Rightarrow> fault + mem" where
  "dml_set_old_from m r i [] = Inr m"
| "dml_set_old_from m r i (v # vs) = sbind (dml_set_old m r i v) (\<lambda>m. dml_set_old_from m r (Suc i) vs)"

definition write_update :: "mem \<Rightarrow> nat \<Rightarrow> tableMeta \<Rightarrow> RecordType \<Rightarrow> row \<Rightarrow> row \<Rightarrow> fault + mem" where
  "write_update m data t type row old =
     (let (m, r) = initRecord m data t type in
      sbind (dml_set_from m r 0 row) (\<lambda>m. let (m, r) = startSetUpdateOldValue m r in
        sbind (dml_set_old_from m r 0 old) (\<lambda>m. Inr (finishedSet m r))))"

text \<open>The area of new values of a record object.\<close>

definition new_area :: "DMLRecord \<Rightarrow> nat \<Rightarrow> nat \<Rightarrow> bool" where
  "new_area r nb cols \<longleftrightarrow> dml_nullBitmap r = nb \<and> dml_columns r = cols \<and> dml_varLengthColumns r = cols + fixed_end (dml_meta r)"

lemma real_index_bound:
  assumes "row_fits t row" and "i < columnsCount t" and "col_fixed (col_types t ! i)"
  shows "real_index t i < columnsCount t"
proof -
  have l: "layout_ok t" using assms by (simp add: row_fits_def)
  have "fixed_cols (take i (col_types t)) \<le> length (take i (col_types t))" by (simp add: fixed_cols_def length_filter_le del: length_take)
  then show ?thesis using layout_facts(6) [OF l assms(2,3)] assms(2) by (simp add: real_index_def)
qed

lemma dml_set_area:
  assumes fits: "row_fits t row" and inv: "area_inv m t nb cols row k" and k: "k < columnsCount t"
    and sep: "nb + BITMAP_SIZE (columnsCount t) \<le> cols" and r: "dml_meta r = t" "new_area r nb cols"
  shows "\<exists>m'. dml_set m r k (row ! k) = Inr m' \<and> area_inv m' t nb cols row (Suc k) \<and>
              (\<forall>a l. outside_area t nb cols row a l \<longrightarrow> same_on m m' a l)"
proof -
  have c: "clears t nb nb" by (simp add: clears_def)
  have ty: "column_type t k = col_types t ! k" by (rule column_type_nth [OF k])
  have out: "outside_area t nb cols row a l \<Longrightarrow> a + l \<le> nb \<or> nb + BITMAP_SIZE (columnsCount t) \<le> a" for a l
    by (simp add: outside_area_def)
  note r = r(1) r(2) [unfolded new_area_def]
  show ?thesis
  proof (cases "row ! k")
    case None
    then show ?thesis
      using null_fixed_area [OF fits inv k _ sep None c] null_var_area [OF fits inv k _ sep None c] out r
      by (auto simp: dml_set_def ty setFixedColumnNull_def setVarColumnNull_def)
  next
    case (Some b)
    then show ?thesis
      using put_fixed_area [OF fits inv k _ sep Some] put_var_area [OF fits inv k _ sep Some] real_index_bound [OF fits k] r
      by (auto simp: dml_set_def ty setFixedColumn_def setVarColumn_def)
  qed
qed

lemma dml_set_from_area:
  assumes fits: "row_fits t row" and sep: "nb + BITMAP_SIZE (columnsCount t) \<le> cols" and r: "dml_meta r = t" "new_area r nb cols"
  shows "area_inv m t nb cols row k \<Longrightarrow> k \<le> columnsCount t \<Longrightarrow> vs = drop k row \<Longrightarrow>
    \<exists>m'. dml_set_from m r k vs = Inr m' \<and> area_inv m' t nb cols row (columnsCount t) \<and>
         (\<forall>a l. outside_area t nb cols row a l \<longrightarrow> same_on m m' a l)"
proof (induction vs arbitrary: m k)
  case Nil
  then have "k = columnsCount t" using fits by (simp add: row_fits_def)
  with Nil show ?case by simp
next
  case (Cons v vs)
  have len: "length row = columnsCount t" using fits by (simp add: row_fits_def)
  have k: "k < columnsCount t" using Cons.prems len by (metis drop_all le_neq_implies_less list.discI nle_le)
  then have d: "v = row ! k" "vs = drop (Suc k) row" using Cons_nth_drop_Suc [of k row] len k unfolding Cons.prems(3) [symmetric] by simp_all
  obtain m1 where m1: "dml_set m r k v = Inr m1" "area_inv m1 t nb cols row (Suc k)"
    "\<forall>a l. outside_area t nb cols row a l \<longrightarrow> same_on m m1 a l" using dml_set_area [OF fits Cons.prems(1) k sep r] d by auto
  obtain m2 where "dml_set_from m1 r (Suc k) vs = Inr m2" "area_inv m2 t nb cols row (columnsCount t)"
    "\<forall>a l. outside_area t nb cols row a l \<longrightarrow> same_on m1 m2 a l" using Cons.IH [OF m1(2) _ d(2)] k by auto
  with m1 show ?case by (auto, blast intro: same_on_trans)
qed

lemma TEST_zero:
  assumes "i < n"
  shows "\<not> TEST_BITMAP (zero_bytes m b (BITMAP_SIZE n)) b i"
  using BITMAP_SIZE_bound [OF assms] by (simp add: TEST_BITMAP_def zero_bytes_inside)

text \<open>An empty area: the bitmap cleared and the end offset behind the offsets.\<close>

lemma empty_area:
  assumes fits: "row_fits t row" and sep: "nb + BITMAP_SIZE (columnsCount t) \<le> cols"
    and z: "\<And>i. i < columnsCount t \<Longrightarrow> \<not> TEST_BITMAP m nb i"
  shows "area_inv (wr 4 m (var_at (cols + fixed_end t) (tbl_varColumnCount t))
                     (var_at (cols + fixed_end t) (tbl_varColumnCount t + 1) - cols)) t nb cols row 0"
    (is "area_inv ?m _ _ _ _ _")
proof -
  note lay = area_layout(1,2) [OF fits]
  have e: "var_at (cols + fixed_end t) (tbl_varColumnCount t + 1) - cols = var_base t"
    by (simp add: lay var_at_def var_base_def)
  have b: "var_base t < 256 ^ 4" using fits by (simp add: row_fits_def)
  have "same_on m ?m nb (BITMAP_SIZE (columnsCount t))" by (rule same_on_wr) (use sep in \<open>simp add: var_at_def\<close>)
  then have "\<not> TEST_BITMAP ?m nb i" if "i < columnsCount t" for i
    using same_on_TEST [OF _ BITMAP_SIZE_bound [OF that]] z [OF that] by simp
  moreover have "rd 4 ?m (var_at (cols + fixed_size (col_types t)) (var_cols (col_types t))) = var_base t"
    using b unfolding e by (simp add: lay rd_wr_same)
  ultimately show ?thesis by (simp add: area_inv_def Let_def)
qed

lemma wr_1_same [mem_simps]: "wr (Suc 0) m a v a = word_of_nat v"
  by (simp add: wr_def write_bytes_def)

lemma headSize_init: "headSize (record_init m data) data = 38"
  unfolding record_init_def Let_def head_offsets by (simp add: mem_simps)

lemma same_on_wr_after: "same_on m m' a n \<Longrightarrow> a + n \<le> b \<or> b + k \<le> a \<Longrightarrow> same_on m (wr k m' b v) a n"
  using same_on_trans same_on_wr by blast

lemma record_init_same: "a + n \<le> data \<or> data + 38 \<le> a \<Longrightarrow> same_on m (record_init m data) a n"
  unfolding record_init_def Let_def head_offsets by (intro same_on_wr_after same_on_refl) linarith+

text \<open>What \<^const>\<open>initRecord\<close> leaves: the head, the table id and an empty area.\<close>

lemma initRecord_area:
  fixes data :: nat and t :: tableMeta
  assumes fits: "row_fits t row"
  defines "nb \<equiv> data + 46" and "cols \<equiv> data + 46 + BITMAP_SIZE (columnsCount t)"
  obtains m' r where "initRecord m data t type = (m', r)" and "area_inv m' t nb cols row 0"
    and "headSize m' data = 38" and "head_type m' data = RTYPE type" and "rd 8 m' (data + 38) = unat (tbl_id t)"
    and "dml_meta r = t" and "new_area r nb cols" and "dml_data r = data" and "dml_oldColumns r = None"
    and "\<And>a l. a + l \<le> data \<or> cols + var_base t \<le> a \<Longrightarrow> same_on m m' a l"
proof -
  let ?n = "columnsCount t"
  define m1 where "m1 = wr 1 (wr 1 (record_init m data) (data + H_type) (RTYPE type)) (data + H_externSize) 0"
  have h1: "headSize m1 data = 38" using headSize_init [of m data] by (simp add: m1_def head_offsets mem_simps)
  define m2 where "m2 = zero_bytes (wr 8 m1 (data + 38) (unat (tbl_id t))) nb (BITMAP_SIZE ?n)"
  define m3 where "m3 = wr 4 m2 (var_at (cols + fixed_end t) (tbl_varColumnCount t)) (var_at (cols + fixed_end t) (tbl_varColumnCount t + 1) - cols)"
  define r where "r = \<lparr>dml_data = data, dml_tableMetaID = unat (tbl_id t), dml_meta = t, dml_nullBitmap = nb, dml_columns = cols,
    dml_varLengthColumns = cols + fixed_end t, dml_oldColumns = None, dml_oldVarLengthColumns = None, dml_updatedBitmap = None,
    dml_updatedNullBitmap = None\<rparr>"
  have i: "initRecord m data t type = (m3, r)"
    using h1 unfolding initRecord_def m1_def [symmetric] Let_def by (simp add: m2_def m3_def r_def nb_def cols_def add.assoc)
  have inv: "area_inv m3 t nb cols row 0"
    unfolding m3_def by (rule empty_area [OF fits]) (simp_all add: cols_def nb_def m2_def TEST_zero)
  have low: "same_on m2 m3 data 46" unfolding m3_def by (rule same_on_wr) (simp add: var_at_def cols_def)
  have "same_on m1 (wr 8 m1 (data + 38) (unat (tbl_id t))) data 38" by (rule same_on_wr) simp
  then have "same_on m1 m2 data 38" unfolding m2_def by (rule same_on_trans) (rule same_on_zero, simp add: nb_def)
  then have s: "same_on m1 m3 data 38" using same_on_sub [OF low, of data 38] by (simp add: same_on_trans)
  have t: "head_type m1 data = RTYPE type" by (cases type) (simp_all add: m1_def head_offsets mem_simps)
  have "headSize m3 data = 38" "head_type m3 data = RTYPE type"
    using same_on_rd [OF same_on_sub [OF s], of "data + 5" 1] same_on_rd [OF same_on_sub [OF s], of "data + 6" 1] h1 t
    by (simp_all add: head_offsets)
  moreover have "rd 8 m3 (data + 38) = unat (tbl_id t)"
  proof -
    have "rd 8 m3 (data + 38) = rd 8 m2 (data + 38)" by (rule same_on_rd, rule same_on_sub [OF low]) simp_all
    also have "\<dots> = unat (tbl_id t) mod 256 ^ 8" by (simp add: m2_def nb_def mem_simps)
    finally show ?thesis using unat_bound [of "tbl_id t"] by simp
  qed
  moreover have "same_on m m3 a l" if out: "a + l \<le> data \<or> cols + var_base t \<le> a" for a l
  proof -
    have "same_on m m1 a l" unfolding m1_def head_offsets
      by (intro same_on_wr_after record_init_same) (use out in \<open>auto simp: cols_def\<close>)
    moreover have "same_on m1 m2 a l" unfolding m2_def
      using out by (intro same_on_trans [OF same_on_wr same_on_zero]) (auto simp: cols_def nb_def)
    moreover have "same_on m2 m3 a l" unfolding m3_def
      using out area_layout(1,2) [OF fits] by (intro same_on_wr) (auto simp: cols_def var_at_def var_base_def)
    ultimately show ?thesis by (blast intro: same_on_trans)
  qed
  ultimately show ?thesis using that [OF i inv] by (simp add: r_def new_area_def)
qed

text \<open>Reading the area of new values through a loaded record.\<close>

lemma loaded_columns:
  assumes fits: "row_fits t row" and inv: "area_inv m t nb cols row (columnsCount t)"
    and r: "dml_meta r = t" "new_area r nb cols" and i: "i < columnsCount t"
  shows "columnIsNull m r i \<longleftrightarrow> row ! i = None"
    and "row ! i = None \<Longrightarrow> dml_column m r i = None"
    and "row ! i = Some b \<Longrightarrow> \<exists>a. dml_column m r i = Some a \<and> read_bytes m a (length b) = b"
    and "\<not> col_fixed (col_types t ! i) \<Longrightarrow> varColumnSize m r i = word_of_nat (vlen (row ! i))"
proof -
  note r = r(1) r(2) [unfolded new_area_def]
  show "columnIsNull m r i \<longleftrightarrow> row ! i = None" using area_invD(1) [OF inv i] i r by (simp add: columnIsNull_def)
  show "dml_column m r i = None" if "row ! i = None" using area_null [OF inv i that] r by (simp add: dml_column_def)
  show "\<exists>a. dml_column m r i = Some a \<and> read_bytes m a (length b) = b" if "row ! i = Some b"
    using area_column [OF fits inv i r(1) that] r by (simp add: dml_column_def)
  show "varColumnSize m r i = word_of_nat (vlen (row ! i))" if f: "\<not> col_fixed (col_types t ! i)"
  proof -
    have q: "Suc (var_cols (take i (col_types t))) \<le> var_cols (col_types t)" using var_cols_less [of i "col_types t"] i f by simp
    show ?thesis
      using area_invD(1) [OF inv i] i r area_offset [OF fits inv q] area_offset [OF fits inv Suc_leD [OF q]]
        area_layout(4) [OF fits i f] vsum_next [OF fits i f]
      by (cases "row ! i") (simp_all add: varColumnSize_def varColumnSize_in_def)
  qed
qed

text \<open>A finished record with its head: \<^const>\<open>dml_load\<close> finds the area again.\<close>

lemma dml_load_area:
  assumes fits: "row_fits t row" and h: "headSize m data = 38" and cols: "cols = data + 46 + BITMAP_SIZE (columnsCount t)"
  shows "dml_meta (dml_load m data t) = t" and "new_area (dml_load m data t) (data + 46) cols"
    and "dml_tableMetaID (dml_load m data t) = rd 8 m (data + 38)"
  using assms by (simp_all add: dml_load_def Let_def new_area_def)

text \<open>The size of a row in a record, head included.\<close>

definition dml_size :: "tableMeta \<Rightarrow> row \<Rightarrow> nat" where
  "dml_size t row = 46 + BITMAP_SIZE (columnsCount t) + var_base t + vsum (var_vals (col_types t) row)"

text \<open>The state after all columns are set, before \<^const>\<open>finishedSet\<close>.\<close>

lemma written_area:
  fixes data :: nat and t :: tableMeta
  assumes fits: "row_fits t row"
  defines "nb \<equiv> data + 46" and "cols \<equiv> data + 46 + BITMAP_SIZE (columnsCount t)"
  obtains m0 m1 r where "initRecord m data t type = (m0, r)" and "dml_set_from m0 r 0 row = Inr m1"
    and "area_inv m1 t nb cols row (columnsCount t)"
    and "headSize m1 data = 38" and "head_type m1 data = RTYPE type" and "rd 8 m1 (data + 38) = unat (tbl_id t)"
    and "dml_meta r = t" and "new_area r nb cols" and "dml_data r = data" and "dml_oldColumns r = None"
    and "\<And>a l. a + l \<le> data \<or> data + dml_size t row \<le> a \<Longrightarrow> same_on m m1 a l"
proof -
  obtain m0 r where i: "initRecord m data t type = (m0, r)" "area_inv m0 t nb cols row 0"
    and h: "headSize m0 data = 38" "head_type m0 data = RTYPE type" "rd 8 m0 (data + 38) = unat (tbl_id t)"
    and r: "dml_meta r = t" "new_area r nb cols" "dml_data r = data" "dml_oldColumns r = None"
    and f: "\<And>a l. a + l \<le> data \<or> cols + var_base t \<le> a \<Longrightarrow> same_on m m0 a l"
    using initRecord_area [OF fits, of m data type, folded nb_def cols_def] by (metis (no_types, lifting))
  have sep: "nb + BITMAP_SIZE (columnsCount t) \<le> cols" by (simp add: nb_def cols_def)
  obtain m1 where s: "dml_set_from m0 r 0 row = Inr m1" "area_inv m1 t nb cols row (columnsCount t)"
    and out: "\<And>a l. outside_area t nb cols row a l \<Longrightarrow> same_on m0 m1 a l"
    using dml_set_from_area [OF fits sep r(1,2) i(2)] by auto
  have low: "same_on m0 m1 data 46" by (rule out) (simp add: outside_area_def nb_def cols_def)
  have "headSize m1 data = 38" "head_type m1 data = RTYPE type" "rd 8 m1 (data + 38) = unat (tbl_id t)"
    using h same_on_rd [OF same_on_sub [OF low], of "data + 5" 1] same_on_rd [OF same_on_sub [OF low], of "data + 6" 1]
      same_on_rd [OF same_on_sub [OF low], of "data + 38" 8] by (simp_all add: head_offsets)
  moreover have "same_on m m1 a l" if a: "a + l \<le> data \<or> data + dml_size t row \<le> a" for a l
  proof -
    have "same_on m m0 a l" by (rule f) (use a in \<open>auto simp: dml_size_def cols_def\<close>)
    then show ?thesis by (rule same_on_trans) (rule out, use a in \<open>auto simp: outside_area_def nb_def cols_def dml_size_def\<close>)
  qed
  ultimately show ?thesis using that i(1) s r by blast
qed

text \<open>The finished record.\<close>

lemma written_dml:
  fixes data :: nat and t :: tableMeta
  assumes fits: "row_fits t row" and size: "dml_size t row < 2 ^ 32"
  defines "nb \<equiv> data + 46" and "cols \<equiv> data + 46 + BITMAP_SIZE (columnsCount t)"
  obtains m' where "write_dml m data t type row = Inr m'" and "area_inv m' t nb cols row (columnsCount t)"
    and "headSize m' data = 38" and "head_type m' data = RTYPE type" and "rd 8 m' (data + 38) = unat (tbl_id t)"
    and "rd 4 m' (data + H_size) = dml_size t row"
    and "\<And>a. a < data \<or> data + dml_size t row \<le> a \<Longrightarrow> m' a = m a"
proof -
  obtain m0 m1 r where w: "initRecord m data t type = (m0, r)" "dml_set_from m0 r 0 row = Inr m1"
    and inv: "area_inv m1 t nb cols row (columnsCount t)"
    and h: "headSize m1 data = 38" "head_type m1 data = RTYPE type" "rd 8 m1 (data + 38) = unat (tbl_id t)"
    and r: "dml_meta r = t" "new_area r nb cols" "dml_data r = data" "dml_oldColumns r = None"
    and out: "\<And>a l. a + l \<le> data \<or> data + dml_size t row \<le> a \<Longrightarrow> same_on m m1 a l"
    using written_area [OF fits, of m data type, folded nb_def cols_def] by (metis (no_types, lifting))
  have e: "cols + var_end m1 t (cols + fixed_end t) - data = dml_size t row"
    using area_offset [OF fits inv, of "var_cols (col_types t)"] area_layout(2) [OF fits] fits
      var_vals_length [of row "col_types t"] by (simp add: var_end_def cols_def dml_size_def row_fits_def)
  define m' where "m' = wr 4 m1 data (dml_size t row)"
  have fin: "write_dml m data t type row = Inr m'"
    using w r e by (simp add: write_dml_def finishedSet_def m'_def new_area_def head_offsets)
  have keep: "same_on m1 m' a l" if "data + 4 \<le> a" for a l unfolding m'_def by (rule same_on_wr) (use that in simp)
  have inv': "area_inv m' t nb cols row (columnsCount t)"
    by (rule area_inv_frame [OF fits inv]) (simp_all add: keep nb_def cols_def)
  have h': "headSize m' data = 38" "head_type m' data = RTYPE type" "rd 8 m' (data + 38) = unat (tbl_id t)"
    using h same_on_rd [OF keep, of "data + 5" 1] same_on_rd [OF keep, of "data + 6" 1] same_on_rd [OF keep, of "data + 38" 8]
    by (simp_all add: head_offsets)
  have sz: "rd 4 m' (data + H_size) = dml_size t row" using size by (simp add: m'_def head_offsets rd_wr_same)
  have "m' a = m a" if a: "a < data \<or> data + dml_size t row \<le> a" for a
  proof -
    have "a < data \<or> data + 4 \<le> a" using a by (auto simp: dml_size_def)
    then have "m' a = m1 a" by (auto simp: m'_def wr_outside)
    then show ?thesis using out [of a 1] a by (auto simp: same_on_def)
  qed
  then show ?thesis using that [OF fin inv' h' sz] by blast
qed

text \<open>
  C13: A row written into a DML record is read back.  Writing every column in order, NULLs included, and finishing the
  record succeeds; a reader that loads the message then finds the record type, the table id and the message size in the
  head, and for every column the right null flag, the bytes that were written, and the right size of the
  variable-length columns; no byte outside the message changes.
\<close>

theorem dml_roundtrip:
  assumes "row_fits t row" and "dml_size t row < 2 ^ 32"
  shows "\<exists>m'. write_dml m data t type row = Inr m' \<and>
    (let r = dml_load m' data t in
       head_type m' data = RTYPE type \<and> rd 4 m' (data + H_size) = dml_size t row \<and> dml_tableMetaID r = unat (tbl_id t) \<and>
       (\<forall>i < columnsCount t.
          columnIsNull m' r i = (row ! i = None) \<and>
          (case row ! i of None \<Rightarrow> dml_column m' r i = None
           | Some b \<Rightarrow> (\<exists>a. dml_column m' r i = Some a \<and> read_bytes m' a (length b) = b)) \<and>
          (\<not> col_fixed (col_types t ! i) \<longrightarrow> varColumnSize m' r i = word_of_nat (vlen (row ! i)))) \<and>
       (\<forall>a. a < data \<or> data + dml_size t row \<le> a \<longrightarrow> m' a = m a))"
proof -
  define nb where "nb = data + 46"
  define cols where "cols = data + 46 + BITMAP_SIZE (columnsCount t)"
  obtain m' where w: "write_dml m data t type row = Inr m'" and inv: "area_inv m' t nb cols row (columnsCount t)"
    and h: "headSize m' data = 38" "head_type m' data = RTYPE type" "rd 8 m' (data + 38) = unat (tbl_id t)"
    and sz: "rd 4 m' (data + H_size) = dml_size t row" and out: "\<And>a. a < data \<or> data + dml_size t row \<le> a \<Longrightarrow> m' a = m a"
    using written_dml [OF assms, of m data type, folded nb_def cols_def] by (metis (no_types, lifting))
  note ld = dml_load_area [OF assms(1) h(1) cols_def, folded nb_def]
  note cols = loaded_columns [OF assms(1) inv ld(1,2)]
  show ?thesis using w h sz out ld cols by (auto simp: Let_def split: option.splits)
qed

definition record_table :: tableMeta where "record_table = buildColumnOffsetList wide_table"
definition record_row :: row where "record_row = [Some [7], Some [104, 105], None]"

lemma record_table_ok: "layout_ok record_table"
  by (simp add: record_table_def)

lemma record_table_facts:
  "col_types record_table = [T_UINT8, T_STRING, T_INT64]" "columnsCount record_table = 3" "tbl_id record_table = 0"
  by (simp_all add: record_table_def wide_table_def sample_column_def buildColumnOffsetList_def tableMeta_new_def split: prod.splits)

lemma all_less_3: "(\<forall>i < (3 :: nat). P i) \<longleftrightarrow> P 0 \<and> P 1 \<and> P 2"
  by (auto simp: less_Suc_eq numeral_3_eq_3 numeral_2_eq_2)

lemma record_row_fits: "row_fits record_table record_row" "dml_size record_table record_row = 66"
  unfolding row_fits_def dml_size_def var_base_def record_table_facts all_less_3
  by (simp_all add: record_table_ok record_row_def columnInfos_def BITMAP_SIZE_def)

theorem dml_roundtrip_witness:
  "\<exists>m'. write_dml (\<lambda>_. 0) 100 record_table R_INSERT record_row = Inr m' \<and> rd 4 m' 100 = 66 \<and>
        columnIsNull m' (dml_load m' 100 record_table) 2 \<and>
        (\<exists>a. dml_column m' (dml_load m' 100 record_table) 1 = Some a \<and> read_bytes m' a 2 = [104, 105])"
proof -
  obtain m' where w: "write_dml (\<lambda>_. 0) 100 record_table R_INSERT record_row = Inr m'"
    and s: "rd 4 m' 100 = 66"
    and c: "\<And>i. i < 3 \<Longrightarrow> columnIsNull m' (dml_load m' 100 record_table) i = (record_row ! i = None) \<and>
          (case record_row ! i of None \<Rightarrow> dml_column m' (dml_load m' 100 record_table) i = None
           | Some b \<Rightarrow> (\<exists>a. dml_column m' (dml_load m' 100 record_table) i = Some a \<and> read_bytes m' a (length b) = b))"
    using dml_roundtrip [OF record_row_fits(1), of "\<lambda>_. 0" 100 R_INSERT] record_row_fits(2)
    by (auto simp: Let_def record_table_facts head_offsets)
  show ?thesis using w s c [of 1] c [of 2] by (simp add: record_row_def numeral_2_eq_2)
qed

section \<open>Old values of an update\<close>

text \<open>The area of the old values at \<open>un\<close> and \<open>oc\<close>, with the bitmap at \<open>ub\<close> of the changed columns in front of it.\<close>

definition old_inv :: "mem \<Rightarrow> tableMeta \<Rightarrow> nat \<Rightarrow> nat \<Rightarrow> nat \<Rightarrow> row \<Rightarrow> nat \<Rightarrow> bool" where
  "old_inv m t ub un oc old k \<longleftrightarrow> area_inv m t un oc old k \<and> (\<forall>i < columnsCount t. TEST_BITMAP m ub i \<longleftrightarrow> i < k \<and> old ! i \<noteq> None)"

definition old_area :: "DMLRecord \<Rightarrow> nat \<Rightarrow> nat \<Rightarrow> nat \<Rightarrow> bool" where
  "old_area r ub un oc \<longleftrightarrow> dml_updatedBitmap r = Some ub \<and> dml_updatedNullBitmap r = Some un \<and> dml_oldColumns r = Some oc \<and>
     dml_oldVarLengthColumns r = Some (oc + fixed_end (dml_meta r))"

lemma old_put:
  assumes fits: "row_fits t old" and k: "k < columnsCount t" and v: "old ! k = Some b"
    and sep: "ub + BITMAP_SIZE (columnsCount t) \<le> un" "un + BITMAP_SIZE (columnsCount t) \<le> oc"
    and inv: "old_inv m t ub un oc old k" and m1: "area_inv m1 t un oc old (Suc k)"
    and out: "\<And>a l. outside_area t un oc old a l \<Longrightarrow> same_on m m1 a l"
  shows "old_inv (SET_BITMAP m1 ub k) t ub un oc old (Suc k)"
    and "a + l \<le> ub \<or> oc + var_base t + vsum (var_vals (col_types t) old) \<le> a \<Longrightarrow> same_on m (SET_BITMAP m1 ub k) a l"
proof -
  note bound = BITMAP_SIZE_bound [OF k]
  have up: "same_on m1 (SET_BITMAP m1 ub k) a l" if "a + l \<le> ub \<or> ub + BITMAP_SIZE (columnsCount t) \<le> a" for a l
    by (rule same_on_SET) (use that bound in linarith)
  have inv1: "area_inv (SET_BITMAP m1 ub k) t un oc old (Suc k)"
    by (rule area_inv_frame [OF fits m1]) (use k sep up in simp_all)
  have same: "same_on m m1 ub (BITMAP_SIZE (columnsCount t))" by (rule out) (use sep in \<open>simp add: outside_area_def\<close>)
  have "TEST_BITMAP (SET_BITMAP m1 ub k) ub i \<longleftrightarrow> i < Suc k \<and> old ! i \<noteq> None" if i: "i < columnsCount t" for i
    using same_on_TEST [OF same BITMAP_SIZE_bound [OF i]] inv i v by (auto simp: old_inv_def less_Suc_eq)
  with inv1 show "old_inv (SET_BITMAP m1 ub k) t ub un oc old (Suc k)" by (simp add: old_inv_def)
  show "same_on m (SET_BITMAP m1 ub k) a l" if a: "a + l \<le> ub \<or> oc + var_base t + vsum (var_vals (col_types t) old) \<le> a"
  proof -
    have "same_on m m1 a l" by (rule out) (use a sep in \<open>auto simp: outside_area_def\<close>)
    then show ?thesis using up by (rule same_on_trans) (use a sep in linarith)
  qed
qed

lemma TEST_null:
  assumes "k < columnsCount t" and "i < columnsCount t" and "b + BITMAP_SIZE (columnsCount t) \<le> cols"
  shows "TEST_BITMAP (null_fixed m t b cols k) b i \<longleftrightarrow> k \<noteq> i \<and> TEST_BITMAP m b i"
    and "TEST_BITMAP (null_var m t b (cols + fixed_end t) k) b i \<longleftrightarrow> k \<noteq> i \<and> TEST_BITMAP m b i"
proof -
  note bound = BITMAP_SIZE_bound [OF assms(2)]
  have 1: "same_on (UNSET_BITMAP m b k) (null_fixed m t b cols k) b (BITMAP_SIZE (columnsCount t))"
    unfolding null_fixed_def by (rule same_on_zero) (use assms in simp)
  have 2: "same_on (UNSET_BITMAP m b k) (null_var m t b (cols + fixed_end t) k) b (BITMAP_SIZE (columnsCount t))"
    unfolding null_var_def Let_def by (rule same_on_wr) (use assms in \<open>simp add: var_at_def\<close>)
  show "TEST_BITMAP (null_fixed m t b cols k) b i \<longleftrightarrow> k \<noteq> i \<and> TEST_BITMAP m b i"
    and "TEST_BITMAP (null_var m t b (cols + fixed_end t) k) b i \<longleftrightarrow> k \<noteq> i \<and> TEST_BITMAP m b i"
    using same_on_TEST [OF 1 bound] same_on_TEST [OF 2 bound] by simp_all
qed

lemma old_null:
  assumes fits: "row_fits t old" and k: "k < columnsCount t" and v: "old ! k = None"
    and sep: "ub + BITMAP_SIZE (columnsCount t) \<le> un" "un + BITMAP_SIZE (columnsCount t) \<le> oc"
    and inv: "old_inv m t ub un oc old k"
    and m': "m' = (if col_fixed (col_types t ! k) then null_fixed m t ub oc k else null_var m t ub (oc + fixed_end t) k)"
  shows "old_inv m' t ub un oc old (Suc k)"
    and "a + l \<le> ub \<or> oc + var_base t + vsum (var_vals (col_types t) old) \<le> a \<Longrightarrow> same_on m m' a l"
proof -
  have c: "clears t un ub" using sep by (simp add: clears_def)
  have inv0: "area_inv m t un oc old k" using inv by (simp add: old_inv_def)
  note steps = null_fixed_area [OF fits inv0 k _ sep(2) v c] null_var_area [OF fits inv0 k _ sep(2) v c]
  have sep': "ub + BITMAP_SIZE (columnsCount t) \<le> oc" using sep by simp
  have "TEST_BITMAP m' ub i \<longleftrightarrow> i < Suc k \<and> old ! i \<noteq> None" if i: "i < columnsCount t" for i
    using TEST_null [OF k i sep', of m] inv i v unfolding m' old_inv_def by (auto simp: less_Suc_eq)
  moreover have "area_inv m' t un oc old (Suc k)" using steps(1,3) unfolding m' by simp
  ultimately show "old_inv m' t ub un oc old (Suc k)" by (simp add: old_inv_def)
  show "same_on m m' a l" if a: "a + l \<le> ub \<or> oc + var_base t + vsum (var_vals (col_types t) old) \<le> a"
  proof -
    have "outside_area t un oc old a l" "a + l \<le> ub \<or> ub + BITMAP_SIZE (columnsCount t) \<le> a"
      using a sep by (auto simp: outside_area_def)
    then show ?thesis using steps(2,4) unfolding m' by simp
  qed
qed

lemma dml_set_old_area:
  assumes fits: "row_fits t old" and inv: "old_inv m t ub un oc old k" and k: "k < columnsCount t"
    and sep: "ub + BITMAP_SIZE (columnsCount t) \<le> un" "un + BITMAP_SIZE (columnsCount t) \<le> oc"
    and r: "dml_meta r = t" "old_area r ub un oc"
  shows "\<exists>m'. dml_set_old m r k (old ! k) = Inr m' \<and> old_inv m' t ub un oc old (Suc k) \<and>
              (\<forall>a l. a + l \<le> ub \<or> oc + var_base t + vsum (var_vals (col_types t) old) \<le> a \<longrightarrow> same_on m m' a l)"
proof -
  have ty: "column_type t k = col_types t ! k" by (rule column_type_nth [OF k])
  have inv0: "area_inv m t un oc old k" using inv by (simp add: old_inv_def)
  note r = r(1) r(2) [unfolded old_area_def]
  show ?thesis
  proof (cases "old ! k")
    case None
    have "dml_set_old m r k None = Inr (if col_fixed (col_types t ! k) then null_fixed m t ub oc k else null_var m t ub (oc + fixed_end t) k)"
      using r by (simp add: dml_set_old_def setColumnNotUpdate_def deref_def null_fixed_def null_var_def Let_def ty sbind_def)
    with old_null [OF fits k None sep inv refl] None show ?thesis by auto
  next
    case (Some b)
    define m1 where "m1 = (if col_fixed (col_types t ! k) then put_fixed m t un oc k b else put_var m t un oc (oc + fixed_end t) k b)"
    have "dml_set_old m r k (Some b) = Inr (SET_BITMAP m1 ub k)"
      using r by (simp add: dml_set_old_def setFixedUpdatedColumn_def setVardUpdatedColumn_def deref_def ty sbind_def m1_def)
    moreover have "area_inv m1 t un oc old (Suc k)" "\<And>a l. outside_area t un oc old a l \<Longrightarrow> same_on m m1 a l"
      using put_fixed_area [OF fits inv0 k _ sep(2) Some] put_var_area [OF fits inv0 k _ sep(2) Some] unfolding m1_def by auto
    ultimately show ?thesis using old_put [OF fits k Some sep inv] Some by auto
  qed
qed

lemma dml_set_old_from_area:
  assumes fits: "row_fits t old" and sep: "ub + BITMAP_SIZE (columnsCount t) \<le> un" "un + BITMAP_SIZE (columnsCount t) \<le> oc"
    and r: "dml_meta r = t" "old_area r ub un oc"
  shows "old_inv m t ub un oc old k \<Longrightarrow> k \<le> columnsCount t \<Longrightarrow> vs = drop k old \<Longrightarrow>
    \<exists>m'. dml_set_old_from m r k vs = Inr m' \<and> old_inv m' t ub un oc old (columnsCount t) \<and>
         (\<forall>a l. a + l \<le> ub \<or> oc + var_base t + vsum (var_vals (col_types t) old) \<le> a \<longrightarrow> same_on m m' a l)"
proof (induction vs arbitrary: m k)
  case Nil
  then have "k = columnsCount t" using fits by (simp add: row_fits_def)
  with Nil show ?case by simp
next
  case (Cons v vs)
  have len: "length old = columnsCount t" using fits by (simp add: row_fits_def)
  have k: "k < columnsCount t" using Cons.prems len by (metis drop_all le_neq_implies_less list.discI nle_le)
  then have d: "v = old ! k" "vs = drop (Suc k) old" using Cons_nth_drop_Suc [of k old] len k unfolding Cons.prems(3) [symmetric] by simp_all
  obtain m1 where m1: "dml_set_old m r k v = Inr m1" "old_inv m1 t ub un oc old (Suc k)"
    "\<forall>a l. a + l \<le> ub \<or> oc + var_base t + vsum (var_vals (col_types t) old) \<le> a \<longrightarrow> same_on m m1 a l"
    using dml_set_old_area [OF fits Cons.prems(1) k sep r] d by auto
  obtain m2 where "dml_set_old_from m1 r (Suc k) vs = Inr m2" "old_inv m2 t ub un oc old (columnsCount t)"
    "\<forall>a l. a + l \<le> ub \<or> oc + var_base t + vsum (var_vals (col_types t) old) \<le> a \<longrightarrow> same_on m1 m2 a l"
    using Cons.IH [OF m1(2) _ d(2)] k by auto
  with m1 show ?case by (auto, blast intro: same_on_trans, blast intro: same_on_trans)
qed

text \<open>\<^const>\<open>startSetUpdateOldValue\<close> appends an empty area of old values.\<close>

lemma start_old_area:
  assumes fits: "row_fits t row" "row_fits t old" and inv: "area_inv m t nb cols row (columnsCount t)"
    and r: "dml_meta r = t" "new_area r nb cols"
    and ub: "ub = cols + var_base t + vsum (var_vals (col_types t) row)"
    and un: "un = ub + BITMAP_SIZE (columnsCount t)" and oc: "oc = un + BITMAP_SIZE (columnsCount t)"
  obtains m' r' where "startSetUpdateOldValue m r = (m', r')" and "old_inv m' t ub un oc old 0"
    and "dml_meta r' = t" and "new_area r' nb cols" and "old_area r' ub un oc" and "dml_data r' = dml_data r"
    and "\<And>a l. a + l \<le> ub \<Longrightarrow> same_on m m' a l"
proof -
  let ?bs = "BITMAP_SIZE (columnsCount t)"
  note r' = r(1) r(2) [unfolded new_area_def]
  have len: "length row = length (col_types t)" using fits by (simp add: row_fits_def)
  have e: "cols + var_end m t (cols + fixed_end t) = ub"
    using area_offset [OF fits(1) inv, of "var_cols (col_types t)"] area_layout(2) [OF fits(1)]
      var_vals_length [OF len] by (simp add: var_end_def ub)
  define m1 where "m1 = zero_bytes m ub (?bs * 2)"
  define m2 where "m2 = wr 4 m1 (var_at (oc + fixed_end t) (tbl_varColumnCount t)) (var_at (oc + fixed_end t) (tbl_varColumnCount t + 1) - oc)"
  define s where "s = r\<lparr>dml_updatedBitmap := Some ub, dml_updatedNullBitmap := Some un, dml_oldColumns := Some oc, dml_oldVarLengthColumns := Some (oc + fixed_end t)\<rparr>"
  have st: "startSetUpdateOldValue m r = (m2, s)"
    using e r' by (simp add: startSetUpdateOldValue_def Let_def m1_def m2_def s_def un oc)
  have z: "\<not> TEST_BITMAP m1 ub i" "\<not> TEST_BITMAP m1 un i" if "i < columnsCount t" for i
    using BITMAP_SIZE_bound [OF that] by (simp_all add: TEST_BITMAP_def m1_def zero_bytes_inside un)
  have a: "area_inv m2 t un oc old 0" unfolding m2_def by (rule empty_area [OF fits(2)]) (use z in \<open>simp_all add: oc\<close>)
  have "same_on m1 m2 ub ?bs" unfolding m2_def by (rule same_on_wr) (simp add: var_at_def un oc)
  then have "\<not> TEST_BITMAP m2 ub i" if "i < columnsCount t" for i
    using same_on_TEST [OF _ BITMAP_SIZE_bound [OF that]] z(1) [OF that] by simp
  with a have inv': "old_inv m2 t ub un oc old 0" by (simp add: old_inv_def)
  have "same_on m m2 a l" if "a + l \<le> ub" for a l
    unfolding m2_def m1_def by (rule same_on_wr_after, rule same_on_zero) (use that in \<open>simp_all add: var_at_def un oc\<close>)
  then show ?thesis using that [OF st inv'] r by (simp add: s_def new_area_def old_area_def)
qed

text \<open>A finished update, as a reader finds it.\<close>

lemma update_areas:
  fixes data :: nat and t :: tableMeta and row :: row
  assumes fits: "row_fits t row" "row_fits t old" and type: "type = R_UPDATE \<or> type = R_REPLACE"
  defines "nb \<equiv> data + 46" and "cols \<equiv> data + 46 + BITMAP_SIZE (columnsCount t)"
  defines "ub \<equiv> cols + var_base t + vsum (var_vals (col_types t) row)"
  defines "un \<equiv> ub + BITMAP_SIZE (columnsCount t)"
  defines "oc \<equiv> un + BITMAP_SIZE (columnsCount t)"
  obtains m' where "write_update m data t type row old = Inr m'"
    and "area_inv m' t nb cols row (columnsCount t)" and "old_inv m' t ub un oc old (columnsCount t)"
    and "dml_meta (dml_load m' data t) = t" and "new_area (dml_load m' data t) nb cols" and "old_area (dml_load m' data t) ub un oc"
proof -
  obtain m0 m1 r where w: "initRecord m data t type = (m0, r)" "dml_set_from m0 r 0 row = Inr m1"
    and inv: "area_inv m1 t nb cols row (columnsCount t)"
    and h: "headSize m1 data = 38" "head_type m1 data = RTYPE type"
    and r: "dml_meta r = t" "new_area r nb cols" "dml_data r = data"
    using written_area [OF fits(1), of m data type, folded nb_def cols_def] by (metis (no_types, lifting))
  obtain m2 s where s: "startSetUpdateOldValue m1 r = (m2, s)" "old_inv m2 t ub un oc old 0"
    "dml_meta s = t" "new_area s nb cols" "old_area s ub un oc" "dml_data s = data"
    and low2: "\<And>a l. a + l \<le> ub \<Longrightarrow> same_on m1 m2 a l"
    using start_old_area [OF fits inv r(1,2), of ub un oc] r(3) by (metis (no_types, lifting) ub_def un_def oc_def)
  obtain m3 where f: "dml_set_old_from m2 s 0 old = Inr m3" "old_inv m3 t ub un oc old (columnsCount t)"
    and low3: "\<And>a l. a + l \<le> ub \<Longrightarrow> same_on m2 m3 a l"
    using dml_set_old_from_area [OF fits(2) _ _ s(3,5,2)] by (auto simp: un_def oc_def)
  define m' where "m' = finishedSet m3 s"
  have fin: "write_update m data t type row old = Inr m'" using w s(1) f(1) by (simp add: write_update_def m'_def)
  have keep: "same_on m3 m' a l" if "data + 4 \<le> a" for a l
    unfolding m'_def finishedSet_def by (rule same_on_wr) (use that s(6) in \<open>simp add: head_offsets\<close>)
  have low: "same_on m1 m' a l" if "data + 4 \<le> a" "a + l \<le> ub" for a l
    using low2 [OF that(2)] low3 [OF that(2)] keep [OF that(1)] by (blast intro: same_on_trans)
  have inv': "area_inv m' t nb cols row (columnsCount t)"
    by (rule area_inv_frame [OF fits(1) inv]) (auto intro!: low simp: nb_def cols_def ub_def)
  have "area_inv m' t un oc old (columnsCount t)"
    by (rule area_inv_frame [OF fits(2)]) (use f(2) in \<open>auto intro!: keep simp: old_inv_def un_def oc_def ub_def cols_def\<close>)
  moreover have "TEST_BITMAP m' ub i = TEST_BITMAP m3 ub i" if "i < columnsCount t" for i
    by (rule same_on_TEST [OF keep BITMAP_SIZE_bound [OF that]]) (simp add: ub_def cols_def)
  ultimately have old': "old_inv m' t ub un oc old (columnsCount t)" using f(2) by (simp add: old_inv_def)
  have h': "headSize m' data = 38" "head_type m' data = RTYPE type"
    using h same_on_rd [OF low, of "data + 5" 1] same_on_rd [OF low, of "data + 6" 1]
    by (simp_all add: head_offsets ub_def cols_def)
  have len: "length row = length (col_types t)" using fits by (simp add: row_fits_def)
  have "cols + var_end m' t (cols + fixed_end t) = ub"
    using area_offset [OF fits(1) inv', of "var_cols (col_types t)"] area_layout(2) [OF fits(1)] var_vals_length [OF len]
    by (simp add: var_end_def ub_def)
  moreover have "has_old_values m' data" using h'(2) type by (auto simp: has_old_values_def)
  ultimately have "old_area (dml_load m' data t) ub un oc"
    using h'(1) by (simp add: dml_load_def Let_def old_area_def un_def oc_def cols_def add.assoc)
  with that [OF fin inv' old'] dml_load_area [OF fits(1) h'(1) cols_def [THEN meta_eq_to_obj_eq], folded nb_def] show ?thesis by blast
qed

text \<open>
  C14: The old values of an update whose changed columns had a value before are read back.  After the new row, the old values of the changed
  columns, none of them NULL, and the unchanged columns have been set in order, a reader finds for every column the new value, and as the
  bytes of its old value the stored ones where the column was changed and the new one where it was not; a key is reported as updated exactly
  when one of its columns was changed.
\<close>

theorem dml_update_roundtrip:
  assumes "row_fits t row" and "row_fits t old" and "type = R_UPDATE \<or> type = R_REPLACE"
  shows "\<exists>m'. write_update m data t type row old = Inr m' \<and>
    (let r = dml_load m' data t in
       (\<forall>i < columnsCount t.
          oldColumnIsNull m' r i = Inr (old ! i = None \<and> row ! i = None) \<and>
          (case row ! i of None \<Rightarrow> dml_column m' r i = None
           | Some b \<Rightarrow> (\<exists>a. dml_column m' r i = Some a \<and> read_bytes m' a (length b) = b)) \<and>
          (case old ! i of None \<Rightarrow> oldColumnOfUpdateType m' r i = Inr (dml_column m' r i)
           | Some b \<Rightarrow> (\<exists>a. oldColumnOfUpdateType m' r i = Inr (Some a) \<and> read_bytes m' a (length b) = b))) \<and>
       (\<forall>key. (\<forall>c \<in> set (key_columns key). unat c < columnsCount t) \<longrightarrow>
          isKeyUpdated m' r key = Inr (\<exists>c \<in> set (key_columns key). old ! unat c \<noteq> None)))"
proof -
  obtain m' nb cols ub un oc where w: "write_update m data t type row old = Inr m'"
    and new: "area_inv m' t nb cols row (columnsCount t)" and old: "old_inv m' t ub un oc old (columnsCount t)"
    and r: "dml_meta (dml_load m' data t) = t" "new_area (dml_load m' data t) nb cols" "old_area (dml_load m' data t) ub un oc"
    using update_areas [OF assms, of m data] by metis
  let ?r = "dml_load m' data t"
  note oa = r(3) [unfolded old_area_def r(1)]
  have inv: "area_inv m' t un oc old (columnsCount t)"
    and ub: "\<And>i. i < columnsCount t \<Longrightarrow> TEST_BITMAP m' ub i \<longleftrightarrow> old ! i \<noteq> None"
    using old by (simp_all add: old_inv_def)
  have "oldColumnIsNull m' ?r i = Inr (old ! i = None \<and> row ! i = None)" if i: "i < columnsCount t" for i
    using oa ub [OF i] area_invD(1) [OF inv i] loaded_columns(1) [OF assms(1) new r(1,2) i] i
    by (auto simp: oldColumnIsNull_def columnIsNull_def deref_def sbind_def)
  moreover have "case old ! i of None \<Rightarrow> oldColumnOfUpdateType m' ?r i = Inr (dml_column m' ?r i)
      | Some b \<Rightarrow> (\<exists>a. oldColumnOfUpdateType m' ?r i = Inr (Some a) \<and> read_bytes m' a (length b) = b)" if i: "i < columnsCount t" for i
    using oa ub [OF i] area_column [OF assms(2) inv i r(1)]
    by (auto simp: oldColumnOfUpdateType_def deref_def sbind_def split: option.splits)
  moreover have "isKeyUpdated m' ?r key = Inr (\<exists>c \<in> set (key_columns key). old ! unat c \<noteq> None)"
    if "\<forall>c \<in> set (key_columns key). unat c < columnsCount t" for key
    using oa ub that by (auto simp: isKeyUpdated_def deref_def sbind_def list_ex_iff)
  ultimately show ?thesis using w loaded_columns(2,3) [OF assms(1) new r(1,2)] by (auto simp: Let_def split: option.splits)
qed

definition record_old :: row where "record_old = [None, Some [97], None]"

lemma record_old_fits: "row_fits record_table record_old"
  unfolding row_fits_def var_base_def record_table_facts all_less_3
  by (simp add: record_table_ok record_old_def columnInfos_def)

theorem dml_update_roundtrip_witness:
  "\<exists>m' a. write_update (\<lambda>_. 0) 100 record_table R_UPDATE record_row record_old = Inr m' \<and>
          oldColumnOfUpdateType m' (dml_load m' 100 record_table) 1 = Inr (Some a) \<and> read_bytes m' a 1 = [97]"
proof -
  have "\<exists>m'. write_update (\<lambda>_. 0) 100 record_table R_UPDATE record_row record_old = Inr m' \<and>
    (case record_old ! 1 of None \<Rightarrow> True
     | Some b \<Rightarrow> (\<exists>a. oldColumnOfUpdateType m' (dml_load m' 100 record_table) 1 = Inr (Some a) \<and> read_bytes m' a (length b) = b))"
    using dml_update_roundtrip [OF record_row_fits(1) record_old_fits, of R_UPDATE "\<lambda>_. 0" 100]
    by (auto simp: Let_def record_table_facts all_less_3 split: option.splits)
  then show ?thesis by (simp add: record_old_def)
qed

lemma unat_u32: "unat (w :: u32) < 2 ^ 32"
  using unat_bound [of w] by simp

lemma u32_of_nat_inj:
  assumes "a < 2 ^ 32" and "c < 2 ^ 32"
  shows "(word_of_nat a :: u32) = word_of_nat c \<longleftrightarrow> a = c"
proof
  assume "(word_of_nat a :: u32) = word_of_nat c"
  then have "unat (word_of_nat a :: u32) = unat (word_of_nat c :: u32)" by (rule arg_cong)
  then show "a = c" using assms by (simp add: unat_of_nat)
qed simp

lemma u32_unat_eq: "n < 2 ^ 32 \<Longrightarrow> unat (w :: u32) = n \<longleftrightarrow> w = word_of_nat n"
  using u32_of_nat_inj [of "unat w" n] unat_u32 [of w] by auto

text \<open>
  \<^verbatim>\<open>oldVarColumnSizeOfUpdateType\<close> is right only when the variable-length columns in front of the column have the
  same total length in the old and in the new row, because \<^verbatim>\<open>_varColumnSize\<close> subtracts the start offset of the new value
  from the end offset of the old one.
\<close>

theorem oldVarColumnSize_right_iff:
  assumes "row_fits t row" and "row_fits t old" and "type = R_UPDATE \<or> type = R_REPLACE"
    and "i < columnsCount t" and "\<not> col_fixed (col_types t ! i)" and "old ! i = Some b"
  shows "\<exists>m' s. write_update m data t type row old = Inr m' \<and> oldVarColumnSizeOfUpdateType m' (dml_load m' data t) i = Inr s \<and>
    (unat s = length b \<longleftrightarrow>
       vsum (take (var_cols (take i (col_types t))) (var_vals (col_types t) old)) =
       vsum (take (var_cols (take i (col_types t))) (var_vals (col_types t) row)))"
proof -
  obtain m' nb cols ub un oc where w: "write_update m data t type row old = Inr m'"
    and new: "area_inv m' t nb cols row (columnsCount t)" and old: "old_inv m' t ub un oc old (columnsCount t)"
    and r: "dml_meta (dml_load m' data t) = t" "new_area (dml_load m' data t) nb cols" "old_area (dml_load m' data t) ub un oc"
    using update_areas [OF assms(1-3), of m data] by metis
  note na = r(2) [unfolded new_area_def r(1)] and oa = r(3) [unfolded old_area_def r(1)]
  note fits = assms(1,2) and i = assms(4,5)
  define q where "q = var_cols (take i (col_types t))"
  define x where "x = vsum (take q (var_vals (col_types t) old))"
  define y where "y = vsum (take q (var_vals (col_types t) row))"
  have inv: "area_inv m' t un oc old (columnsCount t)" using old by (simp add: old_inv_def)
  have q: "Suc q \<le> var_cols (col_types t)" using var_cols_less [of i "col_types t"] i by (simp add: q_def)
  have "rd 4 m' (var_at (oc + fixed_end t) (Suc q)) = var_base t + (x + length b)"
    using area_offset [OF fits(2) inv q] vsum_next [OF fits(2) i] assms(6) by (simp add: x_def q_def)
  moreover have "rd 4 m' (var_at (cols + fixed_end t) q) = var_base t + y" using area_offset [OF fits(1) new Suc_leD [OF q]] by (simp add: y_def)
  moreover have "TEST_BITMAP m' ub i" "TEST_BITMAP m' un i"
    using old area_invD(1) [OF inv i(1)] i assms(6) by (simp_all add: old_inv_def)
  ultimately have s: "oldVarColumnSizeOfUpdateType m' (dml_load m' data t) i = Inr (word_of_nat (x + length b) - word_of_nat y)"
    using na oa r(1) area_layout(4) [OF fits(1) i]
    by (simp add: oldVarColumnSizeOfUpdateType_def varColumnSize_in_def deref_def sbind_def q_def)
  have "x + length b < 2 ^ 32" "y < 2 ^ 32"
    using area_room(1) [OF fits(2) i] vsum_take_le [of q "var_vals (col_types t) row"] fits assms(6)
    by (simp_all add: row_fits_def x_def y_def q_def)
  then have xyb: "x < 2 ^ 32" "y < 2 ^ 32" "length b < 2 ^ 32" by simp_all
  have "unat (word_of_nat (x + length b) - word_of_nat y :: u32) = length b \<longleftrightarrow>
        (word_of_nat (x + length b) - word_of_nat y :: u32) = word_of_nat (length b)"
    by (rule u32_unat_eq [OF xyb(3)])
  also have "\<dots> \<longleftrightarrow> (word_of_nat x :: u32) = word_of_nat y" by (simp add: diff_eq_eq)
  also have "\<dots> \<longleftrightarrow> x = y" using xyb by (intro u32_of_nat_inj)
  finally show ?thesis using w s by (simp add: x_def y_def q_def)
qed

definition strings_table :: tableMeta where
  "strings_table = buildColumnOffsetList ((tableMeta_new True)\<lparr>tbl_columns := map (sample_column []) [T_STRING, T_STRING]\<rparr>)"

lemma strings_table_facts:
  "layout_ok strings_table" "col_types strings_table = [T_STRING, T_STRING]" "columnsCount strings_table = 2"
proof -
  show "layout_ok strings_table" by (simp add: strings_table_def)
qed (simp_all add: strings_table_def sample_column_def buildColumnOffsetList_def tableMeta_new_def split: prod.splits)

lemma strings_rows_fit:
  "row_fits strings_table [Some [1, 2], Some [3]]" "row_fits strings_table [Some [1], Some [3]]"
  unfolding row_fits_def var_base_def strings_table_facts
  by (simp_all add: strings_table_facts(1) columnInfos_def less_2_cases_iff)

theorem oldVarColumnSize_right_iff_witness:
  "\<exists>m' s. write_update (\<lambda>_. 0) 100 strings_table R_UPDATE [Some [1, 2], Some [3]] [Some [1], Some [3]] = Inr m' \<and>
          oldVarColumnSizeOfUpdateType m' (dml_load m' 100 strings_table) 1 = Inr s \<and> unat s \<noteq> 1"
  using oldVarColumnSize_right_iff [OF strings_rows_fit, of R_UPDATE 1 "[3]" "\<lambda>_. 0" 100]
  unfolding strings_table_facts by (simp add: columnInfos_def)

text \<open>
  An old value that was NULL is lost.  \<^verbatim>\<open>setUpdatedFixedColumnNull\<close> and \<^verbatim>\<open>setUpdatedVarColumnNull\<close> clear the bit of the
  column in the null bitmap and never set the bit that marks the column as changed, so after them
  \<^verbatim>\<open>oldColumnOfUpdateType\<close> answers with the new value.
\<close>

theorem old_null_reads_new:
  assumes "dml_meta r = t" and "old_area r ub un oc" and "i < columnsCount t"
    and "ub + BITMAP_SIZE (columnsCount t) \<le> un" and "un + BITMAP_SIZE (columnsCount t) \<le> oc" and "\<not> TEST_BITMAP m ub i"
  shows "\<exists>m'. (if col_fixed (col_types t ! i) then setUpdatedFixedColumnNull m r i else setUpdatedVarColumnNull m r i) = Inr m' \<and>
              oldColumnOfUpdateType m' r i = Inr (dml_column m' r i)"
proof -
  note oa = assms(2) [unfolded old_area_def assms(1)]
  note bound = BITMAP_SIZE_bound [OF assms(3)]
  have u: "same_on m (UNSET_BITMAP m un i) ub (BITMAP_SIZE (columnsCount t))" by (rule same_on_UNSET) (use assms in simp)
  have "same_on m (null_fixed m t un oc i) ub (BITMAP_SIZE (columnsCount t))" unfolding null_fixed_def
    by (rule same_on_trans [OF u], rule same_on_zero) (use assms in simp)
  then have f: "\<not> TEST_BITMAP (null_fixed m t un oc i) ub i" using same_on_TEST [OF _ bound] assms(6) by blast
  have "same_on m (wr 4 (UNSET_BITMAP m un i) (var_at (oc + fixed_end t) q) v) ub (BITMAP_SIZE (columnsCount t))" for q v
    by (rule same_on_trans [OF u], rule same_on_wr) (use assms in \<open>simp add: var_at_def\<close>)
  then have v: "\<not> TEST_BITMAP (wr 4 (UNSET_BITMAP m un i) (var_at (oc + fixed_end t) q) v) ub i" for q v
    using same_on_TEST [OF _ bound] assms(6) by blast
  show ?thesis
    using oa assms(1) f v
    by (simp add: setUpdatedFixedColumnNull_def setUpdatedVarColumnNull_def oldColumnOfUpdateType_def deref_def sbind_def Let_def)
qed

theorem old_null_reads_new_witness:
  "\<exists>m'. setUpdatedFixedColumnNull (\<lambda>_. 0) ((dml_load (\<lambda>_. 0) 0 record_table)\<lparr>dml_updatedBitmap := Some 200, dml_updatedNullBitmap := Some 201,
            dml_oldColumns := Some 202, dml_oldVarLengthColumns := Some (202 + fixed_end record_table)\<rparr>) 0 = Inr m' \<and>
        oldColumnOfUpdateType m' ((dml_load (\<lambda>_. 0) 0 record_table)\<lparr>dml_updatedBitmap := Some 200, dml_updatedNullBitmap := Some 201,
            dml_oldColumns := Some 202, dml_oldVarLengthColumns := Some (202 + fixed_end record_table)\<rparr>) 0 =
        Inr (dml_column m' ((dml_load (\<lambda>_. 0) 0 record_table)\<lparr>dml_updatedBitmap := Some 200, dml_updatedNullBitmap := Some 201,
            dml_oldColumns := Some 202, dml_oldVarLengthColumns := Some (202 + fixed_end record_table)\<rparr>) 0)"
proof -
  let ?r = "(dml_load (\<lambda>_. 0) 0 record_table)\<lparr>dml_updatedBitmap := Some 200, dml_updatedNullBitmap := Some 201,
            dml_oldColumns := Some 202, dml_oldVarLengthColumns := Some (202 + fixed_end record_table)\<rparr>"
  have m: "dml_meta ?r = record_table" by (simp add: dml_load_def Let_def)
  then have a: "old_area ?r 200 201 202" by (simp add: old_area_def)
  show ?thesis
    using old_null_reads_new [OF m a, of 0 "\<lambda>_. 0"] unfolding record_table_facts
    by (simp add: TEST_BITMAP_def columnInfos_def BITMAP_SIZE_def)
qed

end
