(* ===== verification/RecordKeys.thy ===== *)
theory RecordKeys
  imports DmlRecordProofs
begin

text \<open>
  Keys built from a row (\<^verbatim>\<open>unionKey::memSize\<close> and \<^verbatim>\<open>unionKey::initKey\<close> of \<^verbatim>\<open>meta/columnType.cpp\<close>): the key of a record
  serialises the values of the key's columns, so keys of two records compare like the rows.
\<close>

section \<open>Operations\<close>

abbreviation uk_entries :: "unionKeyMeta \<Rightarrow> uniqueKeyTypePair list" where
  "uk_entries k \<equiv> take (unat (uk_columnCount k)) (uk_columnInfo k)"

fun memSize_loop :: "mem \<Rightarrow> DMLRecord \<Rightarrow> bool \<Rightarrow> u16 \<Rightarrow> uniqueKeyTypePair list \<Rightarrow> fault + u16" where
  "memSize_loop m r keyUpdated sz [] = Inr sz"
| "memSize_loop m r keyUpdated sz (p # ps) =
     (if col_fixed (kc_type p) then memSize_loop m r keyUpdated sz ps
      else sbind (if keyUpdated then oldVarColumnSizeOfUpdateType m r (unat (kc_columnId p)) else Inr (varColumnSize m r (unat (kc_columnId p))))
             (\<lambda>s. memSize_loop m r keyUpdated (sz + ucast s) ps))"

definition memSize :: "mem \<Rightarrow> DMLRecord \<Rightarrow> unionKeyMeta \<Rightarrow> bool \<Rightarrow> fault + u16" where
  "memSize m r meta keyUpdated =
     (if uk_fixed meta = 0 then memSize_loop m r keyUpdated (uk_size meta) (uk_entries meta) else Inr (uk_size meta))"

text \<open>\<^verbatim>\<open>memcpy\<close> of \<open>n\<close> bytes from a pointer that may be null; copying no byte from it is harmless.\<close>

definition copy_from :: "mem \<Rightarrow> nat \<Rightarrow> nat option \<Rightarrow> nat \<Rightarrow> fault + mem" where
  "copy_from m dst src n =
     (case src of Some a \<Rightarrow> Inr (write_bytes m dst (read_bytes m a n)) | None \<Rightarrow> if n = 0 then Inr m else Inl NullDeref)"

text \<open>One column of the key, from the new values and from the old ones.  Sizes are stored in 16 bits.\<close>

definition new_key_column :: "mem \<Rightarrow> DMLRecord \<Rightarrow> nat \<Rightarrow> uniqueKeyTypePair \<Rightarrow> fault + mem \<times> nat" where
  "new_key_column m r ptr p =
     (let i = unat (kc_columnId p); t = kc_type p in
      if col_fixed t then sbind (copy_from m ptr (dml_column m r i) (col_size t)) (\<lambda>m. Inr (m, ptr + col_size t))
      else let n = unat (ucast (varColumnSize m r i) :: u16); m = wr 2 m ptr n
           in sbind (copy_from m (ptr + 2) (dml_column m r i) n) (\<lambda>m. Inr (m, ptr + (2 + n))))"

definition old_key_column :: "mem \<Rightarrow> DMLRecord \<Rightarrow> u16 \<Rightarrow> nat \<Rightarrow> uniqueKeyTypePair \<Rightarrow> fault + mem \<times> nat" where
  "old_key_column m r sz ptr p =
     (let i = unat (kc_columnId p); t = kc_type p in
      sbind (oldColumnOfUpdateType m r i) (\<lambda>v.
        if col_fixed t then sbind (copy_from m ptr v (col_size t)) (\<lambda>m. Inr (m, ptr + col_size t))
        else sbind (oldVarColumnSizeOfUpdateType m r i) (\<lambda>s.
          let n = unat (ucast s :: u16); m = wr 2 m ptr n in
          if n < unat sz then sbind (copy_from m (ptr + 2) v n) (\<lambda>m. Inr (m, ptr + (2 + n))) else Inl AssertFailed)))"

fun key_loop :: "(mem \<Rightarrow> nat \<Rightarrow> uniqueKeyTypePair \<Rightarrow> fault + mem \<times> nat) \<Rightarrow> mem \<Rightarrow> nat \<Rightarrow> uniqueKeyTypePair list \<Rightarrow> fault + mem" where
  "key_loop f m ptr [] = Inr m"
| "key_loop f m ptr (p # ps) = sbind (f m ptr p) (\<lambda>(m, ptr). key_loop f m ptr ps)"

definition initKey :: "mem \<Rightarrow> nat \<Rightarrow> u16 \<Rightarrow> unionKeyMeta \<Rightarrow> DMLRecord \<Rightarrow> bool \<Rightarrow> fault + mem" where
  "initKey m key sz meta r keyUpdated =
     (let m' = (if uk_fixed meta = 0 then wr 2 m key (unat sz) else m);
          ptr = key + uk_startOffset meta; ty = head_type m' (dml_data r) in
      if ty = RTYPE R_INSERT \<or> ty = RTYPE R_DELETE \<or> ((ty = RTYPE R_UPDATE \<or> ty = RTYPE R_REPLACE) \<and> \<not> keyUpdated)
      then key_loop (\<lambda>m. new_key_column m r) m' ptr (uk_entries meta)
      else key_loop (\<lambda>m. old_key_column m r sz) m' ptr (uk_entries meta))"

section \<open>Serialised values\<close>

definition key_bytes :: "COLUMN_TYPE \<times> u8 list \<Rightarrow> u8 list" where
  "key_bytes c = (if col_fixed (fst c) then snd c else le_bytes 2 (length (snd c)) @ snd c)"

definition key_ser :: "(COLUMN_TYPE \<times> u8 list) list \<Rightarrow> u8 list" where
  "key_ser cs = concat (map key_bytes cs)"

text \<open>The value that the bytes of a column stand for.\<close>

fun kval_of :: "COLUMN_TYPE \<times> u8 list \<Rightarrow> kval" where
  "kval_of (T_UINT8, b) = KInt (int (le_val b))"
| "kval_of (T_INT8, b) = KInt (sval 1 (le_val b))"
| "kval_of (T_UINT16, b) = KInt (int (le_val b))"
| "kval_of (T_INT16, b) = KInt (sval 2 (le_val b))"
| "kval_of (T_UINT32, b) = KInt (int (le_val b))"
| "kval_of (T_INT32, b) = KInt (sval 4 (le_val b))"
| "kval_of (T_UINT64, b) = KInt (int (le_val b))"
| "kval_of (T_INT64, b) = KInt (sval 8 (le_val b))"
| "kval_of (t, b) = KBytes b"

text \<open>A value that can be a key column: of the size of its type, or shorter than 64 KB.\<close>

definition key_fits :: "COLUMN_TYPE \<times> u8 list \<Rightarrow> bool" where
  "key_fits c \<longleftrightarrow> (if col_fixed (fst c) then length (snd c) = col_size (fst c) else length (snd c) < 65536)"

lemma read_bytes_add: "read_bytes m p (a + b) = read_bytes m p a @ read_bytes m (p + a) b"
  by (rule nth_equalityI) (auto simp: nth_append)

lemma read_bytes_append: "read_bytes m p (length (xs @ ys)) = xs @ ys \<longleftrightarrow> read_bytes m p (length xs) = xs \<and> read_bytes m (p + length xs) (length ys) = ys"
  by (simp add: read_bytes_add)

lemma col_val_bytes:
  assumes "t \<in> exact_types" and "key_fits (t, b)" and "read_bytes m p (length (key_bytes (t, b))) = key_bytes (t, b)"
  shows "col_val m t p = kval_of (t, b)" and "column_advance m t p = p + length (key_bytes (t, b))"
proof -
  have v: "rd 2 m p = length b \<and> read_bytes m (p + 2) (length b) = b" if "\<not> col_fixed t"
  proof -
    have "read_bytes m p (length (le_bytes 2 (length b))) = le_bytes 2 (length b)" "read_bytes m (p + 2) (length b) = b"
      using assms(3) that by (simp_all add: key_bytes_def read_bytes_append del: length_append)
    then show ?thesis using assms(2) that by (simp add: rd_def key_fits_def le_val_le_bytes)
  qed
  then show "column_advance m t p = p + length (key_bytes (t, b))"
    using assms(2) by (auto simp: column_advance_def key_bytes_def key_fits_def split: if_splits)
  have f: "rd (col_size t) m p = le_val b" if "col_fixed t"
    using assms(2,3) that by (simp add: rd_def key_bytes_def key_fits_def)
  show "col_val m t p = kval_of (t, b)"
    using assms(1) f v unfolding exact_types_def by (auto simp: columnInfos_def simp del: rd_1)
qed

lemma key_vals_ser:
  assumes "\<forall>c \<in> set cs. fst c \<in> exact_types \<and> key_fits c" and "read_bytes m p (length (key_ser cs)) = key_ser cs"
  shows "key_vals m (map fst cs) p = map kval_of cs"
  using assms
proof (induction cs arbitrary: p)
  case (Cons c cs)
  have r: "read_bytes m p (length (key_bytes c)) = key_bytes c" "read_bytes m (p + length (key_bytes c)) (length (key_ser cs)) = key_ser cs"
    using Cons.prems(2) by (simp_all add: key_ser_def read_bytes_append del: length_append)
  with Cons.prems(1) col_val_bytes [of "fst c" "snd c" m p] Cons.IH [of "p + length (key_bytes c)"] show ?case by simp
qed simp

section \<open>The loop writes the serialised key\<close>

text \<open>The type and the bytes of the columns of a key in a row.\<close>

definition key_cells :: "unionKeyMeta \<Rightarrow> row \<Rightarrow> (COLUMN_TYPE \<times> u8 list) list" where
  "key_cells meta row = map (\<lambda>p. (kc_type p, the (row ! unat (kc_columnId p)))) (uk_entries meta)"

text \<open>The entry names a column of the table with its type, and the row has a value for it that fits a key.\<close>

definition entry_ok :: "tableMeta \<Rightarrow> row \<Rightarrow> uniqueKeyTypePair \<Rightarrow> bool" where
  "entry_ok t row p \<longleftrightarrow> unat (kc_columnId p) < columnsCount t \<and> kc_type p = col_types t ! unat (kc_columnId p) \<and>
     row ! unat (kc_columnId p) \<noteq> None \<and> key_fits (kc_type p, the (row ! unat (kc_columnId p)))"

lemma entry_okE:
  assumes "entry_ok t row p"
  obtains b where "row ! unat (kc_columnId p) = Some b" and "key_fits (kc_type p, b)"
    and "unat (kc_columnId p) < columnsCount t" and "kc_type p = col_types t ! unat (kc_columnId p)"
  using assms unfolding entry_ok_def by fastforce

text \<open>A stored row, and addresses that lie outside of it.\<close>

definition stored :: "mem \<Rightarrow> tableMeta \<Rightarrow> row \<Rightarrow> DMLRecord \<Rightarrow> bool" where
  "stored m t row r \<longleftrightarrow> row_fits t row \<and> dml_meta r = t \<and> dml_data r + 46 = dml_nullBitmap r \<and>
     dml_columns r = dml_nullBitmap r + BITMAP_SIZE (columnsCount t) \<and>
     new_area r (dml_nullBitmap r) (dml_columns r) \<and> area_inv m t (dml_nullBitmap r) (dml_columns r) row (columnsCount t)"

definition apart :: "DMLRecord \<Rightarrow> row \<Rightarrow> nat \<Rightarrow> nat \<Rightarrow> bool" where
  "apart r row a n \<longleftrightarrow> a + n \<le> dml_data r \<or> dml_data r + dml_size (dml_meta r) row \<le> a"

lemma storedD:
  assumes "stored m t row r"
  shows "row_fits t row" and "dml_meta r = t" and "new_area r (dml_nullBitmap r) (dml_columns r)"
    and "area_inv m t (dml_nullBitmap r) (dml_columns r) row (columnsCount t)"
  using assms unfolding stored_def by blast+

lemma stored_same:
  assumes "stored m t row r" and "same_on m m' (dml_data r) (dml_size t row)"
  shows "stored m' t row r"
proof -
  have "same_on m m' (dml_nullBitmap r) (BITMAP_SIZE (columnsCount t))"
    "same_on m m' (dml_columns r) (var_base t + vsum (var_vals (col_types t) row))"
    by (rule same_on_sub [OF assms(2)], use assms(1) in \<open>auto simp: stored_def dml_size_def\<close>)+
  then show ?thesis using assms(1) area_inv_frame by (auto simp: stored_def)
qed

lemma stored_write:
  assumes "stored m t row r" and "apart r row a (length bs)"
  shows "stored (write_bytes m a bs) t row r"
  by (rule stored_same [OF assms(1)], rule same_on_write) (use assms storedD(2) [OF assms(1)] in \<open>auto simp: apart_def\<close>)

lemma apart_sub: "apart r row a n \<Longrightarrow> a \<le> b \<Longrightarrow> b + k \<le> a + n \<Longrightarrow> apart r row b k"
  by (auto simp: apart_def)

lemma ucast_small: "n < 65536 \<Longrightarrow> unat (ucast (word_of_nat n :: u32) :: u16) = n"
  by (simp add: unsigned_ucast_eq unsigned_of_nat take_bit_nat_eq_self)

lemma ucast_of_nat_u16: "(ucast (word_of_nat n :: u32) :: u16) = word_of_nat n"
  by (rule bit_word_eqI) (simp add: bit_simps)

lemma new_key_column_writes:
  assumes st: "stored m t row r" and ok: "entry_ok t row p" and ap: "apart r row ptr (length (key_bytes c))"
    and c: "c = (kc_type p, the (row ! unat (kc_columnId p)))"
  shows "new_key_column m r ptr p = Inr (write_bytes m ptr (key_bytes c), ptr + length (key_bytes c))"
proof -
  let ?i = "unat (kc_columnId p)" and ?nb = "dml_nullBitmap r" and ?cols = "dml_columns r"
  obtain b where b: "row ! ?i = Some b" and cb: "c = (kc_type p, b)" using ok c by (auto simp: entry_ok_def)
  have fits: "row_fits t row" and meta: "dml_meta r = t" "new_area r ?nb ?cols" using storedD [OF st] by blast+
  have i: "?i < columnsCount t" "kc_type p = col_types t ! ?i" "key_fits (kc_type p, b)" using ok b unfolding entry_ok_def by auto
  have col: "\<exists>a. dml_column m' r ?i = Some a \<and> read_bytes m' a (length b) = b" if "stored m' t row r" for m'
    by (rule loaded_columns(3) [OF fits storedD(4) [OF that] meta i(1) b])
  show ?thesis
  proof (cases "col_fixed (kc_type p)")
    case True
    then show ?thesis using col [OF st] i(3) by (auto simp: new_key_column_def Let_def copy_from_def cb key_bytes_def key_fits_def)
  next
    case False
    have n: "unat (ucast (varColumnSize m r ?i) :: u16) = length b"
      using loaded_columns(4) [OF fits storedD(4) [OF st] meta i(1)] False i(2,3) b by (simp add: key_fits_def ucast_small)
    have "stored (wr 2 m ptr (length b)) t row r"
      unfolding wr_def by (rule stored_write [OF st]) (use ap False in \<open>auto simp: cb key_bytes_def intro: apart_sub\<close>)
    from col [OF this] show ?thesis
      using False n by (auto simp: new_key_column_def Let_def copy_from_def cb key_bytes_def wr_def write_bytes_append)
  qed
qed

lemma key_loop_writes:
  assumes "stored m t row r" and "\<forall>p \<in> set ps. entry_ok t row p"
    and "cs = map (\<lambda>p. (kc_type p, the (row ! unat (kc_columnId p)))) ps" and "apart r row ptr (length (key_ser cs))"
  shows "key_loop (\<lambda>m. new_key_column m r) m ptr ps = Inr (write_bytes m ptr (key_ser cs))"
  using assms
proof (induction ps arbitrary: m ptr cs)
  case Nil
  then show ?case by (simp add: key_ser_def)
next
  case (Cons p ps)
  define c where "c = (kc_type p, the (row ! unat (kc_columnId p)))"
  obtain ds where cs: "cs = c # ds" "ds = map (\<lambda>p. (kc_type p, the (row ! unat (kc_columnId p)))) ps" using Cons.prems(3) c_def by simp
  have s: "key_ser cs = key_bytes c @ key_ser ds" by (simp add: cs key_ser_def)
  have a: "apart r row ptr (length (key_bytes c))" "apart r row (ptr + length (key_bytes c)) (length (key_ser ds))"
    using Cons.prems(4) by (auto simp: s apart_def)
  have "new_key_column m r ptr p = Inr (write_bytes m ptr (key_bytes c), ptr + length (key_bytes c))"
    by (rule new_key_column_writes [OF Cons.prems(1) _ a(1) c_def]) (use Cons.prems(2) in auto)
  then show ?case
    using Cons.IH [OF stored_write [OF Cons.prems(1) a(1)] _ cs(2) a(2)] Cons.prems(2) by (simp add: s write_bytes_append)
qed

lemma fst_key_cells: "map fst (key_cells meta row) = key_types meta"
  by (simp add: key_cells_def key_types_def)

definition key_length :: "unionKeyMeta \<Rightarrow> row \<Rightarrow> nat" where
  "key_length meta row = uk_startOffset meta + length (key_ser (key_cells meta row))"

definition key_prefix :: "unionKeyMeta \<Rightarrow> u16 \<Rightarrow> u8 list" where
  "key_prefix meta sz = (if uk_fixed meta = 0 then le_bytes 2 (unat sz) else [])"

lemma length_key_prefix: "length (key_prefix meta sz) = uk_startOffset meta"
  by (simp add: key_prefix_def uk_startOffset_def)

lemma initKey_writes:
  assumes st: "stored m t row r" and ok: "\<forall>p \<in> set (uk_entries meta). entry_ok t row p" and ap: "apart r row key (key_length meta row)"
    and ty: "head_type m (dml_data r) \<in> {RTYPE R_INSERT, RTYPE R_UPDATE, RTYPE R_DELETE, RTYPE R_REPLACE}"
  shows "initKey m key sz meta r False = Inr (write_bytes m key (key_prefix meta sz @ key_ser (key_cells meta row)))"
proof -
  let ?s = "key_ser (key_cells meta row)" and ?p = "key_prefix meta sz"
  define m' where "m' = write_bytes m key ?p"
  have a: "apart r row key (length ?p)" "apart r row (key + length ?p) (length ?s)"
    using ap by (auto simp: key_length_def length_key_prefix apart_def)
  have st': "stored m' t row r" unfolding m'_def by (rule stored_write [OF st a(1)])
  have "same_on m m' (dml_data r + 6) 1" unfolding m'_def
    by (rule same_on_write) (use a(1) in \<open>auto simp: apart_def dml_size_def\<close>)
  then have "head_type m' (dml_data r) = head_type m (dml_data r)" by (simp add: head_offsets same_on_def)
  moreover have e: "(if uk_fixed meta = 0 then wr 2 m key (unat sz) else m) = m'" by (simp add: m'_def key_prefix_def wr_def)
  moreover have "key_loop (\<lambda>m. new_key_column m r) m' (key + length ?p) (uk_entries meta) = Inr (write_bytes m' (key + length ?p) ?s)"
    by (rule key_loop_writes [OF st' ok key_cells_def a(2)])
  moreover have "write_bytes m' (key + length ?p) ?s = write_bytes m key (?p @ ?s)" by (simp add: m'_def write_bytes_append)
  ultimately show ?thesis
    using ty unfolding initKey_def e Let_def length_key_prefix by auto
qed

text \<open>The bytes of the variable-length columns of a key, and the two ways to compute the length of the key.\<close>

definition var_bytes :: "row \<Rightarrow> uniqueKeyTypePair list \<Rightarrow> nat" where
  "var_bytes row ps = sum_list (map (\<lambda>p. if col_fixed (kc_type p) then 0 else vlen (row ! unat (kc_columnId p))) ps)"

lemma memSize_loop_new:
  assumes st: "stored m t row r" and ok: "\<forall>p \<in> set ps. entry_ok t row p"
  shows "memSize_loop m r False sz ps = Inr (sz + word_of_nat (var_bytes row ps))"
  using ok
proof (induction ps arbitrary: sz)
  case (Cons p ps)
  have fits: "row_fits t row" and meta: "dml_meta r = t" "new_area r (dml_nullBitmap r) (dml_columns r)"
    and inv: "area_inv m t (dml_nullBitmap r) (dml_columns r) row (columnsCount t)" using storedD [OF st] by blast+
  have "entry_ok t row p" using Cons.prems by simp
  then have i: "unat (kc_columnId p) < columnsCount t" "kc_type p = col_types t ! unat (kc_columnId p)" by (auto elim: entry_okE)
  show ?case
    using Cons loaded_columns(4) [OF fits inv meta i(1)] i(2)
    by (simp add: var_bytes_def ucast_of_nat_u16 add.assoc)
qed (simp add: var_bytes_def)

lemma key_ser_length:
  assumes "\<forall>p \<in> set ps. entry_ok t row p"
  shows "length (key_ser (map (\<lambda>p. (kc_type p, the (row ! unat (kc_columnId p)))) ps)) = width_sum ps + var_bytes row ps"
  using assms
proof (induction ps)
  case (Cons p ps)
  then have "entry_ok t row p" by simp
  then obtain b where b: "row ! unat (kc_columnId p) = Some b" "key_fits (kc_type p, b)" by (rule entry_okE)
  have "length (key_bytes (kc_type p, b)) = entry_width p + (if col_fixed (kc_type p) then 0 else length b)"
    using b(2) by (simp add: key_bytes_def entry_width_def key_fits_def split: if_splits)
  then show ?case using Cons b(1) by (simp add: key_ser_def width_sum_def var_bytes_def)
qed (simp add: key_ser_def width_sum_def var_bytes_def)

lemma memSize_new:
  assumes st: "stored m t row r" and ok: "\<forall>p \<in> set (uk_entries meta). entry_ok t row p"
    and wf: "ukm_wf meta" and len: "key_length meta row < 65536"
  shows "\<exists>n. memSize m r meta False = Inr n \<and> key_length meta row = unat n + uk_startOffset meta"
proof -
  let ?ps = "uk_columnInfo meta"
  have e: "uk_entries meta = ?ps" using wf by (simp add: ukm_wf_def)
  have l: "key_length meta row = uk_startOffset meta + (width_sum ?ps + var_bytes row ?ps)"
    using key_ser_length [OF ok] by (simp add: key_length_def key_cells_def e)
  have u: "unat (word_of_nat k :: u16) = k" if "k \<le> width_sum ?ps + var_bytes row ?ps" for k
    using that len l by (simp add: unat_of_nat)
  have z: "var_bytes row ?ps = 0" if "uk_fixed meta \<noteq> 0"
    using that wf by (auto simp: ukm_wf_def var_entries_def var_bytes_def filter_empty_conv split: if_splits)
  have "memSize m r meta False = Inr (word_of_nat (width_sum ?ps + var_bytes row ?ps))"
    using memSize_loop_new [OF st ok] wf z by (auto simp: memSize_def e ukm_wf_def)
  then show ?thesis using l u [OF order_refl] by (intro exI) (rule conjI, assumption, simp)
qed

lemma key_cells_vals:
  assumes "set (key_types meta) \<subseteq> exact_types" and "\<forall>p \<in> set (uk_entries meta). entry_ok t row p"
    and "read_bytes m p (length (key_ser (key_cells meta row))) = key_ser (key_cells meta row)"
  shows "key_vals m (key_types meta) p = map kval_of (key_cells meta row)"
proof -
  have "\<forall>c \<in> set (key_cells meta row). fst c \<in> exact_types \<and> key_fits c"
  proof
    fix c assume "c \<in> set (key_cells meta row)"
    then obtain p where p: "p \<in> set (uk_entries meta)" "c = (kc_type p, the (row ! unat (kc_columnId p)))" by (auto simp: key_cells_def)
    then have "fst c \<in> set (key_types meta)" by (auto simp: key_types_def)
    with assms(1,2) p show "fst c \<in> exact_types \<and> key_fits c" unfolding entry_ok_def by blast
  qed
  then show ?thesis unfolding fst_key_cells [of meta row, symmetric] using assms(3) by (rule key_vals_ser)
qed

text \<open>
  C17: \<^verbatim>\<open>initKey\<close> serialises the key of the new values of a row.  For a stored row whose key columns are integers or strings and not NULL, and without the flag for old
  values, it succeeds and writes exactly these bytes and no other: for a variable-size key the size it was given, in two bytes, then the columns in key order.  Reading them as
  \<^verbatim>\<open>unionKey::compare\<close> does gives the values of the row, and the number of bytes is \<^verbatim>\<open>memSize\<close>, plus the two of the prefix that \<^verbatim>\<open>memSize\<close> does
  not count.
\<close>

theorem initKey_serialises_row:
  assumes "stored m t row r" and "\<forall>p \<in> set (uk_entries meta). entry_ok t row p" and "apart r row key (key_length meta row)"
    and "head_type m (dml_data r) \<in> {RTYPE R_INSERT, RTYPE R_UPDATE, RTYPE R_DELETE, RTYPE R_REPLACE}"
    and "set (key_types meta) \<subseteq> exact_types" and "ukm_wf meta" and "key_length meta row < 65536"
  shows "\<exists>m' n. initKey m key sz meta r False = Inr m' \<and> memSize m r meta False = Inr n \<and>
    read_bytes m' key (unat n + uk_startOffset meta) = (if uk_fixed meta = 0 then le_bytes 2 (unat sz) else []) @ key_ser (key_cells meta row) \<and>
    (if uk_fixed meta = 0 then rd 2 m' key = unat sz \<and> uk_startOffset meta = 2 else uk_startOffset meta = 0) \<and>
    key_vals m' (key_types meta) (key + uk_startOffset meta) = map kval_of (key_cells meta row) \<and>
    key_length meta row = unat n + uk_startOffset meta \<and>
    (\<forall>a. a < key \<or> key + (unat n + uk_startOffset meta) \<le> a \<longrightarrow> m' a = m a)"
proof -
  let ?s = "key_ser (key_cells meta row)" and ?p = "key_prefix meta sz"
  define m' where "m' = write_bytes m key (?p @ ?s)"
  have w: "initKey m key sz meta r False = Inr m'" unfolding m'_def by (rule initKey_writes) (use assms in simp_all)
  obtain n where n: "memSize m r meta False = Inr n" "key_length meta row = unat n + uk_startOffset meta"
    using memSize_new [OF assms(1,2,6,7)] by blast
  have all: "read_bytes m' key (length (?p @ ?s)) = ?p @ ?s" by (simp only: m'_def write_bytes_same)
  then have p: "read_bytes m' key (length ?p) = ?p" and s: "read_bytes m' (key + uk_startOffset meta) (length ?s) = ?s"
    unfolding read_bytes_append length_key_prefix by blast+
  have len: "unat n + uk_startOffset meta = length (?p @ ?s)" using n(2) by (simp add: key_length_def length_key_prefix)
  have "unat sz < 65536" using unsigned_less [of sz, where ?'a = nat] by simp
  then have "if uk_fixed meta = 0 then rd 2 m' key = unat sz \<and> uk_startOffset meta = 2 else uk_startOffset meta = 0"
    using p by (auto simp: key_prefix_def uk_startOffset_def rd_def le_val_le_bytes)
  moreover have "key_vals m' (key_types meta) (key + uk_startOffset meta) = map kval_of (key_cells meta row)"
    using s by (rule key_cells_vals [OF assms(5,2)])
  moreover have "m' a = m a" if "a < key \<or> key + (unat n + uk_startOffset meta) \<le> a" for a
    unfolding m'_def by (rule write_bytes_outside) (use that len in auto)
  ultimately show ?thesis using w n all [folded len, unfolded key_prefix_def] by blast
qed

lemma write_dml_stored:
  assumes "row_fits t row" and "dml_size t row < 2 ^ 32"
  obtains m' where "write_dml m data t type row = Inr m'" and "stored m' t row (dml_load m' data t)"
    and "head_type m' (dml_data (dml_load m' data t)) = RTYPE type" and "dml_data (dml_load m' data t) = data"
    and "\<And>a. a < data \<or> data + dml_size t row \<le> a \<Longrightarrow> m' a = m a"
proof -
  obtain m' where w: "write_dml m data t type row = Inr m'" and inv: "area_inv m' t (data + 46) (data + 46 + BITMAP_SIZE (columnsCount t)) row (columnsCount t)"
    and h: "headSize m' data = 38" "head_type m' data = RTYPE type" and out: "\<And>a. a < data \<or> data + dml_size t row \<le> a \<Longrightarrow> m' a = m a"
    using written_dml [OF assms, of m data type] by (metis (no_types, lifting))
  have d: "dml_data (dml_load m' data t) = data" "dml_nullBitmap (dml_load m' data t) = data + 46"
    "dml_columns (dml_load m' data t) = data + 46 + BITMAP_SIZE (columnsCount t)"
    using h(1) by (simp_all add: dml_load_def Let_def)
  have "stored m' t row (dml_load m' data t)"
    unfolding stored_def d using assms(1) inv dml_load_area [OF assms(1) h(1) refl] by simp
  with that [OF w] h d out show ?thesis by simp
qed

definition record_key :: unionKeyMeta where
  "record_key = \<lparr>uk_columnCount = 2, uk_size = 3, uk_fixed = 0, uk_keyType = 0, uk_keyId = 0, uk_varColumnCount = 1,
     uk_columnInfo = [\<lparr>kc_type = T_UINT8, kc_columnId = 0\<rparr>, \<lparr>kc_type = T_STRING, kc_columnId = 1\<rparr>]\<rparr>"

lemma record_key_facts:
  "uk_entries record_key = [\<lparr>kc_type = T_UINT8, kc_columnId = 0\<rparr>, \<lparr>kc_type = T_STRING, kc_columnId = 1\<rparr>]"
  "key_types record_key = [T_UINT8, T_STRING]" "uk_startOffset record_key = 2"
  "key_cells record_key record_row = [(T_UINT8, [7]), (T_STRING, [104, 105])]" "key_length record_key record_row = 7"
  by (simp_all add: record_key_def key_types_def uk_startOffset_def key_cells_def record_row_def key_length_def key_ser_def
      key_bytes_def columnInfos_def)

lemma record_key_ok: "\<forall>p \<in> set (uk_entries record_key). entry_ok record_table record_row p" "ukm_wf record_key"
  unfolding record_key_facts entry_ok_def record_table_facts
  by (simp_all add: record_row_def key_fits_def columnInfos_def ukm_wf_def record_key_def var_entries_def width_sum_def entry_width_def)

theorem initKey_serialises_row_witness:
  "\<exists>m m'. write_dml (\<lambda>_. 0) 100 record_table R_INSERT record_row = Inr m \<and>
     initKey m 1000 5 record_key (dml_load m 100 record_table) False = Inr m' \<and>
     rd 2 m' 1000 = 5 \<and> key_vals m' [T_UINT8, T_STRING] 1002 = [KInt 7, KBytes [104, 105]]"
proof -
  have "dml_size record_table record_row < 2 ^ 32" by (simp add: record_row_fits)
  then obtain m where w: "write_dml (\<lambda>_. 0) 100 record_table R_INSERT record_row = Inr m"
    and st: "stored m record_table record_row (dml_load m 100 record_table)"
    and ty: "head_type m (dml_data (dml_load m 100 record_table)) = RTYPE R_INSERT" and d: "dml_data (dml_load m 100 record_table) = 100"
    using write_dml_stored [OF record_row_fits(1)] by metis
  have a: "apart (dml_load m 100 record_table) record_row 1000 (key_length record_key record_row)"
    using storedD(2) [OF st] d record_row_fits(2) by (simp add: apart_def record_key_facts)
  have "\<exists>m'. initKey m 1000 5 record_key (dml_load m 100 record_table) False = Inr m' \<and> rd 2 m' 1000 = 5 \<and>
    key_vals m' (key_types record_key) (1000 + uk_startOffset record_key) = map kval_of (key_cells record_key record_row)"
    using initKey_serialises_row [OF st record_key_ok(1) a _ _ record_key_ok(2), of 5] ty
    by (auto simp: record_key_facts exact_types_def) (simp add: record_key_def)
  with w show ?thesis unfolding record_key_facts by simp
qed

text \<open>
  C15: Keys order records as their rows.  The keys that \<^verbatim>\<open>initKey\<close> builds from the new values of two stored rows of a table, whose key columns
  are integers or strings and not NULL, compare with \<^verbatim>\<open>unionKey::compare\<close> as the lists of the values of the key columns do
  lexicographically, as long as 32-bit values that it meets are less than $2^{31}$ apart.
\<close>

theorem record_keys_compare_like_rows:
  assumes "stored m t row r" and "stored m t row' r'" and "\<forall>p \<in> set (uk_entries meta). entry_ok t row p \<and> entry_ok t row' p"
    and "apart r row key (key_length meta row)" and "apart r' row' key (key_length meta row)"
    and "apart r' row' key' (key_length meta row')" and "key + key_length meta row \<le> key' \<or> key' + key_length meta row' \<le> key"
    and "head_type m (dml_data r) \<in> {RTYPE R_INSERT, RTYPE R_UPDATE, RTYPE R_DELETE, RTYPE R_REPLACE}"
    and "head_type m (dml_data r') \<in> {RTYPE R_INSERT, RTYPE R_UPDATE, RTYPE R_DELETE, RTYPE R_REPLACE}"
    and "set (key_types meta) \<subseteq> exact_types"
    and "near_keys (key_types meta) (map kval_of (key_cells meta row)) (map kval_of (key_cells meta row'))"
  shows "\<exists>m1 m2. initKey m key sz meta r False = Inr m1 \<and> initKey m1 key' sz' meta r' False = Inr m2 \<and>
    agrees (uk_compare m2 \<lparr>key_ptr = key, key_meta = meta\<rparr> \<lparr>key_ptr = key', key_meta = meta\<rparr>)
      (map kval_of (key_cells meta row)) (map kval_of (key_cells meta row'))"
proof -
  let ?s = "key_ser (key_cells meta row)" and ?s' = "key_ser (key_cells meta row')"
  define x where "x = key_prefix meta sz @ ?s"
  define y where "y = key_prefix meta sz' @ ?s'"
  have len: "length x = key_length meta row" "length y = key_length meta row'"
    by (simp_all add: x_def y_def key_length_def length_key_prefix)
  define m1 where "m1 = write_bytes m key x"
  define m2 where "m2 = write_bytes m1 key' y"
  have i1: "initKey m key sz meta r False = Inr m1"
    unfolding m1_def x_def by (rule initKey_writes [OF assms(1) _ assms(4,8)]) (use assms(3) in simp)
  have st: "stored m1 t row' r'" unfolding m1_def by (rule stored_write [OF assms(2)]) (use assms(5) len in simp)
  have "same_on m m1 (dml_data r' + 6) 1" unfolding m1_def
    by (rule same_on_write) (use assms(5) len in \<open>auto simp: apart_def dml_size_def\<close>)
  then have "head_type m1 (dml_data r') = head_type m (dml_data r')" by (simp add: head_offsets same_on_def)
  then have i2: "initKey m1 key' sz' meta r' False = Inr m2"
    unfolding m2_def y_def by (intro initKey_writes [OF st _ assms(6)]) (use assms(3,9) in simp_all)
  have "read_bytes m2 key (length x) = x" "read_bytes m2 key' (length y) = y"
    unfolding m2_def m1_def using assms(7) [folded len] by (simp_all add: write_bytes_same write_bytes_other)
  then have "read_bytes m2 (key + uk_startOffset meta) (length ?s) = ?s" "read_bytes m2 (key' + uk_startOffset meta) (length ?s') = ?s'"
    unfolding x_def y_def read_bytes_append length_key_prefix by blast+
  then have v: "key_vals m2 (key_types meta) (key + uk_startOffset meta) = map kval_of (key_cells meta row)"
    "key_vals m2 (key_types meta) (key' + uk_startOffset meta) = map kval_of (key_cells meta row')"
    using key_cells_vals [OF assms(10), of t row] key_cells_vals [OF assms(10), of t row'] assms(3) by blast+
  have "agrees (compare_loop m2 (key_types meta) (key + uk_startOffset meta) (key' + uk_startOffset meta))
      (map kval_of (key_cells meta row)) (map kval_of (key_cells meta row'))"
    using compare_loop_agrees [OF assms(10), of m2 "key + uk_startOffset meta" "key' + uk_startOffset meta"] assms(11) unfolding v by simp
  then show ?thesis using i1 i2 by (simp add: uk_compare_def)
qed

definition record_row2 :: row where "record_row2 = [Some [7], Some [104], None]"

lemma record_row2_fits: "row_fits record_table record_row2" "dml_size record_table record_row2 = 65"
  unfolding row_fits_def dml_size_def var_base_def record_table_facts all_less_3
  by (simp_all add: record_table_ok record_row2_def columnInfos_def BITMAP_SIZE_def)

lemma record_key2_facts:
  "key_cells record_key record_row2 = [(T_UINT8, [7]), (T_STRING, [104])]" "key_length record_key record_row2 = 6"
  by (simp_all add: record_key_def uk_startOffset_def key_cells_def record_row2_def key_length_def key_ser_def key_bytes_def columnInfos_def)

lemma record_key2_ok: "\<forall>p \<in> set (uk_entries record_key). entry_ok record_table record_row p \<and> entry_ok record_table record_row2 p"
  unfolding record_key_facts entry_ok_def record_table_facts
  by (simp add: record_row_def record_row2_def key_fits_def columnInfos_def)

theorem record_keys_compare_like_rows_witness:
  "\<exists>m r r' m1 m2. initKey m 1000 5 record_key r False = Inr m1 \<and> initKey m1 2000 4 record_key r' False = Inr m2 \<and>
     agrees (uk_compare m2 \<lparr>key_ptr = 1000, key_meta = record_key\<rparr> \<lparr>key_ptr = 2000, key_meta = record_key\<rparr>)
       [KInt 7, KBytes [104, 105]] [KInt 7, KBytes [104]]"
proof -
  have sz: "dml_size record_table record_row < 2 ^ 32" "dml_size record_table record_row2 < 2 ^ 32"
    by (simp_all add: record_row_fits record_row2_fits)
  obtain m r where 1: "stored m record_table record_row r" "head_type m (dml_data r) = RTYPE R_INSERT" "dml_data r = 100"
    using write_dml_stored [OF record_row_fits(1) sz(1), of "\<lambda>_. 0" 100 R_INSERT] by metis
  obtain m' r' where 2: "stored m' record_table record_row2 r'" "head_type m' (dml_data r') = RTYPE R_INSERT" "dml_data r' = 300"
    and out: "\<And>a. a < 300 \<or> 300 + dml_size record_table record_row2 \<le> a \<Longrightarrow> m' a = m a"
    using write_dml_stored [OF record_row2_fits(1) sz(2), of m 300 R_INSERT] by metis
  have s: "same_on m m' 100 66" using out by (simp add: same_on_def)
  then have 3: "stored m' record_table record_row r" using stored_same [OF 1(1)] 1(3) record_row_fits(2) by simp
  have 4: "head_type m' (dml_data r) = RTYPE R_INSERT" using s 1(2,3) by (simp add: head_offsets same_on_def)
  have meta: "dml_meta r = record_table" "dml_meta r' = record_table" using storedD(2) 3 2(1) by blast+
  have k: "map kval_of (key_cells record_key record_row) = [KInt 7, KBytes [104, 105]]"
    "map kval_of (key_cells record_key record_row2) = [KInt 7, KBytes [104]]" by (simp_all add: record_key_facts record_key2_facts)
  have "near_keys [T_UINT8, T_STRING] [KInt 7, KBytes [104, 105]] [KInt 7, KBytes [104]]" by simp
  then show ?thesis
    using record_keys_compare_like_rows [OF 3 2(1) record_key2_ok, of 1000 2000 5 4, unfolded k] 4 2(2,3) 1(3) meta record_row_fits(2) record_row2_fits(2)
    by (simp add: apart_def record_key_facts record_key2_facts exact_types_def del: RTYPE.simps) blast
qed

end
