(* ===== verification/DdlRecords.thy ===== *)
theory DdlRecords
  imports DmlRecordProofs Names
begin

text \<open>
  The other messages of \<^verbatim>\<open>message/record.h\<close>: DDL records, the descriptions of databases and tables, and the dispatch of
  \<^verbatim>\<open>createRecord\<close>.  A DDL record that is created and loaded again gives its statement, database, mode and character set.
\<close>

section \<open>DDLRecord\<close>

record DDLRecord =
  ddl_data :: nat
  ddl_sqlMode :: nat
  ddl_charsetId :: nat
  ddl_database :: "nat option"
  ddl_ddl :: nat

text \<open>The number of the character set, \<^verbatim>\<open>ascii\<close> when there is none of that name.\<close>

definition ddl_charset :: "string option \<Rightarrow> nat" where
  "ddl_charset charset = (case charset of None \<Rightarrow> 8 | Some n \<Rightarrow> (case getCharset n of None \<Rightarrow> 8 | Some ci \<Rightarrow> cs_id ci))"

text \<open>
  The database name, a C string given without its terminator.  Its size with the terminator is stored in one byte, and
  as many bytes are copied as that byte says.
\<close>

definition put_database :: "mem \<Rightarrow> nat \<Rightarrow> u8 list option \<Rightarrow> mem" where
  "put_database m d database =
     (if database \<noteq> None \<and> the database \<noteq> [] then
        let m = wr 1 m (d - 1) (length (the database) + 1)
        in write_bytes m d (take (rd 1 m (d - 1)) (the database @ [0]))
      else wr 1 m (d - 1) 0)"

definition ddl_create :: "mem \<Rightarrow> nat \<Rightarrow> string option \<Rightarrow> nat \<Rightarrow> u8 list option \<Rightarrow> u8 list \<Rightarrow> fault + mem \<times> DDLRecord" where
  "ddl_create m data charset sqlMode database query =
     (let m = record_init m data; h = headSize m data;
          m = wr 8 m (data + h) sqlMode;
          m = wr 2 m (data + h + 8) (ddl_charset charset);
          d = data + h + 8 + 2 + 1;
          m = put_database m d database;
          ddl = d + rd 1 m (d - 1);
          m = write_bytes m ddl query
      in if query = [] then Inl OutOfBounds
         else
           let m = (if m (ddl + length query - 1) \<noteq> 0
                    then wr 4 (m(ddl + length query := 0)) (data + H_size) (ddl - data + length query + 1)
                    else wr 4 m (data + H_size) (ddl - data + length query))
           in Inr (m, \<lparr>ddl_data = data, ddl_sqlMode = sqlMode, ddl_charsetId = ddl_charset charset,
                ddl_database = (if database = None \<or> rd 1 m (d - 1) = 0 then None else Some d), ddl_ddl = ddl\<rparr>))"

definition ddl_load :: "mem \<Rightarrow> nat \<Rightarrow> DDLRecord" where
  "ddl_load m data =
     (let h = headSize m data; d = data + h + 8 + 2 + 1
      in \<lparr>ddl_data = data, ddl_sqlMode = rd 8 m (data + h), ddl_charsetId = rd 2 m (data + h + 8), ddl_database = Some d,
          ddl_ddl = d + rd 1 m (d - 1)\<rparr>)"

definition ddl_allocSize :: "nat \<Rightarrow> nat \<Rightarrow> nat" where
  "ddl_allocSize dataBaseSize ddlSize = recordHeadSize + 8 + 2 + 1 + dataBaseSize + ddlSize + 2"

definition databaseSize :: "mem \<Rightarrow> DDLRecord \<Rightarrow> fault + nat" where
  "databaseSize m r = (case ddl_database r of None \<Rightarrow> Inl NullDeref | Some d \<Rightarrow> Inr (rd 1 m (d - 1)))"

definition ddlSize :: "mem \<Rightarrow> DDLRecord \<Rightarrow> u32" where
  "ddlSize m r = word_of_nat (rd 4 m (ddl_data r + H_size)) - word_of_nat (ddl_ddl r - ddl_data r)"

section \<open>DatabaseMetaMessage and TableMetaMessage\<close>

record DatabaseMetaMessage =
  dm_data :: nat
  dm_id :: nat
  dm_charsetID :: nat
  dm_dbName :: nat

definition dm_read :: "mem \<Rightarrow> nat \<Rightarrow> DatabaseMetaMessage" where
  "dm_read m data =
     (let h = headSize m data in
      \<lparr>dm_data = data, dm_id = rd 8 m (data + h), dm_charsetID = rd 2 m (data + h + 8), dm_dbName = data + h + 8 + 2\<rparr>)"

text \<open>The packed \<^verbatim>\<open>columnDef\<close>, 29 bytes.\<close>

record columnDef =
  cd_type :: nat
  cd_srcType :: nat
  cd_flag :: nat
  cd_charsetID :: nat
  cd_size :: nat
  cd_precision :: nat
  cd_decimals :: nat
  cd_nameOffset :: nat
  cd_collateOffset :: nat
  cd_setOrEnumInfoOffset :: nat

definition columnDefSize :: nat where "columnDefSize = 29"

definition columnDef_at :: "mem \<Rightarrow> nat \<Rightarrow> columnDef" where
  "columnDef_at m a =
     \<lparr>cd_type = rd 1 m a, cd_srcType = rd 1 m (a + 1), cd_flag = rd 1 m (a + 2), cd_charsetID = rd 2 m (a + 3),
      cd_size = rd 4 m (a + 5), cd_precision = rd 4 m (a + 9), cd_decimals = rd 4 m (a + 13), cd_nameOffset = rd 4 m (a + 17),
      cd_collateOffset = rd 4 m (a + 21), cd_setOrEnumInfoOffset = rd 4 m (a + 25)\<rparr>"

text \<open>The packed \<^verbatim>\<open>tableMetaHead\<close>, 17 bytes.\<close>

record tableMetaHead =
  mh_tableMetaID :: nat
  mh_charsetId :: nat
  mh_columnCount :: nat
  mh_primaryKeyColumnCount :: nat
  mh_uniqueKeyCount :: nat
  mh_caseSensitive :: nat

definition metaHeadSize :: nat where "metaHeadSize = 17"

definition metaHead_at :: "mem \<Rightarrow> nat \<Rightarrow> tableMetaHead" where
  "metaHead_at m a =
     \<lparr>mh_tableMetaID = rd 8 m a, mh_charsetId = rd 2 m (a + 8), mh_columnCount = rd 2 m (a + 10),
      mh_primaryKeyColumnCount = rd 2 m (a + 12), mh_uniqueKeyCount = rd 2 m (a + 14), mh_caseSensitive = rd 1 m (a + 16)\<rparr>"

record TableMetaMessage =
  tm_data :: nat
  tm_metaHead :: tableMetaHead
  tm_database :: nat
  tm_table :: nat
  tm_columns :: nat
  tm_primaryKeys :: "nat option"
  tm_uniqueKeyColumnCounts :: "nat option"
  tm_uniqueKeyNameOffset :: "nat list"
  tm_uniqueKeys :: "nat list"

text \<open>The loop over the unique keys: a name offset, then the ids of the columns of the key.\<close>

fun tm_keys :: "mem \<Rightarrow> nat \<Rightarrow> nat list \<Rightarrow> nat list \<times> nat list \<times> nat" where
  "tm_keys m ptr [] = ([], [], ptr)"
| "tm_keys m ptr (c # cs) =
     (case tm_keys m (ptr + 4 + 2 * c) cs of (ns, ks, e) \<Rightarrow> (rd 4 m ptr # ns, (ptr + 4) # ks, e))"

definition skip_block :: "mem \<Rightarrow> nat \<Rightarrow> nat" where "skip_block m ptr = ptr + (rd 4 m ptr + 4)"

definition tm_read :: "mem \<Rightarrow> nat \<Rightarrow> fault + TableMetaMessage" where
  "tm_read m data =
     (let ptr = data + headSize m data; mh = metaHead_at m ptr;
          database = ptr + metaHeadSize + 1;
          table = database + rd 1 m (database - 1);
          columns = table + rd 1 m (table - 1);
          ptr = columns + columnDefSize * mh_columnCount mh;
          pk = (if mh_primaryKeyColumnCount mh \<noteq> 0 then Some ptr else None);
          ptr = ptr + 2 * mh_primaryKeyColumnCount mh;
          counts = (if mh_uniqueKeyCount mh > 0 then Some ptr else None);
          (names, keys, ptr) =
            tm_keys m (ptr + 2 * mh_uniqueKeyCount mh) (map (\<lambda>i. rd 2 m (ptr + 2 * i)) [0..<mh_uniqueKeyCount mh]);
          ptr = skip_block m (skip_block m (skip_block m ptr))
      in if rd 1 m (data + H_version) = 1 \<and> ptr \<noteq> data + rd 4 m (data + H_size) then Inl AssertFailed
         else Inr \<lparr>tm_data = data, tm_metaHead = mh, tm_database = database, tm_table = table, tm_columns = columns,
                tm_primaryKeys = pk, tm_uniqueKeyColumnCounts = counts, tm_uniqueKeyNameOffset = names, tm_uniqueKeys = keys\<rparr>)"

definition tm_column :: "mem \<Rightarrow> TableMetaMessage \<Rightarrow> nat \<Rightarrow> columnDef" where
  "tm_column m msg i = columnDef_at m (tm_columns msg + columnDefSize * i)"

definition tm_columnName :: "mem \<Rightarrow> TableMetaMessage \<Rightarrow> nat \<Rightarrow> nat" where
  "tm_columnName m msg i = tm_data msg + cd_nameOffset (tm_column m msg i)"

definition tm_collateName :: "mem \<Rightarrow> TableMetaMessage \<Rightarrow> nat \<Rightarrow> nat option" where
  "tm_collateName m msg i =
     (if cd_collateOffset (tm_column m msg i) = 0 then None else Some (tm_data msg + cd_collateOffset (tm_column m msg i)))"

text \<open>The base address, the address of the offsets and their number.\<close>

definition tm_setOrEnumValues :: "mem \<Rightarrow> TableMetaMessage \<Rightarrow> nat \<Rightarrow> (nat \<times> nat \<times> nat) option" where
  "tm_setOrEnumValues m msg i =
     (if cd_setOrEnumInfoOffset (tm_column m msg i) \<noteq> 0 then
        let base = tm_data msg + cd_setOrEnumInfoOffset (tm_column m msg i) in Some (base, base + 2, rd 2 m base)
      else None)"

section \<open>createRecord\<close>

datatype message = Dml "DMLRecord option" | Ddl DDLRecord | TableDesc TableMetaMessage | DatabaseDesc DatabaseMetaMessage | Plain nat

definition createRecord :: "(nat \<Rightarrow> tableMeta option) \<Rightarrow> mem \<Rightarrow> nat \<Rightarrow> fault + message" where
  "createRecord mc m data =
     (let ty = head_type m data in
      if ty \<in> {RTYPE R_INSERT, RTYPE R_DELETE, RTYPE R_UPDATE, RTYPE R_REPLACE} then Inr (Dml (dml_read mc m data))
      else if ty = RTYPE R_DDL then Inr (Ddl (ddl_load m data))
      else if ty = RTYPE R_TABLE_META then sbind (tm_read m data) (\<lambda>t. Inr (TableDesc t))
      else if ty = RTYPE R_DATABASE_META then Inr (DatabaseDesc (dm_read m data))
      else Inr (Plain data))"

section \<open>DDL records are read back\<close>

lemma charset_id_bound: "ddl_charset c < 65536"
proof -
  have "cs_id ci < 65536" if g: "getCharset n = Some ci" for n ci
  proof -
    have e: "int MAX_CHARSET - 1 < int MAX_CHARSET" by simp
    obtain k i where "(k, i) \<in> set sortedCharsetInfo" "ci = charsets ! i"
      using charset_search_sound [OF g [unfolded getCharset_def] _ e] by auto
    then have "ci \<in> set charsets" using table_names by (auto simp: list_all_iff)
    then show ?thesis by (auto simp: charsets_def)
  qed
  then show ?thesis by (auto simp: ddl_charset_def split: option.splits)
qed

text \<open>The bytes behind the head: mode, character set, size and name of the database, statement.\<close>

definition db_name :: "u8 list option \<Rightarrow> u8 list" where
  "db_name database = (case database of None \<Rightarrow> [] | Some s \<Rightarrow> if s = [] then [] else s @ [0])"

definition ddl_text :: "u8 list \<Rightarrow> u8 list" where
  "ddl_text query = (if last query = 0 then query else query @ [0])"

definition ddl_body :: "string option \<Rightarrow> nat \<Rightarrow> u8 list option \<Rightarrow> u8 list \<Rightarrow> u8 list" where
  "ddl_body charset sqlMode database query =
     le_bytes 8 sqlMode @ le_bytes 2 (ddl_charset charset) @ [word_of_nat (length (db_name database))] @ db_name database @ ddl_text query"

lemma wr_1_write: "wr (Suc 0) m a v = write_bytes m a [word_of_nat v]"
  by (simp add: wr_def)

lemma write_1: "write_bytes m a [x] a = x"
  by (simp add: write_bytes_def)

lemma put_database_bytes:
  assumes "length (db_name database) < 256" and "0 < d"
  shows "put_database m d database = write_bytes m (d - 1) ([word_of_nat (length (db_name database))] @ db_name database)"
proof (cases "database = None \<or> database = Some []")
  case True
  then show ?thesis by (auto simp: put_database_def db_name_def wr_1_write)
next
  case False
  then obtain s where s: "database = Some s" "s \<noteq> []" by (cases database) auto
  then have l: "db_name database = s @ [0]" by (simp add: db_name_def)
  have "unat (word_of_nat (length (s @ [0])) :: u8) = length (s @ [0])" using assms(1) l by (simp add: unat_of_nat del: length_append)
  then have "put_database m d database = write_bytes (write_bytes m (d - 1) [word_of_nat (length (s @ [0]))]) d (s @ [0])"
    using s by (simp add: put_database_def wr_1_write write_1)
  then show ?thesis using assms(2) unfolding l by (simp add: write_bytes_append)
qed

lemma ddl_create_bytes:
  fixes data :: nat
  assumes "query \<noteq> []" and db: "length (db_name database) < 256"
  defines "ddl \<equiv> data + 49 + length (db_name database)"
  shows "ddl_create m data charset sqlMode database query =
    Inr (wr 4 (write_bytes (record_init m data) (data + 38) (ddl_body charset sqlMode database query)) data
           (49 + length (db_name database) + length (ddl_text query)),
      \<lparr>ddl_data = data, ddl_sqlMode = sqlMode, ddl_charsetId = ddl_charset charset,
       ddl_database = (if db_name database = [] then None else Some (data + 49)), ddl_ddl = ddl\<rparr>)"
proof -
  let ?i = "record_init m data" and ?c = "le_bytes 2 (ddl_charset charset)" and ?n = "db_name database"
  let ?s = "[word_of_nat (length ?n)] :: u8 list"
  define m1 where "m1 = write_bytes ?i (data + 38) (le_bytes 8 sqlMode @ ?c @ ?s @ ?n)"
  have p: "put_database (wr 2 (wr 8 ?i (data + 38) sqlMode) (data + 46) (ddl_charset charset)) (data + 49) database = m1"
    using put_database_bytes [OF db] by (simp add: m1_def wr_def write_bytes_append)
  have "m1 (data + 48) = word_of_nat (length ?n)"
    using write_bytes_inside [of 10 "le_bytes 8 sqlMode @ ?c @ ?s @ ?n" ?i "data + 38"] by (simp add: m1_def nth_append add.commute [of 48])
  then have r: "rd 1 m1 (data + 48) = length ?n" using db by (simp add: unat_of_nat)
  define m2 where "m2 = write_bytes m1 ddl query"
  have "ddl + length query - 1 = ddl + (length query - 1)" using assms(1) by (cases query) simp_all
  then have l: "m2 (ddl + length query - 1) = last query"
    using write_bytes_inside [of "length query - 1" query m1 ddl] assms(1) by (simp add: m2_def last_conv_nth)
  have "m2(ddl + length query := 0) = write_bytes m2 (ddl + length query) [0]" by (auto simp: write_bytes_def)
  with l have t: "(if m2 (ddl + length query - 1) \<noteq> 0 then m2(ddl + length query := 0) else m2) = write_bytes m1 ddl (ddl_text query)"
    by (simp add: m2_def ddl_text_def write_bytes_append)
  have b: "write_bytes m1 ddl (ddl_text query) = write_bytes ?i (data + 38) (ddl_body charset sqlMode database query)"
    by (simp add: m1_def write_bytes_append ddl_def ddl_body_def)
  define m3 where "m3 = write_bytes ?i (data + 38) (ddl_body charset sqlMode database query)"
  have "wr 4 m3 data v (data + 48) = m1 (data + 48)" for v
  proof -
    have "m3 (data + 48) = m1 (data + 48)" unfolding m3_def b [symmetric] by (rule write_bytes_outside) (simp add: ddl_def)
    then show ?thesis by (simp add: wr_outside)
  qed
  then have z: "rd 1 (wr 4 m3 data v) (data + 48) = length ?n" for v using r by simp
  have n: "(database = None \<or> length ?n = 0) = (?n = [])" by (auto simp: db_name_def)
  have e: "data + 38 + 8 = data + 46" "data + 46 + 2 + 1 = data + 49" "data + 49 - 1 = data + 48" by simp_all
  define M where "M = (if m2 (ddl + length query - 1) \<noteq> 0
    then wr 4 (m2(ddl + length query := 0)) (data + H_size) (ddl - data + length query + 1)
    else wr 4 m2 (data + H_size) (ddl - data + length query))"
  have "M = wr 4 m3 data (49 + length ?n + length (ddl_text query))"
  proof (cases "last query = 0")
    case True
    with l t b show ?thesis by (simp add: M_def m3_def head_offsets ddl_def ddl_text_def)
  next
    case False
    with l t b show ?thesis by (simp add: M_def m3_def head_offsets ddl_def ddl_text_def)
  qed
  moreover have "ddl_create m data charset sqlMode database query =
    Inr (M, \<lparr>ddl_data = data, ddl_sqlMode = sqlMode, ddl_charsetId = ddl_charset charset,
       ddl_database = (if database = None \<or> rd 1 M (data + 48) = 0 then None else Some (data + 49)), ddl_ddl = ddl\<rparr>)"
    unfolding ddl_create_def Let_def headSize_init e p r ddl_def [symmetric] m2_def [symmetric] M_def [symmetric]
    using assms(1) by (simp only: if_False)
  ultimately show ?thesis using z n by (simp only: m3_def)
qed

text \<open>
  C18: A DDL record that is created is loaded again with its SQL mode, character set, database name and statement, both
  NUL-terminated; the record fits the \<^verbatim>\<open>allocSize\<close> bytes that callers reserve for it and no byte outside them changes.
  The database name must be shorter than 255 bytes, because its size is kept in one byte.
\<close>

theorem ddl_roundtrip:
  assumes "query \<noteq> []" and "length (db_name database) < 256" and "sqlMode < 2 ^ 64"
    and "49 + length (db_name database) + length (ddl_text query) < 2 ^ 32"
  shows "\<exists>m' r. ddl_create m data charset sqlMode database query = Inr (m', r) \<and>
    (let l = ddl_load m' data in
       ddl_sqlMode l = sqlMode \<and> ddl_charsetId l = ddl_charset charset \<and>
       databaseSize m' l = Inr (length (db_name database)) \<and>
       (\<exists>d. ddl_database l = Some d \<and> read_bytes m' d (length (db_name database)) = db_name database) \<and>
       ddlSize m' l = word_of_nat (length (ddl_text query)) \<and>
       read_bytes m' (ddl_ddl l) (length (ddl_text query)) = ddl_text query \<and>
       rd 4 m' (data + H_size) \<le> ddl_allocSize (length (case database of None \<Rightarrow> [] | Some s \<Rightarrow> s)) (length query) \<and>
       (\<forall>a. a < data \<or> data + rd 4 m' (data + H_size) \<le> a \<longrightarrow> m' a = m a))"
proof -
  let ?b = "ddl_body charset sqlMode database query" and ?n = "db_name database" and ?q = "ddl_text query"
  define m1 where "m1 = write_bytes (record_init m data) (data + 38) ?b"
  define m' where "m' = wr 4 m1 data (49 + length ?n + length ?q)"
  have lb: "length ?b = 11 + length ?n + length ?q" by (simp add: ddl_body_def)
  have hs: "headSize m' data = 38"
  proof -
    have "same_on (record_init m data) m1 data 38" unfolding m1_def by (rule same_on_write) simp
    then have "m1 (data + 5) = record_init m data (data + 5)" by (simp add: same_on_def)
    then show ?thesis using headSize_init [of m data] by (simp add: m'_def head_offsets wr_outside)
  qed
  have sz: "rd 4 m' (data + H_size) = 49 + length ?n + length ?q"
    using assms(4) by (simp add: m'_def head_offsets rd_wr_same)
  have inner: "read_bytes m' (data + 38 + k) l = take l (drop k ?b)" if "k + l \<le> length ?b" for k l
    using write_bytes_inner [of "data + 38" "data + 38 + k" l ?b "record_init m data"] that
    by (simp add: m'_def m1_def read_bytes_wr_other)
  have mode: "rd 8 m' (data + 38) = sqlMode" using inner [of 0 8] assms(3) by (simp add: lb rd_def ddl_body_def le_val_le_bytes)
  have cs: "rd 2 m' (data + 46) = ddl_charset charset"
    using inner [of 8 2] charset_id_bound [of charset] by (simp add: add.commute [of 46] lb rd_def ddl_body_def le_val_le_bytes)
  have "read_bytes m' (data + 48) 1 = [word_of_nat (length ?n)]" using inner [of 10 1] by (simp add: add.commute [of 48] lb ddl_body_def)
  then have dbs: "rd 1 m' (data + 48) = length ?n" using assms(2) by (simp add: read_bytes_Suc unat_of_nat)
  have db: "read_bytes m' (data + 49) (length ?n) = ?n" using inner [of 11 "length ?n"] by (simp add: add.commute [of 49] lb ddl_body_def)
  have q: "read_bytes m' (data + 49 + length ?n) (length ?q) = ?q" using inner [of "11 + length ?n" "length ?q"]
    by (simp add: lb ddl_body_def ac_simps)
  have load: "ddl_load m' data = \<lparr>ddl_data = data, ddl_sqlMode = sqlMode, ddl_charsetId = ddl_charset charset,
      ddl_database = Some (data + 49), ddl_ddl = data + 49 + length ?n\<rparr>"
    unfolding ddl_load_def hs Let_def using mode cs dbs by (simp add: add.commute [of _ data])
  have out: "m' a = m a" if a: "a < data \<or> data + (49 + length ?n + length ?q) \<le> a" for a
  proof -
    have "record_init m data a = m a" using record_init_same [of a 1 data m] a by (auto simp: same_on_def)
    moreover have "m1 a = record_init m data a" unfolding m1_def by (rule write_bytes_outside) (use a lb in auto)
    moreover have "m' a = m1 a" unfolding m'_def by (rule wr_outside) (use a in auto)
    ultimately show ?thesis by simp
  qed
  have fit: "49 + length ?n + length ?q \<le> ddl_allocSize (length (case database of None \<Rightarrow> [] | Some s \<Rightarrow> s)) (length query)"
    by (auto simp: ddl_allocSize_def head_offsets db_name_def ddl_text_def split: option.splits)
  have "ddlSize m' (ddl_load m' data) = word_of_nat (length ?q)" using sz by (simp add: ddlSize_def load)
  moreover have "databaseSize m' (ddl_load m' data) = Inr (length ?n)" using dbs by (simp add: databaseSize_def load add.commute [of _ data])
  moreover have "ddl_create m data charset sqlMode database query = Inr (m', \<lparr>ddl_data = data, ddl_sqlMode = sqlMode,
      ddl_charsetId = ddl_charset charset, ddl_database = (if ?n = [] then None else Some (data + 49)), ddl_ddl = data + 49 + length ?n\<rparr>)"
    unfolding m'_def m1_def by (rule ddl_create_bytes [OF assms(1,2)])
  ultimately show ?thesis using db q fit out sz by (simp add: Let_def load)
qed

theorem ddl_roundtrip_witness:
  "\<exists>m' r. ddl_create (\<lambda>_. 0) 100 None 5 (Some [100, 98]) [113] = Inr (m', r) \<and> ddl_sqlMode (ddl_load m' 100) = 5 \<and>
          ddl_charsetId (ddl_load m' 100) = 8 \<and> read_bytes m' (ddl_ddl (ddl_load m' 100)) 2 = [113, 0]"
proof -
  have t: "ddl_text [113] = [113, 0]" "db_name (Some [100, 98]) = [100, 98, 0]" by (simp_all add: ddl_text_def db_name_def)
  have "\<exists>m' r. ddl_create (\<lambda>_. 0) 100 None 5 (Some [100, 98]) [113] = Inr (m', r) \<and> ddl_sqlMode (ddl_load m' 100) = 5 \<and>
          ddl_charsetId (ddl_load m' 100) = ddl_charset None \<and> read_bytes m' (ddl_ddl (ddl_load m' 100)) (length (ddl_text [113])) = ddl_text [113]"
    using ddl_roundtrip [of "[113]" "Some [100, 98]" 5 "\<lambda>_. 0" 100 None] unfolding t by (auto simp: Let_def)
  then show ?thesis unfolding t by (simp add: ddl_charset_def numeral_2_eq_2)
qed

lemma tm_read_fields:
  assumes "tm_read m data = Inr msg"
  shows "tm_database msg = data + headSize m data + 17 + 1"
    and "tm_table msg = tm_database msg + rd 1 m (tm_database msg - 1)"
    and "tm_columns msg = tm_table msg + rd 1 m (tm_table msg - 1)"
  using assms unfolding tm_read_def Let_def metaHeadSize_def by (auto simp del: rd_1 split: if_splits prod.splits)

text \<open>
  \<^verbatim>\<open>TableMetaMessage\<close> does not read the message layout that its comment documents.  When the head is followed by the
  size of the database name, the name with its terminator, the size of the table name and the table name with its
  terminator, the table name is taken to start at its size byte, and the column definitions are taken to start there too.
\<close>

theorem tm_read_misses_table_name:
  assumes "headSize m data = 38" and "length db < 255"
    and "read_bytes m (data + 55) (length db + 3 + length table + 1) =
         [word_of_nat (length db + 1)] @ db @ [0] @ [word_of_nat (length table + 1)] @ table @ [0]"
    and "tm_read m data = Inr msg"
  shows "tm_database msg = data + 56 \<and> tm_table msg = data + 56 + length db + 1 \<and>
    m (tm_table msg) = word_of_nat (length table + 1) \<and> tm_columns msg = tm_table msg"
proof -
  let ?l = "[word_of_nat (length db + 1)] @ db @ [0] @ [word_of_nat (length table + 1)] @ table @ [0] :: u8 list"
  have at: "m (data + 55 + k) = ?l ! k" if "k < length db + 3 + length table + 1" for k
    using that arg_cong [OF assms(3), of "\<lambda>l. l ! k"] by (simp only: nth_read_bytes)
  have "m (data + 55) = word_of_nat (length db + 1)" using at [of 0] by simp
  then have d: "rd 1 m (data + 55) = length db + 1" using assms(2) by (simp add: unat_of_nat del: of_nat_Suc)
  have z: "rd 1 m (data + 56 + length db) = 0" using at [of "length db + 1"] by (simp add: nth_append ac_simps)
  have t: "m (data + 56 + length db + 1) = word_of_nat (length table + 1)" using at [of "length db + 2"] by (simp add: nth_append ac_simps)
  note f = tm_read_fields [OF assms(4), unfolded assms(1)]
  have "tm_database msg = data + 56" using f(1) by simp
  moreover from this have "tm_table msg = data + 56 + length db + 1" using f(2) d by (simp add: add.commute [of 55])
  moreover from this have "tm_columns msg = data + 56 + length db + 1" using f(3) z by (simp add: ac_simps)
  ultimately have "tm_database msg = data + 56" "tm_table msg = data + 56 + length db + 1" "tm_columns msg = data + 56 + length db + 1"
    by blast+
  then show ?thesis using t by simp
qed

definition table_message :: mem where
  "table_message = write_bytes (\<lambda>a. if a = 5 then 38 else 0) 55 [2, 97, 0, 2, 98, 0]"

lemma tm_read_other_version: "rd 1 m (data + H_version) \<noteq> 1 \<Longrightarrow> \<exists>msg. tm_read m data = Inr msg"
  by (simp add: tm_read_def Let_def del: rd_1 split: prod.split)

theorem tm_read_misses_table_name_witness:
  "\<exists>msg. tm_read table_message 0 = Inr msg \<and> tm_table msg = 58 \<and> tm_columns msg = 58"
proof -
  have h: "headSize table_message 0 = 38" by (simp add: table_message_def head_offsets write_bytes_def)
  have b: "read_bytes table_message (0 + 55) (length [97 :: u8] + 3 + length [98 :: u8] + 1) =
    [word_of_nat (length [97 :: u8] + 1)] @ [97] @ [0] @ [word_of_nat (length [98 :: u8] + 1)] @ [98] @ [0]"
    by (simp add: table_message_def read_bytes_numeral read_bytes_Suc write_bytes_def)
  have "rd 1 table_message (0 + H_version) \<noteq> 1" by (simp add: table_message_def head_offsets write_bytes_def)
  then obtain msg where m: "tm_read table_message 0 = Inr msg" using tm_read_other_version by blast
  show ?thesis using tm_read_misses_table_name [OF h _ b m] m by simp
qed

end
