(* ===== verification/Timeline.thy ===== *)
theory Timeline
  imports MetaDataProofs
begin

text \<open>
  The timeline of the versions of a description (\<^verbatim>\<open>meta/metaTimeline.h\<close>): a chain of versions, newest first, each valid
  from a position of the log on.  \<^verbatim>\<open>get\<close> finds the version of a position, also while \<^verbatim>\<open>put\<close> appends new ones.
\<close>

section \<open>State and operations\<close>

text \<open>
  The chain from \<^verbatim>\<open>m_current\<close> along \<^verbatim>\<open>prev\<close>.  A deleted node stays in the chain, because nothing unlinks it; reading it
  is an access to freed memory.
\<close>

record 'a MetaInfo =
  mi_meta :: "'a option"
  mi_startPos :: nat
  mi_freed :: bool

record 'a MetaTimeline =
  tl_chain :: "'a MetaInfo list"
  tl_id :: u64
  tl_version :: u16
  tl_name :: string

definition tl_new :: "u64 \<Rightarrow> string \<Rightarrow> 'a MetaTimeline" where
  "tl_new i n = \<lparr>tl_chain = [], tl_id = i, tl_version = 0, tl_name = n\<rparr>"

definition tl_setID :: "'a MetaTimeline \<Rightarrow> u64 \<Rightarrow> 'a MetaTimeline" where
  "tl_setID t i = t\<lparr>tl_id := i\<rparr>"

text \<open>The walks of \<^verbatim>\<open>get\<close>: the first node that starts before the position.\<close>

fun tl_walk :: "'a MetaInfo list \<Rightarrow> nat \<Rightarrow> fault + 'a MetaInfo option" where
  "tl_walk [] cp = Inr None"
| "tl_walk (n # ns) cp =
     (if mi_freed n then Inl UseAfterFree else if mi_startPos n < cp then Inr (Some n) else tl_walk ns cp)"

text \<open>
  \<^verbatim>\<open>get\<close> reads \<^verbatim>\<open>m_current\<close> twice: \<open>ns\<close> is the chain it found first, \<open>newer\<close> the versions that were put before it looked
  again.  Alone, it runs with \<open>newer = []\<close>.
\<close>

definition tl_get_during :: "'a MetaInfo list \<Rightarrow> 'a MetaInfo list \<Rightarrow> nat \<Rightarrow> fault + 'a option" where
  "tl_get_during newer ns cp =
     (case ns of [] \<Rightarrow> Inl NullDeref
      | cur # older \<Rightarrow>
          if mi_freed cur then Inl UseAfterFree
          else if mi_startPos cur \<le> cp then
            sbind (tl_walk newer cp) (\<lambda>r. Inr (case r of Some n \<Rightarrow> mi_meta n | None \<Rightarrow> mi_meta cur))
          else sbind (tl_walk older cp) (\<lambda>r. Inr (case r of Some n \<Rightarrow> mi_meta n | None \<Rightarrow> None)))"

definition tl_get :: "'a MetaTimeline \<Rightarrow> nat \<Rightarrow> fault + 'a option" where
  "tl_get t cp = tl_get_during [] (tl_chain t) cp"

text \<open>
  \<^verbatim>\<open>put\<close> numbers the description, also when it then refuses it.  \<open>set_id\<close> stores into the member \<^verbatim>\<open>m_id\<close> of the
  template argument.
\<close>

definition tl_node :: "(u64 \<Rightarrow> 'a \<Rightarrow> 'a) \<Rightarrow> 'a MetaTimeline \<Rightarrow> 'a option \<Rightarrow> nat \<Rightarrow> 'a MetaInfo" where
  "tl_node set_id t meta cp =
     \<lparr>mi_meta = map_option (set_id (genTableId (tl_id t) (tl_version t))) meta, mi_startPos = cp, mi_freed = False\<rparr>"

definition tl_count :: "'a MetaTimeline \<Rightarrow> 'a option \<Rightarrow> 'a MetaTimeline" where
  "tl_count t meta = (if meta \<noteq> None then t\<lparr>tl_version := tl_version t + 1\<rparr> else t)"

definition tl_put :: "(u64 \<Rightarrow> 'a \<Rightarrow> 'a) \<Rightarrow> 'a MetaTimeline \<Rightarrow> 'a option \<Rightarrow> nat \<Rightarrow> fault + int \<times> 'a MetaTimeline" where
  "tl_put set_id t meta cp =
     (let node = tl_node set_id t meta cp; t = tl_count t meta
      in case tl_chain t of [] \<Rightarrow> Inr (0, t\<lparr>tl_chain := [node]\<rparr>)
         | cur # older \<Rightarrow>
             if mi_freed cur then Inl UseAfterFree
             else if mi_startPos cur \<ge> cp then Inr (-1, t) else Inr (0, t\<lparr>tl_chain := node # tl_chain t\<rparr>))"

definition tl_disableCurrent :: "(u64 \<Rightarrow> 'a \<Rightarrow> 'a) \<Rightarrow> 'a MetaTimeline \<Rightarrow> nat \<Rightarrow> fault + int \<times> 'a MetaTimeline" where
  "tl_disableCurrent set_id t cp = tl_put set_id t None cp"

text \<open>\<^verbatim>\<open>purge\<close> deletes the newest version that starts at or before the position and everything older.\<close>

fun purge_free :: "'a MetaInfo list \<Rightarrow> fault + 'a MetaInfo list" where
  "purge_free [] = Inr []"
| "purge_free (n # ns) =
     (if mi_freed n then Inl UseAfterFree else sbind (purge_free ns) (\<lambda>ns. Inr (n\<lparr>mi_freed := True\<rparr> # ns)))"

fun purge_chain :: "'a MetaInfo list \<Rightarrow> nat \<Rightarrow> fault + 'a MetaInfo list" where
  "purge_chain [] cp = Inr []"
| "purge_chain (n # ns) cp =
     (if mi_freed n then Inl UseAfterFree
      else if cp < mi_startPos n then sbind (purge_chain ns cp) (\<lambda>ns. Inr (n # ns))
      else purge_free (n # ns))"

definition tl_purge :: "'a MetaTimeline \<Rightarrow> nat \<Rightarrow> fault + 'a MetaTimeline" where
  "tl_purge t cp = sbind (purge_chain (tl_chain t) cp) (\<lambda>ns. Inr (t\<lparr>tl_chain := ns\<rparr>))"

section \<open>Chains that puts build\<close>

text \<open>Positions decrease along the chain, and no node is freed.\<close>

definition tl_ok :: "'a MetaInfo list \<Rightarrow> bool" where
  "tl_ok ns \<longleftrightarrow> sorted_wrt (\<lambda>a b. mi_startPos b < mi_startPos a) ns \<and> (\<forall>n \<in> set ns. \<not> mi_freed n)"

lemma tl_ok_Cons: "tl_ok (n # ns) \<longleftrightarrow> \<not> mi_freed n \<and> (\<forall>k \<in> set ns. mi_startPos k < mi_startPos n) \<and> tl_ok ns"
  by (auto simp: tl_ok_def)

lemma tl_ok_append: "tl_ok (xs @ ys) \<longleftrightarrow> tl_ok xs \<and> tl_ok ys \<and> (\<forall>x \<in> set xs. \<forall>y \<in> set ys. mi_startPos y < mi_startPos x)"
  by (auto simp: tl_ok_def sorted_wrt_append)

text \<open>The timelines that a sequence of puts, accepted or refused, can build.\<close>

inductive tl_reach :: "(u64 \<Rightarrow> 'a \<Rightarrow> 'a) \<Rightarrow> 'a MetaTimeline \<Rightarrow> bool" for set_id where
  start: "tl_reach set_id (tl_new i n)"
| set_id: "tl_reach set_id t \<Longrightarrow> tl_reach set_id (tl_setID t i)"
| put: "tl_reach set_id t \<Longrightarrow> tl_put set_id t meta cp = Inr (r, t') \<Longrightarrow> tl_reach set_id t'"

lemma tl_count_chain [simp]: "tl_chain (tl_count t meta) = tl_chain t"
  by (simp add: tl_count_def)

lemma tl_put_ok:
  assumes "tl_ok (tl_chain t)"
  shows "tl_put set_id t meta cp =
    (if \<exists>n \<in> set (tl_chain t). cp \<le> mi_startPos n then Inr (-1, tl_count t meta)
     else Inr (0, (tl_count t meta)\<lparr>tl_chain := tl_node set_id t meta cp # tl_chain t\<rparr>))"
proof (cases "tl_chain t")
  case Nil
  then show ?thesis by (simp add: tl_put_def Let_def)
next
  case (Cons cur older)
  with assms have "\<not> mi_freed cur" "\<forall>k \<in> set older. mi_startPos k < mi_startPos cur" by (simp_all add: tl_ok_Cons)
  with Cons show ?thesis by (auto simp: tl_put_def Let_def)
qed

lemma tl_reach_ok: "tl_reach set_id t \<Longrightarrow> tl_ok (tl_chain t)"
proof (induction rule: tl_reach.induct)
  case (put t meta cp r t')
  then show ?case by (auto simp: tl_put_ok tl_ok_Cons tl_node_def not_le split: if_splits)
qed (simp_all add: tl_new_def tl_setID_def tl_ok_def)

section \<open>Which version get finds\<close>

text \<open>\<open>r\<close> is the description that governs the position: that of the version with the greatest start at or before it.\<close>

definition governs :: "'a MetaInfo set \<Rightarrow> nat \<Rightarrow> 'a option \<Rightarrow> bool" where
  "governs vs cp r \<longleftrightarrow>
     (let ws = {n \<in> vs. mi_startPos n \<le> cp} in
      if ws = {} then r = None else \<exists>n \<in> ws. (\<forall>k \<in> ws. mi_startPos k \<le> mi_startPos n) \<and> r = mi_meta n)"

lemma governsI:
  assumes "n \<in> vs" and "mi_startPos n \<le> cp" and "\<And>k. k \<in> vs \<Longrightarrow> mi_startPos k \<le> mi_startPos n"
  shows "governs vs cp (mi_meta n)"
  using assms unfolding governs_def by auto

lemma governs_cong:
  assumes "\<And>n. mi_startPos n \<le> cp \<Longrightarrow> n \<in> A \<longleftrightarrow> n \<in> B"
  shows "governs A cp r \<longleftrightarrow> governs B cp r"
proof -
  have "{n \<in> A. mi_startPos n \<le> cp} = {n \<in> B. mi_startPos n \<le> cp}" using assms by blast
  then show ?thesis by (simp add: governs_def)
qed

lemma tl_walk_find: "tl_ok ns \<Longrightarrow> tl_walk ns cp = Inr (find (\<lambda>n. mi_startPos n < cp) ns)"
  by (induction ns) (auto simp: tl_ok_Cons)

lemma find_governs:
  assumes "tl_ok ns"
  shows "governs {n \<in> set ns. mi_startPos n < cp} cp (case find (\<lambda>n. mi_startPos n < cp) ns of Some n \<Rightarrow> mi_meta n | None \<Rightarrow> None)"
  using assms
proof (induction ns)
  case (Cons n ns)
  have le: "mi_startPos k < mi_startPos n" if "k \<in> set ns" for k using Cons.prems that by (simp add: tl_ok_Cons)
  show ?case
  proof (cases "mi_startPos n < cp")
    case True
    have "governs {k \<in> set (n # ns). mi_startPos k < cp} cp (mi_meta n)"
      by (rule governsI) (use True le in \<open>auto intro: less_imp_le\<close>)
    with True show ?thesis by simp
  next
    case False
    then have "{k \<in> set (n # ns). mi_startPos k < cp} = {k \<in> set ns. mi_startPos k < cp}" by auto
    then show ?thesis using Cons False by (simp add: tl_ok_Cons)
  qed
qed (simp add: governs_def)

text \<open>
  C25: On a timeline that puts have built, \<^verbatim>\<open>get\<close> returns the description that governs the position: that of the version
  with the greatest start position not after it, none when there is no such version.  A superseded version that starts
  exactly at the position is overlooked, because the older versions are compared strictly.
\<close>

theorem timeline_get_governs:
  assumes "tl_reach set_id t" and "tl_chain t \<noteq> []"
  shows "\<exists>r. tl_get t cp = Inr r \<and> governs {n \<in> set (tl_chain t). mi_startPos n \<noteq> cp \<or> n = hd (tl_chain t)} cp r"
proof -
  obtain cur older where c: "tl_chain t = cur # older" using assms(2) by (cases "tl_chain t") auto
  have ok: "\<not> mi_freed cur" "\<And>k. k \<in> set older \<Longrightarrow> mi_startPos k < mi_startPos cur" "tl_ok older"
    using tl_reach_ok [OF assms(1)] by (auto simp: c tl_ok_Cons)
  show ?thesis
  proof (cases "mi_startPos cur \<le> cp")
    case True
    then have "tl_get t cp = Inr (mi_meta cur)" using ok(1) by (simp add: tl_get_def tl_get_during_def c)
    moreover have "governs {n \<in> set (tl_chain t). mi_startPos n \<noteq> cp \<or> n = hd (tl_chain t)} cp (mi_meta cur)"
      using True ok(2) by (intro governsI) (auto simp: c intro: less_imp_le)
    ultimately show ?thesis by blast
  next
    case False
    let ?r = "case find (\<lambda>n. mi_startPos n < cp) older of Some n \<Rightarrow> mi_meta n | None \<Rightarrow> None"
    have "tl_get t cp = Inr ?r" using False ok(1) by (simp add: tl_get_def tl_get_during_def c tl_walk_find [OF ok(3)])
    moreover have "governs {n \<in> set (tl_chain t). mi_startPos n \<noteq> cp \<or> n = hd (tl_chain t)} cp ?r"
    proof -
      have "governs {n \<in> set older. mi_startPos n < cp} cp ?r" by (rule find_governs [OF ok(3)])
      then show ?thesis by (rule governs_cong [THEN iffD1, rotated]) (use False in \<open>auto simp: c\<close>)
    qed
    ultimately show ?thesis by blast
  qed
qed

text \<open>A timeline with two versions, at positions 10 and 20.\<close>

definition two_versions :: "tableMeta MetaTimeline" where
  "two_versions = \<lparr>tl_chain = [tl_node (\<lambda>i t. t\<lparr>tbl_id := i\<rparr>) \<lparr>tl_chain = [], tl_id = 3, tl_version = 1, tl_name = ''t''\<rparr> (Some sample_table) 20,
      tl_node (\<lambda>i t. t\<lparr>tbl_id := i\<rparr>) \<lparr>tl_chain = [], tl_id = 3, tl_version = 0, tl_name = ''t''\<rparr> (Some sample_table) 10],
    tl_id = 3, tl_version = 2, tl_name = ''t''\<rparr>"

lemma two_versions_reach: "tl_reach (\<lambda>i t. t\<lparr>tbl_id := i\<rparr>) two_versions"
proof -
  let ?f = "\<lambda>i (t :: tableMeta). t\<lparr>tbl_id := i\<rparr>"
  obtain t1 where 1: "tl_put ?f (tl_new 3 ''t'') (Some sample_table) 10 = Inr (0, t1)"
    and t1: "t1 = \<lparr>tl_chain = [tl_node ?f \<lparr>tl_chain = [], tl_id = 3, tl_version = 0, tl_name = ''t''\<rparr> (Some sample_table) 10], tl_id = 3, tl_version = 1, tl_name = ''t''\<rparr>"
    by (simp add: tl_put_def tl_new_def tl_count_def Let_def tl_node_def)
  have "tl_put ?f t1 (Some sample_table) 20 = Inr (0, two_versions)"
    by (simp add: t1 two_versions_def tl_put_def tl_count_def Let_def tl_node_def)
  with 1 show ?thesis by (blast intro: tl_reach.intros)
qed

theorem timeline_get_governs_witness:
  "\<exists>r. tl_get two_versions 15 = Inr r \<and>
       governs {n \<in> set (tl_chain two_versions). mi_startPos n \<noteq> 15 \<or> n = hd (tl_chain two_versions)} 15 r"
  by (rule timeline_get_governs [OF two_versions_reach]) (simp add: two_versions_def)

text \<open>
  \<^verbatim>\<open>get\<close> that overlaps puts returns what it would return if it ran alone after them.  It first finds the chain \<open>ns\<close> and
  looks at the versions \<open>newer\<close> that were put in between; its result is that of a \<^verbatim>\<open>get\<close> on the whole chain, unless a
  version starts exactly at the position.
\<close>

theorem timeline_get_concurrent:
  assumes "tl_reach set_id t" and "tl_chain t = newer @ ns" and "ns \<noteq> []" and "cp \<notin> mi_startPos ` set (tl_chain t)"
  shows "tl_get_during newer ns cp = tl_get t cp"
proof -
  have ok: "tl_ok (newer @ ns)" using tl_reach_ok [OF assms(1)] by (simp add: assms(2))
  then have okn: "tl_ok newer" "tl_ok ns" by (simp_all add: tl_ok_append)
  obtain cur older where c: "ns = cur # older" using assms(3) by (cases ns) auto
  have cur: "\<not> mi_freed cur" "tl_ok older" using okn(2) by (simp_all add: c tl_ok_Cons)
  show ?thesis
  proof (cases newer)
    case Nil
    then show ?thesis by (simp add: tl_get_def assms(2))
  next
    case (Cons top rest)
    have top: "\<not> mi_freed top" "mi_startPos top \<noteq> cp" "\<And>k. k \<in> set (rest @ ns) \<Longrightarrow> mi_startPos k < mi_startPos top" "tl_ok (rest @ ns)"
      using ok assms(2,4) Cons by (auto simp: tl_ok_Cons)
    have find: "find P (rest @ js) = (case find P rest of None \<Rightarrow> find P js | Some n \<Rightarrow> Some n)" for P js
      by (induction rest) auto
    show ?thesis
    proof (cases "mi_startPos cur \<le> cp")
      case True
      then have lt: "mi_startPos cur < cp" using assms(2,4) by (auto simp: c le_less)
      show ?thesis
      proof (cases "mi_startPos top \<le> cp")
        case t: True
        then have "tl_get_during newer ns cp = Inr (mi_meta top)"
          using True cur top okn(1) by (simp add: c tl_get_during_def Cons)
        then show ?thesis using t top by (simp add: tl_get_def assms(2) Cons tl_get_during_def)
      next
        case False
        then show ?thesis
          using True lt cur top okn(1)
          by (simp add: tl_get_def assms(2) Cons tl_get_during_def tl_walk_find tl_ok_Cons find c split: option.splits)
      qed
    next
      case False
      then have "\<not> mi_startPos n < cp" if "n \<in> set newer" for n using ok that by (fastforce simp: c tl_ok_append)
      then have "find (\<lambda>n. mi_startPos n < cp) rest = None" "\<not> mi_startPos top \<le> cp"
        using top(2) by (auto simp: Cons find_None_iff le_less)
      then show ?thesis
        using False cur top by (simp add: tl_get_def assms(2) Cons tl_get_during_def tl_walk_find find c)
    qed
  qed
qed

theorem timeline_get_concurrent_witness:
  "tl_get_during [hd (tl_chain two_versions)] (tl (tl_chain two_versions)) 25 = tl_get two_versions 25"
  by (rule timeline_get_concurrent [OF two_versions_reach]) (simp_all add: two_versions_def tl_node_def)

section \<open>Purging\<close>

lemma purge_free_ok: "\<forall>n \<in> set ns. \<not> mi_freed n \<Longrightarrow> purge_free ns = Inr (map (\<lambda>n. n\<lparr>mi_freed := True\<rparr>) ns)"
  by (induction ns) auto

lemma purge_chain_ok:
  "\<forall>n \<in> set ns. \<not> mi_freed n \<Longrightarrow>
   purge_chain ns cp = Inr (takeWhile (\<lambda>n. cp < mi_startPos n) ns @ map (\<lambda>n. n\<lparr>mi_freed := True\<rparr>) (dropWhile (\<lambda>n. cp < mi_startPos n) ns))"
  by (induction ns) (auto simp: purge_free_ok)

lemma tl_walk_freed:
  assumes "\<forall>n \<in> set ns. \<not> mi_freed n \<and> cp \<le> mi_startPos n" and "mi_freed k"
  shows "tl_walk (ns @ k # ks) cp = Inl UseAfterFree"
  using assms by (induction ns) auto

text \<open>
  \<^verbatim>\<open>purge\<close> leaves the chain linked to the deleted versions.  After a purge that deleted a version, \<^verbatim>\<open>get\<close> for every
  position before all remaining versions, and every further purge up to the same position, read freed memory; when the
  current version was deleted, that is every \<^verbatim>\<open>get\<close>.
\<close>

theorem timeline_purge_dangles:
  assumes "tl_reach set_id t" and "\<exists>n \<in> set (tl_chain t). mi_startPos n \<le> cp"
  shows "\<exists>t'. tl_purge t cp = Inr t' \<and>
    (\<forall>cp'. (\<forall>n \<in> set (tl_chain t'). \<not> mi_freed n \<longrightarrow> cp' < mi_startPos n) \<longrightarrow> tl_get t' cp' = Inl UseAfterFree) \<and>
    (\<forall>cp' \<le> cp. tl_purge t' cp' = Inl UseAfterFree)"
proof -
  let ?keep = "takeWhile (\<lambda>n. cp < mi_startPos n) (tl_chain t)" and ?drop = "dropWhile (\<lambda>n. cp < mi_startPos n) (tl_chain t)"
  have free: "\<forall>n \<in> set (tl_chain t). \<not> mi_freed n" using tl_reach_ok [OF assms(1)] by (simp add: tl_ok_def)
  obtain k ks where k: "?drop = k # ks" using assms(2) by (cases ?drop) (auto simp: dropWhile_eq_Nil_conv not_le)
  have keep: "\<forall>n \<in> set ?keep. \<not> mi_freed n \<and> cp < mi_startPos n" using free by (auto dest: set_takeWhileD)
  define ch where "ch = ?keep @ map (\<lambda>n. n\<lparr>mi_freed := True\<rparr>) ?drop"
  have p: "tl_purge t cp = Inr (t\<lparr>tl_chain := ch\<rparr>)" using purge_chain_ok [OF free] by (simp add: tl_purge_def ch_def)
  have get: "tl_get (t\<lparr>tl_chain := ch\<rparr>) cp' = Inl UseAfterFree" if "\<forall>n \<in> set ch. \<not> mi_freed n \<longrightarrow> cp' < mi_startPos n" for cp'
  proof (cases ?keep)
    case Nil
    then show ?thesis by (simp add: tl_get_def tl_get_during_def ch_def k)
  next
    case (Cons a as)
    have "\<forall>n \<in> set ?keep. cp' < mi_startPos n" using that keep by (auto simp: ch_def)
    then have "\<not> mi_freed a" "cp' < mi_startPos a" "\<forall>n \<in> set as. \<not> mi_freed n \<and> cp' \<le> mi_startPos n"
      using keep Cons by (auto intro: less_imp_le)
    then show ?thesis using tl_walk_freed [of as cp' "k\<lparr>mi_freed := True\<rparr>"] by (simp add: tl_get_def tl_get_during_def ch_def k Cons)
  qed
  have purge: "tl_purge (t\<lparr>tl_chain := ch\<rparr>) cp' = Inl UseAfterFree" if "cp' \<le> cp" for cp'
  proof -
    have "purge_chain (ns @ k\<lparr>mi_freed := True\<rparr> # js) cp' = Inl UseAfterFree"
      if "\<forall>n \<in> set ns. \<not> mi_freed n \<and> cp' < mi_startPos n" for ns js using that by (induction ns) auto
    then show ?thesis using keep \<open>cp' \<le> cp\<close> by (force simp: tl_purge_def ch_def k)
  qed
  show ?thesis using p get purge by auto
qed

theorem timeline_purge_dangles_witness:
  "\<exists>t'. tl_purge two_versions 15 = Inr t' \<and> tl_purge t' 15 = Inl UseAfterFree"
  using timeline_purge_dangles [OF two_versions_reach, of 15] by (auto simp: two_versions_def tl_node_def)

end
