(* ===== verification/TableIdTree.thy ===== *)
theory TableIdTree
  imports MetaDataProofs
begin

unbundle bit_operations_syntax

text \<open>
  The tree of table descriptions by id (\<^verbatim>\<open>meta/tableIdTree.h\<close>): a radix tree with 512 slots per node, whose leaf slots
  hold the versions of a table, newest first.
\<close>

section \<open>Data\<close>

text \<open>
  A node of level 0 holds chains of \<^verbatim>\<open>tableMetaWrap\<close> (the empty list is the null pointer), a node of a higher level
  holds nodes.  The fields are the start id, the end id, whether \<^verbatim>\<open>parent\<close> is set, and the slots; inner nodes have their
  level first.  All nodes are \<^verbatim>\<open>serial\<close>.
\<close>

datatype idnode = IdLeaf u64 u64 bool "tableMeta list list" | IdInner nat u64 u64 bool "idnode option list"

fun nd_level :: "idnode \<Rightarrow> nat" where
  "nd_level (IdLeaf _ _ _ _) = 0" | "nd_level (IdInner l _ _ _ _) = l"

fun nd_startId :: "idnode \<Rightarrow> u64" where
  "nd_startId (IdLeaf s _ _ _) = s" | "nd_startId (IdInner _ s _ _ _) = s"

fun nd_endId :: "idnode \<Rightarrow> u64" where
  "nd_endId (IdLeaf _ e _ _) = e" | "nd_endId (IdInner _ _ e _ _) = e"

definition tree_new :: idnode where
  "tree_new = IdLeaf 0 0 False (replicate 512 [])"

text \<open>The slot of an id in a node; the shifted difference is narrowed to 16 bits.\<close>

definition slot_cid :: "nat \<Rightarrow> u64 \<Rightarrow> u64 \<Rightarrow> nat" where
  "slot_cid level start tid = unat (ucast (drop_bit (level * 9) (tid - start)) :: u16)"

text \<open>The start id of a new child: the product is computed as \<^verbatim>\<open>int\<close>.\<close>

definition child_start :: "nat \<Rightarrow> u64 \<Rightarrow> nat \<Rightarrow> u64" where
  "child_start level start cid = start + scast ((word_of_nat cid :: u32) * push_bit (level * 9) 1)"

section \<open>put\<close>

text \<open>
  After the version is stored, the end ids are raised along the parent pointers as long as they are smaller: \<open>up\<close> says
  that the walk reached the node, and the second result whether it goes on to the parent.
\<close>

definition raise_end :: "u64 \<Rightarrow> bool \<Rightarrow> u64 \<Rightarrow> bool \<Rightarrow> u64 \<times> bool" where
  "raise_end e hasParent mid up = (if up \<and> e < mid then (mid, hasParent) else (e, False))"

text \<open>The part of the loop that runs in nodes it has just created.\<close>

fun put_new :: "nat \<Rightarrow> u64 \<Rightarrow> u64 \<Rightarrow> tableMeta \<Rightarrow> fault + idnode \<times> bool" where
  "put_new 0 start tid meta =
     (let cid = slot_cid 0 start tid; (e, up) = raise_end 0 True (tbl_id meta) True in
      if 512 \<le> cid then Inl AssertFailed else Inr (IdLeaf start e True ((replicate 512 [])[cid := [meta]]), up))"
| "put_new (Suc l) start tid meta =
     (let cid = slot_cid (Suc l) start tid in
      if 512 \<le> cid then Inl AssertFailed
      else sbind (put_new l (child_start (Suc l) start cid) tid meta) (\<lambda>(c, up).
        let (e, up) = raise_end 0 True (tbl_id meta) up in
        Inr (IdInner (Suc l) start e True ((replicate 512 None)[cid := Some c]), up)))"

text \<open>The part that runs in the existing nodes.  Only the root may be left by a slot that is too large.\<close>

function put_at :: "idnode \<Rightarrow> u64 \<Rightarrow> tableMeta \<Rightarrow> fault + idnode \<times> bool" where
  "put_at (IdLeaf start e hp ws) tid meta =
     (let cid = slot_cid 0 start tid; (e', up) = raise_end e hp (tbl_id meta) True in
      if length ws \<le> cid then Inl AssertFailed
      else case ws ! cid of
        [] \<Rightarrow> Inr (IdLeaf start e' hp (ws[cid := [meta]]), up)
      | m # ms \<Rightarrow>
          if tableID (tbl_id m) \<noteq> tid \<or> \<not> tableVersion (tbl_id m) < tableVersion (tbl_id meta) then Inl AssertFailed
          else Inr (IdLeaf start e' hp (ws[cid := meta # m # ms]), up))"
| "put_at (IdInner l start e hp cs) tid meta =
     (let cid = slot_cid l start tid in
      if length cs \<le> cid then Inl AssertFailed
      else sbind (case cs ! cid of None \<Rightarrow> put_new (l - 1) (child_start l start cid) tid meta | Some c \<Rightarrow> put_at c tid meta) (\<lambda>(c, up).
        let (e, up) = raise_end e hp (tbl_id meta) up in Inr (IdInner l start e hp (cs[cid := Some c]), up)))"
  by pat_completeness auto
termination
proof (relation "measure (\<lambda>(n, _, _). size n)", goal_cases)
  case (2 l start e hp cs tid meta x c)
  then have "Some c \<in> set cs" by (metis not_le nth_mem)
  then have "size_option size (Some c) \<le> size_list (size_option size) cs" by (rule size_list_estimation') simp
  then show ?case by simp
qed simp

text \<open>A root whose slot is too large becomes the first child of a new root.\<close>

definition grow :: "idnode \<Rightarrow> idnode" where
  "grow r = IdInner (nd_level r + 1) (nd_startId r) (nd_endId r) False ((replicate 512 None)[0 := Some r])"

function tree_put :: "idnode \<Rightarrow> u64 \<Rightarrow> tableMeta \<Rightarrow> fault + idnode" where
  "tree_put r tid meta =
     (if 512 \<le> slot_cid (nd_level r) (nd_startId r) tid then tree_put (grow r) tid meta
      else sbind (put_at r tid meta) (\<lambda>(r, _). Inr r))"
  by pat_completeness auto

lemma slot_cid_nat: "slot_cid l s tid = unat (tid - s) div 512 ^ l mod 65536"
proof -
  have p: "2 ^ (l * 9) = (512 :: nat) ^ l" unfolding mult.commute [of l] power_mult by simp
  have "take_bit 64 (unat (tid - s)) = unat (tid - s)" using unat_bound [of "tid - s"] by (simp add: take_bit_nat_eq_self)
  then have "slot_cid l s tid = take_bit 16 (drop_bit (l * 9) (unat (tid - s)))"
    by (simp add: slot_cid_def unsigned_ucast_eq unsigned_drop_bit_eq)
  then show ?thesis by (simp add: take_bit_eq_mod drop_bit_eq_div p)
qed

termination tree_put
proof (relation "measure (\<lambda>(r, tid, _). unat (tid - nd_startId r) div 512 ^ nd_level r)", goal_cases)
  case (2 r tid meta)
  let ?v = "unat (tid - nd_startId r) div 512 ^ nd_level r"
  have "512 \<le> ?v mod 65536" using 2 by (simp add: slot_cid_nat)
  then have "0 < ?v" by (metis mod_0 not_gr_zero not_numeral_le_zero)
  then have "?v div 512 < ?v" by simp
  then show ?case by (simp add: grow_def div_mult2_eq [of _ "512 ^ nd_level r" 512, symmetric] mult.commute)
qed simp

definition idTree_put :: "idnode \<Rightarrow> tableMeta \<Rightarrow> fault + idnode" where
  "idTree_put r meta = tree_put r (tableID (tbl_id meta)) meta"

section \<open>get and getPrevVersion\<close>

text \<open>The chain of versions in the slot of an id, or null.\<close>

function find_slot :: "idnode \<Rightarrow> u64 \<Rightarrow> tableMeta list" where
  "find_slot (IdLeaf start e hp ws) tid = (let cid = slot_cid 0 start tid in if length ws \<le> cid then [] else ws ! cid)"
| "find_slot (IdInner l start e hp cs) tid =
     (let cid = slot_cid l start tid in
      if length cs \<le> cid then [] else case cs ! cid of None \<Rightarrow> [] | Some c \<Rightarrow> find_slot c tid)"
  by pat_completeness auto
termination
proof (relation "measure (\<lambda>(n, _). size n)", goal_cases)
  case (2 l start e hp cs tid x c)
  then have "Some c \<in> set cs" by (metis not_le nth_mem)
  then have "size_option size (Some c) \<le> size_list (size_option size) cs" by (rule size_list_estimation') simp
  then show ?case by simp
qed simp

fun prev_of :: "tableMeta list \<Rightarrow> u64 \<Rightarrow> tableMeta option" where
  "prev_of [] i = None"
| "prev_of (m # ms) i = (if tbl_id m = i then (case ms of [] \<Rightarrow> None | p # _ \<Rightarrow> Some p) else prev_of ms i)"

definition in_slot :: "idnode \<Rightarrow> u64 \<Rightarrow> (tableMeta list \<Rightarrow> tableMeta option) \<Rightarrow> fault + tableMeta option" where
  "in_slot r tableId f =
     (case find_slot r (tableID tableId) of [] \<Rightarrow> Inr None
      | m # ms \<Rightarrow>
          if tableID (tbl_id m) \<noteq> tableID tableId then Inl AssertFailed
          else if tbl_id m < tableId then Inr None else Inr (f (m # ms)))"

definition idTree_get :: "idnode \<Rightarrow> u64 \<Rightarrow> fault + tableMeta option" where
  "idTree_get r tableId = in_slot r tableId (find (\<lambda>m. tbl_id m = tableId))"

definition idTree_getPrevVersion :: "idnode \<Rightarrow> u64 \<Rightarrow> fault + tableMeta option" where
  "idTree_getPrevVersion r tableId = in_slot r tableId (\<lambda>ms. prev_of ms tableId)"

section \<open>Well-formed trees\<close>

text \<open>The versions of a table in a slot: of that table, newest first.\<close>

definition ok_slot :: "nat \<Rightarrow> tableMeta list \<Rightarrow> bool" where
  "ok_slot i ms \<longleftrightarrow> (\<forall>m \<in> set ms. tableID (tbl_id m) = word_of_nat i) \<and>
     sorted_wrt (\<lambda>a b. tableVersion (tbl_id b) < tableVersion (tbl_id a)) ms"

text \<open>A node of level \<open>l\<close> for the ids from \<open>s\<close> on.\<close>

fun ok_node :: "nat \<Rightarrow> nat \<Rightarrow> idnode \<Rightarrow> bool" where
  "ok_node 0 s n \<longleftrightarrow> (\<exists>e hp ws. n = IdLeaf (word_of_nat s) e hp ws \<and> length ws = 512 \<and> (\<forall>c < 512. ok_slot (s + c) (ws ! c)))"
| "ok_node (Suc l) s n \<longleftrightarrow> (\<exists>e hp cs. n = IdInner (Suc l) (word_of_nat s) e hp cs \<and> length cs = 512 \<and>
     (\<forall>c < 512. \<forall>k. cs ! c = Some k \<longrightarrow> ok_node l (s + c * 512 ^ Suc l) k))"

lemma ok_node_level: "ok_node l s n \<Longrightarrow> nd_level n = l \<and> nd_startId n = word_of_nat s"
  by (cases l) auto

lemma slot_in_range:
  assumes "s \<le> i" and "i < s + 512 ^ Suc l" and "i < 2 ^ 64"
  shows "slot_cid l (word_of_nat s) (word_of_nat i) = (i - s) div 512 ^ l" and "(i - s) div 512 ^ l < 512"
proof -
  show lt: "(i - s) div 512 ^ l < 512" using assms by (simp add: less_mult_imp_div_less)
  have "(word_of_nat i - word_of_nat s :: u64) = word_of_nat (i - s)" using assms(1) by (simp add: of_nat_diff)
  then have "unat (word_of_nat i - word_of_nat s :: u64) = unat (word_of_nat (i - s) :: u64)" by (rule arg_cong)
  also have "\<dots> = i - s" using assms(3) unfolding unat_of_nat by simp
  finally have "unat (word_of_nat i - word_of_nat s :: u64) = i - s" .
  then show "slot_cid l (word_of_nat s) (word_of_nat i) = (i - s) div 512 ^ l" using lt by (simp add: slot_cid_nat)
qed

text \<open>The range of the child in the slot of an id.\<close>

lemma child_range:
  fixes s i :: nat
  assumes "s \<le> i" and "i < s + 512 ^ Suc (Suc l)" and c: "c = (i - s) div 512 ^ Suc l"
  shows "s + c * 512 ^ Suc l \<le> i" and "i < s + c * 512 ^ Suc l + 512 ^ Suc l"
proof -
  have "c * 512 ^ Suc l + (i - s) mod 512 ^ Suc l = i - s" by (simp only: c div_mult_mod_eq)
  moreover have "(i - s) mod 512 ^ Suc l < 512 ^ Suc l" by simp
  ultimately show "s + c * 512 ^ Suc l \<le> i" "i < s + c * 512 ^ Suc l + 512 ^ Suc l" using assms(1) by linarith+
qed

lemma scast_of_nat:
  assumes "n < 2 ^ 31"
  shows "(scast (word_of_nat n :: u32) :: u64) = word_of_nat n"
proof -
  have "sint (word_of_nat n :: u32) = int n" using assms by (simp add: signed_of_nat signed_take_bit_int_eq_self_iff)
  then have "(word_of_int (sint (word_of_nat n :: u32)) :: u64) = word_of_int (int n)" by simp
  then show ?thesis by simp
qed

lemma child_start_nat:
  assumes "c * 512 ^ l < 2 ^ 31"
  shows "child_start l (word_of_nat s) c = word_of_nat (s + c * 512 ^ l)"
proof -
  have "(2 :: u32) ^ (l * 9) = 512 ^ l" unfolding mult.commute [of l] power_mult by simp
  then have "push_bit (l * 9) 1 = (word_of_nat (512 ^ l) :: u32)" by (simp add: push_bit_eq_mult)
  then have "(word_of_nat c :: u32) * push_bit (l * 9) 1 = word_of_nat (c * 512 ^ l)" by (simp only: of_nat_mult)
  then show ?thesis by (simp only: child_start_def scast_of_nat [OF assms] of_nat_add)
qed

section \<open>Finding a slot\<close>

lemma find_slot_leaf:
  assumes "length ws = 512" and "s \<le> i" and "i < s + 512" and "i < 2 ^ 64"
  shows "find_slot (IdLeaf (word_of_nat s) e hp ws) (word_of_nat i) = ws ! (i - s)"
  using slot_in_range [of s i 0] assms by (simp add: find_slot.simps)

lemma find_slot_inner:
  assumes "length cs = 512" and "s \<le> i" and "i < s + 512 ^ Suc (Suc l)" and "i < 2 ^ 64"
  shows "find_slot (IdInner (Suc l) (word_of_nat s) e hp cs) (word_of_nat i) =
    (case cs ! ((i - s) div 512 ^ Suc l) of None \<Rightarrow> [] | Some c \<Rightarrow> find_slot c (word_of_nat i))"
  using slot_in_range [of s i "Suc l"] assms by (simp add: Let_def del: power_Suc split: option.split)

declare find_slot.simps [simp del] put_at.simps [simp del] tree_put.simps [simp del]

section \<open>Putting a version\<close>

text \<open>What a put changes: the versions of the id get a new first element.\<close>

definition put_effect :: "nat \<Rightarrow> nat \<Rightarrow> nat \<Rightarrow> tableMeta \<Rightarrow> (nat \<Rightarrow> tableMeta list) \<Rightarrow> idnode \<Rightarrow> bool" where
  "put_effect l s i meta old n \<longleftrightarrow>
     (\<forall>j. s \<le> j \<and> j < s + 512 ^ Suc l \<and> j < 2 ^ 64 \<longrightarrow>
        find_slot n (word_of_nat j) = (if j = i then meta # old i else old j))"

lemma put_effect_leaf:
  assumes "length ws = 512" and "s \<le> i" and "i < s + 512"
  shows "put_effect 0 s i meta (\<lambda>j. ws ! (j - s)) (IdLeaf (word_of_nat s) e hp (ws[i - s := meta # ws ! (i - s)]))"
proof -
  have lt: "i - s < length ws" using assms by simp
  have "ws[i - s := meta # ws ! (i - s)] ! (j - s) = (if j = i then meta # ws ! (i - s) else ws ! (j - s))" if "s \<le> j" for j
    using lt that assms(2) by (cases "j = i") (auto simp: eq_diff_iff)
  then show ?thesis unfolding put_effect_def using assms(1) by (simp add: find_slot_leaf)
qed

lemma put_effect_inner:
  assumes len: "length cs = 512" and i: "s \<le> i" "i < s + 512 ^ Suc (Suc l)"
    and c: "c = (i - s) div 512 ^ Suc l"
    and k: "put_effect l (s + c * 512 ^ Suc l) i meta (\<lambda>j. case cs ! c of None \<Rightarrow> [] | Some n \<Rightarrow> find_slot n (word_of_nat j)) k"
  shows "put_effect (Suc l) s i meta (\<lambda>j. case cs ! ((j - s) div 512 ^ Suc l) of None \<Rightarrow> [] | Some n \<Rightarrow> find_slot n (word_of_nat j))
    (IdInner (Suc l) (word_of_nat s) e hp (cs[c := Some k]))"
  unfolding put_effect_def
proof (intro allI impI)
  fix j assume j: "s \<le> j \<and> j < s + 512 ^ Suc (Suc l) \<and> j < 2 ^ 64"
  define d where "d = (j - s) div 512 ^ Suc l"
  have lt: "c < length cs" using i by (simp add: len c less_mult_imp_div_less)
  have f: "find_slot (IdInner (Suc l) (word_of_nat s) e hp (cs[c := Some k])) (word_of_nat j) =
    (case cs[c := Some k] ! d of None \<Rightarrow> [] | Some n \<Rightarrow> find_slot n (word_of_nat j))"
    unfolding d_def using j len by (intro find_slot_inner) simp_all
  show "find_slot (IdInner (Suc l) (word_of_nat s) e hp (cs[c := Some k])) (word_of_nat j) =
    (if j = i then meta # (case cs ! ((i - s) div 512 ^ Suc l) of None \<Rightarrow> [] | Some n \<Rightarrow> find_slot n (word_of_nat i))
     else case cs ! ((j - s) div 512 ^ Suc l) of None \<Rightarrow> [] | Some n \<Rightarrow> find_slot n (word_of_nat j))"
  proof (cases "d = c")
    case True
    have "s + c * 512 ^ Suc l \<le> j" "j < s + c * 512 ^ Suc l + 512 ^ Suc l" using child_range [of s j l d] j True d_def by simp_all
    then show ?thesis using k j lt True unfolding put_effect_def f c [symmetric] d_def [symmetric] by simp
  next
    case False
    then have "j \<noteq> i" using c d_def by blast
    then show ?thesis unfolding f d_def [symmetric] using False by simp
  qed
qed

lemma put_new_ok:
  assumes "s \<le> i" and "i < s + 512 ^ Suc l" and "i < 2 ^ 31" and "tableID (tbl_id meta) = word_of_nat i"
  shows "\<exists>n up. put_new l (word_of_nat s) (word_of_nat i) meta = Inr (n, up) \<and> ok_node l s n \<and> put_effect l s i meta (\<lambda>_. []) n"
  using assms(1,2)
proof (induction l arbitrary: s)
  case 0
  then have c: "slot_cid 0 (word_of_nat s) (word_of_nat i) = i - s" "i - s < 512" using slot_in_range [of s i 0] assms(3) by simp_all
  define ws where "ws = (replicate 512 [])[i - s := [meta]]"
  have "\<forall>k < 512. ok_slot (s + k) (ws ! k)"
    using c(2) 0 assms(4) by (auto simp: ws_def ok_slot_def nth_list_update)
  then have "ok_node 0 s (IdLeaf (word_of_nat s) e True ws)" for e by (auto simp: ws_def)
  moreover have "put_effect 0 s i meta (\<lambda>_. []) (IdLeaf (word_of_nat s) e True ws)" for e
    using put_effect_leaf [of "replicate 512 []" s i meta e True] 0 c(2) by (auto simp: ws_def put_effect_def)
  moreover have "put_new 0 (word_of_nat s) (word_of_nat i) meta =
      Inr (IdLeaf (word_of_nat s) (fst (raise_end 0 True (tbl_id meta) True)) True ws, snd (raise_end 0 True (tbl_id meta) True))"
    using c by (simp add: ws_def Let_def split_beta)
  ultimately show ?case by blast
next
  case (Suc l)
  define c where "c = (i - s) div 512 ^ Suc l"
  note rng = child_range [OF Suc.prems c_def]
  have cid: "slot_cid (Suc l) (word_of_nat s) (word_of_nat i) = c" "c < 512"
    using slot_in_range [OF Suc.prems] assms(3) by (simp_all add: c_def)
  have "c * 512 ^ Suc l < 2 ^ 31" using rng(1) assms(3) by linarith
  then have st: "child_start (Suc l) (word_of_nat s) c = word_of_nat (s + c * 512 ^ Suc l)" by (rule child_start_nat)
  obtain k up where k: "put_new l (word_of_nat (s + c * 512 ^ Suc l)) (word_of_nat i) meta = Inr (k, up)" "ok_node l (s + c * 512 ^ Suc l) k"
    "put_effect l (s + c * 512 ^ Suc l) i meta (\<lambda>_. []) k" using Suc.IH [OF rng] by blast
  have "put_effect (Suc l) s i meta (\<lambda>_. []) (IdInner (Suc l) (word_of_nat s) e True ((replicate 512 None)[c := Some k]))" for e
    using put_effect_inner [of "replicate 512 None" s i l c meta k e True] Suc.prems c_def k(3) cid(2)
    by (auto simp: put_effect_def less_mult_imp_div_less)
  moreover have "ok_node (Suc l) s (IdInner (Suc l) (word_of_nat s) e True ((replicate 512 None)[c := Some k]))" for e
    using k(2) cid(2) by (auto simp: nth_list_update split: if_splits)
  moreover have "put_new (Suc l) (word_of_nat s) (word_of_nat i) meta =
      Inr (IdInner (Suc l) (word_of_nat s) (fst (raise_end 0 True (tbl_id meta) up)) True ((replicate 512 None)[c := Some k]),
           snd (raise_end 0 True (tbl_id meta) up))"
    using cid k(1) by (simp add: st Let_def split_beta)
  ultimately show ?case by blast
qed

text \<open>The versions in a slot that a new version may follow.\<close>

definition follows :: "tableMeta \<Rightarrow> tableMeta list \<Rightarrow> bool" where
  "follows meta ms \<longleftrightarrow> (case ms of [] \<Rightarrow> True | m # _ \<Rightarrow> tableVersion (tbl_id m) < tableVersion (tbl_id meta))"

lemma ok_slot_follows:
  assumes "ok_slot i ms" and "follows meta ms" and "tableID (tbl_id meta) = word_of_nat i"
  shows "ok_slot i (meta # ms)"
  using assms by (cases ms) (auto simp: ok_slot_def follows_def)

lemma put_at_ok:
  assumes "ok_node l s n" and "s \<le> i" and "i < s + 512 ^ Suc l" and "i < 2 ^ 31" and "tableID (tbl_id meta) = word_of_nat i"
    and "follows meta (find_slot n (word_of_nat i))"
  shows "\<exists>n' up. put_at n (word_of_nat i) meta = Inr (n', up) \<and> ok_node l s n' \<and> put_effect l s i meta (\<lambda>j. find_slot n (word_of_nat j)) n'"
  using assms
proof (induction l arbitrary: s n)
  case 0
  obtain e hp ws where n: "n = IdLeaf (word_of_nat s) e hp ws" "length ws = 512" "\<forall>c < 512. ok_slot (s + c) (ws ! c)" using 0(1) by auto
  have c: "slot_cid 0 (word_of_nat s) (word_of_nat i) = i - s" "i - s < 512" using slot_in_range [of s i 0] 0 by simp_all
  define ws' where "ws' = ws[i - s := meta # ws ! (i - s)]"
  have fs: "find_slot n (word_of_nat j) = ws ! (j - s)" if "s \<le> j" "j < s + 512" "j < 2 ^ 64" for j using find_slot_leaf n that by simp
  have old: "ok_slot i (ws ! (i - s))" "follows meta (ws ! (i - s))" using n(3) c(2) 0(2,6) fs [of i] 0(3,4) by auto
  then have "ok_slot i (meta # ws ! (i - s))" using ok_slot_follows 0(5) by blast
  then have "ok_node 0 s (IdLeaf (word_of_nat s) e' hp ws')" for e' using n c(2) 0(2) by (auto simp: ws'_def nth_list_update)
  moreover have "put_effect 0 s i meta (\<lambda>j. find_slot n (word_of_nat j)) (IdLeaf (word_of_nat s) e' hp ws')" for e'
    using put_effect_leaf [OF n(2), of s i meta e' hp] 0(2-4) fs by (auto simp: put_effect_def ws'_def)
  moreover have "\<exists>e' up. put_at n (word_of_nat i) meta = Inr (IdLeaf (word_of_nat s) e' hp ws', up)"
    using old c n(2) by (auto simp: n(1) put_at.simps ws'_def Let_def ok_slot_def follows_def split: list.splits prod.splits)
  ultimately show ?case by blast
next
  case (Suc l)
  obtain e hp cs where n: "n = IdInner (Suc l) (word_of_nat s) e hp cs" "length cs = 512"
    "\<forall>c < 512. \<forall>k. cs ! c = Some k \<longrightarrow> ok_node l (s + c * 512 ^ Suc l) k" using Suc.prems(1) by auto
  define c where "c = (i - s) div 512 ^ Suc l"
  note rng = child_range [OF Suc.prems(2,3) c_def]
  have cid: "slot_cid (Suc l) (word_of_nat s) (word_of_nat i) = c" "c < 512"
    using slot_in_range [OF Suc.prems(2,3)] Suc.prems(4) by (simp_all add: c_def)
  have "c * 512 ^ Suc l < 2 ^ 31" using rng(1) Suc.prems(4) by linarith
  then have st: "child_start (Suc l) (word_of_nat s) c = word_of_nat (s + c * 512 ^ Suc l)" by (rule child_start_nat)
  have fi: "find_slot n (word_of_nat j) = (case cs ! ((j - s) div 512 ^ Suc l) of None \<Rightarrow> [] | Some k \<Rightarrow> find_slot k (word_of_nat j))"
    if "s \<le> j" "j < s + 512 ^ Suc (Suc l)" "j < 2 ^ 64" for j unfolding n(1) by (rule find_slot_inner [OF n(2) that])
  obtain k up where k: "(case cs ! c of None \<Rightarrow> put_new l (child_start (Suc l) (word_of_nat s) c) (word_of_nat i) meta
      | Some d \<Rightarrow> put_at d (word_of_nat i) meta) = Inr (k, up)" "ok_node l (s + c * 512 ^ Suc l) k"
    "put_effect l (s + c * 512 ^ Suc l) i meta (\<lambda>j. case cs ! c of None \<Rightarrow> [] | Some d \<Rightarrow> find_slot d (word_of_nat j)) k"
  proof (cases "cs ! c")
    case None
    then show ?thesis using put_new_ok [OF rng Suc.prems(4,5)] that by (auto simp: st)
  next
    case (Some d)
    have "ok_node l (s + c * 512 ^ Suc l) d" using n(3) cid(2) Some by blast
    moreover have "follows meta (find_slot d (word_of_nat i))" using Suc.prems(6) fi [of i] Suc.prems(2-4) Some by (simp add: c_def [symmetric] del: power_Suc)
    ultimately show ?thesis using Suc.IH [OF _ rng Suc.prems(4,5)] that Some by auto
  qed
  have "put_effect (Suc l) s i meta (\<lambda>j. find_slot n (word_of_nat j)) (IdInner (Suc l) (word_of_nat s) e' hp (cs[c := Some k]))" for e'
    using put_effect_inner [OF n(2) Suc.prems(2,3) c_def k(3), of e' hp] fi Suc.prems(2-4) by (simp add: put_effect_def)
  moreover have "ok_node (Suc l) s (IdInner (Suc l) (word_of_nat s) e' hp (cs[c := Some k]))" for e'
    using n k(2) cid(2) by (auto simp: nth_list_update split: if_splits)
  moreover have "put_at n (word_of_nat i) meta =
      Inr (IdInner (Suc l) (word_of_nat s) (fst (raise_end e hp (tbl_id meta) up)) hp (cs[c := Some k]), snd (raise_end e hp (tbl_id meta) up))"
    unfolding n(1) put_at.simps Let_def cid(1) diff_Suc_1 k(1) using cid(2) n(2) by (simp add: split_beta)
  ultimately show ?case by blast
qed

section \<open>The tree as a map from ids to versions\<close>

text \<open>The root covers the first \<open>512 ^ (l + 1)\<close> ids; the 16 bits of the slot number reach 128 times as far.\<close>

definition id_fits :: "idnode \<Rightarrow> nat \<Rightarrow> bool" where
  "id_fits r i \<longleftrightarrow> i < 2 ^ 31 \<and> i < 65536 * 512 ^ nd_level r"

definition tree_inv :: "idnode \<Rightarrow> (nat \<Rightarrow> tableMeta list) \<Rightarrow> bool" where
  "tree_inv r vs \<longleftrightarrow> (let l = nd_level r in
     ok_node l 0 r \<and> (\<forall>j. j < 512 ^ Suc l \<and> j < 2 ^ 64 \<longrightarrow> find_slot r (word_of_nat j) = vs j) \<and>
     (\<forall>j. 512 ^ Suc l \<le> j \<longrightarrow> vs j = []) \<and> (\<forall>j. 2 ^ 31 \<le> j \<longrightarrow> vs j = []) \<and> (\<forall>j. ok_slot j (vs j)))"

lemma tree_new_inv: "tree_inv tree_new (\<lambda>_. [])"
  using find_slot_leaf [of "replicate 512 []" 0] by (auto simp: tree_inv_def tree_new_def ok_slot_def)

lemma grow_inv:
  assumes "tree_inv r vs"
  shows "tree_inv (grow r) vs"
proof -
  define l where "l = nd_level r"
  have ok: "ok_node l 0 r" and fs: "\<And>j. j < 512 ^ Suc l \<Longrightarrow> j < 2 ^ 64 \<Longrightarrow> find_slot r (word_of_nat j) = vs j"
    and out: "\<And>j. 512 ^ Suc l \<le> j \<Longrightarrow> vs j = []" and big: "\<And>j. 2 ^ 31 \<le> j \<Longrightarrow> vs j = []" and sl: "\<And>j. ok_slot j (vs j)"
    using assms by (simp_all add: tree_inv_def l_def Let_def del: power_Suc)
  define cs where "cs = (replicate 512 None)[0 := Some r]"
  have g: "grow r = IdInner (Suc l) (word_of_nat 0) (nd_endId r) False cs"
    using ok_node_level [OF ok] by (simp add: grow_def cs_def l_def)
  have "ok_node (Suc l) 0 (grow r)" unfolding g using ok by (auto simp: cs_def nth_list_update split: if_splits)
  moreover have "find_slot (grow r) (word_of_nat j) = vs j" if "j < 512 ^ Suc (Suc l)" "j < 2 ^ 64" for j
  proof -
    have f: "find_slot (grow r) (word_of_nat j) = (case cs ! (j div 512 ^ Suc l) of None \<Rightarrow> [] | Some c \<Rightarrow> find_slot c (word_of_nat j))"
      unfolding g using find_slot_inner [of cs 0 j l] that by (simp add: cs_def del: power_Suc of_nat_0)
    show ?thesis
    proof (cases "j < 512 ^ Suc l")
      case True
      then have "j div 512 ^ Suc l = 0" by (rule div_less)
      then show ?thesis using fs [OF True that(2)] unfolding f by (simp add: cs_def del: power_Suc)
    next
      case False
      then have "j div 512 ^ Suc l \<noteq> 0" "j div 512 ^ Suc l < 512"
        using that(1) by (auto simp: div_eq_0_iff less_mult_imp_div_less simp del: power_Suc) (simp add: less_mult_imp_div_less)
      then show ?thesis using out [of j] False unfolding f by (simp add: cs_def nth_list_update del: power_Suc)
    qed
  qed
  moreover have "vs j = []" if "512 ^ Suc (Suc l) \<le> j" for j
    by (rule out) (rule order_trans [OF _ that], simp)
  moreover have "nd_level (grow r) = Suc l" by (simp add: g)
  ultimately show ?thesis using big sl by (simp add: tree_inv_def Let_def del: power_Suc)
qed

lemma tree_put_ok:
  assumes "tree_inv r vs" and "id_fits r i" and "tableID (tbl_id meta) = word_of_nat i" and "follows meta (vs i)"
  shows "\<exists>r'. tree_put r (word_of_nat i) meta = Inr r' \<and> tree_inv r' (vs(i := meta # vs i))"
  using assms
proof (induction r "word_of_nat i :: u64" meta rule: tree_put.induct)
  case (1 r meta)
  define l where "l = nd_level r"
  have ok: "ok_node l 0 r" and fs: "\<And>j. j < 512 ^ Suc l \<Longrightarrow> j < 2 ^ 64 \<Longrightarrow> find_slot r (word_of_nat j) = vs j"
    and out: "\<And>j. 512 ^ Suc l \<le> j \<Longrightarrow> vs j = []" and big: "\<And>j. 2 ^ 31 \<le> j \<Longrightarrow> vs j = []" and sl: "\<And>j. ok_slot j (vs j)"
    using "1.prems"(1) by (simp_all add: tree_inv_def l_def Let_def del: power_Suc)
  have st: "nd_startId r = 0" using ok_node_level [OF ok] by simp
  have i: "i < 2 ^ 31" "i div 512 ^ l < 65536"
    using "1.prems"(2) by (simp_all add: id_fits_def l_def less_mult_imp_div_less)
  have cid: "slot_cid l 0 (word_of_nat i) = i div 512 ^ l" using i by (simp add: slot_cid_nat unat_of_nat)
  show ?case
  proof (cases "512 \<le> i div 512 ^ l")
    case True
    have "id_fits (grow r) i" using "1.prems"(2) by (simp add: id_fits_def grow_def)
    then have "\<exists>r'. tree_put (grow r) (word_of_nat i) meta = Inr r' \<and> tree_inv r' (vs(i := meta # vs i))"
      using "1.hyps" grow_inv [OF "1.prems"(1)] "1.prems"(3,4) True cid st by (simp add: l_def)
    then show ?thesis using True cid st by (subst tree_put.simps) (simp add: l_def)
  next
    case False
    then have lt: "i < 0 + 512 ^ Suc l" by (simp add: div_less_iff_less_mult not_le)
    have "find_slot r (word_of_nat i) = vs i" using fs i(1) lt by simp
    then obtain r' up where p: "put_at r (word_of_nat i) meta = Inr (r', up)" "ok_node l 0 r'"
      and e: "put_effect l 0 i meta (\<lambda>j. find_slot r (word_of_nat j)) r'"
      using put_at_ok [OF ok _ lt i(1) "1.prems"(3)] "1.prems"(4) by auto
    have lv: "nd_level r' = l" using ok_node_level [OF p(2)] by simp
    have "find_slot r' (word_of_nat j) = (vs(i := meta # vs i)) j" if "j < 512 ^ Suc l" "j < 2 ^ 64" for j
      using e fs [of j] fs [of i] that lt i(1) by (auto simp: put_effect_def simp del: power_Suc)
    moreover have "(vs(i := meta # vs i)) j = []" if "512 ^ Suc l \<le> j" for j using out [OF that] that lt by auto
    moreover have "(vs(i := meta # vs i)) j = []" if "2 ^ 31 \<le> j" for j using big [OF that] that i(1) by auto
    moreover have "ok_slot j ((vs(i := meta # vs i)) j)" for j using sl ok_slot_follows [OF sl "1.prems"(4,3)] by simp
    ultimately have "tree_inv r' (vs(i := meta # vs i))" using p(2) by (simp add: tree_inv_def Let_def lv del: power_Suc fun_upd_apply)
    moreover have "tree_put r (word_of_nat i) meta = Inr r'" using False cid st p(1) by (subst tree_put.simps) (simp add: l_def)
    ultimately show ?thesis by blast
  qed
qed

text \<open>Ids order first by table, then by version.\<close>

lemma id_parts: "unat (i :: u64) = unat (tableID i) * 65536 + unat (tableVersion i)"
proof -
  have m: "(0xffffffffffff0000 :: u64) = push_bit 16 (mask 48)" "(0xffff :: u64) = mask 16"
    by (simp_all add: mask_eq_exp_minus_1 push_bit_eq_mult)
  have "tableID i = drop_bit 16 i"
    unfolding tableID_def m by (rule bit_word_eqI) (auto simp: bit_simps dest: bit_imp_le_length)
  moreover have "tableVersion i = ucast i"
    unfolding tableVersion_def m by (rule bit_word_eqI) (auto simp: bit_simps)
  ultimately have "unat (tableID i) = drop_bit 16 (unat i)" "unat (tableVersion i) = take_bit 16 (unat i)"
    by (simp_all only: unat_drop_bit_eq unsigned_ucast_eq) simp_all
  then show ?thesis by (simp add: drop_bit_eq_div take_bit_eq_mod)
qed

lemma id_less:
  assumes "tableID a = tableID b" and "tableVersion a < tableVersion b"
  shows "a < (b :: u64)"
  using assms id_parts [of a] id_parts [of b] by (simp add: word_less_nat_alt)

lemma slot_newest:
  assumes "ok_slot i (m # ms)" and "tbl_id m < tid"
  shows "find (\<lambda>m. tbl_id m = tid) (m # ms) = None" and "prev_of (m # ms) tid = None"
proof -
  have less: "tbl_id k \<noteq> tid" if k: "k \<in> set (m # ms)" for k
  proof (cases "k = m")
    case True
    then show ?thesis using assms(2) by auto
  next
    case False
    then have "tbl_id k < tbl_id m" using k assms(1) by (intro id_less) (auto simp: ok_slot_def)
    then show ?thesis using assms(2) by auto
  qed
  then show "find (\<lambda>m. tbl_id m = tid) (m # ms) = None" unfolding find_None_iff by blast
  have "prev_of ks tid = None" if "\<forall>k \<in> set ks. tbl_id k \<noteq> tid" for ks using that by (induction ks) auto
  then show "prev_of (m # ms) tid = None" using less by blast
qed

lemma tree_find:
  assumes "tree_inv r vs" and "id_fits r i"
  shows "find_slot r (word_of_nat i) = vs i"
proof -
  define l where "l = nd_level r"
  have inv: "ok_node l 0 r" "\<And>j. j < 512 ^ Suc l \<Longrightarrow> j < 2 ^ 64 \<Longrightarrow> find_slot r (word_of_nat j) = vs j"
    "\<And>j. 512 ^ Suc l \<le> j \<Longrightarrow> vs j = []"
    using assms(1) by (simp_all add: tree_inv_def l_def Let_def del: power_Suc)
  have i: "i < 2 ^ 31" "i div 512 ^ l < 65536" using assms(2) by (simp_all add: id_fits_def l_def less_mult_imp_div_less)
  have cid: "slot_cid l 0 (word_of_nat i) = i div 512 ^ l" using i by (simp add: slot_cid_nat unat_of_nat)
  show ?thesis
  proof (cases "i < 512 ^ Suc l")
    case False
    then have "512 \<le> i div 512 ^ l" using div_le_mono [of "512 * 512 ^ l" i "512 ^ l"] by simp
    then have "find_slot r (word_of_nat i) = []"
      using inv(1) cid by (cases l) (auto simp: find_slot.simps Let_def)
    then show ?thesis using inv(3) False by simp
  qed (use inv(2) i in simp)
qed

lemma in_slot_spec:
  assumes "tree_inv r vs" and "id_fits r i" and "tableID tid = word_of_nat i"
    and "f [] = None" and "\<And>m ms. ok_slot i (m # ms) \<Longrightarrow> tbl_id m < tid \<Longrightarrow> f (m # ms) = None"
  shows "in_slot r tid f = Inr (f (vs i))"
proof -
  have ok: "ok_slot i (vs i)" using assms(1) by (simp add: tree_inv_def Let_def)
  show ?thesis
    using tree_find [OF assms(1,2)] assms(3,4) assms(5) ok
    by (cases "vs i") (auto simp: in_slot_def ok_slot_def)
qed

section \<open>Claims\<close>

text \<open>The trees that a sequence of puts builds, with the versions put so far.\<close>

inductive tree_reach :: "idnode \<Rightarrow> (nat \<Rightarrow> tableMeta list) \<Rightarrow> bool" where
  new: "tree_reach tree_new (\<lambda>_. [])"
| put: "tree_reach r vs \<Longrightarrow> tableID (tbl_id meta) = word_of_nat i \<Longrightarrow> id_fits r i \<Longrightarrow> follows meta (vs i) \<Longrightarrow>
    idTree_put r meta = Inr r' \<Longrightarrow> tree_reach r' (vs(i := meta # vs i))"

lemma tree_reach_inv: "tree_reach r vs \<Longrightarrow> tree_inv r vs"
proof (induction rule: tree_reach.induct)
  case (put r vs meta i r')
  obtain q where q: "tree_put r (word_of_nat i) meta = Inr q" "tree_inv q (vs(i := meta # vs i))"
    using tree_put_ok [OF put.IH put.hyps(3,2,4)] by blast
  have "q = r'" using put.hyps(2,5) q(1) by (simp add: idTree_put_def)
  with q(2) show ?case by (simp only:)
qed (rule tree_new_inv)

text \<open>
  C24: The table id tree is a map from table ids to versions.  Putting a newer version of a table succeeds, the root
  growing as needed, and \<^verbatim>\<open>get\<close> and \<^verbatim>\<open>getPrevVersion\<close> find exactly the version with the given id, and the one before it,
  among the versions put for that table.  Ids must be below $2^{31}$ and below $2^{16}$ times the span of a slot of the
  root, because slot numbers are computed in 16 bits.
\<close>

theorem idTree_refines_versions:
  assumes "tree_reach r vs" and "id_fits r i"
  shows "(\<forall>meta. tableID (tbl_id meta) = word_of_nat i \<and> follows meta (vs i) \<longrightarrow>
            (\<exists>r'. idTree_put r meta = Inr r' \<and> tree_reach r' (vs(i := meta # vs i)))) \<and>
    (\<forall>tid. tableID tid = word_of_nat i \<longrightarrow>
       idTree_get r tid = Inr (find (\<lambda>m. tbl_id m = tid) (vs i)) \<and> idTree_getPrevVersion r tid = Inr (prev_of (vs i) tid))"
proof -
  have inv: "tree_inv r vs" by (rule tree_reach_inv [OF assms(1)])
  have "\<exists>r'. idTree_put r meta = Inr r' \<and> tree_reach r' (vs(i := meta # vs i))"
    if m: "tableID (tbl_id meta) = word_of_nat i" "follows meta (vs i)" for meta
  proof -
    obtain r' where r': "idTree_put r meta = Inr r'" using tree_put_ok [OF inv assms(2) m] m(1) by (auto simp: idTree_put_def)
    then show ?thesis using tree_reach.put [OF assms(1) m(1) assms(2) m(2)] by blast
  qed
  moreover have "idTree_get r tid = Inr (find (\<lambda>m. tbl_id m = tid) (vs i))" if "tableID tid = word_of_nat i" for tid
    unfolding idTree_get_def by (rule in_slot_spec [OF inv assms(2) that]) (use slot_newest(1) in auto)
  moreover have "idTree_getPrevVersion r tid = Inr (prev_of (vs i) tid)" if "tableID tid = word_of_nat i" for tid
    unfolding idTree_getPrevVersion_def by (rule in_slot_spec [OF inv assms(2) that]) (use slot_newest(2) in auto)
  ultimately show ?thesis by blast
qed

definition meta_of_id :: "u64 \<Rightarrow> tableMeta" where "meta_of_id i = (tableMeta_new True)\<lparr>tbl_id := i\<rparr>"

lemma tbl_id_meta_of_id [simp]: "tbl_id (meta_of_id i) = i"
  by (simp add: meta_of_id_def)

theorem idTree_refines_versions_witness:
  "\<exists>r. idTree_put tree_new (meta_of_id 0x20001) = Inr r"
proof -
  have "id_fits tree_new 2" by (simp add: id_fits_def tree_new_def)
  moreover have "tableID (tbl_id (meta_of_id 0x20001)) = word_of_nat 2" by (simp add: tableID_def)
  moreover have "follows (meta_of_id 0x20001) []" by (simp add: follows_def)
  ultimately show ?thesis using idTree_refines_versions [OF tree_reach.new, of 2] by blast
qed

text \<open>
  A table id that is $2^{16}$ or more too large for a small tree lands in a wrong slot.  In a new tree, the table
  with id \<open>65536 + k\<close> is stored in slot \<open>k\<close>, after which looking up table \<open>k\<close> fails an assertion.
\<close>

theorem idTree_wraps_large_ids:
  assumes "k < 512" and "tableID (tbl_id meta) = word_of_nat (65536 + k)" and "tableID tid = word_of_nat k"
  shows "\<exists>r. idTree_put tree_new meta = Inr r \<and> idTree_get r tid = Inl AssertFailed"
proof -
  have c: "slot_cid 0 0 (word_of_nat (65536 + k)) = k" "slot_cid 0 0 (word_of_nat k) = k"
    using assms(1) by (simp_all add: slot_cid_nat unat_of_nat del: of_nat_add)
  have ne: "(word_of_nat (65536 + k) :: u64) \<noteq> word_of_nat k"
  proof
    assume "(word_of_nat (65536 + k) :: u64) = word_of_nat k"
    then have "unat (word_of_nat (65536 + k) :: u64) = unat (word_of_nat k :: u64)" by (rule arg_cong)
    then show False using assms(1) by (simp add: unat_of_nat del: of_nat_add)
  qed
  obtain e up where "put_at tree_new (word_of_nat (65536 + k)) meta = Inr (IdLeaf 0 e False ((replicate 512 [])[k := [meta]]), up)"
    using c assms(1) by (cases "raise_end 0 False (tbl_id meta) True") (simp add: tree_new_def put_at.simps Let_def)
  then have "idTree_put tree_new meta = Inr (IdLeaf 0 e False ((replicate 512 [])[k := [meta]]))"
    using c assms(1,2) by (simp add: idTree_put_def tree_new_def tree_put.simps [of "IdLeaf 0 0 False _"] del: of_nat_add)
  moreover have "idTree_get (IdLeaf 0 e False ((replicate 512 [])[k := [meta]])) tid = Inl AssertFailed"
    using c assms ne by (simp add: idTree_get_def in_slot_def find_slot.simps del: of_nat_add)
  ultimately show ?thesis by blast
qed

theorem idTree_wraps_large_ids_witness:
  "\<exists>r. idTree_put tree_new (meta_of_id 0x100050000) = Inr r \<and> idTree_get r 0x50000 = Inl AssertFailed"
  using idTree_wraps_large_ids [of 5 "meta_of_id 0x100050000" "0x50000"] by (simp add: tableID_def)

end
