(* ===== verification/DualLinkList.thy ===== *)
theory DualLinkList
  imports Prelude
begin

text \<open>
  The doubly linked list with a lock per node (\<^verbatim>\<open>dualLinkList\<close> of \<^verbatim>\<open>util/dualLinkList.h\<close>).  Nodes are addresses; the model
  runs one thread, for which a lock that is held is never released, so waiting for it is a deadlock and releasing a lock that
  is not held is an error.  The counter is an \<^verbatim>\<open>int32_t\<close> in the code and an unbounded integer here: it is the number of linked nodes, far below
  $2^{31}$.  The contract of the sequence operations is the locale \<open>list_machine\<close>, which the list with a
  global lock (theory \<open>GlobalList\<close>) provides as well.
\<close>

section \<open>State\<close>

record dualLinkList =
  dl_prev :: "nat \<Rightarrow> nat"
  dl_next :: "nat \<Rightarrow> nat"
  dl_held :: "nat set"
  dl_head :: nat
  dl_end :: nat
  dl_count :: int

definition dl_new :: "nat \<Rightarrow> nat \<Rightarrow> dualLinkList" where
  "dl_new h e = \<lparr>dl_prev = (\<lambda>_. 0)(h := e, e := h), dl_next = (\<lambda>_. 0)(h := e, e := h), dl_held = {}, dl_head = h, dl_end = e, dl_count = 0\<rparr>"

text \<open>Locks: \<^verbatim>\<open>lock\<close>, \<^verbatim>\<open>try_lock\<close> and \<^verbatim>\<open>unlock\<close> of a node.\<close>

definition dl_lock :: "dualLinkList \<Rightarrow> nat \<Rightarrow> fault + dualLinkList" where
  "dl_lock s n = (if n \<in> dl_held s then Inl Deadlock else Inr (s\<lparr>dl_held := insert n (dl_held s)\<rparr>))"

definition dl_unlock :: "dualLinkList \<Rightarrow> nat \<Rightarrow> fault + dualLinkList" where
  "dl_unlock s n = (if n \<in> dl_held s then Inr (s\<lparr>dl_held := dl_held s - {n}\<rparr>) else Inl NotLocked)"

definition set_next :: "dualLinkList \<Rightarrow> nat \<Rightarrow> nat \<Rightarrow> dualLinkList" where
  "set_next s a b = s\<lparr>dl_next := (dl_next s)(a := b)\<rparr>"

definition set_prev :: "dualLinkList \<Rightarrow> nat \<Rightarrow> nat \<Rightarrow> dualLinkList" where
  "set_prev s a b = s\<lparr>dl_prev := (dl_prev s)(a := b)\<rparr>"

definition dl_changeCount :: "dualLinkList \<Rightarrow> int \<Rightarrow> dualLinkList" where
  "dl_changeCount s c = s\<lparr>dl_count := dl_count s + c\<rparr>"

section \<open>Operations\<close>

text \<open>
  The common body of \<^verbatim>\<open>insertAfter\<close> and \<^verbatim>\<open>insertAfterForHandleLock\<close>, once \<open>n\<close> is locked.  A failed \<^verbatim>\<open>try_lock\<close> repeats the
  loop; with one thread it would fail again.
\<close>

definition dl_link :: "dualLinkList \<Rightarrow> nat \<Rightarrow> nat \<Rightarrow> fault + dualLinkList" where
  "dl_link s a n =
     sbind (dl_lock s a) (\<lambda>s. let next = dl_next s a in
     sbind (dl_lock s next) (\<lambda>s.
       let s = set_next s n next; s = set_next s a n; s = set_prev s next n in
       if dl_prev s next = next then Inl AssertFailed
       else sbind (dl_unlock s next) (\<lambda>s. sbind (dl_unlock s a) (\<lambda>s. sbind (dl_unlock s n) (\<lambda>s. Inr (dl_changeCount s 1))))))"

definition dl_insertAfter :: "dualLinkList \<Rightarrow> nat \<Rightarrow> nat \<Rightarrow> fault + dualLinkList" where
  "dl_insertAfter s a n = sbind (dl_lock (set_prev s n a) n) (\<lambda>s. dl_link s a n)"

definition dl_insertAfterForHandleLock :: "dualLinkList \<Rightarrow> nat \<Rightarrow> nat \<Rightarrow> fault + dualLinkList" where
  "dl_insertAfterForHandleLock s a n = dl_link (set_prev s n a) a n"

definition dl_insertForHandleLock :: "dualLinkList \<Rightarrow> nat \<Rightarrow> fault + dualLinkList" where
  "dl_insertForHandleLock s n = dl_insertAfterForHandleLock s (dl_head s) n"

definition dl_insert :: "dualLinkList \<Rightarrow> nat \<Rightarrow> fault + dualLinkList" where
  "dl_insert s n = dl_insertAfter s (dl_head s) n"

text \<open>The common body of the erasures, once \<^verbatim>\<open>n->prev\<close> is locked.\<close>

definition dl_unlink :: "dualLinkList \<Rightarrow> nat \<Rightarrow> fault + dualLinkList" where
  "dl_unlink s n =
     sbind (dl_lock s (dl_next s n)) (\<lambda>s.
       let s = set_next s (dl_prev s n) (dl_next s n); s = set_prev s (dl_next s n) (dl_prev s n) in
       if dl_prev s (dl_next s n) = dl_next s n then Inl AssertFailed
       else sbind (dl_unlock s (dl_next s n)) (\<lambda>s. dl_unlock s (dl_prev s n)))"

definition dl_eraseWithHandleLock :: "dualLinkList \<Rightarrow> nat \<Rightarrow> fault + dualLinkList" where
  "dl_eraseWithHandleLock s n =
     sbind (dl_lock s n) (\<lambda>s. sbind (dl_lock s (dl_prev s n)) (\<lambda>s. sbind (dl_unlink s n) (\<lambda>s. Inr (dl_changeCount s (-1)))))"

definition dl_erase :: "dualLinkList \<Rightarrow> nat \<Rightarrow> fault + dualLinkList" where
  "dl_erase s n =
     sbind (dl_lock s n) (\<lambda>s. sbind (dl_lock s (dl_prev s n)) (\<lambda>s. sbind (dl_unlink s n) (\<lambda>s.
       sbind (dl_unlock s n) (\<lambda>s. Inr (dl_changeCount s (-1))))))"

text \<open>The result is true in both branches.\<close>

definition dl_tryEraseForHandleLock :: "dualLinkList \<Rightarrow> nat \<Rightarrow> fault + bool \<times> dualLinkList" where
  "dl_tryEraseForHandleLock s n =
     (if dl_prev s n \<in> dl_held s then Inr (True, s)
      else sbind (dl_lock s (dl_prev s n)) (\<lambda>s. sbind (dl_unlink s n) (\<lambda>s. Inr (True, dl_changeCount s (-1)))))"

definition dl_getFirst :: "dualLinkList \<Rightarrow> fault + nat option" where
  "dl_getFirst s = (if dl_head s \<in> dl_held s then Inl Deadlock
     else Inr (if dl_next s (dl_head s) = dl_end s then None else Some (dl_next s (dl_head s))))"

definition dl_getLast :: "dualLinkList \<Rightarrow> fault + nat option" where
  "dl_getLast s = (if dl_end s \<in> dl_held s then Inl Deadlock
     else Inr (if dl_prev s (dl_end s) = dl_head s then None else Some (dl_prev s (dl_end s))))"

definition dl_popFirst :: "dualLinkList \<Rightarrow> fault + nat option \<times> dualLinkList" where
  "dl_popFirst s =
     sbind (dl_lock s (dl_head s)) (\<lambda>s. let n = dl_next s (dl_head s) in
       if n = dl_end s then sbind (dl_unlock s (dl_head s)) (\<lambda>s. Inr (None, s))
       else sbind (dl_lock s n) (\<lambda>s. sbind (dl_lock s (dl_next s n)) (\<lambda>s.
         let s = set_next s (dl_head s) (dl_next s n); s = set_prev s (dl_next s n) (dl_prev s n) in
         sbind (dl_unlock s (dl_next s n)) (\<lambda>s. sbind (dl_unlock s (dl_head s)) (\<lambda>s. sbind (dl_unlock s n) (\<lambda>s.
           Inr (Some n, dl_changeCount s (-1))))))))"

definition dl_popLastAndHandleLock :: "dualLinkList \<Rightarrow> fault + nat option \<times> dualLinkList" where
  "dl_popLastAndHandleLock s =
     sbind (dl_lock s (dl_end s)) (\<lambda>s. let n = dl_prev s (dl_end s) in
       if n = dl_head s then sbind (dl_unlock s (dl_end s)) (\<lambda>s. Inr (None, s))
       else sbind (dl_lock s n) (\<lambda>s. sbind (dl_lock s (dl_prev s n)) (\<lambda>s.
         let s = set_prev s (dl_end s) (dl_prev s n); s = set_next s (dl_prev s n) (dl_end s) in
         sbind (dl_unlock s (dl_prev s n)) (\<lambda>s. sbind (dl_unlock s n) (\<lambda>s. sbind (dl_unlock s (dl_end s)) (\<lambda>s.
           Inr (Some n, dl_changeCount s (-1))))))))"

definition dl_popLast :: "dualLinkList \<Rightarrow> fault + nat option \<times> dualLinkList" where
  "dl_popLast s =
     sbind (dl_popLastAndHandleLock s) (\<lambda>(r, s). case r of None \<Rightarrow> Inr (None, s)
       | Some n \<Rightarrow> sbind (dl_unlock s n) (\<lambda>s. Inr (Some n, s)))"

definition dl_lru :: "dualLinkList \<Rightarrow> nat \<Rightarrow> fault + dualLinkList" where
  "dl_lru s n =
     (if dl_next s (dl_head s) = n then Inr s
      else sbind (dl_eraseWithHandleLock s n) (\<lambda>s. dl_insertAfterForHandleLock s (dl_head s) n))"

section \<open>Machines that keep a sequence\<close>

text \<open>Runs of a list of operations, of the machine and of its specification on sequences.\<close>

fun run_ops :: "('s \<Rightarrow> 'op \<Rightarrow> 'e + 'r \<times> 's) \<Rightarrow> 's \<Rightarrow> 'op list \<Rightarrow> 'e + 'r list \<times> 's" where
  "run_ops exec s [] = Inr ([], s)"
| "run_ops exec s (op # ops) = sbind (exec s op) (\<lambda>(r, s). sbind (run_ops exec s ops) (\<lambda>(rs, s). Inr (r # rs, s)))"

fun run_spec :: "('a list \<Rightarrow> 'op \<Rightarrow> 'r \<times> 'a list) \<Rightarrow> 'a list \<Rightarrow> 'op list \<Rightarrow> 'r list \<times> 'a list" where
  "run_spec spec xs [] = ([], xs)"
| "run_spec spec xs (op # ops) = (let (rs, ys) = run_spec spec (snd (spec xs op)) ops in (fst (spec xs op) # rs, ys))"

fun run_allowed :: "('a list \<Rightarrow> 'op \<Rightarrow> bool) \<Rightarrow> ('a list \<Rightarrow> 'op \<Rightarrow> 'r \<times> 'a list) \<Rightarrow> 'a list \<Rightarrow> 'op list \<Rightarrow> bool" where
  "run_allowed ok spec xs [] \<longleftrightarrow> True"
| "run_allowed ok spec xs (op # ops) \<longleftrightarrow> ok xs op \<and> run_allowed ok spec (snd (spec xs op)) ops"

text \<open>Every allowed operation succeeds, answers like the specification and keeps the fixed part of the state.\<close>

locale list_machine =
  fixes exec :: "'s \<Rightarrow> 'op \<Rightarrow> 'e + 'r \<times> 's"
    and spec :: "'a list \<Rightarrow> 'op \<Rightarrow> 'r \<times> 'a list"
    and ok :: "'f \<Rightarrow> 'a list \<Rightarrow> 'op \<Rightarrow> bool"
    and fixed :: "'s \<Rightarrow> 'f"
    and holds :: "'s \<Rightarrow> 'a list \<Rightarrow> bool"
  assumes step: "holds s xs \<Longrightarrow> ok (fixed s) xs op \<Longrightarrow>
    \<exists>s'. exec s op = Inr (fst (spec xs op), s') \<and> holds s' (snd (spec xs op)) \<and> fixed s' = fixed s"
begin

lemma run:
  "holds s xs \<Longrightarrow> run_allowed (ok (fixed s)) spec xs ops \<Longrightarrow>
    \<exists>s'. run_ops exec s ops = Inr (fst (run_spec spec xs ops), s') \<and> holds s' (snd (run_spec spec xs ops)) \<and> fixed s' = fixed s"
proof (induction ops arbitrary: s xs)
  case (Cons op ops)
  then obtain s1 where s1: "exec s op = Inr (fst (spec xs op), s1)" "holds s1 (snd (spec xs op))" "fixed s1 = fixed s"
    using step by fastforce
  with Cons.prems(2) Cons.IH [OF s1(2)] show ?case by (auto simp: split_beta)
qed auto

end

section \<open>Linked sequences\<close>

text \<open>Consecutive addresses of the list are linked in both directions.\<close>

fun linked :: "(nat \<Rightarrow> nat) \<Rightarrow> (nat \<Rightarrow> nat) \<Rightarrow> nat list \<Rightarrow> bool" where
  "linked nx pv (x # y # l) \<longleftrightarrow> nx x = y \<and> pv y = x \<and> linked nx pv (y # l)"
| "linked nx pv _ \<longleftrightarrow> True"

lemma linked_append: "linked nx pv (l @ x # r) \<longleftrightarrow> linked nx pv (l @ [x]) \<and> linked nx pv (x # r)"
proof (induction l)
  case (Cons a l)
  then show ?case by (cases l) auto
qed simp

text \<open>The list holds the addresses \<open>xs\<close> between head and end, and no lock is held.\<close>

definition dl_is :: "dualLinkList \<Rightarrow> nat list \<Rightarrow> bool" where
  "dl_is s xs \<longleftrightarrow> linked (dl_next s) (dl_prev s) (dl_head s # xs @ [dl_end s]) \<and> distinct (dl_head s # xs @ [dl_end s]) \<and>
     dl_held s = {} \<and> dl_count s = int (length xs)"

lemma dl_new_is: "h \<noteq> e \<Longrightarrow> dl_is (dl_new h e) []"
  by (simp add: dl_is_def dl_new_def)

lemma linked_cong:
  assumes "\<And>x. x \<in> set (butlast l) \<Longrightarrow> nx' x = nx x" and "\<And>x. x \<in> set (tl l) \<Longrightarrow> pv' x = pv x"
  shows "linked nx' pv' l \<longleftrightarrow> linked nx pv l"
  using assms by (induction nx pv l rule: linked.induct) auto

lemma linked_outside: "n \<notin> set l \<Longrightarrow> linked (nx(n := a)) (pv(n := b)) l \<longleftrightarrow> linked nx pv l"
  by (rule linked_cong) (auto dest: in_set_butlastD, metis list.set_sel(2) list.sel(2) list.set_cases list.distinct(1))

text \<open>The hypotheses also hold for a ring, whose sequence begins and ends with the same address.\<close>

lemma linked_insert:
  assumes "linked nx pv (p @ a # b # q)" and "distinct (p @ a # butlast (b # q))" and "distinct (tl (p @ [a]) @ b # q)"
    and "n \<notin> set (p @ a # b # q)"
  shows "linked (nx(n := b, a := n)) (pv(n := a, b := n)) (p @ a # n # b # q)"
proof -
  let ?nx = "nx(n := b, a := n)" and ?pv = "pv(n := a, b := n)"
  have 1: "linked nx pv (p @ [a])" "linked nx pv (b # q)" using assms(1) linked_append [of nx pv p a "b # q"] by simp_all
  have "linked ?nx ?pv (p @ [a]) \<longleftrightarrow> linked nx pv (p @ [a])"
  proof (rule linked_cong)
    fix x assume "x \<in> set (tl (p @ [a]))"
    then show "?pv x = pv x" using assms(3,4) by (auto dest: list.set_sel(2) [rotated])
  qed (use assms(2,4) in auto)
  moreover have "linked ?nx ?pv (b # q) \<longleftrightarrow> linked nx pv (b # q)"
  proof (rule linked_cong)
    fix x assume "x \<in> set (butlast (b # q))"
    then show "?nx x = nx x" using assms(2,4) by (auto dest: in_set_butlastD split: if_splits)
  qed (use assms(3,4) in auto)
  ultimately show ?thesis using 1 assms(4) linked_append [of ?nx ?pv p a "n # b # q"] by auto
qed

lemma linked_remove:
  assumes "linked nx pv (p @ a # n # b # q)" and "distinct (p @ a # n # butlast (b # q))" and "distinct (tl (p @ [a]) @ n # b # q)"
  shows "linked (nx(a := b)) (pv(b := a)) (p @ a # b # q)"
proof -
  have 1: "linked nx pv (p @ [a])" "linked nx pv (b # q)" using assms(1) linked_append [of nx pv p a "n # b # q"] by simp_all
  have "linked (nx(a := b)) (pv(b := a)) (p @ [a]) \<longleftrightarrow> linked nx pv (p @ [a])"
    by (rule linked_cong) (use assms(2,3) in auto)
  moreover have "linked (nx(a := b)) (pv(b := a)) (b # q) \<longleftrightarrow> linked nx pv (b # q)"
  proof (rule linked_cong)
    fix x assume "x \<in> set (butlast (b # q))"
    then show "(nx(a := b)) x = nx x" using assms(2) by (auto split: if_splits)
  qed (use assms(3) in auto)
  ultimately show ?thesis using 1 linked_append [of "nx(a := b)" "pv(b := a)" p a "b # q"] by auto
qed

lemma linked_insert_line:
  assumes "linked nx pv (p @ a # b # q)" and "distinct (p @ a # b # q)" and "n \<notin> set (p @ a # b # q)"
  shows "linked (nx(n := b, a := n)) (pv(n := a, b := n)) (p @ a # n # b # q)"
  by (rule linked_insert) (use assms in \<open>cases p; auto dest: in_set_butlastD intro: distinct_butlast\<close>)+

lemma linked_remove_line:
  assumes "linked nx pv (p @ a # n # b # q)" and "distinct (p @ a # n # b # q)"
  shows "linked (nx(a := b)) (pv(b := a)) (p @ a # b # q)"
  by (rule linked_remove) (use assms in \<open>cases p; auto dest: in_set_butlastD intro: distinct_butlast\<close>)+

lemma linked_neighbours:
  assumes "linked nx pv (p @ a # b # q)"
  shows "nx a = b" and "pv b = a"
  using assms linked_append [of nx pv p a "b # q"] by simp_all

text \<open>The bodies of insertion and erasure on a linked sequence with one lock held.\<close>

definition dl_seq :: "dualLinkList \<Rightarrow> nat list \<Rightarrow> nat set \<Rightarrow> bool" where
  "dl_seq s l H \<longleftrightarrow> linked (dl_next s) (dl_prev s) l \<and> distinct l \<and> dl_held s = H \<and> 2 \<le> length l \<and> dl_head s = hd l \<and> dl_end s = last l"

lemma dl_is_seq: "dl_is s xs \<longleftrightarrow> dl_seq s (dl_head s # xs @ [dl_end s]) {} \<and> dl_count s = int (length xs)"
  by (auto simp: dl_is_def dl_seq_def)

lemmas dl_basic = dl_lock_def dl_unlock_def set_next_def set_prev_def dl_changeCount_def Let_def sbind_def

lemma dl_link_seq:
  assumes s: "dl_seq s (p @ a # b # q) {n}" and n: "n \<notin> set (p @ a # b # q)" and pv: "dl_prev s n = a"
  shows "\<exists>s'. dl_link s a n = Inr s' \<and> dl_seq s' (p @ a # n # b # q) {} \<and> dl_count s' = dl_count s + 1 \<and>
     dl_head s' = dl_head s \<and> dl_end s' = dl_end s"
proof -
  have l: "linked (dl_next s) (dl_prev s) (p @ a # b # q)" and d: "distinct (p @ a # b # q)" and h: "dl_held s = {n}"
    and hd: "dl_head s = hd (p @ a # b # q)" and la: "dl_end s = last (p @ a # b # q)" using s by (simp_all add: dl_seq_def)
  have nb: "dl_next s a = b" by (rule linked_neighbours [OF l])
  have ne: "a \<noteq> n" "b \<noteq> n" "a \<noteq> b" using d n by auto
  have li: "linked ((dl_next s)(n := b, a := n)) ((dl_prev s)(b := n)) (p @ a # n # b # q)"
    using linked_insert_line [OF l d n] pv by (simp add: fun_upd_idem)
  have "dl_link s a n = Inr (s\<lparr>dl_next := (dl_next s)(n := b, a := n), dl_prev := (dl_prev s)(b := n), dl_held := {}, dl_count := dl_count s + 1\<rparr>)"
    using ne nb h by (auto simp: dl_link_def dl_basic insert_Diff_if)
  moreover have "distinct (p @ a # n # b # q)" using d n by auto
  moreover have "hd (p @ a # n # b # q) = hd (p @ a # b # q)" "last (p @ a # n # b # q) = last (p @ a # b # q)"
    by (cases p; simp)+
  ultimately show ?thesis using li hd la by (simp add: dl_seq_def)
qed

lemma dl_unlink_seq:
  assumes s: "dl_seq s (p @ a # n # b # q) {n, a}"
  shows "\<exists>s'. dl_unlink s n = Inr s' \<and> dl_seq s' (p @ a # b # q) {n} \<and> dl_count s' = dl_count s \<and>
     dl_head s' = dl_head s \<and> dl_end s' = dl_end s"
proof -
  have l: "linked (dl_next s) (dl_prev s) (p @ a # n # b # q)" and d: "distinct (p @ a # n # b # q)" and h: "dl_held s = {n, a}"
    and hd: "dl_head s = hd (p @ a # n # b # q)" and la: "dl_end s = last (p @ a # n # b # q)" using s by (simp_all add: dl_seq_def)
  have nb: "dl_prev s n = a" "dl_next s n = b"
    using linked_neighbours [OF l] linked_neighbours [of "dl_next s" "dl_prev s" "p @ [a]" n b q] l by simp_all
  have ne: "a \<noteq> n" "b \<noteq> n" "a \<noteq> b" using d by auto
  have "dl_unlink s n = Inr (s\<lparr>dl_next := (dl_next s)(a := b), dl_prev := (dl_prev s)(b := a), dl_held := {n}\<rparr>)"
    using ne nb h by (auto simp: dl_unlink_def dl_basic insert_Diff_if)
  moreover have "linked ((dl_next s)(a := b)) ((dl_prev s)(b := a)) (p @ a # b # q)" by (rule linked_remove_line [OF l d])
  moreover have "hd (p @ a # n # b # q) = hd (p @ a # b # q)" "last (p @ a # n # b # q) = last (p @ a # b # q)"
    by (cases p; simp)+
  ultimately show ?thesis using d hd la by (simp add: dl_seq_def)
qed

section \<open>The list behaves as a sequence\<close>

lemma seq_split:
  obtains p b q where "h # ys = p @ [last (h # ys)]" and "zs @ [e] = b # q" and "h # ys @ zs @ [e] = p @ last (h # ys) # b # q"
proof -
  obtain b q where "zs @ [e] = b # q" by (cases "zs @ [e]") auto
  moreover have "h # ys = butlast (h # ys) @ [last (h # ys)]" by simp
  ultimately show ?thesis using that by (metis append.assoc append_Cons append_Nil)
qed

lemma dl_insertAfter_is:
  assumes s: "dl_is s (ys @ zs)" and n: "n \<notin> set (dl_head s # (ys @ zs) @ [dl_end s])"
  shows "\<exists>s'. dl_insertAfter s (last (dl_head s # ys)) n = Inr s' \<and> dl_is s' (ys @ n # zs) \<and> dl_head s' = dl_head s \<and> dl_end s' = dl_end s"
proof -
  obtain p b q where l: "dl_head s # ys = p @ [last (dl_head s # ys)]" "zs @ [dl_end s] = b # q"
    "dl_head s # ys @ zs @ [dl_end s] = p @ last (dl_head s # ys) # b # q" by (rule seq_split)
  let ?a = "last (dl_head s # ys)"
  define s0 where "s0 = s\<lparr>dl_prev := (dl_prev s)(n := ?a), dl_held := {n}\<rparr>"
  have nn: "n \<notin> set (p @ ?a # b # q)" using n l(3) by simp
  have "linked (dl_next s) ((dl_prev s)(n := ?a)) (p @ ?a # b # q) \<longleftrightarrow> linked (dl_next s) (dl_prev s) (p @ ?a # b # q)"
    by (rule linked_cong) (use nn in \<open>auto dest: list.set_sel(2) [rotated]\<close>)
  then have "dl_seq s0 (p @ ?a # b # q) {n}" using s l(3) by (simp add: dl_is_seq dl_seq_def s0_def)
  from dl_link_seq [OF this nn] obtain s' where s': "dl_link s0 ?a n = Inr s'" "dl_seq s' (p @ ?a # n # b # q) {}"
    "dl_count s' = dl_count s0 + 1" "dl_head s' = dl_head s" "dl_end s' = dl_end s" by (auto simp: s0_def)
  have "dl_insertAfter s ?a n = dl_link s0 ?a n" using s by (simp add: dl_insertAfter_def dl_is_def dl_basic s0_def)
  moreover have "p @ ?a # n # b # q = dl_head s' # (ys @ n # zs) @ [dl_end s']" using l s' by simp
  ultimately show ?thesis using s' s by (simp add: dl_is_seq s0_def)
qed

lemma dl_eraseWithHandleLock_seq:
  assumes s: "dl_is s (ys @ n # zs)"
  shows "\<exists>s'. dl_eraseWithHandleLock s n = Inr s' \<and> dl_seq s' (dl_head s # (ys @ zs) @ [dl_end s]) {n} \<and>
     dl_count s' = int (length (ys @ zs)) \<and> dl_head s' = dl_head s \<and> dl_end s' = dl_end s"
proof -
  obtain p b q where l: "dl_head s # ys = p @ [last (dl_head s # ys)]" "zs @ [dl_end s] = b # q"
    "dl_head s # ys @ zs @ [dl_end s] = p @ last (dl_head s # ys) # b # q" by (rule seq_split)
  let ?a = "last (dl_head s # ys)"
  have full: "dl_head s # (ys @ n # zs) @ [dl_end s] = p @ ?a # n # b # q" using l by simp
  have seq: "dl_seq s (p @ ?a # n # b # q) {}" using s by (simp only: dl_is_seq full)
  have pv: "dl_prev s n = ?a" using linked_neighbours [of "dl_next s" "dl_prev s" p ?a n "b # q"] seq by (simp add: dl_seq_def)
  have ne: "?a \<noteq> n" using seq by (auto simp: dl_seq_def)
  define s0 where "s0 = s\<lparr>dl_held := {n, ?a}\<rparr>"
  have "dl_seq s0 (p @ ?a # n # b # q) {n, ?a}" using seq by (simp add: dl_seq_def s0_def)
  from dl_unlink_seq [OF this] obtain s1 where s1: "dl_unlink s0 n = Inr s1" "dl_seq s1 (p @ ?a # b # q) {n}"
    "dl_count s1 = dl_count s" "dl_head s1 = dl_head s" "dl_end s1 = dl_end s" by (auto simp: s0_def)
  have "dl_eraseWithHandleLock s n = Inr (dl_changeCount s1 (-1))"
    using s1(1) pv ne s by (simp add: dl_eraseWithHandleLock_def dl_is_def dl_basic s0_def insert_commute)
  then show ?thesis using s1 s l(3) by (simp add: dl_seq_def dl_changeCount_def dl_is_def)
qed

lemma dl_erase_eq: "dl_erase s n = sbind (dl_eraseWithHandleLock s n) (\<lambda>s. dl_unlock s n)"
  by (auto simp: dl_erase_def dl_eraseWithHandleLock_def dl_unlock_def dl_changeCount_def sbind_def split: sum.splits)

lemma dl_erase_is:
  assumes s: "dl_is s (ys @ n # zs)"
  shows "\<exists>s'. dl_erase s n = Inr s' \<and> dl_is s' (ys @ zs) \<and> dl_head s' = dl_head s \<and> dl_end s' = dl_end s"
proof -
  obtain s1 where s1: "dl_eraseWithHandleLock s n = Inr s1" "dl_seq s1 (dl_head s # (ys @ zs) @ [dl_end s]) {n}"
    "dl_count s1 = int (length (ys @ zs))" "dl_head s1 = dl_head s" "dl_end s1 = dl_end s"
    using dl_eraseWithHandleLock_seq [OF s] by blast
  then have "dl_erase s n = Inr (s1\<lparr>dl_held := {}\<rparr>)" by (simp add: dl_erase_eq dl_unlock_def dl_seq_def)
  with s1 show ?thesis by (simp add: dl_is_seq dl_seq_def)
qed

lemma dl_lru_is:
  assumes s: "dl_is s xs" and n: "n \<in> set xs"
  shows "\<exists>s'. dl_lru s n = Inr s' \<and> dl_is s' (n # remove1 n xs) \<and> dl_head s' = dl_head s \<and> dl_end s' = dl_end s"
proof -
  obtain ys zs where xs: "xs = ys @ n # zs" "n \<notin> set ys" using n by (metis split_list_first)
  have r: "remove1 n xs = ys @ zs" using xs by (simp add: remove1_append)
  show ?thesis
  proof (cases ys)
    case Nil
    have "dl_next s (dl_head s) = n" using s xs Nil by (simp add: dl_is_def)
    then show ?thesis using s xs Nil r by (auto simp: dl_lru_def)
  next
    case (Cons y ys')
    have first: "dl_next s (dl_head s) \<noteq> n" using s xs Cons by (auto simp: dl_is_def)
    obtain s1 where s1: "dl_eraseWithHandleLock s n = Inr s1" "dl_seq s1 (dl_head s # (ys @ zs) @ [dl_end s]) {n}"
      "dl_count s1 = int (length (ys @ zs))" "dl_head s1 = dl_head s" "dl_end s1 = dl_end s"
      using dl_eraseWithHandleLock_seq [of s ys n zs] s xs by auto
    obtain b q where bq: "(ys @ zs) @ [dl_end s] = b # q" by (cases "(ys @ zs) @ [dl_end s]") auto
    have nn: "n \<notin> set ([] @ dl_head s # b # q)" using s xs by (auto simp: dl_is_def simp flip: bq)
    define s2 where "s2 = set_prev s1 n (dl_head s)"
    have "linked (dl_next s1) ((dl_prev s1)(n := dl_head s)) (dl_head s # b # q) \<longleftrightarrow> linked (dl_next s1) (dl_prev s1) (dl_head s # b # q)"
      by (rule linked_cong) (use nn in auto)
    then have "dl_seq s2 ([] @ dl_head s # b # q) {n}" using s1(2) [unfolded bq] by (simp add: dl_seq_def s2_def set_prev_def)
    from dl_link_seq [OF this nn] obtain s3 where "dl_link s2 (dl_head s) n = Inr s3" "dl_seq s3 (dl_head s # n # b # q) {}"
      "dl_count s3 = dl_count s1 + 1" "dl_head s3 = dl_head s" "dl_end s3 = dl_end s" using s1(4,5) by (auto simp: s2_def set_prev_def)
    then show ?thesis using first s1 r bq by (simp add: dl_lru_def dl_insertAfterForHandleLock_def s2_def dl_is_seq)
  qed
qed

lemma dl_popFirst_is:
  "dl_is s [] \<Longrightarrow> dl_popFirst s = Inr (None, s)"
  "dl_is s (x # xs) \<Longrightarrow> \<exists>s'. dl_popFirst s = Inr (Some x, s') \<and> dl_is s' xs \<and> dl_head s' = dl_head s \<and> dl_end s' = dl_end s"
proof -
  show "dl_popFirst s = Inr (None, s)" if "dl_is s []"
    using that by (simp add: dl_popFirst_def dl_is_def dl_basic)
  show "\<exists>s'. dl_popFirst s = Inr (Some x, s') \<and> dl_is s' xs \<and> dl_head s' = dl_head s \<and> dl_end s' = dl_end s" if s: "dl_is s (x # xs)"
  proof -
    obtain b q where bq: "xs @ [dl_end s] = b # q" by (cases "xs @ [dl_end s]") auto
    have l: "linked (dl_next s) (dl_prev s) (dl_head s # x # b # q)" and d: "distinct (dl_head s # x # b # q)"
      and h: "dl_held s = {}" using s bq by (simp_all add: dl_is_def)
    have x: "x \<noteq> dl_end s" using s by (auto simp: dl_is_def)
    have "dl_popFirst s = Inr (Some x, s\<lparr>dl_next := (dl_next s)(dl_head s := b), dl_prev := (dl_prev s)(b := dl_head s), dl_count := dl_count s - 1\<rparr>)"
      using l d h x by (auto simp: dl_popFirst_def dl_basic insert_Diff_if)
    moreover have "linked ((dl_next s)(dl_head s := b)) ((dl_prev s)(b := dl_head s)) (dl_head s # b # q)"
      using linked_remove_line [of "dl_next s" "dl_prev s" "[]" "dl_head s" x b q] l d by simp
    ultimately show ?thesis using s d by (auto simp: dl_is_def bq simp flip: bq)
  qed
qed

lemma dl_popLastAndHandleLock_is:
  assumes s: "dl_is s (xs @ [x])"
  shows "\<exists>s'. dl_popLastAndHandleLock s = Inr (Some x, s') \<and> dl_is s' xs \<and> dl_head s' = dl_head s \<and> dl_end s' = dl_end s"
proof -
  obtain p a where pa: "dl_head s # xs = p @ [a]" by (metis append_butlast_last_id list.distinct(1))
  have full: "dl_head s # (xs @ [x]) @ [dl_end s] = p @ a # x # dl_end s # []" using pa by simp
  have l: "linked (dl_next s) (dl_prev s) (p @ a # x # dl_end s # [])" and d: "distinct (p @ a # x # dl_end s # [])"
    and h: "dl_held s = {}" using s unfolding dl_is_def full by simp_all
  have nb: "dl_prev s x = a" "dl_prev s (dl_end s) = x"
    using linked_neighbours [OF l] linked_neighbours [of "dl_next s" "dl_prev s" "p @ [a]" x "dl_end s" "[]"] l by simp_all
  have x: "x \<noteq> dl_head s" using s by (auto simp: dl_is_def)
  have "dl_popLastAndHandleLock s =
    Inr (Some x, s\<lparr>dl_next := (dl_next s)(a := dl_end s), dl_prev := (dl_prev s)(dl_end s := a), dl_count := dl_count s - 1\<rparr>)"
    using nb d h x by (auto simp: dl_popLastAndHandleLock_def dl_basic insert_Diff_if)
  moreover have e: "p @ a # dl_end s # [] = dl_head s # xs @ [dl_end s]" using pa by simp
  moreover have "linked ((dl_next s)(a := dl_end s)) ((dl_prev s)(dl_end s := a)) (dl_head s # xs @ [dl_end s])"
    using linked_remove_line [OF l d] unfolding e .
  moreover have "distinct (dl_head s # xs @ [dl_end s])" "dl_count s = int (length xs) + 1" using s by (simp_all add: dl_is_def)
  ultimately show ?thesis using h by (simp add: dl_is_def)
qed

lemma dl_ends_is:
  assumes "dl_is s xs"
  shows "dl_getFirst s = Inr (case xs of [] \<Rightarrow> None | x # _ \<Rightarrow> Some x)" and "dl_getLast s = Inr (if xs = [] then None else Some (last xs))"
proof -
  show "dl_getFirst s = Inr (case xs of [] \<Rightarrow> None | x # _ \<Rightarrow> Some x)"
    using assms by (cases xs) (auto simp: dl_getFirst_def dl_is_def)
  show "dl_getLast s = Inr (if xs = [] then None else Some (last xs))"
  proof (cases xs rule: rev_cases)
    case (snoc ys x)
    then have "linked (dl_next s) (dl_prev s) ((dl_head s # ys) @ x # dl_end s # [])" using assms by (simp add: dl_is_def)
    then have "dl_prev s (dl_end s) = x" by (rule linked_neighbours)
    then show ?thesis using assms snoc by (auto simp: dl_getLast_def dl_is_def)
  qed (use assms in \<open>simp add: dl_getLast_def dl_is_def\<close>)
qed

text \<open>The operations of a sequence with the addresses \<open>xs\<close>, and what they leave.\<close>

datatype dl_op = Insert nat | InsertAfter nat nat | Erase nat | PopFirst | Lru nat

fun dl_allowed :: "nat \<Rightarrow> nat \<Rightarrow> nat list \<Rightarrow> dl_op \<Rightarrow> bool" where
  "dl_allowed h e xs (Insert n) \<longleftrightarrow> n \<notin> set (h # xs @ [e])"
| "dl_allowed h e xs (InsertAfter a n) \<longleftrightarrow> a \<in> set xs \<and> n \<notin> set (h # xs @ [e])"
| "dl_allowed h e xs (Erase n) \<longleftrightarrow> n \<in> set xs"
| "dl_allowed h e xs PopFirst \<longleftrightarrow> True"
| "dl_allowed h e xs (Lru n) \<longleftrightarrow> n \<in> set xs"

fun seq_op :: "nat list \<Rightarrow> dl_op \<Rightarrow> nat option \<times> nat list" where
  "seq_op xs (Insert n) = (None, n # xs)"
| "seq_op xs (InsertAfter a n) = (None, takeWhile (\<lambda>x. x \<noteq> a) xs @ a # n # tl (dropWhile (\<lambda>x. x \<noteq> a) xs))"
| "seq_op xs (Erase n) = (None, remove1 n xs)"
| "seq_op xs PopFirst = (case xs of [] \<Rightarrow> (None, []) | x # ys \<Rightarrow> (Some x, ys))"
| "seq_op xs (Lru n) = (None, n # remove1 n xs)"

fun dl_exec :: "dualLinkList \<Rightarrow> dl_op \<Rightarrow> fault + nat option \<times> dualLinkList" where
  "dl_exec s (Insert n) = sbind (dl_insert s n) (\<lambda>s. Inr (None, s))"
| "dl_exec s (InsertAfter a n) = sbind (dl_insertAfter s a n) (\<lambda>s. Inr (None, s))"
| "dl_exec s (Erase n) = sbind (dl_erase s n) (\<lambda>s. Inr (None, s))"
| "dl_exec s PopFirst = dl_popFirst s"
| "dl_exec s (Lru n) = sbind (dl_lru s n) (\<lambda>s. Inr (None, s))"

lemma split_at: "a \<in> set xs \<Longrightarrow> xs = takeWhile (\<lambda>x. x \<noteq> a) xs @ a # tl (dropWhile (\<lambda>x. x \<noteq> a) xs)"
  by (induction xs) auto

lemma dl_exec_is:
  assumes "dl_is s xs" and "dl_allowed (dl_head s) (dl_end s) xs op"
  shows "\<exists>s'. dl_exec s op = Inr (fst (seq_op xs op), s') \<and> dl_is s' (snd (seq_op xs op)) \<and> dl_head s' = dl_head s \<and> dl_end s' = dl_end s"
proof (cases op)
  case (Insert n)
  then show ?thesis using dl_insertAfter_is [of s "[]" xs n] assms by (auto simp: dl_insert_def)
next
  case (InsertAfter a n)
  define ys where "ys = takeWhile (\<lambda>x. x \<noteq> a) xs"
  define zs where "zs = tl (dropWhile (\<lambda>x. x \<noteq> a) xs)"
  have xs: "xs = (ys @ [a]) @ zs" using split_at [of a xs] assms(2) InsertAfter by (simp add: ys_def zs_def)
  have "last (dl_head s # ys @ [a]) = a" by simp
  moreover have "n \<notin> set (dl_head s # ((ys @ [a]) @ zs) @ [dl_end s])" using assms(2) InsertAfter xs by simp
  ultimately have "\<exists>s'. dl_insertAfter s a n = Inr s' \<and> dl_is s' ((ys @ [a]) @ n # zs) \<and> dl_head s' = dl_head s \<and> dl_end s' = dl_end s"
    using dl_insertAfter_is [of s "ys @ [a]" zs n] assms(1) xs by metis
  then show ?thesis using InsertAfter by (auto simp: ys_def zs_def)
next
  case (Erase n)
  then have n: "n \<in> set xs" using assms(2) by simp
  obtain ys zs where xs: "xs = ys @ n # zs" "n \<notin> set ys" using n by (metis split_list_first)
  then show ?thesis using dl_erase_is [of s ys n zs] assms(1) Erase by (auto simp: remove1_append)
next
  case PopFirst
  then show ?thesis using dl_popFirst_is(1) [of s] dl_popFirst_is(2) [of s] assms(1) by (cases xs) auto
next
  case (Lru n)
  then show ?thesis using dl_lru_is [OF assms(1)] assms(2) by auto
qed

interpretation dll: list_machine dl_exec seq_op "\<lambda>(h, e). dl_allowed h e" "\<lambda>s. (dl_head s, dl_end s)" dl_is
  by unfold_locales (use dl_exec_is in auto)

section \<open>The list refines a sequence\<close>

text \<open>
  C26: A constructed \<^verbatim>\<open>dualLinkList\<close> answers every sequence of insertions, erasures, \<^verbatim>\<open>popFirst\<close> and \<^verbatim>\<open>lru\<close> calls (not of
  \<^verbatim>\<open>popLast\<close>, which releases a lock twice) that inserts nodes outside the list and erases nodes in it like the plain sequence of nodes: no call waits for a lock it holds itself, trips an assertion or releases a lock twice, and afterwards the
  next and previous pointers spell the sequence in both directions, every lock is free and the counter is its length.
\<close>

theorem dualLinkList_refines_sequence:
  assumes "h \<noteq> e" and "run_allowed (dl_allowed h e) seq_op [] ops"
  shows "\<exists>s. run_ops dl_exec (dl_new h e) ops = Inr (fst (run_spec seq_op [] ops), s) \<and> dl_is s (snd (run_spec seq_op [] ops)) \<and>
    dl_getFirst s = Inr (case snd (run_spec seq_op [] ops) of [] \<Rightarrow> None | x # _ \<Rightarrow> Some x) \<and>
    dl_getLast s = Inr (if snd (run_spec seq_op [] ops) = [] then None else Some (last (snd (run_spec seq_op [] ops))))"
proof -
  have "dl_head (dl_new h e) = h" "dl_end (dl_new h e) = e" by (simp_all add: dl_new_def)
  then show ?thesis using dll.run [OF dl_new_is [OF assms(1)], of ops] assms(2) dl_ends_is by auto
qed

theorem dualLinkList_refines_sequence_witness:
  "\<exists>s. run_ops dl_exec (dl_new 1 2) [Insert 3, Insert 4, InsertAfter 4 5, Lru 3, Erase 4, PopFirst] =
      Inr ([None, None, None, None, None, Some 3], s) \<and> dl_is s [5]"
  using dualLinkList_refines_sequence [of 1 2 "[Insert 3, Insert 4, InsertAfter 4 5, Lru 3, Erase 4, PopFirst]"] by auto

text \<open>
  \<^verbatim>\<open>popLastAndHandleLock\<close> removes the last node but releases its lock, which it should hand over: \<^verbatim>\<open>popLast\<close> then releases a
  lock that is not held, on every list that is not empty.
\<close>

theorem popLast_unlocks_twice:
  assumes "dl_is s xs"
  shows "dl_popLast s = (if xs = [] then Inr (None, s) else Inl NotLocked)"
proof (cases xs rule: rev_cases)
  case Nil
  then show ?thesis using assms by (simp add: dl_popLast_def dl_popLastAndHandleLock_def dl_is_def dl_basic)
next
  case (snoc ys x)
  obtain s' where "dl_popLastAndHandleLock s = Inr (Some x, s')" "dl_is s' ys"
    using dl_popLastAndHandleLock_is [of s ys x] assms snoc by auto
  then show ?thesis using snoc by (simp add: dl_popLast_def dl_unlock_def dl_is_def)
qed

theorem popLast_unlocks_twice_witness:
  "\<exists>s. dl_insert (dl_new 1 2) 3 = Inr s \<and> dl_popLast s = Inl NotLocked"
proof -
  obtain s where "dl_exec (dl_new 1 2) (Insert 3) = Inr (None, s)" and s: "dl_is s [3]"
    using dl_exec_is [OF dl_new_is [of 1 2], of "Insert 3"] by (auto simp: dl_new_def)
  then show ?thesis using popLast_unlocks_twice [OF s] by auto
qed

end
