(* ===== verification/GlobalList.thy ===== *)
theory GlobalList
  imports DualLinkList
begin

text \<open>
  The doubly linked ring under one reader-writer lock and its iterator (\<^verbatim>\<open>globalLockDualLinkList\<close> of
  \<^verbatim>\<open>util/dualLinkList.h\<close>).  Nodes are addresses and 0 is the null pointer, whose dereference is a fault.  The model runs one
  thread: waiting for the lock while it is held is a deadlock.
\<close>

section \<open>State\<close>

datatype rwlock = Free | Shared nat | Exclusive

record glist =
  gl_prev :: "nat \<Rightarrow> nat"
  gl_next :: "nat \<Rightarrow> nat"
  gl_head :: nat
  gl_lock :: rwlock

definition gl_new :: "nat \<Rightarrow> glist" where
  "gl_new h = \<lparr>gl_prev = (\<lambda>_. 0)(h := h), gl_next = (\<lambda>_. 0)(h := h), gl_head = h, gl_lock = Free\<rparr>"

definition gl_acquire :: "glist \<Rightarrow> fault + glist" where
  "gl_acquire s = (if gl_lock s = Free then Inr (s\<lparr>gl_lock := Exclusive\<rparr>) else Inl Deadlock)"

definition gl_release :: "glist \<Rightarrow> fault + glist" where
  "gl_release s = (if gl_lock s = Exclusive then Inr (s\<lparr>gl_lock := Free\<rparr>) else Inl NotLocked)"

definition gl_acquire_shared :: "glist \<Rightarrow> fault + glist" where
  "gl_acquire_shared s = (case gl_lock s of Free \<Rightarrow> Inr (s\<lparr>gl_lock := Shared 1\<rparr>) | Shared n \<Rightarrow> Inr (s\<lparr>gl_lock := Shared (n + 1)\<rparr>)
     | Exclusive \<Rightarrow> Inl Deadlock)"

definition gl_release_shared :: "glist \<Rightarrow> fault + glist" where
  "gl_release_shared s = (case gl_lock s of Shared n \<Rightarrow> Inr (s\<lparr>gl_lock := (if n \<le> 1 then Free else Shared (n - 1))\<rparr>) | _ \<Rightarrow> Inl NotLocked)"

text \<open>Stores through a node pointer.\<close>

definition gl_set_next :: "glist \<Rightarrow> nat \<Rightarrow> nat \<Rightarrow> fault + glist" where
  "gl_set_next s a b = (if a = 0 then Inl NullDeref else Inr (s\<lparr>gl_next := (gl_next s)(a := b)\<rparr>))"

definition gl_set_prev :: "glist \<Rightarrow> nat \<Rightarrow> nat \<Rightarrow> fault + glist" where
  "gl_set_prev s a b = (if a = 0 then Inl NullDeref else Inr (s\<lparr>gl_prev := (gl_prev s)(a := b)\<rparr>))"

section \<open>Operations\<close>

definition gl_insertAfter :: "glist \<Rightarrow> nat \<Rightarrow> nat \<Rightarrow> fault + glist" where
  "gl_insertAfter s a n =
     sbind (gl_set_prev s n a) (\<lambda>s. sbind (gl_acquire s) (\<lambda>s.
       if a = 0 then Inl NullDeref
       else let next = gl_next s a in
         sbind (gl_set_next s n next) (\<lambda>s. sbind (gl_set_next s a n) (\<lambda>s. sbind (gl_set_prev s next n) gl_release))))"

definition gl_insert :: "glist \<Rightarrow> nat \<Rightarrow> fault + glist" where
  "gl_insert s n = gl_insertAfter s (gl_head s) n"

text \<open>Takes the node out of the chain; its own pointers keep their values.\<close>

definition gl_unchain :: "glist \<Rightarrow> nat \<Rightarrow> fault + glist" where
  "gl_unchain s n = sbind (gl_set_prev s (gl_next s n) (gl_prev s n)) (\<lambda>s. gl_set_next s (gl_prev s n) (gl_next s n))"

definition gl_erase :: "glist \<Rightarrow> nat \<Rightarrow> fault + glist" where
  "gl_erase s n =
     sbind (gl_acquire s) (\<lambda>s.
       if n = 0 then Inl NullDeref
       else sbind (if gl_next s n \<noteq> 0 then gl_unchain s n else Inr s) gl_release)"

record gl_iterator =
  it_node :: nat
  it_rw :: bool

definition it_new :: "glist \<Rightarrow> bool \<Rightarrow> fault + gl_iterator \<times> glist" where
  "it_new s rw = sbind (if rw then gl_acquire s else gl_acquire_shared s) (\<lambda>s. Inr (\<lparr>it_node = gl_next s (gl_head s), it_rw = rw\<rparr>, s))"

definition it_delete :: "glist \<Rightarrow> gl_iterator \<Rightarrow> fault + glist" where
  "it_delete s it = (if it_rw it then gl_release s else gl_release_shared s)"

definition it_valid :: "glist \<Rightarrow> gl_iterator \<Rightarrow> bool" where
  "it_valid s it \<longleftrightarrow> it_node it \<noteq> gl_head s"

definition it_next :: "glist \<Rightarrow> gl_iterator \<Rightarrow> bool \<times> gl_iterator" where
  "it_next s it = (if gl_next s (it_node it) = gl_head s then (False, it) else (True, it\<lparr>it_node := gl_next s (it_node it)\<rparr>))"

definition it_erase :: "glist \<Rightarrow> gl_iterator \<Rightarrow> fault + gl_iterator \<times> glist" where
  "it_erase s it = (let prev = gl_prev s (it_node it) in
     sbind (gl_unchain s (it_node it)) (\<lambda>s. sbind (gl_set_next s (it_node it) 0) (\<lambda>s. sbind (gl_set_prev s (it_node it) 0) (\<lambda>s.
       Inr (it\<lparr>it_node := prev\<rparr>, s)))))"

section \<open>Rings\<close>

text \<open>The ring holds the nodes \<open>xs\<close> after its head, under the lock \<open>l\<close>.\<close>

definition gl_ring :: "glist \<Rightarrow> nat list \<Rightarrow> rwlock \<Rightarrow> bool" where
  "gl_ring s xs l \<longleftrightarrow> linked (gl_next s) (gl_prev s) (gl_head s # xs @ [gl_head s]) \<and> distinct (gl_head s # xs) \<and>
     0 \<notin> set (gl_head s # xs) \<and> gl_lock s = l"

abbreviation gl_is :: "glist \<Rightarrow> nat list \<Rightarrow> bool" where
  "gl_is s xs \<equiv> gl_ring s xs Free"

lemmas gl_basic = gl_acquire_def gl_release_def gl_acquire_shared_def gl_release_shared_def gl_set_next_def gl_set_prev_def Let_def

lemma gl_new_is: "h \<noteq> 0 \<Longrightarrow> gl_is (gl_new h) []"
  by (simp add: gl_ring_def gl_new_def)

text \<open>A ring around one of its nodes or around the insertion point.\<close>

lemma gl_ring_around:
  assumes "gl_ring s (ys @ zs) l"
  obtains p a b q where "gl_head s # ys = p @ [a]" and "zs @ [gl_head s] = b # q" and "a = last (gl_head s # ys)"
    and "linked (gl_next s) (gl_prev s) (p @ a # b # q)" and "distinct (p @ a # butlast (b # q))" and "distinct (tl (p @ [a]) @ b # q)"
    and "0 \<notin> set (p @ a # b # q)"
proof -
  obtain p a where pa: "gl_head s # ys = p @ [a]" by (metis append_butlast_last_id list.distinct(1))
  obtain b q where bq: "zs @ [gl_head s] = b # q" by (cases "zs @ [gl_head s]") auto
  have full: "p @ a # b # q = gl_head s # (ys @ zs) @ [gl_head s]" using pa bq by (metis append.assoc append_Cons append_Nil)
  have ys: "tl (p @ [a]) = ys" using pa by (metis list.sel(3))
  have zs: "butlast (b # q) = zs" using bq by (metis butlast_snoc)
  have l: "linked (gl_next s) (gl_prev s) (p @ a # b # q)" using assms unfolding full gl_ring_def by simp
  have "distinct ((p @ [a]) @ butlast (b # q))" using assms unfolding zs pa [symmetric] gl_ring_def by simp
  then have d: "distinct (p @ a # butlast (b # q))" by simp
  have t: "distinct (tl (p @ [a]) @ b # q)" using assms unfolding ys bq [symmetric] gl_ring_def by auto
  have z: "0 \<notin> set (p @ a # b # q)" using assms unfolding full gl_ring_def by auto
  have a: "a = last (gl_head s # ys)" unfolding pa by simp
  show ?thesis by (rule that [OF pa bq a l d t z])
qed

lemma gl_insertAfter_is:
  assumes s: "gl_is s (ys @ zs)" and n: "n \<notin> set (gl_head s # ys @ zs)" "n \<noteq> 0"
  shows "\<exists>s'. gl_insertAfter s (last (gl_head s # ys)) n = Inr s' \<and> gl_is s' (ys @ n # zs) \<and> gl_head s' = gl_head s"
proof -
  obtain p a b q where pa: "gl_head s # ys = p @ [a]" and bq: "zs @ [gl_head s] = b # q" and a: "a = last (gl_head s # ys)"
    and l: "linked (gl_next s) (gl_prev s) (p @ a # b # q)" and d: "distinct (p @ a # butlast (b # q))"
    and t: "distinct (tl (p @ [a]) @ b # q)" and z: "0 \<notin> set (p @ a # b # q)" by (rule gl_ring_around [OF s])
  have "set (p @ a # b # q) = set (p @ [a]) \<union> set (b # q)" by auto
  then have np: "n \<notin> set (p @ a # b # q)" using n unfolding pa [symmetric] bq [symmetric] by auto
  let ?s = "s\<lparr>gl_next := (gl_next s)(n := b, a := n), gl_prev := (gl_prev s)(n := a, b := n)\<rparr>"
  have "gl_insertAfter s a n = Inr ?s"
    using linked_neighbours(1) [OF l] np z n(2) s by (auto simp: gl_insertAfter_def gl_basic gl_ring_def)
  moreover have e: "p @ a # n # b # q = gl_head s # (ys @ n # zs) @ [gl_head s]" using pa bq by (metis append.assoc append_Cons append_Nil)
  have "linked (gl_next ?s) (gl_prev ?s) (gl_head s # (ys @ n # zs) @ [gl_head s])" using linked_insert [OF l d t np] unfolding e by simp
  ultimately show ?thesis using s n unfolding a by (auto simp: gl_ring_def)
qed

lemma gl_unchain_ring:
  assumes s: "gl_ring s (ys @ n # zs) l"
  shows "\<exists>s'. gl_unchain s n = Inr s' \<and> gl_ring s' (ys @ zs) l \<and> gl_head s' = gl_head s \<and>
    gl_prev s n = last (gl_head s # ys) \<and> gl_next s n = hd (zs @ [gl_head s])"
proof -
  obtain p a b q where pa: "gl_head s # ys = p @ [a]" and bq: "(n # zs) @ [gl_head s] = b # q" and a: "a = last (gl_head s # ys)"
    and l: "linked (gl_next s) (gl_prev s) (p @ a # b # q)" and d: "distinct (p @ a # butlast (b # q))"
    and t: "distinct (tl (p @ [a]) @ b # q)" and z: "0 \<notin> set (p @ a # b # q)" by (rule gl_ring_around [OF s])
  obtain c r where cr: "zs @ [gl_head s] = c # r" by (cases "zs @ [gl_head s]") auto
  have b: "b = n" "q = c # r" using bq cr by simp_all
  note l = l [unfolded b] and d = d [unfolded b] and t = t [unfolded b] and z = z [unfolded b]
  have nb: "gl_prev s n = a" "gl_next s n = c"
    using linked_neighbours(2) [OF l] linked_neighbours(1) [of _ _ "p @ [a]" n c r] l by simp_all
  have ne: "c \<noteq> n" "a \<noteq> n" using t d by auto
  let ?s = "s\<lparr>gl_prev := (gl_prev s)(c := a), gl_next := (gl_next s)(a := c)\<rparr>"
  have "gl_unchain s n = Inr ?s" using nb ne z by (auto simp: gl_unchain_def gl_basic)
  moreover have e: "p @ a # c # r = gl_head s # (ys @ zs) @ [gl_head s]" using pa cr by (metis append.assoc append_Cons append_Nil)
  have "distinct (p @ a # n # butlast (c # r))" using d by simp
  from linked_remove [OF l this t] have "linked (gl_next ?s) (gl_prev ?s) (gl_head s # (ys @ zs) @ [gl_head s])" unfolding e by simp
  ultimately show ?thesis using s nb cr unfolding a by (auto simp: gl_ring_def)
qed

lemma gl_ring_lock: "gl_ring s xs l \<Longrightarrow> gl_ring (s\<lparr>gl_lock := l'\<rparr>) xs l'"
  by (simp add: gl_ring_def)

lemma gl_erase_is:
  assumes s: "gl_is s (ys @ n # zs)"
  shows "\<exists>s'. gl_erase s n = Inr s' \<and> gl_is s' (ys @ zs) \<and> gl_head s' = gl_head s"
proof -
  obtain s1 where s1: "gl_unchain (s\<lparr>gl_lock := Exclusive\<rparr>) n = Inr s1" "gl_ring s1 (ys @ zs) Exclusive" "gl_head s1 = gl_head s"
    and nx: "gl_next s n = hd (zs @ [gl_head s])" using gl_unchain_ring [OF gl_ring_lock [OF s]] by auto
  have "gl_next s n \<noteq> 0" "n \<noteq> 0" using s nx by (cases zs; auto simp: gl_ring_def)+
  then show ?thesis using s s1 gl_ring_lock [OF s1(2), of Free] by (auto simp: gl_erase_def gl_basic gl_ring_def)
qed

text \<open>The iterator at a node of the ring.\<close>

lemma it_new_is:
  assumes "gl_is s xs"
  shows "\<exists>s' it. it_new s True = Inr (it, s') \<and> gl_ring s' xs Exclusive \<and> gl_head s' = gl_head s \<and> it_node it = hd (xs @ [gl_head s]) \<and> it_rw it"
  using assms gl_ring_lock [OF assms, of Exclusive] by (cases xs) (auto simp: it_new_def gl_acquire_def gl_ring_def)

lemma it_next_ring:
  assumes "gl_ring s (ys @ n # zs) l" and "it_node it = n"
  shows "it_next s it = (case zs of [] \<Rightarrow> (False, it) | z # _ \<Rightarrow> (True, it\<lparr>it_node := z\<rparr>))"
  using gl_unchain_ring [OF assms(1)] assms by (cases zs) (auto simp: it_next_def gl_ring_def)

lemma it_next_head:
  assumes "gl_ring s xs l" and "it_node it = gl_head s"
  shows "it_next s it = (case xs of [] \<Rightarrow> (False, it) | z # _ \<Rightarrow> (True, it\<lparr>it_node := z\<rparr>))"
  using assms by (cases xs) (auto simp: it_next_def gl_ring_def)

lemma it_erase_ring:
  assumes s: "gl_ring s (ys @ n # zs) l" and it: "it_node it = n"
  shows "\<exists>s'. it_erase s it = Inr (it\<lparr>it_node := last (gl_head s # ys)\<rparr>, s') \<and> gl_ring s' (ys @ zs) l \<and> gl_head s' = gl_head s \<and>
    gl_next s' n = 0 \<and> gl_prev s' n = 0"
proof -
  obtain s1 where s1: "gl_unchain s n = Inr s1" "gl_ring s1 (ys @ zs) l" "gl_head s1 = gl_head s" "gl_prev s n = last (gl_head s # ys)"
    using gl_unchain_ring [OF s] by auto
  have n: "n \<notin> set (gl_head s1 # (ys @ zs) @ [gl_head s1])" "n \<noteq> 0" using s s1(3) by (auto simp: gl_ring_def)
  have "linked ((gl_next s1)(n := 0)) ((gl_prev s1)(n := 0)) (gl_head s1 # (ys @ zs) @ [gl_head s1])"
    using s1(2) linked_outside [OF n(1)] unfolding gl_ring_def by blast
  then show ?thesis using s1 it n(2) by (auto simp: it_erase_def gl_basic gl_ring_def)
qed

section \<open>The ring refines a sequence\<close>

datatype gl_op = GInsert nat | GInsertAfter nat nat | GErase nat

fun gl_allowed :: "nat \<Rightarrow> nat list \<Rightarrow> gl_op \<Rightarrow> bool" where
  "gl_allowed h xs (GInsert n) \<longleftrightarrow> n \<noteq> 0 \<and> n \<notin> set (h # xs)"
| "gl_allowed h xs (GInsertAfter a n) \<longleftrightarrow> a \<in> set xs \<and> n \<noteq> 0 \<and> n \<notin> set (h # xs)"
| "gl_allowed h xs (GErase n) \<longleftrightarrow> n \<in> set xs"

fun gl_spec :: "nat list \<Rightarrow> gl_op \<Rightarrow> unit \<times> nat list" where
  "gl_spec xs (GInsert n) = ((), n # xs)"
| "gl_spec xs (GInsertAfter a n) = ((), takeWhile (\<lambda>x. x \<noteq> a) xs @ a # n # tl (dropWhile (\<lambda>x. x \<noteq> a) xs))"
| "gl_spec xs (GErase n) = ((), remove1 n xs)"

fun gl_exec :: "glist \<Rightarrow> gl_op \<Rightarrow> fault + unit \<times> glist" where
  "gl_exec s (GInsert n) = sbind (gl_insert s n) (\<lambda>s. Inr ((), s))"
| "gl_exec s (GInsertAfter a n) = sbind (gl_insertAfter s a n) (\<lambda>s. Inr ((), s))"
| "gl_exec s (GErase n) = sbind (gl_erase s n) (\<lambda>s. Inr ((), s))"

lemma gl_insert_is:
  assumes "gl_is s xs" and "n \<noteq> 0" and "n \<notin> set (gl_head s # xs)"
  shows "\<exists>s'. gl_insert s n = Inr s' \<and> gl_is s' (n # xs) \<and> gl_head s' = gl_head s"
  using gl_insertAfter_is [of s "[]" xs n] assms by (simp add: gl_insert_def)

lemma gl_exec_is:
  assumes "gl_is s xs" and "gl_allowed (gl_head s) xs op"
  shows "\<exists>s'. gl_exec s op = Inr (fst (gl_spec xs op), s') \<and> gl_is s' (snd (gl_spec xs op)) \<and> gl_head s' = gl_head s"
proof (cases op)
  case (GInsert n)
  then show ?thesis using gl_insert_is [of s xs n] assms by auto
next
  case (GInsertAfter a n)
  define ys where "ys = takeWhile (\<lambda>x. x \<noteq> a) xs"
  define zs where "zs = tl (dropWhile (\<lambda>x. x \<noteq> a) xs)"
  have xs: "xs = (ys @ [a]) @ zs" using split_at [of a xs] assms(2) GInsertAfter by (simp add: ys_def zs_def)
  have "last (gl_head s # ys @ [a]) = a" by simp
  moreover have "n \<notin> set (gl_head s # (ys @ [a]) @ zs)" "n \<noteq> 0" using assms(2) GInsertAfter xs by simp_all
  ultimately have "\<exists>s'. gl_insertAfter s a n = Inr s' \<and> gl_is s' ((ys @ [a]) @ n # zs) \<and> gl_head s' = gl_head s"
    using gl_insertAfter_is [of s "ys @ [a]" zs n] assms(1) xs by metis
  then show ?thesis using GInsertAfter by (auto simp: ys_def zs_def)
next
  case (GErase n)
  then obtain ys zs where xs: "xs = ys @ n # zs" "n \<notin> set ys" using assms(2) by (auto dest: split_list_first)
  then show ?thesis using gl_erase_is [of s ys n zs] assms(1) GErase by (auto simp: remove1_append)
qed

interpretation gll: list_machine gl_exec gl_spec gl_allowed gl_head gl_is
  by unfold_locales (use gl_exec_is in auto)

text \<open>
  A constructed \<^verbatim>\<open>globalLockDualLinkList\<close> answers every sequence of insertions and erasures like the plain sequence of nodes,
  its pointers spell the sequence in both directions and the lock is free between the calls.
\<close>

theorem globalList_refines_sequence:
  assumes "h \<noteq> 0" and "run_allowed (gl_allowed h) gl_spec [] ops"
  shows "\<exists>s. run_ops gl_exec (gl_new h) ops = Inr (fst (run_spec gl_spec [] ops), s) \<and> gl_is s (snd (run_spec gl_spec [] ops))"
proof -
  have "gl_head (gl_new h) = h" by (simp add: gl_new_def)
  then show ?thesis using gll.run [OF gl_new_is [OF assms(1)], of ops] assms(2) by auto
qed

theorem globalList_refines_sequence_witness:
  "\<exists>s. run_ops gl_exec (gl_new 1) [GInsert 3, GInsert 4, GInsertAfter 4 5, GErase 4] = Inr ([(), (), (), ()], s) \<and> gl_is s [5, 3]"
  using globalList_refines_sequence [of 1 "[GInsert 3, GInsert 4, GInsertAfter 4 5, GErase 4]"] by auto

end
