(* ===== verification/PageLru.thy ===== *)
theory PageLru
  imports GlobalList
begin

text \<open>
  The reference counts of \<^verbatim>\<open>util/ref.h\<close>, the pages of \<^verbatim>\<open>database/page.h\<close> with the list of unused pages
  (\<^verbatim>\<open>database::m_pageLru\<close>), \<^verbatim>\<open>database::allocPage\<close>, \<^verbatim>\<open>database::fullGc\<close> and \<^verbatim>\<open>solidBlock::getPage\<close>.  A page is named by the
  address of its list node, its data by the address of the buffer (0 is the null pointer), and the buffers returned to the pool
  are recorded in order.  The model runs one thread, so a compare-and-swap that would be repeated succeeds at once; counts are
  unbounded, which stands for less than \<open>2 ^ 31\<close> users of a page.
\<close>

section \<open>Reference counts\<close>

text \<open>Each operation returns its result and the new count.\<close>

definition ref_use :: "int \<Rightarrow> int \<times> int" where
  "ref_use r = (r, r + 1)"

definition ref_unuse :: "int \<Rightarrow> int \<times> int" where
  "ref_unuse r = (r, r - 1)"

definition ref_own :: "int \<Rightarrow> bool \<times> int" where
  "ref_own r = (if r < 0 then (False, r) else (True, - r))"

definition ref_unuseForLru :: "int \<Rightarrow> int \<times> int" where
  "ref_unuseForLru r = (if r = 1 then (0, - r) else (r - 1, r - 1))"

definition ref_waitForShare :: "int \<Rightarrow> fault + int" where
  "ref_waitForShare r = (if r > 0 then Inr r else Inl Deadlock)"

definition ref_share :: "int \<Rightarrow> bool \<times> int" where
  "ref_share r = (if r < 0 then (True, - r) else (False, r))"

definition ref_tryUnuseIfZero :: "int \<Rightarrow> bool \<times> int" where
  "ref_tryUnuseIfZero r = (if r = 0 then (True, r - 1) else (False, r))"

section \<open>Pages\<close>

record page =
  pg_ref :: int
  pg_data :: nat
  pg_lru :: bool

record pageCache =
  pc_lru :: glist
  pc_page :: "nat \<Rightarrow> page"
  pc_freed :: "nat list"

definition set_ref :: "pageCache \<Rightarrow> nat \<Rightarrow> int \<Rightarrow> pageCache" where
  "set_ref s p r = s\<lparr>pc_page := (pc_page s)(p := (pc_page s p)\<lparr>pg_ref := r\<rparr>)\<rparr>"

definition set_data :: "pageCache \<Rightarrow> nat \<Rightarrow> nat \<Rightarrow> pageCache" where
  "set_data s p d = s\<lparr>pc_page := (pc_page s)(p := (pc_page s p)\<lparr>pg_data := d\<rparr>)\<rparr>"

definition with_lru :: "pageCache \<Rightarrow> fault + glist \<Rightarrow> fault + pageCache" where
  "with_lru s r = sbind r (\<lambda>l. Inr (s\<lparr>pc_lru := l\<rparr>))"

text \<open>\<^verbatim>\<open>basicBufferPool::free\<close> reads the header before the buffer.\<close>

definition pool_free :: "pageCache \<Rightarrow> nat \<Rightarrow> fault + pageCache" where
  "pool_free s d = (if d = 0 then Inl NullDeref else if d \<in> set (pc_freed s) then Inl UseAfterFree else Inr (s\<lparr>pc_freed := pc_freed s @ [d]\<rparr>))"

definition allocPage :: "pageCache \<Rightarrow> nat \<Rightarrow> nat \<Rightarrow> pageCache" where
  "allocPage s p d = s\<lparr>pc_page := (pc_page s)(p := \<lparr>pg_ref = 0, pg_data = d, pg_lru = True\<rparr>),
     pc_lru := (pc_lru s)\<lparr>gl_next := (gl_next (pc_lru s))(p := 0), gl_prev := (gl_prev (pc_lru s))(p := 0)\<rparr>\<rparr>"

text \<open>
  The two loops of \<^verbatim>\<open>page::use\<close>: at most ten increments until the count before the increment is positive, then increments
  until it is not 0.  Both return that count and the new one.
\<close>

fun use_tries :: "nat \<Rightarrow> int \<Rightarrow> int option \<times> int" where
  "use_tries 0 r = (None, r)"
| "use_tries (Suc k) r = (let (v, r') = ref_use r in if v > 0 then (Some v, r') else use_tries k r')"

function use_wait :: "int \<Rightarrow> int \<times> int" where
  "use_wait r = (let (v, r') = ref_use r in if v \<noteq> 0 then (v, r') else use_wait r')"
  by auto
termination by (relation "measure (\<lambda>r. if r = 0 then 1 else 0)") (auto simp: ref_use_def)

definition use_count :: "int \<Rightarrow> int \<times> int" where
  "use_count r = (case use_tries 10 r of (Some v, r') \<Rightarrow> (v, r') | (None, r') \<Rightarrow> use_wait r')"

definition page_use :: "pageCache \<Rightarrow> nat \<Rightarrow> fault + pageCache" where
  "page_use s p = (let (v, r) = use_count (pg_ref (pc_page s p)); s = set_ref s p r in
     if v = 1 \<and> pg_lru (pc_page s p) \<and> gl_next (pc_lru s) p \<noteq> 0 then with_lru s (gl_erase (pc_lru s) p) else Inr s)"

definition drop_data :: "pageCache \<Rightarrow> nat \<Rightarrow> fault + pageCache" where
  "drop_data s p = (let d = pg_data (pc_page s p) in
     if d \<noteq> 0 then pool_free (set_ref (set_data s p 0) p 0) d else Inr (set_ref s p 0))"

definition page_unuse :: "pageCache \<Rightarrow> nat \<Rightarrow> fault + pageCache" where
  "page_unuse s p =
     (if pg_lru (pc_page s p)
      then let (v, r) = ref_unuseForLru (pg_ref (pc_page s p)); s = set_ref s p r in
        if v = 0 then sbind (with_lru s (gl_insert (pc_lru s) p)) (\<lambda>s. Inr (set_ref s p 0))
        else if v < 0 then drop_data s p else Inr s
      else let (v, r) = ref_unuse (pg_ref (pc_page s p)); s = set_ref s p r in
        if v < 0 then drop_data s p else Inr s)"

definition freeWhenNoUser :: "pageCache \<Rightarrow> nat \<Rightarrow> fault + bool \<times> pageCache" where
  "freeWhenNoUser s p = (let (b, r) = ref_tryUnuseIfZero (pg_ref (pc_page s p)); s = set_ref s p r in
     if b then let d = pg_data (pc_page s p) in sbind (pool_free (set_ref (set_data s p 0) p 0) d) (\<lambda>s. Inr (True, s))
     else Inr (False, s))"

text \<open>
  The loop of \<^verbatim>\<open>fullGc\<close> runs with fuel; \<open>None\<close> is running out of it.
\<close>

fun gc_loop :: "nat \<Rightarrow> pageCache \<Rightarrow> gl_iterator \<Rightarrow> (fault + pageCache \<times> gl_iterator) option" where
  "gc_loop 0 s it = None"
| "gc_loop (Suc k) s it =
     (case sbind (freeWhenNoUser s (it_node it)) (\<lambda>(_, s). sbind (it_erase (pc_lru s) it) (\<lambda>(it, l). Inr (s\<lparr>pc_lru := l\<rparr>, it))) of
        Inl e \<Rightarrow> Some (Inl e)
      | Inr (s, it) \<Rightarrow> (case it_next (pc_lru s) it of (True, it) \<Rightarrow> gc_loop k s it | (False, it) \<Rightarrow> Some (Inr (s, it))))"

definition fullGc :: "nat \<Rightarrow> pageCache \<Rightarrow> (fault + pageCache) option" where
  "fullGc k s =
     (case it_new (pc_lru s) True of Inl e \<Rightarrow> Some (Inl e)
      | Inr (it, l) \<Rightarrow> let s = s\<lparr>pc_lru := l\<rparr> in
        if \<not> it_valid l it then Some (with_lru s (it_delete l it))
        else map_option (\<lambda>r. sbind r (\<lambda>(s, it). with_lru s (it_delete (pc_lru s) it))) (gc_loop k s it))"

text \<open>
  \<^verbatim>\<open>getPage\<close>, given what \<^verbatim>\<open>loadPage\<close> reads: the buffer with the data of the page, or nothing when it fails.
\<close>

definition getPage :: "nat option \<Rightarrow> pageCache \<Rightarrow> nat \<Rightarrow> fault + bool \<times> pageCache" where
  "getPage loaded s p =
     sbind (page_use s p) (\<lambda>s.
       if pg_data (pc_page s p) \<noteq> 0 then Inr (True, s)
       else let (b, r) = ref_own (pg_ref (pc_page s p)); s = set_ref s p r in
         if \<not> b then sbind (ref_waitForShare r) (\<lambda>_. Inl Deadlock)
         else (case loaded of
             None \<Rightarrow> let s = set_ref s p (snd (ref_share (pg_ref (pc_page s p)))) in sbind (page_unuse s p) (\<lambda>s. Inr (False, s))
           | Some d \<Rightarrow> let s = set_data s p d in Inr (True, set_ref s p (snd (ref_share (pg_ref (pc_page s p)))))))"

section \<open>Collecting the unused pages\<close>

lemmas page_simps = set_ref_def set_data_def with_lru_def pool_free_def Let_def

text \<open>One turn of the loop at the first node of the ring.\<close>

definition gc_page :: "page \<Rightarrow> page" where
  "gc_page p = (if pg_ref p = 0 then p\<lparr>pg_data := 0\<rparr> else p)"

definition gc_freed :: "pageCache \<Rightarrow> nat list \<Rightarrow> nat list" where
  "gc_freed s xs = map (\<lambda>p. pg_data (pc_page s p)) (filter (\<lambda>p. pg_ref (pc_page s p) = 0) xs)"

lemma gc_freed_Cons:
  "gc_freed s (x # xs) = (if pg_ref (pc_page s x) = 0 then pg_data (pc_page s x) # gc_freed s xs else gc_freed s xs)"
  by (simp add: gc_freed_def)

lemma gc_freed_cong: "(\<And>p. p \<in> set xs \<Longrightarrow> pc_page s p = pc_page t p) \<Longrightarrow> gc_freed s xs = gc_freed t xs"
  by (induction xs) (simp_all add: gc_freed_def)

lemma gc_freed_Nil: "gc_freed s [] = []"
  by (simp add: gc_freed_def)

lemma page_reset: "pg_ref q = 0 \<Longrightarrow> q\<lparr>pg_data := d, pg_ref := 0\<rparr> = q\<lparr>pg_data := d\<rparr>"
  by (cases q) simp

lemma freeWhenNoUser_gc:
  assumes "pg_ref (pc_page s p) = 0 \<Longrightarrow> pg_data (pc_page s p) \<noteq> 0 \<and> pg_data (pc_page s p) \<notin> set (pc_freed s)"
  shows "\<exists>b. freeWhenNoUser s p = Inr (b, s\<lparr>pc_page := (pc_page s)(p := gc_page (pc_page s p)), pc_freed := pc_freed s @ gc_freed s [p]\<rparr>)"
proof (cases "pg_ref (pc_page s p) = 0")
  case True
  then show ?thesis using assms by (auto simp: freeWhenNoUser_def ref_tryUnuseIfZero_def page_simps gc_page_def gc_freed_def page_reset)
next
  case False
  then show ?thesis by (auto simp: freeWhenNoUser_def ref_tryUnuseIfZero_def page_simps gc_page_def gc_freed_def)
qed

lemma gc_loop_empties:
  assumes "gl_ring (pc_lru s) (x # xs) Exclusive" and "it_node it = x" and "length (x # xs) \<le> k"
    and "0 \<notin> set (gc_freed s (x # xs))" and "distinct (pc_freed s @ gc_freed s (x # xs))"
  shows "\<exists>s' it'. gc_loop k s it = Some (Inr (s', it')) \<and> it_rw it' = it_rw it \<and> gl_ring (pc_lru s') [] Exclusive \<and>
    gl_head (pc_lru s') = gl_head (pc_lru s) \<and> pc_freed s' = pc_freed s @ gc_freed s (x # xs) \<and>
    pc_page s' = (\<lambda>p. if p \<in> set (x # xs) then gc_page (pc_page s p) else pc_page s p)"
  using assms
proof (induction xs arbitrary: x k s it)
  case (Nil x)
  obtain k' where k: "k = Suc k'" using Nil.prems(3) by (cases k) auto
  obtain b where f: "freeWhenNoUser s x = Inr (b, s\<lparr>pc_page := (pc_page s)(x := gc_page (pc_page s x)), pc_freed := pc_freed s @ gc_freed s [x]\<rparr>)"
    using freeWhenNoUser_gc [of s x] Nil.prems(4,5) by (auto simp: gc_freed_Cons gc_freed_Nil split: if_splits)
  obtain l where l: "it_erase (pc_lru s) it = Inr (it\<lparr>it_node := gl_head (pc_lru s)\<rparr>, l)" "gl_ring l [] Exclusive" "gl_head l = gl_head (pc_lru s)"
    using it_erase_ring [of "pc_lru s" "[]" x "[]" Exclusive it] Nil.prems(1,2) by auto
  have "it_next l (it\<lparr>it_node := gl_head (pc_lru s)\<rparr>) = (False, it\<lparr>it_node := gl_head (pc_lru s)\<rparr>)"
    using it_next_head [OF l(2)] l(3) by simp
  then show ?case using f l Nil.prems(2) k by (auto simp: fun_eq_iff)
next
  case (Cons y ys x)
  obtain k' where k: "k = Suc k'" "length (y # ys) \<le> k'" using Cons.prems(3) by (cases k) auto
  define s1 where "s1 = s\<lparr>pc_page := (pc_page s)(x := gc_page (pc_page s x)), pc_freed := pc_freed s @ gc_freed s [x]\<rparr>"
  obtain b where f: "freeWhenNoUser s x = Inr (b, s1)"
    using freeWhenNoUser_gc [of s x] Cons.prems(4,5) unfolding s1_def by (auto simp: gc_freed_Cons gc_freed_Nil split: if_splits)
  obtain l where l: "it_erase (pc_lru s) it = Inr (it\<lparr>it_node := gl_head (pc_lru s)\<rparr>, l)" "gl_ring l (y # ys) Exclusive" "gl_head l = gl_head (pc_lru s)"
    using it_erase_ring [of "pc_lru s" "[]" x "y # ys" Exclusive it] Cons.prems(1,2) by auto
  have nx: "it_next l (it\<lparr>it_node := gl_head (pc_lru s)\<rparr>) = (True, it\<lparr>it_node := y\<rparr>)"
    using it_next_head [OF l(2)] l(3) by simp
  have x: "x \<notin> set (y # ys)" using Cons.prems(1) by (auto simp: gl_ring_def)
  define s2 where "s2 = s1\<lparr>pc_lru := l\<rparr>"
  have g: "gc_freed s2 (y # ys) = gc_freed s (y # ys)" by (rule gc_freed_cong) (use x in \<open>auto simp: s2_def s1_def\<close>)
  have h: "gc_freed s (x # y # ys) = gc_freed s [x] @ gc_freed s (y # ys)" by (simp add: gc_freed_def)
  note g = g h
  have "0 \<notin> set (gc_freed s2 (y # ys))" "distinct (pc_freed s2 @ gc_freed s2 (y # ys))"
    using Cons.prems(4,5) unfolding g by (auto simp: s2_def s1_def)
  from Cons.IH [of s2 y "it\<lparr>it_node := y\<rparr>" k', OF _ _ k(2) this] l(2)
  obtain s' it' where s': "gc_loop k' s2 (it\<lparr>it_node := y\<rparr>) = Some (Inr (s', it'))" "it_rw it' = it_rw it" "gl_ring (pc_lru s') [] Exclusive"
    "gl_head (pc_lru s') = gl_head (pc_lru s2)" "pc_freed s' = pc_freed s2 @ gc_freed s2 (y # ys)"
    "pc_page s' = (\<lambda>p. if p \<in> set (y # ys) then gc_page (pc_page s2 p) else pc_page s2 p)"
    by (auto simp: s2_def)
  have "gc_loop k s it = Some (Inr (s', it'))" using k(1) f l(1) nx s'(1) Cons.prems(2) by (simp add: s2_def s1_def)
  moreover have "pc_freed s' = pc_freed s @ gc_freed s (x # y # ys)" using s'(5) unfolding g by (simp add: s2_def s1_def)
  moreover have "pc_page s' = (\<lambda>p. if p \<in> set (x # y # ys) then gc_page (pc_page s p) else pc_page s p)"
    using s'(6) x by (auto simp: s2_def s1_def fun_eq_iff)
  ultimately show ?case using s'(2-4) l(3) by (simp add: s2_def)
qed

lemma fullGc_run:
  assumes "gl_is (pc_lru s) xs" and "0 \<notin> set (gc_freed s xs)" and "distinct (pc_freed s @ gc_freed s xs)" and "length xs \<le> k"
  shows "\<exists>s'. fullGc k s = Some (Inr s') \<and> gl_is (pc_lru s') [] \<and> pc_freed s' = pc_freed s @ gc_freed s xs \<and>
    pc_page s' = (\<lambda>p. if p \<in> set xs then gc_page (pc_page s p) else pc_page s p)"
proof -
  obtain l it where l: "it_new (pc_lru s) True = Inr (it, l)" "gl_ring l xs Exclusive" "gl_head l = gl_head (pc_lru s)"
    and it: "it_node it = hd (xs @ [gl_head (pc_lru s)])" "it_rw it" using it_new_is [OF assms(1)] by auto
  show ?thesis
  proof (cases xs)
    case Nil
    then show ?thesis using l it gl_ring_lock [of l "[]" Exclusive Free]
      by (auto simp: fullGc_def it_valid_def it_delete_def with_lru_def gl_release_def gl_ring_def gc_freed_def)
  next
    case (Cons y ys)
    have v: "it_valid l it" using Cons l it by (auto simp: it_valid_def gl_ring_def)
    obtain s' it' where "gc_loop k (s\<lparr>pc_lru := l\<rparr>) it = Some (Inr (s', it'))" "it_rw it'" "gl_ring (pc_lru s') [] Exclusive"
      "pc_freed s' = pc_freed s @ gc_freed s xs" "pc_page s' = (\<lambda>p. if p \<in> set xs then gc_page (pc_page s p) else pc_page s p)"
      using gc_loop_empties [of "s\<lparr>pc_lru := l\<rparr>" y ys it k] assms(2-4) l(2) it Cons by (auto simp: gc_freed_def cong: if_cong)
    then show ?thesis using l(1) v gl_ring_lock [of "pc_lru s'" "[]" Exclusive Free]
      by (auto simp: fullGc_def it_delete_def with_lru_def gl_release_def gl_ring_def)
  qed
qed

text \<open>
  C27: \<^verbatim>\<open>fullGc\<close> visits every page of the list of unused pages once, returns the data of exactly those that have no user to the
  pool, in the order of the list, empties the list and releases its lock.  As many turns as the list is long are enough.
\<close>

theorem fullGc_frees_unused_pages:
  assumes "gl_is (pc_lru s) xs" and "0 \<notin> set (gc_freed s xs)" and "distinct (pc_freed s @ gc_freed s xs)" and "length xs \<le> k"
  shows "\<exists>s'. fullGc k s = Some (Inr s') \<and> gl_is (pc_lru s') [] \<and> pc_freed s' = pc_freed s @ gc_freed s xs \<and>
    pc_page s' = (\<lambda>p. if p \<in> set xs then gc_page (pc_page s p) else pc_page s p)"
  using assms by (rule fullGc_run)

text \<open>A cache whose list holds an unused page and a page with a user.\<close>

definition two_pages :: pageCache where
  "two_pages = \<lparr>pc_lru = \<lparr>gl_prev = (\<lambda>_. 0)(1 := 3, 2 := 1, 3 := 2), gl_next = (\<lambda>_. 0)(1 := 2, 2 := 3, 3 := 1), gl_head = 1, gl_lock = Free\<rparr>,
     pc_page = (\<lambda>_. \<lparr>pg_ref = 0, pg_data = 7, pg_lru = True\<rparr>)(3 := \<lparr>pg_ref = 2, pg_data = 8, pg_lru = True\<rparr>), pc_freed = []\<rparr>"

theorem fullGc_frees_unused_pages_witness:
  "\<exists>s. fullGc 2 two_pages = Some (Inr s) \<and> pc_freed s = [7] \<and> gl_is (pc_lru s) [] \<and> pg_data (pc_page s 2) = 0 \<and> pg_data (pc_page s 3) = 8"
  using fullGc_frees_unused_pages [of two_pages "[2, 3]" 2] by (auto simp: two_pages_def gl_ring_def gc_freed_def gc_page_def)

section \<open>Counting the users of a page\<close>

datatype page_call = Use | Unuse

fun page_calls :: "pageCache \<Rightarrow> nat \<Rightarrow> page_call list \<Rightarrow> fault + pageCache" where
  "page_calls s p [] = Inr s"
| "page_calls s p (Use # cs) = sbind (page_use s p) (\<lambda>s. page_calls s p cs)"
| "page_calls s p (Unuse # cs) = sbind (page_unuse s p) (\<lambda>s. page_calls s p cs)"

text \<open>Users left by a list of calls that starts with \<open>n\<close> users, when no call gives up a use that nobody has.\<close>

fun users :: "nat \<Rightarrow> page_call list \<Rightarrow> nat option" where
  "users n [] = Some n"
| "users n (Use # cs) = users (Suc n) cs"
| "users n (Unuse # cs) = (if n = 0 then None else users (n - 1) cs)"

lemma use_count_pos: "r > 0 \<Longrightarrow> use_count r = (r, r + 1)"
  by (simp add: use_count_def numeral_eq_Suc ref_use_def)

lemma use_count_zero: "use_count 0 = (1, 2)"
  by (simp add: use_count_def numeral_eq_Suc ref_use_def)

lemma page_calls_in_use:
  assumes "pg_ref (pc_page s p) = int n + 1" and "pg_lru (pc_page s p)" and "gl_next (pc_lru s) p = 0" and "users n cs = Some k"
  shows "page_calls s p cs = Inr (set_ref s p (int k + 1))"
  using assms
proof (induction cs arbitrary: n s)
  case Nil
  then have "(pc_page s p)\<lparr>pg_ref := int k + 1\<rparr> = pc_page s p" by (cases "pc_page s p") auto
  then show ?case by (simp add: set_ref_def)
next
  case (Cons c cs)
  show ?case
  proof (cases c)
    case Use
    have "page_use s p = Inr (set_ref s p (int (Suc n) + 1))"
      using Cons.prems by (auto simp: page_use_def use_count_pos page_simps)
    then show ?thesis using Cons.IH [of "set_ref s p (int (Suc n) + 1)" "Suc n"] Cons.prems Use by (simp add: set_ref_def)
  next
    case Unuse
    then have n: "0 < n" "users (n - 1) cs = Some k" using Cons.prems(4) by (auto split: if_splits)
    have "page_unuse s p = Inr (set_ref s p (int (n - 1) + 1))"
      using Cons.prems n by (auto simp: page_unuse_def ref_unuseForLru_def page_simps of_nat_diff)
    then show ?thesis using Cons.IH [of "set_ref s p (int (n - 1) + 1)" "n - 1"] Cons.prems(2,3) n Unuse by (simp add: set_ref_def)
  qed
qed

text \<open>
  C28: The first \<^verbatim>\<open>use\<close> of a new page counts it twice: the count before the first increment is 0, which \<^verbatim>\<open>use\<close> takes for a failure and
  tries again.  However the calls of \<^verbatim>\<open>use\<close> and \<^verbatim>\<open>unuse\<close> go on, the count stays one above the number of users, so the page
  that has no user left is never put into the list of unused pages and no \<^verbatim>\<open>fullGc\<close> returns its data.
\<close>

theorem used_page_never_collected:
  assumes "gl_is (pc_lru s) xs" and "p \<notin> set (gl_head (pc_lru s) # xs)" and "users 0 (Use # cs) = Some n"
    and "0 \<notin> set (gc_freed s xs)" and "distinct (pc_freed s @ gc_freed s xs)"
  shows "\<exists>s'. page_calls (allocPage s p d) p (Use # cs) = Inr s' \<and> pg_ref (pc_page s' p) = int n + 1 \<and> pg_data (pc_page s' p) = d \<and>
    gl_is (pc_lru s') xs \<and>
    (\<exists>s''. fullGc (length xs) s' = Some (Inr s'') \<and> pc_freed s'' = pc_freed s @ gc_freed s xs \<and> pg_data (pc_page s'' p) = d)"
proof -
  define t where "t = allocPage s p d"
  have t: "pg_ref (pc_page t p) = 0" "pg_lru (pc_page t p)" "gl_next (pc_lru t) p = 0" "pg_data (pc_page t p) = d" "pc_freed t = pc_freed s"
    by (simp_all add: t_def allocPage_def)
  have ring: "gl_is (pc_lru t) xs" using assms(1,2) linked_outside [of p "gl_head (pc_lru s) # xs @ [gl_head (pc_lru s)]"]
    by (simp add: t_def allocPage_def gl_ring_def)
  have "page_use t p = Inr (set_ref t p 2)" using t by (simp add: page_use_def use_count_zero page_simps)
  then have run: "page_calls t p (Use # cs) = Inr (set_ref t p (int n + 1))"
    using page_calls_in_use [of "set_ref t p 2" p 1 cs n] t assms(3) by (simp add: set_ref_def)
  define s' where "s' = set_ref t p (int n + 1)"
  have s': "pg_ref (pc_page s' p) = int n + 1" "pg_data (pc_page s' p) = d" "gl_is (pc_lru s') xs" "pc_freed s' = pc_freed s"
    using t ring by (simp_all add: s'_def set_ref_def)
  have g: "gc_freed s' xs = gc_freed s xs"
    by (rule gc_freed_cong) (use assms(2) in \<open>auto simp: s'_def t_def set_ref_def allocPage_def\<close>)
  have "\<exists>s''. fullGc (length xs) s' = Some (Inr s'') \<and> pc_freed s'' = pc_freed s @ gc_freed s xs \<and> pg_data (pc_page s'' p) = d"
    using fullGc_run [OF s'(3), of "length xs"] assms(2,4,5) s'(2,4) unfolding g by auto
  then show ?thesis using run s' unfolding t_def s'_def by blast
qed

theorem used_page_never_collected_witness:
  "\<exists>s'. page_calls (allocPage (two_pages\<lparr>pc_lru := gl_new 1\<rparr>) 5 9) 5 [Use, Unuse, Use, Unuse] = Inr s' \<and> pg_ref (pc_page s' 5) = 1 \<and> gl_is (pc_lru s') []"
  using used_page_never_collected [of "two_pages\<lparr>pc_lru := gl_new 1\<rparr>" "[]" 5 "[Unuse, Use, Unuse]" 0 9] gl_new_is [of 1] by (auto simp: gl_new_def gc_freed_def two_pages_def)

end
