(* ===== verification/ThreadLocal.thy ===== *)
theory ThreadLocal
  imports GlobalList
begin

text \<open>
  Thread ids and thread-local variables (\<^verbatim>\<open>thread/threadLocal.h\<close> and \<^verbatim>\<open>thread/threadLocal.cpp\<close>): the table that hands out the
  ids, the per-thread slots of a variable, and the registry of all variables, a \<^verbatim>\<open>globalLockDualLinkList\<close> whose nodes carry
  the registered address.
\<close>

section \<open>Thread ids\<close>

definition maxThreadCount :: nat where
  "maxThreadCount = 256"

record threads =
  globalThreads :: "nat option list"
  allActiveThreadCount :: nat

definition threads_new :: threads where
  "threads_new = \<lparr>globalThreads = replicate maxThreadCount None, allActiveThreadCount = 0\<rparr>"

text \<open>The id of a thread before \<^verbatim>\<open>initLocalThreadId\<close>.\<close>

definition no_threadid :: nat where
  "no_threadid = maxThreadCount + 1"

text \<open>
  The search for a free slot, with fuel; it answers the slot, or that there is none.  The loop visits every slot but that of the
  count once, so \<open>maxThreadCount\<close> turns are enough.
\<close>

fun init_loop :: "nat \<Rightarrow> threads \<Rightarrow> nat \<Rightarrow> nat option option" where
  "init_loop 0 s i = None"
| "init_loop (Suc k) s i =
     (if i = allActiveThreadCount s then Some None
      else if globalThreads s ! i = None then Some (Some i)
      else init_loop k s ((i + 1) mod maxThreadCount))"

text \<open>The result is the success, the id of the calling thread \<open>me\<close> and the table.\<close>

definition initLocalThreadId :: "threads \<Rightarrow> nat \<Rightarrow> nat \<Rightarrow> (bool \<times> nat \<times> threads) option" where
  "initLocalThreadId s me threadid =
     (if allActiveThreadCount s \<ge> maxThreadCount then Some (False, threadid, s)
      else map_option (\<lambda>r. case r of None \<Rightarrow> (False, threadid, s)
          | Some i \<Rightarrow> (True, i, s\<lparr>globalThreads := (globalThreads s)[i := Some me]\<rparr>))
        (init_loop maxThreadCount s ((allActiveThreadCount s + 1) mod maxThreadCount)))"

definition unsetThreadId :: "threads \<Rightarrow> nat \<Rightarrow> nat \<times> threads" where
  "unsetThreadId s threadid =
     (if threadid \<ge> maxThreadCount then (threadid, s)
      else (maxThreadCount + 1, s\<lparr>globalThreads := (globalThreads s)[threadid := None]\<rparr>))"

section \<open>The slots of a variable\<close>

text \<open>Slots hold addresses, 0 is null; the deleted objects are recorded.\<close>

record threadLocal =
  m_var :: "nat list"
  tv_deleted :: "nat list"

definition tv_new :: threadLocal where
  "tv_new = \<lparr>m_var = replicate maxThreadCount 0, tv_deleted = []\<rparr>"

definition tv_get :: "threadLocal \<Rightarrow> nat \<Rightarrow> fault + nat" where
  "tv_get v tid = (if tid < maxThreadCount then Inr (m_var v ! tid) else Inl OutOfBounds)"

definition tv_delete :: "threadLocal \<Rightarrow> nat \<Rightarrow> threadLocal" where
  "tv_delete v tid = (if m_var v ! tid \<noteq> 0 then v\<lparr>tv_deleted := tv_deleted v @ [m_var v ! tid]\<rparr> else v)"

definition tv_set :: "threadLocal \<Rightarrow> nat \<Rightarrow> nat \<Rightarrow> fault + threadLocal" where
  "tv_set v tid x = (if tid < maxThreadCount then let v = tv_delete v tid in Inr (v\<lparr>m_var := (m_var v)[tid := x]\<rparr>) else Inl OutOfBounds)"

definition tv_unset :: "threadLocal \<Rightarrow> nat \<Rightarrow> fault + threadLocal" where
  "tv_unset v tid = (if tid < maxThreadCount
     then Inr (if m_var v ! tid \<noteq> 0 then (tv_delete v tid)\<lparr>m_var := (m_var v)[tid := 0]\<rparr> else v)
     else Inl OutOfBounds)"

definition tv_clear :: "threadLocal \<Rightarrow> threadLocal" where
  "tv_clear v = fold (\<lambda>i v. if m_var v ! i \<noteq> 0 then (tv_delete v i)\<lparr>m_var := (m_var v)[i := 0]\<rparr> else v) [0..<maxThreadCount] v"

section \<open>The registry of variables\<close>

record registry =
  rg_list :: glist
  rg_var :: "nat \<Rightarrow> nat"

definition registerThreadLocalVar :: "registry \<Rightarrow> nat \<Rightarrow> nat \<Rightarrow> fault + registry" where
  "registerThreadLocalVar s t v = sbind (gl_insert (rg_list s) t) (\<lambda>l. Inr \<lparr>rg_list = l, rg_var = (rg_var s)(t := v)\<rparr>)"

text \<open>The loop of \<^verbatim>\<open>destroyThreadLocalVar\<close>, with fuel; the iterator holds the lock.\<close>

fun destroy_loop :: "nat \<Rightarrow> registry \<Rightarrow> gl_iterator \<Rightarrow> nat \<Rightarrow> (fault + registry) option" where
  "destroy_loop 0 s it v = None"
| "destroy_loop (Suc k) s it v =
     (if rg_var s (it_node it) = v
      then Some (sbind (it_delete (rg_list s) it) (\<lambda>l. sbind (gl_erase l (it_node it)) (\<lambda>l. Inr (s\<lparr>rg_list := l\<rparr>))))
      else (case it_next (rg_list s) it of (True, it) \<Rightarrow> destroy_loop k s it v
        | (False, it) \<Rightarrow> Some (sbind (it_delete (rg_list s) it) (\<lambda>l. Inr (s\<lparr>rg_list := l\<rparr>)))))"

definition destroyThreadLocalVar :: "nat \<Rightarrow> registry \<Rightarrow> nat \<Rightarrow> (fault + registry) option" where
  "destroyThreadLocalVar k s v =
     (case it_new (rg_list s) True of Inl e \<Rightarrow> Some (Inl e)
      | Inr (it, l) \<Rightarrow> let s = s\<lparr>rg_list := l\<rparr> in
        if \<not> it_valid l it then Some (Inr s) else destroy_loop k s it v)"

text \<open>The destructor of \<^verbatim>\<open>threadLocalWrap\<close>: the variables whose \<^verbatim>\<open>_unset\<close> is called, in order.\<close>

fun wrap_loop :: "nat \<Rightarrow> registry \<Rightarrow> gl_iterator \<Rightarrow> nat list option" where
  "wrap_loop 0 s it = None"
| "wrap_loop (Suc k) s it = map_option ((#) (rg_var s (it_node it)))
     (case it_next (rg_list s) it of (True, it) \<Rightarrow> wrap_loop k s it | (False, it) \<Rightarrow> Some [])"

definition threadLocalWrap_delete :: "nat \<Rightarrow> registry \<Rightarrow> (fault + nat list \<times> registry) option" where
  "threadLocalWrap_delete k s =
     (case it_new (rg_list s) True of Inl e \<Rightarrow> Some (Inl e)
      | Inr (it, l) \<Rightarrow> let s = s\<lparr>rg_list := l\<rparr> in
        map_option (\<lambda>vs. sbind (it_delete l it) (\<lambda>l. Inr (vs, s\<lparr>rg_list := l\<rparr>))) (if it_valid l it then wrap_loop k s it else Some []))"

section \<open>Ids run out\<close>

text \<open>The table after \<open>n\<close> threads have started, up to 255.\<close>

definition thread_table :: "nat list \<Rightarrow> threads" where
  "thread_table ts = \<lparr>globalThreads = None # map Some ts @ replicate (255 - length ts) None, allActiveThreadCount = 0\<rparr>"

lemma threads_new_table: "threads_new = thread_table []"
  by (simp add: threads_new_def thread_table_def maxThreadCount_def numeral_eq_Suc)

lemma table_nth:
  "length ts \<le> 255 \<Longrightarrow> 0 < i \<Longrightarrow> i \<le> length ts \<Longrightarrow> globalThreads (thread_table ts) ! i = Some (ts ! (i - 1))"
  "length ts < 255 \<Longrightarrow> globalThreads (thread_table ts) ! Suc (length ts) = None"
  by (auto simp: thread_table_def nth_append nth_Cons')

lemma init_loop_table:
  assumes "length ts \<le> 255" and "0 < i" and "i \<le> Suc (length ts)" and "Suc (length ts) - i < k"
  shows "init_loop k (thread_table ts) (i mod maxThreadCount) = Some (if length ts < 255 then Some (Suc (length ts)) else None)"
  using assms
proof (induction k arbitrary: i)
  case (Suc k)
  show ?case
  proof (cases "i = Suc (length ts)")
    case True
    then show ?thesis using Suc.prems table_nth(2) [of ts] by (auto simp: maxThreadCount_def thread_table_def)
  next
    case False
    then have i: "i \<le> length ts" "i < 256" using Suc.prems by auto
    have "init_loop k (thread_table ts) ((i + 1) mod maxThreadCount) = Some (if length ts < 255 then Some (Suc (length ts)) else None)"
      using Suc.IH [of "i + 1"] Suc.prems i by simp
    moreover have "allActiveThreadCount (thread_table ts) = 0" by (simp add: thread_table_def)
    ultimately show ?thesis using i Suc.prems table_nth(1) [of ts i] by (simp add: maxThreadCount_def)
  qed
qed simp

lemma init_table:
  "length ts < 255 \<Longrightarrow> initLocalThreadId (thread_table ts) me no_threadid = Some (True, Suc (length ts), thread_table (ts @ [me]))"
  "length ts = 255 \<Longrightarrow> initLocalThreadId (thread_table ts) me no_threadid = Some (False, no_threadid, thread_table ts)"
proof -
  have c: "allActiveThreadCount (thread_table ts) = 0" for ts by (simp add: thread_table_def)
  have r: "Suc n \<le> 255 \<Longrightarrow> (None # map Some ts @ replicate (255 - n) None)[Suc n := Some me] = None # map Some (ts @ [me]) @ replicate (255 - Suc n) None"
    if "n = length ts" for n
  proof -
    assume "Suc n \<le> 255"
    then have "255 - n = Suc (255 - Suc n)" by simp
    then show ?thesis using that by (simp add: list_update_append del: diff_Suc_Suc)
  qed
  show "initLocalThreadId (thread_table ts) me no_threadid = Some (True, Suc (length ts), thread_table (ts @ [me]))" if "length ts < 255"
    using init_loop_table [of ts 1 maxThreadCount] that r [of "length ts"] c [of ts]
    by (simp add: initLocalThreadId_def) (simp add: maxThreadCount_def thread_table_def)
  show "initLocalThreadId (thread_table ts) me no_threadid = Some (False, no_threadid, thread_table ts)" if "length ts = 255"
    using init_loop_table [of ts 1 maxThreadCount] that c [of ts] by (simp add: initLocalThreadId_def) (simp add: maxThreadCount_def)
qed

text \<open>Threads that start one after the other, and the ids they get.\<close>

fun start_threads :: "threads \<Rightarrow> nat list \<Rightarrow> (nat list \<times> threads) option" where
  "start_threads s [] = Some ([], s)"
| "start_threads s (t # ts) = Option.bind (initLocalThreadId s t no_threadid) (\<lambda>(_, i, s).
     map_option (\<lambda>(is, s). (i # is, s)) (start_threads s ts))"

lemma start_threads_full:
  "length us = 255 \<Longrightarrow> start_threads (thread_table us) ts = Some (replicate (length ts) no_threadid, thread_table us)"
  by (induction ts) (simp_all add: init_table(2))

lemma start_threads_table:
  assumes "length us \<le> 255"
  shows "\<exists>s. start_threads (thread_table us) ts = Some (take (length ts) ([Suc (length us)..<256] @ replicate (length ts) no_threadid), s)"
  using assms
proof (induction ts arbitrary: us)
  case (Cons t ts)
  show ?case
  proof (cases "length us = 255")
    case True
    then show ?thesis using start_threads_full [of us "t # ts"] by simp
  next
    case False
    then have u: "length us < 255" using Cons.prems by simp
    have up: "[Suc (length us)..<256] = Suc (length us) # [Suc (length (us @ [t]))..<256]" using u by (simp add: upt_rec)
    have "take (length ts) ([Suc (length (us @ [t]))..<256] @ replicate (length ts) no_threadid) =
        take (length ts) ([Suc (length (us @ [t]))..<256] @ replicate (length (t # ts)) no_threadid)"
      by (simp add: min_def del: replicate_Suc)
    then show ?thesis using Cons.IH [of "us @ [t]"] u unfolding up by (auto simp: init_table(1) simp del: replicate_Suc)
  qed
qed simp

text \<open>
  The first 255 threads of the process get the ids 1 to 255 in order.  Slots are never given back, so every later thread keeps the
  id 257 of a thread that has none, with which reading, writing or resetting any thread-local variable accesses memory outside
  its array of 256 slots.
\<close>

theorem thread_ids_run_out:
  "(\<exists>s. start_threads threads_new ts = Some (take (length ts) ([1..<256] @ replicate (length ts) 257), s)) \<and>
   tv_get v 257 = Inl OutOfBounds \<and> tv_set v 257 x = Inl OutOfBounds \<and> tv_unset v 257 = Inl OutOfBounds"
  using start_threads_table [of "[]" ts]
  by (simp add: threads_new_table tv_get_def tv_set_def tv_unset_def no_threadid_def maxThreadCount_def)

section \<open>Registrations\<close>

text \<open>The first node of the list that carries the address, taken out.\<close>

fun drop_var :: "(nat \<Rightarrow> nat) \<Rightarrow> nat \<Rightarrow> nat list \<Rightarrow> nat list" where
  "drop_var var v [] = []"
| "drop_var var v (x # xs) = (if var x = v then xs else x # drop_var var v xs)"

lemma destroy_loop_ring:
  assumes "gl_ring (rg_list s) (ys @ x # zs) Exclusive" and "it_node it = x" and "it_rw it" and "length (x # zs) \<le> k"
  shows "\<exists>l. destroy_loop k s it v = Some (Inr (s\<lparr>rg_list := l\<rparr>)) \<and> gl_is l (ys @ drop_var (rg_var s) v (x # zs)) \<and> gl_head l = gl_head (rg_list s)"
  using assms
proof (induction zs arbitrary: ys x it k)
  case Nil
  obtain k' where k: "k = Suc k'" using Nil.prems(4) by (cases k) auto
  note r = gl_ring_lock [OF Nil.prems(1), of Free]
  have rel: "it_delete (rg_list s) it = Inr ((rg_list s)\<lparr>gl_lock := Free\<rparr>)"
    using Nil.prems by (simp add: it_delete_def gl_release_def gl_ring_def)
  show ?case using k rel r gl_erase_is [OF r] it_next_ring [OF Nil.prems(1,2)] Nil.prems(2) by auto
next
  case (Cons z zs)
  obtain k' where k: "k = Suc k'" "length (z # zs) \<le> k'" using Cons.prems(4) by (cases k) auto
  note r = gl_ring_lock [OF Cons.prems(1), of Free]
  have rel: "it_delete (rg_list s) it = Inr ((rg_list s)\<lparr>gl_lock := Free\<rparr>)"
    using Cons.prems by (simp add: it_delete_def gl_release_def gl_ring_def)
  show ?case
  proof (cases "rg_var s x = v")
    case True
    then show ?thesis using k rel gl_erase_is [OF r] Cons.prems(2) by auto
  next
    case False
    then show ?thesis using Cons.IH [of "ys @ [x]" z "it\<lparr>it_node := z\<rparr>" k'] Cons.prems k it_next_ring [OF Cons.prems(1,2)] by auto
  qed
qed

text \<open>
  Destroying a thread-local variable takes its latest registration out of the registry and leaves the others in order; but when
  the registry is empty the call returns without releasing the lock, and the next registration waits for ever.
\<close>

theorem destroyThreadLocalVar_unregisters:
  assumes "gl_is (rg_list s) xs" and "length xs \<le> k"
  shows "\<exists>l. destroyThreadLocalVar k s v = Some (Inr (s\<lparr>rg_list := l\<rparr>)) \<and>
    (if xs = [] then gl_ring l [] Exclusive \<and> (t \<noteq> 0 \<longrightarrow> registerThreadLocalVar (s\<lparr>rg_list := l\<rparr>) t w = Inl Deadlock)
     else gl_is l (drop_var (rg_var s) v xs))"
proof -
  obtain l it where l: "it_new (rg_list s) True = Inr (it, l)" "gl_ring l xs Exclusive" "gl_head l = gl_head (rg_list s)"
    and it: "it_node it = hd (xs @ [gl_head (rg_list s)])" "it_rw it" using it_new_is [OF assms(1)] by auto
  show ?thesis
  proof (cases xs)
    case Nil
    have "destroyThreadLocalVar k s v = Some (Inr (s\<lparr>rg_list := l\<rparr>))" using l it Nil by (simp add: destroyThreadLocalVar_def it_valid_def)
    moreover have "registerThreadLocalVar (s\<lparr>rg_list := l\<rparr>) t w = Inl Deadlock" if "t \<noteq> 0"
      using l(2) that by (simp add: registerThreadLocalVar_def gl_insert_def gl_insertAfter_def gl_basic gl_ring_def)
    ultimately show ?thesis using Nil l(2) by auto
  next
    case (Cons y ys)
    have "it_valid l it" using Cons l it by (auto simp: it_valid_def gl_ring_def)
    then show ?thesis using destroy_loop_ring [of "s\<lparr>rg_list := l\<rparr>" "[]" y ys it k v] Cons l it assms(2)
      by (auto simp: destroyThreadLocalVar_def)
  qed
qed

theorem destroyThreadLocalVar_unregisters_witness:
  "\<exists>l. destroyThreadLocalVar 0 \<lparr>rg_list = gl_new 1, rg_var = (\<lambda>_. 0)\<rparr> 9 = Some (Inr \<lparr>rg_list = l, rg_var = (\<lambda>_. 0)\<rparr>) \<and>
     registerThreadLocalVar \<lparr>rg_list = l, rg_var = (\<lambda>_. 0)\<rparr> 2 9 = Inl Deadlock"
  using destroyThreadLocalVar_unregisters [of "\<lparr>rg_list = gl_new 1, rg_var = (\<lambda>_. 0)\<rparr>" "[]" 0 9 2 9] gl_new_is [of 1] by auto

end
