(* ===== verification/SkipList.thy ===== *)
theory SkipList
  imports Prelude
begin

unbundle bit_operations_syntax

text \<open>
  The skip list behind the indexes of a block that is being written (\<^verbatim>\<open>util/skiplist.h\<close>) with its random number generator
  (\<^verbatim>\<open>util/random.h\<close>).  Nodes are numbered in the order of their allocation, node 0 is the head; a node has as many forward
  pointers as its height, and reading another one is a fault.  The comparison is a parameter, as in the template.  The theory
  shows that the list refines a sorted sequence of keys.
\<close>

section \<open>Random heights\<close>

definition rnd_new :: "u32 \<Rightarrow> u32" where
  "rnd_new s = (let seed = s AND 0x7fffffff in if seed = 0 \<or> seed = 2147483647 then 1 else seed)"

definition rnd_Next :: "u32 \<Rightarrow> u32" where
  "rnd_Next seed =
     (let product = ucast seed * 16807 :: u64; seed = ucast (drop_bit 31 product + (product AND 2147483647)) :: u32 in
      if seed > 2147483647 then seed - 2147483647 else seed)"

definition kMaxHeight :: nat where
  "kMaxHeight = 12"

function random_height :: "nat \<Rightarrow> u32 \<Rightarrow> nat \<times> u32" where
  "random_height height seed =
     (if height < kMaxHeight then let seed = rnd_Next seed in if seed mod 4 = 0 then random_height (height + 1) seed else (height, seed)
      else (height, seed))"
  by auto
termination by (relation "measure (\<lambda>(h, s). kMaxHeight - h)") auto

declare random_height.simps [simp del]

definition RandomHeight :: "u32 \<Rightarrow> nat \<times> u32" where
  "RandomHeight seed = random_height 1 seed"

section \<open>State\<close>

record 'k skiplist =
  sl_key :: "nat \<Rightarrow> 'k"
  sl_next :: "nat \<Rightarrow> nat \<Rightarrow> nat option"
  sl_height :: "nat \<Rightarrow> nat"
  sl_nodes :: nat
  sl_maxHeight :: nat
  sl_rnd :: u32

definition sl_new :: "'k \<Rightarrow> 'k skiplist" where
  "sl_new k = \<lparr>sl_key = (\<lambda>_. k), sl_next = (\<lambda>_ _. None), sl_height = (\<lambda>_. 0)(0 := kMaxHeight), sl_nodes = 1, sl_maxHeight = 1,
     sl_rnd = rnd_new 0xdeadbeef\<rparr>"

definition node_Next :: "'k skiplist \<Rightarrow> nat \<Rightarrow> nat \<Rightarrow> fault + nat option" where
  "node_Next s x level = (if level < sl_height s x then Inr (sl_next s x level) else Inl OutOfBounds)"

definition node_SetNext :: "'k skiplist \<Rightarrow> nat \<Rightarrow> nat \<Rightarrow> nat option \<Rightarrow> fault + 'k skiplist" where
  "node_SetNext s x level y = (if level < sl_height s x then Inr (s\<lparr>sl_next := (sl_next s)(x := (sl_next s x)(level := y))\<rparr>) else Inl OutOfBounds)"

definition NewNode :: "'k skiplist \<Rightarrow> 'k \<Rightarrow> nat \<Rightarrow> nat \<times> 'k skiplist" where
  "NewNode s k height = (sl_nodes s, s\<lparr>sl_key := (sl_key s)(sl_nodes s := k), sl_height := (sl_height s)(sl_nodes s := height), sl_nodes := sl_nodes s + 1\<rparr>)"

section \<open>Searching\<close>

text \<open>
  The loop of the three searches: to the right while the next node satisfies \<open>adv\<close>, then down; on every level the node where it goes
  down is recorded.  The result is the last node, its successor and the record.  The assertion of \<^verbatim>\<open>FindLessThan\<close> that the key of
  the current node is smaller is the condition under which the loop went to that node.
\<close>

partial_function (option) descend ::
  "(nat \<Rightarrow> bool) \<Rightarrow> 'k skiplist \<Rightarrow> nat \<Rightarrow> nat \<Rightarrow> (nat \<Rightarrow> nat) \<Rightarrow> (fault + nat \<times> nat option \<times> (nat \<Rightarrow> nat)) option" where
  [code]: "descend adv s x level prev =
     (case node_Next s x level of Inl f \<Rightarrow> Some (Inl f)
      | Inr next \<Rightarrow>
        (if (case next of None \<Rightarrow> False | Some n \<Rightarrow> adv n) then descend adv s (the next) level prev
         else if level = 0 then Some (Inr (x, next, prev(level := x)))
         else descend adv s x (level - 1) (prev(level := x))))"

text \<open>\<open>KeyIsAfterNode\<close> for a node that is not null.\<close>

definition KeyIsAfterNode :: "('k \<Rightarrow> 'k \<Rightarrow> int) \<Rightarrow> 'k skiplist \<Rightarrow> 'k \<Rightarrow> nat \<Rightarrow> bool" where
  "KeyIsAfterNode cmp s key n \<longleftrightarrow> cmp (sl_key s n) key < 0"

definition FindGreaterOrEqual :: "('k \<Rightarrow> 'k \<Rightarrow> int) \<Rightarrow> 'k skiplist \<Rightarrow> 'k \<Rightarrow> (fault + nat option \<times> (nat \<Rightarrow> nat)) option" where
  "FindGreaterOrEqual cmp s key =
     map_option (\<lambda>r. sbind r (\<lambda>(x, next, prev). Inr (next, prev))) (descend (KeyIsAfterNode cmp s key) s 0 (sl_maxHeight s - 1) (\<lambda>_. 0))"

definition FindLessThan :: "('k \<Rightarrow> 'k \<Rightarrow> int) \<Rightarrow> 'k skiplist \<Rightarrow> 'k \<Rightarrow> (fault + nat) option" where
  "FindLessThan cmp s key =
     map_option (\<lambda>r. sbind r (\<lambda>(x, next, prev). Inr x)) (descend (\<lambda>n. \<not> cmp (sl_key s n) key \<ge> 0) s 0 (sl_maxHeight s - 1) (\<lambda>_. 0))"

definition FindLast :: "'k skiplist \<Rightarrow> (fault + nat) option" where
  "FindLast s = map_option (\<lambda>r. sbind r (\<lambda>(x, next, prev). Inr x)) (descend (\<lambda>_. True) s 0 (sl_maxHeight s - 1) (\<lambda>_. 0))"

section \<open>Insertion\<close>

fun link_levels :: "'k skiplist \<Rightarrow> (nat \<Rightarrow> nat) \<Rightarrow> nat \<Rightarrow> nat \<Rightarrow> fault + 'k skiplist" where
  "link_levels s prev x 0 = Inr s"
| "link_levels s prev x (Suc i) =
     sbind (link_levels s prev x i) (\<lambda>s. sbind (node_Next s (prev i) i) (\<lambda>n. sbind (node_SetNext s x i n) (\<lambda>s. node_SetNext s (prev i) i (Some x))))"

definition Insert :: "('k \<Rightarrow> 'k \<Rightarrow> int) \<Rightarrow> 'k skiplist \<Rightarrow> 'k \<Rightarrow> (fault + 'k skiplist) option" where
  "Insert cmp s key = map_option (\<lambda>r. sbind r (\<lambda>(x, prev).
     if (case x of None \<Rightarrow> False | Some n \<Rightarrow> cmp key (sl_key s n) = 0) then Inl AssertFailed
     else let (height, seed) = RandomHeight (sl_rnd s); old = sl_maxHeight s;
              prev = (\<lambda>i. if old \<le> i \<and> i < height then 0 else prev i);
              s = s\<lparr>sl_rnd := seed, sl_maxHeight := max old height\<rparr>;
              (x, s) = NewNode s key height
          in link_levels s prev x height)) (FindGreaterOrEqual cmp s key)"

definition Contains :: "('k \<Rightarrow> 'k \<Rightarrow> int) \<Rightarrow> 'k skiplist \<Rightarrow> 'k \<Rightarrow> (fault + bool) option" where
  "Contains cmp s key = map_option (\<lambda>r. sbind r (\<lambda>(x, prev). Inr (case x of None \<Rightarrow> False | Some n \<Rightarrow> cmp key (sl_key s n) = 0)))
     (FindGreaterOrEqual cmp s key)"

section \<open>Iterator\<close>

text \<open>The iterator is a node or null.\<close>

definition iter_Next :: "'k skiplist \<Rightarrow> nat option \<Rightarrow> fault + nat option" where
  "iter_Next s it = (case it of None \<Rightarrow> Inl AssertFailed | Some n \<Rightarrow> node_Next s n 0)"

definition iter_key :: "'k skiplist \<Rightarrow> nat option \<Rightarrow> fault + 'k" where
  "iter_key s it = (case it of None \<Rightarrow> Inl AssertFailed | Some n \<Rightarrow> Inr (sl_key s n))"

definition not_head :: "nat \<Rightarrow> nat option" where
  "not_head n = (if n = 0 then None else Some n)"

definition iter_Prev :: "('k \<Rightarrow> 'k \<Rightarrow> int) \<Rightarrow> 'k skiplist \<Rightarrow> nat option \<Rightarrow> (fault + nat option) option" where
  "iter_Prev cmp s it = (case it of None \<Rightarrow> Some (Inl AssertFailed)
     | Some n \<Rightarrow> map_option (\<lambda>r. sbind r (\<lambda>n. Inr (not_head n))) (FindLessThan cmp s (sl_key s n)))"

definition iter_Seek :: "('k \<Rightarrow> 'k \<Rightarrow> int) \<Rightarrow> 'k skiplist \<Rightarrow> 'k \<Rightarrow> (fault + nat option) option" where
  "iter_Seek cmp s key = map_option (\<lambda>r. sbind r (\<lambda>(x, prev). Inr x)) (FindGreaterOrEqual cmp s key)"

definition iter_SeekToFirst :: "'k skiplist \<Rightarrow> fault + nat option" where
  "iter_SeekToFirst s = node_Next s 0 0"

definition iter_SeekToLast :: "'k skiplist \<Rightarrow> (fault + nat option) option" where
  "iter_SeekToLast s = map_option (\<lambda>r. sbind r (\<lambda>n. Inr (not_head n))) (FindLast s)"

section \<open>Chains\<close>

text \<open>The nodes that follow \<open>x\<close> are \<open>ys\<close>.\<close>

fun chain :: "(nat \<Rightarrow> nat option) \<Rightarrow> nat \<Rightarrow> nat list \<Rightarrow> bool" where
  "chain nx x [] \<longleftrightarrow> nx x = None"
| "chain nx x (y # ys) \<longleftrightarrow> nx x = Some y \<and> chain nx y ys"

lemma chain_suffix: "chain nx x (ys @ zs) \<Longrightarrow> chain nx (last (x # ys)) zs"
  by (induction ys arbitrary: x) auto

lemma chain_head: "chain nx x ys \<Longrightarrow> nx x = (case ys of [] \<Rightarrow> None | y # _ \<Rightarrow> Some y)"
  by (cases ys) auto

lemma chain_cong: "(\<And>y. y \<in> set (x # ys) \<Longrightarrow> nx' y = nx y) \<Longrightarrow> chain nx' x ys \<longleftrightarrow> chain nx x ys"
  by (induction ys arbitrary: x) auto

lemma chain_insert:
  assumes "chain nx x (ys @ zs)" and "distinct (x # ys @ zs)" and "n \<notin> set (x # ys @ zs)"
  shows "chain (nx(n := nx (last (x # ys)), last (x # ys) := Some n)) x (ys @ n # zs)"
  using assms
proof (induction ys arbitrary: x)
  case Nil
  then have h: "nx x = (case zs of [] \<Rightarrow> None | z # _ \<Rightarrow> Some z)" using chain_head by fastforce
  show ?case
  proof (cases zs)
    case (Cons z ws)
    then have "chain (nx(n := nx x, x := Some n)) z ws \<longleftrightarrow> chain nx z ws" using Nil.prems by (intro chain_cong) auto
    then show ?thesis using Nil.prems h Cons by (simp add: fun_upd_def)
  qed (use Nil.prems h in simp)
next
  case (Cons y ys)
  have "last (y # ys) \<noteq> x" using Cons.prems(2) by (metis append_Cons distinct.simps(2) last_in_set list.distinct(1) Un_iff set_append)
  then show ?case using Cons.IH [of y] Cons.prems by auto
qed

section \<open>Invariant\<close>

text \<open>
  \<open>ns\<close> are the nodes in order: on every level the nodes that are higher than it form a chain from the head, and the keys ascend strictly.
\<close>

definition sl_inv :: "('k \<Rightarrow> 'k \<Rightarrow> int) \<Rightarrow> 'k skiplist \<Rightarrow> nat list \<Rightarrow> bool" where
  "sl_inv cmp s ns \<longleftrightarrow> 1 \<le> sl_maxHeight s \<and> sl_maxHeight s \<le> kMaxHeight \<and> sl_height s 0 = kMaxHeight \<and> 1 \<le> sl_nodes s \<and> distinct ns \<and>
     (\<forall>n \<in> set ns. n \<noteq> 0 \<and> n < sl_nodes s \<and> 1 \<le> sl_height s n \<and> sl_height s n \<le> sl_maxHeight s) \<and>
     (\<forall>l<kMaxHeight. chain (\<lambda>n. sl_next s n l) 0 (filter (\<lambda>n. l < sl_height s n) ns)) \<and>
     sorted_wrt (\<lambda>a b. cmp (sl_key s a) (sl_key s b) < 0) ns"

lemma sl_new_inv: "sl_inv cmp (sl_new k) []"
  by (simp add: sl_inv_def sl_new_def kMaxHeight_def)

lemma sl_invD:
  assumes "sl_inv cmp s ns"
  shows "1 \<le> sl_maxHeight s" "sl_maxHeight s \<le> kMaxHeight" "sl_height s 0 = kMaxHeight" "distinct (0 # ns)"
    "l < kMaxHeight \<Longrightarrow> chain (\<lambda>n. sl_next s n l) 0 (filter (\<lambda>n. l < sl_height s n) ns)"
    "n \<in> set ns \<Longrightarrow> n \<noteq> 0 \<and> n < sl_nodes s \<and> 1 \<le> sl_height s n \<and> sl_height s n \<le> sl_maxHeight s"
    "sorted_wrt (\<lambda>a b. cmp (sl_key s a) (sl_key s b) < 0) ns"
  using assms by (auto simp: sl_inv_def)

lemma filter_last:
  assumes "us \<noteq> [] \<longrightarrow> P (last us)"
  shows "last (x # filter P us) = last (x # us)"
  using assms by (cases us rule: rev_cases) auto

lemma descend_correct:
  assumes inv: "sl_inv cmp s (us @ vs @ as)" and x: "x = last (0 # us)" and l: "level < sl_height s x" "level < kMaxHeight"
    and adv: "\<forall>v \<in> set vs. adv v" "\<forall>a \<in> set as. \<not> adv a"
  shows "\<exists>prev'. descend adv s x level prev = Some (Inr (last (0 # us @ vs), (case as of [] \<Rightarrow> None | a # _ \<Rightarrow> Some a), prev')) \<and>
    (\<forall>i\<le>level. prev' i = last (0 # filter (\<lambda>n. i < sl_height s n) (us @ vs))) \<and> (\<forall>i>level. prev' i = prev i)"
  using assms
proof (induction "level + length vs" arbitrary: us vs x level prev rule: less_induct)
  case less
  let ?F = "filter (\<lambda>n. level < sl_height s n)"
  note inv = less.prems(1)
  have lu: "last (0 # ?F us) = x" using filter_last [of us "\<lambda>n. level < sl_height s n" 0] less.prems(2,3) by (auto split: if_splits)
  have "chain (\<lambda>n. sl_next s n level) 0 (?F us @ ?F vs @ ?F as)" using sl_invD(5) [OF inv less.prems(4)] by simp
  from chain_suffix [OF this] have ch: "chain (\<lambda>n. sl_next s n level) x (?F vs @ ?F as)" unfolding lu .
  have nx: "node_Next s x level = Inr (case ?F vs @ ?F as of [] \<Rightarrow> None | y # _ \<Rightarrow> Some y)"
    using chain_head [OF ch] less.prems(3) by (simp add: node_Next_def)
  show ?case
  proof (cases "?F vs")
    case (Cons y ys)
    then obtain vs1 vs2 where v: "vs = vs1 @ y # vs2" "\<forall>n \<in> set vs1. \<not> level < sl_height s n" "level < sl_height s y"
      by (auto simp: filter_eq_Cons_iff)
    have "descend adv s x level prev = descend adv s y level prev"
      using nx Cons less.prems(5) v by (subst descend.simps) simp
    moreover have "level + length vs2 < level + length vs" using v by simp
    moreover have "us @ vs @ as = (us @ vs1 @ [y]) @ vs2 @ as" "us @ vs = (us @ vs1 @ [y]) @ vs2" using v by simp_all
    ultimately show ?thesis
      using less.hyps [of level vs2 "us @ vs1 @ [y]" y prev] less.prems v by simp
  next
    case Nil
    have stop: "\<not> (case (case ?F as of [] \<Rightarrow> None | y # _ \<Rightarrow> Some y) of None \<Rightarrow> False | Some n \<Rightarrow> adv n)"
      using less.prems(6) by (cases "?F as") (auto simp: filter_eq_Cons_iff)
    have x': "x = last (0 # ?F (us @ vs))" using lu Nil by simp
    show ?thesis
    proof (cases level)
      case 0
      have pos: "\<forall>n \<in> set (us @ vs @ as). 0 < sl_height s n" using sl_invD(6) [OF inv] by fastforce
      then have "?F vs = vs" "?F as = as" using 0 by (simp_all add: filter_id_conv)
      then have "vs = []" "?F as = as" using Nil by simp_all
      then show ?thesis using nx stop Nil 0 less.prems(2) x' by (subst descend.simps) (auto split: list.splits)
    next
      case (Suc k)
      have "descend adv s x level prev = descend adv s x k (prev(level := x))"
        using nx stop Nil Suc by (subst descend.simps) simp
      moreover obtain prev' where "descend adv s x k (prev(level := x)) =
          Some (Inr (last (0 # us @ vs), (case as of [] \<Rightarrow> None | a # _ \<Rightarrow> Some a), prev'))"
        "\<forall>i\<le>k. prev' i = last (0 # filter (\<lambda>n. i < sl_height s n) (us @ vs))" "\<forall>i>k. prev' i = (prev(level := x)) i"
        using less.hyps [of k vs us x "prev(level := x)"] less.prems Suc by fastforce
      ultimately show ?thesis using Suc x' by (intro exI [of _ prev']) (auto simp: le_Suc_eq)
    qed
  qed
qed

section \<open>Linking a node\<close>

lemma link_levels_next:
  assumes "x \<notin> prev ` {..<h}" and "\<forall>i<h. i < sl_height s (prev i)" and "h \<le> sl_height s x"
  shows "link_levels s prev x h = Inr (s\<lparr>sl_next := (\<lambda>n l. if l < h then ((\<lambda>n. sl_next s n l)(x := sl_next s (prev l) l, prev l := Some x)) n else sl_next s n l)\<rparr>)"
  using assms
proof (induction h)
  case (Suc h)
  have "x \<noteq> prev h" using Suc.prems(1) by blast
  moreover have "x \<notin> prev ` {..<h}" using Suc.prems(1) by auto
  ultimately show ?case using Suc by (auto simp: node_Next_def node_SetNext_def less_Suc_eq fun_eq_iff)
qed (simp add: fun_eq_iff)

lemma random_height_bounds: "1 \<le> h \<Longrightarrow> h \<le> kMaxHeight \<Longrightarrow> 1 \<le> fst (random_height h seed) \<and> fst (random_height h seed) \<le> kMaxHeight"
proof (induction h seed rule: random_height.induct)
  case (1 h seed)
  then show ?case by (subst (1 2) random_height.simps) (auto simp: Let_def)
qed

lemma RandomHeight_bounds: "RandomHeight seed = (h, seed') \<Longrightarrow> 1 \<le> h \<and> h \<le> kMaxHeight"
  using random_height_bounds [of 1 seed] by (simp add: RandomHeight_def kMaxHeight_def)

section \<open>Enumerating\<close>

text \<open>The keys from the iterator on, with fuel.\<close>

fun sl_walk :: "nat \<Rightarrow> 'k skiplist \<Rightarrow> nat option \<Rightarrow> 'k list option" where
  "sl_walk 0 s it = None"
| "sl_walk (Suc f) s None = Some []"
| "sl_walk (Suc f) s (Some n) = (case iter_Next s (Some n) of Inl _ \<Rightarrow> None | Inr it \<Rightarrow> map_option ((#) (sl_key s n)) (sl_walk f s it))"

fun insert_all :: "('k \<Rightarrow> 'k \<Rightarrow> int) \<Rightarrow> 'k skiplist \<Rightarrow> 'k list \<Rightarrow> (fault + 'k skiplist) option" where
  "insert_all cmp s [] = Some (Inr s)"
| "insert_all cmp s (k # ks) = (case Insert cmp s k of None \<Rightarrow> None | Some (Inl f) \<Rightarrow> Some (Inl f) | Some (Inr s) \<Rightarrow> insert_all cmp s ks)"

lemma sl_level0: "sl_inv cmp s ns \<Longrightarrow> chain (\<lambda>n. sl_next s n 0) 0 ns"
proof -
  assume inv: "sl_inv cmp s ns"
  have "filter (\<lambda>n. 0 < sl_height s n) ns = ns" using sl_invD(6) [OF inv] by (simp add: filter_id_conv) fastforce
  then show ?thesis using sl_invD(5) [OF inv, of 0] by (simp add: kMaxHeight_def)
qed

lemma sl_walk_chain:
  assumes "chain (\<lambda>n. sl_next s n 0) x ys" and "\<forall>y \<in> set (x # ys). 0 < sl_height s y" and "length ys < f"
  shows "sl_walk f s (sl_next s x 0) = Some (map (sl_key s) ys)"
  using assms
proof (induction ys arbitrary: x f)
  case Nil
  then show ?case by (cases f) simp_all
next
  case (Cons y ys)
  then obtain g where "f = Suc g" "length ys < g" by (cases f) auto
  then show ?case using Cons by (simp add: iter_Next_def node_Next_def)
qed

lemma sl_walk_suffix:
  assumes "sl_inv cmp s (us @ vs)" and "length vs < f"
  shows "sl_walk f s (case vs of [] \<Rightarrow> None | v # _ \<Rightarrow> Some v) = Some (map (sl_key s) vs)"
proof -
  have c: "chain (\<lambda>n. sl_next s n 0) (last (0 # us)) vs" using chain_suffix [OF sl_level0 [OF assms(1)]] .
  have "0 < sl_height s y" if "y = 0 \<or> y \<in> set (us @ vs)" for y
    using sl_invD(3) [OF assms(1)] sl_invD(6) [OF assms(1), of y] that by (auto simp: kMaxHeight_def)
  moreover have "last (0 # us) = 0 \<or> last (0 # us) \<in> set us" by (cases us rule: rev_cases) auto
  ultimately have "\<forall>y \<in> set (last (0 # us) # vs). 0 < sl_height s y" by auto
  from sl_walk_chain [OF c this assms(2)] show ?thesis using chain_head [OF c] by simp
qed

section \<open>Ordered keys\<close>

text \<open>What the list relies on of its comparison.\<close>

locale key_order =
  fixes cmp :: "'k \<Rightarrow> 'k \<Rightarrow> int"
  assumes cmp_trans: "cmp a b < 0 \<Longrightarrow> cmp b c < 0 \<Longrightarrow> cmp a c < 0"
    and cmp_swap: "cmp a b < 0 \<longleftrightarrow> 0 < cmp b a"
    and cmp_eq: "cmp a b = 0 \<Longrightarrow> cmp a c < 0 \<longleftrightarrow> cmp b c < 0"
begin

lemma cmp_zero_swap: "cmp a b = 0 \<longleftrightarrow> cmp b a = 0"
  using cmp_swap [of a b] cmp_swap [of b a] by linarith

text \<open>The nodes with keys below \<open>k\<close> are a prefix of the list.\<close>

lemma below_prefix:
  assumes "sorted_wrt (\<lambda>a b. cmp (f a) (f b) < 0) ns" and "a \<in> set (dropWhile (\<lambda>n. cmp (f n) k < 0) ns)"
  shows "\<not> cmp (f a) k < 0"
  using assms
proof (induction ns)
  case (Cons n ns)
  show ?case
  proof (cases "cmp (f n) k < 0")
    case False
    show ?thesis
    proof
      assume "cmp (f a) k < 0"
      then show False using False Cons.prems cmp_trans [of "f n" "f a" k] by auto
    qed
  qed (use Cons in simp)
qed simp

definition below :: "'k skiplist \<Rightarrow> 'k \<Rightarrow> nat list \<Rightarrow> nat list" where
  "below s k ns = takeWhile (\<lambda>n. cmp (sl_key s n) k < 0) ns"

definition rest :: "'k skiplist \<Rightarrow> 'k \<Rightarrow> nat list \<Rightarrow> nat list" where
  "rest s k ns = dropWhile (\<lambda>n. cmp (sl_key s n) k < 0) ns"

lemma below_rest: "below s k ns @ rest s k ns = ns"
  by (simp add: below_def rest_def)

lemma in_below: "n \<in> set (below s k ns) \<Longrightarrow> cmp (sl_key s n) k < 0"
  by (auto simp: below_def dest: set_takeWhileD)

lemma in_rest: "sl_inv cmp s ns \<Longrightarrow> n \<in> set (rest s k ns) \<Longrightarrow> \<not> cmp (sl_key s n) k < 0"
  using below_prefix [of "sl_key s" ns n k] sl_invD(7) by (auto simp: rest_def)

lemma find_ge:
  assumes "sl_inv cmp s ns"
  obtains prev where "FindGreaterOrEqual cmp s k = Some (Inr (case rest s k ns of [] \<Rightarrow> None | a # _ \<Rightarrow> Some a, prev))"
    and "\<And>i. i < sl_maxHeight s \<Longrightarrow> prev i = last (0 # filter (\<lambda>n. i < sl_height s n) (below s k ns))"
proof -
  have "\<exists>prev'. descend (KeyIsAfterNode cmp s k) s 0 (sl_maxHeight s - 1) (\<lambda>_. 0) =
      Some (Inr (last (0 # [] @ below s k ns), (case rest s k ns of [] \<Rightarrow> None | a # _ \<Rightarrow> Some a), prev')) \<and>
    (\<forall>i \<le> sl_maxHeight s - 1. prev' i = last (0 # filter (\<lambda>n. i < sl_height s n) ([] @ below s k ns))) \<and> (\<forall>i > sl_maxHeight s - 1. prev' i = 0)"
    using assms sl_invD(1-3) [OF assms] in_below [of _ s k ns] in_rest [OF assms]
    by (intro descend_correct) (auto simp: below_rest KeyIsAfterNode_def)
  then show ?thesis using that by (fastforce simp: FindGreaterOrEqual_def)
qed

lemma seek: "sl_inv cmp s ns \<Longrightarrow> iter_Seek cmp s k = Some (Inr (case rest s k ns of [] \<Rightarrow> None | a # _ \<Rightarrow> Some a))"
  using find_ge [of s ns k] by (fastforce simp: iter_Seek_def)

lemma rest_equal:
  assumes inv: "sl_inv cmp s ns" and n: "n \<in> set ns" "cmp k (sl_key s n) = 0"
  obtains a as where "rest s k ns = a # as" and "cmp k (sl_key s a) = 0"
proof -
  have "n \<notin> set (below s k ns)" using in_below [of n s k ns] n(2) cmp_swap [of "sl_key s n" k] by auto
  then have "n \<in> set (rest s k ns)" using n(1) below_rest [of s k ns] by (metis Un_iff set_append)
  then obtain a as where a: "rest s k ns = a # as" by (cases "rest s k ns") auto
  have "\<not> cmp (sl_key s a) k < 0" using in_rest [OF inv, of a k] a by simp
  moreover have "\<not> 0 < cmp (sl_key s a) k"
  proof
    assume "0 < cmp (sl_key s a) k"
    then have ka: "cmp k (sl_key s a) < 0" using cmp_swap [of k "sl_key s a"] by simp
    have "n = a \<or> cmp (sl_key s a) (sl_key s n) < 0"
      using sl_invD(7) [OF inv] \<open>n \<in> set (rest s k ns)\<close> below_rest [of s k ns] unfolding a by (metis (no_types, lifting) set_ConsD sorted_wrt.simps(2) sorted_wrt_append)
    then show False using ka n(2) cmp_trans [of k "sl_key s a" "sl_key s n"] by auto
  qed
  ultimately show thesis using that [OF a] cmp_zero_swap [of k "sl_key s a"] by linarith
qed

lemma find_less:
  assumes "sl_inv cmp s ns"
  shows "FindLessThan cmp s k = Some (Inr (last (0 # below s k ns)))"
proof -
  have "\<exists>prev'. descend (\<lambda>n. \<not> cmp (sl_key s n) k \<ge> 0) s 0 (sl_maxHeight s - 1) (\<lambda>_. 0) =
      Some (Inr (last (0 # [] @ below s k ns), (case rest s k ns of [] \<Rightarrow> None | a # _ \<Rightarrow> Some a), prev')) \<and>
    (\<forall>i \<le> sl_maxHeight s - 1. prev' i = last (0 # filter (\<lambda>n. i < sl_height s n) ([] @ below s k ns))) \<and> (\<forall>i > sl_maxHeight s - 1. prev' i = 0)"
    using assms sl_invD(1-3) [OF assms] in_below [of _ s k ns] in_rest [OF assms]
    by (intro descend_correct) (auto simp: below_rest not_le not_less)
  then show ?thesis by (auto simp: FindLessThan_def)
qed

lemma find_last:
  assumes "sl_inv cmp s ns"
  shows "FindLast s = Some (Inr (last (0 # ns)))"
proof -
  have "\<exists>prev'. descend (\<lambda>_. True) s 0 (sl_maxHeight s - 1) (\<lambda>_. 0) =
      Some (Inr (last (0 # [] @ ns), (case [] of [] \<Rightarrow> None | a # _ \<Rightarrow> Some a), prev')) \<and>
    (\<forall>i \<le> sl_maxHeight s - 1. prev' i = last (0 # filter (\<lambda>n. i < sl_height s n) ([] @ ns))) \<and> (\<forall>i > sl_maxHeight s - 1. prev' i = 0)"
    using assms sl_invD(1-3) [OF assms] by (intro descend_correct [where cmp = cmp]) auto
  then show ?thesis by (auto simp: FindLast_def)
qed

lemma insert_ok:
  assumes inv: "sl_inv cmp s ns" and new: "\<forall>n \<in> set ns. cmp k (sl_key s n) \<noteq> 0"
  obtains s' where "Insert cmp s k = Some (Inr s')" and "sl_inv cmp s' (below s k ns @ sl_nodes s # rest s k ns)"
    and "sl_key s' = (sl_key s)(sl_nodes s := k)" and "sl_nodes s' = sl_nodes s + 1"
proof -
  let ?x = "sl_nodes s"
  obtain prev where fg: "FindGreaterOrEqual cmp s k = Some (Inr (case rest s k ns of [] \<Rightarrow> None | a # _ \<Rightarrow> Some a, prev))"
    and prev: "\<And>i. i < sl_maxHeight s \<Longrightarrow> prev i = last (0 # filter (\<lambda>n. i < sl_height s n) (below s k ns))"
    using find_ge [OF inv, of k] by blast
  obtain h seed where rh: "RandomHeight (sl_rnd s) = (h, seed)" by (cases "RandomHeight (sl_rnd s)")
  have h: "1 \<le> h" "h \<le> kMaxHeight" using RandomHeight_bounds [OF rh] by simp_all
  note D = sl_invD [OF inv]
  define p where "p = (\<lambda>i. if sl_maxHeight s \<le> i \<and> i < h then 0 else prev i)"
  have ns: "ns = below s k ns @ rest s k ns" by (simp add: below_rest)
  have p: "p i = last (0 # filter (\<lambda>n. i < sl_height s n) (below s k ns))" if "i < h" for i
  proof (cases "i < sl_maxHeight s")
    case False
    then have "filter (\<lambda>n. i < sl_height s n) (below s k ns) = []"
      using D(6) ns by (fastforce simp: filter_empty_conv dest: set_takeWhileD simp: below_def)
    then show ?thesis using that False by (simp add: p_def)
  qed (simp add: p_def prev)
  have p0: "p i = 0 \<or> p i \<in> set ns \<and> i < sl_height s (p i)" if "i < h" for i
  proof (cases "filter (\<lambda>n. i < sl_height s n) (below s k ns) = []")
    case False
    then have "p i \<in> set (filter (\<lambda>n. i < sl_height s n) (below s k ns))" using p [OF that] by (metis last.simps last_in_set)
    then show ?thesis by (auto simp: below_def dest: set_takeWhileD)
  qed (use p [OF that] in simp)
  define t where "t = s\<lparr>sl_rnd := seed, sl_maxHeight := max (sl_maxHeight s) h, sl_key := (sl_key s)(?x := k), sl_height := (sl_height s)(?x := h), sl_nodes := ?x + 1\<rparr>"
  define s' where "s' = t\<lparr>sl_next := (\<lambda>n l. if l < h then ((\<lambda>n. sl_next s n l)(?x := sl_next s (p l) l, p l := Some ?x)) n else sl_next s n l)\<rparr>"
  have x: "?x \<noteq> 0" "?x \<notin> set ns" using inv by (auto simp: sl_inv_def)
  have px: "p i \<noteq> ?x" if "i < h" for i using p0 [OF that] x by auto
  have link: "link_levels t p ?x h = Inr s'"
  proof -
    have "?x \<notin> p ` {..<h}" using px by (metis imageE lessThan_iff)
    moreover have "\<forall>i<h. i < sl_height t (p i)" using p0 px h D(3) by (fastforce simp: t_def)
    moreover have nt: "sl_next t = sl_next s" by (simp add: t_def)
    moreover have "h \<le> sl_height t ?x" by (simp add: t_def)
    ultimately show ?thesis using link_levels_next [of ?x p h t] unfolding s'_def nt by blast
  qed
  have "\<not> (case (case rest s k ns of [] \<Rightarrow> None | a # _ \<Rightarrow> Some a) of None \<Rightarrow> False | Some n \<Rightarrow> cmp k (sl_key s n) = 0)"
    using new ns by (cases "rest s k ns") (auto, metis in_set_conv_decomp)
  then have "Insert cmp s k = Some (Inr s')"
    using fg rh link [unfolded t_def] by (simp add: Insert_def NewNode_def Let_def p_def [symmetric])
  moreover have "sl_inv cmp s' (below s k ns @ ?x # rest s k ns)"
  proof -
    have height: "sl_height s' = (sl_height s)(?x := h)" by (simp add: s'_def t_def)
    have keys: "sl_key s' = (sl_key s)(?x := k)" by (simp add: s'_def t_def)
    have flt: "filter (\<lambda>n. l < sl_height s' n) zs = filter (\<lambda>n. l < sl_height s n) zs" if "set zs \<subseteq> set ns" for l zs
      using that x(2) by (intro filter_cong) (auto simp: height)
    have sub: "set (below s k ns) \<subseteq> set ns" "set (rest s k ns) \<subseteq> set ns" by (auto simp: below_def rest_def dest: set_takeWhileD set_dropWhileD)
    have "chain (\<lambda>n. sl_next s' n l) 0 (filter (\<lambda>n. l < sl_height s' n) (below s k ns @ ?x # rest s k ns))" if l: "l < kMaxHeight" for l
    proof -
      let ?f = "filter (\<lambda>n. l < sl_height s n)"
      have c: "chain (\<lambda>n. sl_next s n l) 0 (?f (below s k ns) @ ?f (rest s k ns))" using D(5) [OF l] by (subst (asm) ns) simp
      have "distinct (0 # below s k ns @ rest s k ns)" using D(4) by (subst below_rest)
      then have d: "distinct (0 # ?f (below s k ns) @ ?f (rest s k ns))" by auto
      have nx: "?x \<notin> set (0 # ?f (below s k ns) @ ?f (rest s k ns))" using x sub by auto
      show ?thesis
      proof (cases "l < h")
        case True
        have e: "(\<lambda>n. sl_next s' n l) = (\<lambda>n. sl_next s n l)(?x := sl_next s (p l) l, p l := Some ?x)"
          using True by (auto simp: s'_def t_def)
        have "filter (\<lambda>n. l < sl_height s' n) (below s k ns @ ?x # rest s k ns) = ?f (below s k ns) @ ?x # ?f (rest s k ns)"
          using flt [OF sub(1)] flt [OF sub(2)] True by (simp add: height)
        then show ?thesis using chain_insert [OF c d nx] unfolding e p [OF True, symmetric] by simp
      next
        case False
        have e: "(\<lambda>n. sl_next s' n l) = (\<lambda>n. sl_next s n l)" using False by (simp add: s'_def t_def)
        have "filter (\<lambda>n. l < sl_height s' n) (below s k ns @ ?x # rest s k ns) = ?f (below s k ns) @ ?f (rest s k ns)"
          using flt [OF sub(1)] flt [OF sub(2)] False by (simp add: height)
        then show ?thesis using c unfolding e by simp
      qed
    qed
    moreover have "sorted_wrt (\<lambda>a b. cmp (sl_key s' a) (sl_key s' b) < 0) (below s k ns @ ?x # rest s k ns)"
    proof -
      have "sorted_wrt (\<lambda>a b. cmp (sl_key s a) (sl_key s b) < 0) (below s k ns @ rest s k ns)" using D(7) by (subst below_rest)
      then have "sorted_wrt (\<lambda>a b. cmp (sl_key s a) (sl_key s b) < 0) (below s k ns)" "sorted_wrt (\<lambda>a b. cmp (sl_key s a) (sl_key s b) < 0) (rest s k ns)"
        "\<forall>a \<in> set (below s k ns). \<forall>b \<in> set (rest s k ns). cmp (sl_key s a) (sl_key s b) < 0" by (auto simp: sorted_wrt_append)
      moreover have "sorted_wrt (\<lambda>a b. cmp (sl_key s' a) (sl_key s' b) < 0) zs"
        if "sorted_wrt (\<lambda>a b. cmp (sl_key s a) (sl_key s b) < 0) zs" "set zs \<subseteq> set ns" for zs
        by (rule sorted_wrt_mono_rel [OF _ that(1)]) (use that(2) x(2) in \<open>auto simp: keys\<close>)
      moreover have "cmp k (sl_key s a) < 0" if "a \<in> set (rest s k ns)" for a
      proof -
        have "cmp (sl_key s a) k \<noteq> 0" using new sub(2) that cmp_zero_swap by blast
        then show ?thesis using in_rest [OF inv that] cmp_swap [of k "sl_key s a"] by linarith
      qed
      moreover have "?x \<notin> set (below s k ns)" "?x \<notin> set (rest s k ns)" using x(2) sub by auto
      ultimately show ?thesis using sub in_below [of _ s k ns] by (auto simp: sorted_wrt_append keys)
    qed
    moreover have "distinct (below s k ns @ rest s k ns)" using D(4) by (simp add: below_rest)
    then have "distinct (below s k ns @ ?x # rest s k ns)" using x(2) sub by auto
    ultimately show ?thesis using D(1-3) D(6) h x sub unfolding sl_inv_def by (fastforce simp: s'_def t_def)
  qed
  ultimately show thesis using that [of s'] by (simp add: s'_def t_def)
qed

lemma insert_duplicate:
  assumes inv: "sl_inv cmp s ns" and n: "n \<in> set ns" "cmp k (sl_key s n) = 0"
  shows "Insert cmp s k = Some (Inl AssertFailed)"
proof -
  obtain prev where fg: "FindGreaterOrEqual cmp s k = Some (Inr (case rest s k ns of [] \<Rightarrow> None | a # _ \<Rightarrow> Some a, prev))"
    using find_ge [OF inv, of k] by blast
  obtain a as where a: "rest s k ns = a # as" "cmp k (sl_key s a) = 0" using rest_equal [OF inv n] by blast
  then show ?thesis using fg by (simp add: Insert_def)
qed

lemma contains:
  assumes inv: "sl_inv cmp s ns"
  shows "Contains cmp s k = Some (Inr (\<exists>n \<in> set ns. cmp k (sl_key s n) = 0))"
proof -
  obtain prev where fg: "FindGreaterOrEqual cmp s k = Some (Inr (case rest s k ns of [] \<Rightarrow> None | a # _ \<Rightarrow> Some a, prev))"
    using find_ge [OF inv, of k] by blast
  show ?thesis
  proof (cases "\<exists>n \<in> set ns. cmp k (sl_key s n) = 0")
    case True
    then obtain a as where "rest s k ns = a # as" "cmp k (sl_key s a) = 0" using rest_equal [OF inv] by blast
    then show ?thesis using fg True by (simp add: Contains_def)
  next
    case False
    moreover have "set (rest s k ns) \<subseteq> set ns" by (auto simp: rest_def dest: set_dropWhileD)
    ultimately show ?thesis using fg by (cases "rest s k ns") (auto simp: Contains_def)
  qed
qed

lemma insert_all_ok:
  assumes "sl_inv cmp s ns" and "sorted_wrt (\<lambda>a b. cmp a b \<noteq> 0) ks" and "\<forall>k \<in> set ks. \<forall>n \<in> set ns. cmp k (sl_key s n) \<noteq> 0"
  shows "\<exists>s' ns'. insert_all cmp s ks = Some (Inr s') \<and> sl_inv cmp s' ns' \<and> mset (map (sl_key s') ns') = mset (map (sl_key s) ns) + mset ks"
  using assms
proof (induction ks arbitrary: s ns)
  case (Cons k ks)
  have "\<forall>n \<in> set ns. cmp k (sl_key s n) \<noteq> 0" using Cons.prems(3) by simp
  from insert_ok [OF Cons.prems(1) this] obtain s1 where s1: "Insert cmp s k = Some (Inr s1)"
    "sl_inv cmp s1 (below s k ns @ sl_nodes s # rest s k ns)" "sl_key s1 = (sl_key s)(sl_nodes s := k)" by blast
  let ?ns = "below s k ns @ sl_nodes s # rest s k ns"
  have x: "sl_nodes s \<notin> set ns" using Cons.prems(1) by (auto simp: sl_inv_def)
  have set: "set ?ns = insert (sl_nodes s) (set ns)" using arg_cong [OF below_rest [of s k ns], of set] by auto
  have keys: "map (sl_key s1) zs = map (sl_key s) zs" if "set zs \<subseteq> set ns" for zs using that x by (auto simp: s1(3))
  have "map (sl_key s1) (below s k ns) @ map (sl_key s1) (rest s k ns) = map (sl_key s) ns"
    using keys [of ns] by (metis below_rest map_append subset_refl)
  then have m: "mset (map (sl_key s1) ?ns) = add_mset k (mset (map (sl_key s) ns))"
    by (metis (no_types, lifting) s1(3) fun_upd_same list.simps(9) map_append mset.simps(2) mset_append union_mset_add_mset_right)
  have "\<forall>k' \<in> set ks. \<forall>n \<in> set ?ns. cmp k' (sl_key s1 n) \<noteq> 0"
  proof (intro ballI)
    fix k' n assume "k' \<in> set ks" "n \<in> set ?ns"
    moreover have "cmp k' k \<noteq> 0" if "k' \<in> set ks" for k' using Cons.prems(2) that cmp_zero_swap [of k' k] by auto
    ultimately show "cmp k' (sl_key s1 n) \<noteq> 0" using Cons.prems(3) unfolding set by (auto simp: s1(3))
  qed
  with Cons.IH [OF s1(2)] Cons.prems(2) obtain s' ns' where "insert_all cmp s1 ks = Some (Inr s')" "sl_inv cmp s' ns'"
    "mset (map (sl_key s') ns') = mset (map (sl_key s1) ?ns) + mset ks" by auto
  then show ?case using s1(1) m by auto
qed auto

lemma refines:
  assumes "sorted_wrt (\<lambda>a b. cmp a b \<noteq> 0) ks"
  shows "\<exists>s xs. insert_all cmp (sl_new k0) ks = Some (Inr s) \<and> mset xs = mset ks \<and> sorted_wrt (\<lambda>a b. cmp a b < 0) xs \<and>
    (\<exists>it. iter_SeekToFirst s = Inr it \<and> sl_walk (length xs + 1) s it = Some xs) \<and>
    (\<forall>k. Contains cmp s k = Some (Inr (\<exists>x \<in> set xs. cmp k x = 0))) \<and>
    (\<forall>k. \<exists>it. iter_Seek cmp s k = Some (Inr it) \<and> sl_walk (length xs + 1) s it = Some (dropWhile (\<lambda>x. cmp x k < 0) xs))"
proof -
  obtain s ns where s: "insert_all cmp (sl_new k0) ks = Some (Inr s)" "sl_inv cmp s ns" "mset (map (sl_key s) ns) = mset ks"
    using insert_all_ok [OF sl_new_inv [of cmp k0] assms] by auto
  let ?xs = "map (sl_key s) ns"
  have "sorted_wrt (\<lambda>a b. cmp a b < 0) ?xs" using sl_invD(7) [OF s(2)] by (simp add: sorted_wrt_map)
  moreover have "iter_SeekToFirst s = Inr (case ns of [] \<Rightarrow> None | n # _ \<Rightarrow> Some n)"
    using chain_head [OF sl_level0 [OF s(2)]] sl_invD(3) [OF s(2)] by (simp add: iter_SeekToFirst_def node_Next_def kMaxHeight_def)
  moreover have "sl_walk (length ?xs + 1) s (case ns of [] \<Rightarrow> None | n # _ \<Rightarrow> Some n) = Some ?xs"
    using sl_walk_suffix [of cmp s "[]" ns] s(2) by simp
  moreover have "sl_walk (length ?xs + 1) s (case rest s k ns of [] \<Rightarrow> None | n # _ \<Rightarrow> Some n) = Some (dropWhile (\<lambda>x. cmp x k < 0) ?xs)" for k
  proof -
    have "length (rest s k ns) \<le> length ns" by (simp add: rest_def length_dropWhile_le)
    then have "sl_walk (length ?xs + 1) s (case rest s k ns of [] \<Rightarrow> None | n # _ \<Rightarrow> Some n) = Some (map (sl_key s) (rest s k ns))"
      using sl_walk_suffix [of cmp s "below s k ns" "rest s k ns" "length ?xs + 1"] s(2) unfolding below_rest by simp
    then show ?thesis by (simp add: rest_def dropWhile_map comp_def)
  qed
  ultimately show ?thesis using s contains [OF s(2)] seek [OF s(2)] by (intro exI [of _ s] exI [of _ ?xs]) auto
qed

end

end
