(* ===== verification/SolidIndex.thy ===== *)
theory SolidIndex
  imports ColumnType
begin

unbundle bit_operations_syntax

text \<open>
  The index pages of a finished block (\<^verbatim>\<open>database/solidIndex.h\<close>, \<^verbatim>\<open>database/solidIndex.cpp\<close>): how
  \<^verbatim>\<open>appendingIndex::createFixedSolidIndex\<close> and \<^verbatim>\<open>createVarSolidIndex\<close> lay the keys and their record ids out in byte memory,
  how \<^verbatim>\<open>fixedSolidIndex\<close> and \<^verbatim>\<open>varSolidIndex\<close> read them, their binary searches and the iterator over them.  Keys are given
  to the writers as lists of bytes with the list of their record ids, in the order of the index iterator.
\<close>

section \<open>Layout\<close>

text \<open>The packed \<^verbatim>\<open>solidIndexHead\<close>: size (4), keyCount (4), type (1), flag (1), length (2).\<close>

definition solidIndexHead_size :: nat where
  "solidIndexHead_size = 12"

definition sh_keyCount :: "mem \<Rightarrow> nat \<Rightarrow> nat" where
  "sh_keyCount m head = rd 4 m (head + 4)"

definition sh_type :: "mem \<Rightarrow> nat \<Rightarrow> nat" where
  "sh_type m head = rd 1 m (head + 8)"

definition sh_length :: "mem \<Rightarrow> nat \<Rightarrow> int" where
  "sh_length m head = sval 2 (rd 2 m (head + 10))"

definition write_head :: "mem \<Rightarrow> nat \<Rightarrow> nat \<Rightarrow> nat \<Rightarrow> nat \<Rightarrow> nat \<Rightarrow> mem" where
  "write_head m head flag len keyCount ty = wr 1 (wr 4 (wr 2 (wr 1 m (head + 9) flag) (head + 10) len) (head + 4) keyCount) (head + 8) ty"

type_synonym entry = "u8 list \<times> nat list"

definition ids_bytes :: "nat list \<Rightarrow> u8 list" where
  "ids_bytes ids = concat (map (le_bytes 4) ids)"

text \<open>\<^verbatim>\<open>memcpy\<close> of an array of record ids.\<close>

definition write_ids :: "mem \<Rightarrow> nat \<Rightarrow> nat list \<Rightarrow> mem" where
  "write_ids m a ids = write_bytes m a (ids_bytes ids)"

fun fixed_loop :: "mem \<Rightarrow> nat \<Rightarrow> nat \<Rightarrow> nat \<Rightarrow> nat \<Rightarrow> entry list \<Rightarrow> mem \<times> nat" where
  "fixed_loop m data keySize indexPos ext [] = (m, ext)"
| "fixed_loop m data keySize indexPos ext ((kb, ids) # es) =
     (let m = write_bytes m indexPos kb; n = length ids;
          (m, ext) = (if n = 1 then (wr 4 m (indexPos + keySize) (ids ! 0), ext)
            else let (m, ext) = (if n < 0x7f then (wr 4 m (indexPos + keySize) (push_bit 24 n OR (ext - data)), ext)
                   else (wr 4 (wr 4 m (indexPos + keySize) (push_bit 24 0x80 OR (ext - data))) ext n, ext + 4))
              in (write_ids m ext ids, ext + 4 * n))
      in fixed_loop m data keySize (indexPos + (keySize + 4)) ext es)"

definition createFixedSolidIndex :: "mem \<Rightarrow> nat \<Rightarrow> nat \<Rightarrow> nat \<Rightarrow> nat \<Rightarrow> entry list \<Rightarrow> mem" where
  "createFixedSolidIndex m data m_keyCount ty keySize es =
     (let indexPos = data + solidIndexHead_size; m = write_head m data 1 keySize m_keyCount ty;
          (m, ext) = fixed_loop m data keySize indexPos (indexPos + (keySize + 4) * (m_keyCount + 1)) es
      in wr 4 m data (ext - data))"

text \<open>
  Variable-length keys are stored with their size before them: a \<^verbatim>\<open>unionKey\<close> begins with it, for a \<^verbatim>\<open>binaryType\<close> it is written.
\<close>

fun var_loop :: "mem \<Rightarrow> nat \<Rightarrow> nat \<Rightarrow> nat \<Rightarrow> entry list \<Rightarrow> mem \<times> nat \<times> nat" where
  "var_loop m data indexPos ext [] = (m, indexPos, ext)"
| "var_loop m data indexPos ext ((kb, ids) # es) =
     (let m = wr 4 m indexPos (ext - data); m = write_bytes (wr 2 m ext (length kb)) (ext + 2) kb; ext = ext + (length kb + 2);
          m = write_ids (wr 4 m ext (length ids)) (ext + 4) ids
      in var_loop m data (indexPos + 4) (ext + (4 + 4 * length ids)) es)"

definition createVarSolidIndex :: "mem \<Rightarrow> nat \<Rightarrow> nat \<Rightarrow> nat \<Rightarrow> entry list \<Rightarrow> mem" where
  "createVarSolidIndex m data m_keyCount ty es =
     (let indexPos = data + solidIndexHead_size; m = write_head m data 0 4 m_keyCount ty;
          (m, indexPos, ext) = var_loop m data indexPos (indexPos + 4 * (m_keyCount + 1)) es
      in wr 4 (wr 4 m indexPos (ext - data)) data (ext - data))"

section \<open>Reading\<close>

definition fx_getKey :: "mem \<Rightarrow> nat \<Rightarrow> nat \<Rightarrow> nat" where
  "fx_getKey m head i = nat (int head + int solidIndexHead_size + (sh_length m head + 4) * int i)"

text \<open>The address and the number of the record ids of a key.\<close>

definition fx_getRecordIdByIndex :: "mem \<Rightarrow> nat \<Rightarrow> nat \<Rightarrow> nat \<times> nat" where
  "fx_getRecordIdByIndex m head i =
     (let indexData = nat (int (fx_getKey m head i) + sh_length m head); idInfo = rd 4 m indexData in
      if idInfo AND 0xff000000 = 0 then (indexData, 1)
      else if idInfo AND 0x80000000 = 0 then (head + (idInfo AND 0x00ffffff), drop_bit 24 idInfo)
      else (head + (idInfo AND 0x00ffffff) + 4, rd 4 m (head + (idInfo AND 0x00ffffff))))"

definition vr_getKey :: "mem \<Rightarrow> nat \<Rightarrow> nat \<Rightarrow> nat" where
  "vr_getKey m head i = head + rd 4 m (head + solidIndexHead_size + 4 * i)"

definition vr_getRecordIdByIndex :: "mem \<Rightarrow> nat \<Rightarrow> nat \<Rightarrow> nat \<times> nat" where
  "vr_getRecordIdByIndex m head i =
     (let indexData = vr_getKey m head i; recordIds = indexData + rd 2 m indexData + 2 + 4 in (recordIds, rd 4 m (recordIds - 4)))"

definition read_ids :: "mem \<Rightarrow> nat \<times> nat \<Rightarrow> nat list" where
  "read_ids m r = map (\<lambda>i. rd 4 m (fst r + 4 * i)) [0..<snd r]"

section \<open>Searching\<close>

text \<open>
  The loop shared by all instances of \<^verbatim>\<open>find\<close>: \<open>cmp i\<close> compares the key that is looked for with that of entry \<open>i\<close>.  The result is
  the position, or the last bounds and the last position that was read.
\<close>

function find_loop :: "(nat \<Rightarrow> fault + int) \<Rightarrow> int \<Rightarrow> int \<Rightarrow> int \<Rightarrow> fault + int + int \<times> int \<times> int" where
  "find_loop cmp s e m =
     (if s \<le> e
      then let m = (s + e) div 2 in
        (case cmp (nat m) of Inl f \<Rightarrow> Inl f
         | Inr c \<Rightarrow> if c > 0 then find_loop cmp (m + 1) e m else if c < 0 then find_loop cmp s (m - 1) m else Inr (Inl m))
      else Inr (Inr (s, e, m)))"
  by pat_completeness auto
termination by (relation "measure (\<lambda>(cmp, s, e, m). nat (e - s + 1))") auto

declare find_loop.simps [simp del]

definition idx_find :: "(nat \<Rightarrow> fault + int) \<Rightarrow> nat \<Rightarrow> bool \<Rightarrow> fault + int" where
  "idx_find cmp keyCount equalOrGreater =
     sbind (find_loop cmp 0 (int keyCount - 1) 0) (\<lambda>r. case r of Inl m \<Rightarrow> Inr m
       | Inr (s, e, m) \<Rightarrow> Inr (if equalOrGreater then -1 else if e < 0 then 0 else if s < int keyCount then s else m))"

text \<open>The integer that a key of a fixed type denotes, by the type the index is instantiated with.\<close>

fun key_int :: "COLUMN_TYPE \<Rightarrow> mem \<Rightarrow> nat \<Rightarrow> int" where
  "key_int T_INT8 m a = sval 1 (rd 1 m a)"
| "key_int T_INT16 m a = sval 2 (rd 2 m a)"
| "key_int T_YEAR m a = sval 2 (rd 2 m a)"
| "key_int T_INT32 m a = sval 4 (rd 4 m a)"
| "key_int T_DATE m a = sval 4 (rd 4 m a)"
| "key_int T_INT64 m a = sval 8 (rd 8 m a)"
| "key_int T_DATETIME m a = sval 8 (rd 8 m a)"
| "key_int T_TIME m a = sval 8 (rd 8 m a)"
| "key_int t m a = int (rd (col_size t) m a)"

definition int_compare :: "int \<Rightarrow> int \<Rightarrow> int" where
  "int_compare d x = (if d > x then 1 else if d < x then -1 else 0)"

definition fx_find_int :: "mem \<Rightarrow> nat \<Rightarrow> COLUMN_TYPE \<Rightarrow> int \<Rightarrow> bool \<Rightarrow> fault + int" where
  "fx_find_int m head t d eog = idx_find (\<lambda>i. Inr (int_compare d (key_int t m (fx_getKey m head i)))) (sh_keyCount m head) eog"

text \<open>The tolerances \<^verbatim>\<open>0.00001f\<close> and \<^verbatim>\<open>0.0000000001f\<close>.\<close>

definition fp_search :: "nat \<Rightarrow> nat \<Rightarrow> fp \<Rightarrow> fp \<Rightarrow> fp \<Rightarrow> int" where
  "fp_search p w eps d x = (if fp_less eps (fp_sub p w d x) then 1 else if fp_less eps (fp_sub p w x d) then -1 else 0)"

definition fx_find_float :: "mem \<Rightarrow> nat \<Rightarrow> fp \<Rightarrow> bool \<Rightarrow> fault + int" where
  "fx_find_float m head d eog =
     idx_find (\<lambda>i. Inr (fp_search 23 8 (fp_of 23 8 0x3727C5AC) d (fp_of 23 8 (rd 4 m (fx_getKey m head i))))) (sh_keyCount m head) eog"

definition fx_find_double :: "mem \<Rightarrow> nat \<Rightarrow> fp \<Rightarrow> bool \<Rightarrow> fault + int" where
  "fx_find_double m head d eog =
     idx_find (\<lambda>i. Inr (fp_search 52 11 (fp_of 23 8 0x2EDBE6FF) d (fp_of 52 11 (rd 8 m (fx_getKey m head i))))) (sh_keyCount m head) eog"

definition fx_find_union :: "mem \<Rightarrow> nat \<Rightarrow> unionKey \<Rightarrow> bool \<Rightarrow> fault + int" where
  "fx_find_union m head d eog =
     idx_find (\<lambda>i. uk_compare m d \<lparr>key_ptr = fx_getKey m head i, key_meta = key_meta d\<rparr>) (sh_keyCount m head) eog"

definition vr_find_union :: "mem \<Rightarrow> nat \<Rightarrow> unionKey \<Rightarrow> bool \<Rightarrow> fault + int" where
  "vr_find_union m head d eog =
     idx_find (\<lambda>i. uk_compare m d \<lparr>key_ptr = vr_getKey m head i, key_meta = key_meta d\<rparr>) (sh_keyCount m head) eog"

definition vr_find_binary :: "mem \<Rightarrow> nat \<Rightarrow> binaryType \<Rightarrow> bool \<Rightarrow> fault + int" where
  "vr_find_binary m head d eog =
     idx_find (\<lambda>i. let a = vr_getKey m head i in Inr (bt_compare m d \<lparr>bt_size = word_of_nat (rd 2 m a), bt_data = a + 2\<rparr>)) (sh_keyCount m head) eog"

text \<open>\<^verbatim>\<open>find\<close> with the record ids of the position.\<close>

definition find_ids :: "fault + int \<Rightarrow> (nat \<Rightarrow> nat \<times> nat) \<Rightarrow> fault + (nat \<times> nat) option" where
  "find_ids r getIds = sbind r (\<lambda>i. Inr (if i < 0 then None else Some (getIds (nat i))))"

definition idx_begin :: "mem \<Rightarrow> nat \<Rightarrow> (nat \<Rightarrow> nat \<times> nat) \<Rightarrow> (nat \<times> nat) option" where
  "idx_begin m head getIds = (if sh_keyCount m head = 0 then None else Some (getIds 0))"

definition idx_rbegin :: "mem \<Rightarrow> nat \<Rightarrow> (nat \<Rightarrow> nat \<times> nat) \<Rightarrow> (nat \<times> nat) option" where
  "idx_rbegin m head getIds = (if sh_keyCount m head = 0 then None else Some (getIds (sh_keyCount m head - 1)))"

section \<open>Correctness of the search\<close>

text \<open>The comparison decreases over the entries: those before a match are smaller, those after it greater.\<close>

definition descending :: "(nat \<Rightarrow> int) \<Rightarrow> nat \<Rightarrow> bool" where
  "descending c n \<longleftrightarrow> (\<forall>i j. i < j \<longrightarrow> j < n \<longrightarrow> (0 \<le> c j \<longrightarrow> 0 < c i) \<and> (c i \<le> 0 \<longrightarrow> c j < 0))"

lemma descendingD: "descending c n \<Longrightarrow> i < j \<Longrightarrow> j < n \<Longrightarrow> (0 \<le> c j \<longrightarrow> 0 < c i) \<and> (c i \<le> 0 \<longrightarrow> c j < 0)"
  by (simp add: descending_def)

lemma find_loop_correct:
  assumes "descending c n" and "0 \<le> s" and "e < int n" and "s \<le> e + 1" and "\<forall>i. int i < s \<longrightarrow> 0 < c i" and "\<forall>i<n. e < int i \<longrightarrow> c i < 0"
    and "s = 0 \<or> e + 1 < int n \<or> m = s - 1"
  shows "(\<exists>i<n. c i = 0 \<and> find_loop (\<lambda>i. Inr (c i)) s e m = Inr (Inl (int i))) \<or>
    (\<exists>k m'. k \<le> n \<and> (\<forall>i<k. 0 < c i) \<and> (\<forall>i<n. k \<le> i \<longrightarrow> c i < 0) \<and>
      find_loop (\<lambda>i. Inr (c i)) s e m = Inr (Inr (int k, int k - 1, m')) \<and> (0 < k \<and> k = n \<longrightarrow> m' = int n - 1))"
  using assms
proof (induction "nat (e - s + 1)" arbitrary: s e m rule: less_induct)
  case less
  show ?case
  proof (cases "s \<le> e")
    case False
    then have "s = e + 1" using less.prems by simp
    then show ?thesis using less.prems False
      by (intro disjI2 exI [of _ "nat s"] exI [of _ m]) (auto simp: find_loop.simps)
  next
    case True
    define h where "h = (s + e) div 2"
    have h: "s \<le> h" "h \<le> e" using True by (auto simp: h_def)
    have hn: "nat h < n" "int (nat h) = h" using h less.prems by auto
    have step: "find_loop (\<lambda>i. Inr (c i)) s e m = (if c (nat h) > 0 then find_loop (\<lambda>i. Inr (c i)) (h + 1) e h
        else if c (nat h) < 0 then find_loop (\<lambda>i. Inr (c i)) s (h - 1) h else Inr (Inl h))"
      using True by (subst find_loop.simps) (simp add: h_def Let_def)
    consider "c (nat h) > 0" | "c (nat h) < 0" | "c (nat h) = 0" by linarith
    then show ?thesis
    proof cases
      case 1
      have "\<forall>i. int i < h + 1 \<longrightarrow> 0 < c i"
      proof (intro allI impI)
        fix i assume "int i < h + 1"
        then have "i = nat h \<or> i < nat h" using hn by linarith
        then show "0 < c i" using 1 hn descendingD [OF less.prems(1), of i "nat h"] by auto
      qed
      moreover have "find_loop (\<lambda>i. Inr (c i)) s e m = find_loop (\<lambda>i. Inr (c i)) (h + 1) e h" using 1 step by simp
      ultimately show ?thesis using less.hyps [of e "h + 1" h] less.prems h by simp
    next
      case 2
      have "\<forall>i<n. h - 1 < int i \<longrightarrow> c i < 0"
      proof (intro allI impI)
        fix i assume "i < n" "h - 1 < int i"
        then have "i = nat h \<or> nat h < i" using hn by linarith
        then show "c i < 0" using 2 \<open>i < n\<close> descendingD [OF less.prems(1), of "nat h" i] by auto
      qed
      moreover have "find_loop (\<lambda>i. Inr (c i)) s e m = find_loop (\<lambda>i. Inr (c i)) s (h - 1) h" using 2 step by simp
      ultimately show ?thesis using less.hyps [of "h - 1" s h] less.prems h hn by simp
    next
      case 3
      then show ?thesis using hn by (auto simp: step)
    qed
  qed
qed

lemma idx_find_correct:
  assumes "descending c n"
  shows "(\<exists>i<n. c i = 0 \<and> idx_find (\<lambda>i. Inr (c i)) n eog = Inr (int i)) \<or>
    (\<forall>i<n. c i \<noteq> 0) \<and> idx_find (\<lambda>i. Inr (c i)) n eog =
      Inr (if eog then -1 else int (min (length (filter (\<lambda>i. 0 < c i) [0..<n])) (n - 1)))"
proof -
  from find_loop_correct [OF assms, of 0 "int n - 1" 0]
  consider i where "i < n" "c i = 0" "find_loop (\<lambda>i. Inr (c i)) 0 (int n - 1) 0 = Inr (Inl (int i))"
    | k m' where "k \<le> n" "\<forall>i<k. 0 < c i" "\<forall>i<n. k \<le> i \<longrightarrow> c i < 0"
      "find_loop (\<lambda>i. Inr (c i)) 0 (int n - 1) 0 = Inr (Inr (int k, int k - 1, m'))" "0 < k \<and> k = n \<longrightarrow> m' = int n - 1"
    by auto
  then show ?thesis
  proof cases
    case 1
    then show ?thesis by (auto simp: idx_find_def)
  next
    case 2
    have "filter (\<lambda>i. 0 < c i) [0..<n] = [0..<k]"
    proof -
      have "[0..<n] = [0..<k] @ [k..<n]" using 2(1) using upt_add_eq_append [of 0 k "n - k"] by simp
      moreover have "filter (\<lambda>i. 0 < c i) [0..<k] = [0..<k]" using 2(2) by (simp add: filter_id_conv)
      moreover have "filter (\<lambda>i. 0 < c i) [k..<n] = []" using 2(3) by (auto simp: filter_empty_conv)
      ultimately show ?thesis by simp
    qed
    moreover have "\<forall>i<n. c i \<noteq> 0" using 2(2,3) by (metis less_irrefl not_le_imp_less)
    ultimately show ?thesis using 2 by (auto simp: idx_find_def)
  qed
qed

end
