(* ===== verification/SolidIndexProofs.thy ===== *)
theory SolidIndexProofs
  imports SolidIndex
begin

unbundle bit_operations_syntax

text \<open>
  The index pages are read back as they were written: the loops of the writers are two writes of byte lists, one to the area of
  the fixed slots and one behind it, and every slot and every array of record ids is found at its offset.  The theory also
  bounds what is written by the size that \<^verbatim>\<open>toSolidIndexSize\<close> reserves.
\<close>

section \<open>Lists of bytes\<close>

lemma write_bytes_commute:
  assumes "a + length xs \<le> b"
  shows "write_bytes (write_bytes m a xs) b ys = write_bytes (write_bytes m b ys) a xs"
  using assms by (auto simp: write_bytes_def fun_eq_iff)

lemma length_ids_bytes [simp]: "length (ids_bytes ids) = 4 * length ids"
  by (induction ids) (simp_all add: ids_bytes_def)

lemma rd_bytes: "read_bytes m a 4 = le_bytes 4 v \<Longrightarrow> v < 2 ^ 32 \<Longrightarrow> rd 4 m a = v"
  by (simp add: rd_def le_val_le_bytes)

lemma read_bytes_split: "read_bytes m a (j + n) = xs @ ys \<Longrightarrow> length xs = j \<Longrightarrow> read_bytes m a j = xs \<and> read_bytes m (a + j) n = ys"
proof -
  assume e: "read_bytes m a (j + n) = xs @ ys" and l: "length xs = j"
  have "read_bytes m a (j + n) = read_bytes m a j @ read_bytes m (a + j) n"
    by (rule nth_equalityI) (auto simp: nth_append add.assoc)
  then show ?thesis using e l by (simp add: append_eq_append_conv)
qed

lemma read_ids_bytes:
  assumes "read_bytes m a (4 * length ids) = ids_bytes ids" and "\<forall>x \<in> set ids. x < 2 ^ 32"
  shows "read_ids m (a, length ids) = ids"
  using assms
proof (induction ids arbitrary: a)
  case Nil
  then show ?case by (simp add: read_ids_def)
next
  case (Cons x ids)
  have "read_bytes m a (4 + 4 * length ids) = le_bytes 4 x @ ids_bytes ids" using Cons.prems(1) by (simp add: ids_bytes_def)
  from read_bytes_split [OF this] have "read_bytes m a 4 = le_bytes 4 x" "read_bytes m (a + 4) (4 * length ids) = ids_bytes ids" by auto
  with Cons.IH [of "a + 4"] Cons.prems(2) have "rd 4 m a = x" "read_ids m (a + 4, length ids) = ids" by (auto intro: rd_bytes)
  moreover have "rd 4 m (a + 4 + 4 * i) = ids ! i" if "i < length ids" for i
    using arg_cong [OF calculation(2), of "\<lambda>l. l ! i"] that by (simp add: read_ids_def)
  ultimately show ?case
    by (intro nth_equalityI) (auto simp: read_ids_def nth_Cons add.assoc simp del: upt_Suc split: nat.splits)
qed

section \<open>Fixed keys\<close>

definition id_info :: "nat \<Rightarrow> nat list \<Rightarrow> nat" where
  "id_info off ids = (if length ids = 1 then ids ! 0 else if length ids < 0x7f then push_bit 24 (length ids) OR off else push_bit 24 0x80 OR off)"

definition ext_bytes :: "nat list \<Rightarrow> u8 list" where
  "ext_bytes ids = (if length ids = 1 then [] else (if length ids < 0x7f then [] else le_bytes 4 (length ids)) @ ids_bytes ids)"

fun slots :: "nat \<Rightarrow> entry list \<Rightarrow> u8 list" where
  "slots off [] = []"
| "slots off ((kb, ids) # es) = kb @ le_bytes 4 (id_info off ids) @ slots (off + length (ext_bytes ids)) es"

definition exts :: "entry list \<Rightarrow> u8 list" where
  "exts es = concat (map (\<lambda>(kb, ids). ext_bytes ids) es)"

lemma exts_simps [simp]: "exts [] = []" "exts ((kb, ids) # es) = ext_bytes ids @ exts es"
  by (simp_all add: exts_def)

lemma length_slots: "\<forall>(kb, ids) \<in> set es. length kb = keySize \<Longrightarrow> length (slots off es) = (keySize + 4) * length es"
  by (induction es arbitrary: off) auto

text \<open>One turn of the writing loop.\<close>

lemma fixed_turn:
  assumes "indexPos + (keySize + 4) \<le> ext" and "length kb = keySize"
  shows "fixed_loop m data keySize indexPos ext ((kb, ids) # es) =
    fixed_loop (write_bytes (write_bytes m indexPos (kb @ le_bytes 4 (id_info (ext - data) ids))) ext (ext_bytes ids))
      data keySize (indexPos + (keySize + 4)) (ext + length (ext_bytes ids)) es"
proof -
  have s: "wr 4 (write_bytes m indexPos kb) (indexPos + keySize) v = write_bytes m indexPos (kb @ le_bytes 4 v)" for v
    using assms(2) by (simp add: wr_def write_bytes_append)
  have x: "write_ids (wr 4 m' ext n) (ext + 4) ids = write_bytes m' ext (le_bytes 4 n @ ids_bytes ids)" for m' n
    by (simp add: write_ids_def wr_def write_bytes_append)
  show ?thesis using s x
    by (auto simp: id_info_def ext_bytes_def write_ids_def Let_def add.assoc)
qed

lemma fixed_loop_layout:
  assumes "indexPos + (keySize + 4) * length es \<le> ext" and "data \<le> ext" and "\<forall>(kb, ids) \<in> set es. length kb = keySize"
  shows "fixed_loop m data keySize indexPos ext es =
    (write_bytes (write_bytes m indexPos (slots (ext - data) es)) ext (exts es), ext + length (exts es))"
  using assms
proof (induction es arbitrary: m indexPos ext)
  case Nil
  then show ?case by simp
next
  case (Cons e es)
  obtain kb ids where e: "e = (kb, ids)" by (cases e)
  let ?n = "length (ext_bytes ids)"
  have kb: "length kb = keySize" using Cons.prems(3) e by auto
  have le: "indexPos + (keySize + 4) \<le> ext" "indexPos + (keySize + 4) + (keySize + 4) * length es \<le> ext" using Cons.prems(1) by auto
  let ?x = "kb @ le_bytes 4 (id_info (ext - data) ids)" and ?y = "slots (ext + ?n - data) es"
  have ys: "length ?y = (keySize + 4) * length es" by (rule length_slots) (use Cons.prems(3) in auto)
  have "fixed_loop m data keySize indexPos ext (e # es) =
      (write_bytes (write_bytes (write_bytes (write_bytes m indexPos ?x) ext (ext_bytes ids)) (indexPos + (keySize + 4)) ?y) (ext + ?n) (exts es),
       ext + ?n + length (exts es))"
    unfolding e fixed_turn [OF le(1) kb] using Cons.IH [of "indexPos + (keySize + 4)" "ext + ?n"] Cons.prems(2,3) le by auto
  also have "write_bytes (write_bytes (write_bytes m indexPos ?x) ext (ext_bytes ids)) (indexPos + (keySize + 4)) ?y =
      write_bytes (write_bytes (write_bytes m indexPos ?x) (indexPos + (keySize + 4)) ?y) ext (ext_bytes ids)"
    by (rule write_bytes_commute [symmetric]) (use ys le in simp)
  also have "write_bytes (write_bytes m indexPos ?x) (indexPos + (keySize + 4)) ?y = write_bytes m indexPos (?x @ ?y)"
    by (rule write_bytes_append) (use kb in simp)
  also have "?x @ ?y = slots (ext - data) (e # es)" using e Cons.prems(2) by simp
  finally show ?case by (simp add: write_bytes_append e)
qed

lemma nth_slot:
  assumes "i < length es" and "\<forall>(kb, ids) \<in> set es. length kb = keySize"
  shows "take (keySize + 4) (drop ((keySize + 4) * i) (slots off es)) =
    fst (es ! i) @ le_bytes 4 (id_info (off + length (exts (take i es))) (snd (es ! i)))"
  using assms
proof (induction es arbitrary: i off)
  case (Cons e es)
  obtain kb ids where e: "e = (kb, ids)" by (cases e)
  have kb: "length kb = keySize" using Cons.prems(2) e by auto
  show ?case
  proof (cases i)
    case 0
    then show ?thesis using e kb by simp
  next
    case (Suc j)
    then have "take (keySize + 4) (drop ((keySize + 4) * j) (slots (off + length (ext_bytes ids)) es)) =
        fst (es ! j) @ le_bytes 4 (id_info (off + length (ext_bytes ids) + length (exts (take j es))) (snd (es ! j)))"
      using Cons.IH [of j] Cons.prems by auto
    moreover have "drop ((keySize + 4) * i) (slots off (e # es)) = drop ((keySize + 4) * j) (slots (off + length (ext_bytes ids)) es)"
      using Suc e kb by (simp add: algebra_simps)
    ultimately show ?thesis using Suc e by (simp add: add.assoc)
  qed
qed simp

lemma exts_append [simp]: "exts (xs @ ys) = exts xs @ exts ys"
  by (simp add: exts_def)

lemma nth_ext:
  assumes "i < length es"
  shows "take (length (ext_bytes (snd (es ! i)))) (drop (length (exts (take i es))) (exts es)) = ext_bytes (snd (es ! i))"
    and "length (exts (take i es)) + length (ext_bytes (snd (es ! i))) \<le> length (exts es)"
proof -
  have "es = take i es @ (fst (es ! i), snd (es ! i)) # drop (Suc i) es" using assms by (simp add: id_take_nth_drop [symmetric])
  then have e: "exts es = exts (take i es) @ ext_bytes (snd (es ! i)) @ exts (drop (Suc i) es)" by (metis exts_append exts_simps(2))
  show "take (length (ext_bytes (snd (es ! i)))) (drop (length (exts (take i es))) (exts es)) = ext_bytes (snd (es ! i))" by (simp add: e)
  show "length (exts (take i es)) + length (ext_bytes (snd (es ! i))) \<le> length (exts es)" by (simp add: e)
qed

section \<open>Packed record counts\<close>

lemma and_push_bit: "(v :: nat) AND push_bit k w = push_bit k (drop_bit k v AND w)"
  by (rule bit_eqI) (auto simp: bit_simps)

lemma high_byte: "(v :: nat) AND 0xff000000 = 0 \<longleftrightarrow> drop_bit 24 v AND 0xff = 0"
  using and_push_bit [of v 24 "0xff"] by (simp add: push_bit_eq_mult)

lemma high_bit: "(v :: nat) AND 0x80000000 = 0 \<longleftrightarrow> drop_bit 24 v AND 0x80 = 0"
  using and_push_bit [of v 24 "0x80"] by (simp add: push_bit_eq_mult)

lemma low_bytes: "(v :: nat) AND 0x00ffffff = v mod 2 ^ 24"
proof -
  have "(0x00ffffff :: nat) = mask 24" by (simp add: mask_eq_exp_minus_1)
  then have "v AND 0x00ffffff = take_bit 24 v" by (metis take_bit_eq_mask)
  then show ?thesis by (metis take_bit_eq_mod)
qed

lemma packed_info:
  assumes "off < 2 ^ 24"
  shows "(push_bit 24 n OR off) mod 2 ^ 24 = off" and "drop_bit 24 (push_bit 24 n OR off) = (n :: nat)"
proof -
  have "take_bit 24 off = off" using assms by (simp add: take_bit_eq_mod)
  then show "(push_bit 24 n OR off) mod 2 ^ 24 = off"
    unfolding take_bit_eq_mod [symmetric] by (simp only: take_bit_or take_bit_push_bit) simp
  have "drop_bit 24 off = 0" "drop_bit 24 (push_bit 24 n) = n" using assms by (simp_all add: drop_bit_eq_div push_bit_eq_mult)
  then show "drop_bit 24 (push_bit 24 n OR off) = n" by (simp only: drop_bit_or) simp
qed

lemma nat_or_less:
  assumes "x < 2 ^ n" and "y < 2 ^ n"
  shows "x OR y < (2 ^ n :: nat)"
proof -
  have "take_bit n (x OR y) = x OR y" using assms by (simp add: take_bit_or take_bit_nat_eq_self)
  then show ?thesis by (metis take_bit_nat_less_exp)
qed

lemma small_counts: "n < 0x7f \<Longrightarrow> n AND 0xff = n" "n < 0x7f \<Longrightarrow> n AND 0x80 = (0 :: nat)"
proof -
  have "(0xff :: nat) = mask 8" by (simp add: mask_eq_exp_minus_1)
  then have "n AND 0xff = take_bit 8 n" by (metis take_bit_eq_mask)
  then show "n AND 0xff = n" if "n < 0x7f" using that by (simp add: take_bit_eq_mod)
  show "n AND 0x80 = 0" if "n < 0x7f"
  proof -
    have "n AND push_bit 7 1 = push_bit 7 (drop_bit 7 n AND 1)" by (rule and_push_bit)
    then show ?thesis using that by (simp add: push_bit_eq_mult drop_bit_eq_div)
  qed
qed

section \<open>Reading a fixed index back\<close>

lemma head_fields:
  assumes "flag < 256" and "len < 2 ^ 15" and "keyCount < 2 ^ 32" and "ty < 256"
    and "\<And>i. data + 4 \<le> i \<Longrightarrow> i < data + 12 \<Longrightarrow> M i = write_head m data flag len keyCount ty i"
  shows "sh_keyCount M data = keyCount" and "sh_length M data = int len" and "sh_type M data = ty"
proof -
  have same: "rd n M a = rd n (write_head m data flag len keyCount ty) a" if "data + 4 \<le> a" "a + n \<le> data + 12" for n a
    using assms(5) that by (auto simp: rd_def read_bytes_def intro!: arg_cong [of _ _ le_val])
  show "sh_keyCount M data = keyCount" using assms(3) same [of "data + 4" 4] by (simp add: sh_keyCount_def write_head_def mem_simps)
  show "sh_length M data = int len" using assms(2) same [of "data + 10" 2] by (simp add: sh_length_def write_head_def mem_simps)
  show "sh_type M data = ty" using assms(4) same [of "data + 8" 1] by (simp add: sh_type_def write_head_def mem_simps del: rd_1)
qed

text \<open>What the writer of fixed keys needs: whole keys, at least one record id for each, and offsets of 24 bits.\<close>

definition fixed_page_size :: "nat \<Rightarrow> entry list \<Rightarrow> nat" where
  "fixed_page_size keySize es = 12 + (keySize + 4) * (length es + 1) + length (exts es)"

definition fixed_ok :: "nat \<Rightarrow> entry list \<Rightarrow> bool" where
  "fixed_ok keySize es \<longleftrightarrow> keySize < 2 ^ 15 \<and> fixed_page_size keySize es < 2 ^ 24 \<and>
     (\<forall>(kb, ids) \<in> set es. length kb = keySize \<and> ids \<noteq> [] \<and> (\<forall>x \<in> set ids. x < 2 ^ 32) \<and> (length ids = 1 \<longrightarrow> ids ! 0 < 2 ^ 24))"

lemma createFixed_memory:
  assumes "fixed_ok keySize es"
  shows "createFixedSolidIndex m data (length es) ty keySize es =
    wr 4 (write_bytes (write_bytes (write_head m data 1 keySize (length es) ty) (data + 12) (slots (12 + (keySize + 4) * (length es + 1)) es))
      (data + 12 + (keySize + 4) * (length es + 1)) (exts es)) data (fixed_page_size keySize es)"
proof -
  have "\<forall>(kb, ids) \<in> set es. length kb = keySize" using assms by (auto simp: fixed_ok_def)
  then show ?thesis
    using fixed_loop_layout [of "data + 12" keySize es "data + 12 + (keySize + 4) * (length es + 1)" data]
    by (simp add: createFixedSolidIndex_def solidIndexHead_size_def fixed_page_size_def Let_def algebra_simps)
qed

lemma fixed_memory:
  fixes m :: mem and data :: nat
  assumes ok: "fixed_ok keySize es" and ty: "ty < 256" and i: "i < length es"
  defines "M \<equiv> createFixedSolidIndex m data (length es) ty keySize es" and "off \<equiv> 12 + (keySize + 4) * (length es + 1) + length (exts (take i es))"
  shows "sh_keyCount M data = length es" and "sh_length M data = int keySize" and "sh_type M data = ty"
    and "read_bytes M (data + 12 + (keySize + 4) * i) (keySize + 4) = fst (es ! i) @ le_bytes 4 (id_info off (snd (es ! i)))"
    and "read_bytes M (data + off) (length (ext_bytes (snd (es ! i)))) = ext_bytes (snd (es ! i))"
proof -
  let ?S = "slots (12 + (keySize + 4) * (length es + 1)) es" and ?E = "data + 12 + (keySize + 4) * (length es + 1)"
  have kb: "\<forall>(kb, ids) \<in> set es. length kb = keySize" using ok by (auto simp: fixed_ok_def)
  have S: "length ?S = (keySize + 4) * length es" by (rule length_slots [OF kb])
  have M: "M = wr 4 (write_bytes (write_bytes (write_head m data 1 keySize (length es) ty) (data + 12) ?S) ?E (exts es)) data (fixed_page_size keySize es)"
    unfolding M_def by (rule createFixed_memory [OF ok])
  have "fixed_page_size keySize es < 2 ^ 24" and ks: "keySize < 2 ^ 15" using ok by (simp_all add: fixed_ok_def)
  moreover have "length es \<le> fixed_page_size keySize es" by (simp add: fixed_page_size_def add_mult_distrib)
  ultimately have "length es < 2 ^ 32" by simp
  with ks have sz: "keySize < 2 ^ 15" "length es < 2 ^ 32" by blast+
  have head: "M j = write_head m data 1 keySize (length es) ty j" if "data + 4 \<le> j" "j < data + 12" for j
    using that unfolding M by (simp add: mem_simps)
  note hf = head_fields [of 1 keySize "length es" ty data M m, OF _ sz ty head]
  show "sh_keyCount M data = length es" "sh_length M data = int keySize" "sh_type M data = ty" using hf by simp_all
  have le: "(keySize + 4) * i + (keySize + 4) \<le> (keySize + 4) * length es" using i mult_le_mono2 [of "Suc i" "length es" "keySize + 4"] by simp
  have "read_bytes M (data + 12 + (keySize + 4) * i) (keySize + 4) = take (keySize + 4) (drop ((keySize + 4) * i) ?S)"
  proof -
    have w: "data + 12 + (keySize + 4) * i + (keySize + 4) \<le> ?E" using i by simp
    have "read_bytes M (data + 12 + (keySize + 4) * i) (keySize + 4) =
        read_bytes (write_bytes (write_head m data 1 keySize (length es) ty) (data + 12) ?S) (data + 12 + (keySize + 4) * i) (keySize + 4)"
      unfolding M by (subst read_bytes_wr_other, simp, rule write_bytes_other) (use w in blast)
    also have "\<dots> = take (keySize + 4) (drop (data + 12 + (keySize + 4) * i - (data + 12)) ?S)"
      by (rule write_bytes_inner) (use le S in simp_all)
    finally show ?thesis by simp
  qed
  then show "read_bytes M (data + 12 + (keySize + 4) * i) (keySize + 4) = fst (es ! i) @ le_bytes 4 (id_info off (snd (es ! i)))"
    using nth_slot [OF i kb] by (simp add: off_def)
  show "read_bytes M (data + off) (length (ext_bytes (snd (es ! i)))) = ext_bytes (snd (es ! i))"
    using nth_ext [OF i] unfolding M off_def by (simp add: mem_simps write_bytes_inner)
qed

lemma fixed_read_back:
  fixes m :: mem and data :: nat
  assumes ok: "fixed_ok keySize es" and ty: "ty < 256" and i: "i < length es"
  defines "M \<equiv> createFixedSolidIndex m data (length es) ty keySize es"
  shows "fx_getKey M data i = data + 12 + (keySize + 4) * i"
    and "read_bytes M (fx_getKey M data i) keySize = fst (es ! i)"
    and "read_ids M (fx_getRecordIdByIndex M data i) = snd (es ! i)"
proof -
  define off where "off = 12 + (keySize + 4) * (length es + 1) + length (exts (take i es))"
  define ids where "ids = snd (es ! i)"
  note fm = fixed_memory [OF ok ty i, of m data, folded M_def off_def ids_def]
  have e: "(fst (es ! i), ids) \<in> set es" using i by (simp add: ids_def)
  have kb: "length (fst (es ! i)) = keySize" and ids: "ids \<noteq> []" "\<forall>x \<in> set ids. x < 2 ^ 32" "length ids = 1 \<longrightarrow> ids ! 0 < 2 ^ 24"
    using ok e by (auto simp: fixed_ok_def)
  show key: "fx_getKey M data i = data + 12 + (keySize + 4) * i"
    unfolding fx_getKey_def fm(2) solidIndexHead_size_def by (simp add: nat_eq_iff)
  have r: "read_bytes M (data + 12 + (keySize + 4) * i) keySize = fst (es ! i)"
    "read_bytes M (data + 12 + (keySize + 4) * i + keySize) 4 = le_bytes 4 (id_info off ids)"
    using read_bytes_split [OF fm(4) kb] by simp_all
  show "read_bytes M (fx_getKey M data i) keySize = fst (es ! i)" using r(1) by (simp add: key)
  let ?a = "data + 12 + (keySize + 4) * i + keySize"
  have a: "nat (int (fx_getKey M data i) + sh_length M data) = ?a" unfolding key fm(2) by (simp add: nat_eq_iff)
  have off: "off + length (ext_bytes ids) < 2 ^ 24" using ok nth_ext(2) [OF i] by (simp add: fixed_ok_def fixed_page_size_def off_def ids_def)
  have small: "id_info off ids < 2 ^ 32"
  proof -
    have "push_bit 24 n OR off < 2 ^ 32" if "n < 2 ^ 8" for n :: nat
      using that off by (intro nat_or_less) (simp_all add: push_bit_eq_mult)
    from this [of "length ids"] this [of 128] show ?thesis using ids(3) by (auto simp: id_info_def)
  qed
  have info: "rd 4 M ?a = id_info off ids" by (rule rd_bytes [OF r(2) small])
  have o24: "off < 2 ^ 24" using off by simp
  consider "length ids = 1" | "length ids \<noteq> 1" "length ids < 0x7f" | "0x7f \<le> length ids" by linarith
  then show "read_ids M (fx_getRecordIdByIndex M data i) = snd (es ! i)" unfolding ids_def [symmetric]
  proof cases
    case 1
    then have "fx_getRecordIdByIndex M data i = (?a, 1)"
      using ids(3) info unfolding fx_getRecordIdByIndex_def a high_byte by (simp add: id_info_def drop_bit_eq_div)
    moreover have "ids = [ids ! 0]" using 1 by (cases ids) auto
    ultimately show "read_ids M (fx_getRecordIdByIndex M data i) = ids" using info 1 by (simp add: read_ids_def id_info_def)
  next
    case 2
    then have ii: "id_info off ids = push_bit 24 (length ids) OR off" by (simp add: id_info_def)
    have "fx_getRecordIdByIndex M data i = (data + off, length ids)"
      using 2 ids(1) small_counts(1) [of "length ids"] small_counts(2) [of "length ids"]
      unfolding fx_getRecordIdByIndex_def a info Let_def high_byte high_bit low_bytes ii packed_info [OF o24] by simp
    then show "read_ids M (fx_getRecordIdByIndex M data i) = ids" using fm(5) 2 ids(2) by (simp add: ext_bytes_def read_ids_bytes)
  next
    case 3
    have x: "read_bytes M (data + off) (4 + 4 * length ids) = le_bytes 4 (length ids) @ ids_bytes ids" using fm(5) 3 by (simp add: ext_bytes_def)
    have n: "length ids < 2 ^ 32" using off 3 by (simp add: ext_bytes_def)
    from read_bytes_split [OF x] have "rd 4 M (data + off) = length ids" "read_bytes M (data + off + 4) (4 * length ids) = ids_bytes ids"
      using rd_bytes [OF _ n] by auto
    moreover have ii: "id_info off ids = push_bit 24 0x80 OR off" using 3 by (simp add: id_info_def)
    have "fx_getRecordIdByIndex M data i = (data + off + 4, rd 4 M (data + off))"
      unfolding fx_getRecordIdByIndex_def a info Let_def high_byte high_bit low_bytes ii packed_info [OF o24] by simp
    ultimately show "read_ids M (fx_getRecordIdByIndex M data i) = ids" using ids(2) by (simp add: read_ids_bytes)
  qed
qed

lemma createFixed_outside:
  assumes "fixed_ok keySize es" and "j < data \<or> data + fixed_page_size keySize es \<le> j"
  shows "createFixedSolidIndex m data (length es) ty keySize es j = m j"
proof -
  have "\<forall>(kb, ids) \<in> set es. length kb = keySize" using assms(1) by (auto simp: fixed_ok_def)
  note S = length_slots [OF this, of "12 + (keySize + 4) * (length es + 1)"]
  show ?thesis unfolding createFixed_memory [OF assms(1)] using assms(2) S
    by (auto simp: mem_simps fixed_page_size_def write_head_def)
qed

section \<open>Variable-length keys\<close>

definition blob :: "entry \<Rightarrow> u8 list" where
  "blob e = le_bytes 2 (length (fst e)) @ fst e @ le_bytes 4 (length (snd e)) @ ids_bytes (snd e)"

definition blobs :: "entry list \<Rightarrow> u8 list" where
  "blobs es = concat (map blob es)"

fun offsets :: "nat \<Rightarrow> entry list \<Rightarrow> u8 list" where
  "offsets off [] = []"
| "offsets off (e # es) = le_bytes 4 off @ offsets (off + length (blob e)) es"

lemma blobs_simps [simp]: "blobs [] = []" "blobs (e # es) = blob e @ blobs es" "blobs (xs @ ys) = blobs xs @ blobs ys"
  by (simp_all add: blobs_def)

lemma length_blob: "length (blob e) = length (fst e) + 6 + 4 * length (snd e)"
  by (simp add: blob_def)

lemma length_offsets [simp]: "length (offsets off es) = 4 * length es"
  by (induction es arbitrary: off) auto

lemma var_loop_layout:
  assumes "indexPos + 4 * length es \<le> ext" and "data \<le> ext"
  shows "var_loop m data indexPos ext es =
    (write_bytes (write_bytes m indexPos (offsets (ext - data) es)) ext (blobs es), indexPos + 4 * length es, ext + length (blobs es))"
  using assms
proof (induction es arbitrary: m indexPos ext)
  case (Cons e es)
  obtain kb ids where e: "e = (kb, ids)" by (cases e)
  let ?x = "le_bytes 4 (ext - data)" and ?y = "offsets (ext + length (blob e) - data) es"
  have "write_ids (wr 4 (write_bytes (wr 2 m' ext (length kb)) (ext + 2) kb) (ext + (length kb + 2)) (length ids)) (ext + (length kb + 2) + 4) ids =
      write_bytes m' ext (blob e)" for m'
    by (simp add: write_ids_def wr_def write_bytes_append blob_def e)
  then have "var_loop m data indexPos ext (e # es) =
      var_loop (write_bytes (write_bytes m indexPos ?x) ext (blob e)) data (indexPos + 4) (ext + length (blob e)) es"
    by (simp add: e Let_def wr_def length_blob algebra_simps)
  also have "\<dots> = (write_bytes (write_bytes (write_bytes (write_bytes m indexPos ?x) ext (blob e)) (indexPos + 4) ?y) (ext + length (blob e)) (blobs es),
      indexPos + 4 + 4 * length es, ext + length (blob e) + length (blobs es))"
    using Cons.IH [of "indexPos + 4" "ext + length (blob e)"] Cons.prems by simp
  also have "write_bytes (write_bytes (write_bytes m indexPos ?x) ext (blob e)) (indexPos + 4) ?y =
      write_bytes (write_bytes (write_bytes m indexPos ?x) (indexPos + 4) ?y) ext (blob e)"
    by (rule write_bytes_commute [symmetric]) (use Cons.prems in simp)
  also have "write_bytes (write_bytes m indexPos ?x) (indexPos + 4) ?y = write_bytes m indexPos (offsets (ext - data) (e # es))"
    using Cons.prems(2) by (simp add: write_bytes_append)
  finally show ?case by (simp add: write_bytes_append)
qed simp

lemma nth_offset:
  "i < length es \<Longrightarrow> take 4 (drop (4 * i) (offsets off es)) = le_bytes 4 (off + length (blobs (take i es)))"
proof (induction es arbitrary: i off)
  case (Cons e es)
  then show ?case by (cases i) (simp_all add: add.assoc)
qed simp

lemma nth_blob:
  assumes "i < length es"
  shows "take (length (blob (es ! i))) (drop (length (blobs (take i es))) (blobs es)) = blob (es ! i)"
    and "length (blobs (take i es)) + length (blob (es ! i)) \<le> length (blobs es)"
proof -
  have "es = take i es @ es ! i # drop (Suc i) es" using assms by (simp add: id_take_nth_drop [symmetric])
  then have e: "blobs es = blobs (take i es) @ blob (es ! i) @ blobs (drop (Suc i) es)" by (metis blobs_simps(2,3))
  show "take (length (blob (es ! i))) (drop (length (blobs (take i es))) (blobs es)) = blob (es ! i)" by (simp add: e)
  show "length (blobs (take i es)) + length (blob (es ! i)) \<le> length (blobs es)" by (simp add: e)
qed

definition var_size :: "entry list \<Rightarrow> nat" where
  "var_size es = 12 + 4 * (length es + 1) + length (blobs es)"

definition var_ok :: "entry list \<Rightarrow> bool" where
  "var_ok es \<longleftrightarrow> var_size es < 2 ^ 32 \<and> (\<forall>(kb, ids) \<in> set es. length kb < 2 ^ 16 \<and> (\<forall>x \<in> set ids. x < 2 ^ 32))"

lemma createVar_memory:
  "createVarSolidIndex m data (length es) ty es =
    wr 4 (wr 4 (write_bytes (write_bytes (write_head m data 0 4 (length es) ty) (data + 12) (offsets (16 + 4 * length es) es))
      (data + 16 + 4 * length es) (blobs es)) (data + 12 + 4 * length es) (var_size es)) data (var_size es)"
  using var_loop_layout [of "data + 12" es "data + 12 + 4 * (length es + 1)" data]
  by (simp add: createVarSolidIndex_def solidIndexHead_size_def var_size_def Let_def algebra_simps)

lemma createVar_outside:
  "j < data \<or> data + var_size es \<le> j \<Longrightarrow> createVarSolidIndex m data (length es) ty es j = m j"
  unfolding createVar_memory by (auto simp: mem_simps var_size_def write_head_def)

lemma var_read_back:
  fixes m :: mem and data :: nat
  assumes ok: "var_ok es" and ty: "ty < 256" and i: "i < length es"
  defines "M \<equiv> createVarSolidIndex m data (length es) ty es"
  shows "sh_keyCount M data = length es" and "sh_type M data = ty"
    and "rd 2 M (vr_getKey M data i) = length (fst (es ! i))"
    and "read_bytes M (vr_getKey M data i + 2) (length (fst (es ! i))) = fst (es ! i)"
    and "read_ids M (vr_getRecordIdByIndex M data i) = snd (es ! i)"
    and "data \<le> vr_getKey M data i" and "vr_getKey M data i + 2 + length (fst (es ! i)) \<le> data + var_size es"
proof -
  define off where "off = 16 + 4 * length es + length (blobs (take i es))"
  obtain kb ids where e: "es ! i = (kb, ids)" by (cases "es ! i")
  have "(kb, ids) \<in> set es" using i e by (metis nth_mem)
  then have kb: "length kb < 2 ^ 16" and ids: "\<forall>x \<in> set ids. x < 2 ^ 32" using ok by (auto simp: var_ok_def)
  have vs: "var_size es < 2 ^ 32" using ok by (simp add: var_ok_def)
  have end_le: "off + length (blob (es ! i)) \<le> var_size es" using nth_blob(2) [OF i] by (simp add: off_def var_size_def)
  have head: "M j = write_head m data 0 4 (length es) ty j" if "data + 4 \<le> j" "j < data + 12" for j
    using that unfolding M_def createVar_memory by (simp add: mem_simps)
  have n: "length es < 2 ^ 32" using vs by (simp add: var_size_def)
  note hf = head_fields [of 0 4 "length es" ty data M m, OF _ _ n ty head]
  show "sh_keyCount M data = length es" "sh_type M data = ty" using hf by simp_all
  have "read_bytes M (data + 12 + 4 * i) 4 = take 4 (drop (4 * i) (offsets (16 + 4 * length es) es))"
    using i unfolding M_def createVar_memory by (simp add: mem_simps write_bytes_inner)
  then have "rd 4 M (data + 12 + 4 * i) = off"
    using nth_offset [OF i, of "16 + 4 * length es"] rd_bytes [of M "data + 12 + 4 * i" off] end_le vs by (simp add: off_def)
  then have key: "vr_getKey M data i = data + off" by (simp add: vr_getKey_def solidIndexHead_size_def)
  have "read_bytes M (data + off) (length (blob (es ! i))) = blob (es ! i)"
    using nth_blob [OF i] unfolding M_def createVar_memory off_def by (simp add: mem_simps write_bytes_inner)
  then have b: "read_bytes M (data + off) (2 + (length kb + (4 + 4 * length ids))) =
      le_bytes 2 (length kb) @ (kb @ (le_bytes 4 (length ids) @ ids_bytes ids))" by (simp add: blob_def e)
  from read_bytes_split [OF b] have b1: "read_bytes M (data + off) 2 = le_bytes 2 (length kb)"
    and b2: "read_bytes M (data + off + 2) (length kb + (4 + 4 * length ids)) = kb @ (le_bytes 4 (length ids) @ ids_bytes ids)" by auto
  from read_bytes_split [OF b2] have b3: "read_bytes M (data + off + 2) (length kb) = kb"
    and b4: "read_bytes M (data + off + 2 + length kb) (4 + 4 * length ids) = le_bytes 4 (length ids) @ ids_bytes ids" by auto
  from read_bytes_split [OF b4] have b5: "read_bytes M (data + off + 2 + length kb) 4 = le_bytes 4 (length ids)"
    and b6: "read_bytes M (data + off + 2 + length kb + 4) (4 * length ids) = ids_bytes ids" by auto
  show sz: "rd 2 M (vr_getKey M data i) = length (fst (es ! i))" using b1 kb by (simp add: key e rd_def le_val_le_bytes)
  show "read_bytes M (vr_getKey M data i + 2) (length (fst (es ! i))) = fst (es ! i)" using b3 by (simp add: key e)
  have "length ids < 2 ^ 32" using end_le vs by (simp add: length_blob e)
  then have c: "rd 4 M (data + off + 2 + length kb) = length ids" by (rule rd_bytes [OF b5])
  have "vr_getRecordIdByIndex M data i = (data + off + 2 + length kb + 4, length ids)"
    using sz c unfolding vr_getRecordIdByIndex_def key e by (simp add: Let_def algebra_simps)
  then show "read_ids M (vr_getRecordIdByIndex M data i) = snd (es ! i)" using b6 ids by (simp add: read_ids_bytes e)
  show "data \<le> vr_getKey M data i" "vr_getKey M data i + 2 + length (fst (es ! i)) \<le> data + var_size es"
    using end_le by (simp_all add: key length_blob e)
qed

section \<open>Searching an index\<close>

lemma find_loop_cong:
  assumes "\<And>i. s \<le> int i \<Longrightarrow> int i \<le> e \<Longrightarrow> cmp i = cmp' i" and "0 \<le> s"
  shows "find_loop cmp s e m = find_loop cmp' s e m"
  using assms
proof (induction "nat (e - s + 1)" arbitrary: s e m rule: less_induct)
  case less
  show ?case
  proof (cases "s \<le> e")
    case True
    define h where "h = (s + e) div 2"
    have h: "s \<le> h" "h \<le> e" using True by (auto simp: h_def)
    have "cmp (nat h) = cmp' (nat h)" using less.prems h by simp
    moreover have "find_loop cmp (h + 1) e h = find_loop cmp' (h + 1) e h" "find_loop cmp s (h - 1) h = find_loop cmp' s (h - 1) h"
      using less.hyps [of e "h + 1" h] less.hyps [of "h - 1" s h] less.prems h by simp_all
    ultimately show ?thesis
      by (subst (1 2) find_loop.simps) (simp add: Let_def h_def split: sum.splits)
  qed (simp add: find_loop.simps)
qed

text \<open>A search in strictly ascending keys, with a comparison that agrees with their order.\<close>

lemma idx_find_agrees:
  fixes xs :: "'a::linorder list"
  assumes "sorted_wrt (<) xs" and "\<forall>i<length xs. agrees (cmp i) d (xs ! i)"
  shows "(\<exists>i<length xs. xs ! i = d \<and> idx_find cmp (length xs) eog = Inr (int i)) \<or>
    d \<notin> set xs \<and> idx_find cmp (length xs) eog = Inr (if eog then -1 else int (min (length (filter (\<lambda>x. x < d) xs)) (length xs - 1)))"
proof -
  define c where "c i = (case cmp i of Inl f \<Rightarrow> 0 | Inr c \<Rightarrow> c)" for i
  have c: "cmp i = Inr (c i)" "c i < 0 \<longleftrightarrow> d < xs ! i" "c i = 0 \<longleftrightarrow> d = xs ! i" "0 < c i \<longleftrightarrow> xs ! i < d" if "i < length xs" for i
    using assms(2) that by (fastforce simp: agrees_def c_def)+
  have "descending c (length xs)" unfolding descending_def
  proof (intro allI impI)
    fix i j assume ij: "i < j" "j < length xs"
    then have "xs ! i < xs ! j" using assms(1) by (simp add: sorted_wrt_iff_nth_less)
    then show "(0 \<le> c j \<longrightarrow> 0 < c i) \<and> (c i \<le> 0 \<longrightarrow> c j < 0)" using c [of i] c [of j] ij by (auto simp: not_less le_less)
  qed
  moreover have "idx_find cmp (length xs) eog = idx_find (\<lambda>i. Inr (c i)) (length xs) eog"
    unfolding idx_find_def using c(1) by (subst find_loop_cong [where cmp' = "\<lambda>i. Inr (c i)"]) auto
  moreover have "length (filter (\<lambda>i. 0 < c i) [0..<length xs]) = length (filter (\<lambda>x. x < d) xs)"
  proof -
    have "filter (\<lambda>x. x < d) xs = filter (\<lambda>x. x < d) (map ((!) xs) [0..<length xs])" by (simp add: map_nth)
    also have "\<dots> = map ((!) xs) (filter (\<lambda>i. 0 < c i) [0..<length xs])" unfolding filter_map using c(4) by (auto intro!: arg_cong [of _ _ "map _"] filter_cong)
    finally show ?thesis by simp
  qed
  ultimately show ?thesis using idx_find_correct [of c "length xs" eog] c(3) by (auto simp: in_set_conv_nth)
qed

lemma find_ids_agrees:
  fixes key :: "'k \<Rightarrow> 'a::linorder" and es :: "('k \<times> 'v) list"
  assumes "sorted_wrt (<) (map (key \<circ> fst) es)" and "\<forall>i<length es. agrees (cmp i) d (key (fst (es ! i)))"
    and "\<And>i. i < length es \<Longrightarrow> get (getIds i) = snd (es ! i)"
  shows "case map_of (map (\<lambda>(k, v). (key k, v)) es) d of
      None \<Rightarrow> find_ids (idx_find cmp (length es) True) getIds = Inr None
    | Some v \<Rightarrow> \<exists>r. find_ids (idx_find cmp (length es) True) getIds = Inr (Some r) \<and> get r = v"
proof -
  let ?xs = "map (key \<circ> fst) es" and ?f = "\<lambda>(k, v). (key k, v)"
  have xs: "map fst (map ?f es) = ?xs" by (auto simp: split_beta)
  have d: "distinct ?xs" using assms(1) strict_sorted_iff by blast
  from idx_find_agrees [OF assms(1), of cmp d True] assms(2)
  consider i where "i < length es" "key (fst (es ! i)) = d" "idx_find cmp (length es) True = Inr (int i)"
    | "d \<notin> set ?xs" "idx_find cmp (length es) True = Inr (-1)" by auto
  then show ?thesis
  proof cases
    case 1
    have "(d, snd (es ! i)) \<in> set (map ?f es)" using 1 by (force simp: split_beta in_set_conv_nth)
    then have "map_of (map ?f es) d = Some (snd (es ! i))" using d unfolding xs [symmetric] by simp
    then show ?thesis using 1 assms(3) by (simp add: find_ids_def)
  next
    case 2
    then have "map_of (map ?f es) d = None" unfolding xs [symmetric] by (simp add: map_of_eq_None_iff image_image)
    then show ?thesis using 2 by (simp add: find_ids_def)
  qed
qed

text \<open>The integer that the bytes of a key denote.\<close>

definition bytes_int :: "COLUMN_TYPE \<Rightarrow> u8 list \<Rightarrow> int" where
  "bytes_int t kb = key_int t (\<lambda>i. kb ! i) 0"

definition int_types :: "COLUMN_TYPE set" where
  "int_types = {T_INT8, T_UINT8, T_INT16, T_YEAR, T_UINT16, T_INT32, T_DATE, T_UINT32, T_INT64, T_DATETIME, T_TIME, T_TIMESTAMP, T_UINT64}"

lemma key_int_bytes:
  assumes "t \<in> int_types" and "read_bytes m a (col_size t) = kb"
  shows "key_int t m a = bytes_int t kb"
proof -
  have "read_bytes (\<lambda>i. kb ! i) 0 (col_size t) = kb" using assms(2) by (auto intro: nth_equalityI)
  then have "rd (col_size t) m a = rd (col_size t) (\<lambda>i. kb ! i) 0" using assms(2) by (simp add: rd_def)
  then show ?thesis using assms(1) unfolding int_types_def bytes_int_def
    by (auto simp: col_size_def columnInfos_def simp del: rd_1)
qed

lemma int_compare_agrees: "agrees (Inr (int_compare d x)) d x"
  by (auto simp: agrees_def int_compare_def)

section \<open>Properties\<close>

text \<open>
  A page of fixed-size keys is read back as it was written: the head has the number of keys and the type, entry \<open>i\<close> has the bytes
  of the \<open>i\<close>th key, and its record ids are those that were stored, whether there is one (in the entry itself), fewer than 127
  (count and offset in the entry) or more (count before the array).  Nothing outside the page changes.
\<close>

theorem fixed_index_roundtrip:
  assumes "fixed_ok keySize es" and "ty < 256" and "M = createFixedSolidIndex m data (length es) ty keySize es"
  shows "(\<forall>i<length es. sh_keyCount M data = length es \<and> sh_type M data = ty \<and> read_bytes M (fx_getKey M data i) keySize = fst (es ! i) \<and>
      read_ids M (fx_getRecordIdByIndex M data i) = snd (es ! i)) \<and>
    (\<forall>j. j < data \<or> data + fixed_page_size keySize es \<le> j \<longrightarrow> M j = m j)"
  using fixed_memory(1,3) [OF assms(1,2)] fixed_read_back(2,3) [OF assms(1,2)] createFixed_outside [OF assms(1)] unfolding assms(3) by blast

definition sample_entries :: "entry list" where
  "sample_entries = [([3, 0], [7]), ([5, 0], [8, 9]), ([9, 1], [1, 2, 3])]"

lemma sample_facts:
  "fixed_ok 2 sample_entries" "var_ok sample_entries" "length sample_entries = 3" "sample_entries ! 1 = ([5, 0], [8, 9])" "sample_entries ! 2 = ([9, 1], [1, 2, 3])"
  "sorted_wrt (<) (map (bytes_int T_UINT16 \<circ> fst) sample_entries)" "map_of (map (\<lambda>(k, v). (bytes_int T_UINT16 k, v)) sample_entries) 5 = Some [8, 9]"
  by (auto simp: sample_entries_def fixed_ok_def fixed_page_size_def exts_def ext_bytes_def var_ok_def var_size_def blobs_def length_blob bytes_int_def
    read_eval col_size_def columnInfos_def)

definition sample_page :: mem where
  "sample_page = createFixedSolidIndex (\<lambda>_. 0) 100 3 (TID T_UINT16) 2 sample_entries"

theorem fixed_index_roundtrip_witness:
  "read_ids sample_page (fx_getRecordIdByIndex sample_page 100 1) = [8, 9]"
proof -
  have "sample_page = createFixedSolidIndex (\<lambda>_. 0) 100 (length sample_entries) (TID T_UINT16) 2 sample_entries"
    by (simp only: sample_page_def sample_facts(3))
  from fixed_index_roundtrip [OF sample_facts(1) _ this] have "read_ids sample_page (fx_getRecordIdByIndex sample_page 100 1) = snd (sample_entries ! 1)"
    unfolding sample_facts(3) by simp
  then show ?thesis unfolding sample_facts(4) by simp
qed

text \<open>
  A page of keys of variable length is read back as it was written: number of keys, type, size and bytes of every key and its record ids.
  Nothing outside the page changes.
\<close>

theorem var_index_roundtrip:
  assumes "var_ok es" and "ty < 256" and "M = createVarSolidIndex m data (length es) ty es"
  shows "(\<forall>i<length es. sh_keyCount M data = length es \<and> sh_type M data = ty \<and>
      rd 2 M (vr_getKey M data i) = length (fst (es ! i)) \<and> read_bytes M (vr_getKey M data i + 2) (length (fst (es ! i))) = fst (es ! i) \<and>
      read_ids M (vr_getRecordIdByIndex M data i) = snd (es ! i)) \<and>
    (\<forall>j. j < data \<or> data + var_size es \<le> j \<longrightarrow> M j = m j)"
  using var_read_back(1-5) [OF assms(1,2)] createVar_outside unfolding assms(3) by blast

definition sample_var_page :: mem where
  "sample_var_page = createVarSolidIndex (\<lambda>_. 0) 100 3 (TID T_BINARY) sample_entries"

theorem var_index_roundtrip_witness:
  "read_ids sample_var_page (vr_getRecordIdByIndex sample_var_page 100 2) = [1, 2, 3]"
proof -
  have "sample_var_page = createVarSolidIndex (\<lambda>_. 0) 100 (length sample_entries) (TID T_BINARY) sample_entries"
    by (simp only: sample_var_page_def sample_facts(3))
  from var_index_roundtrip [OF sample_facts(2) _ this] show ?thesis unfolding sample_facts(3) by (simp add: sample_facts(5))
qed

lemma fixed_find:
  assumes "fixed_ok (col_size t) es" and "t \<in> int_types" and "sorted_wrt (<) (map (bytes_int t \<circ> fst) es)" and "es \<noteq> []"
    and "M = createFixedSolidIndex m data (length es) (TID t) (col_size t) es"
  shows "(case map_of (map (\<lambda>(k, v). (bytes_int t k, v)) es) d of
      None \<Rightarrow> find_ids (fx_find_int M data t d True) (fx_getRecordIdByIndex M data) = Inr None \<and>
        fx_find_int M data t d False = Inr (int (min (length (filter (\<lambda>e. bytes_int t (fst e) < d) es)) (length es - 1)))
    | Some ids \<Rightarrow> \<exists>r. find_ids (fx_find_int M data t d True) (fx_getRecordIdByIndex M data) = Inr (Some r) \<and> read_ids M r = ids)"
proof -
  have ty: "TID t < 256" by (cases t) simp_all
  have 0: "0 < length es" using assms(4) by simp
  define cmp where "cmp i = (Inr (int_compare d (key_int t M (fx_getKey M data i))) :: fault + int)" for i
  have a: "\<forall>i<length es. agrees (cmp i) d (bytes_int t (fst (es ! i)))"
    using key_int_bytes [OF assms(2)] fixed_read_back(2) [OF assms(1) ty] int_compare_agrees unfolding cmp_def assms(5) by fastforce
  have f: "fx_find_int M data t d eog = idx_find cmp (length es) eog" for eog
    unfolding fx_find_int_def cmp_def using fixed_memory(1) [OF assms(1) ty 0] unfolding assms(5) by simp
  have r: "read_ids M (fx_getRecordIdByIndex M data i) = snd (es ! i)" if "i < length es" for i
    unfolding assms(5) by (rule fixed_read_back(3) [OF assms(1) ty that])
  have g: "fx_find_int M data t d False = Inr (int (min (length (filter (\<lambda>e. bytes_int t (fst e) < d) es)) (length es - 1)))"
    if "d \<notin> set (map (bytes_int t \<circ> fst) es)"
    using idx_find_agrees [OF assms(3), of cmp d False] a that unfolding f by (auto simp: filter_map comp_def)
  have n: "map_of (map (\<lambda>(k, v). (bytes_int t k, v)) es) d = None \<longleftrightarrow> d \<notin> set (map (bytes_int t \<circ> fst) es)"
    by (force simp: map_of_eq_None_iff)
  show ?thesis using find_ids_agrees [OF assms(3) a r] n g unfolding f by (simp split: option.splits)
qed

text \<open>
  Looking an integer up in a page of ascending integer keys gives the record ids stored for it, or that it is not there; a search that
  does not ask for equality gives the first greater key, or the last key when there is none.
\<close>

theorem fixed_index_find:
  assumes "fixed_ok (col_size t) es" and "t \<in> int_types" and "sorted_wrt (<) (map (bytes_int t \<circ> fst) es)" and "es \<noteq> []"
    and "M = createFixedSolidIndex m data (length es) (TID t) (col_size t) es"
  shows "(case map_of (map (\<lambda>(k, v). (bytes_int t k, v)) es) d of
      None \<Rightarrow> find_ids (fx_find_int M data t d True) (fx_getRecordIdByIndex M data) = Inr None \<and>
        fx_find_int M data t d False = Inr (int (min (length (filter (\<lambda>e. bytes_int t (fst e) < d) es)) (length es - 1)))
    | Some ids \<Rightarrow> \<exists>r. find_ids (fx_find_int M data t d True) (fx_getRecordIdByIndex M data) = Inr (Some r) \<and> read_ids M r = ids)"
  using assms by (rule fixed_find)

theorem fixed_index_find_witness:
  "\<exists>r. find_ids (fx_find_int sample_page 100 T_UINT16 5 True) (fx_getRecordIdByIndex sample_page 100) = Inr (Some r) \<and>
    read_ids sample_page r = [8, 9]"
proof -
  have "sample_page = createFixedSolidIndex (\<lambda>_. 0) 100 (length sample_entries) (TID T_UINT16) (col_size T_UINT16) sample_entries"
    by (simp only: sample_page_def sample_facts(3) col_simps)
  from fixed_index_find [OF _ _ sample_facts(6) _ this, of 5] show ?thesis
    using sample_facts(1,3) unfolding sample_facts(7) by (fastforce simp: int_types_def)
qed

text \<open>
  Looking a byte string up in a page of ascending strings gives the record ids stored for exactly that string, or that it is not there.
\<close>

theorem var_index_find:
  assumes "var_ok es" and "sorted_wrt (<) (map fst es)" and "es \<noteq> []" and "M = createVarSolidIndex m data (length es) (TID T_BINARY) es"
  shows "(case map_of es (bt_bytes M d) of
      None \<Rightarrow> find_ids (vr_find_binary M data d True) (vr_getRecordIdByIndex M data) = Inr None
    | Some ids \<Rightarrow> \<exists>r. find_ids (vr_find_binary M data d True) (vr_getRecordIdByIndex M data) = Inr (Some r) \<and> read_ids M r = ids)"
proof -
  have ty: "TID T_BINARY < 256" by simp
  have 0: "0 < length es" using assms(3) by simp
  define cmp where "cmp i = (let a = vr_getKey M data i in Inr (bt_compare M d \<lparr>bt_size = word_of_nat (rd 2 M a), bt_data = a + 2\<rparr>) :: fault + int)" for i
  have b: "bt_bytes M \<lparr>bt_size = word_of_nat (rd 2 M (vr_getKey M data i)), bt_data = vr_getKey M data i + 2\<rparr> = fst (es ! i)" if "i < length es" for i
  proof -
    have "length (fst (es ! i)) < 2 ^ 16" using assms(1) nth_mem [OF that] by (auto simp: var_ok_def split_beta)
    then show ?thesis using var_read_back(3,4) [OF assms(1) ty that, of m data] unfolding assms(4) by (simp add: bt_bytes_def unat_of_nat)
  qed
  have a: "\<forall>i<length es. agrees (cmp i) (bt_bytes M d) (fst (es ! i))"
    using b by (auto simp: agrees_def cmp_def Let_def bt_compare_less bt_compare_eq)
  have f: "vr_find_binary M data d eog = idx_find cmp (length es) eog" for eog
    unfolding vr_find_binary_def cmp_def using var_read_back(1) [OF assms(1) ty 0, of m data] unfolding assms(4) by simp
  have r: "read_ids M (vr_getRecordIdByIndex M data i) = snd (es ! i)" if "i < length es" for i
    unfolding assms(4) by (rule var_read_back(5) [OF assms(1) ty that])
  show ?thesis using find_ids_agrees [of "\<lambda>k. k" es cmp "bt_bytes M d", OF _ a r] assms(2) unfolding f by (simp add: comp_def)
qed

theorem var_index_find_witness:
  "\<exists>r. find_ids (vr_find_binary sample_var_page 100 \<lparr>bt_size = 0, bt_data = 0\<rparr> True) (vr_getRecordIdByIndex sample_var_page 100) = Inr None"
proof -
  have p: "sample_var_page = createVarSolidIndex (\<lambda>_. 0) 100 (length sample_entries) (TID T_BINARY) sample_entries"
    by (simp only: sample_var_page_def sample_facts(3))
  have e: "bt_bytes sample_var_page \<lparr>bt_size = 0, bt_data = 0\<rparr> = []" by (simp add: bt_bytes_def)
  have "sorted_wrt (<) (map fst sample_entries)" "sample_entries \<noteq> []" by (auto simp: sample_entries_def)
  from var_index_find [OF sample_facts(2) this p, of "\<lparr>bt_size = 0, bt_data = 0\<rparr>"] show ?thesis unfolding e by (simp add: sample_entries_def)
qed

end
