(* ===== verification/AppendingIndex.thy ===== *)
theory AppendingIndex
  imports SkipList SolidIndexProofs DmlRecords
begin

text \<open>
  The index of a block that is being written (\<^verbatim>\<open>database/appendingIndex.h\<close>, \<^verbatim>\<open>database/appendingIndex.cpp\<close>): a skip list
  of the keys, each with the growing array of the ids of its records, the append from a record, the iterator, and the conversion
  into an index page.  A pointer to a \<^verbatim>\<open>KeyTemplate\<close> is the key, which never changes, with the number of its array of ids.
\<close>

section \<open>Comparison\<close>

definition keyComparator :: "'a::linorder \<Rightarrow> 'a \<Rightarrow> int" where
  "keyComparator a b = (if a < b then -1 else if b < a then 1 else 0)"

interpretation lin: key_order "keyComparator :: 'a::linorder \<Rightarrow> 'a \<Rightarrow> int"
  by unfold_locales (auto simp: keyComparator_def split: if_splits)

text \<open>The comparison of the pointers that the list stores.\<close>

definition kt_compare :: "('k \<Rightarrow> 'k \<Rightarrow> int) \<Rightarrow> 'k \<times> nat \<Rightarrow> 'k \<times> nat \<Rightarrow> int" where
  "kt_compare cmp a b = cmp (fst a) (fst b)"

section \<open>State\<close>

text \<open>
  The counts and ids are 32-bit integers in the code.  They are natural numbers here: a block has at most 131072 records, each of which adds at most two ids to an index,
  and what the page stores of an id and of a count is cut to its width by the writers of the page.
\<close>

record keyChildInfo =
  subArray :: "nat list"
  arraySize :: nat
  cc_count :: nat

record 'k appendingIndex =
  m_index :: "('k \<times> nat) skiplist"
  ai_children :: "nat \<Rightarrow> keyChildInfo"
  ai_arrays :: nat
  m_allCount :: nat
  m_keyCount :: nat
  m_varSize :: nat

definition ai_new :: "'k \<Rightarrow> 'k appendingIndex" where
  "ai_new k0 = \<lparr>m_index = sl_new (k0, 0), ai_children = (\<lambda>_. \<lparr>subArray = [], arraySize = 0, cc_count = 0\<rparr>), ai_arrays = 0,
     m_allCount = 0, m_keyCount = 0, m_varSize = 0\<rparr>"

section \<open>Appending\<close>

text \<open>The growth of an array and the store of the id; fresh slots of the new array have no value yet, for which 0 stands.\<close>

definition push_id :: "keyChildInfo \<Rightarrow> nat \<Rightarrow> keyChildInfo" where
  "push_id c i =
     (let c = (if cc_count c \<ge> arraySize c
               then c\<lparr>subArray := take (arraySize c) (subArray c) @ replicate (arraySize c) 0, arraySize := arraySize c * 2\<rparr> else c)
      in c\<lparr>subArray := (subArray c)[cc_count c := i], cc_count := cc_count c + 1\<rparr>)"

definition push_child :: "'k appendingIndex \<Rightarrow> nat \<Rightarrow> nat \<Rightarrow> 'k appendingIndex" where
  "push_child x a i = x\<lparr>ai_children := (ai_children x)(a := push_id (ai_children x a) i)\<rparr>"

definition appendIndex :: "('k \<Rightarrow> 'k \<Rightarrow> int) \<Rightarrow> 'k appendingIndex \<Rightarrow> 'k \<Rightarrow> nat \<Rightarrow> (fault + bool \<times> 'k appendingIndex) option" where
  "appendIndex cmp x key i =
     (case iter_Seek (kt_compare cmp) (m_index x) (key, 0) of None \<Rightarrow> None | Some (Inl f) \<Rightarrow> Some (Inl f)
      | Some (Inr it) \<Rightarrow>
        (case (case it of None \<Rightarrow> None | Some n \<Rightarrow> (if cmp (fst (sl_key (m_index x) n)) key > 0 then None else Some n)) of
           None \<Rightarrow> let a = ai_arrays x in
             (case Insert (kt_compare cmp) (m_index x) (key, a) of None \<Rightarrow> None | Some (Inl f) \<Rightarrow> Some (Inl f)
              | Some (Inr l) \<Rightarrow> Some (Inr (True, push_child (x\<lparr>m_index := l, ai_children := (ai_children x)(a := \<lparr>subArray = [0], arraySize = 1, cc_count = 0\<rparr>),
                  ai_arrays := a + 1, m_keyCount := m_keyCount x + 1\<rparr>) a i)))
         | Some n \<Rightarrow> (if cmp key (fst (sl_key (m_index x) n)) \<noteq> 0 then Some (Inl AssertFailed)
             else Some (Inr (False, push_child x (snd (sl_key (m_index x) n)) i)))))"

text \<open>\<^verbatim>\<open>find\<close> returns the latest id, a \<^verbatim>\<open>uint32_t\<close>, as an \<^verbatim>\<open>int32_t\<close>.\<close>

definition int32 :: "nat \<Rightarrow> int" where "int32 i = sint (word_of_nat i :: 32 word)"

definition ai_find :: "('k \<Rightarrow> 'k \<Rightarrow> int) \<Rightarrow> 'k appendingIndex \<Rightarrow> 'k \<Rightarrow> (fault + int) option" where
  "ai_find cmp x key =
     (case iter_Seek (kt_compare cmp) (m_index x) (key, 0) of None \<Rightarrow> None | Some (Inl f) \<Rightarrow> Some (Inl f)
      | Some (Inr None) \<Rightarrow> Some (Inr (-1))
      | Some (Inr (Some n)) \<Rightarrow> (if cmp (fst (sl_key (m_index x) n)) key > 0 then Some (Inr (-1))
          else let c = ai_children x (snd (sl_key (m_index x) n)) in Some (Inr (int32 (subArray c ! (cc_count c - 1))))))"

text \<open>
  The functions of \<^verbatim>\<open>m_appendIndexFuncs\<close> for integers and byte strings, on a record: the key column, and for an update of
  the key also its old value.  \<open>read\<close> gives the key at an address.
\<close>

definition append_at :: "('k \<Rightarrow> 'k \<Rightarrow> int) \<Rightarrow> (nat \<Rightarrow> 'k) \<Rightarrow> ('k \<Rightarrow> nat) \<Rightarrow> 'k appendingIndex \<Rightarrow> nat option \<Rightarrow> nat \<Rightarrow> (fault + 'k appendingIndex) option" where
  "append_at cmp read varSize x a i =
     (case a of None \<Rightarrow> Some (Inl NullDeref)
      | Some a \<Rightarrow> map_option (\<lambda>r. sbind r (\<lambda>(new, x). Inr (if new then x\<lparr>m_varSize := m_varSize x + varSize (read a)\<rparr> else x)))
          (appendIndex cmp x (read a) i))"

definition appendIndexByType :: "COLUMN_TYPE \<Rightarrow> mem \<Rightarrow> unionKeyMeta \<Rightarrow> int appendingIndex \<Rightarrow> DMLRecord \<Rightarrow> nat \<Rightarrow> bool \<Rightarrow> (fault + int appendingIndex) option" where
  "appendIndexByType t m ukMeta x r i keyUpdate =
     (let c = unat (kc_columnId (uk_columnInfo ukMeta ! 0)); app = append_at keyComparator (key_int t m) (\<lambda>_. 0) in
      (case app x (dml_column m r c) i of None \<Rightarrow> None | Some (Inl f) \<Rightarrow> Some (Inl f)
       | Some (Inr x) \<Rightarrow> (if keyUpdate then (case oldColumnOfUpdateType m r c of Inl f \<Rightarrow> Some (Inl f) | Inr a \<Rightarrow> app x a i) else Some (Inr x))))"

definition appendBinaryIndex :: "mem \<Rightarrow> unionKeyMeta \<Rightarrow> u8 list appendingIndex \<Rightarrow> DMLRecord \<Rightarrow> nat \<Rightarrow> bool \<Rightarrow> (fault + u8 list appendingIndex) option" where
  "appendBinaryIndex m ukMeta x r i keyUpdate =
     (let c = unat (kc_columnId (uk_columnInfo ukMeta ! 0)); app = (\<lambda>sz. append_at keyComparator (\<lambda>a. read_bytes m a (unat (ucast sz :: u16))) length) in
      (case app (varColumnSize m r c) x (dml_column m r c) i of None \<Rightarrow> None | Some (Inl f) \<Rightarrow> Some (Inl f)
       | Some (Inr x) \<Rightarrow> (if keyUpdate
           then (case oldColumnOfUpdateType m r c of Inl f \<Rightarrow> Some (Inl f)
             | Inr a \<Rightarrow> (case oldVarColumnSizeOfUpdateType m r c of Inl f \<Rightarrow> Some (Inl f) | Inr sz \<Rightarrow> app sz x a i))
           else Some (Inr x))))"

text \<open>\<^verbatim>\<open>append\<close>, given the function of the type of the index.\<close>

definition ai_append :: "mem \<Rightarrow> unionKeyMeta \<Rightarrow> ('k appendingIndex \<Rightarrow> DMLRecord \<Rightarrow> nat \<Rightarrow> bool \<Rightarrow> (fault + 'k appendingIndex) option) \<Rightarrow>
    'k appendingIndex \<Rightarrow> DMLRecord \<Rightarrow> nat \<Rightarrow> (fault + 'k appendingIndex) option" where
  "ai_append m ukMeta func x r i =
     (let t = rd 1 m (dml_data r + H_type) in
      if t = RTYPE R_UPDATE \<or> t = RTYPE R_REPLACE
      then (case isKeyUpdated m r ukMeta of Inl f \<Rightarrow> Some (Inl f)
        | Inr b \<Rightarrow> map_option (\<lambda>r. sbind r (\<lambda>x. Inr (x\<lparr>m_allCount := m_allCount x + (if b then 2 else 1)\<rparr>))) (func x r i b))
      else map_option (\<lambda>r. sbind r (\<lambda>x. Inr (x\<lparr>m_allCount := m_allCount x + 1\<rparr>))) (func x r i False))"

section \<open>Conversion into a page\<close>

definition toSolidIndexSize :: "'k appendingIndex \<Rightarrow> nat \<Rightarrow> bool \<Rightarrow> nat" where
  "toSolidIndexSize x keySize fixed =
     (if fixed then solidIndexHead_size + (keySize + 4) * (1 + m_keyCount x) + 4 * m_allCount x + ((m_allCount x - m_keyCount x) div 0x7f) * 4
      else solidIndexHead_size + (keySize + 2 * 4) * (1 + m_keyCount x) + (2 + 4) * m_allCount x + m_varSize x)"

text \<open>What the iterator shows for every key from the first on, with as many steps as there are keys.\<close>

definition child_ids :: "keyChildInfo \<Rightarrow> nat list" where
  "child_ids c = take (cc_count c) (subArray c)"

definition ai_iterate :: "'k appendingIndex \<Rightarrow> ('k \<times> nat list) list option" where
  "ai_iterate x =
     (case iter_SeekToFirst (m_index x) of Inl f \<Rightarrow> None
      | Inr it \<Rightarrow> map_option (map (\<lambda>(k, a). (k, child_ids (ai_children x a)))) (sl_walk (m_keyCount x + 1) (m_index x) it))"

definition ai_toString :: "(mem \<Rightarrow> nat \<Rightarrow> nat \<Rightarrow> entry list \<Rightarrow> mem) \<Rightarrow> ('k \<Rightarrow> u8 list) \<Rightarrow> nat \<Rightarrow> bool \<Rightarrow> 'k appendingIndex \<Rightarrow> mem \<Rightarrow> nat \<Rightarrow> mem option" where
  "ai_toString create enc keySize fixed x m data =
     (case ai_iterate x of None \<Rightarrow> None | Some es \<Rightarrow>
        if es = [] then None
        else Some (create (zero_bytes m data (toSolidIndexSize x keySize fixed)) data (m_keyCount x) (map (\<lambda>(k, ids). (enc k, ids)) es)))"

text \<open>The bytes of an integer key, and the page of an index of integers.\<close>

definition enc_int :: "COLUMN_TYPE \<Rightarrow> int \<Rightarrow> u8 list" where
  "enc_int t k = le_bytes (col_size t) (nat (k mod 256 ^ col_size t))"

definition toString_int :: "COLUMN_TYPE \<Rightarrow> int appendingIndex \<Rightarrow> mem \<Rightarrow> nat \<Rightarrow> mem option" where
  "toString_int t = ai_toString (\<lambda>m data n es. createFixedSolidIndex m data n (TID t) (col_size t) es) (enc_int t) (col_size t) True"

definition toString_binary :: "COLUMN_TYPE \<Rightarrow> u8 list appendingIndex \<Rightarrow> mem \<Rightarrow> nat \<Rightarrow> mem option" where
  "toString_binary t = ai_toString (\<lambda>m data n es. createVarSolidIndex m data n (TID T_BINARY) es) (\<lambda>k. k) (col_size t) False"

section \<open>Invariant\<close>

definition child_ok :: "keyChildInfo \<Rightarrow> bool" where
  "child_ok c \<longleftrightarrow> 1 \<le> cc_count c \<and> cc_count c \<le> arraySize c \<and> length (subArray c) = arraySize c"

definition ai_inv :: "('k \<Rightarrow> 'k \<Rightarrow> int) \<Rightarrow> 'k appendingIndex \<Rightarrow> nat list \<Rightarrow> bool" where
  "ai_inv cmp x ns \<longleftrightarrow> sl_inv (kt_compare cmp) (m_index x) ns \<and> m_keyCount x = length ns \<and>
     distinct (map (snd \<circ> sl_key (m_index x)) ns) \<and> (\<forall>n \<in> set ns. snd (sl_key (m_index x) n) < ai_arrays x \<and> child_ok (ai_children x (snd (sl_key (m_index x) n))))"

text \<open>The keys with their record ids.\<close>

definition ai_contents :: "'k appendingIndex \<Rightarrow> nat list \<Rightarrow> ('k \<times> nat list) list" where
  "ai_contents x ns = map (\<lambda>n. (fst (sl_key (m_index x) n), child_ids (ai_children x (snd (sl_key (m_index x) n))))) ns"

lemma child_ids_push:
  assumes "child_ok c \<or> c = \<lparr>subArray = [0], arraySize = 1, cc_count = 0\<rparr>"
  shows "child_ok (push_id c i)" and "child_ids (push_id c i) = child_ids c @ [i]"
  using assms by (auto simp: push_id_def child_ok_def child_ids_def Let_def take_Suc_conv_app_nth nth_append)

lemma child_ids_last:
  assumes "child_ok c"
  shows "last (child_ids c) = subArray c ! (cc_count c - 1)"
proof -
  have "length (child_ids c) = cc_count c" "cc_count c > 0" using assms by (simp_all add: child_ids_def child_ok_def)
  then have "last (child_ids c) = child_ids c ! (cc_count c - 1)" by (metis last_conv_nth length_0_conv less_irrefl)
  then show ?thesis using \<open>cc_count c > 0\<close> by (simp add: child_ids_def)
qed

lemma kt_order: "key_order cmp \<Longrightarrow> key_order (kt_compare cmp)"
  by (auto simp: key_order_def kt_compare_def)

lemma ai_new_inv: "ai_inv cmp (ai_new k) []"
  by (simp add: ai_inv_def ai_new_def sl_new_inv)

section \<open>Appending refines the sorted list of keys\<close>

fun add_id :: "('k \<Rightarrow> 'k \<Rightarrow> int) \<Rightarrow> 'k \<Rightarrow> nat \<Rightarrow> ('k \<times> nat list) list \<Rightarrow> ('k \<times> nat list) list" where
  "add_id cmp key i [] = [(key, [i])]"
| "add_id cmp key i ((k, ids) # es) =
     (if cmp k key < 0 then (k, ids) # add_id cmp key i es else if cmp key k = 0 then (k, ids @ [i]) # es else (key, [i]) # (k, ids) # es)"

lemma add_id_append: "\<forall>e \<in> set xs. cmp (fst e) key < 0 \<Longrightarrow> add_id cmp key i (xs @ ys) = xs @ add_id cmp key i ys"
  by (induction xs) auto

lemma ai_contents_cong:
  assumes "\<And>n. n \<in> set ns \<Longrightarrow> sl_key (m_index x) n = sl_key (m_index y) n \<and>
      ai_children x (snd (sl_key (m_index y) n)) = ai_children y (snd (sl_key (m_index y) n))"
  shows "ai_contents x ns = ai_contents y ns"
  using assms by (simp add: ai_contents_def)

lemma distinct_middle: "distinct (xs @ ys) \<Longrightarrow> a \<notin> set (xs @ ys) \<Longrightarrow> distinct (xs @ a # ys)"
  by auto

lemma ai_contents_append: "ai_contents x (us @ vs) = ai_contents x us @ ai_contents x vs"
  by (simp add: ai_contents_def)

locale index_keys =
  fixes cmp :: "'k \<Rightarrow> 'k \<Rightarrow> int"
  assumes order: "key_order cmp"

sublocale index_keys \<subseteq> ord: key_order cmp
  by (rule order)

sublocale index_keys \<subseteq> kt: key_order "kt_compare cmp"
  by (rule kt_order [OF order])

context index_keys
begin

text \<open>The nodes below a key, a node that has the key, and the nodes after it.\<close>

lemma split_nodes:
  fixes key :: 'k
  assumes "ai_inv cmp x ns"
  defines "us \<equiv> kt.below (m_index x) (key, 0) ns" and "vs \<equiv> kt.rest (m_index x) (key, 0) ns"
  shows "ns = us @ vs" and "\<forall>n \<in> set us. cmp (fst (sl_key (m_index x) n)) key < 0" and "\<forall>n \<in> set vs. \<not> cmp (fst (sl_key (m_index x) n)) key < 0"
    and "iter_Seek (kt_compare cmp) (m_index x) (key, 0) = Some (Inr (case vs of [] \<Rightarrow> None | v # _ \<Rightarrow> Some v))"
    and "\<And>a. kt.below (m_index x) (key, a) ns = us" and "\<And>a. kt.rest (m_index x) (key, a) ns = vs"
    and "\<forall>e \<in> set (ai_contents x us). cmp (fst e) key < 0"
proof -
  have inv: "sl_inv (kt_compare cmp) (m_index x) ns" using assms(1) by (simp add: ai_inv_def)
  show "ns = us @ vs" by (simp add: us_def vs_def kt.below_rest)
  show b: "\<forall>n \<in> set us. cmp (fst (sl_key (m_index x) n)) key < 0" using kt.in_below unfolding us_def by (fastforce simp: kt_compare_def)
  show "\<forall>n \<in> set vs. \<not> cmp (fst (sl_key (m_index x) n)) key < 0" using kt.in_rest [OF inv] unfolding vs_def by (fastforce simp: kt_compare_def)
  show "iter_Seek (kt_compare cmp) (m_index x) (key, 0) = Some (Inr (case vs of [] \<Rightarrow> None | v # _ \<Rightarrow> Some v))" unfolding vs_def by (rule kt.seek [OF inv])
  show "kt.below (m_index x) (key, a) ns = us" "kt.rest (m_index x) (key, a) ns = vs" for a
    by (simp_all add: us_def vs_def kt.below_def kt.rest_def kt_compare_def)
  show "\<forall>e \<in> set (ai_contents x us). cmp (fst e) key < 0" using b by (auto simp: ai_contents_def)
qed

lemma append_existing:
  assumes inv: "ai_inv cmp x ns" and vs: "kt.rest (m_index x) (key, 0) ns = v # vs" and eq: "cmp key (fst (sl_key (m_index x) v)) = 0"
  shows "\<exists>x'. appendIndex cmp x key i = Some (Inr (False, x')) \<and> ai_inv cmp x' ns \<and> ai_contents x' ns = add_id cmp key i (ai_contents x ns) \<and>
    m_keyCount x' = m_keyCount x \<and> m_allCount x' = m_allCount x \<and> m_varSize x' = m_varSize x"
proof -
  note S = split_nodes [OF inv, of key]
  let ?us = "kt.below (m_index x) (key, 0) ns" and ?a = "snd (sl_key (m_index x) v)"
  define x' where "x' = push_child x ?a i"
  have ns: "ns = ?us @ v # vs" using S(1) vs by simp
  have "\<not> cmp (fst (sl_key (m_index x) v)) key > 0" using eq ord.cmp_zero_swap [of key "fst (sl_key (m_index x) v)"] by simp
  then have "appendIndex cmp x key i = Some (Inr (False, x'))" using S(4) vs eq by (simp add: appendIndex_def x'_def)
  moreover have idx: "m_index x' = m_index x" "ai_children x' = (ai_children x)(?a := push_id (ai_children x ?a) i)"
    "ai_arrays x' = ai_arrays x" "m_keyCount x' = m_keyCount x" by (simp_all add: x'_def push_child_def)
  have d: "distinct (map (snd \<circ> sl_key (m_index x)) (?us @ v # vs))" using inv unfolding ns [symmetric] by (simp add: ai_inv_def)
  then have ne: "snd (sl_key (m_index x) n) \<noteq> ?a" if "n \<in> set ?us \<or> n \<in> set vs" for n using that by (auto simp: image_iff)
  have vok: "child_ok (ai_children x ?a)" using inv ns by (metis (no_types, lifting) ai_inv_def in_set_conv_decomp)
  have "child_ok (ai_children x' b)" if "child_ok (ai_children x b)" for b using that child_ids_push(1) [of "ai_children x ?a" i] vok by (simp add: idx)
  then have "ai_inv cmp x' ns" using inv unfolding ai_inv_def idx(1,3,4) by blast
  moreover have "ai_contents x' ns = add_id cmp key i (ai_contents x ns)"
  proof -
    have "ai_contents x' ?us = ai_contents x ?us" "ai_contents x' vs = ai_contents x vs"
      using ne by (auto intro!: ai_contents_cong simp: idx)
    moreover have "ai_contents x' [v] = [(fst (sl_key (m_index x) v), child_ids (ai_children x ?a) @ [i])]"
      using child_ids_push(2) [of "ai_children x ?a" i] vok by (simp add: ai_contents_def idx)
    ultimately have "ai_contents x' (?us @ [v] @ vs) = add_id cmp key i (ai_contents x (?us @ [v] @ vs))"
      using add_id_append [of "ai_contents x ?us" cmp key i, OF S(7)] eq S(3) vs unfolding ai_contents_append by (simp add: ai_contents_def)
    then show ?thesis using ns by simp
  qed
  ultimately show ?thesis by (simp add: x'_def push_child_def)
qed

lemma append_new:
  assumes inv: "ai_inv cmp x ns" and vs: "case kt.rest (m_index x) (key, 0) ns of [] \<Rightarrow> True | v # vs \<Rightarrow> cmp key (fst (sl_key (m_index x) v)) < 0"
  shows "\<exists>x' ns'. appendIndex cmp x key i = Some (Inr (True, x')) \<and> ai_inv cmp x' ns' \<and> ai_contents x' ns' = add_id cmp key i (ai_contents x ns) \<and>
    m_keyCount x' = m_keyCount x + 1 \<and> m_allCount x' = m_allCount x \<and> m_varSize x' = m_varSize x"
proof -
  note S = split_nodes [OF inv, of key]
  let ?us = "kt.below (m_index x) (key, 0) ns" and ?vs = "kt.rest (m_index x) (key, 0) ns" and ?a = "ai_arrays x" and ?n = "sl_nodes (m_index x)"
  have sl: "sl_inv (kt_compare cmp) (m_index x) ns" using inv by (simp add: ai_inv_def)
  have fresh: "?n \<notin> set ns" using sl by (auto simp: sl_inv_def)
  have gt: "cmp key (fst (sl_key (m_index x) w)) < 0" if "w \<in> set ?vs" for w
  proof (cases ?vs)
    case (Cons v vs')
    have "cmp (fst (sl_key (m_index x) v)) (fst (sl_key (m_index x) w)) < 0 \<or> w = v"
      using sl_invD(7) [OF sl] that Cons S(1) by (metis (no_types, lifting) kt_compare_def set_ConsD sorted_wrt.simps(2) sorted_wrt_append)
    then show ?thesis using vs Cons ord.cmp_trans by auto
  qed (use that in simp)
  have new: "\<forall>n \<in> set ns. kt_compare cmp (key, ?a) (sl_key (m_index x) n) \<noteq> 0"
    using S(1,2) gt ord.cmp_swap by (metis (no_types, lifting) Un_iff fst_conv kt_compare_def less_irrefl set_append)
  from kt.insert_ok [OF sl new] obtain l where l: "Insert (kt_compare cmp) (m_index x) (key, ?a) = Some (Inr l)"
    "sl_inv (kt_compare cmp) l (?us @ ?n # ?vs)" "sl_key l = (sl_key (m_index x))(?n := (key, ?a))" unfolding S(5) [of ?a] S(6) [of ?a] by blast
  let ?c = "\<lparr>subArray = [0], arraySize = 1, cc_count = 0\<rparr>"
  define x' where "x' = push_child (x\<lparr>m_index := l, ai_children := (ai_children x)(?a := ?c), ai_arrays := ?a + 1, m_keyCount := m_keyCount x + 1\<rparr>) ?a i"
  have idx: "m_index x' = l" "ai_children x' = (ai_children x)(?a := push_id ?c i)" "ai_arrays x' = ?a + 1" "m_keyCount x' = m_keyCount x + 1"
    by (simp_all add: x'_def push_child_def)
  have "appendIndex cmp x key i = Some (Inr (True, x'))"
  proof (cases ?vs)
    case Nil
    then show ?thesis using S(4) l(1) by (simp add: appendIndex_def x'_def Let_def)
  next
    case (Cons v vs')
    then have "0 < cmp (fst (sl_key (m_index x) v)) key" using vs ord.cmp_swap by simp
    then show ?thesis using S(4) l(1) Cons by (simp add: appendIndex_def x'_def Let_def)
  qed
  moreover have old: "sl_key l n = sl_key (m_index x) n \<and> snd (sl_key (m_index x) n) < ?a \<and> child_ok (ai_children x (snd (sl_key (m_index x) n)))" if "n \<in> set ns" for n
    using that fresh inv by (auto simp: l(3) ai_inv_def)
  have ai: "ai_inv cmp x' (?us @ ?n # ?vs)"
  proof -
    have "distinct (map (snd \<circ> sl_key (m_index x)) ns)" using inv by (simp add: ai_inv_def)
    moreover have keq: "map (snd \<circ> sl_key l) us = map (snd \<circ> sl_key (m_index x)) us" if "set us \<subseteq> set ns" for us using that old by auto
    have sub: "set ?us \<subseteq> set ns" "set ?vs \<subseteq> set ns" using S(1) by (metis Un_upper1 set_append, metis Un_upper2 set_append)
    moreover have "?a \<notin> (snd \<circ> sl_key (m_index x)) ` set ns" using old by fastforce
    ultimately have "distinct (map (snd \<circ> sl_key (m_index x)) ?us @ ?a # map (snd \<circ> sl_key (m_index x)) ?vs)"
      using arg_cong [OF S(1), of "map (snd \<circ> sl_key (m_index x))"] by (intro distinct_middle) (metis map_append, metis image_set map_append)
    moreover have an: "(snd \<circ> sl_key l) ?n = ?a" by (simp add: l(3))
    ultimately have "distinct (map (snd \<circ> sl_key l) (?us @ ?n # ?vs))"
      unfolding map_append list.map(2) keq [OF sub(1)] keq [OF sub(2)] an by blast
    moreover have "length (?us @ ?n # ?vs) = length ns + 1" using S(1) by (metis add.commute length_Cons length_append plus_1_eq_Suc add_Suc_right)
    moreover have "\<forall>n \<in> set (?us @ ?n # ?vs). snd (sl_key l n) < ?a + 1 \<and> child_ok (ai_children x' (snd (sl_key l n)))"
    proof
      fix n assume "n \<in> set (?us @ ?n # ?vs)"
      then consider "n = ?n" | "n \<in> set ns" using sub by auto
      then show "snd (sl_key l n) < ?a + 1 \<and> child_ok (ai_children x' (snd (sl_key l n)))"
      proof cases
        case 1
        then show ?thesis using child_ids_push(1) [of ?c i] by (simp add: l(3) idx)
      next
        case 2
        then show ?thesis using old [of n] by (auto simp: idx)
      qed
    qed
    ultimately show ?thesis using l(2) inv by (simp add: ai_inv_def idx)
  qed
  moreover have "ai_contents x' (?us @ ?n # ?vs) = add_id cmp key i (ai_contents x ns)"
  proof -
    have sub: "set ?us \<subseteq> set ns" "set ?vs \<subseteq> set ns" using S(1) by (metis Un_upper1 set_append, metis Un_upper2 set_append)
    have "ai_contents x' us = ai_contents x us" if "set us \<subseteq> set ns" for us
    proof (rule ai_contents_cong)
      fix n assume "n \<in> set us"
      then show "sl_key (m_index x') n = sl_key (m_index x) n \<and>
          ai_children x' (snd (sl_key (m_index x) n)) = ai_children x (snd (sl_key (m_index x) n))"
        using old [of n] that by (auto simp: idx)
    qed
    moreover have "ai_contents x' [?n] = [(key, [i])]" using child_ids_push(2) [of ?c i] by (simp add: ai_contents_def idx l(3) child_ids_def)
    moreover have "add_id cmp key i (ai_contents x ?vs) = (key, [i]) # ai_contents x ?vs"
    proof (cases ?vs)
      case (Cons v vs')
      then have "cmp key (fst (sl_key (m_index x) v)) < 0" "\<not> cmp (fst (sl_key (m_index x) v)) key < 0" using vs S(3) by auto
      then show ?thesis using Cons by (simp add: ai_contents_def)
    qed (simp add: ai_contents_def)
    ultimately have "ai_contents x' (?us @ [?n] @ ?vs) = add_id cmp key i (ai_contents x (?us @ ?vs))"
      using add_id_append [of "ai_contents x ?us" cmp key i, OF S(7)] sub unfolding ai_contents_append by simp
    then show ?thesis using S(1) by simp
  qed
  ultimately show ?thesis by (intro exI [of _ x'] exI [of _ "?us @ ?n # ?vs"]) (simp add: x'_def push_child_def)
qed

lemma append_ok:
  assumes inv: "ai_inv cmp x ns"
  shows "\<exists>new x' ns'. appendIndex cmp x key i = Some (Inr (new, x')) \<and> ai_inv cmp x' ns' \<and> ai_contents x' ns' = add_id cmp key i (ai_contents x ns) \<and>
    m_keyCount x' = m_keyCount x + (if new then 1 else 0) \<and> m_allCount x' = m_allCount x \<and> m_varSize x' = m_varSize x"
proof (cases "kt.rest (m_index x) (key, 0) ns")
  case Nil
  then show ?thesis using append_new [OF inv, of key i] by fastforce
next
  case (Cons v vs)
  have "\<not> cmp (fst (sl_key (m_index x) v)) key < 0" using split_nodes(3) [OF inv, of key] Cons by simp
  then consider "cmp key (fst (sl_key (m_index x) v)) = 0" | "cmp key (fst (sl_key (m_index x) v)) < 0"
    using ord.cmp_swap [of key "fst (sl_key (m_index x) v)"] ord.cmp_zero_swap [of key "fst (sl_key (m_index x) v)"] by linarith
  then show ?thesis
  proof cases
    case 1
    then show ?thesis using append_existing [OF inv Cons, of i] by fastforce
  next
    case 2
    then show ?thesis using append_new [OF inv, of key i] Cons by fastforce
  qed
qed

end

interpretation lin_index: index_keys "keyComparator :: 'a::linorder \<Rightarrow> 'a \<Rightarrow> int"
  by unfold_locales

section \<open>The list refines a sorted sequence\<close>

text \<open>
  C7: For every comparison that orders its keys, inserting keys that are pairwise different, in any order and with whatever heights the
  generator draws, ends without a fault or an endless search; afterwards the iterator enumerates exactly those keys in ascending
  order, \<^verbatim>\<open>Contains\<close> is membership and \<^verbatim>\<open>Seek\<close> stops at the first key that is not smaller than its target.
\<close>

theorem skiplist_refines_sorted_list:
  assumes "key_order cmp" and "sorted_wrt (\<lambda>a b. cmp a b \<noteq> 0) ks"
  shows "\<exists>s xs. insert_all cmp (sl_new k0) ks = Some (Inr s) \<and> mset xs = mset ks \<and> sorted_wrt (\<lambda>a b. cmp a b < 0) xs \<and>
    (\<exists>it. iter_SeekToFirst s = Inr it \<and> sl_walk (length xs + 1) s it = Some xs) \<and>
    (\<forall>k. Contains cmp s k = Some (Inr (\<exists>x \<in> set xs. cmp k x = 0))) \<and>
    (\<forall>k. \<exists>it. iter_Seek cmp s k = Some (Inr it) \<and> sl_walk (length xs + 1) s it = Some (dropWhile (\<lambda>x. cmp x k < 0) xs))"
  by (rule key_order.refines [OF assms])

theorem skiplist_refines_sorted_list_witness:
  "\<exists>s. insert_all keyComparator (sl_new 0) [5, 3, 8 :: int] = Some (Inr s) \<and> Contains keyComparator s 3 = Some (Inr True) \<and>
    Contains keyComparator s 4 = Some (Inr False)"
proof -
  have "sorted_wrt (\<lambda>a b. keyComparator a b \<noteq> 0) [5, 3, 8 :: int]" by (simp add: keyComparator_def)
  from skiplist_refines_sorted_list [OF lin.key_order_axioms this, of 0] obtain s xs where
    "insert_all keyComparator (sl_new 0) [5, 3, 8 :: int] = Some (Inr s)" "mset xs = mset [5, 3, 8]"
    "\<forall>k. Contains keyComparator s k = Some (Inr (\<exists>x \<in> set xs. keyComparator k x = 0))" by blast
  moreover from this(2) have "set xs = set [5, 3, 8]" by (metis set_mset_mset)
  ultimately show ?thesis by (auto simp: keyComparator_def)
qed

section \<open>The ids of a key\<close>

fun append_all :: "('k \<Rightarrow> 'k \<Rightarrow> int) \<Rightarrow> 'k appendingIndex \<Rightarrow> ('k \<times> nat) list \<Rightarrow> (fault + 'k appendingIndex) option" where
  "append_all cmp x [] = Some (Inr x)"
| "append_all cmp x ((k, i) # ops) = (case appendIndex cmp x k i of None \<Rightarrow> None | Some (Inl f) \<Rightarrow> Some (Inl f) 
      | Some (Inr (_, x)) \<Rightarrow> append_all cmp (x\<lparr>m_allCount := m_allCount x + 1\<rparr>) ops)"

definition ids_of :: "('k \<times> nat) list \<Rightarrow> 'k \<Rightarrow> nat list option" where
  "ids_of ops k = (let ids = map snd (filter (\<lambda>p. fst p = k) ops) in if ids = [] then None else Some ids)"

lemma add_id_map_of:
  fixes es :: "('k::linorder \<times> nat list) list"
  assumes "sorted_wrt (<) (map fst es)"
  shows "map_of (add_id keyComparator key i es) = (map_of es)(key \<mapsto> (case map_of es key of None \<Rightarrow> [] | Some ids \<Rightarrow> ids) @ [i]) \<and>
    sorted_wrt (<) (map fst (add_id keyComparator key i es)) \<and> fst ` set (add_id keyComparator key i es) = insert key (fst ` set es)"
  using assms
proof (induction es)
  case (Cons e es)
  obtain k ids where e: "e = (k, ids)" by (cases e)
  have s: "sorted_wrt (<) (map fst es)" "\<forall>k' \<in> fst ` set es. k < k'" using Cons.prems e by auto
  have IH: "map_of (add_id keyComparator key i es) = (map_of es)(key \<mapsto> (case map_of es key of None \<Rightarrow> [] | Some ids \<Rightarrow> ids) @ [i])"
    "sorted_wrt (<) (map fst (add_id keyComparator key i es))" "fst ` set (add_id keyComparator key i es) = insert key (fst ` set es)"
    using Cons.IH [OF s(1)] by blast+
  consider "k < key" | "k = key" | "key < k" by (rule linorder_cases)
  then show ?case
  proof cases
    case 1
    then have r: "add_id keyComparator key i (e # es) = e # add_id keyComparator key i es" using e by (simp add: keyComparator_def)
    have "\<forall>k' \<in> fst ` set (add_id keyComparator key i es). k < k'" using s(2) 1 unfolding IH(3) by auto
    then have "sorted_wrt (<) (map fst (e # add_id keyComparator key i es))" using IH(2) e by simp
    moreover have "map_of (e # add_id keyComparator key i es) = (map_of (e # es))(key \<mapsto> (case map_of (e # es) key of None \<Rightarrow> [] | Some ids \<Rightarrow> ids) @ [i])"
      using less_imp_neq [OF 1] by (auto simp: e IH(1) fun_upd_twist)
    moreover have "fst ` set (e # add_id keyComparator key i es) = insert key (fst ` set (e # es))" by (simp add: IH(3) insert_commute)
    ultimately show ?thesis unfolding r by blast
  next
    case 2
    then have r: "add_id keyComparator key i (e # es) = (k, ids @ [i]) # es" using e by (simp add: keyComparator_def)
    show ?thesis unfolding r using Cons.prems e 2 by (simp add: fun_eq_iff)
  next
    case 3
    then have r: "add_id keyComparator key i (e # es) = (key, [i]) # e # es" using e by (auto simp: keyComparator_def)
    have "map_of es key = None" using s(2) 3 by (auto simp: map_of_eq_None_iff)
    then have "map_of (e # es) key = None" using 3 e by simp
    then show ?thesis unfolding r using Cons.prems s(2) 3 e by auto
  qed
qed simp

lemma allCount_irrelevant [simp]: "ai_inv cmp (x\<lparr>m_allCount := c\<rparr>) ns = ai_inv cmp x ns" "ai_contents (x\<lparr>m_allCount := c\<rparr>) ns = ai_contents x ns"
  by (simp_all add: ai_inv_def ai_contents_def)

lemma appendIndex_allCount: "appendIndex cmp x k i = Some (Inr (b, x')) \<Longrightarrow> m_allCount x' = m_allCount x"
  by (auto simp: appendIndex_def push_child_def Let_def split: option.splits sum.splits if_splits)

lemma append_all_allCount: "append_all cmp x ops = Some (Inr x') \<Longrightarrow> m_allCount x' = m_allCount x + length ops"
  by (induction cmp x ops rule: append_all.induct)
    (auto simp: appendIndex_allCount split: option.splits sum.splits)

lemma append_all_ok:
  fixes x :: "'k::linorder appendingIndex"
  assumes "ai_inv keyComparator x ns" and "sorted_wrt (<) (map fst (ai_contents x ns))"
  shows "\<exists>x' ns'. append_all keyComparator x ops = Some (Inr x') \<and> ai_inv keyComparator x' ns' \<and> sorted_wrt (<) (map fst (ai_contents x' ns')) \<and>
    (\<forall>k. map_of (ai_contents x' ns') k = (let ids = (case map_of (ai_contents x ns) k of None \<Rightarrow> [] | Some ids \<Rightarrow> ids) @ map snd (filter (\<lambda>p. fst p = k) ops)
      in if k \<in> fst ` set (ai_contents x ns) \<union> fst ` set ops then Some ids else None)) \<and>
    fst ` set (ai_contents x' ns') = fst ` set (ai_contents x ns) \<union> fst ` set ops"
  using assms
proof (induction ops arbitrary: x ns)
  case Nil
  then show ?case by (auto simp: Let_def map_of_eq_None_iff dest: map_of_SomeD split: option.splits)
next
  case (Cons op ops)
  obtain key i where op: "op = (key, i)" by (cases op)
  obtain new x1 ns1 where x1: "appendIndex keyComparator x key i = Some (Inr (new, x1))" "ai_inv keyComparator x1 ns1"
    "ai_contents x1 ns1 = add_id keyComparator key i (ai_contents x ns)" using lin_index.append_ok [OF Cons.prems(1), of key i] by blast
  have A: "map_of (ai_contents x1 ns1) = (map_of (ai_contents x ns))(key \<mapsto> (case map_of (ai_contents x ns) key of None \<Rightarrow> [] | Some ids \<Rightarrow> ids) @ [i])"
    "sorted_wrt (<) (map fst (ai_contents x1 ns1))" "fst ` set (ai_contents x1 ns1) = insert key (fst ` set (ai_contents x ns))"
    using add_id_map_of [OF Cons.prems(2), of key i, folded x1(3)] by blast+
  let ?x1 = "x1\<lparr>m_allCount := m_allCount x1 + 1\<rparr>"
  from Cons.IH [of ?x1 ns1] x1(2) A(2) obtain x' ns' where x': "append_all keyComparator ?x1 ops = Some (Inr x')" "ai_inv keyComparator x' ns'"
    "sorted_wrt (<) (map fst (ai_contents x' ns'))"
    "\<forall>k. map_of (ai_contents x' ns') k = (let ids = (case map_of (ai_contents x1 ns1) k of None \<Rightarrow> [] | Some ids \<Rightarrow> ids) @ map snd (filter (\<lambda>p. fst p = k) ops)
      in if k \<in> fst ` set (ai_contents x1 ns1) \<union> fst ` set ops then Some ids else None)"
    "fst ` set (ai_contents x' ns') = fst ` set (ai_contents x1 ns1) \<union> fst ` set ops" by auto
  show ?case using x1(1) x' op unfolding A(1,3) by (intro exI [of _ x'] exI [of _ ns']) (auto simp: Let_def)
qed

lemma append_all_contents:
  fixes k0 :: "'k::linorder"
  shows "\<exists>x ns. append_all keyComparator (ai_new k0) ops = Some (Inr x) \<and> ai_inv keyComparator x ns \<and> sorted_wrt (<) (map fst (ai_contents x ns)) \<and>
    (\<forall>k. map_of (ai_contents x ns) k = ids_of ops k)"
proof -
  have 0: "ai_contents (ai_new k0) [] = []" by (simp add: ai_contents_def)
  have f: "filter (\<lambda>p. fst p = k) ops = [] \<longleftrightarrow> k \<notin> fst ` set ops" for k by (auto simp: filter_empty_conv)
  obtain x ns where x: "append_all keyComparator (ai_new k0) ops = Some (Inr x)" "ai_inv keyComparator x ns" "sorted_wrt (<) (map fst (ai_contents x ns))"
    "\<forall>k. map_of (ai_contents x ns) k = (if k \<in> fst ` set ops then Some (map snd (filter (\<lambda>p. fst p = k) ops)) else None)"
    using append_all_ok [OF ai_new_inv [of keyComparator k0], of ops] unfolding 0 by (auto simp: Let_def)
  moreover have "(if k \<in> fst ` set ops then Some (map snd (filter (\<lambda>p. fst p = k) ops)) else None) = ids_of ops k" for k
    using f [of k] by (auto simp: ids_of_def Let_def)
  ultimately show ?thesis by auto
qed

lemma iterate_contents:
  assumes "ai_inv cmp x ns"
  shows "ai_iterate x = Some (ai_contents x ns)"
proof -
  have sl: "sl_inv (kt_compare cmp) (m_index x) ns" and n: "m_keyCount x = length ns" using assms by (simp_all add: ai_inv_def)
  have "iter_SeekToFirst (m_index x) = Inr (case ns of [] \<Rightarrow> None | n # _ \<Rightarrow> Some n)"
    using chain_head [OF sl_level0 [OF sl]] sl_invD(3) [OF sl] by (simp add: iter_SeekToFirst_def node_Next_def kMaxHeight_def)
  then show ?thesis using sl_walk_suffix [of _ "m_index x" "[]" ns "m_keyCount x + 1"] sl n
    by (auto simp: ai_iterate_def ai_contents_def split_beta)
qed

lemma int32_small: "i < 2 ^ 31 \<Longrightarrow> int32 i = int i"
  by (simp add: int32_def signed_take_bit_int_eq_self sint_uint unsigned_of_nat take_bit_nat_eq_self)

lemma find_contents:
  fixes x :: "'k::linorder appendingIndex"
  assumes inv: "ai_inv keyComparator x ns" and srt: "sorted_wrt (<) (map fst (ai_contents x ns))"
  shows "ai_find keyComparator x key = Some (Inr (case map_of (ai_contents x ns) key of None \<Rightarrow> -1 | Some ids \<Rightarrow> int32 (last ids)))"
proof -
  note S = lin_index.split_nodes [OF inv, of key]
  let ?us = "lin_index.kt.below (m_index x) (key, 0) ns" and ?vs = "lin_index.kt.rest (m_index x) (key, 0) ns"
  have us: "key \<notin> fst ` set (ai_contents x ?us)" using S(7) by (auto simp: keyComparator_def)
  then have "map_of (ai_contents x ?us) key = None" by (simp add: map_of_eq_None_iff)
  then have m: "map_of (ai_contents x ns) key = map_of (ai_contents x ?vs) key"
    by (subst S(1)) (simp add: ai_contents_append map_add_def split: option.splits)
  show ?thesis
  proof (cases ?vs)
    case Nil
    then show ?thesis using m S(4) by (simp add: ai_find_def ai_contents_def)
  next
    case (Cons v vs)
    let ?k = "fst (sl_key (m_index x) v)" and ?c = "ai_children x (snd (sl_key (m_index x) v))"
    have ge: "key \<le> ?k" using S(3) Cons by (auto simp: keyComparator_def split: if_splits)
    have "v \<in> set ns" using S(1) Cons by (metis in_set_conv_decomp)
    then have ok: "child_ok ?c" using inv by (simp add: ai_inv_def)
    then have last: "last (child_ids ?c) = subArray ?c ! (cc_count ?c - 1)" by (rule child_ids_last)
    have "sorted_wrt (<) (map fst (ai_contents x ?us @ ai_contents x (v # vs)))" using srt S(1) Cons by (metis ai_contents_append)
    then have gt: "\<forall>e \<in> set (ai_contents x vs). ?k < fst e" by (simp add: ai_contents_def sorted_wrt_append)
    show ?thesis
    proof (cases "?k = key")
      case True
      then show ?thesis using m S(4) Cons last by (simp add: ai_find_def ai_contents_def keyComparator_def Let_def)
    next
      case False
      then have lt: "key < ?k" using ge by auto
      then have "map_of (ai_contents x vs) key = None" using gt by (force simp: map_of_eq_None_iff)
      moreover have "\<not> ?k < key" using lt by (rule less_not_sym)
      ultimately show ?thesis using m S(4) Cons lt False by (simp add: ai_find_def ai_contents_def keyComparator_def)
    qed
  qed
qed

text \<open>
  C8: An index that starts empty and is given pairs of a key and a record id, in any order, enumerates the different keys in ascending order, each with
  exactly the ids given for it in the order they came; \<^verbatim>\<open>find\<close> is the latest id of a key converted to a signed 32-bit integer, or -1 for a key that never came,
  and the number of keys is right.  Arrays that are full are grown without losing an id.
\<close>

theorem appendingIndex_collects_ids:
  "\<exists>x es. append_all keyComparator (ai_new k0) ops = Some (Inr x) \<and> ai_iterate x = Some es \<and> sorted_wrt (<) (map fst es) \<and>
    (\<forall>k. map_of es k = ids_of ops k) \<and> m_keyCount x = length es \<and>
    (\<forall>k. ai_find keyComparator x k = Some (Inr (case ids_of ops k of None \<Rightarrow> -1 | Some ids \<Rightarrow> int32 (last ids))))"
proof -
  obtain x ns where x: "append_all keyComparator (ai_new k0) ops = Some (Inr x)" "ai_inv keyComparator x ns" "sorted_wrt (<) (map fst (ai_contents x ns))"
    "\<forall>k. map_of (ai_contents x ns) k = ids_of ops k" using append_all_contents [of k0 ops] by blast
  moreover have "m_keyCount x = length (ai_contents x ns)" using x(2) by (simp add: ai_inv_def ai_contents_def)
  ultimately show ?thesis using iterate_contents [OF x(2)] find_contents [OF x(2,3)] by (intro exI [of _ x] exI [of _ "ai_contents x ns"]) simp
qed

section \<open>From appended records to lookups in the page\<close>

definition signed_types :: "COLUMN_TYPE set" where
  "signed_types = {T_INT8, T_INT16, T_YEAR, T_INT32, T_DATE, T_INT64, T_DATETIME, T_TIME}"

definition int_range :: "COLUMN_TYPE \<Rightarrow> int set" where
  "int_range t = (if t \<in> signed_types then {- (256 ^ col_size t div 2) ..< 256 ^ col_size t div 2} else {0 ..< 256 ^ col_size t})"

lemma rd_own_bytes: "length kb = n \<Longrightarrow> rd n (\<lambda>i. kb ! i) 0 = le_val kb"
  by (auto simp: rd_def intro!: arg_cong [of _ _ le_val] nth_equalityI)

lemma sval_mod:
  assumes "- (256 ^ n div 2) \<le> k" and "k < 256 ^ n div 2" and "0 < n"
  shows "sval n (nat (k mod 256 ^ n)) = k"
proof -
  have "even (256 ^ n :: int)" using assms(3) by simp
  then obtain H :: int where H: "256 ^ n = 2 * H" by (rule evenE)
  have "2 * nat v < 256 ^ n \<longleftrightarrow> v < H" if "0 \<le> v" for v
  proof -
    have "2 * nat v < 256 ^ n \<longleftrightarrow> int (2 * nat v) < int (256 ^ n)" by (rule of_nat_less_iff [symmetric])
    also have "\<dots> \<longleftrightarrow> v < H" using that H by simp
    finally show ?thesis .
  qed
  moreover have "k mod (2 * H) = (if 0 \<le> k then k else k + 2 * H)"
  proof (cases "0 \<le> k")
    case False
    have "(k + 2 * H) mod (2 * H) = k + 2 * H" using False assms(1) H by (intro mod_pos_pos_trivial) auto
    then show ?thesis using False by simp
  qed (use assms(2) H in auto)
  moreover have "-H \<le> k" "k < H" using assms(1,2) H by auto
  ultimately show ?thesis unfolding H by auto
qed

lemma time_sizes: "col_size T_DATETIME = 8" "col_size T_TIMESTAMP = 8" "col_size T_DATE = 4" "col_size T_YEAR = 2" "col_size T_TIME = 8"
  by (simp_all add: col_size_def columnInfos_def)

lemma key_int_signed:
  assumes "t \<in> int_types"
  shows "key_int t m a = (if t \<in> signed_types then sval (col_size t) (rd (col_size t) m a) else int (rd (col_size t) m a))"
  using assms by (cases t) (simp_all add: int_types_def signed_types_def time_sizes del: rd_1)

lemma bytes_int_enc:
  assumes "t \<in> int_types" and "k \<in> int_range t"
  shows "bytes_int t (enc_int t k) = k" and "length (enc_int t k) = col_size t"
proof -
  show "length (enc_int t k) = col_size t" by (simp add: enc_int_def)
  have r: "rd (col_size t) (\<lambda>i. enc_int t k ! i) 0 = nat (k mod 256 ^ col_size t)"
    by (simp add: rd_own_bytes enc_int_def le_val_le_bytes nat_less_iff)
  have c: "bytes_int t (enc_int t k) = (if t \<in> signed_types then sval (col_size t) (nat (k mod 256 ^ col_size t)) else int (nat (k mod 256 ^ col_size t)))"
    unfolding bytes_int_def key_int_signed [OF assms(1)] r by (rule refl)
  have "0 < col_size t" using assms(1) by (auto simp: int_types_def col_size_def columnInfos_def)
  then show "bytes_int t (enc_int t k) = k" using assms(2) unfolding c int_range_def
    by (cases "t \<in> signed_types") (auto simp: sval_mod)
qed

text \<open>The ids of all the keys together are those that were given.\<close>

lemma sum_counts:
  assumes "distinct ks" and "fst ` set ops \<subseteq> set ks"
  shows "sum_list (map (\<lambda>k. length (filter (\<lambda>p. fst p = k) ops)) ks) = length ops"
  using assms(2)
proof (induction ops)
  case (Cons op ops)
  have "sum_list (map (\<lambda>k. if fst op = k then 1 else 0) ks) = (1 :: nat)"
    using Cons.prems assms(1) by (simp add: sum_list_distinct_conv_sum_set)
  moreover have "(\<lambda>k. length (filter (\<lambda>p. fst p = k) (op # ops))) =
      (\<lambda>k. (if fst op = k then 1 else 0) + length (filter (\<lambda>p. fst p = k) ops))" by auto
  ultimately show ?case using Cons by (simp only: sum_list_addf) simp
qed simp

lemma contents_facts:
  fixes es :: "('k::linorder \<times> nat list) list"
  assumes "sorted_wrt (<) (map fst es)" and "\<forall>k. map_of es k = ids_of ops k"
  shows "(k, ids) \<in> set es \<Longrightarrow> ids = map snd (filter (\<lambda>p. fst p = k) ops) \<and> ids \<noteq> []" and "fst ` set es = fst ` set ops"
    and "sum_list (map (length \<circ> snd) es) = length ops"
proof -
  have d: "distinct (map fst es)" using assms(1) strict_sorted_iff by blast
  show ids: "ids = map snd (filter (\<lambda>p. fst p = k) ops) \<and> ids \<noteq> []" if "(k, ids) \<in> set es" for k ids
    using map_of_is_SomeI [OF d that] assms(2) [rule_format, of k] by (auto simp: ids_of_def Let_def split: if_splits)
  have "k \<in> fst ` set es \<longleftrightarrow> k \<in> fst ` set ops" for k
    using map_of_eq_None_iff [of es k] assms(2) [rule_format, of k] by (force simp: ids_of_def Let_def filter_empty_conv split: if_splits)
  then show keys: "fst ` set es = fst ` set ops" by blast
  have "map (length \<circ> snd) es = map (\<lambda>k. length (filter (\<lambda>p. fst p = k) ops)) (map fst es)" using ids by fastforce
  also have "sum_list \<dots> = length ops" by (rule sum_counts [OF d]) (simp add: keys)
  finally show "sum_list (map (length \<circ> snd) es) = length ops" .
qed

lemma exts_length: "\<forall>e \<in> set es. snd e \<noteq> [] \<Longrightarrow> length (exts es) \<le> 8 * sum_list (map (length \<circ> snd) es)"
  by (induction es) (auto simp: exts_def ext_bytes_def Suc_le_eq)

text \<open>What the page of an index of integers needs holds whenever the keys are of the type of the column and there are not too many records.\<close>

definition int_ops :: "COLUMN_TYPE \<Rightarrow> (int \<times> nat) list \<Rightarrow> bool" where
  "int_ops t ops \<longleftrightarrow> t \<in> int_types \<and> ops \<noteq> [] \<and> length ops \<le> 800000 \<and> (\<forall>(k, i) \<in> set ops. k \<in> int_range t \<and> i < 2 ^ 24)"

definition int_entries :: "COLUMN_TYPE \<Rightarrow> (int \<times> nat list) list \<Rightarrow> entry list" where
  "int_entries t es = map (\<lambda>(k, ids). (enc_int t k, ids)) es"

lemma int_entries_ok:
  assumes "int_ops t ops" and "sorted_wrt (<) (map fst es)" and "\<forall>k. map_of es k = ids_of ops k"
  shows "fixed_ok (col_size t) (int_entries t es)" and "map (bytes_int t \<circ> fst) (int_entries t es) = map fst es"
    and "map (\<lambda>(k, v). (bytes_int t k, v)) (int_entries t es) = es" and "es \<noteq> []"
proof -
  note facts = contents_facts [OF assms(2,3)]
  have t: "t \<in> int_types" using assms(1) by (simp add: int_ops_def)
  have k: "fst e \<in> int_range t" if "e \<in> set es" for e
    using that facts(2) assms(1) by (fastforce simp: int_ops_def)
  have enc: "bytes_int t (enc_int t (fst e)) = fst e" "length (enc_int t (fst e)) = col_size t" if "e \<in> set es" for e
    using bytes_int_enc [OF t k [OF that]] by blast+
  show "es \<noteq> []" using facts(2) assms(1) by (auto simp: int_ops_def)
  show "map (bytes_int t \<circ> fst) (int_entries t es) = map fst es" using enc by (simp add: int_entries_def split_beta)
  show "map (\<lambda>(k, v). (bytes_int t k, v)) (int_entries t es) = es" using enc by (auto simp: int_entries_def split_beta intro: map_idI)
  have ids: "snd e \<noteq> [] \<and> (\<forall>i \<in> set (snd e). i < 2 ^ 24)" if "e \<in> set es" for e
  proof -
    have "snd e = map snd (filter (\<lambda>p. fst p = fst e) ops)" "snd e \<noteq> []" using facts(1) [of "fst e" "snd e"] that by auto
    then show ?thesis using assms(1) by (auto simp: int_ops_def)
  qed
  have ne: "\<forall>e \<in> set (int_entries t es). snd e \<noteq> []" using ids by (auto simp: int_entries_def)
  have "sum_list (map (length \<circ> snd) (int_entries t es)) = length ops" using facts(3) by (simp add: int_entries_def comp_def split_beta)
  then have "length (exts (int_entries t es)) \<le> 8 * length ops" using exts_length [OF ne] by simp
  moreover have "length es \<le> length ops"
  proof -
    have "length es = card (fst ` set es)" using assms(2) strict_sorted_iff by (metis distinct_card length_map set_map)
    then show ?thesis unfolding facts(2) by (metis card_length length_map set_map)
  qed
  moreover have "col_size t \<le> 8" using t by (auto simp: int_types_def time_sizes)
  ultimately have "fixed_page_size (col_size t) (int_entries t es) \<le> 12 + 12 * (800000 + 1) + 8 * 800000"
    using mult_le_mono [of "col_size t + 4" 12 "length es + 1" "800001"] assms(1) by (simp add: fixed_page_size_def int_entries_def int_ops_def)
  then show "fixed_ok (col_size t) (int_entries t es)"
    using \<open>col_size t \<le> 8\<close> ids enc(2) by (force simp: fixed_ok_def int_entries_def)
qed

lemma append_to_page:
  assumes "int_ops t ops"
  shows "\<exists>x es. append_all keyComparator (ai_new 0) ops = Some (Inr x) \<and> ai_iterate x = Some es \<and> sorted_wrt (<) (map fst es) \<and>
    (\<forall>k. map_of es k = ids_of ops k) \<and> m_keyCount x = length es \<and> m_allCount x = length ops \<and>
    toString_int t x m data = Some (createFixedSolidIndex (zero_bytes m data (toSolidIndexSize x (col_size t) True)) data (length (int_entries t es))
      (TID t) (col_size t) (int_entries t es))"
proof -
  obtain x ns where x: "append_all keyComparator (ai_new 0) ops = Some (Inr x)" "ai_inv keyComparator x ns" "sorted_wrt (<) (map fst (ai_contents x ns))"
    "\<forall>k. map_of (ai_contents x ns) k = ids_of ops k" using append_all_contents [of 0 ops] by blast
  have n: "m_keyCount x = length (ai_contents x ns)" using x(2) by (simp add: ai_inv_def ai_contents_def)
  have "m_allCount x = length ops" using append_all_allCount [OF x(1)] by (simp add: ai_new_def)
  then show ?thesis using x iterate_contents [OF x(2)] n int_entries_ok(4) [OF assms x(3,4)]
    by (intro exI [of _ x] exI [of _ "ai_contents x ns"]) (simp add: toString_int_def ai_toString_def int_entries_def)
qed

text \<open>
  C3: From the records of a block to lookups in its index page: appending the key and id of every record in any order, turning the index into a page
  and looking an integer up in the page gives exactly the ids that were appended for it, in order, and nothing for a key that no record has; for
  every integer and time type, keys in the range of the type and up to 800000 records.
\<close>

theorem index_page_finds_records:
  assumes "int_ops t ops"
  shows "\<exists>x M. append_all keyComparator (ai_new 0) ops = Some (Inr x) \<and> toString_int t x m data = Some M \<and>
    (case ids_of ops d of
       None \<Rightarrow> find_ids (fx_find_int M data t d True) (fx_getRecordIdByIndex M data) = Inr None
     | Some ids \<Rightarrow> \<exists>r. find_ids (fx_find_int M data t d True) (fx_getRecordIdByIndex M data) = Inr (Some r) \<and> read_ids M r = ids)"
proof -
  obtain x es where x: "append_all keyComparator (ai_new 0) ops = Some (Inr x)" "sorted_wrt (<) (map fst es)" "\<forall>k. map_of es k = ids_of ops k"
    "toString_int t x m data = Some (createFixedSolidIndex (zero_bytes m data (toSolidIndexSize x (col_size t) True)) data (length (int_entries t es))
      (TID t) (col_size t) (int_entries t es))" using append_to_page [OF assms, of m data] by blast
  note ok = int_entries_ok [OF assms x(2,3)]
  have "int_entries t es \<noteq> []" using ok(4) by (simp add: int_entries_def)
  then show ?thesis using fixed_find [OF ok(1) _ _ _ refl, of "zero_bytes m data (toSolidIndexSize x (col_size t) True)" data d] assms x
    unfolding ok(2,3) by (intro exI [of _ x] exI) (auto simp: int_ops_def split: option.splits)
qed

theorem index_page_finds_records_witness:
  "\<exists>x M. append_all keyComparator (ai_new 0) [(-5, 1), (3, 2), (-5, 7)] = Some (Inr x) \<and> toString_int T_INT32 x (\<lambda>_. 0) 100 = Some M \<and>
    (\<exists>r. find_ids (fx_find_int M 100 T_INT32 (-5) True) (fx_getRecordIdByIndex M 100) = Inr (Some r) \<and> read_ids M r = [1, 7])"
proof -
  have "int_ops T_INT32 [(-5, 1), (3, 2), (-5, 7)]" by (simp add: int_ops_def int_types_def int_range_def signed_types_def)
  from index_page_finds_records [OF this, of "\<lambda>_. 0" 100 "-5"] show ?thesis by (simp add: ids_of_def)
qed

section \<open>The size reserved for a page\<close>

lemma exts_exact:
  assumes "\<forall>e \<in> set es. snd e \<noteq> []"
  shows "length (exts es) + 4 * length (filter (\<lambda>e. length (snd e) = 1) es) =
    4 * sum_list (map (length \<circ> snd) es) + 4 * length (filter (\<lambda>e. 0x7f \<le> length (snd e)) es)"
  using assms by (induction es) (auto simp: exts_def ext_bytes_def)

lemma big_counts:
  assumes "\<forall>e \<in> set es. snd e \<noteq> [] \<and> length (snd e) \<noteq> 0x7f"
  shows "0x7f * length (filter (\<lambda>e. 0x7f \<le> length (snd e)) es) + length es \<le> sum_list (map (length \<circ> snd) es)"
  using assms
proof (induction es)
  case (Cons e es)
  then have "1 \<le> length (snd e)" "length (snd e) \<noteq> 0x7f" by (simp_all add: Suc_le_eq)
  moreover have "0x7f * length (filter (\<lambda>e. 0x7f \<le> length (snd e)) es) + length es \<le> sum_list (map (length \<circ> snd) es)" using Cons by (simp add: comp_def)
  ultimately show ?case by (simp del: length_greater_0_conv add: comp_def)
qed simp

definition key_counts :: "('k \<times> nat) list \<Rightarrow> nat list" where
  "key_counts ops = map (\<lambda>k. length (filter (\<lambda>p. fst p = k) ops)) (remdups (map fst ops))"

lemma key_counts_contents:
  fixes es :: "('k::linorder \<times> nat list) list"
  assumes "sorted_wrt (<) (map fst es)" and "\<forall>k. map_of es k = ids_of ops k"
  shows "length (filter (\<lambda>e. P (length (snd e))) es) = length (filter P (key_counts ops))" and "length es = length (key_counts ops)"
    and "(\<forall>e \<in> set es. Q (length (snd e))) \<longleftrightarrow> (\<forall>n \<in> set (key_counts ops). Q n)"
proof -
  note facts = contents_facts [OF assms]
  have d: "distinct (map fst es)" using assms(1) strict_sorted_iff by blast
  have "set (map fst es) = set (remdups (map fst ops))" using facts(2) by simp
  then have "mset (map fst es) = mset (remdups (map fst ops))" using d by (simp only: set_eq_iff_mset_eq_distinct distinct_remdups)
  then have "mset (map (\<lambda>k. length (filter (\<lambda>p. fst p = k) ops)) (map fst es)) = mset (key_counts ops)" by (simp only: key_counts_def mset_map)
  moreover have "map (length \<circ> snd) es = map (\<lambda>k. length (filter (\<lambda>p. fst p = k) ops)) (map fst es)" using facts(1) by fastforce
  ultimately have m: "mset (map (length \<circ> snd) es) = mset (key_counts ops)" by (simp only:)
  have "length (filter P (map (length \<circ> snd) es)) = length (filter P (key_counts ops))" using m by (metis mset_filter size_mset)
  then show "length (filter (\<lambda>e. P (length (snd e))) es) = length (filter P (key_counts ops))" by (simp add: filter_map comp_def)
  show "length es = length (key_counts ops)" using arg_cong [OF m, of size] by simp
  have "set (map (length \<circ> snd) es) = set (key_counts ops)" using m by (metis set_mset_mset)
  then show "(\<forall>e \<in> set es. Q (length (snd e))) \<longleftrightarrow> (\<forall>n \<in> set (key_counts ops). Q n)" by (metis (no_types, lifting) comp_apply image_iff set_map)
qed

lemma page_size_field:
  assumes "fixed_ok keySize es"
  shows "rd 4 (createFixedSolidIndex m data (length es) ty keySize es) data = fixed_page_size keySize es"
  using assms by (simp add: createFixed_memory [OF assms] mem_simps fixed_ok_def)

text \<open>
  C29: The size that \<^verbatim>\<open>toSolidIndexSize\<close> reserves is enough for the page, whose real size is in its head, exactly when the keys with 127 records or
  more are not more than the keys with one record plus a 127th of the records beyond the first of their key; in particular it is enough
  when no key has exactly 127 records.
\<close>

theorem toSolidIndexSize_enough_iff:
  assumes "int_ops t ops"
  shows "\<exists>x M. append_all keyComparator (ai_new 0) ops = Some (Inr x) \<and> toString_int t x m data = Some M \<and>
    (rd 4 M data \<le> toSolidIndexSize x (col_size t) True \<longleftrightarrow>
      length (filter ((\<le>) 0x7f) (key_counts ops)) \<le> length (filter ((=) 1) (key_counts ops)) + (length ops - length (key_counts ops)) div 0x7f) \<and>
    (0x7f \<notin> set (key_counts ops) \<longrightarrow> rd 4 M data \<le> toSolidIndexSize x (col_size t) True)"
proof -
  obtain x es where x: "append_all keyComparator (ai_new 0) ops = Some (Inr x)" "sorted_wrt (<) (map fst es)"
    "\<forall>k. map_of es k = ids_of ops k" "m_keyCount x = length es" "m_allCount x = length ops" "toString_int t x m data =
      Some (createFixedSolidIndex (zero_bytes m data (toSolidIndexSize x (col_size t) True)) data (length (int_entries t es)) (TID t) (col_size t) (int_entries t es))"
    using append_to_page [OF assms, of m data] by blast
  note facts = contents_facts [OF x(2,3)] and counts = key_counts_contents [OF x(2,3)]
  have ne: "\<forall>e \<in> set es. snd e \<noteq> []" using facts(1) by auto
  have "length (exts (int_entries t es)) + 4 * length (filter (\<lambda>e. length (snd e) = 1) es) =
      4 * length ops + 4 * length (filter (\<lambda>e. 0x7f \<le> length (snd e)) es)"
    using exts_exact [of "int_entries t es"] ne facts(3) by (simp add: int_entries_def comp_def split_beta filter_map)
  then have iff: "fixed_page_size (col_size t) (int_entries t es) \<le> toSolidIndexSize x (col_size t) True \<longleftrightarrow>
      length (filter (\<lambda>e. 0x7f \<le> length (snd e)) es) \<le> length (filter (\<lambda>e. 1 = length (snd e)) es) + (length ops - length es) div 0x7f"
    unfolding fixed_page_size_def toSolidIndexSize_def solidIndexHead_size_def x(4,5) eq_commute [of 1] by (auto simp: int_entries_def)
  have "length (filter (\<lambda>e. 0x7f \<le> length (snd e)) es) \<le> (length ops - length es) div 0x7f" if "\<forall>e \<in> set es. length (snd e) \<noteq> 0x7f"
    using big_counts [of es] ne that facts(3) by (simp add: less_eq_div_iff_mult_less_eq)
  then have "0x7f \<notin> set (key_counts ops) \<longrightarrow> fixed_page_size (col_size t) (int_entries t es) \<le> toSolidIndexSize x (col_size t) True"
    using iff counts(3) [of "\<lambda>n. n \<noteq> 0x7f"] by auto
  then show ?thesis using x(1,6) iff page_size_field [OF int_entries_ok(1) [OF assms x(2,3)]] unfolding counts(1,2)
    by (intro exI [of _ x] exI) auto
qed

theorem toSolidIndexSize_enough_iff_witness:
  "\<exists>x M. append_all keyComparator (ai_new 0) (replicate 0x7f (3, 1)) = Some (Inr x) \<and> toString_int T_INT32 x (\<lambda>_. 0) 100 = Some M \<and>
    toSolidIndexSize x (col_size T_INT32) True < rd 4 M 100"
proof -
  let ?ops = "replicate 0x7f (3 :: int, 1 :: nat)"
  have "int_ops T_INT32 ?ops" by (simp add: int_ops_def int_types_def int_range_def signed_types_def)
  moreover have "key_counts ?ops = [0x7f]" by (simp add: key_counts_def numeral_eq_Suc)
  ultimately show ?thesis using toSolidIndexSize_enough_iff [of T_INT32 ?ops "\<lambda>_. 0" 100] by force
qed

end
