(* ===== verification/AppendingBlock.thy ===== *)
theory AppendingBlock
  imports DmlRecords
begin

text \<open>
  The block that records are appended to (\<^verbatim>\<open>database/appendingBlock.h\<close>, \<^verbatim>\<open>database/appendingBlock.cpp\<close>, with the record positions of
  \<^verbatim>\<open>database/block.h\<close>): its pages, the data it keeps per table, the copy of a record into a page, \<^verbatim>\<open>append\<close>, and the access to a
  record by id and by log offset.  Pages are regions of the byte memory; the address of a new page is an argument, because the
  buffer pool chooses it.  The type of the indexes and their operations are parameters, which theory \<open>BlockKeys\<close> instantiates.  The
  outcome of writing the redo file is an argument too.  Objects of \<^verbatim>\<open>tableData\<close> are numbered, 0 is \<^verbatim>\<open>m_defaultData\<close>;
  there is one description object per table id, whose \<^verbatim>\<open>userData\<close> is part of the state.
\<close>

section \<open>Positions and record heads\<close>

definition setRecordPosition :: "nat \<Rightarrow> nat \<Rightarrow> nat" where
  "setRecordPosition pid off = (pid * 2 ^ 20 mod 2 ^ 32 + off) mod 2 ^ 32"

definition pos_pageId :: "nat \<Rightarrow> nat" where "pos_pageId p = p div 2 ^ 20"
definition offsetInPage :: "nat \<Rightarrow> nat" where "offsetInPage p = p mod 2 ^ 20"

definition head_size :: "mem \<Rightarrow> nat \<Rightarrow> nat" where "head_size m a = rd 4 m (a + H_size)"
definition head_recordId :: "mem \<Rightarrow> nat \<Rightarrow> nat" where "head_recordId m a = rd 8 m (a + H_recordId)"
definition head_logOffset :: "mem \<Rightarrow> nat \<Rightarrow> nat" where "head_logOffset m a = rd 8 m (a + 18)"
definition head_timestamp :: "mem \<Rightarrow> nat \<Rightarrow> nat" where "head_timestamp m a = rd 8 m (a + 26)"
definition head_txnId :: "mem \<Rightarrow> nat \<Rightarrow> nat" where "head_txnId m a = rd 4 m (a + H_txnId)"

definition maxRecordInBlock :: nat where "maxRecordInBlock = 1024 * 128"
definition DEFAULT_PAGE_SIZE :: nat where "DEFAULT_PAGE_SIZE = 512 * 1024"

section \<open>State\<close>

datatype appendingBlockStaus = B_OK | B_FULL | B_ILLEGAL | B_FAULT

record block_page =
  bp_pageId :: nat
  bp_used :: nat
  bp_size :: nat
  bp_data :: nat

record 'ix tableData =
  td_meta :: "tableMeta option"
  td_primaryKey :: "'ix option"
  td_uniqueKeys :: "'ix list"
  td_recordIds :: "nat list"
  td_pages :: "nat list"
  td_current :: "nat option"
  td_pageSize :: nat

record 'ix appendingBlock =
  ab_blockID :: nat
  ab_hasRedo :: bool
  ab_finished :: bool
  ab_mem :: mem
  ab_recordIDs :: "nat \<Rightarrow> nat"
  ab_size :: nat
  ab_maxSize :: nat
  ab_committed :: nat
  ab_txnId :: nat
  ab_minTxnId :: nat
  ab_maxTxnId :: nat
  ab_minTime :: nat
  ab_maxTime :: nat
  ab_minLogOffset :: nat
  ab_maxLogOffset :: nat
  ab_minRecordId :: nat
  ab_recordCount :: nat
  ab_tableCount :: nat
  ab_pageCount :: nat
  ab_maxPageCount :: nat
  ab_pages :: "nat \<Rightarrow> block_page option"
  ab_tables :: "nat \<Rightarrow> 'ix tableData"
  ab_tableNext :: nat
  ab_tableDatas :: "(u64 \<times> nat) list"
  ab_userData :: "u64 \<Rightarrow> (nat \<times> nat) option"

text \<open>The operations of the indexes that the block calls.\<close>

record 'ix indexOps =
  ix_new :: "unionKeyMeta \<Rightarrow> tableMeta \<Rightarrow> fault + 'ix"
  ix_append :: "mem \<Rightarrow> 'ix \<Rightarrow> DMLRecord \<Rightarrow> nat \<Rightarrow> (fault + 'ix) option"
  ix_find :: "mem \<Rightarrow> 'ix \<Rightarrow> nat \<Rightarrow> (fault + int) option"

text \<open>A record object: a DML record knows its description, of any other only the address matters.\<close>

datatype brec = Dml DMLRecord | Other nat

fun rec_data :: "brec \<Rightarrow> nat" where
  "rec_data (Dml r) = dml_data r"
| "rec_data (Other a) = a"

definition defaultData :: "nat \<Rightarrow> 'ix tableData" where
  "defaultData pageSize = \<lparr>td_meta = None, td_primaryKey = None, td_uniqueKeys = [], td_recordIds = [], td_pages = [], td_current = None,
     td_pageSize = pageSize\<rparr>"

definition ab_new :: "nat \<Rightarrow> bool \<Rightarrow> nat \<Rightarrow> nat \<Rightarrow> mem \<Rightarrow> (u64 \<Rightarrow> (nat \<times> nat) option) \<Rightarrow> 'ix appendingBlock" where
  "ab_new blockId hasRedo bufSize startID m userData =
     \<lparr>ab_blockID = blockId, ab_hasRedo = hasRedo, ab_finished = False, ab_mem = m, ab_recordIDs = (\<lambda>_. 0), ab_size = 0, ab_maxSize = bufSize,
      ab_committed = 0, ab_txnId = 0, ab_minTxnId = 0, ab_maxTxnId = 0, ab_minTime = 0, ab_maxTime = 0, ab_minLogOffset = 0,
      ab_maxLogOffset = 0, ab_minRecordId = startID, ab_recordCount = 0, ab_tableCount = 1, ab_pageCount = 0,
      ab_maxPageCount = bufSize div (32 * 1204) mod 2 ^ 16, ab_pages = (\<lambda>_. None), ab_tables = (\<lambda>_. defaultData 4096), ab_tableNext = 1,
      ab_tableDatas = [(0, 0)], ab_userData = userData\<rparr>"

section \<open>Tables\<close>

fun new_indexes :: "'ix indexOps \<Rightarrow> tableMeta \<Rightarrow> unionKeyMeta option list \<Rightarrow> fault + 'ix list" where
  "new_indexes ops t [] = Inr []"
| "new_indexes ops t (None # ks) = Inl Uninitialised"
| "new_indexes ops t (Some k # ks) = sbind (ix_new ops k t) (\<lambda>x. sbind (new_indexes ops t ks) (\<lambda>xs. Inr (x # xs)))"

definition tableData_init :: "'ix indexOps \<Rightarrow> tableMeta \<Rightarrow> fault + 'ix tableData" where
  "tableData_init ops t =
     sbind (case tbl_primaryKey t of None \<Rightarrow> Inr None | Some k \<Rightarrow> sbind (ix_new ops k t) (\<lambda>x. Inr (Some x))) (\<lambda>pk.
     sbind (new_indexes ops t (tbl_uniqueKeys t)) (\<lambda>uks.
       Inr ((defaultData DEFAULT_PAGE_SIZE)\<lparr>td_meta := Some t, td_primaryKey := pk, td_uniqueKeys := uks\<rparr>)))"

text \<open>\<^verbatim>\<open>std::map::insert\<close>: an entry that is there already stays.\<close>

fun map_insert :: "u64 \<Rightarrow> nat \<Rightarrow> (u64 \<times> nat) list \<Rightarrow> (u64 \<times> nat) list" where
  "map_insert k v [] = [(k, v)]"
| "map_insert k v ((k', v') # es) = (if k' < k then (k', v') # map_insert k v es else if k' = k then (k', v') # es else (k, v) # (k', v') # es)"

definition getTableData :: "'ix indexOps \<Rightarrow> 'ix appendingBlock \<Rightarrow> tableMeta option \<Rightarrow> fault + nat \<times> 'ix appendingBlock" where
  "getTableData ops s meta =
     (case meta of None \<Rightarrow> Inr (0, s)
      | Some t \<Rightarrow>
        (let create = sbind (tableData_init ops t) (\<lambda>td. let n = ab_tableNext s in
               Inr (n, s\<lparr>ab_tables := (ab_tables s)(n := td), ab_tableNext := n + 1, ab_userData := (ab_userData s)(tbl_id t \<mapsto> (ab_blockID s, n)),
                 ab_tableDatas := map_insert (tbl_id t) n (ab_tableDatas s), ab_tableCount := ab_tableCount s + 1\<rparr>))
         in case ab_userData s (tbl_id t) of None \<Rightarrow> create | Some (b, n) \<Rightarrow> if b \<noteq> ab_blockID s then create else Inr (n, s)))"

definition table_byId :: "'ix appendingBlock \<Rightarrow> u64 \<Rightarrow> nat option" where
  "table_byId s tableId = map_of (ab_tableDatas s) tableId"

text \<open>The newest version of a table, and the version before a given one; stepping before the first entry of the map is an error.\<close>

definition lower_bound :: "u64 \<Rightarrow> (u64 \<times> nat) list \<Rightarrow> nat" where
  "lower_bound k es = length (takeWhile (\<lambda>e. fst e < k) es)"

definition version_before :: "(u64 \<times> nat) list \<Rightarrow> nat \<Rightarrow> u64 \<Rightarrow> fault + nat option" where
  "version_before es i tableId =
     (if i = 0 then Inl OutOfBounds
      else if tableID (fst (es ! (i - 1))) \<noteq> tableID tableId then Inr None else Inr (Some (snd (es ! (i - 1)))))"

definition getCurrentVersion :: "'ix appendingBlock \<Rightarrow> u64 \<Rightarrow> fault + nat option" where
  "getCurrentVersion s tableId =
     (let es = ab_tableDatas s; i = lower_bound (genTableId (tableID tableId + 1) 0) es in
      if i < length es then version_before es i tableId else if es = [] then Inr None else version_before es (length es) tableId)"

definition getPrevVersion :: "'ix appendingBlock \<Rightarrow> u64 \<Rightarrow> fault + nat option" where
  "getPrevVersion s tableId =
     (let es = ab_tableDatas s; i = lower_bound tableId es in if i < length es then version_before es i tableId else Inr None)"

section \<open>Appending\<close>

definition cur_page :: "'ix appendingBlock \<Rightarrow> nat \<Rightarrow> block_page option" where
  "cur_page s n = (case td_current (ab_tables s n) of None \<Rightarrow> None | Some p \<Rightarrow> ab_pages s p)"

definition index_pages :: "'ix tableData \<Rightarrow> nat" where
  "index_pages t = (case td_meta t of None \<Rightarrow> 0 | Some m \<Rightarrow> (if tbl_primaryKey m \<noteq> None then 1 else 0) + length (tbl_uniqueKeys m))"

definition allocMemForRecord :: "nat \<Rightarrow> 'ix appendingBlock \<Rightarrow> nat \<Rightarrow> nat \<Rightarrow> appendingBlockStaus \<times> nat \<times> 'ix appendingBlock" where
  "allocMemForRecord newAddr s n sz =
     (if ab_recordCount s \<ge> maxRecordInBlock then (B_FULL, 0, s\<lparr>ab_finished := True\<rparr>)
      else case (case cur_page s n of None \<Rightarrow> None | Some p \<Rightarrow> if bp_used p + sz > bp_size p then None else Some p) of
        Some p \<Rightarrow> (B_OK, bp_data p + bp_used p, s)
      | None \<Rightarrow>
        (let t = ab_tables s n; psize = (if sz > td_pageSize t then sz else td_pageSize t);
             pages = ab_pageCount s + 1 + (if td_current t = None then index_pages t else 0)
         in if pages \<ge> ab_maxPageCount s \<or> ab_size s + psize \<ge> ab_maxSize s then (B_FULL, 0, s\<lparr>ab_finished := True\<rparr>)
            else (B_OK, newAddr, s\<lparr>ab_pageCount := pages,
              ab_pages := (ab_pages s)(pages - 1 \<mapsto> \<lparr>bp_pageId = pages - 1, bp_used = 0, bp_size = psize, bp_data = newAddr\<rparr>),
              ab_size := ab_size s + psize,
              ab_tables := (ab_tables s)(n := t\<lparr>td_current := Some (pages - 1), td_pages := td_pages t @ [pages - 1]\<rparr>)\<rparr>)))"

text \<open>The end of \<^verbatim>\<open>copyRecord\<close>: the record id, the position and the used size of the page.\<close>

definition stamp_record :: "'ix appendingBlock \<Rightarrow> nat \<Rightarrow> brec \<Rightarrow> fault + appendingBlockStaus \<times> brec \<times> 'ix appendingBlock" where
  "stamp_record s n r =
     (case td_current (ab_tables s n) of None \<Rightarrow> Inl NullDeref
      | Some slot \<Rightarrow> (case ab_pages s slot of None \<Rightarrow> Inl NullDeref
        | Some p \<Rightarrow> (if ab_recordCount s < maxRecordInBlock
          then let m = wr 8 (ab_mem s) (bp_data p + bp_used p + H_recordId) (ab_minRecordId s + ab_recordCount s) in
            Inr (B_OK, r, s\<lparr>ab_mem := m,
              ab_recordIDs := (ab_recordIDs s)(ab_recordCount s := setRecordPosition (bp_pageId p) (bp_used p)),
              ab_pages := (ab_pages s)(slot \<mapsto> p\<lparr>bp_used := bp_used p + head_size m (rec_data r)\<rparr>)\<rparr>)
          else Inl OutOfBounds)))"

definition is_dml :: "mem \<Rightarrow> nat \<Rightarrow> bool" where
  "is_dml m a \<longleftrightarrow> head_type m a \<le> RTYPE R_REPLACE"

definition copyRecord :: "'ix indexOps \<Rightarrow> nat \<Rightarrow> 'ix appendingBlock \<Rightarrow> brec \<Rightarrow> fault + appendingBlockStaus \<times> brec \<times> 'ix appendingBlock" where
  "copyRecord ops newAddr s r =
     (let data = rec_data r; dml = is_dml (ab_mem s) data in
      sbind (if dml then (case r of Dml d \<Rightarrow> Inr (Some (dml_meta d)) | Other _ \<Rightarrow> Inl Uninitialised) else Inr None) (\<lambda>meta.
      sbind (getTableData ops s meta) (\<lambda>(n, s).
        if (case cur_page s n of None \<Rightarrow> False | Some p \<Rightarrow> bp_data p + bp_used p = data) then stamp_record s n r
        else let sz = head_size (ab_mem s) data in
          (case allocMemForRecord newAddr s n sz of (st, a, s) \<Rightarrow>
             if st \<noteq> B_OK then Inr (st, r, s)
             else let m = write_bytes (ab_mem s) a (read_bytes (ab_mem s) data sz); s = s\<lparr>ab_mem := m\<rparr> in
               (case meta of Some t \<Rightarrow> stamp_record s n (Dml (dml_load m a t))
                | None \<Rightarrow> if head_type m a = RTYPE R_DDL then stamp_record s n (Other a) else Inl Aborted)))))"

definition obind :: "(fault + 'a) option \<Rightarrow> ('a \<Rightarrow> (fault + 'b) option) \<Rightarrow> (fault + 'b) option" where
  "obind x f = (case x of None \<Rightarrow> None | Some (Inl e) \<Rightarrow> Some (Inl e) | Some (Inr a) \<Rightarrow> f a)"

fun append_keys :: "'ix indexOps \<Rightarrow> mem \<Rightarrow> DMLRecord \<Rightarrow> nat \<Rightarrow> nat \<Rightarrow> 'ix list \<Rightarrow> (fault + 'ix list) option" where
  "append_keys ops m r i 0 xs = Some (Inr xs)"
| "append_keys ops m r i (Suc n) [] = Some (Inl OutOfBounds)"
| "append_keys ops m r i (Suc n) (x # xs) =
     obind (ix_append ops m x r i) (\<lambda>x. obind (append_keys ops m r i n xs) (\<lambda>xs. Some (Inr (x # xs))))"

text \<open>The part of \<^verbatim>\<open>append\<close> that builds the indexes of the table.\<close>

definition append_indexes :: "'ix indexOps \<Rightarrow> 'ix appendingBlock \<Rightarrow> DMLRecord \<Rightarrow> (fault + 'ix appendingBlock) option" where
  "append_indexes ops s r =
     (case ab_userData s (tbl_id (dml_meta r)) of None \<Rightarrow> Some (Inl NullDeref)
      | Some (b, n) \<Rightarrow>
        (let t = ab_tables s n; i = ab_recordCount s; m = ab_mem s in
         obind (case td_primaryKey t of None \<Rightarrow> Some (Inr None)
           | Some x \<Rightarrow> obind (ix_append ops m x r i) (\<lambda>x. Some (Inr (Some x)))) (\<lambda>pk.
         obind (append_keys ops m r i (length (tbl_uniqueKeys (dml_meta r))) (td_uniqueKeys t)) (\<lambda>uks.
           Some (Inr (s\<lparr>ab_tables := (ab_tables s)(n := t\<lparr>td_recordIds := td_recordIds t @ [i], td_primaryKey := pk, td_uniqueKeys := uks\<rparr>)\<rparr>))))))"

text \<open>The last part of \<^verbatim>\<open>append\<close>: the counters, from the head at \<open>a\<close>.\<close>

definition finish_append :: "'ix appendingBlock \<Rightarrow> nat \<Rightarrow> 'ix appendingBlock" where
  "finish_append s a =
     (let m = ab_mem s; lo = head_logOffset m a; ts = head_timestamp m a; txn = head_txnId m a; n = ab_recordCount s + 1 in
      s\<lparr>ab_maxLogOffset := lo, ab_minLogOffset := (if ab_minLogOffset s = 0 then lo else ab_minLogOffset s),
        ab_minTime := (if ab_minTime s = 0 then ts else ab_minTime s), ab_maxTime := (if ab_maxTime s < ts then ts else ab_maxTime s),
        ab_recordCount := n,
        ab_committed := (if txn > ab_txnId s \<or> head_type m a = RTYPE R_DDL then n else ab_committed s),
        ab_txnId := txn\<rparr>)"

definition ab_append :: "'ix indexOps \<Rightarrow> nat \<Rightarrow> appendingBlockStaus \<Rightarrow> 'ix appendingBlock \<Rightarrow> brec \<Rightarrow> (fault + appendingBlockStaus \<times> 'ix appendingBlock) option" where
  "ab_append ops newAddr redo s r =
     (if ab_maxLogOffset s > head_logOffset (ab_mem s) (rec_data r) then Some (Inr (B_ILLEGAL, s))
      else case copyRecord ops newAddr s r of Inl f \<Rightarrow> Some (Inl f)
        | Inr (st, r, s) \<Rightarrow>
          (if st \<noteq> B_OK then Some (Inr (st, s))
           else if ab_hasRedo s \<and> redo \<noteq> B_OK then Some (Inr (redo, s))
           else obind (case r of Dml d \<Rightarrow> if is_dml (ab_mem s) (rec_data r) then append_indexes ops s d else Some (Inr s) | Other _ \<Rightarrow> Some (Inr s))
             (\<lambda>s. Some (Inr (B_OK, finish_append s (rec_data r))))))"

section \<open>Access\<close>

definition isLegalRecordId :: "'ix appendingBlock \<Rightarrow> nat \<Rightarrow> bool" where
  "isLegalRecordId s i \<longleftrightarrow> i \<ge> ab_minRecordId s \<and> i < ab_minRecordId s + ab_recordCount s"

text \<open>\<^verbatim>\<open>getRecordByIdx\<close> and \<^verbatim>\<open>getRecordByInnerId\<close>; the positions behind the last record were never written.\<close>

definition getRecordByIdx :: "'ix appendingBlock \<Rightarrow> nat \<Rightarrow> fault + nat" where
  "getRecordByIdx s i =
     (if i \<ge> maxRecordInBlock then Inl OutOfBounds else if i \<ge> ab_recordCount s then Inl Uninitialised
      else let p = ab_recordIDs s i in
        if pos_pageId p \<ge> ab_maxPageCount s then Inl OutOfBounds
        else case ab_pages s (pos_pageId p) of None \<Rightarrow> Inl NullDeref | Some pg \<Rightarrow> Inr (bp_data pg + offsetInPage p))"

definition getRecord :: "'ix appendingBlock \<Rightarrow> nat \<Rightarrow> fault + nat" where
  "getRecord s recordId =
     (let i = (recordId + 2 ^ 64 - ab_minRecordId s) mod 2 ^ 64 in
      sbind (getRecordByIdx s i) (\<lambda>a. case ab_pages s (pos_pageId (ab_recordIDs s i)) of None \<Rightarrow> Inl NullDeref
        | Some pg \<Rightarrow> if bp_pageId pg = pos_pageId (ab_recordIDs s i) then Inr a else Inl AssertFailed))"

definition logOffset_at :: "'ix appendingBlock \<Rightarrow> nat \<Rightarrow> fault + nat" where
  "logOffset_at s recordId = sbind (getRecord s recordId) (\<lambda>a. Inr (head_logOffset (ab_mem s) a))"

function rid_loop :: "'ix appendingBlock \<Rightarrow> nat \<Rightarrow> int \<Rightarrow> int \<Rightarrow> fault + int + int" where
  "rid_loop s offset b e =
     (if b \<le> e
      then let m = (b + e) div 2 in
        (case logOffset_at s (ab_minRecordId s + nat m) of Inl f \<Rightarrow> Inl f
         | Inr mid \<Rightarrow> if mid > offset then rid_loop s offset b (m - 1) else if mid < offset then rid_loop s offset (m + 1) e else Inr (Inl m))
      else Inr (Inr b))"
  by pat_completeness auto
termination by (relation "measure (\<lambda>(s, offset, b, e). nat (e - b + 1))") auto

declare rid_loop.simps [simp del]

definition findRecordIDByOffset :: "'ix appendingBlock \<Rightarrow> nat \<Rightarrow> fault + nat" where
  "findRecordIDByOffset s offset =
     (let lo = ab_minRecordId s; n = ab_recordCount s; endID = n - 1 in
      if n = 0 then Inr 0
      else sbind (logOffset_at s lo) (\<lambda>first. if first < offset then Inr 0
      else sbind (logOffset_at s (lo + n - 1)) (\<lambda>last. if last > offset then Inr 0
      else sbind (rid_loop s offset 0 (int endID)) (\<lambda>r. case r of Inl m \<Rightarrow> Inr (lo + nat m)
        | Inr b \<Rightarrow> (if b \<ge> 0 \<and> b < sval 8 ((endID + 2 ^ 64 - lo) mod 2 ^ 64)
            then sbind (logOffset_at s (lo + nat b)) (\<lambda>o'. Inr (if o' > offset then lo + nat b else 0))
            else Inr 0)))))"

definition ab_commit :: "'ix appendingBlock \<Rightarrow> fault + 'ix appendingBlock" where
  "ab_commit s =
     (if ab_recordCount s > 0
      then sbind (getRecord s (ab_minRecordId s + ab_recordCount s - 1)) (\<lambda>a. let txn = head_txnId (ab_mem s) a in
        Inr (s\<lparr>ab_maxTxnId := txn, ab_minTxnId := (if ab_minTxnId s = 0 then txn else ab_minTxnId s), ab_committed := ab_recordCount s\<rparr>))
      else Inr s)"


definition getTableIndex :: "'ix tableData \<Rightarrow> tableMeta \<Rightarrow> KEY_TYPE \<Rightarrow> nat \<Rightarrow> 'ix option" where
  "getTableIndex t meta ty keyId =
     (case ty of PRIMARY_KEY \<Rightarrow> if tbl_primaryKey meta \<noteq> None then td_primaryKey t else None
      | UNIQUE_KEY \<Rightarrow> if length (tbl_uniqueKeys meta) > keyId \<and> keyId < length (td_uniqueKeys t) then Some (td_uniqueKeys t ! keyId) else None
      | INDEX \<Rightarrow> None)"

text \<open>\<^verbatim>\<open>getRecord\<close> by key: the bytes of the copy that is returned, or null; the key is at the address \<open>key\<close>.\<close>

definition getRecord_byKey :: "'ix indexOps \<Rightarrow> 'ix appendingBlock \<Rightarrow> tableMeta \<Rightarrow> KEY_TYPE \<Rightarrow> nat \<Rightarrow> nat \<Rightarrow> (fault + u8 list option) option" where
  "getRecord_byKey ops s table ty keyId key =
     (case table_byId s (tbl_id table) of None \<Rightarrow> Some (Inr None)
      | Some n \<Rightarrow> (case getTableIndex (ab_tables s n) table ty keyId of None \<Rightarrow> Some (Inr None)
        | Some x \<Rightarrow> obind (ix_find ops (ab_mem s) x key) (\<lambda>i.
            if i < 0 then Some (Inr None)
            else Some (sbind (getRecordByIdx s (nat i)) (\<lambda>a. Inr (Some (read_bytes (ab_mem s) a (head_size (ab_mem s) a))))))))"

end
