(* ===== verification/BlockProofs.thy ===== *)
theory BlockProofs
  imports AppendingBlock
begin

text \<open>
  Appending refines the list of the records' bytes: a record that is accepted is found at the end of the list with its id filled in, and
  no other record changes.  The invariant says that pages do not overlap, that every record lies in the used part of its page, and
  that its position fits the 32-bit packing.
\<close>

section \<open>Positions\<close>

lemma position_roundtrip:
  assumes "pid < 4096" and "off < 2 ^ 20"
  shows "pos_pageId (setRecordPosition pid off) = pid" and "offsetInPage (setRecordPosition pid off) = off"
proof -
  have 1: "pid * 2 ^ 20 + off < 2 ^ 32" using assms by simp
  then have 2: "setRecordPosition pid off = pid * 2 ^ 20 + off" by (simp add: setRecordPosition_def mod_add_left_eq)
  show "pos_pageId (setRecordPosition pid off) = pid" using assms(2) unfolding 2 pos_pageId_def by simp
  show "offsetInPage (setRecordPosition pid off) = off" using assms(2) unfolding 2 offsetInPage_def by simp
qed

section \<open>Invariant\<close>

definition bp_end :: "block_page \<Rightarrow> nat" where "bp_end p = bp_data p + bp_size p"

definition page_ok :: "'ix appendingBlock \<Rightarrow> nat \<Rightarrow> block_page \<Rightarrow> bool" where
  "page_ok s slot p \<longleftrightarrow> slot < ab_pageCount s \<and> bp_pageId p = slot \<and> bp_used p \<le> bp_size p \<and> bp_size p \<le> 2 ^ 20"

definition pages_apart :: "block_page \<Rightarrow> block_page \<Rightarrow> bool" where
  "pages_apart p q \<longleftrightarrow> bp_end p \<le> bp_data q \<or> bp_end q \<le> bp_data p"

text \<open>Position \<open>i\<close> leads to a record that lies in the used part of its page.\<close>

definition entry_addr :: "'ix appendingBlock \<Rightarrow> nat \<Rightarrow> nat" where
  "entry_addr s i = (case ab_pages s (pos_pageId (ab_recordIDs s i)) of None \<Rightarrow> 0 | Some p \<Rightarrow> bp_data p + offsetInPage (ab_recordIDs s i))"

definition entry_ok :: "'ix appendingBlock \<Rightarrow> nat \<Rightarrow> bool" where
  "entry_ok s i \<longleftrightarrow> (\<exists>p. ab_pages s (pos_pageId (ab_recordIDs s i)) = Some p \<and> recordHeadSize \<le> head_size (ab_mem s) (entry_addr s i) \<and>
     offsetInPage (ab_recordIDs s i) + head_size (ab_mem s) (entry_addr s i) \<le> bp_used p)"

definition ab_frame :: "'ix appendingBlock \<Rightarrow> bool" where
  "ab_frame s \<longleftrightarrow> ab_maxPageCount s \<le> 4096 \<and> (ab_pageCount s = 0 \<or> ab_pageCount s < ab_maxPageCount s) \<and> ab_recordCount s \<le> maxRecordInBlock \<and>
     (\<forall>slot p. ab_pages s slot = Some p \<longrightarrow> page_ok s slot p) \<and>
     (\<forall>slot p slot' q. ab_pages s slot = Some p \<longrightarrow> ab_pages s slot' = Some q \<longrightarrow> slot \<noteq> slot' \<longrightarrow> pages_apart p q) \<and>
     (\<forall>n slot. td_current (ab_tables s n) = Some slot \<longrightarrow> ab_pages s slot \<noteq> None) \<and> (\<forall>n. td_pageSize (ab_tables s n) \<le> 2 ^ 20)"

definition ab_inv_upto :: "'ix appendingBlock \<Rightarrow> nat \<Rightarrow> bool" where
  "ab_inv_upto s n \<longleftrightarrow> ab_frame s \<and> (\<forall>i<n. entry_ok s i)"

definition ab_inv :: "'ix appendingBlock \<Rightarrow> bool" where
  "ab_inv s \<longleftrightarrow> ab_inv_upto s (ab_recordCount s)"

definition entry_bytes :: "'ix appendingBlock \<Rightarrow> nat \<Rightarrow> u8 list" where
  "entry_bytes s i = read_bytes (ab_mem s) (entry_addr s i) (head_size (ab_mem s) (entry_addr s i))"

definition ab_contents :: "'ix appendingBlock \<Rightarrow> u8 list list" where
  "ab_contents s = map (entry_bytes s) [0..<ab_recordCount s]"

lemma ab_frameD:
  assumes "ab_frame s"
  shows "ab_pages s slot = Some p \<Longrightarrow> slot < ab_pageCount s \<and> bp_pageId p = slot \<and> bp_used p \<le> bp_size p \<and> bp_size p \<le> 2 ^ 20 \<and> slot < ab_maxPageCount s \<and> slot < 4096"
    and "ab_pages s slot = Some p \<Longrightarrow> ab_pages s slot' = Some q \<Longrightarrow> slot \<noteq> slot' \<Longrightarrow> bp_data p + bp_size p \<le> bp_data q \<or> bp_data q + bp_size q \<le> bp_data p"
    and "td_current (ab_tables s n) = Some slot \<Longrightarrow> \<exists>p. ab_pages s slot = Some p"
    and "td_pageSize (ab_tables s n) \<le> 2 ^ 20"
  using assms unfolding ab_frame_def page_ok_def pages_apart_def bp_end_def by (fastforce, blast, blast, blast)

section \<open>Writes to the free part of a page\<close>

definition in_free :: "'ix appendingBlock \<Rightarrow> nat \<Rightarrow> bool" where
  "in_free s j \<longleftrightarrow> (\<exists>slot p. ab_pages s slot = Some p \<and> bp_data p + bp_used p \<le> j \<and> j < bp_data p + bp_size p)"

definition unused :: "'ix appendingBlock \<Rightarrow> nat \<Rightarrow> bool" where
  "unused s j \<longleftrightarrow> (\<forall>slot p. ab_pages s slot = Some p \<longrightarrow> j < bp_data p \<or> bp_data p + bp_used p \<le> j)"

lemma free_unused:
  assumes "ab_frame s" and "in_free s j"
  shows "unused s j"
proof (unfold unused_def, intro allI impI)
  fix slot p
  assume p: "ab_pages s slot = Some p"
  obtain slot' q where q: "ab_pages s slot' = Some q" "bp_data q + bp_used q \<le> j" "j < bp_data q + bp_size q" using assms(2) by (auto simp: in_free_def)
  show "j < bp_data p \<or> bp_data p + bp_used p \<le> j"
  proof (cases "slot = slot'")
    case True
    then show ?thesis using p q by simp
  next
    case False
    then show ?thesis using ab_frameD(2) [OF assms(1) p q(1)] ab_frameD(1) [OF assms(1) p] q by linarith
  qed
qed

lemma entry_used:
  assumes "entry_ok s i" and "entry_addr s i \<le> j" and "j < entry_addr s i + head_size (ab_mem s) (entry_addr s i)"
  shows "\<not> unused s j"
proof -
  obtain p where p: "ab_pages s (pos_pageId (ab_recordIDs s i)) = Some p" "offsetInPage (ab_recordIDs s i) + head_size (ab_mem s) (entry_addr s i) \<le> bp_used p"
    using assms(1) by (auto simp: entry_ok_def)
  then have "entry_addr s i = bp_data p + offsetInPage (ab_recordIDs s i)" by (simp add: entry_addr_def)
  then have "bp_data p \<le> j" "j < bp_data p + bp_used p" using assms(2,3) p(2) by simp_all
  then show ?thesis using p(1) unfolding unused_def by (metis leD)
qed

lemma read_bytes_cong: "(\<And>j. a \<le> j \<Longrightarrow> j < a + n \<Longrightarrow> m' j = m j) \<Longrightarrow> read_bytes m' a n = read_bytes m a n"
  by (auto simp: read_bytes_def)

lemma rd_cong: "(\<And>j. a \<le> j \<Longrightarrow> j < a + n \<Longrightarrow> m' j = m j) \<Longrightarrow> rd n m' a = rd n m a"
  unfolding rd_def by (intro arg_cong [of _ _ le_val] read_bytes_cong)

section \<open>Steps that keep the records\<close>

text \<open>
  The new state has the pages of the old one, with the same regions and at least as much used, and differs in memory only outside the used parts.
\<close>

definition grows :: "'ix appendingBlock \<Rightarrow> 'ix appendingBlock \<Rightarrow> bool" where
  "grows s s' \<longleftrightarrow> (\<forall>slot p. ab_pages s slot = Some p \<longrightarrow>
       (\<exists>q. ab_pages s' slot = Some q \<and> bp_data q = bp_data p \<and> bp_size q = bp_size p \<and> bp_used p \<le> bp_used q)) \<and>
     (\<forall>j. ab_mem s' j \<noteq> ab_mem s j \<longrightarrow> unused s j)"

lemma entry_grows:
  assumes "entry_ok s i" and "grows s s'" and "ab_recordIDs s' i = ab_recordIDs s i"
  shows "entry_ok s' i" and "entry_bytes s' i = entry_bytes s i" and "entry_addr s' i = entry_addr s i"
proof -
  obtain p where p: "ab_pages s (pos_pageId (ab_recordIDs s i)) = Some p" "38 \<le> head_size (ab_mem s) (entry_addr s i)"
    "offsetInPage (ab_recordIDs s i) + head_size (ab_mem s) (entry_addr s i) \<le> bp_used p" using assms(1) by (auto simp: entry_ok_def recordHeadSize_def)
  obtain q where q: "ab_pages s' (pos_pageId (ab_recordIDs s i)) = Some q" "bp_data q = bp_data p" "bp_used p \<le> bp_used q"
    using assms(2) p(1) unfolding grows_def by blast
  show a: "entry_addr s' i = entry_addr s i" using p(1) q assms(3) by (simp add: entry_addr_def)
  have same: "ab_mem s' j = ab_mem s j" if "entry_addr s i \<le> j" "j < entry_addr s i + head_size (ab_mem s) (entry_addr s i)" for j
    using entry_used [OF assms(1) that] assms(2) unfolding grows_def by blast
  then have h: "head_size (ab_mem s') (entry_addr s i) = head_size (ab_mem s) (entry_addr s i)"
    using p(2) unfolding head_size_def H_size_def by (intro rd_cong) simp
  show "entry_ok s' i" using p q h a assms(3) by (simp add: entry_ok_def recordHeadSize_def)
  show "entry_bytes s' i = entry_bytes s i" unfolding entry_bytes_def a h using same by (intro read_bytes_cong)
qed

definition keeps :: "'ix appendingBlock \<Rightarrow> 'ix appendingBlock \<Rightarrow> bool" where
  "keeps s s' \<longleftrightarrow> ab_frame s' \<and> ab_recordCount s' = ab_recordCount s \<and> ab_minRecordId s' = ab_minRecordId s \<and> ab_maxLogOffset s' = ab_maxLogOffset s \<and>
     ab_blockID s' = ab_blockID s \<and> (\<forall>i<ab_recordCount s. entry_ok s i \<longrightarrow> entry_ok s' i \<and> entry_bytes s' i = entry_bytes s i \<and> entry_addr s' i = entry_addr s i)"

lemma keepsD: "keeps s s' \<Longrightarrow> ab_frame s'" "keeps s s' \<Longrightarrow> ab_recordCount s' = ab_recordCount s" "keeps s s' \<Longrightarrow> ab_minRecordId s' = ab_minRecordId s"
  "keeps s s' \<Longrightarrow> ab_maxLogOffset s' = ab_maxLogOffset s" "keeps s s' \<Longrightarrow> ab_blockID s' = ab_blockID s"
  by (simp_all add: keeps_def)

lemma keeps_trans: "keeps s s' \<Longrightarrow> keeps s' s'' \<Longrightarrow> keeps s s''"
  by (simp add: keeps_def)

lemma keeps_inv: "keeps s s' \<Longrightarrow> ab_inv s \<Longrightarrow> ab_inv s' \<and> ab_contents s' = ab_contents s"
  by (simp add: keeps_def ab_inv_def ab_inv_upto_def ab_contents_def)

lemma keepsI:
  assumes "ab_frame s" and "ab_frame s'" and "grows s s'" and "\<forall>i<ab_recordCount s. ab_recordIDs s' i = ab_recordIDs s i"
    and "ab_recordCount s' = ab_recordCount s" "ab_minRecordId s' = ab_minRecordId s" "ab_maxLogOffset s' = ab_maxLogOffset s" "ab_blockID s' = ab_blockID s"
  shows "keeps s s'"
  using assms(2,4-) entry_grows [OF _ assms(3)] by (simp add: keeps_def)

lemma keeps_refl: "ab_frame s \<Longrightarrow> keeps s s"
  by (simp add: keeps_def)

lemma grows_same: "ab_mem s' = ab_mem s \<Longrightarrow> ab_pages s' = ab_pages s \<Longrightarrow> grows s s'"
  by (simp add: grows_def)

lemma keeps_tables:
  assumes "ab_frame s" and "\<And>n. td_current (T n) = td_current (ab_tables s n) \<or> td_current (T n) = None" and "\<And>n. td_pageSize (T n) \<le> 2 ^ 20"
  shows "keeps s (s\<lparr>ab_tables := T\<rparr>)" and "keeps s (s\<lparr>ab_tables := T, ab_tableNext := k, ab_userData := u, ab_tableDatas := d, ab_tableCount := c\<rparr>)"
proof -
  have "td_current (T n) = Some slot \<Longrightarrow> ab_pages s slot \<noteq> None" for n slot using assms(2) [of n] ab_frameD(3) [OF assms(1), of n slot] by auto
  then have "ab_frame (s\<lparr>ab_tables := T, ab_tableNext := k, ab_userData := u, ab_tableDatas := d, ab_tableCount := c\<rparr>)" "ab_frame (s\<lparr>ab_tables := T\<rparr>)"
    using assms(1,3) by (simp_all add: ab_frame_def page_ok_def)
  then show "keeps s (s\<lparr>ab_tables := T\<rparr>)" "keeps s (s\<lparr>ab_tables := T, ab_tableNext := k, ab_userData := u, ab_tableDatas := d, ab_tableCount := c\<rparr>)"
    using assms(1) by (auto intro!: keepsI grows_same)
qed

lemma keeps_getTableData:
  assumes "getTableData ops s meta = Inr (n, s')" and "ab_frame s"
  shows "keeps s s'" and "ab_mem s' = ab_mem s" and "ab_pages s' = ab_pages s" and "ab_hasRedo s' = ab_hasRedo s"
proof -
  have td: "td_current td = None \<and> td_pageSize td \<le> 2 ^ 20" if "tableData_init ops t = Inr td" for t td
    using that by (auto simp: tableData_init_def defaultData_def DEFAULT_PAGE_SIZE_def)
  have K: "keeps s (s\<lparr>ab_tables := (ab_tables s)(k := td), ab_tableNext := a, ab_userData := u, ab_tableDatas := d, ab_tableCount := c\<rparr>)"
    if "tableData_init ops t = Inr td" for t td k a u d c
    by (rule keeps_tables(2) [OF assms(2)]) (use td [OF that] ab_frameD(4) [OF assms(2)] in auto)
  show "keeps s s'" "ab_mem s' = ab_mem s" "ab_pages s' = ab_pages s" "ab_hasRedo s' = ab_hasRedo s"
    using assms K by (auto simp: getTableData_def Let_def keeps_refl split: option.splits if_splits)
qed

definition fresh_page :: "'ix appendingBlock \<Rightarrow> nat \<Rightarrow> bool" where
  "fresh_page s a \<longleftrightarrow> (\<forall>slot p. ab_pages s slot = Some p \<longrightarrow> a + 2 ^ 20 \<le> bp_data p \<or> bp_data p + bp_size p \<le> a)"

text \<open>A new page.\<close>

lemma keeps_new_page:
  fixes s :: "'ix appendingBlock" and n z :: nat
  assumes fr: "ab_frame s" and fresh: "fresh_page s a" and sz: "psize \<le> 2 ^ 20" and cnt: "ab_pageCount s < pages" "pages < ab_maxPageCount s"
    and t: "td_current t = Some (pages - 1)" "td_pageSize t \<le> 2 ^ 20"
  defines "s' \<equiv> s\<lparr>ab_pageCount := pages, ab_pages := (ab_pages s)(pages - 1 \<mapsto> \<lparr>bp_pageId = pages - 1, bp_used = 0, bp_size = psize, bp_data = a\<rparr>),
    ab_size := z, ab_tables := (ab_tables s)(n := t)\<rparr>"
  shows "keeps s s'"
proof -
  have new: "ab_pages s (pages - 1) = None"
  proof (rule ccontr)
    assume "ab_pages s (pages - 1) \<noteq> None"
    then obtain p where "ab_pages s (pages - 1) = Some p" by blast
    then have "pages - 1 < ab_pageCount s" using ab_frameD(1) [OF fr] by blast
    then show False using cnt(1) by simp
  qed
  have apart: "pages_apart p q" if "ab_pages s' i = Some p" "ab_pages s' j = Some q" "i \<noteq> j" for i j p q
  proof -
    have old: "pages_apart p q" if "ab_pages s i = Some p" "ab_pages s j = Some q"
      using ab_frameD(2) [OF fr that \<open>i \<noteq> j\<close>] by (simp add: pages_apart_def bp_end_def)
    have f: "bp_data r + bp_size r \<le> a \<or> a + psize \<le> bp_data r" if "ab_pages s k = Some r" for k r
      using fresh that sz unfolding fresh_page_def by fastforce
    show ?thesis using that old f unfolding s'_def by (fastforce simp: pages_apart_def bp_end_def split: if_splits)
  qed
  have ok: "page_ok s' i p" if "ab_pages s' i = Some p" for i p
    using that ab_frameD(1) [OF fr, of i p] cnt(1) sz unfolding s'_def by (auto simp: page_ok_def split: if_splits)
  have cur: "ab_pages s' slot \<noteq> None" if "td_current (ab_tables s' k) = Some slot" for k slot
    using that ab_frameD(3) [OF fr, of k slot] t(1) unfolding s'_def by (auto split: if_splits)
  have "ab_frame s'" using apart ok cur fr cnt(2) ab_frameD(4) [OF fr] t(2) unfolding ab_frame_def by (simp add: s'_def)
  moreover have "grows s s'" using new by (auto simp: grows_def s'_def)
  ultimately show ?thesis using fr by (intro keepsI) (simp_all add: s'_def)
qed

lemma keeps_finished: "ab_frame s \<Longrightarrow> keeps s (s\<lparr>ab_finished := b\<rparr>)"
  by (rule keepsI) (simp_all add: ab_frame_def page_ok_def grows_same)

lemma keeps_alloc:
  assumes al: "allocMemForRecord a s n sz = (st, b, s')" and fr: "ab_frame s" and fresh: "fresh_page s a" and sz: "sz \<le> 2 ^ 20"
  shows "keeps s s' \<and> ab_mem s' = ab_mem s \<and> ab_hasRedo s' = ab_hasRedo s \<and> (st = B_OK \<or> st = B_FULL) \<and> (st = B_OK \<longrightarrow> ab_userData s' = ab_userData s \<and>
     ab_recordCount s < maxRecordInBlock \<and> (\<exists>slot p. td_current (ab_tables s' n) = Some slot \<and> ab_pages s' slot = Some p \<and>
       bp_data p + bp_used p = b \<and> bp_used p + sz \<le> bp_size p \<and> (b = a \<or> cur_page s n = Some p)))"
proof (cases "ab_recordCount s \<ge> maxRecordInBlock")
  case True
  then show ?thesis using al keeps_finished [OF fr, of True] by (auto simp: allocMemForRecord_def)
next
  case count: False
  define c where "c = (case cur_page s n of None \<Rightarrow> None | Some p \<Rightarrow> if bp_used p + sz > bp_size p then None else Some p)"
  show ?thesis
  proof (cases c)
    case (Some p)
    then have "cur_page s n = Some p" "bp_used p + sz \<le> bp_size p" by (auto simp: c_def split: option.splits if_splits)
    moreover from this(1) have "\<exists>slot. td_current (ab_tables s n) = Some slot \<and> ab_pages s slot = Some p" by (auto simp: cur_page_def split: option.splits)
    ultimately show ?thesis using al count Some keeps_refl [OF fr] by (auto simp: allocMemForRecord_def c_def [symmetric])
  next
    case None
    define t where "t = ab_tables s n"
    define psize where "psize = (if sz > td_pageSize t then sz else td_pageSize t)"
    define pages where "pages = ab_pageCount s + 1 + (if td_current t = None then index_pages t else 0)"
    have psize: "psize \<le> 2 ^ 20" "sz \<le> psize" using sz ab_frameD(4) [OF fr, of n] by (auto simp: psize_def t_def)
    define s1 where "s1 = s\<lparr>ab_pageCount := pages,
      ab_pages := (ab_pages s)(pages - 1 \<mapsto> \<lparr>bp_pageId = pages - 1, bp_used = 0, bp_size = psize, bp_data = a\<rparr>), ab_size := ab_size s + psize,
      ab_tables := (ab_tables s)(n := t\<lparr>td_current := Some (pages - 1), td_pages := td_pages t @ [pages - 1]\<rparr>)\<rparr>"
    have E: "allocMemForRecord a s n sz =
        (if pages \<ge> ab_maxPageCount s \<or> ab_size s + psize \<ge> ab_maxSize s then (B_FULL, 0, s\<lparr>ab_finished := True\<rparr>) else (B_OK, a, s1))"
      unfolding allocMemForRecord_def c_def [symmetric] None Let_def t_def [symmetric] psize_def [symmetric] pages_def [symmetric] s1_def
      using count by simp
    show ?thesis
    proof (cases "pages \<ge> ab_maxPageCount s \<or> ab_size s + psize \<ge> ab_maxSize s")
      case True
      then show ?thesis using al keeps_finished [OF fr, of True] unfolding E by auto
    next
      case False
      have "keeps s s1" unfolding s1_def
        using False ab_frameD(4) [OF fr, of n] by (intro keeps_new_page [OF fr fresh psize(1)]) (auto simp: pages_def t_def)
      then show ?thesis using al count False psize(2) unfolding E by (auto simp: s1_def)
    qed
  qed
qed

lemma keeps_write:
  assumes "ab_frame s" and "\<And>j. m' j \<noteq> ab_mem s j \<Longrightarrow> unused s j"
  shows "keeps s (s\<lparr>ab_mem := m'\<rparr>)"
  using assms by (intro keepsI) (auto simp: ab_frame_def page_ok_def grows_def)

section \<open>Copying and stamping\<close>

definition stamp_bytes :: "nat \<Rightarrow> u8 list \<Rightarrow> u8 list" where
  "stamp_bytes v bs = take 10 bs @ le_bytes 8 v @ drop 18 bs"

lemma read_stamped:
  assumes "18 \<le> sz"
  shows "read_bytes (wr 8 m (d + 10) v) d sz = stamp_bytes v (read_bytes m d sz)"
  using assms by (intro nth_equalityI) (auto simp: stamp_bytes_def wr_def write_bytes_def nth_append min_def)

lemma entry_cong:
  assumes "ab_mem s' = ab_mem s" and "ab_pages s' = ab_pages s" and "ab_recordIDs s' i = ab_recordIDs s i"
  shows "entry_addr s' i = entry_addr s i" and "entry_bytes s' i = entry_bytes s i" and "entry_ok s' i = entry_ok s i"
  unfolding entry_addr_def entry_bytes_def entry_ok_def assms by (rule refl)+

lemma stamp_ok:
  assumes fr: "ab_frame s" and cur: "td_current (ab_tables s n) = Some slot" "ab_pages s slot = Some p" and cnt: "ab_recordCount s < maxRecordInBlock"
    and d: "rec_data r = bp_data p + bp_used p" and sz: "recordHeadSize \<le> head_size (ab_mem s) (rec_data r)"
      "bp_used p + head_size (ab_mem s) (rec_data r) \<le> bp_size p"
  shows "\<exists>s'. stamp_record s n r = Inr (B_OK, r, s') \<and> keeps s s' \<and> ab_hasRedo s' = ab_hasRedo s \<and> ab_userData s' = ab_userData s \<and> ab_tables s' = ab_tables s \<and>
    ab_mem s' = wr 8 (ab_mem s) (rec_data r + H_recordId) (ab_minRecordId s + ab_recordCount s) \<and>
    entry_ok s' (ab_recordCount s) \<and> entry_addr s' (ab_recordCount s) = rec_data r \<and>
    entry_bytes s' (ab_recordCount s) = stamp_bytes (ab_minRecordId s + ab_recordCount s) (read_bytes (ab_mem s) (rec_data r) (head_size (ab_mem s) (rec_data r)))"
proof -
  let ?c = "ab_recordCount s" and ?d = "rec_data r"
  define sz' where "sz' = head_size (ab_mem s) ?d"
  have sz38: "38 \<le> sz'" "bp_used p + sz' \<le> bp_size p" using sz by (simp_all add: sz'_def recordHeadSize_def)
  define m where "m = wr 8 (ab_mem s) (?d + 10) (ab_minRecordId s + ?c)"
  define q where "q = p\<lparr>bp_used := bp_used p + sz'\<rparr>"
  define s' where "s' = s\<lparr>ab_mem := m, ab_recordIDs := (ab_recordIDs s)(?c := setRecordPosition slot (bp_used p)), ab_pages := (ab_pages s)(slot \<mapsto> q)\<rparr>"
  have p: "slot < ab_pageCount s" "bp_pageId p = slot" "bp_size p \<le> 2 ^ 20" "slot < 4096" using ab_frameD(1) [OF fr cur(2)] by simp_all
  have hs: "head_size m ?d = sz'" unfolding m_def sz'_def head_size_def H_size_def by (intro rd_cong) (simp add: wr_outside)
  have st: "stamp_record s n r = Inr (B_OK, r, s')"
    using cur cnt p(2) d hs by (simp add: stamp_record_def s'_def q_def m_def H_recordId_def Let_def)
  have free: "in_free s j" if "m j \<noteq> ab_mem s j" for j
  proof -
    have "?d + 10 \<le> j" "j < ?d + 18" using that wr_outside [of j "?d + 10" 8 "ab_mem s"] unfolding m_def by (force simp: not_less)+
    then have "bp_data p + bp_used p \<le> j" "j < bp_data p + bp_size p" using sz38 d by simp_all
    then show ?thesis using cur(2) unfolding in_free_def by blast
  qed
  have pos: "pos_pageId (setRecordPosition slot (bp_used p)) = slot" "offsetInPage (setRecordPosition slot (bp_used p)) = bp_used p"
    using position_roundtrip [of slot "bp_used p"] p sz38 by simp_all
  have "grows s s'" using free_unused [OF fr free] cur(2) by (auto simp: grows_def s'_def q_def)
  moreover have "ab_frame s'"
  proof -
    have "page_ok s' i x" if "ab_pages s' i = Some x" for i x
      using that ab_frameD(1) [OF fr, of i x] ab_frameD(1) [OF fr cur(2)] sz38 by (auto simp: s'_def q_def page_ok_def split: if_splits)
    moreover have "pages_apart x y" if "ab_pages s' i = Some x" "ab_pages s' j = Some y" "i \<noteq> j" for i j x y
    proof -
      note t = that
      have old: "\<exists>x0. ab_pages s i = Some x0 \<and> bp_data x0 = bp_data x \<and> bp_size x0 = bp_size x" if "ab_pages s' i = Some x" for i x
        using that cur(2) by (auto simp: s'_def q_def split: if_splits)
      obtain x0 y0 where "ab_pages s i = Some x0" "bp_data x0 = bp_data x" "bp_size x0 = bp_size x" "ab_pages s j = Some y0" "bp_data y0 = bp_data y" "bp_size y0 = bp_size y"
        using old [OF t(1)] old [OF t(2)] by blast
      then show ?thesis using ab_frameD(2) [OF fr, of i x0 j y0] t(3) by (simp add: pages_apart_def bp_end_def)
    qed
    moreover have "ab_pages s' i \<noteq> None" if "td_current (ab_tables s' k) = Some i" for i k
      using that ab_frameD(3) [OF fr, of k i] by (auto simp: s'_def)
    ultimately show ?thesis using fr ab_frameD(4) [OF fr] unfolding ab_frame_def by (simp add: s'_def)
  qed
  ultimately have "keeps s s'" using fr by (intro keepsI) (simp_all add: s'_def)
  moreover have a: "entry_addr s' ?c = ?d" using pos d by (simp add: entry_addr_def s'_def q_def)
  moreover have "entry_ok s' ?c" using pos hs sz38 a by (simp add: entry_ok_def s'_def q_def recordHeadSize_def)
  moreover have "entry_bytes s' ?c = stamp_bytes (ab_minRecordId s + ?c) (read_bytes (ab_mem s) ?d sz')"
    using read_stamped [of sz' "ab_mem s" ?d] sz38 hs unfolding entry_bytes_def a by (simp add: s'_def m_def)
  ultimately show ?thesis using st by (intro exI [of _ s']) (simp add: s'_def m_def H_recordId_def sz'_def)
qed

text \<open>
  A record that is given to the block: it lies outside the free parts of the pages and of a new page, or at the beginning of the free part of a page
  in which it fits; and it does not start where a page ends, because the block takes a record behind a full page for one inside it.
\<close>

definition source_ok :: "'ix appendingBlock \<Rightarrow> nat \<Rightarrow> nat \<Rightarrow> bool" where
  "source_ok s a d \<longleftrightarrow> (let sz = head_size (ab_mem s) d in recordHeadSize \<le> sz \<and> sz \<le> 2 ^ 20 \<and>
     (\<forall>slot p. ab_pages s slot = Some p \<longrightarrow> d \<noteq> bp_data p + bp_size p) \<and>
     ((\<forall>j. d \<le> j \<and> j < d + sz \<longrightarrow> \<not> in_free s j \<and> \<not> (a \<le> j \<and> j < a + 2 ^ 20)) \<or>
      (\<exists>slot p. ab_pages s slot = Some p \<and> d = bp_data p + bp_used p \<and> bp_used p + sz \<le> bp_size p)))"

lemma memcpy_ok:
  assumes "18 \<le> sz" and "sz = head_size m d" and "m' = write_bytes m b (read_bytes m d sz)"
  shows "head_size m' b = sz" and "read_bytes m' b sz = read_bytes m d sz" and "head_type m' b = head_type m d" and "head_logOffset m' b = (if sz < 26 then head_logOffset m' b else head_logOffset m d)"
proof -
  have i: "m' (b + i) = m (d + i)" if "i < sz" for i using that unfolding assms(3) by (simp add: write_bytes_inside)
  have r: "rd k m' (b + j) = rd k m (d + j)" if "j + k \<le> sz" for j k
    using i that by (auto simp: rd_def read_bytes_def add.assoc intro!: arg_cong [of _ _ le_val])
  show "head_size m' b = sz" using r [of 0 4] assms(1,2) by (simp add: head_size_def H_size_def)
  show "read_bytes m' b sz = read_bytes m d sz" using i by (auto intro: nth_equalityI)
  show "head_type m' b = head_type m d" using r [of 6 1] assms(1) by (simp add: H_type_def)
  show "head_logOffset m' b = (if sz < 26 then head_logOffset m' b else head_logOffset m d)" using r [of 18 8] by (simp add: head_logOffset_def)
qed

text \<open>Where \<^verbatim>\<open>copyRecord\<close> puts a record.\<close>

lemma copyRecord_ok:
  assumes fr: "ab_frame s" and fresh: "fresh_page s a" and src: "source_ok s a (rec_data r)"
    and res: "copyRecord ops a s r = Inr (st, r', s')"
  shows "keeps s s' \<and> ab_hasRedo s' = ab_hasRedo s \<and> (st = B_OK \<or> st = B_FULL) \<and> (st = B_OK \<longrightarrow>
    ab_recordCount s < maxRecordInBlock \<and> entry_ok s' (ab_recordCount s) \<and> entry_addr s' (ab_recordCount s) = rec_data r' \<and>
    entry_bytes s' (ab_recordCount s) = stamp_bytes (ab_minRecordId s + ab_recordCount s) (read_bytes (ab_mem s) (rec_data r) (head_size (ab_mem s) (rec_data r))))"
proof -
  let ?d = "rec_data r" and ?c = "ab_recordCount s"
  define sz where "sz = head_size (ab_mem s) ?d"
  have sz: "38 \<le> sz" "sz \<le> 2 ^ 20" using src by (simp_all add: source_ok_def sz_def recordHeadSize_def Let_def)
  obtain meta n s1 where g: "getTableData ops s meta = Inr (n, s1)" and res1:
    "(if (case cur_page s1 n of None \<Rightarrow> False | Some p \<Rightarrow> bp_data p + bp_used p = ?d) then stamp_record s1 n r
      else let sz = head_size (ab_mem s1) ?d in
        (case allocMemForRecord a s1 n sz of (st, a, s) \<Rightarrow>
           if st \<noteq> B_OK then Inr (st, r, s)
           else let m = write_bytes (ab_mem s) a (read_bytes (ab_mem s) ?d sz); s = s\<lparr>ab_mem := m\<rparr> in
             (case meta of Some t \<Rightarrow> stamp_record s n (Dml (dml_load m a t))
              | None \<Rightarrow> if head_type m a = RTYPE R_DDL then stamp_record s n (Other a) else Inl Aborted))) = Inr (st, r', s')"
    using res unfolding copyRecord_def Let_def by auto
  note G = keeps_getTableData [OF g fr]
  note fr1 = keepsD(1) [OF G(1)] and k1 = keepsD(2,3) [OF G(1)]
  show ?thesis
  proof (cases "case cur_page s1 n of None \<Rightarrow> False | Some p \<Rightarrow> bp_data p + bp_used p = ?d")
    case True
    then obtain slot p where p: "td_current (ab_tables s1 n) = Some slot" "ab_pages s1 slot = Some p" "bp_data p + bp_used p = ?d"
      by (auto simp: cur_page_def split: option.splits)
    have fits: "bp_used p + sz \<le> bp_size p"
    proof -
      have used: "bp_used p \<le> bp_size p" using ab_frameD(1) [OF fr1 p(2)] by simp
      have "?d \<noteq> bp_data p + bp_size p" using src p(2) G(3) by (simp add: source_ok_def Let_def)
      then have used': "bp_used p < bp_size p" using used p(3) by linarith
      then have "in_free s ?d" using p G(3) unfolding in_free_def by (metis le_refl nat_add_left_cancel_less)
      moreover have "?d \<le> ?d" "?d < ?d + sz" using sz(1) by simp_all
      ultimately obtain slot' q where 1: "ab_pages s slot' = Some q" "?d = bp_data q + bp_used q" "bp_used q + sz \<le> bp_size q"
        using src unfolding source_ok_def Let_def sz_def [symmetric] by blast
      have "slot' = slot"
      proof (rule ccontr)
        assume "slot' \<noteq> slot"
        then have "bp_data p + bp_size p \<le> bp_data q \<or> bp_data q + bp_size q \<le> bp_data p" using ab_frameD(2) [OF fr1 p(2), of slot' q] 1(1) G(3) by simp
        then show False using 1 p(3) used' sz(1) by linarith
      qed
      then show ?thesis using 1 p G(3) by simp
    qed
    have st1: "stamp_record s1 n r = Inr (st, r', s')" using res1 True by simp
    have cnt: "?c < maxRecordInBlock" using st1 p k1 by (auto simp: stamp_record_def split: if_splits)
    show ?thesis using st1
      using stamp_ok [OF fr1 p(1,2) _ p(3) [symmetric]] fits sz cnt G k1 keeps_trans [OF G(1)] by (auto simp: sz_def recordHeadSize_def)
  next
    case False
    obtain st1 b s2 where al: "allocMemForRecord a s1 n sz = (st1, b, s2)" by (metis prod_cases3)
    have fresh1: "fresh_page s1 a" using fresh G(3) by (simp add: fresh_page_def)
    note A = keeps_alloc [OF al fr1 fresh1 sz(2)]
    show ?thesis
    proof (cases "st1 = B_OK")
      case False
      then show ?thesis using A res1 al G keeps_trans [OF G(1)] \<open>\<not> (case cur_page s1 n of None \<Rightarrow> False | Some p \<Rightarrow> bp_data p + bp_used p = ?d)\<close>
        by (auto simp: sz_def)
    next
      case True
      then obtain slot p where p: "td_current (ab_tables s2 n) = Some slot" "ab_pages s2 slot = Some p" "bp_data p + bp_used p = b" "bp_used p + sz \<le> bp_size p"
        using A by blast
      have cnt: "?c < maxRecordInBlock" using A True k1 by simp
      have k12: "keeps s1 s2" using A by blast
      have k2: "keeps s s2" by (rule keeps_trans [OF G(1) k12])
      have fr2: "ab_frame s2" by (rule keepsD(1) [OF k12])
      have mem: "ab_mem s2 = ab_mem s" using A G(2) by simp
      define m where "m = write_bytes (ab_mem s) b (read_bytes (ab_mem s) ?d sz)"
      define s3 where "s3 = s2\<lparr>ab_mem := m\<rparr>"
      have k3: "keeps s s3"
      proof -
        have "in_free s2 j" if "m j \<noteq> ab_mem s2 j" for j
        proof -
          have "b \<le> j" "j < b + sz" using that unfolding m_def mem write_bytes_def by (auto split: if_splits)
          then show ?thesis using p(2-4) unfolding in_free_def by fastforce
        qed
        then show ?thesis using keeps_trans [OF k2] keeps_write [OF fr2] free_unused [OF fr2] unfolding s3_def by blast
      qed
      note fr3 = keepsD(1) [OF k3] and c3 = keepsD(2,3) [OF k3]
      note M = memcpy_ok [OF _ sz_def, of m b, OF _ m_def]
      have res2: "(case meta of Some t \<Rightarrow> stamp_record s3 n (Dml (dml_load m b t))
          | None \<Rightarrow> if head_type m b = RTYPE R_DDL then stamp_record s3 n (Other b) else Inl Aborted) = Inr (st, r', s')"
        using res1 unfolding if_not_P [OF False] Let_def G(2) sz_def [symmetric] al prod.case True mem m_def [symmetric] s3_def [symmetric] by simp
      define r2 where "r2 = (case meta of Some t \<Rightarrow> Dml (dml_load m b t) | None \<Rightarrow> Other b)"
      have r2: "rec_data r2 = b" by (cases meta) (simp_all add: r2_def dml_load_def Let_def)
      have st2: "stamp_record s3 n r2 = Inr (st, r', s')" using res2 by (cases meta) (auto simp only: r2_def option.case split: if_splits)
      have "head_size (ab_mem s3) (rec_data r2) = sz" using M(1) sz(1) r2(1) by (simp add: s3_def)
      then show ?thesis using stamp_ok [OF fr3, of n slot p r2] p r2 st2 cnt c3 sz(1) M(2) A G(4) keeps_trans [OF k3]
        by (auto simp: s3_def recordHeadSize_def sz_def [symmetric])
    qed
  qed
qed

section \<open>Appending\<close>

definition record_bytes :: "mem \<Rightarrow> nat \<Rightarrow> u8 list" where
  "record_bytes m a = read_bytes m a (head_size m a)"

lemma obind_Some: "obind x f = Some (Inr b) \<longleftrightarrow> (\<exists>a. x = Some (Inr a) \<and> f a = Some (Inr b))"
  by (auto simp: obind_def split: option.splits sum.splits)

lemma append_indexes_keeps:
  assumes "append_indexes ops s r = Some (Inr s')" and "ab_frame s"
  shows "keeps s s' \<and> ab_mem s' = ab_mem s \<and> ab_pages s' = ab_pages s \<and> ab_recordIDs s' = ab_recordIDs s"
proof -
  obtain n t where "s' = s\<lparr>ab_tables := (ab_tables s)(n := t)\<rparr>" "td_current t = td_current (ab_tables s n)" "td_pageSize t = td_pageSize (ab_tables s n)"
    using assms(1) by (auto simp: append_indexes_def obind_Some Let_def split: option.splits)
  then show ?thesis using keeps_tables(1) [OF assms(2), of "(ab_tables s)(n := t)"] ab_frameD(4) [OF assms(2)] by auto
qed

lemma ab_append_ok:
  assumes inv: "ab_inv s" and fresh: "fresh_page s a" and src: "source_ok s a (rec_data r)" and res: "ab_append ops a redo s r = Some (Inr (st, s'))"
  shows "ab_inv s' \<and> ab_minRecordId s' = ab_minRecordId s \<and>
    ab_contents s' = ab_contents s @ (if st = B_OK then [stamp_bytes (ab_minRecordId s + ab_recordCount s) (record_bytes (ab_mem s) (rec_data r))] else []) \<and>
    (st = B_OK \<longrightarrow> ab_maxLogOffset s \<le> head_logOffset (ab_mem s) (rec_data r) \<and>
      ab_maxLogOffset s' = head_logOffset (ab_mem s') (entry_addr s' (ab_recordCount s))) \<and> (st \<noteq> B_OK \<longrightarrow> ab_maxLogOffset s' = ab_maxLogOffset s)"
proof (cases "ab_maxLogOffset s > head_logOffset (ab_mem s) (rec_data r)")
  case True
  then show ?thesis using res inv by (auto simp: ab_append_def)
next
  case False
  let ?c = "ab_recordCount s"
  have fr: "ab_frame s" using inv by (simp add: ab_inv_def ab_inv_upto_def)
  obtain st1 r1 s1 where cp: "copyRecord ops a s r = Inr (st1, r1, s1)" using res False by (auto simp: ab_append_def split: sum.splits)
  note C = copyRecord_ok [OF fr fresh src cp]
  have k1: "keeps s s1" using C by blast
  show ?thesis
  proof (cases "st1 = B_OK \<and> \<not> (ab_hasRedo s1 \<and> redo \<noteq> B_OK)")
    case failed: False
    then have "st \<noteq> B_OK" "s' = s1" using res False cp by (auto simp: ab_append_def split: if_splits)
    then show ?thesis using keeps_inv [OF k1 inv] keepsD [OF k1] by simp
  next
    case ok: True
    obtain s2 where s2: "keeps s1 s2" "ab_mem s2 = ab_mem s1" "ab_pages s2 = ab_pages s1" "ab_recordIDs s2 = ab_recordIDs s1"
      and fin: "st = B_OK" "s' = finish_append s2 (rec_data r1)"
      using res False cp ok append_indexes_keeps [OF _ keepsD(1) [OF k1]] keeps_refl [OF keepsD(1) [OF k1]]
      by (auto simp: ab_append_def obind_Some split: brec.splits if_splits)
    have k2: "keeps s s2" by (rule keeps_trans [OF k1 s2(1)])
    have e: "entry_addr s2 = entry_addr s1" "entry_bytes s2 = entry_bytes s1" "entry_ok s2 = entry_ok s1"
      using entry_cong [of s2 s1] s2 by (auto simp: fun_eq_iff)
    have e': "entry_addr s' = entry_addr s2" "entry_bytes s' = entry_bytes s2" "entry_ok s' = entry_ok s2"
      using entry_cong [of s' s2] fin by (auto simp: finish_append_def Let_def fun_eq_iff)
    have new: "entry_ok s' ?c" "entry_addr s' ?c = rec_data r1" "entry_bytes s' ?c = stamp_bytes (ab_minRecordId s + ?c) (record_bytes (ab_mem s) (rec_data r))"
      using C ok e e' by (simp_all add: record_bytes_def)
    have c: "ab_recordCount s' = ?c + 1" "ab_minRecordId s' = ab_minRecordId s" "ab_maxLogOffset s' = head_logOffset (ab_mem s') (rec_data r1)"
      using fin keepsD [OF k2] by (simp_all add: finish_append_def Let_def)
    have cnt: "?c < maxRecordInBlock" using C ok by simp
    have "ab_frame s'" using keepsD(1,2) [OF k2] cnt fin by (simp add: ab_frame_def finish_append_def Let_def page_ok_def)
    moreover have "entry_ok s' i" if "i < ?c + 1" for i using that new(1) k2 inv e' by (auto simp: keeps_def ab_inv_def ab_inv_upto_def less_Suc_eq)
    ultimately have "ab_inv s'" by (simp add: ab_inv_def ab_inv_upto_def c(1))
    moreover have "map (entry_bytes s') [0..<?c] = map (entry_bytes s) [0..<?c]" using k2 inv e' by (auto simp: keeps_def ab_inv_def ab_inv_upto_def)
    ultimately show ?thesis using c new False fin by (simp add: ab_contents_def)
  qed
qed

section \<open>Histories\<close>

text \<open>
  A block that starts empty, in memory that its callers write outside the used parts of its pages, from which they take space for records, and to which
  they append; \<open>log\<close> are the bytes of the accepted records.
\<close>

inductive ab_reach :: "'ix indexOps \<Rightarrow> 'ix appendingBlock \<Rightarrow> u8 list list \<Rightarrow> bool" for ops where
  new: "bufSize div (32 * 1204) mod 2 ^ 16 \<le> 4096 \<Longrightarrow> ab_reach ops (ab_new blockId hasRedo bufSize startID m userData) []"
| caller: "ab_reach ops s log \<Longrightarrow> (\<And>j. m' j \<noteq> ab_mem s j \<Longrightarrow> unused s j) \<Longrightarrow> ab_reach ops (s\<lparr>ab_mem := m'\<rparr>) log"
| alloc: "ab_reach ops s log \<Longrightarrow> fresh_page s a \<Longrightarrow> sz \<le> 2 ^ 20 \<Longrightarrow> allocMemForRecord a s n sz = (st, b, s') \<Longrightarrow> ab_reach ops s' log"
| append: "ab_reach ops s log \<Longrightarrow> fresh_page s a \<Longrightarrow> source_ok s a (rec_data r) \<Longrightarrow> ab_append ops a redo s r = Some (Inr (st, s')) \<Longrightarrow>
    ab_reach ops s' (if st = B_OK then log @ [stamp_bytes (ab_minRecordId s + length log) (record_bytes (ab_mem s) (rec_data r))] else log)"

lemma new_inv: "bufSize div (32 * 1204) mod 2 ^ 16 \<le> 4096 \<Longrightarrow> ab_inv (ab_new blockId hasRedo bufSize startID m userData)"
  by (simp add: ab_inv_def ab_inv_upto_def ab_frame_def ab_new_def defaultData_def)

definition bytes_logOffset :: "u8 list \<Rightarrow> nat" where "bytes_logOffset bs = le_val (take 8 (drop 18 bs))"
definition bytes_recordId :: "u8 list \<Rightarrow> nat" where "bytes_recordId bs = le_val (take 8 (drop 10 bs))"

lemma take_drop_read: "j + k \<le> n \<Longrightarrow> take k (drop j (read_bytes m a n)) = read_bytes m (a + j) k"
  by (rule nth_equalityI) (simp_all add: add.assoc)

lemma bytes_fields:
  assumes "recordHeadSize \<le> head_size m a"
  shows "bytes_logOffset (record_bytes m a) = head_logOffset m a" and "bytes_recordId (record_bytes m a) = head_recordId m a"
    and "bytes_logOffset (stamp_bytes v (record_bytes m a)) = head_logOffset m a" and "bytes_recordId (stamp_bytes v (record_bytes m a)) = v mod 2 ^ 64"
proof -
  have n: "26 \<le> head_size m a" using assms by (simp add: recordHeadSize_def)
  show "bytes_logOffset (record_bytes m a) = head_logOffset m a" "bytes_recordId (record_bytes m a) = head_recordId m a"
    using n by (simp_all add: bytes_logOffset_def bytes_recordId_def record_bytes_def take_drop_read head_logOffset_def head_recordId_def rd_def H_recordId_def)
  then show "bytes_logOffset (stamp_bytes v (record_bytes m a)) = head_logOffset m a"
    using n by (simp add: bytes_logOffset_def stamp_bytes_def record_bytes_def)
  show "bytes_recordId (stamp_bytes v (record_bytes m a)) = v mod 2 ^ 64"
    using n by (simp add: bytes_recordId_def stamp_bytes_def record_bytes_def le_val_le_bytes)
qed

text \<open>What every history keeps.\<close>

lemma reach_inv:
  assumes "ab_reach ops s log"
  shows "ab_inv s \<and> ab_contents s = log \<and> sorted (map bytes_logOffset log) \<and> (\<forall>bs \<in> set log. bytes_logOffset bs \<le> ab_maxLogOffset s) \<and>
    (\<forall>i<length log. bytes_recordId (log ! i) = (ab_minRecordId s + i) mod 2 ^ 64) \<and> (log \<noteq> [] \<longrightarrow> ab_maxLogOffset s = bytes_logOffset (last log))"
  using assms
proof induction
  case (new bufSize blockId hasRedo startID m userData)
  then show ?case using new_inv by (fastforce simp: ab_contents_def ab_new_def)
next
  case (caller s log m')
  have k: "keeps s (s\<lparr>ab_mem := m'\<rparr>)" using caller by (intro keeps_write) (simp_all add: ab_inv_def ab_inv_upto_def)
  then show ?case using caller keeps_inv [OF k] by simp
next
  case (alloc s log a sz n st b s')
  have "keeps s s'" using keeps_alloc [OF alloc(4) _ alloc(2,3)] alloc.IH by (simp add: ab_inv_def ab_inv_upto_def)
  then show ?case using alloc.IH keeps_inv [of s s'] keepsD [of s s'] by simp
next
  case (append s log a r redo st s')
  have IH: "ab_inv s" "ab_contents s = log" and n: "ab_recordCount s = length log" using append.IH by (auto simp: ab_contents_def)
  note A = ab_append_ok [OF IH(1) append(2-4)]
  show ?case
  proof (cases "st = B_OK")
    case False
    then show ?thesis using A append.IH by simp
  next
    case True
    let ?v = "ab_minRecordId s + length log" and ?b = "record_bytes (ab_mem s) (rec_data r)"
    have h: "recordHeadSize \<le> head_size (ab_mem s) (rec_data r)" using append(3) by (simp add: source_ok_def Let_def)
    have c: "ab_contents s' = log @ [stamp_bytes ?v ?b]" using A True IH(2) n by simp
    then have n': "ab_recordCount s' = length log + 1" by (metis ab_contents_def diff_zero length_append_singleton length_map length_upt Suc_eq_plus1)
    then have ok: "entry_ok s' (length log)" and e: "entry_bytes s' (length log) = stamp_bytes ?v ?b"
      using A c by (auto simp: ab_inv_def ab_inv_upto_def ab_contents_def)
    have "recordHeadSize \<le> head_size (ab_mem s') (entry_addr s' (length log))" using ok by (auto simp: entry_ok_def)
    then have "ab_maxLogOffset s' = bytes_logOffset (stamp_bytes ?v ?b)" using A True n e bytes_fields(1) [of "ab_mem s'" "entry_addr s' (length log)"]
      by (simp add: entry_bytes_def record_bytes_def)
    then have m: "ab_maxLogOffset s' = head_logOffset (ab_mem s) (rec_data r)" using bytes_fields(3) [OF h] by simp
    have "\<forall>bs \<in> set log. bytes_logOffset bs \<le> head_logOffset (ab_mem s) (rec_data r)" using A True append.IH by fastforce
    then show ?thesis using True A c m n append.IH bytes_fields(3,4) [OF h] by (auto simp: sorted_append nth_append less_Suc_eq)
  qed
qed

section \<open>Access\<close>

lemma getRecord_entry:
  assumes "ab_inv s" and "i < ab_recordCount s"
  shows "getRecordByIdx s i = Inr (entry_addr s i)" and "getRecord s (ab_minRecordId s + i) = Inr (entry_addr s i)"
proof -
  have fr: "ab_frame s" and ok: "entry_ok s i" using assms by (simp_all add: ab_inv_def ab_inv_upto_def)
  obtain p where p: "ab_pages s (pos_pageId (ab_recordIDs s i)) = Some p" using ok by (auto simp: entry_ok_def)
  have b: "i < maxRecordInBlock" using fr assms(2) by (simp add: ab_frame_def)
  show 1: "getRecordByIdx s i = Inr (entry_addr s i)"
    using b assms(2) p ab_frameD(1) [OF fr p] by (simp add: getRecordByIdx_def entry_addr_def)
  have "(ab_minRecordId s + i + 2 ^ 64 - ab_minRecordId s) mod 2 ^ 64 = i" using b by (simp add: maxRecordInBlock_def)
  then show "getRecord s (ab_minRecordId s + i) = Inr (entry_addr s i)"
    using 1 p ab_frameD(1) [OF fr p] unfolding getRecord_def Let_def by simp
qed

lemma reach_nth:
  assumes "ab_reach ops s log"
  shows "ab_recordCount s = length log" and "i < length log \<Longrightarrow> log ! i = entry_bytes s i"
proof -
  have c: "ab_contents s = log" using reach_inv [OF assms] by blast
  then show n: "ab_recordCount s = length log" by (auto simp: ab_contents_def)
  have "ab_contents s ! i = entry_bytes s i" if "i < length log" using that n by (simp add: ab_contents_def)
  then show "i < length log \<Longrightarrow> log ! i = entry_bytes s i" unfolding c .
qed

lemma reach_record:
  assumes "ab_reach ops s log" and "i < length log"
  shows "\<exists>a. getRecord s (ab_minRecordId s + i) = Inr a \<and> getRecordByIdx s i = Inr a \<and> record_bytes (ab_mem s) a = log ! i"
proof -
  have inv: "ab_inv s" using reach_inv [OF assms(1)] by blast
  have i: "i < ab_recordCount s" and e: "log ! i = entry_bytes s i" using reach_nth [OF assms(1)] assms(2) by simp_all
  show ?thesis using getRecord_entry [OF inv i] e by (simp add: entry_bytes_def record_bytes_def)
qed

text \<open>
  C1: In every history of a block, whether a record was built in place in a page or elsewhere and copied, every accepted record is found by its id with exactly
  the bytes it had when it was appended and its id filled in, also after all later allocations and appends; rejected records leave no
  trace, ids are consecutive, and log offsets never descend.
\<close>

theorem appendingBlock_refines_log:
  assumes "ab_reach ops s log"
  shows "ab_recordCount s = length log \<and> sorted (map bytes_logOffset log) \<and>
    (\<forall>i<length log. bytes_recordId (log ! i) = (ab_minRecordId s + i) mod 2 ^ 64 \<and>
      (\<exists>a. getRecord s (ab_minRecordId s + i) = Inr a \<and> record_bytes (ab_mem s) a = log ! i))"
  using reach_inv [OF assms] reach_record [OF assms] reach_nth(1) [OF assms] by blast

text \<open>Two DDL records at the addresses 0 and 100, appended to a block whose next page is at \<open>2 ^ 20\<close>.\<close>

definition ddl_mem :: mem where
  "ddl_mem = (\<lambda>i. if i \<in> {0, 100} then 38 else if i \<in> {6, 106} then 5 else if i = 18 then 3 else if i = 118 then 9 else 0)"

definition sample_block :: "unit appendingBlock" where
  "sample_block = ab_new 1 False 385280 0 ddl_mem (\<lambda>_. None)"

definition no_index :: "unit indexOps" where
  "no_index = \<lparr>ix_new = (\<lambda>_ _. Inr ()), ix_append = (\<lambda>_ _ _ _. Some (Inr ())), ix_find = (\<lambda>_ _ _. Some (Inr (-1)))\<rparr>"

definition sample_step :: "unit appendingBlock \<Rightarrow> nat \<Rightarrow> unit appendingBlock" where
  "sample_step s d = (case ab_append no_index 0x100000 B_OK s (Other d) of Some (Inr (_, s')) \<Rightarrow> s' | _ \<Rightarrow> s)"

lemmas block_eval = ab_append_def copyRecord_def is_dml_def getTableData_def cur_page_def allocMemForRecord_def stamp_record_def finish_append_def
  maxRecordInBlock_def index_pages_def obind_def Let_def

lemma sample_head:
  assumes "\<And>j. j < 0x100000 \<Longrightarrow> m j = ddl_mem j"
  shows "head_size m 0 = 38" "head_type m 0 = 5" "head_logOffset m 0 = 3" "head_size m 100 = 38" "head_type m 100 = 5" "head_logOffset m 100 = 9"
  using assms by (simp_all add: ddl_mem_def head_size_def head_logOffset_def H_size_def H_type_def read_eval)

lemma sample_step1:
  "ab_append no_index 0x100000 B_OK sample_block (Other 0) = Some (Inr (B_OK, sample_step sample_block 0))"
  "ab_pages (sample_step sample_block 0) = [0 \<mapsto> \<lparr>bp_pageId = 0, bp_used = 38, bp_size = 4096, bp_data = 0x100000\<rparr>]"
  "ab_recordCount (sample_step sample_block 0) = 1" "td_current (ab_tables (sample_step sample_block 0) 0) = Some 0"
  "ab_hasRedo (sample_step sample_block 0) = False" "j < 0x100000 \<Longrightarrow> ab_mem (sample_step sample_block 0) j = ddl_mem j"
  "ab_maxLogOffset (sample_step sample_block 0) = 3" "ab_minRecordId (sample_step sample_block 0) = 0"
proof -
  note h = sample_head [of ddl_mem, OF refl]
  define m where "m = write_bytes ddl_mem 0x100000 (read_bytes ddl_mem 0 38)"
  have m: "head_type m 0x100000 = 5" "head_size (wr 8 m 0x10000A 0) 0x100000 = 38" "head_logOffset (wr 8 m 0x10000A 0) 0x100000 = 3"
    using memcpy_ok(1,3,4) [of 38 ddl_mem 0 m "0x100000"] h by (simp_all add: m_def head_size_def head_logOffset_def H_size_def mem_simps)
  note e = sample_step_def block_eval sample_block_def ab_new_def defaultData_def h m_def [symmetric] m H_recordId_def
  show "ab_append no_index 0x100000 B_OK sample_block (Other 0) = Some (Inr (B_OK, sample_step sample_block 0))"
    "ab_pages (sample_step sample_block 0) = [0 \<mapsto> \<lparr>bp_pageId = 0, bp_used = 38, bp_size = 4096, bp_data = 0x100000\<rparr>]"
    "ab_recordCount (sample_step sample_block 0) = 1" "td_current (ab_tables (sample_step sample_block 0) 0) = Some 0"
    "ab_hasRedo (sample_step sample_block 0) = False" "ab_maxLogOffset (sample_step sample_block 0) = 3" "ab_minRecordId (sample_step sample_block 0) = 0"
    using h m by (simp_all add: e)
  show "j < 0x100000 \<Longrightarrow> ab_mem (sample_step sample_block 0) j = ddl_mem j" 
    using h m by (simp add: e) (simp add: m_def mem_simps)
qed

lemma sample_reach1: "ab_reach no_index (sample_step sample_block 0) [stamp_bytes 0 (record_bytes ddl_mem 0)]"
proof -
  have n: "ab_reach no_index sample_block []" unfolding sample_block_def by (rule ab_reach.new) simp
  have f: "fresh_page sample_block 0x100000" "source_ok sample_block 0x100000 (rec_data (Other 0))"
    using sample_head [of ddl_mem] by (simp_all add: fresh_page_def source_ok_def sample_block_def ab_new_def in_free_def recordHeadSize_def)
  show ?thesis using ab_reach.append [OF n f sample_step1(1)] by (simp add: sample_block_def ab_new_def)
qed

theorem appendingBlock_refines_log_witness:
  "\<exists>a. getRecord (sample_step sample_block 0) (ab_minRecordId (sample_step sample_block 0) + 0) = Inr a \<and>
    record_bytes (ab_mem (sample_step sample_block 0)) a = [stamp_bytes 0 (record_bytes ddl_mem 0)] ! 0"
  using appendingBlock_refines_log [OF sample_reach1] by simp

section \<open>Searching by log offset\<close>

lemma logOffset_entry:
  assumes "ab_reach ops s log" and "i < length log"
  shows "logOffset_at s (ab_minRecordId s + i) = Inr (bytes_logOffset (log ! i))"
proof -
  have inv: "ab_inv s" using reach_inv [OF assms(1)] by blast
  have "recordHeadSize \<le> head_size (ab_mem s) (entry_addr s i)" using inv assms(2) reach_nth(1) [OF assms(1)]
    by (auto simp: ab_inv_def ab_inv_upto_def entry_ok_def)
  then show ?thesis
    using getRecord_entry(2) [OF inv, of i] assms(2) reach_nth [OF assms(1)] bytes_fields(1) [of "ab_mem s" "entry_addr s i"]
    by (simp add: logOffset_at_def entry_bytes_def record_bytes_def)
qed

text \<open>
  C35: The bounds that \<^verbatim>\<open>findRecordIDByOffset\<close> tests first are the wrong way round: as soon as the log offsets of the first and the last record of a
  block differ, it finds no offset at all, not even one that a record has.
\<close>

theorem findRecordIDByOffset_never_finds:
  assumes "ab_reach ops s log" and "log \<noteq> []" and "bytes_logOffset (hd log) \<noteq> bytes_logOffset (last log)"
  shows "findRecordIDByOffset s offset = Inr 0"
proof -
  have R: "ab_contents s = log" "sorted (map bytes_logOffset log)" using reach_inv [OF assms(1)] by blast+
  then have n: "ab_recordCount s = length log" by (auto simp: ab_contents_def)
  have 0: "0 < length log" using assms(2) by simp
  have f: "logOffset_at s (ab_minRecordId s) = Inr (bytes_logOffset (hd log))" using logOffset_entry [OF assms(1) 0] assms(2) by (simp add: hd_conv_nth)
  have l: "logOffset_at s (ab_minRecordId s + length log - 1) = Inr (bytes_logOffset (last log))"
    using logOffset_entry [OF assms(1), of "length log - 1"] 0 assms(2) by (simp add: last_conv_nth)
  have "bytes_logOffset (hd log) \<le> bytes_logOffset (last log)"
    using sorted_nth_mono [OF R(2), of 0 "length log - 1"] 0 assms(2) by (simp add: hd_conv_nth last_conv_nth)
  then have "bytes_logOffset (hd log) < bytes_logOffset (last log)" using assms(3) by simp
  then show ?thesis using f l n assms(2) by (auto simp: findRecordIDByOffset_def Let_def)
qed

lemma sample_reach2:
  "\<exists>s. ab_reach no_index s [stamp_bytes 0 (record_bytes ddl_mem 0), stamp_bytes 1 (record_bytes ddl_mem 100)]"
proof -
  define s where "s = sample_step sample_block 0"
  note f = sample_step1(2-) [folded s_def]
  note h = sample_head [of "ab_mem s", OF f(5)]
  define m where "m = write_bytes (ab_mem s) 0x100026 (read_bytes (ab_mem s) 100 38)"
  have m: "head_type m 0x100026 = 5" using memcpy_ok(3) [OF _ h(4) [symmetric] m_def] h(5) by simp
  obtain s' where s': "ab_append no_index 0x200000 B_OK s (Other 100) = Some (Inr (B_OK, s'))"
    using h m f by (simp add: block_eval m_def [symmetric])
  have fr: "fresh_page s 0x200000" using f(1) by (simp add: fresh_page_def)
  have src: "source_ok s 0x200000 (rec_data (Other 100))" using h f(1) by (auto simp: source_ok_def in_free_def recordHeadSize_def split: if_splits)
  have "record_bytes (ab_mem s) 100 = record_bytes ddl_mem 100"
  proof -
    have "head_size (ab_mem s) 100 = 38" "head_size ddl_mem 100 = 38" using h sample_head [of ddl_mem] by simp_all
    moreover have "read_bytes (ab_mem s) 100 38 = read_bytes ddl_mem 100 38" by (rule read_bytes_cong) (simp add: f(5))
    ultimately show ?thesis by (simp only: record_bytes_def)
  qed
  then show ?thesis using ab_reach.append [OF sample_reach1 [folded s_def] fr src s'] f by auto
qed

theorem findRecordIDByOffset_never_finds_witness:
  "\<exists>s log. ab_reach no_index s log \<and> bytes_logOffset (last log) = 9 \<and> findRecordIDByOffset s 9 = Inr 0"
proof -
  let ?log = "[stamp_bytes 0 (record_bytes ddl_mem 0), stamp_bytes 1 (record_bytes ddl_mem 100)]"
  obtain s where s: "ab_reach no_index s ?log" using sample_reach2 by blast
  have h: "bytes_logOffset (hd ?log) = 3" "bytes_logOffset (last ?log) = 9"
    using bytes_fields(3) [of ddl_mem 0] bytes_fields(3) [of ddl_mem 100] sample_head [of ddl_mem] by (simp_all add: recordHeadSize_def)
  then show ?thesis using findRecordIDByOffset_never_finds [OF s, of 9] s by (intro exI [of _ s] exI [of _ ?log]) simp
qed

end
