(* ===== verification/BlockIterators.thy ===== *)
theory BlockIterators
  imports BlockProofs
begin

unbundle bit_operations_syntax

text \<open>
  The iterators over the records of a block that is being written (\<^verbatim>\<open>database/appendingBlock.h\<close>, \<^verbatim>\<open>database/iterator.h\<close>) and the filter they
  apply (\<^verbatim>\<open>database/filter.h\<close>): moving forwards and backwards, and seeking a timestamp, a log offset and a record id.  Inner ids are
  32-bit numbers.  Waiting for a condition is left out: the status that follows it is returned.
\<close>

section \<open>Filters\<close>

record filterSpec =
  m_filterType :: u32
  m_startCheckpoint :: nat
  m_endCheckpoint :: nat
  m_typeBitmap :: "u8 list"

text \<open>The length of \<^verbatim>\<open>m_typeBitmap\<close>: the conditional operator takes the whole sum as its condition.\<close>

definition typeBitmap_size :: nat where
  "typeBitmap_size = (if drop_bit 3 (RTYPE MAX_RECORD_TYPE) + (RTYPE MAX_RECORD_TYPE AND 7) \<noteq> 0 then 1 else 0)"

definition test_type :: "filterSpec \<Rightarrow> nat \<Rightarrow> fault + bool" where
  "test_type f t = (if t div 8 < length (m_typeBitmap f) then Inr (bit (m_typeBitmap f ! (t div 8)) (t mod 8)) else Inl OutOfBounds)"

lemma typeBitmap_one_byte:
  assumes "length (m_typeBitmap f) = typeBitmap_size" and "8 \<le> t"
  shows "test_type f t = Inl OutOfBounds"
  using assms by (simp add: test_type_def typeBitmap_size_def drop_bit_eq_div)

definition filterByGeneralInfo :: "filterSpec \<Rightarrow> nat \<Rightarrow> nat \<Rightarrow> fault + bool" where
  "filterByGeneralInfo f recordType LogOffset =
     sbind (test_type f recordType) (\<lambda>b. Inr (b \<and> \<not> (m_filterType f AND 1 \<noteq> 0 \<and> (m_startCheckpoint f > LogOffset \<or> m_endCheckpoint f < LogOffset))))"

definition filterByRecord :: "filterSpec \<Rightarrow> mem \<Rightarrow> nat \<Rightarrow> fault + bool" where
  "filterByRecord f m a =
     sbind (test_type f (head_type m a)) (\<lambda>b. if \<not> b then Inr False
       else if m_filterType f AND 1 \<noteq> 0 \<and> (m_startCheckpoint f > head_logOffset m a \<or> m_endCheckpoint f < head_logOffset m a) then Inr False
       else Inr True)"

definition onlyNeedGeneralInfo :: "filterSpec \<Rightarrow> bool" where
  "onlyNeedGeneralInfo f \<longleftrightarrow> m_filterType f AND NOT 0x13 \<noteq> 0"

section \<open>Moving\<close>

datatype iter_status = S_OK | S_UNINIT | S_BLOCKED | S_INVALID | S_ENDED

record blockIter =
  bi_flag :: u32
  bi_filter :: "filterSpec option"
  bi_recordId :: nat
  bi_realRecordId :: nat
  bi_seekedId :: nat
  bi_status :: iter_status

definition ITER_FLAG_WAIT :: u32 where "ITER_FLAG_WAIT = 0x01"
definition ITER_FLAG_SCHEDULE :: u32 where "ITER_FLAG_SCHEDULE = 0x02"
definition ITER_FLAG_DESC :: u32 where "ITER_FLAG_DESC = 0x05"

definition descends :: "blockIter \<Rightarrow> bool" where
  "descends it \<longleftrightarrow> bi_flag it AND ITER_FLAG_DESC \<noteq> 0"

text \<open>The test of the loops, which passes the inner id to \<^verbatim>\<open>getRecord\<close>.\<close>

definition passes :: "'ix appendingBlock \<Rightarrow> filterSpec \<Rightarrow> nat \<Rightarrow> fault + bool" where
  "passes s f i = sbind (getRecord s i) (\<lambda>a. filterByRecord f (ab_mem s) a)"

definition at_record :: "'ix appendingBlock \<Rightarrow> blockIter \<Rightarrow> nat \<Rightarrow> blockIter" where
  "at_record s it i = it\<lparr>bi_seekedId := i, bi_recordId := i, bi_realRecordId := i + ab_minRecordId s, bi_status := S_OK\<rparr>"

text \<open>
  \<^verbatim>\<open>realNext\<close> runs only without \<^verbatim>\<open>ITER_FLAG_WAIT\<close>, whose bit is part of \<^verbatim>\<open>ITER_FLAG_DESC\<close>, so its wait for more records is never reached.
\<close>

function next_loop :: "'ix appendingBlock \<Rightarrow> blockIter \<Rightarrow> nat \<Rightarrow> fault + blockIter" where
  "next_loop s it i =
     (if i \<ge> ab_recordCount s then Inr (it\<lparr>bi_status := (if ab_finished s then S_ENDED else S_BLOCKED)\<rparr>)
      else case bi_filter it of None \<Rightarrow> Inr (at_record s it i)
        | Some f \<Rightarrow> (case passes s f i of Inl e \<Rightarrow> Inl e
          | Inr b \<Rightarrow> if b then Inr (at_record s it i) else next_loop s (it\<lparr>bi_seekedId := i\<rparr>) (i + 1)))"
  by pat_completeness auto
termination by (relation "measure (\<lambda>(s, it, i). ab_recordCount s - i)") auto

declare next_loop.simps [simp del]

definition realNext :: "'ix appendingBlock \<Rightarrow> blockIter \<Rightarrow> fault + blockIter" where
  "realNext s it = next_loop s it ((bi_seekedId it + 1) mod 2 ^ 32)"

fun prev_loop :: "'ix appendingBlock \<Rightarrow> blockIter \<Rightarrow> nat \<Rightarrow> fault + blockIter" where
  "prev_loop s it 0 = Inr (it\<lparr>bi_seekedId := 0, bi_status := S_ENDED\<rparr>)"
| "prev_loop s it (Suc i) =
     (case bi_filter it of None \<Rightarrow> Inl NullDeref
      | Some f \<Rightarrow> (case passes s f i of Inl e \<Rightarrow> Inl e | Inr b \<Rightarrow> if b then Inr (at_record s it i) else prev_loop s it i))"

definition realPrev :: "'ix appendingBlock \<Rightarrow> blockIter \<Rightarrow> fault + blockIter" where
  "realPrev s it = prev_loop s it (bi_seekedId it)"

definition iter_next :: "'ix appendingBlock \<Rightarrow> blockIter \<Rightarrow> fault + blockIter" where
  "iter_next s it = (if \<not> descends it then realNext s it else realPrev s it)"

definition iter_begin :: "'ix appendingBlock \<Rightarrow> blockIter \<Rightarrow> fault + blockIter" where
  "iter_begin s it =
     (let i = (if descends it then ab_recordCount s else 0);
          it = it\<lparr>bi_recordId := i, bi_seekedId := i, bi_realRecordId := ab_minRecordId s + i\<rparr> in
      case bi_filter it of None \<Rightarrow> Inr (it\<lparr>bi_status := S_OK\<rparr>)
      | Some f \<Rightarrow> sbind (passes s f i) (\<lambda>b. if \<not> b then iter_next s it else Inr (it\<lparr>bi_status := S_OK\<rparr>)))"

definition iter_new :: "'ix appendingBlock \<Rightarrow> filterSpec option \<Rightarrow> u32 \<Rightarrow> fault + blockIter" where
  "iter_new s f flag = iter_begin s \<lparr>bi_flag = flag, bi_filter = f, bi_recordId = 0, bi_realRecordId = 0, bi_seekedId = 0, bi_status = S_INVALID\<rparr>"

definition iter_valid :: "'ix appendingBlock \<Rightarrow> blockIter \<Rightarrow> bool" where
  "iter_valid s it \<longleftrightarrow> bi_recordId it < ab_recordCount s"

definition iter_value :: "'ix appendingBlock \<Rightarrow> blockIter \<Rightarrow> fault + nat" where
  "iter_value s it = getRecordByIdx s (bi_recordId it)"

section \<open>Seeking\<close>

text \<open>A timestamp: \<open>hit\<close> is the test of \<^verbatim>\<open>seekIncrease\<close> or of \<^verbatim>\<open>seekDecrease\<close>.\<close>

partial_function (option) ts_loop :: "(nat \<Rightarrow> bool) \<Rightarrow> 'ix appendingBlock \<Rightarrow> blockIter \<Rightarrow> (fault + bool \<times> blockIter) option" where
  [code]: "ts_loop hit s it =
     (case iter_next s it of Inl e \<Rightarrow> Some (Inl e)
      | Inr it \<Rightarrow>
        (if bi_status it \<noteq> S_OK then Some (Inr (False, if bi_status it \<noteq> S_INVALID then it\<lparr>bi_recordId := 0xfffffffe\<rparr> else it))
         else if \<not> iter_valid s it then Some (Inr (False, it))
         else case iter_value s it of Inl e \<Rightarrow> Some (Inl e)
           | Inr a \<Rightarrow> if hit (head_timestamp (ab_mem s) a) then Some (Inr (True, it\<lparr>bi_status := S_OK\<rparr>)) else ts_loop hit s it))"

definition timestamp_seek :: "'ix appendingBlock \<Rightarrow> blockIter \<Rightarrow> nat \<Rightarrow> (fault + bool \<times> blockIter) option" where
  "timestamp_seek s it timestamp =
     (let it = it\<lparr>bi_status := S_UNINIT\<rparr> in
      if ab_maxTime s < timestamp \<or> ab_minTime s > timestamp then Some (Inr (False, it))
      else let i = (if \<not> descends it then 2 ^ 32 - 1 else ab_recordCount s) in
        ts_loop (if \<not> descends it then (\<lambda>t. t \<ge> timestamp) else (\<lambda>t. t \<le> timestamp)) s (it\<lparr>bi_recordId := i, bi_seekedId := i\<rparr>))"

text \<open>A log offset, by bisection over the inner ids; the result of the loop is whether it met the offset, and the last bounds and position.\<close>

function ck_loop :: "'ix appendingBlock \<Rightarrow> nat \<Rightarrow> int \<Rightarrow> int \<Rightarrow> int \<Rightarrow> fault + bool \<times> int \<times> int \<times> int" where
  "ck_loop s logOffset b e m =
     (if b \<le> e
      then let m = (b + e) div 2 in
        (case logOffset_at s (nat m) of Inl f \<Rightarrow> Inl f
         | Inr offset \<Rightarrow> if logOffset > offset then ck_loop s logOffset (m + 1) e m
             else if logOffset < offset then ck_loop s logOffset b (m - 1) m else Inr (True, b, e, m))
      else Inr (False, b, e, m))"
  by pat_completeness auto
termination by (relation "measure (\<lambda>(s, l, b, e, m). nat (e - b + 1))") auto

declare ck_loop.simps [simp del]

text \<open>The neighbour of the last position that satisfies the direction of the iterator.\<close>

definition ck_pick :: "'ix appendingBlock \<Rightarrow> bool \<Rightarrow> nat \<Rightarrow> int \<Rightarrow> int \<Rightarrow> fault + int option" where
  "ck_pick s desc logOffset fin m =
     (let near = (\<lambda>o'. if desc then o' \<le> logOffset else o' \<ge> logOffset); k = (if desc then m - 1 else m + 1) in
      sbind (logOffset_at s (nat m)) (\<lambda>o'. if near o' then Inr (Some m)
      else if m = (if desc then 0 else fin) then Inr None
      else sbind (logOffset_at s (nat k)) (\<lambda>o'. Inr (if near o' then Some k else None))))"

text \<open>The step from the neighbour of the chosen position, which applies the filter.\<close>

definition ck_land :: "'ix appendingBlock \<Rightarrow> blockIter \<Rightarrow> int \<Rightarrow> fault + bool \<times> blockIter" where
  "ck_land s it m =
     (let i = nat (m mod 2 ^ 32) in
      sbind (iter_next s (it\<lparr>bi_recordId := i, bi_seekedId := i\<rparr>)) (\<lambda>it.
        if bi_status it \<noteq> S_OK then Inr (False, it\<lparr>bi_recordId := 0xfffffffe\<rparr>)
        else Inr (True, it\<lparr>bi_realRecordId := bi_recordId it + ab_minRecordId s\<rparr>)))"

definition checkpoint_seek :: "'ix appendingBlock \<Rightarrow> blockIter \<Rightarrow> nat \<Rightarrow> fault + bool \<times> blockIter" where
  "checkpoint_seek s it logOffset =
     (let it = it\<lparr>bi_status := S_UNINIT\<rparr>; fin = int (ab_recordCount s) - 1; desc = descends it in
      if ab_maxLogOffset s < logOffset \<or> ab_minLogOffset s > logOffset then Inr (False, it)
      else sbind (ck_loop s logOffset 0 fin 0) (\<lambda>(found, b, e, m).
        sbind (if found then Inr (Some m)
               else let m = (if e < 0 then 0 else m); m = (if b > fin then fin else m) in ck_pick s desc logOffset fin m) (\<lambda>r.
          case r of None \<Rightarrow> Inr (False, it) | Some m \<Rightarrow> ck_land s it (if \<not> desc then m - 1 else m + 1))))"

definition recordId_seek :: "'ix appendingBlock \<Rightarrow> blockIter \<Rightarrow> nat \<Rightarrow> fault + bool \<times> blockIter" where
  "recordId_seek s it recordId =
     (let it = it\<lparr>bi_status := S_UNINIT\<rparr> in
      if ab_minRecordId s > recordId \<or> (ab_minRecordId s + ab_recordCount s) mod 2 ^ 64 < recordId then Inr (False, it)
      else let i = (recordId + 2 ^ 32 - ab_minRecordId s - 1) mod 2 ^ 32 in
        sbind (iter_next s (it\<lparr>bi_recordId := i, bi_realRecordId := recordId, bi_seekedId := i\<rparr>)) (\<lambda>it.
          if bi_status it \<noteq> S_OK then Inr (False, it\<lparr>bi_recordId := 0xfffffffe\<rparr>) else Inr (True, it)))"

section \<open>Walking\<close>

text \<open>The records that a loop of \<^verbatim>\<open>value\<close> and \<^verbatim>\<open>next\<close> sees while the status is \<^verbatim>\<open>OK\<close>, for at most \<open>n\<close> turns.\<close>

fun iter_walk :: "nat \<Rightarrow> 'ix appendingBlock \<Rightarrow> blockIter \<Rightarrow> fault + u8 list list \<times> iter_status" where
  "iter_walk n s it =
     (if bi_status it \<noteq> S_OK then Inr ([], bi_status it)
      else case n of 0 \<Rightarrow> Inr ([], S_OK)
        | Suc n \<Rightarrow> sbind (iter_value s it) (\<lambda>a. sbind (iter_next s it) (\<lambda>it.
            sbind (iter_walk n s it) (\<lambda>(rs, st). Inr (record_bytes (ab_mem s) a # rs, st)))))"

section \<open>Filters on the bytes of a record\<close>

definition bytes_type :: "u8 list \<Rightarrow> nat" where "bytes_type bs = unat (bs ! 6)"
definition bytes_timestamp :: "u8 list \<Rightarrow> nat" where "bytes_timestamp bs = le_val (take 8 (drop 26 bs))"

definition accepts :: "filterSpec \<Rightarrow> u8 list \<Rightarrow> bool" where
  "accepts f bs \<longleftrightarrow> bit (m_typeBitmap f ! (bytes_type bs div 8)) (bytes_type bs mod 8) \<and>
     \<not> (m_filterType f AND 1 \<noteq> 0 \<and> (m_startCheckpoint f > bytes_logOffset bs \<or> m_endCheckpoint f < bytes_logOffset bs))"

definition filter_covers :: "filterSpec \<Rightarrow> u8 list list \<Rightarrow> bool" where
  "filter_covers f log \<longleftrightarrow> (\<forall>bs \<in> set log. bytes_type bs div 8 < length (m_typeBitmap f))"

text \<open>The records that an iterator shows, and what it may assume.\<close>

definition shows_rec :: "filterSpec option \<Rightarrow> u8 list \<Rightarrow> bool" where
  "shows_rec fo bs = (case fo of None \<Rightarrow> True | Some f \<Rightarrow> accepts f bs)"

definition filter_usable :: "'ix appendingBlock \<Rightarrow> filterSpec option \<Rightarrow> u8 list list \<Rightarrow> bool" where
  "filter_usable s fo log = (case fo of None \<Rightarrow> True | Some f \<Rightarrow> ab_minRecordId s = 0 \<and> filter_covers f log)"

lemma reach_entry:
  assumes "ab_reach ops s log" and "i < length log"
  shows "ab_inv s" and "i < ab_recordCount s" and "log ! i = record_bytes (ab_mem s) (entry_addr s i)"
    and "recordHeadSize \<le> head_size (ab_mem s) (entry_addr s i)" and "length log \<le> maxRecordInBlock"
proof -
  show inv: "ab_inv s" using reach_inv [OF assms(1)] by blast
  show i: "i < ab_recordCount s" and "log ! i = record_bytes (ab_mem s) (entry_addr s i)"
    using reach_nth [OF assms(1)] assms(2) by (simp_all add: entry_bytes_def record_bytes_def)
  show "recordHeadSize \<le> head_size (ab_mem s) (entry_addr s i)" using inv i by (auto simp: ab_inv_def ab_inv_upto_def entry_ok_def)
  show "length log \<le> maxRecordInBlock" using inv reach_nth(1) [OF assms(1)] by (simp add: ab_inv_def ab_inv_upto_def ab_frame_def)
qed

lemma bytes_more_fields:
  assumes "recordHeadSize \<le> head_size m a"
  shows "bytes_type (record_bytes m a) = head_type m a" and "bytes_timestamp (record_bytes m a) = head_timestamp m a"
proof -
  have n: "34 \<le> head_size m a" using assms by (simp add: recordHeadSize_def)
  show "bytes_type (record_bytes m a) = head_type m a" using n by (simp add: bytes_type_def record_bytes_def H_type_def)
  show "bytes_timestamp (record_bytes m a) = head_timestamp m a"
    using n by (simp add: bytes_timestamp_def record_bytes_def take_drop_read head_timestamp_def rd_def)
qed

lemma passes_accepts:
  assumes "ab_reach ops s log" and "i < length log" and "ab_minRecordId s = 0" and "filter_covers f log"
  shows "passes s f i = Inr (accepts f (log ! i))"
proof -
  note e = reach_entry [OF assms(1,2)]
  have g: "getRecord s i = Inr (entry_addr s i)" using getRecord_entry(2) [OF e(1,2)] assms(3) by simp
  have "bytes_type (log ! i) div 8 < length (m_typeBitmap f)" using assms(2,4) by (simp add: filter_covers_def)
  then show ?thesis using g bytes_fields(1) [OF e(4)] bytes_more_fields(1) [OF e(4)] e(3)
    by (simp add: passes_def filterByRecord_def test_type_def accepts_def)
qed

section \<open>Walking shows the accepted records\<close>

definition stop_status :: "'ix appendingBlock \<Rightarrow> iter_status" where
  "stop_status s = (if ab_finished s then S_ENDED else S_BLOCKED)"

lemma next_loop_finds:
  assumes "ab_reach ops s log" and "filter_usable s (bi_filter it) log"
  shows "(\<exists>k. i \<le> k \<and> k < length log \<and> shows_rec (bi_filter it) (log ! k) \<and> (\<forall>j. i \<le> j \<and> j < k \<longrightarrow> \<not> shows_rec (bi_filter it) (log ! j)) \<and>
      next_loop s it i = Inr (at_record s it k)) \<or>
    ((\<forall>j. i \<le> j \<and> j < length log \<longrightarrow> \<not> shows_rec (bi_filter it) (log ! j)) \<and> (\<exists>q. next_loop s it i = Inr (it\<lparr>bi_seekedId := q, bi_status := stop_status s\<rparr>)))"
  using assms
proof (induction s it i rule: next_loop.induct)
  case (1 s it i)
  have n: "ab_recordCount s = length log" using reach_nth(1) [OF 1(2)] .
  show ?case
  proof (cases "i < length log")
    case False
    then have "next_loop s it i = Inr (it\<lparr>bi_seekedId := bi_seekedId it, bi_status := stop_status s\<rparr>)" using n by (simp add: next_loop.simps stop_status_def)
    then show ?thesis using False by (intro disjI2 conjI exI [of _ "bi_seekedId it"]) auto
  next
    case True
    show ?thesis
    proof (cases "bi_filter it")
      case None
      then have "next_loop s it i = Inr (at_record s it i)" using True n by (simp add: next_loop.simps)
      then show ?thesis using True None by (intro disjI1 exI [of _ i]) (auto simp: shows_rec_def)
    next
      case (Some f)
      have p: "passes s f i = Inr (accepts f (log ! i))" using passes_accepts [OF 1(2) True] 1(3) Some by (simp add: filter_usable_def)
      show ?thesis
      proof (cases "accepts f (log ! i)")
        case acc: True
        then have "next_loop s it i = Inr (at_record s it i)" using True n Some p by (simp add: next_loop.simps)
        then show ?thesis using True Some acc by (intro disjI1 exI [of _ i]) (auto simp: shows_rec_def)
      next
        case rej: False
        have step: "next_loop s it i = next_loop s (it\<lparr>bi_seekedId := i\<rparr>) (i + 1)" using True n Some p rej by (subst next_loop.simps) simp
        have at: "at_record s (it\<lparr>bi_seekedId := i\<rparr>) k = at_record s it k" for k by (simp add: at_record_def)
        have ni: "\<not> shows_rec (Some f) (log ! i)" using rej by (simp add: shows_rec_def)
        have IH: "(\<exists>k. i + 1 \<le> k \<and> k < length log \<and> shows_rec (Some f) (log ! k) \<and> (\<forall>j. i + 1 \<le> j \<and> j < k \<longrightarrow> \<not> shows_rec (Some f) (log ! j)) \<and>
            next_loop s (it\<lparr>bi_seekedId := i\<rparr>) (i + 1) = Inr (at_record s it k)) \<or>
          ((\<forall>j. i + 1 \<le> j \<and> j < length log \<longrightarrow> \<not> shows_rec (Some f) (log ! j)) \<and>
            (\<exists>q. next_loop s (it\<lparr>bi_seekedId := i\<rparr>) (i + 1) = Inr (it\<lparr>bi_seekedId := q, bi_status := stop_status s\<rparr>)))"
          using 1(1) [OF _ Some p rej 1(2)] 1(3) Some n True by (simp add: at)
        from IH show ?thesis
        proof (elim disjE exE conjE)
          fix k assume k: "i + 1 \<le> k" "k < length log" "shows_rec (Some f) (log ! k)" "\<forall>j. i + 1 \<le> j \<and> j < k \<longrightarrow> \<not> shows_rec (Some f) (log ! j)"
            "next_loop s (it\<lparr>bi_seekedId := i\<rparr>) (i + 1) = Inr (at_record s it k)"
          have "\<forall>j. i \<le> j \<and> j < k \<longrightarrow> \<not> shows_rec (Some f) (log ! j)" using k(4) ni by (metis Suc_eq_plus1 Suc_leI le_neq_implies_less)
          then show ?thesis unfolding step Some using k by (intro disjI1 exI [of _ k]) simp
        next
          fix q assume q: "\<forall>j. i + 1 \<le> j \<and> j < length log \<longrightarrow> \<not> shows_rec (Some f) (log ! j)"
            "next_loop s (it\<lparr>bi_seekedId := i\<rparr>) (i + 1) = Inr (it\<lparr>bi_seekedId := q, bi_status := stop_status s\<rparr>)"
          have "\<forall>j. i \<le> j \<and> j < length log \<longrightarrow> \<not> shows_rec (Some f) (log ! j)" using q(1) ni by (metis Suc_eq_plus1 Suc_leI le_neq_implies_less)
          then show ?thesis unfolding step Some using q(2) by (intro disjI2) blast
        qed
      qed
    qed
  qed
qed

lemma filter_upt_next:
  assumes "i \<le> k" and "k < n" and "P k" and "\<forall>j. i \<le> j \<and> j < k \<longrightarrow> \<not> P j"
  shows "filter P [i..<n] = filter P [k..<n]"
proof -
  have "[i..<n] = [i..<k] @ [k..<n]" using assms(1,2) by (metis less_imp_add_positive upt_add_eq_append order_less_imp_le le_add_diff_inverse)
  moreover have "filter P [i..<k] = []" using assms(4) by (auto simp: filter_empty_conv)
  ultimately show ?thesis by simp
qed

lemma walk_from:
  assumes r: "ab_reach ops s log" and u: "filter_usable s (bi_filter it) log" and d: "\<not> descends it"
  shows "k < length log \<Longrightarrow> shows_rec (bi_filter it) (log ! k) \<Longrightarrow> length log - k \<le> n \<Longrightarrow>
    iter_walk n s (at_record s it k) = Inr (map ((!) log) (filter (\<lambda>j. shows_rec (bi_filter it) (log ! j)) [k..<length log]), stop_status s)"
proof (induction n arbitrary: k)
  case (Suc n)
  let ?P = "\<lambda>j. shows_rec (bi_filter it) (log ! j)" and ?it = "at_record s it k"
  note e = reach_entry [OF r Suc.prems(1)]
  have v: "iter_value s ?it = Inr (entry_addr s k)" using getRecord_entry(1) [OF e(1,2)] by (simp add: iter_value_def at_record_def)
  have k: "(k + 1) mod 2 ^ 32 = k + 1" using Suc.prems(1) e(5) by (simp add: maxRecordInBlock_def)
  have nx: "iter_next s ?it = next_loop s ?it (k + 1)" using d k by (simp add: iter_next_def realNext_def descends_def at_record_def)
  have flt: "bi_filter ?it = bi_filter it" and at: "at_record s ?it j = at_record s it j" for j by (simp_all add: at_record_def)
  have st: "bi_status ?it = S_OK" by (simp add: at_record_def)
  have u': "filter_usable s (bi_filter ?it) log" using u flt by simp
  have split: "filter ?P [k..<length log] = k # filter ?P [k + 1..<length log]" using Suc.prems(1,2) by (simp add: upt_conv_Cons)
  from next_loop_finds [OF r u', of "k + 1"] consider
      j where "k + 1 \<le> j" "j < length log" "?P j" "\<forall>i. k + 1 \<le> i \<and> i < j \<longrightarrow> \<not> ?P i" "next_loop s ?it (k + 1) = Inr (at_record s it j)"
    | q where "\<forall>j. k + 1 \<le> j \<and> j < length log \<longrightarrow> \<not> ?P j" "next_loop s ?it (k + 1) = Inr (?it\<lparr>bi_seekedId := q, bi_status := stop_status s\<rparr>)"
    unfolding flt at by blast
  then show ?case
  proof cases
    case 1
    have "iter_walk n s (at_record s it j) = Inr (map ((!) log) (filter ?P [j..<length log]), stop_status s)" using Suc.IH [OF 1(2,3)] Suc.prems(3) 1(1) by simp
    then show ?thesis using st v nx 1 e(3) split filter_upt_next [OF 1(1-4)] by simp
  next
    case 2
    have "filter ?P [k + 1..<length log] = []" using 2(1) by (auto simp: filter_empty_conv)
    moreover have "stop_status s \<noteq> S_OK" by (simp add: stop_status_def)
    ultimately show ?thesis using st v nx 2(2) e(3) split by simp
  qed
qed simp

lemma filter_nth: "map ((!) xs) (filter (\<lambda>i. P (xs ! i)) [0..<length xs]) = filter P xs"
  using filter_map [of P "(!) xs" "[0..<length xs]"] by (simp add: map_nth comp_def)

text \<open>
  C6: An ascending iterator over a block that is being written and has a record shows exactly the accepted records in the order they were appended, starting at the first, and stops
  with \<^verbatim>\<open>BLOCKED\<close>, or \<^verbatim>\<open>ENDED\<close> once the block is finished: without a filter all records, with one those whose type and log offset it accepts, provided the
  record ids of the block start at 0.
\<close>

theorem block_iterator_shows_records:
  assumes "ab_reach ops s log" and "log \<noteq> []" and "filter_usable s fo log" and "flag AND ITER_FLAG_DESC = 0"
  shows "\<exists>it. iter_new s fo flag = Inr it \<and> iter_walk (length log) s it = Inr (filter (shows_rec fo) log, stop_status s)"
proof -
  define it0 where "it0 = \<lparr>bi_flag = flag, bi_filter = fo, bi_recordId = 0, bi_realRecordId = ab_minRecordId s, bi_seekedId = 0, bi_status = S_INVALID\<rparr>"
  have d: "\<not> descends it0" using assms(4) by (simp add: descends_def it0_def)
  have u: "filter_usable s (bi_filter it0) log" using assms(3) by (simp add: it0_def)
  have 0: "0 < length log" using assms(2) by simp
  have flt: "bi_filter it0 = fo" by (simp add: it0_def)
  note W = walk_from [OF assms(1) u d, unfolded flt] and L = next_loop_finds [OF assms(1) u, of 1, unfolded flt]
  have new: "iter_new s fo flag = (case fo of None \<Rightarrow> Inr (at_record s it0 0)
      | Some f \<Rightarrow> sbind (passes s f 0) (\<lambda>b. if \<not> b then iter_next s it0 else Inr (at_record s it0 0)))"
    using d by (cases fo) (simp_all add: iter_new_def iter_begin_def it0_def descends_def at_record_def Let_def cong: if_cong)
  show ?thesis
  proof (cases "shows_rec fo (log ! 0)")
    case True
    have "iter_new s fo flag = Inr (at_record s it0 0)"
      using True passes_accepts [OF assms(1) 0] assms(3) unfolding new by (cases fo) (simp_all add: shows_rec_def filter_usable_def)
    then show ?thesis using W [OF 0 True, of "length log"] filter_nth [of log "shows_rec fo"] by (intro exI) simp
  next
    case False
    then obtain f where f: "fo = Some f" by (cases fo) (simp_all add: shows_rec_def)
    have nx: "iter_next s it0 = next_loop s it0 1" using d by (simp add: iter_next_def realNext_def it0_def)
    have n: "iter_new s fo flag = next_loop s it0 1"
      using False passes_accepts [OF assms(1) 0, of f] assms(3) f nx unfolding new by (simp add: shows_rec_def filter_usable_def)
    have cut: "filter (\<lambda>i. shows_rec fo (log ! i)) [0..<length log] = filter (\<lambda>i. shows_rec fo (log ! i)) [1..<length log]"
      using False 0 by (simp add: upt_conv_Cons)
    from L show ?thesis
    proof (elim disjE exE conjE)
      fix k assume k: "1 \<le> k" "k < length log" "shows_rec fo (log ! k)" "\<forall>j. 1 \<le> j \<and> j < k \<longrightarrow> \<not> shows_rec fo (log ! j)" "next_loop s it0 1 = Inr (at_record s it0 k)"
      show ?thesis unfolding n k(5) using W [OF k(2,3), of "length log"] filter_nth [of log "shows_rec fo"] filter_upt_next [OF k(1-4)] cut by (intro exI) simp
    next
      fix q assume q: "\<forall>j. 1 \<le> j \<and> j < length log \<longrightarrow> \<not> shows_rec fo (log ! j)" "next_loop s it0 1 = Inr (it0\<lparr>bi_seekedId := q, bi_status := stop_status s\<rparr>)"
      have "filter (\<lambda>i. shows_rec fo (log ! i)) [1..<length log] = []" using q(1) by (auto simp: filter_empty_conv)
      then have "filter (shows_rec fo) log = []" using filter_nth [of log "shows_rec fo"] cut by simp
      moreover have "stop_status s \<noteq> S_OK" by (simp add: stop_status_def)
      ultimately show ?thesis unfolding n q(2) by (intro exI [of _ "it0\<lparr>bi_seekedId := q, bi_status := stop_status s\<rparr>"]) simp
    qed
  qed
qed

definition sample_walk :: "fault + u8 list list \<times> iter_status" where
  "sample_walk = sbind (iter_new (sample_step sample_block 0) None 0) (iter_walk 1 (sample_step sample_block 0))"

theorem block_iterator_shows_records_witness:
  "sample_walk = Inr ([stamp_bytes 0 (record_bytes ddl_mem 0)], stop_status (sample_step sample_block 0))"
  using block_iterator_shows_records [OF sample_reach1, of None 0]
  by (auto simp: sample_walk_def filter_usable_def shows_rec_def ITER_FLAG_DESC_def simp del: iter_walk.simps)

text \<open>
  C36: A filter makes an iterator read outside the table of positions, because the loops pass inner ids to \<^verbatim>\<open>getRecord\<close>, which subtracts the first record id again: an
  ascending iterator in every block whose first record id is between 1 and $2^{63}$, a descending one when the first record id is also greater than the number of records.
\<close>

theorem filtered_iterator_leaves_table:
  assumes "0 < ab_minRecordId s" and "ab_minRecordId s \<le> 2 ^ 63" and "flag AND ITER_FLAG_DESC = 0 \<or> ab_recordCount s < ab_minRecordId s"
  shows "iter_new s (Some f) flag = Inl OutOfBounds"
proof -
  have out: "getRecord s i = Inl OutOfBounds" if "i < ab_minRecordId s" for i
  proof -
    have "(i + 2 ^ 64 - ab_minRecordId s) mod 2 ^ 64 = i + 2 ^ 64 - ab_minRecordId s" using that by simp
    moreover have "maxRecordInBlock \<le> i + 2 ^ 64 - ab_minRecordId s" using assms(2) by (simp add: maxRecordInBlock_def)
    ultimately show ?thesis unfolding getRecord_def Let_def by (simp add: getRecordByIdx_def)
  qed
  show ?thesis using assms(1,3) out [of 0] out [of "ab_recordCount s"] by (auto simp: iter_new_def iter_begin_def descends_def passes_def Let_def)
qed

theorem filtered_iterator_leaves_table_witness:
  "iter_new (sample_block\<lparr>ab_minRecordId := 7\<rparr>) (Some \<lparr>m_filterType = 0, m_startCheckpoint = 0, m_endCheckpoint = 0, m_typeBitmap = [0xff]\<rparr>) 0 = Inl OutOfBounds"
  using filtered_iterator_leaves_table [of "sample_block\<lparr>ab_minRecordId := 7\<rparr>" 0] by simp

text \<open>
  C37: An iterator that is to wait for new records runs backwards: the bit of \<^verbatim>\<open>ITER_FLAG_WAIT\<close> is part of \<^verbatim>\<open>ITER_FLAG_DESC\<close>.  It starts behind the last record, where it has
  no value, and without a filter its first step follows a null pointer.
\<close>

theorem waiting_iterator_runs_backwards:
  assumes "ab_recordCount s \<noteq> 0" and "flag AND ITER_FLAG_WAIT \<noteq> 0"
  shows "\<exists>it. iter_new s None flag = Inr it \<and> bi_recordId it = ab_recordCount s \<and> \<not> iter_valid s it \<and> iter_next s it = Inl NullDeref"
proof -
  have "flag AND ITER_FLAG_DESC \<noteq> 0"
  proof
    assume "flag AND ITER_FLAG_DESC = 0"
    moreover have "(flag AND 5) AND 1 = flag AND 1" by (simp add: and.assoc)
    ultimately show False using assms(2) by (simp add: ITER_FLAG_DESC_def ITER_FLAG_WAIT_def)
  qed
  then show ?thesis using assms(1) by (cases "ab_recordCount s")
    (simp_all add: iter_new_def iter_begin_def descends_def iter_next_def realPrev_def iter_valid_def)
qed

theorem waiting_iterator_runs_backwards_witness:
  "\<exists>it. iter_new (sample_step sample_block 0) None ITER_FLAG_WAIT = Inr it \<and> iter_next (sample_step sample_block 0) it = Inl NullDeref"
  using waiting_iterator_runs_backwards [of "sample_step sample_block 0" ITER_FLAG_WAIT] sample_step1(3) by (auto simp: ITER_FLAG_WAIT_def)

section \<open>Seeking\<close>

text \<open>One step of an ascending iterator without a filter from the inner id before \<open>i\<close>.\<close>

lemma step_to:
  assumes "ab_reach ops s log" and "i < length log" and "\<not> descends it" and "bi_filter it = None" and "(bi_seekedId it + 1) mod 2 ^ 32 = i"
  shows "iter_next s it = Inr (at_record s it i)"
  using assms reach_nth(1) [OF assms(1)] by (simp add: iter_next_def realNext_def next_loop.simps)

lemma step_past:
  assumes "ab_reach ops s log" and "length log \<le> i" and "\<not> descends it" and "(bi_seekedId it + 1) mod 2 ^ 32 = i"
  shows "iter_next s it = Inr (it\<lparr>bi_status := stop_status s\<rparr>)"
  using assms reach_nth(1) [OF assms(1)] by (simp add: iter_next_def realNext_def next_loop.simps stop_status_def)

lemma ck_loop_correct:
  assumes r: "ab_reach ops s log" and z: "ab_minRecordId s = 0"
  shows "0 \<le> b \<Longrightarrow> e < int (length log) \<Longrightarrow> b \<le> e + 1 \<Longrightarrow> (b > e \<longrightarrow> m = b - 1 \<or> m = b) \<Longrightarrow>
    \<forall>i. int i < b \<longrightarrow> bytes_logOffset (log ! i) < t \<Longrightarrow> \<forall>i<length log. e < int i \<longrightarrow> t < bytes_logOffset (log ! i) \<Longrightarrow>
    (\<exists>b' e' i. i < length log \<and> bytes_logOffset (log ! i) = t \<and> ck_loop s t b e m = Inr (True, b', e', int i)) \<or>
    (\<exists>k m'. k \<le> length log \<and> (m' = int k - 1 \<or> m' = int k) \<and> (\<forall>i<k. bytes_logOffset (log ! i) < t) \<and> (\<forall>i<length log. k \<le> i \<longrightarrow> t < bytes_logOffset (log ! i)) \<and>
      ck_loop s t b e m = Inr (False, int k, int k - 1, m'))"
proof (induction "nat (e - b + 1)" arbitrary: b e m rule: less_induct)
  case less
  show ?case
  proof (cases "b \<le> e")
    case False
    then have "ck_loop s t b e m = Inr (False, int (nat b), int (nat b) - 1, m)" using less.prems(1,3) by (simp add: ck_loop.simps)
    moreover have "m = int (nat b) - 1 \<or> m = int (nat b)" using less.prems(1,4) False by auto
    moreover have "nat b \<le> length log" using less.prems(1-3) False by linarith
    moreover have "\<forall>i<nat b. bytes_logOffset (log ! i) < t" using less.prems(5) by auto
    moreover have "\<forall>i<length log. nat b \<le> i \<longrightarrow> t < bytes_logOffset (log ! i)" using less.prems(1,6) False by auto
    ultimately show ?thesis by (intro disjI2 exI [of _ "nat b"] exI [of _ m]) blast
  next
    case True
    define c where "c = (b + e) div 2"
    have c: "b \<le> c" "c \<le> e" using True by (auto simp: c_def)
    have i: "nat c < length log" "0 \<le> c" using c less.prems(1,2) by auto
    have lo: "logOffset_at s (nat c) = Inr (bytes_logOffset (log ! nat c))" using logOffset_entry [OF r i(1)] z by simp
    have srt: "bytes_logOffset (log ! i) \<le> bytes_logOffset (log ! j)" if "i \<le> j" "j < length log" for i j
      using reach_inv [OF r] sorted_nth_mono [of "map bytes_logOffset log" i j] that by simp
    have step: "ck_loop s t b e m = (if t > bytes_logOffset (log ! nat c) then ck_loop s t (c + 1) e c
        else if t < bytes_logOffset (log ! nat c) then ck_loop s t b (c - 1) c else Inr (True, b, e, c))"
      using True lo by (subst ck_loop.simps) (simp add: c_def [symmetric])
    consider "t > bytes_logOffset (log ! nat c)" | "t < bytes_logOffset (log ! nat c)" | "t = bytes_logOffset (log ! nat c)" by linarith
    then show ?thesis
    proof cases
      case 1
      have "bytes_logOffset (log ! j) < t" if "int j < c + 1" for j
      proof -
        have "j \<le> nat c" using that i(2) by linarith
        then show ?thesis using srt [of j "nat c"] i(1) 1 by linarith
      qed
      moreover have "ck_loop s t b e m = ck_loop s t (c + 1) e c" using step 1 by simp
      ultimately show ?thesis using less.hyps [of e "c + 1" c] less.prems c i by simp
    next
      case 2
      have "t < bytes_logOffset (log ! j)" if "j < length log" "c - 1 < int j" for j
      proof -
        have "nat c \<le> j" using that(2) i(2) by linarith
        then show ?thesis using srt [of "nat c" j] that(1) 2 by linarith
      qed
      moreover have "ck_loop s t b e m = ck_loop s t b (c - 1) c" using step 2 by simp
      ultimately show ?thesis using less.hyps [of "c - 1" b c] less.prems c i by simp
    next
      case 3
      then show ?thesis unfolding step using i by (intro disjI1 exI [of _ b] exI [of _ e] exI [of _ "nat c"]) simp
    qed
  qed
qed

lemma ck_land_at:
  assumes "ab_reach ops s log" and "k < length log" and "\<not> descends it" and "bi_filter it = None"
  shows "\<exists>it'. ck_land s it (int k - 1) = Inr (True, it') \<and> bi_recordId it' = k \<and> bi_seekedId it' = k \<and> bi_status it' = S_OK"
proof -
  define i where "i = nat ((int k - 1) mod 2 ^ 32)"
  have le: "length log \<le> maxRecordInBlock" using reach_entry(5) [OF assms(1,2)] assms(2) reach_inv [OF assms(1)] by (simp add: ab_inv_def ab_inv_upto_def ab_frame_def)
  have "int ((i + 1) mod 2 ^ 32) = (int i + 1) mod 2 ^ 32" by (simp add: zmod_int add.commute)
  also have "int i = (int k - 1) mod 2 ^ 32" by (simp add: i_def)
  also have "((int k - 1) mod 2 ^ 32 + 1) mod 2 ^ 32 = (int k - 1 + 1) mod 2 ^ 32" by (rule mod_add_left_eq)
  finally have "(i + 1) mod 2 ^ 32 = k" using assms(2) le by (simp add: maxRecordInBlock_def)
  then have "iter_next s (it\<lparr>bi_recordId := i, bi_seekedId := i\<rparr>) = Inr (at_record s (it\<lparr>bi_recordId := i, bi_seekedId := i\<rparr>) k)"
    using assms(3,4) by (intro step_to [OF assms(1,2)]) (simp_all add: descends_def)
  then show ?thesis by (simp add: ck_land_def i_def Let_def at_record_def)
qed

text \<open>After a bisection that found nothing, the neighbour that is picked is the first record behind the offset.\<close>

lemma ck_pick_next:
  assumes r: "ab_reach ops s log" and z: "ab_minRecordId s = 0" and k: "k < length log" and m: "m = int k - 1 \<or> m = int k"
    and below: "\<forall>i<k. bytes_logOffset (log ! i) < t" and hit: "t < bytes_logOffset (log ! k)"
  shows "(let m = (if int k - 1 < 0 then 0 else m); m = (if int k > int (length log) - 1 then int (length log) - 1 else m) in
    ck_pick s False t (int (length log) - 1) m) = Inr (Some (int k))"
proof -
  have lo: "logOffset_at s i = Inr (bytes_logOffset (log ! i))" if "i < length log" for i using logOffset_entry [OF r that] z by simp
  show ?thesis
  proof (cases "k = 0 \<or> m = int k")
    case True
    then have "(if int k - 1 < 0 then 0 else m) = int k" using m by auto
    then show ?thesis using k lo [OF k] hit by (simp add: ck_pick_def Let_def)
  next
    case False
    then have "m = int k - 1" "0 < k" using m by auto
    moreover from this have "bytes_logOffset (log ! (k - 1)) < t" "nat (int k - 1) = k - 1" using below by simp_all
    ultimately show ?thesis using k lo [OF k] lo [of "k - 1"] hit by (simp add: ck_pick_def Let_def)
  qed
qed

text \<open>
  Seeking a log offset in a block whose record ids start at 0, with an ascending iterator and no filter: an offset between those of the first and the last record is
  met, or the iterator stands at the first record behind it; any other offset is refused.
\<close>

theorem checkpoint_seek_finds:
  assumes "ab_reach ops s log" and "log \<noteq> []" and "ab_minRecordId s = 0" and "\<not> descends it" and "bi_filter it = None"
    and "ab_minLogOffset s \<le> t"
  shows "if t \<le> bytes_logOffset (last log)
    then \<exists>it' k. checkpoint_seek s it t = Inr (True, it') \<and> bi_recordId it' = k \<and> bi_seekedId it' = k \<and> bi_status it' = S_OK \<and> k < length log \<and>
      (bytes_logOffset (log ! k) = t \<or> t < bytes_logOffset (log ! k) \<and> (\<forall>j<k. bytes_logOffset (log ! j) < t))
    else \<exists>it'. checkpoint_seek s it t = Inr (False, it')"
proof (cases "t \<le> bytes_logOffset (last log)")
  case False
  then show ?thesis using reach_inv [OF assms(1)] assms(2) by (simp add: checkpoint_seek_def Let_def)
next
  case True
  define it0 where "it0 = it\<lparr>bi_status := S_UNINIT\<rparr>"
  define fin where "fin = int (length log) - 1"
  have desc: "descends it0 = False" "bi_filter it0 = None" using assms(4,5) by (simp_all add: it0_def descends_def)
  have c: "(ab_maxLogOffset s < t \<or> t < ab_minLogOffset s) = False" using reach_inv [OF assms(1)] assms(2,6) True by simp
  have seek: "checkpoint_seek s it t = sbind (ck_loop s t 0 fin 0) (\<lambda>(found, b, e, m).
        sbind (if found then Inr (Some m)
               else let m = (if e < 0 then 0 else m); m = (if b > fin then fin else m) in ck_pick s False t fin m) (\<lambda>r.
          case r of None \<Rightarrow> Inr (False, it0) | Some m \<Rightarrow> ck_land s it0 (if \<not> False then m - 1 else m + 1)))"
    unfolding checkpoint_seek_def Let_def it0_def [symmetric] desc reach_nth(1) [OF assms(1)] fin_def c if_False by (rule refl)
  note land = ck_land_at [OF assms(1) _ _ desc(2), unfolded desc, OF _ not_False_eq_True [THEN iffD2, OF TrueI]]
  have fin: "length log - 1 < length log" "bytes_logOffset (log ! (length log - 1)) = bytes_logOffset (last log)" using assms(2) by (simp_all add: last_conv_nth)
  from ck_loop_correct [OF assms(1,3), of 0 fin 0 t] fin(1)
  consider b e i where "i < length log" "bytes_logOffset (log ! i) = t" "ck_loop s t 0 fin 0 = Inr (True, b, e, int i)"
    | k m where "k \<le> length log" "m = int k - 1 \<or> m = int k" "\<forall>i<k. bytes_logOffset (log ! i) < t" "\<forall>i<length log. k \<le> i \<longrightarrow> t < bytes_logOffset (log ! i)"
        "ck_loop s t 0 fin 0 = Inr (False, int k, int k - 1, m)" by (auto simp: fin_def)
  then show ?thesis
  proof cases
    case 1
    then show ?thesis using land [OF 1(1)] True unfolding seek 1(3) by auto
  next
    case 2
    have k: "k < length log" using 2(1,3) fin True by (metis le_neq_implies_less not_le)
    note pick = ck_pick_next [OF assms(1,3) k 2(2,3), folded fin_def]
    show ?thesis unfolding seek 2(5) sbind_simps prod.case if_False pick [OF 2(4) [rule_format, OF k order_refl]] option.case
      using land [OF k] True 2(3,4) k by auto
  qed
qed

definition sample_iter :: blockIter where
  "sample_iter = \<lparr>bi_flag = 0, bi_filter = None, bi_recordId = 0, bi_realRecordId = 0, bi_seekedId = 0, bi_status = S_OK\<rparr>"

lemma sample_first: "ab_minLogOffset (sample_step sample_block 0) = 3" "bytes_logOffset (stamp_bytes 0 (record_bytes ddl_mem 0)) = 3"
proof -
  note h = sample_head [of ddl_mem, OF refl]
  define m where "m = write_bytes ddl_mem 0x100000 (read_bytes ddl_mem 0 38)"
  have m: "head_type m 0x100000 = 5" "head_logOffset (wr 8 m 0x10000A 0) 0x100000 = 3"
    using memcpy_ok(1,3,4) [of 38 ddl_mem 0 m "0x100000"] h by (simp_all add: m_def head_size_def head_logOffset_def H_size_def mem_simps)
  show "ab_minLogOffset (sample_step sample_block 0) = 3"
    using h m by (simp add: sample_step_def block_eval sample_block_def ab_new_def defaultData_def m_def [symmetric] H_recordId_def)
  show "bytes_logOffset (stamp_bytes 0 (record_bytes ddl_mem 0)) = 3" using bytes_fields(3) [of ddl_mem 0 0] h by (simp add: recordHeadSize_def)
qed

theorem checkpoint_seek_finds_witness:
  "\<exists>it'. checkpoint_seek (sample_step sample_block 0) sample_iter 3 = Inr (True, it') \<and> bi_recordId it' = 0"
  using checkpoint_seek_finds [OF sample_reach1, of sample_iter 3] sample_step1(8) sample_first by (simp add: sample_iter_def descends_def) blast

text \<open>
  C38: Seeking a record id with an ascending iterator and no filter, in every history of a block whose ids stay below $2^{64}$ and wherever they begin: the iterator then stands at
  exactly the record with this id and its bytes are those that were appended; an id that the block does not have is refused.
\<close>

theorem recordId_seek_finds:
  assumes "ab_reach ops s log" and "\<not> descends it" and "bi_filter it = None" and "ab_minRecordId s + length log < 2 ^ 64"
  shows "if ab_minRecordId s \<le> rid \<and> rid < ab_minRecordId s + length log
    then \<exists>it' a. recordId_seek s it rid = Inr (True, it') \<and> iter_value s it' = Inr a \<and> record_bytes (ab_mem s) a = log ! (rid - ab_minRecordId s) \<and> bi_realRecordId it' = rid
    else \<exists>it'. recordId_seek s it rid = Inr (False, it')"
proof -
  have n: "ab_recordCount s = length log" using reach_nth(1) [OF assms(1)] .
  have inv: "ab_inv s" using reach_inv [OF assms(1)] by blast
  have le: "length log \<le> maxRecordInBlock" using inv n by (simp add: ab_inv_def ab_inv_upto_def ab_frame_def)
  show ?thesis
  proof (cases "ab_minRecordId s \<le> rid \<and> rid \<le> ab_minRecordId s + length log")
    case False
    then show ?thesis using n assms(4) by (auto simp: recordId_seek_def Let_def)
  next
    case True
    define k where "k = rid - ab_minRecordId s"
    define i where "i = (rid + 2 ^ 32 - ab_minRecordId s - 1) mod 2 ^ 32"
    define it0 where "it0 = it\<lparr>bi_status := S_UNINIT, bi_recordId := i, bi_realRecordId := rid, bi_seekedId := i\<rparr>"
    have k: "k \<le> length log" "k < 2 ^ 32" using True le by (auto simp: k_def maxRecordInBlock_def)
    have "(i + 1) mod 2 ^ 32 = (rid + 2 ^ 32 - ab_minRecordId s - 1 + 1) mod 2 ^ 32" unfolding i_def by (rule mod_add_left_eq)
    also have "rid + 2 ^ 32 - ab_minRecordId s - 1 + 1 = k + 2 ^ 32" 
    proof -
      have "rid = ab_minRecordId s + k" using True by (simp add: k_def)
      then show ?thesis by simp
    qed
    finally have ik: "(i + 1) mod 2 ^ 32 = k" using k(2) by simp
    have seek: "recordId_seek s it rid = sbind (iter_next s it0) (\<lambda>it. if bi_status it \<noteq> S_OK then Inr (False, it\<lparr>bi_recordId := 0xfffffffe\<rparr>) else Inr (True, it))"
      using True n assms(4) by (simp add: recordId_seek_def Let_def i_def it0_def)
    have d: "\<not> descends it0" "bi_filter it0 = None" "(bi_seekedId it0 + 1) mod 2 ^ 32 = k" using assms(2,3) ik by (simp_all add: it0_def descends_def)
    show ?thesis
    proof (cases "k < length log")
      case kl: True
      have "recordId_seek s it rid = Inr (True, at_record s it0 k)" using step_to [OF assms(1) kl d] unfolding seek by (simp add: at_record_def)
      moreover obtain a where "getRecordByIdx s k = Inr a" "record_bytes (ab_mem s) a = log ! k" using reach_record [OF assms(1) kl] by blast
      ultimately show ?thesis using True kl by (auto simp: iter_value_def at_record_def k_def)
    next
      case False
      have "stop_status s \<noteq> S_OK" by (simp add: stop_status_def)
      then have "\<exists>it'. recordId_seek s it rid = Inr (False, it')" using step_past [OF assms(1) _ d(1,3)] False unfolding seek by simp
      then show ?thesis using False True by (auto simp: k_def)
    qed
  qed
qed

theorem recordId_seek_finds_witness:
  "\<exists>it' a. recordId_seek (sample_step sample_block 0) sample_iter 0 = Inr (True, it') \<and> iter_value (sample_step sample_block 0) it' = Inr a \<and>
    record_bytes (ab_mem (sample_step sample_block 0)) a = stamp_bytes 0 (record_bytes ddl_mem 0)"
  using recordId_seek_finds [OF sample_reach1, of sample_iter 0] sample_step1(8) by (simp add: sample_iter_def descends_def) blast

end
