(* ===== verification/IndexIterators.thy ===== *)
theory IndexIterators
  imports AppendingIndex BlockIterators
begin

unbundle bit_operations_syntax

text \<open>
  The iterators over the keys of an index (\<^verbatim>\<open>database/indexIterator.h\<close>): the common part, \<^verbatim>\<open>appendingIndex::iterator\<close> over the skip list of an
  open block, \<^verbatim>\<open>solidIndexIterator\<close> over an index page, and the two iterators of a block that wrap them (\<^verbatim>\<open>appendingBlock.h\<close>,
  \<^verbatim>\<open>solidBlock.h\<close>).  The index that an iterator points to is a field of it; \<^verbatim>\<open>recordIds\<close> is the number of an array of an
  \<^verbatim>\<open>appendingIndex\<close> or an address in a page, and null is \<open>None\<close>.  The theory shows that \<^verbatim>\<open>nextKey\<close> enumerates an index in the order of its keys,
  and what \<^verbatim>\<open>seek\<close> leaves unset or cannot find.
\<close>

section \<open>Common part\<close>

record indexIter =
  ii_flag :: u32
  ii_recordIds :: "nat option"
  ii_idChildCount :: nat
  ii_innerIndexId :: nat

definition ii_valid :: "'a indexIter_scheme \<Rightarrow> bool" where
  "ii_valid it \<longleftrightarrow> ii_recordIds it \<noteq> None \<and> ii_innerIndexId it < ii_idChildCount it"

definition ii_value :: "(nat \<Rightarrow> nat \<Rightarrow> fault + nat) \<Rightarrow> 'a indexIter_scheme \<Rightarrow> fault + nat" where
  "ii_value load it = (case ii_recordIds it of None \<Rightarrow> Inl NullDeref | Some a \<Rightarrow> load a (ii_innerIndexId it))"

text \<open>The unsigned predecessor, as \<^verbatim>\<open>idChildCount - 1\<close>.\<close>

definition pred32 :: "nat \<Rightarrow> nat" where "pred32 n = (n + 0xffffffff) mod 2 ^ 32"

definition toLastValueOfKey :: "'a indexIter_scheme \<Rightarrow> 'a indexIter_scheme" where
  "toLastValueOfKey it = it\<lparr>ii_innerIndexId := pred32 (ii_idChildCount it)\<rparr>"

definition toFirstValueOfKey :: "'a indexIter_scheme \<Rightarrow> 'a indexIter_scheme" where
  "toFirstValueOfKey it = it\<lparr>ii_innerIndexId := 0\<rparr>"

definition currentVersionValue :: "(nat \<Rightarrow> nat \<Rightarrow> fault + nat) \<Rightarrow> 'a indexIter_scheme \<Rightarrow> fault + nat" where
  "currentVersionValue load it = (case ii_recordIds it of None \<Rightarrow> Inl NullDeref | Some a \<Rightarrow> load a (pred32 (ii_idChildCount it)))"

definition ii_next :: "'a indexIter_scheme \<Rightarrow> bool \<times> 'a indexIter_scheme" where
  "ii_next it = (if (ii_innerIndexId it + 1) mod 2 ^ 32 < ii_idChildCount it then (True, it\<lparr>ii_innerIndexId := ii_innerIndexId it + 1\<rparr>) else (False, it))"

definition ii_prev :: "'a indexIter_scheme \<Rightarrow> bool \<times> 'a indexIter_scheme" where
  "ii_prev it = (if ii_innerIndexId it \<ge> 1 then (True, it\<lparr>ii_innerIndexId := ii_innerIndexId it - 1\<rparr>) else (False, it))"

lemma pred32_Suc [simp]: "0 < n \<Longrightarrow> n < 2 ^ 32 \<Longrightarrow> pred32 n = n - 1"
  by (cases n) (simp_all add: pred32_def)

section \<open>Over an open index\<close>

record 'k apIter = indexIter +
  ap_index :: "'k appendingIndex"
  ap_node :: "nat option"

definition ap_new :: "u32 \<Rightarrow> 'k appendingIndex \<Rightarrow> 'k apIter" where
  "ap_new flag x = \<lparr>ii_flag = flag, ii_recordIds = None, ii_idChildCount = 0, ii_innerIndexId = 0, ap_index = x, ap_node = None\<rparr>"

definition ap_load :: "'k apIter \<Rightarrow> nat \<Rightarrow> nat \<Rightarrow> fault + nat" where
  "ap_load it a i = (let c = ai_children (ap_index it) a in if i < length (subArray c) then Inr (subArray c ! i) else Inl OutOfBounds)"

definition ap_array :: "'k apIter \<Rightarrow> nat \<Rightarrow> nat" where "ap_array it n = snd (sl_key (m_index (ap_index it)) n)"
definition ap_child :: "'k apIter \<Rightarrow> nat \<Rightarrow> keyChildInfo" where "ap_child it n = ai_children (ap_index it) (ap_array it n)"
definition ap_nodeKey :: "'k apIter \<Rightarrow> nat \<Rightarrow> 'k" where "ap_nodeKey it n = fst (sl_key (m_index (ap_index it)) n)"

definition ap_valid :: "'k apIter \<Rightarrow> bool" where "ap_valid it \<longleftrightarrow> ap_node it \<noteq> None"

definition ap_key :: "'k apIter \<Rightarrow> fault + 'k" where
  "ap_key it = sbind (iter_key (m_index (ap_index it)) (ap_node it)) (\<lambda>k. Inr (fst k))"

text \<open>The assignments after a move: \<^verbatim>\<open>ap_count\<close> sets the number of ids and the position, \<^verbatim>\<open>ap_show\<close> also the array.\<close>

definition ap_count :: "'k apIter \<Rightarrow> nat \<Rightarrow> 'k apIter" where
  "ap_count it n = it\<lparr>ii_idChildCount := cc_count (ap_child it n), ii_innerIndexId := pred32 (cc_count (ap_child it n))\<rparr>"

definition ap_show :: "'k apIter \<Rightarrow> nat \<Rightarrow> 'k apIter" where
  "ap_show it n = (ap_count it n)\<lparr>ii_recordIds := Some (ap_array it n)\<rparr>"

text \<open>\<^verbatim>\<open>begin\<close> and \<^verbatim>\<open>rbegin\<close> after their move, \<^verbatim>\<open>nextKey\<close> and \<^verbatim>\<open>prevKey\<close> after theirs.\<close>

definition ap_start :: "'k apIter \<Rightarrow> nat option \<Rightarrow> bool \<times> 'k apIter" where
  "ap_start it node = (let it = it\<lparr>ap_node := node\<rparr> in
     case node of None \<Rightarrow> (False, it) | Some n \<Rightarrow> if cc_count (ap_child it n) = 0 then (False, it) else (True, ap_show it n))"

definition ap_moved :: "'k apIter \<Rightarrow> nat option \<Rightarrow> bool \<times> 'k apIter" where
  "ap_moved it node = (let it = it\<lparr>ap_node := node\<rparr> in case node of None \<Rightarrow> (False, it) | Some n \<Rightarrow> (True, ap_show it n))"

definition ap_begin :: "'k apIter \<Rightarrow> fault + bool \<times> 'k apIter" where
  "ap_begin it = sbind (iter_SeekToFirst (m_index (ap_index it))) (\<lambda>node. Inr (ap_start it node))"

definition ap_rbegin :: "'k apIter \<Rightarrow> (fault + bool \<times> 'k apIter) option" where
  "ap_rbegin it = map_option (\<lambda>r. sbind r (\<lambda>node. Inr (ap_start it node))) (iter_SeekToLast (m_index (ap_index it)))"

definition ap_nextKey :: "'k apIter \<Rightarrow> fault + bool \<times> 'k apIter" where
  "ap_nextKey it = sbind (iter_Next (m_index (ap_index it)) (ap_node it)) (\<lambda>node. Inr (ap_moved it node))"

definition ap_prevKey :: "('k \<Rightarrow> 'k \<Rightarrow> int) \<Rightarrow> 'k apIter \<Rightarrow> (fault + bool \<times> 'k apIter) option" where
  "ap_prevKey cmp it = map_option (\<lambda>r. sbind r (\<lambda>node. Inr (ap_moved it node))) (iter_Prev (kt_compare cmp) (m_index (ap_index it)) (ap_node it))"

text \<open>Neither of the seeks sets \<^verbatim>\<open>recordIds\<close>.\<close>

definition ap_found :: "'k apIter \<Rightarrow> nat option \<Rightarrow> bool \<times> 'k apIter" where
  "ap_found it node = (let it = it\<lparr>ap_node := node\<rparr> in
     case node of None \<Rightarrow> (False, it) | Some n \<Rightarrow> if cc_count (ap_child it n) = 0 then (False, it) else (True, ap_count it n))"

definition ap_seekIncrease :: "('k \<Rightarrow> 'k \<Rightarrow> int) \<Rightarrow> 'k apIter \<Rightarrow> 'k \<Rightarrow> (fault + bool \<times> 'k apIter) option" where
  "ap_seekIncrease cmp it k = map_option (\<lambda>r. sbind r (\<lambda>node. Inr (ap_found it node))) (iter_Seek (kt_compare cmp) (m_index (ap_index it)) (k, 0))"

text \<open>After a step back, the key must not be greater than \<open>k\<close>.\<close>

definition ap_back :: "('k \<Rightarrow> 'k \<Rightarrow> int) \<Rightarrow> 'k apIter \<Rightarrow> 'k \<Rightarrow> nat option \<Rightarrow> bool \<times> 'k apIter" where
  "ap_back cmp it k node = (case node of None \<Rightarrow> (False, it\<lparr>ap_node := None\<rparr>)
     | Some n \<Rightarrow> if cmp (ap_nodeKey it n) k > 0 then (False, it\<lparr>ap_node := Some n\<rparr>) else ap_found it (Some n))"

definition ap_seekDecrease :: "('k \<Rightarrow> 'k \<Rightarrow> int) \<Rightarrow> 'k apIter \<Rightarrow> 'k \<Rightarrow> (fault + bool \<times> 'k apIter) option" where
  "ap_seekDecrease cmp it k =
     (case iter_Seek (kt_compare cmp) (m_index (ap_index it)) (k, 0) of None \<Rightarrow> None | Some (Inl f) \<Rightarrow> Some (Inl f)
      | Some (Inr None) \<Rightarrow> map_option (\<lambda>r. sbind r (\<lambda>node. Inr (ap_back cmp it k node))) (iter_SeekToLast (m_index (ap_index it)))
      | Some (Inr (Some n)) \<Rightarrow> if cmp (ap_nodeKey it n) k > 0
          then map_option (\<lambda>r. sbind r (\<lambda>node. Inr (ap_back cmp it k node))) (iter_Prev (kt_compare cmp) (m_index (ap_index it)) (Some n))
          else Some (Inr (ap_found it (Some n))))"

definition ap_seek :: "('k \<Rightarrow> 'k \<Rightarrow> int) \<Rightarrow> 'k apIter \<Rightarrow> 'k \<Rightarrow> (fault + bool \<times> 'k apIter) option" where
  "ap_seek cmp it k = (if ii_flag it AND ITER_FLAG_DESC = 0 then ap_seekIncrease cmp it k else ap_seekDecrease cmp it k)"

section \<open>Over an index page\<close>

text \<open>The page is that of a fixed key that is read as an integer (\<open>fixedSolidIndex\<close>).\<close>

record siIter = indexIter +
  si_mem :: mem
  si_head :: nat
  si_type :: COLUMN_TYPE
  si_indexId :: nat

definition si_new :: "u32 \<Rightarrow> mem \<Rightarrow> nat \<Rightarrow> COLUMN_TYPE \<Rightarrow> siIter" where
  "si_new flag m head t = \<lparr>ii_flag = flag, ii_recordIds = None, ii_idChildCount = 0, ii_innerIndexId = 0, si_mem = m, si_head = head, si_type = t, si_indexId = 0\<rparr>"

definition si_load :: "siIter \<Rightarrow> nat \<Rightarrow> nat \<Rightarrow> fault + nat" where
  "si_load it a i = Inr (rd 4 (si_mem it) (a + 4 * i))"

definition si_keyCount :: "siIter \<Rightarrow> nat" where "si_keyCount it = sh_keyCount (si_mem it) (si_head it)"
definition si_keyAt :: "siIter \<Rightarrow> nat \<Rightarrow> int" where "si_keyAt it i = key_int (si_type it) (si_mem it) (fx_getKey (si_mem it) (si_head it) i)"
definition si_key :: "siIter \<Rightarrow> int" where "si_key it = si_keyAt it (si_indexId it)"

definition si_show :: "siIter \<Rightarrow> nat \<Rightarrow> siIter" where
  "si_show it i = (case fx_getRecordIdByIndex (si_mem it) (si_head it) i of (a, n) \<Rightarrow>
     toLastValueOfKey (it\<lparr>si_indexId := i, ii_recordIds := Some a, ii_idChildCount := n\<rparr>))"

definition si_begin :: "siIter \<Rightarrow> bool \<times> siIter" where
  "si_begin it = (if si_keyCount it = 0 then (False, it) else (True, si_show it 0))"

definition si_rbegin :: "siIter \<Rightarrow> bool \<times> siIter" where
  "si_rbegin it = (if si_keyCount it = 0 then (False, it) else (True, si_show it (si_keyCount it - 1)))"

definition si_seek :: "siIter \<Rightarrow> int \<Rightarrow> fault + bool \<times> siIter" where
  "si_seek it k =
     sbind (fx_find_int (si_mem it) (si_head it) (si_type it) k True) (\<lambda>i. let desc = ii_flag it AND ITER_FLAG_DESC \<noteq> 0 in
       Inr (if i < 0
            then if \<not> desc then (False, it)
              else if si_keyCount it = 0 then (False, it)
              else if si_keyAt it (si_keyCount it - 1) > k then (False, it) else (True, si_show it (si_keyCount it - 1))
            else if desc \<and> si_keyAt it (nat i) > k then (if i = 0 then (False, it) else (True, si_show it (nat i - 1)))
            else (True, si_show it (nat i))))"

definition si_nextKey :: "siIter \<Rightarrow> bool \<times> siIter" where
  "si_nextKey it = (if si_indexId it + 1 < si_keyCount it then (True, si_show it (si_indexId it + 1)) else (False, it))"

definition si_prevKey :: "siIter \<Rightarrow> bool \<times> siIter" where
  "si_prevKey it = (if si_indexId it \<ge> 1 then (True, si_show it (si_indexId it - 1)) else (False, it))"

section \<open>Iterators of a block\<close>

text \<open>
  \<^verbatim>\<open>appendingBlockIndexIterator\<close> hands its flag to the iterator of the index and 0 to its base class, which its \<^verbatim>\<open>next\<close> tests.
\<close>

record 'k abIndexIter =
  ax_flag :: u32
  ax_blockId :: nat
  ax_iter :: "'k apIter"

definition ax_new :: "u32 \<Rightarrow> nat \<Rightarrow> 'k appendingIndex \<Rightarrow> 'k abIndexIter" where
  "ax_new flag blockId x = \<lparr>ax_flag = 0, ax_blockId = blockId, ax_iter = ap_new flag x\<rparr>"

definition ax_seek :: "('k \<Rightarrow> 'k \<Rightarrow> int) \<Rightarrow> 'k abIndexIter \<Rightarrow> 'k \<Rightarrow> (fault + bool \<times> 'k abIndexIter) option" where
  "ax_seek cmp it k = map_option (\<lambda>r. sbind r (\<lambda>(ok, i). Inr (ok, it\<lparr>ax_iter := i\<rparr>))) (ap_seek cmp (ax_iter it) k)"

definition ax_next :: "('k \<Rightarrow> 'k \<Rightarrow> int) \<Rightarrow> 'k abIndexIter \<Rightarrow> (fault + bool \<times> 'k abIndexIter) option" where
  "ax_next cmp it = map_option (\<lambda>r. sbind r (\<lambda>(ok, i). Inr (ok, it\<lparr>ax_iter := i\<rparr>)))
     (if ax_flag it AND ITER_FLAG_DESC \<noteq> 0 then ap_prevKey cmp (ax_iter it) else Some (ap_nextKey (ax_iter it)))"

definition ax_key :: "'k abIndexIter \<Rightarrow> fault + 'k" where "ax_key it = ap_key (ax_iter it)"

text \<open>\<^verbatim>\<open>value\<close>: the address of the record in the block \<open>b\<close>.\<close>

definition ax_value :: "'ix appendingBlock \<Rightarrow> 'k abIndexIter \<Rightarrow> fault + nat" where
  "ax_value b it = sbind (ii_value (ap_load (ax_iter it)) (ax_iter it)) (\<lambda>i. getRecord b i)"

text \<open>\<^verbatim>\<open>solidBlockIndexIterator::next\<close>; \<^verbatim>\<open>true\<close> is \<^verbatim>\<open>OK\<close>, \<^verbatim>\<open>false\<close> is \<^verbatim>\<open>ENDED\<close>.\<close>

definition sx_next :: "siIter \<Rightarrow> bool \<times> siIter" where
  "sx_next it = (if ii_flag it AND ITER_FLAG_DESC = 0 then si_prevKey it else si_nextKey it)"

section \<open>The order of an open index\<close>

text \<open>The iterator stands at node \<open>n\<close> and shows its ids.\<close>

definition ap_at :: "'k apIter \<Rightarrow> nat \<Rightarrow> bool" where
  "ap_at it n \<longleftrightarrow> ap_node it = Some n \<and> ii_recordIds it = Some (ap_array it n) \<and> ii_idChildCount it = cc_count (ap_child it n) \<and>
     ii_innerIndexId it = pred32 (cc_count (ap_child it n))"

lemma ap_show_simps [simp]:
  "ap_index (ap_show it n) = ap_index it" "ap_node (ap_show it n) = ap_node it" "ii_flag (ap_show it n) = ii_flag it"
  "ap_index (ap_count it n) = ap_index it" "ap_node (ap_count it n) = ap_node it" "ii_flag (ap_count it n) = ii_flag it"
  by (simp_all add: ap_show_def ap_count_def)

lemma ap_show_at: "ap_node it = Some n \<Longrightarrow> ap_at (ap_show it n) n"
  by (simp add: ap_at_def ap_show_def ap_count_def ap_array_def ap_child_def)

lemma level0_next:
  assumes "sl_inv cmp s (us @ n # vs)"
  shows "iter_Next s (Some n) = Inr (case vs of [] \<Rightarrow> None | v # _ \<Rightarrow> Some v)"
proof -
  have "chain (\<lambda>n. sl_next s n 0) (last (0 # us @ [n])) vs" using chain_suffix [OF sl_level0, of cmp s "us @ [n]" vs] assms by simp
  then have "sl_next s n 0 = (case vs of [] \<Rightarrow> None | v # _ \<Rightarrow> Some v)" by (auto dest: chain_head)
  moreover have "0 < sl_height s n" using sl_invD(6) [OF assms, of n] by simp
  ultimately show ?thesis by (simp add: iter_Next_def node_Next_def)
qed

lemma ap_nextKey_step:
  assumes "ai_inv cmp (ap_index it) (us @ n # vs)" and "ap_node it = Some n"
  shows "ap_nextKey it = Inr (case vs of [] \<Rightarrow> (False, it\<lparr>ap_node := None\<rparr>) | v # _ \<Rightarrow> (True, ap_show (it\<lparr>ap_node := Some v\<rparr>) v))"
  using level0_next [of "kt_compare cmp" "m_index (ap_index it)" us n vs] assms
  by (cases vs) (simp_all add: ap_nextKey_def ap_moved_def ai_inv_def)

text \<open>What an iterator shows at a node: the key and, as its value, the last of the ids of the key.\<close>

lemma ap_at_value:
  assumes inv: "ai_inv cmp (ap_index it) ns" and n: "n \<in> set ns" and at: "ap_at it n" and small: "cc_count (ap_child it n) < 2 ^ 32"
  shows "ii_value (ap_load it) it = Inr (last (child_ids (ap_child it n)))" and "ii_valid it" and "ap_key it = Inr (ap_nodeKey it n)"
proof -
  have c: "child_ok (ap_child it n)" using inv n by (auto simp: ai_inv_def ap_child_def ap_array_def)
  then have p: "pred32 (cc_count (ap_child it n)) = cc_count (ap_child it n) - 1" using small by (simp add: child_ok_def)
  show "ii_value (ap_load it) it = Inr (last (child_ids (ap_child it n)))"
    using at c child_ids_last [OF c] unfolding ii_value_def ap_at_def
    by (auto simp: p ap_load_def Let_def ap_child_def [symmetric] child_ok_def)
  show "ii_valid it" using at c unfolding ii_valid_def ap_at_def by (auto simp: p child_ok_def)
  show "ap_key it = Inr (ap_nodeKey it n)" using at by (simp add: ap_key_def ap_at_def iter_key_def ap_nodeKey_def)
qed

text \<open>The keys with the values that \<^verbatim>\<open>nextKey\<close> shows from the current position on, with fuel.\<close>

fun ap_walk :: "nat \<Rightarrow> 'k apIter \<Rightarrow> ('k \<times> nat) list option" where
  "ap_walk 0 it = None"
| "ap_walk (Suc f) it =
     (case (ap_key it, ii_value (ap_load it) it, ap_nextKey it) of
        (Inr k, Inr v, Inr (True, it')) \<Rightarrow> map_option ((#) (k, v)) (ap_walk f it')
      | (Inr k, Inr v, Inr (False, it')) \<Rightarrow> Some [(k, v)]
      | _ \<Rightarrow> None)"

lemma ap_walk_from:
  assumes "ai_inv cmp (ap_index it) (us @ n # vs)" and "ap_at it n" and "\<forall>n \<in> set (n # vs). cc_count (ap_child it n) < 2 ^ 32" and "length vs < f"
  shows "ap_walk f it = Some (map (\<lambda>(k, ids). (k, last ids)) (ai_contents (ap_index it) (n # vs)))"
  using assms
proof (induction vs arbitrary: us n it f)
  case Nil
  then obtain g where "f = Suc g" by (cases f) auto
  then show ?case using ap_at_value [OF Nil(1) _ Nil(2)] ap_nextKey_step [OF Nil(1)] Nil(2,3)
    by (simp add: ap_at_def ai_contents_def ap_nodeKey_def ap_child_def ap_array_def)
next
  case (Cons v vs)
  obtain g where f: "f = Suc g" "length vs < g" using Cons.prems(4) by (cases f) auto
  define it' where "it' = ap_show (it\<lparr>ap_node := Some v\<rparr>) v"
  have it': "ap_index it' = ap_index it" "ap_at it' v" "\<And>n. ap_child it' n = ap_child it n"
    by (simp_all add: it'_def ap_show_at ap_child_def ap_array_def)
  have "ap_walk g it' = Some (map (\<lambda>(k, ids). (k, last ids)) (ai_contents (ap_index it) (v # vs)))"
    using Cons.IH [of it' "us @ [n]" v g] Cons.prems(1,3) f(2) unfolding it'(1,3) by (simp add: it'(2))
  moreover have "ap_nextKey it = Inr (True, it')" using ap_nextKey_step [OF Cons.prems(1)] Cons.prems(2) by (simp add: ap_at_def it'_def)
  ultimately show ?case using ap_at_value [OF Cons.prems(1) _ Cons.prems(2)] Cons.prems(3)
    by (simp add: f(1) ai_contents_def ap_nodeKey_def ap_child_def ap_array_def)
qed

lemma next_walk:
  assumes "ai_inv cmp (ap_index it) (us @ n # v # ws)" and "ap_node it = Some n" and "\<forall>n \<in> set (v # ws). cc_count (ap_child it n) < 2 ^ 32" and "length ws < f"
  shows "\<exists>it'. ap_nextKey it = Inr (True, it') \<and> ap_walk f it' = Some (map (\<lambda>(k, ids). (k, last ids)) (ai_contents (ap_index it) (v # ws)))"
proof -
  define it' where "it' = ap_show (it\<lparr>ap_node := Some v\<rparr>) v"
  have it': "ap_index it' = ap_index it" "ap_at it' v" "\<And>n. ap_child it' n = ap_child it n"
    by (simp_all add: it'_def ap_show_at ap_child_def ap_array_def)
  have "ap_walk f it' = Some (map (\<lambda>(k, ids). (k, last ids)) (ai_contents (ap_index it) (v # ws)))"
    using ap_walk_from [of cmp it' "us @ [n]" v ws f] assms(1,3,4) unfolding it'(1,3) by (simp add: it'(2))
  moreover have "ap_nextKey it = Inr (True, it')" using ap_nextKey_step [OF assms(1,2)] by (simp add: it'_def)
  ultimately show ?thesis by blast
qed

lemma ap_begin_first:
  assumes "ai_inv cmp x (n # vs)"
  shows "\<exists>it. ap_begin (ap_new flag x) = Inr (True, it) \<and> ap_index it = x \<and> ap_at it n"
proof -
  have sl: "sl_inv (kt_compare cmp) (m_index x) (n # vs)" using assms by (simp add: ai_inv_def)
  have "iter_SeekToFirst (m_index x) = Inr (Some n)"
    using chain_head [OF sl_level0 [OF sl]] sl_invD(3) [OF sl] by (simp add: iter_SeekToFirst_def node_Next_def kMaxHeight_def)
  moreover have "cc_count (ap_child ((ap_new flag x)\<lparr>ap_node := Some n\<rparr>) n) \<noteq> 0"
    using assms by (auto simp: ai_inv_def child_ok_def ap_child_def ap_array_def ap_new_def)
  ultimately show ?thesis
    by (intro exI [of _ "ap_show ((ap_new flag x)\<lparr>ap_node := Some n\<rparr>) n"]) (simp add: ap_begin_def ap_start_def ap_show_at, simp add: ap_new_def)
qed

text \<open>The ids of a key number at most as many as there were appends.\<close>

lemma ids_of_length: "ids_of ops k = Some ids \<Longrightarrow> length ids \<le> length ops"
  using length_filter_le [of "\<lambda>p. fst p = k" ops] by (auto simp: ids_of_def Let_def split: if_splits)

lemma ids_of_dom: "ids_of ops k \<noteq> None \<longleftrightarrow> k \<in> fst ` set ops"
  by (auto simp: ids_of_def Let_def filter_empty_conv)

lemma contents_count:
  assumes "ai_inv cmp (ap_index it) ns" and "\<forall>k. map_of (ai_contents (ap_index it) ns) k = ids_of ops k" and "distinct (map fst (ai_contents (ap_index it) ns))"
    and n: "n \<in> set ns" and "length ops < 2 ^ 32"
  shows "cc_count (ap_child it n) < 2 ^ 32"
proof -
  have "(ap_nodeKey it n, child_ids (ap_child it n)) \<in> set (ai_contents (ap_index it) ns)"
    using n by (auto simp: ai_contents_def ap_nodeKey_def ap_child_def ap_array_def)
  then have "ids_of ops (ap_nodeKey it n) = Some (child_ids (ap_child it n))" using assms(2,3) by (metis map_of_is_SomeI)
  moreover have "length (child_ids (ap_child it n)) = cc_count (ap_child it n)"
    using assms(1) n by (auto simp: ai_inv_def child_ok_def child_ids_def ap_child_def ap_array_def)
  ultimately show ?thesis using ids_of_length assms(5) by fastforce
qed

lemma map_of_contents:
  fixes es :: "('k::linorder \<times> nat list) list"
  assumes "sorted_wrt (<) (map fst es)" and "\<forall>k. map_of es k = ids_of ops k"
  shows "map (\<lambda>(k, ids). (k, last ids)) es = map (\<lambda>k. (k, last (the (ids_of ops k)))) (sorted_list_of_set (fst ` set ops))" and "distinct (map fst es)"
proof -
  show d: "distinct (map fst es)" using assms(1) by (simp add: strict_sorted_iff)
  have "fst ` set es = dom (map_of es)" by (simp add: dom_map_of_conv_image_fst)
  also have "\<dots> = fst ` set ops" using assms(2) ids_of_dom [of ops] by (auto simp: dom_def)
  finally have "sorted_list_of_set (fst ` set ops) = map fst es"
    using assms(1) by (metis list.set_map sorted_list_of_set.idem_if_sorted_distinct strict_sorted_iff)
  moreover have "last ids = last (the (ids_of ops k))" if "(k, ids) \<in> set es" for k ids
    using map_of_is_SomeI [OF d that] assms(2) by simp
  ultimately show "map (\<lambda>(k, ids). (k, last ids)) es = map (\<lambda>k. (k, last (the (ids_of ops k)))) (sorted_list_of_set (fst ` set ops))"
    by auto
qed

text \<open>
  C5: The iterator over the index of an open block: \<^verbatim>\<open>begin\<close> and \<^verbatim>\<open>nextKey\<close> show every key that was appended exactly once, in ascending order, with the
  newest of its record ids as the value, and then end.
\<close>

theorem index_iterator_shows_latest:
  fixes k0 :: "'k::linorder"
  assumes "ops \<noteq> []" and "length ops < 2 ^ 32"
  shows "\<exists>x it. append_all keyComparator (ai_new k0) ops = Some (Inr x) \<and> ap_begin (ap_new flag x) = Inr (True, it) \<and>
    ap_walk (length ops + 1) it = Some (map (\<lambda>k. (k, last (the (ids_of ops k)))) (sorted_list_of_set (fst ` set ops)))"
proof -
  obtain x ns where x: "append_all keyComparator (ai_new k0) ops = Some (Inr x)" "ai_inv keyComparator x ns" "sorted_wrt (<) (map fst (ai_contents x ns))"
    "\<forall>k. map_of (ai_contents x ns) k = ids_of ops k" using append_all_contents [of k0 ops] by blast
  note M = map_of_contents [OF x(3,4)]
  have "length ns = card (fst ` set ops)" using arg_cong [OF M(1), of length] by (simp add: ai_contents_def)
  then have len: "length ns \<le> length ops" by (metis card_image_le card_length le_trans List.finite_set)
  have "fst ` set ops \<noteq> {}" using assms(1) by simp
  then obtain n vs where ns: "ns = n # vs" using M(1) by (cases ns) (auto simp: ai_contents_def)
  obtain it where it: "ap_begin (ap_new flag x) = Inr (True, it)" "ap_index it = x" "ap_at it n" using ap_begin_first [of keyComparator x n vs flag] x(2) ns by blast
  have c: "\<forall>n \<in> set (n # vs). cc_count (ap_child it n) < 2 ^ 32"
    using contents_count [of keyComparator it ns ops] x M(2) assms(2) by (simp add: it(2) ns)
  have "ap_walk (length ops + 1) it = Some (map (\<lambda>(k, ids). (k, last ids)) (ai_contents x ns))"
    using ap_walk_from [of keyComparator it "[]" n vs "length ops + 1"] x(2) it(3) c len by (simp add: it(2) ns)
  then show ?thesis using x(1) it(1) M(1) by auto
qed

theorem index_iterator_shows_latest_witness:
  "\<exists>x it. append_all keyComparator (ai_new 0) [(5, 1), (3, 2), (5, 7 :: nat)] = Some (Inr x) \<and> ap_begin (ap_new 0 x) = Inr (True, it) \<and>
    ap_walk 4 it = Some [(3 :: int, 2), (5, 7)]"
proof -
  have "fst ` set [(5 :: int, 1 :: nat), (3, 2), (5, 7)] = set [3, 5]" by auto
  moreover have "sorted_list_of_set (set [3, 5 :: int]) = [3, 5]" by (rule sorted_list_of_set.idem_if_sorted_distinct) simp_all
  ultimately have keys: "sorted_list_of_set (fst ` set [(5 :: int, 1 :: nat), (3, 2), (5, 7)]) = [3, 5]" by simp
  have len: "length [(5 :: int, 1 :: nat), (3, 2), (5, 7)] + 1 = 4" by simp
  from index_iterator_shows_latest [of "[(5 :: int, 1), (3, 2), (5, 7)]" 0 0, unfolded keys len] show ?thesis by (simp add: ids_of_def del: append_all.simps)
qed

section \<open>Seeking in an open index\<close>

lemma keyComparator_less: "keyComparator a b < 0 \<longleftrightarrow> a < b"
  by (simp add: keyComparator_def)

lemma contents_keys:
  assumes "\<forall>k. map_of (ai_contents x ns) k = ids_of ops k"
  shows "(\<lambda>n. fst (sl_key (m_index x) n)) ` set ns = fst ` set ops"
proof -
  have "(\<lambda>n. fst (sl_key (m_index x) n)) ` set ns = fst ` set (ai_contents x ns)" by (simp add: ai_contents_def image_image)
  also have "\<dots> = dom (map_of (ai_contents x ns))" by (simp add: dom_map_of_conv_image_fst)
  finally show ?thesis using assms ids_of_dom [of ops] by (auto simp: dom_def)
qed

text \<open>The part of the contents of an index from a key on.\<close>

lemma contents_from:
  fixes d :: "'k::linorder"
  assumes inv: "ai_inv keyComparator x ns" and srt: "sorted_wrt (<) (map fst (ai_contents x ns))" and ids: "\<forall>k. map_of (ai_contents x ns) k = ids_of ops k"
  obtains us vs where "ns = us @ vs" and "iter_Seek (kt_compare keyComparator) (m_index x) (d, 0) = Some (Inr (case vs of [] \<Rightarrow> None | v # _ \<Rightarrow> Some v))"
    and "map fst (ai_contents x vs) = sorted_list_of_set {k \<in> fst ` set ops. d \<le> k}"
    and "\<And>k is. (k, is) \<in> set (ai_contents x vs) \<Longrightarrow> ids_of ops k = Some is"
proof -
  let ?key = "\<lambda>n. fst (sl_key (m_index x) n)"
  obtain us vs where S: "ns = us @ vs" "\<forall>n \<in> set us. keyComparator (?key n) d < 0" "\<forall>n \<in> set vs. \<not> keyComparator (?key n) d < 0"
    "iter_Seek (kt_compare keyComparator) (m_index x) (d, 0) = Some (Inr (case vs of [] \<Rightarrow> None | v # _ \<Rightarrow> Some v))"
    using lin_index.split_nodes(1-4) [OF inv, of d] that by blast
  have us: "\<forall>n \<in> set us. ?key n < d" and vs: "\<forall>n \<in> set vs. d \<le> ?key n" using S(2,3) by (simp_all add: keyComparator_less not_less)
  have K: "?key ` (set us \<union> set vs) = fst ` set ops" using contents_keys [OF ids] S(1) by simp
  have "set (map fst (ai_contents x vs)) = ?key ` set vs" by (simp add: ai_contents_def image_image)
  also have "\<dots> = {k \<in> fst ` set ops. d \<le> k}" using us vs unfolding K [symmetric] by auto
  finally have "set (map fst (ai_contents x vs)) = {k \<in> fst ` set ops. d \<le> k}" .
  moreover have "sorted_wrt (<) (map fst (ai_contents x vs))" using srt by (simp add: S(1) ai_contents_append sorted_wrt_append)
  ultimately have "map fst (ai_contents x vs) = sorted_list_of_set {k \<in> fst ` set ops. d \<le> k}"
    by (metis sorted_list_of_set.idem_if_sorted_distinct strict_sorted_iff)
  moreover have "ids_of ops k = Some is" if "(k, is) \<in> set (ai_contents x vs)" for k "is"
  proof -
    have "(k, is) \<in> set (ai_contents x ns)" using that by (simp add: S(1) ai_contents_append)
    then show ?thesis using ids map_of_is_SomeI [of "ai_contents x ns" k "is"] srt by (simp add: strict_sorted_iff)
  qed
  ultimately show thesis using that S(1,4) by blast
qed

text \<open>
  C40: A new ascending iterator of an index being written that seeks a key stands at the least key that is not smaller, with the number of record ids of that key, but
  \<^verbatim>\<open>seek\<close> does not set the array of the ids: the iterator is not valid, and reading its value dereferences null.  After the next \<^verbatim>\<open>nextKey\<close> the
  values are right: the walk from there shows the remaining keys in ascending order with the latest id of each.
\<close>

theorem index_seek_ids_unset:
  fixes d :: "'k::linorder"
  assumes "k \<in> fst ` set ops" and "d \<le> k" and "length ops < 2 ^ 32" and "K = {k \<in> fst ` set ops. d \<le> k}"
  shows "\<exists>x it. append_all keyComparator (ai_new k0) ops = Some (Inr x) \<and> ap_seek keyComparator (ap_new 0 x) d = Some (Inr (True, it)) \<and>
    ap_key it = Inr (Min K) \<and> ii_idChildCount it = length (the (ids_of ops (Min K))) \<and> \<not> ii_valid it \<and> ii_value (ap_load it) it = Inl NullDeref \<and>
    (if K = {Min K} then \<exists>it'. ap_nextKey it = Inr (False, it')
     else \<exists>it'. ap_nextKey it = Inr (True, it') \<and>
       ap_walk (length ops) it' = Some (map (\<lambda>k. (k, last (the (ids_of ops k)))) (sorted_list_of_set (K - {Min K}))))"
proof -
  obtain x ns where x: "append_all keyComparator (ai_new k0) ops = Some (Inr x)" "ai_inv keyComparator x ns" "sorted_wrt (<) (map fst (ai_contents x ns))"
    "\<forall>k. map_of (ai_contents x ns) k = ids_of ops k" using append_all_contents [of k0 ops] by blast
  obtain us vs where S: "ns = us @ vs" "iter_Seek (kt_compare keyComparator) (m_index x) (d, 0) = Some (Inr (case vs of [] \<Rightarrow> None | v # _ \<Rightarrow> Some v))"
    "map fst (ai_contents x vs) = sorted_list_of_set K" "\<And>k is. (k, is) \<in> set (ai_contents x vs) \<Longrightarrow> ids_of ops k = Some is"
    using contents_from [OF x(2-4), of d] unfolding assms(4) by blast
  have fin: "finite K" "K \<noteq> {}" using assms(1,2,4) by auto
  then have srt: "sorted_list_of_set K = Min K # sorted_list_of_set (K - {Min K})" by (rule sorted_list_of_set_nonempty)
  then obtain n ws where n: "vs = n # ws" using S(3) by (cases vs) (simp_all add: ai_contents_def)
  have key: "fst (sl_key (m_index x) n) = Min K" and rest: "map fst (ai_contents x ws) = sorted_list_of_set (K - {Min K})"
    using S(3) unfolding srt n by (simp_all add: ai_contents_def)
  define c where "c = ai_children x (snd (sl_key (m_index x) n))"
  have c: "child_ok c" using x(2) by (auto simp: c_def S(1) n ai_inv_def)
  have "ids_of ops (Min K) = Some (child_ids c)" using S(4) [of "Min K" "child_ids c"] key by (simp add: n ai_contents_def c_def)
  then have cnt: "length (the (ids_of ops (Min K))) = cc_count c" using c by (simp add: child_ids_def child_ok_def)
  define it where "it = ap_count (ap_new 0 x\<lparr>ap_node := Some n\<rparr>) n"
  have it: "ap_index it = x" "ap_node it = Some n" "ii_recordIds it = None" "ii_idChildCount it = cc_count c" and child: "\<And>a. ap_child it a = ai_children x (snd (sl_key (m_index x) a))"
    by (simp_all add: it_def ap_count_def ap_new_def ap_child_def ap_array_def c_def)
  have seek: "ap_seek keyComparator (ap_new 0 x) d = Some (Inr (True, it))" using S(2) c
    by (simp add: n ap_seek_def ap_seekIncrease_def ap_found_def it_def) (simp add: ap_new_def ap_child_def ap_array_def c_def [symmetric] child_ok_def)
  have "if K = {Min K} then \<exists>it'. ap_nextKey it = Inr (False, it')
     else \<exists>it'. ap_nextKey it = Inr (True, it') \<and>
       ap_walk (length ops) it' = Some (map (\<lambda>k. (k, last (the (ids_of ops k)))) (sorted_list_of_set (K - {Min K})))"
  proof (cases ws)
    case Nil
    then have "sorted_list_of_set (K - {Min K}) = []" using rest by (simp add: ai_contents_def)
    then have "K - {Min K} = {}" using fin(1) by (subst (asm) sorted_list_of_set_eq_Nil_iff) simp_all
    then have "K = {Min K}" using fin Min_in by blast
    then show ?thesis using ap_nextKey_step [of keyComparator it us n "[]"] x(2) it(1,2) Nil by (simp add: S(1) n)
  next
    case (Cons v ws')
    have "K \<noteq> {Min K}" using rest Cons by (auto simp: ai_contents_def)
    have small: "\<forall>n \<in> set (v # ws'). cc_count (ap_child it n) < 2 ^ 32"
      using contents_count [of keyComparator it ns ops] x it(1) assms(3) by (simp add: S(1) n Cons strict_sorted_iff)
    have "length (map fst (ai_contents x vs)) = card K" using S(3) by simp
    also have "\<dots> \<le> length ops" using card_mono [of "fst ` set ops" K] card_image_le [of "set ops" fst] card_length [of ops] assms(4) by fastforce
    finally have len: "length ws' < length ops" by (simp add: n Cons ai_contents_def)
    obtain it' where it': "ap_nextKey it = Inr (True, it')" "ap_walk (length ops) it' = Some (map (\<lambda>(k, ids). (k, last ids)) (ai_contents x (v # ws')))"
      using next_walk [of keyComparator it us n v ws' "length ops"] x(2) it(1,2) small len by (auto simp: S(1) n Cons)
    have "last is = last (the (ids_of ops k))" if "(k, is) \<in> set (ai_contents x (v # ws'))" for k "is"
      using S(4) [of k "is"] that by (simp add: n Cons ai_contents_def)
    then have "map (\<lambda>(k, ids). (k, last ids)) (ai_contents x (v # ws')) = map (\<lambda>k. (k, last (the (ids_of ops k)))) (map fst (ai_contents x ws))"
      unfolding Cons by auto
    then show ?thesis using it' \<open>K \<noteq> {Min K}\<close> unfolding rest by (simp del: map_map)
  qed
  moreover have "ap_key it = Inr (Min K)" "\<not> ii_valid it" "ii_value (ap_load it) it = Inl NullDeref"
    using it key by (simp_all add: ap_key_def iter_key_def ii_valid_def ii_value_def)
  ultimately show ?thesis using x(1) seek it(4) cnt by (intro exI [of _ x] exI [of _ it]) simp
qed

theorem index_seek_ids_unset_witness:
  "\<exists>x it. append_all keyComparator (ai_new 0) [(5 :: int, 1), (3, 2)] = Some (Inr x) \<and> ap_seek keyComparator (ap_new 0 x) 4 = Some (Inr (True, it)) \<and>
    ap_key it = Inr 5 \<and> ii_idChildCount it = 1 \<and> ii_value (ap_load it) it = Inl NullDeref"
proof -
  have "{k \<in> fst ` set [(5 :: int, 1 :: nat), (3, 2)]. 4 \<le> k} = {5}" by auto
  then show ?thesis using index_seek_ids_unset [of 5 "[(5 :: int, 1), (3, 2)]" 4 "{5}" 0] by (auto simp: ids_of_def simp del: append_all.simps)
qed

section \<open>Index pages\<close>

lemma si_new_simps:
  "si_mem (si_new f m d t) = m" "si_head (si_new f m d t) = d" "si_type (si_new f m d t) = t" "ii_flag (si_show it i) = ii_flag it" "ii_flag (si_new f m d t) = f"
  by (simp_all add: si_new_def si_show_def split_beta toLastValueOfKey_def)

text \<open>The page of an index of integers, read by an iterator.\<close>

lemma page_keys:
  assumes "int_ops t ops" and "sorted_wrt (<) (map fst es)" and "\<forall>k. map_of es k = ids_of ops k"
    and "M = createFixedSolidIndex m data (length (int_entries t es)) (TID t) (col_size t) (int_entries t es)" and "i < length es"
  shows "sh_keyCount M data = length es" and "key_int t M (fx_getKey M data i) = fst (es ! i)"
    and "read_ids M (fx_getRecordIdByIndex M data i) = snd (es ! i)"
proof -
  note ok = int_entries_ok [OF assms(1-3)]
  have ty: "TID t < 256" by (cases t) simp_all
  have l: "length (int_entries t es) = length es" by (simp add: int_entries_def)
  have i: "i < length (int_entries t es)" using assms(5) l by simp
  show "sh_keyCount M data = length es" using fixed_memory(1) [OF ok(1) ty] i l assms(4) by auto
  show "read_ids M (fx_getRecordIdByIndex M data i) = snd (es ! i)"
    using fixed_read_back(3) [OF ok(1) ty i] assms(4,5) by (simp add: int_entries_def split_beta)
  have "key_int t M (fx_getKey M data i) = bytes_int t (fst (int_entries t es ! i))"
    using key_int_bytes assms(1) fixed_read_back(2) [OF ok(1) ty i] unfolding assms(4) int_ops_def by fastforce
  also have "\<dots> = fst (es ! i)" using arg_cong [OF ok(2), of "\<lambda>l. l ! i"] i assms(5) by simp
  finally show "key_int t M (fx_getKey M data i) = fst (es ! i)" .
qed

lemma page_value:
  assumes "int_ops t ops" and "sorted_wrt (<) (map fst es)" and "\<forall>k. map_of es k = ids_of ops k"
    and "M = createFixedSolidIndex m data (length (int_entries t es)) (TID t) (col_size t) (int_entries t es)" and i: "i < length es"
    and it: "si_mem it = M" "si_head it = data" "si_type it = t"
  shows "si_keyCount it = length es" and "si_keyAt it i = fst (es ! i)" and "si_key (si_show it i) = fst (es ! i)"
    and "ii_value (si_load (si_show it i)) (si_show it i) = Inr (last (snd (es ! i)))" and "si_keyCount (si_show it i) = length es" and "si_indexId (si_show it i) = i"
proof -
  note K = page_keys [OF assms(1-4) i]
  show "si_keyCount it = length es" "si_keyAt it i = fst (es ! i)" using K it by (simp_all add: si_keyCount_def si_keyAt_def)
  obtain a n where an: "fx_getRecordIdByIndex M data i = (a, n)" by (cases "fx_getRecordIdByIndex M data i")
  have show_it: "si_show it i = it\<lparr>si_indexId := i, ii_recordIds := Some a, ii_idChildCount := n, ii_innerIndexId := pred32 n\<rparr>"
    using an it by (simp add: si_show_def toLastValueOfKey_def)
  show "si_key (si_show it i) = fst (es ! i)" "si_keyCount (si_show it i) = length es" "si_indexId (si_show it i) = i"
    using K it by (simp_all add: show_it si_key_def si_keyAt_def si_keyCount_def)
  have e: "(fst (es ! i), snd (es ! i)) \<in> set es" using i by simp
  have ids: "ids_of ops (fst (es ! i)) = Some (snd (es ! i))"
    using map_of_contents(2) [OF assms(2,3)] assms(3) map_of_is_SomeI [OF _ e] by simp
  have "length ops < 2 ^ 32" using assms(1) by (simp add: int_ops_def)
  moreover have "snd (es ! i) \<noteq> []" using ids by (auto simp: ids_of_def Let_def split: if_splits)
  moreover have "length (snd (es ! i)) = n" using arg_cong [OF K(3), of length] an by (simp add: read_ids_def)
  ultimately have n: "0 < n" "n < 2 ^ 32" using ids_of_length [OF ids] by auto
  have "last (snd (es ! i)) = rd 4 M (a + 4 * (n - 1))"
    using arg_cong [OF K(3), of last] an n by (simp add: read_ids_def last_map)
  then show "ii_value (si_load (si_show it i)) (si_show it i) = Inr (last (snd (es ! i)))"
    using n it by (simp add: show_it ii_value_def si_load_def)
qed

lemma page_find:
  assumes "int_ops t ops" and "sorted_wrt (<) (map fst es)" and "\<forall>k. map_of es k = ids_of ops k"
    and "M = createFixedSolidIndex m data (length (int_entries t es)) (TID t) (col_size t) (int_entries t es)"
  shows "(\<exists>i<length es. fst (es ! i) = d \<and> fx_find_int M data t d True = Inr (int i)) \<or> d \<notin> fst ` set ops \<and> fx_find_int M data t d True = Inr (-1)"
proof -
  have "es \<noteq> []" using int_entries_ok(4) [OF assms(1-3)] .
  then have n: "sh_keyCount M data = length (map fst es)" using page_keys(1) [OF assms, of 0] by simp
  have "\<forall>i<length (map fst es). agrees (Inr (int_compare d (key_int t M (fx_getKey M data i)))) d (map fst es ! i)"
    using page_keys(2) [OF assms] by (simp add: int_compare_agrees)
  from idx_find_agrees [OF assms(2) this, of True] have "(\<exists>i<length es. fst (es ! i) = d \<and> fx_find_int M data t d True = Inr (int i)) \<or>
      d \<notin> set (map fst es) \<and> fx_find_int M data t d True = Inr (-1)" unfolding fx_find_int_def n by auto
  moreover have "set (map fst es) = fst ` set ops"
    using assms(3) ids_of_dom [of ops] dom_map_of_conv_image_fst [of es] by (auto simp: dom_def)
  ultimately show ?thesis by simp
qed

text \<open>
  An ascending \<^verbatim>\<open>seek\<close> in an index page finds exactly the keys of the page, with the newest record id as the value; for any other key it fails, even when
  greater keys follow, although the iterator of an open index then stands at the next key.
\<close>

theorem solid_seek_needs_exact_key:
  assumes "int_ops t ops"
  shows "\<exists>x M it. append_all keyComparator (ai_new 0) ops = Some (Inr x) \<and> toString_int t x m data = Some M \<and>
    si_seek (si_new 0 M data t) d = Inr (d \<in> fst ` set ops, it) \<and>
    (d \<in> fst ` set ops \<longrightarrow> si_key it = d \<and> ii_value (si_load it) it = Inr (last (the (ids_of ops d))))"
proof -
  define m0 where "m0 = (\<lambda>x. zero_bytes m data (toSolidIndexSize (x :: int appendingIndex) (col_size t) True))"
  obtain x es M where x: "append_all keyComparator (ai_new 0) ops = Some (Inr x)" "sorted_wrt (<) (map fst es)" "\<forall>k. map_of es k = ids_of ops k"
    "toString_int t x m data = Some M" "M = createFixedSolidIndex (m0 x) data (length (int_entries t es)) (TID t) (col_size t) (int_entries t es)"
    using append_to_page [OF assms, of m data] unfolding m0_def by blast
  define it where "it = si_new 0 M data t"
  have it: "si_mem it = M" "si_head it = data" "si_type it = t" "ii_flag it = 0" by (simp_all add: it_def si_new_def)
  from page_find [OF assms x(2,3,5), of d]
  consider i where "i < length es" "fst (es ! i) = d" "fx_find_int M data t d True = Inr (int i)"
    | "d \<notin> fst ` set ops" "fx_find_int M data t d True = Inr (-1)" by blast
  then have "\<exists>it'. si_seek it d = Inr (d \<in> fst ` set ops, it') \<and>
    (d \<in> fst ` set ops \<longrightarrow> si_key it' = d \<and> ii_value (si_load it') it' = Inr (last (the (ids_of ops d))))"
  proof cases
    case 1
    have e: "(d, snd (es ! i)) \<in> set es" using nth_mem [OF 1(1)] 1(2) by (metis prod.collapse)
    have ids: "ids_of ops d = Some (snd (es ! i))" using map_of_contents(2) [OF x(2,3)] x(3) map_of_is_SomeI [OF _ e] by simp
    then have "d \<in> fst ` set ops" using ids_of_dom [of ops d] by simp
    moreover have "si_seek it d = Inr (True, si_show it i)" using 1(3) it by (simp add: si_seek_def Let_def)
    ultimately show ?thesis using page_value(3,4) [OF assms x(2,3,5) 1(1) it(1-3)] 1(2) ids by simp
  next
    case 2
    then have "si_seek it d = Inr (False, it)" using it by (simp add: si_seek_def Let_def)
    then show ?thesis using 2(1) by simp
  qed
  then show ?thesis using x(1,4) unfolding it_def by blast
qed

theorem solid_seek_needs_exact_key_witness:
  "\<exists>x M it. append_all keyComparator (ai_new 0) [(5, 1), (3, 2)] = Some (Inr x) \<and> toString_int T_INT32 x (\<lambda>_. 0) 100 = Some M \<and>
    si_seek (si_new 0 M 100 T_INT32) 4 = Inr (False, it)"
proof -
  have "int_ops T_INT32 [(5, 1), (3, 2)]" by (simp add: int_ops_def int_types_def int_range_def signed_types_def)
  moreover have "(4 \<in> fst ` set [(5 :: int, 1 :: nat), (3, 2)]) = False" by simp
  ultimately show ?thesis using solid_seek_needs_exact_key [of T_INT32 "[(5, 1), (3, 2)]" "\<lambda>_. 0" 100 4] by metis
qed

text \<open>
  The directions of \<^verbatim>\<open>solidBlockIndexIterator::next\<close> are exchanged: an iterator that is created ascending and stands at the least key of a page, of however many, has ended
  after one step, and one that is created descending has ended after one step from the greatest key.
\<close>

theorem solid_block_iterator_reversed:
  assumes "int_ops t ops"
  shows "\<exists>x M up down. append_all keyComparator (ai_new 0) ops = Some (Inr x) \<and> toString_int t x m data = Some M \<and>
    si_begin (si_new 0 M data t) = (True, up) \<and> si_key up = Min (fst ` set ops) \<and> sx_next up = (False, up) \<and>
    si_rbegin (si_new ITER_FLAG_DESC M data t) = (True, down) \<and> si_key down = Max (fst ` set ops) \<and> sx_next down = (False, down)"
proof -
  obtain x es M m0 where x: "append_all keyComparator (ai_new 0) ops = Some (Inr x)" "sorted_wrt (<) (map fst es)" "\<forall>k. map_of es k = ids_of ops k"
    "toString_int t x m data = Some M" "M = createFixedSolidIndex m0 data (length (int_entries t es)) (TID t) (col_size t) (int_entries t es)"
    using append_to_page [OF assms, of m data] by blast
  have ne: "es \<noteq> []" using int_entries_ok(4) [OF assms x(2,3)] .
  then have len: "0 < length es" "length es - 1 < length es" by simp_all
  have keys: "fst ` set es = fst ` set ops" using x(3) ids_of_dom [of ops] dom_map_of_conv_image_fst [of es] by (auto simp: dom_def)
  have srt: "fst (es ! i) \<le> fst (es ! j)" if "i \<le> j" "j < length es" for i j
    using x(2) that by (metis (no_types, lifting) le_neq_implies_less length_map nth_map order.order_iff_strict order.strict_trans2 sorted_wrt_iff_nth_less)
  have img: "fst ` set ops = (\<lambda>i. fst (es ! i)) ` {..<length es}" unfolding keys [symmetric] by (force simp: set_conv_nth)
  have "Min (fst ` set ops) = fst (es ! 0)" unfolding img by (rule Min_eqI) (use srt len in auto)
  moreover have "Max (fst ` set ops) = fst (es ! (length es - 1))" unfolding img by (rule Max_eqI) (use srt len in auto)
  moreover note V = page_value [OF assms x(2,3,5)] and N = si_new_simps
  note up = V(1,3,6) [OF len(1) N(1-3), of 0] and down = V(1,3,5,6) [OF len(2) N(1-3), of ITER_FLAG_DESC]
  have "si_begin (si_new 0 M data t) = (True, si_show (si_new 0 M data t) 0)" "sx_next (si_show (si_new 0 M data t) 0) = (False, si_show (si_new 0 M data t) 0)"
    using len up by (simp_all add: si_begin_def sx_next_def si_prevKey_def N)
  moreover have "si_rbegin (si_new ITER_FLAG_DESC M data t) = (True, si_show (si_new ITER_FLAG_DESC M data t) (length es - 1))"
    "sx_next (si_show (si_new ITER_FLAG_DESC M data t) (length es - 1)) = (False, si_show (si_new ITER_FLAG_DESC M data t) (length es - 1))"
    using len down by (simp_all add: si_rbegin_def sx_next_def si_nextKey_def N) (simp add: ITER_FLAG_DESC_def)
  ultimately show ?thesis using x(1,4) up(2) down(2) by metis
qed

theorem solid_block_iterator_reversed_witness:
  "\<exists>x M up. append_all keyComparator (ai_new 0) [(5, 1), (3, 2)] = Some (Inr x) \<and> toString_int T_INT32 x (\<lambda>_. 0) 100 = Some M \<and>
    si_begin (si_new 0 M 100 T_INT32) = (True, up) \<and> si_key up = 3 \<and> sx_next up = (False, up)"
proof -
  have "int_ops T_INT32 [(5, 1), (3, 2)]" by (simp add: int_ops_def int_types_def int_range_def signed_types_def)
  moreover have "Min (fst ` set [(5 :: int, 1 :: nat), (3, 2)]) = 3" by simp
  ultimately show ?thesis using solid_block_iterator_reversed [of T_INT32 "[(5, 1), (3, 2)]" "\<lambda>_. 0" 100] by metis
qed

end
