(* ===== verification/KWaySort.thy ===== *)
theory KWaySort
  imports MinHeap IndexIterators
begin

unbundle bit_operations_syntax

text \<open>
  The iterator that merges the index iterators of several blocks with a heap (\<^verbatim>\<open>database/kWaySortIterator.h\<close>).  The heap holds pointers to the
  iterators, which are their numbers here, and compares the keys at which they stand; the class of the iterators and of the comparison are
  parameters.  The contract \<open>key_stream\<close> says what the merge relies on of an iterator, and is interpreted on the index iterators of open
  blocks.  Two blocks are merged correctly, apart from a common first key; three are not, because \<^verbatim>\<open>popAndInsert\<close> of the heap loses its order.
\<close>

section \<open>The iterator\<close>

record ('it, 'k) iterOps =
  io_seek :: "'it \<Rightarrow> 'k \<Rightarrow> (fault + bool \<times> 'it) option"
  io_next :: "'it \<Rightarrow> (fault + bool \<times> 'it) option"
  io_key :: "'it \<Rightarrow> fault + 'k"
  io_blockId :: "'it \<Rightarrow> nat"

record 'it kway =
  kw_iters :: "'it list"
  kw_heap :: "nat minheap"
  kw_current :: "nat option"
  kw_status :: iter_status

definition increaseCompare :: "'k::linorder \<Rightarrow> 'k \<Rightarrow> bool" where "increaseCompare a b \<longleftrightarrow> a < b"
definition decreaseCompare :: "'k::linorder \<Rightarrow> 'k \<Rightarrow> bool" where "decreaseCompare a b \<longleftrightarrow> a > b"

text \<open>The comparison of two iterators.  Iterators in the heap have a key, since their last seek or step succeeded.\<close>

definition kw_less :: "('it, 'k) iterOps \<Rightarrow> ('k \<Rightarrow> 'k \<Rightarrow> bool) \<Rightarrow> 'it list \<Rightarrow> nat \<Rightarrow> nat \<Rightarrow> bool" where
  "kw_less ops lt its i j = (case (io_key ops (its ! i), io_key ops (its ! j)) of (Inr a, Inr b) \<Rightarrow> lt a b | _ \<Rightarrow> False)"

definition kw_new :: "'it list \<Rightarrow> 'it kway" where
  "kw_new its = \<lparr>kw_iters = its, kw_heap = heap_new 0 (length its), kw_current = None, kw_status = S_INVALID\<rparr>"

fun seek_loop :: "('it, 'k) iterOps \<Rightarrow> ('k \<Rightarrow> 'k \<Rightarrow> bool) \<Rightarrow> 'it kway \<Rightarrow> 'k \<Rightarrow> nat list \<Rightarrow> (fault + 'it kway) option" where
  "seek_loop ops lt s k [] = Some (Inr s)"
| "seek_loop ops lt s k (i # is) =
     (case io_seek ops (kw_iters s ! i) k of None \<Rightarrow> None | Some (Inl f) \<Rightarrow> Some (Inl f)
      | Some (Inr (ok, it)) \<Rightarrow> (let s = s\<lparr>kw_iters := (kw_iters s)[i := it]\<rparr> in
          if ok then (case heap_insert (kw_less ops lt (kw_iters s)) (kw_heap s) i of Inl f \<Rightarrow> Some (Inl f)
              | Inr hp \<Rightarrow> seek_loop ops lt (s\<lparr>kw_heap := hp\<rparr>) k is)
          else seek_loop ops lt s k is))"

text \<open>\<^verbatim>\<open>seek\<close> returns true in any case.\<close>

definition kw_seek :: "('it, 'k) iterOps \<Rightarrow> ('k \<Rightarrow> 'k \<Rightarrow> bool) \<Rightarrow> 'it kway \<Rightarrow> 'k \<Rightarrow> (fault + 'it kway) option" where
  "kw_seek ops lt s k =
     map_option (\<lambda>r. sbind r (\<lambda>s. Inr (if heap_size (kw_heap s) > 0 then s\<lparr>kw_current := Some (heap_get (kw_heap s))\<rparr> else s)))
       (seek_loop ops lt (s\<lparr>kw_heap := heap_clear (kw_heap s)\<rparr>) k [0..<length (kw_iters s)])"

text \<open>A step of the iterator with number \<open>i\<close>.\<close>

definition kw_step :: "('it, 'k) iterOps \<Rightarrow> 'it kway \<Rightarrow> nat \<Rightarrow> (fault + bool \<times> 'it kway) option" where
  "kw_step ops s i = map_option (\<lambda>r. sbind r (\<lambda>(ok, it). Inr (ok, s\<lparr>kw_iters := (kw_iters s)[i := it]\<rparr>))) (io_next ops (kw_iters s ! i))"

definition same_key :: "('it, 'k) iterOps \<Rightarrow> 'it list \<Rightarrow> nat \<Rightarrow> nat \<Rightarrow> bool" where
  "same_key ops its i j = (case (io_key ops (its ! i), io_key ops (its ! j)) of (Inr a, Inr b) \<Rightarrow> a = b | _ \<Rightarrow> False)"

text \<open>The loop that drops the older of two equal keys.\<close>

partial_function (option) kw_dedup :: "('it, 'k) iterOps \<Rightarrow> ('k \<Rightarrow> 'k \<Rightarrow> bool) \<Rightarrow> 'it kway \<Rightarrow> nat \<Rightarrow> (fault + 'it kway) option" where
  [code]: "kw_dedup ops lt s cur =
     (case heap_getSecond (kw_less ops lt (kw_iters s)) (kw_heap s) of None \<Rightarrow> Some (Inr s)
      | Some (sid, second) \<Rightarrow>
        (if \<not> same_key ops (kw_iters s) cur second then Some (Inr s)
         else if io_blockId ops (kw_iters s ! second) > io_blockId ops (kw_iters s ! cur)
         then (case kw_step ops s cur of None \<Rightarrow> None | Some (Inl f) \<Rightarrow> Some (Inl f)
           | Some (Inr (ok, s)) \<Rightarrow>
             (case (if ok then heap_popAndInsert (kw_less ops lt (kw_iters s)) (kw_heap s) cur else heap_pop (kw_less ops lt (kw_iters s)) (kw_heap s)) of
                None \<Rightarrow> None | Some hp \<Rightarrow> kw_dedup ops lt (s\<lparr>kw_heap := hp, kw_current := Some second\<rparr>) second))
         else (case kw_step ops s second of None \<Rightarrow> None | Some (Inl f) \<Rightarrow> Some (Inl f)
           | Some (Inr (ok, s)) \<Rightarrow>
             (case (if ok then heap_replaceAt (kw_less ops lt (kw_iters s)) (kw_heap s) second sid else heap_popAt (kw_less ops lt (kw_iters s)) (kw_heap s) sid) of
                None \<Rightarrow> None | Some hp \<Rightarrow> kw_dedup ops lt (s\<lparr>kw_heap := hp\<rparr>) cur))))"

definition kw_next :: "('it, 'k) iterOps \<Rightarrow> ('k \<Rightarrow> 'k \<Rightarrow> bool) \<Rightarrow> 'it kway \<Rightarrow> (fault + iter_status \<times> 'it kway) option" where
  "kw_next ops lt s =
     (if heap_size (kw_heap s) = 0 then Some (Inr (S_ENDED, s))
      else case kw_current s of None \<Rightarrow> Some (Inl NullDeref)
      | Some cur \<Rightarrow>
        (case kw_step ops s cur of None \<Rightarrow> None | Some (Inl f) \<Rightarrow> Some (Inl f)
         | Some (Inr (ok, s)) \<Rightarrow>
           (case (if ok then heap_popAndInsert (kw_less ops lt (kw_iters s)) (kw_heap s) cur else heap_pop (kw_less ops lt (kw_iters s)) (kw_heap s)) of
              None \<Rightarrow> None
            | Some hp \<Rightarrow> if \<not> ok \<and> heap_size hp = 0 then Some (Inr (S_ENDED, s\<lparr>kw_heap := hp, kw_status := S_ENDED\<rparr>))
                else let cur = heap_get hp in
                  map_option (\<lambda>r. sbind r (\<lambda>s. Inr (S_OK, s))) (kw_dedup ops lt (s\<lparr>kw_heap := hp, kw_current := Some cur\<rparr>) cur))))"

definition kw_key :: "('it, 'k) iterOps \<Rightarrow> 'it kway \<Rightarrow> fault + 'k" where
  "kw_key ops s = (case kw_current s of None \<Rightarrow> Inl NullDeref | Some i \<Rightarrow> io_key ops (kw_iters s ! i))"

definition kw_end :: "'it kway \<Rightarrow> bool" where "kw_end s \<longleftrightarrow> heap_size (kw_heap s) = 0"

text \<open>The keys shown from the current position on, each with the block it comes from, with fuel.\<close>

fun kw_walk :: "nat \<Rightarrow> ('it, 'k) iterOps \<Rightarrow> ('k \<Rightarrow> 'k \<Rightarrow> bool) \<Rightarrow> 'it kway \<Rightarrow> ('k \<times> nat) list option" where
  "kw_walk 0 ops lt s = None"
| "kw_walk (Suc f) ops lt s =
     (case (kw_key ops s, kw_next ops lt s) of
        (Inr k, Some (Inr (S_OK, s'))) \<Rightarrow> map_option ((#) (k, io_blockId ops (kw_iters s ! the (kw_current s)))) (kw_walk f ops lt s')
      | (Inr k, Some (Inr (S_ENDED, s'))) \<Rightarrow> Some [(k, io_blockId ops (kw_iters s ! the (kw_current s)))]
      | _ \<Rightarrow> None)"

section \<open>The merge of two sequences\<close>

fun merge2 :: "nat \<Rightarrow> 'k::linorder list \<Rightarrow> nat \<Rightarrow> 'k list \<Rightarrow> ('k \<times> nat) list" where
  "merge2 p [] q ys = map (\<lambda>y. (y, q)) ys"
| "merge2 p xs q [] = map (\<lambda>x. (x, p)) xs"
| "merge2 p (x # xs) q (y # ys) =
     (if x < y then (x, p) # merge2 p xs q (y # ys) else if y < x then (y, q) # merge2 p (x # xs) q ys else (x, max p q) # merge2 p xs q ys)"

lemma merge2_Nil [simp]: "merge2 p xs q [] = map (\<lambda>x. (x, p)) xs"
  by (cases xs) simp_all

lemma merge2_length: "length (merge2 p xs q ys) \<le> length xs + length ys"
  by (induction p xs q ys rule: merge2.induct) auto

lemma merge2_swap: "merge2 p xs q ys = merge2 q ys p xs"
  by (induction p xs q ys rule: merge2.induct) (auto simp: max.commute)

text \<open>Every key once, in ascending order; a key of both sequences is taken from the newer block.\<close>

definition owner :: "nat \<Rightarrow> 'k list \<Rightarrow> nat \<Rightarrow> 'k list \<Rightarrow> 'k \<Rightarrow> nat" where
  "owner p xs q ys k = (if k \<in> set xs \<inter> set ys then max p q else if k \<in> set xs then p else q)"

lemma owner_other: "k \<noteq> x \<Longrightarrow> owner p (x # xs) q ys k = owner p xs q ys k" "k \<noteq> y \<Longrightarrow> owner p xs q (y # ys) k = owner p xs q ys k"
  by (simp_all add: owner_def)

lemma merge2_owner:
  assumes "sorted_wrt (<) xs" and "sorted_wrt (<) ys"
  shows "\<exists>ks. merge2 p xs q ys = map (\<lambda>k. (k, owner p xs q ys k)) ks \<and> sorted_wrt (<) ks \<and> set ks = set xs \<union> set ys"
  using assms
proof (induction p xs q ys rule: merge2.induct)
  case (3 p x xs q y ys)
  note srt = \<open>sorted_wrt (<) (x # xs)\<close> \<open>sorted_wrt (<) (y # ys)\<close>
  have ext: "\<exists>ks. (z, b) # map (\<lambda>k. (k, owner p us q vs k)) ks0 = map (\<lambda>k. (k, owner p (x # xs) q (y # ys) k)) ks \<and> sorted_wrt (<) ks \<and> set ks = insert z (set ks0)"
    if "sorted_wrt (<) ks0" "\<forall>k \<in> set ks0. z < k \<and> owner p us q vs k = owner p (x # xs) q (y # ys) k" "b = owner p (x # xs) q (y # ys) z" for z b us vs ks0
    using that by (intro exI [of _ "z # ks0"]) simp
  consider "x < y" | "y < x" | "x = y" by (rule linorder_cases)
  then show ?case
  proof cases
    case 1
    then obtain ks where ks: "merge2 p xs q (y # ys) = map (\<lambda>k. (k, owner p xs q (y # ys) k)) ks" "sorted_wrt (<) ks" "set ks = set xs \<union> set (y # ys)"
      using 3(1) srt by auto
    have "\<forall>k \<in> set ks. x < k" "x \<notin> set (y # ys)" using srt 1 ks(3) by auto
    then have "\<forall>k \<in> set ks. x < k \<and> owner p xs q (y # ys) k = owner p (x # xs) q (y # ys) k" "p = owner p (x # xs) q (y # ys) x"
      using owner_other(1) [of _ x p xs q "y # ys"] by (auto simp: owner_def [of _ _ _ _ x])
    from ext [OF ks(2) this] show ?thesis using 1 ks(1,3) by (simp add: insert_commute)
  next
    case 2
    then obtain ks where ks: "merge2 p (x # xs) q ys = map (\<lambda>k. (k, owner p (x # xs) q ys k)) ks" "sorted_wrt (<) ks" "set ks = set (x # xs) \<union> set ys"
      using 3(2) [OF less_not_sym [OF 2] 2] srt by auto
    have "\<forall>k \<in> set ks. y < k" "y \<notin> set (x # xs)" using srt 2 ks(3) by auto
    then have "\<forall>k \<in> set ks. y < k \<and> owner p (x # xs) q ys k = owner p (x # xs) q (y # ys) k" "q = owner p (x # xs) q (y # ys) y"
      using owner_other(2) [of _ y p "x # xs" q ys] by (auto simp: owner_def [of _ _ _ _ y])
    from ext [OF ks(2) this] show ?thesis using less_not_sym [OF 2] 2 ks(1,3) by (simp add: insert_commute)
  next
    case eq: 3
    then obtain ks where ks: "merge2 p xs q ys = map (\<lambda>k. (k, owner p xs q ys k)) ks" "sorted_wrt (<) ks" "set ks = set xs \<union> set ys"
      using 3(3) srt by (auto simp: eq)
    have "\<forall>k \<in> set ks. x < k" using srt eq ks(3) by auto
    then have "\<forall>k \<in> set ks. x < k \<and> owner p xs q ys k = owner p (x # xs) q (y # ys) k" "max p q = owner p (x # xs) q (y # ys) x"
      using owner_other [of _ x p xs q] eq by (auto simp: owner_def [of _ _ _ _ y])
    from ext [OF ks(2) this] show ?thesis using eq ks(1,3) by simp
  qed
next
  case (2 p x xs q)
  then show ?case by (intro exI [of _ "x # xs"]) (simp add: owner_def)
qed (auto simp: owner_def)

lemma merge2_map:
  assumes "sorted_wrt (<) xs" and "sorted_wrt (<) ys"
  shows "merge2 p xs q ys = map (\<lambda>k. (k, owner p xs q ys k)) (sorted_list_of_set (set xs \<union> set ys))"
  using merge2_owner [OF assms, of p q] by (metis sorted_list_of_set.idem_if_sorted_distinct strict_sorted_iff)

section \<open>Heaps of two elements\<close>

lemma adjust_two: "adjust lt (a # x # c # r) (Suc 0) 2 = Some (if lt x c then a # x # c # r else a # c # x # r)"
proof -
  have "adjust lt (a # x # c # r) (Suc 0) 2 = (if lt x c then Some (a # x # c # r) else adjust_loop lt (a # c # x # r) 2 4 2)"
    unfolding adjust_def heap_left_def by (subst adjust_loop.simps) (auto simp: heap_swap_def heap_left_def numeral_eq_Suc)
  then show ?thesis by (simp add: adjust_loop.simps [of lt _ 2])
qed

lemma adjust_leaf: "adjust lt xs (Suc (Suc 0)) 2 = Some xs"
  by (simp add: adjust_def heap_left_def adjust_loop.simps)

lemma heap_two:
  assumes "currentSize hp = 2" and "3 \<le> length (h hp)"
  shows "heap_popAndInsert lt hp x = Some (if lt x (h hp ! 2) then hp\<lparr>h := (h hp)[1 := x]\<rparr> else hp\<lparr>h := (h hp)[1 := h hp ! 2, 2 := x]\<rparr>)"
    and "heap_pop lt hp = Some (hp\<lparr>h := (h hp)[1 := h hp ! 2], currentSize := 1\<rparr>)"
    and "heap_replaceAt lt hp x 1 = Some (hp\<lparr>h := (h hp)[2 := x]\<rparr>)"
    and "heap_popAt lt hp 1 = Some (hp\<lparr>currentSize := 1\<rparr>)"
proof -
  obtain a b c r where hp: "h hp = a # b # c # r" using assms(2) by (cases "h hp"; cases "tl (h hp)"; cases "tl (tl (h hp))") auto
  have u: "(a # y # z # r)[2 := x] = a # y # x # r" for x y z :: 'a by (simp add: numeral_2_eq_2)
  show "heap_popAndInsert lt hp x = Some (if lt x (h hp ! 2) then hp\<lparr>h := (h hp)[1 := x]\<rparr> else hp\<lparr>h := (h hp)[1 := h hp ! 2, 2 := x]\<rparr>)"
    using assms(1) hp by (simp add: heap_popAndInsert_def heap_replaceAt_def adjust_two u)
  show "heap_pop lt hp = Some (hp\<lparr>h := (h hp)[1 := h hp ! 2], currentSize := 1\<rparr>)"
    using assms(1) hp by (simp add: heap_pop_def heap_popAt_def adjust_two)
  show "heap_replaceAt lt hp x 1 = Some (hp\<lparr>h := (h hp)[2 := x]\<rparr>)"
    using assms(1) hp by (simp add: heap_replaceAt_def adjust_leaf u)
  show "heap_popAt lt hp 1 = Some (hp\<lparr>currentSize := 1\<rparr>)"
    using assms(1) hp by (simp add: heap_popAt_def adjust_leaf u)
qed

lemma heap_one:
  assumes "currentSize hp = 1"
  shows "heap_popAndInsert lt hp x = Some (hp\<lparr>h := (h hp)[1 := x]\<rparr>)" and "heap_pop lt hp = Some (hp\<lparr>currentSize := 0\<rparr>)" and "heap_getSecond lt hp = None"
  using assms by (simp_all add: heap_popAndInsert_def heap_replaceAt_def heap_pop_def heap_popAt_def adjust_def heap_left_def adjust_loop.simps heap_getSecond_def)

section \<open>What the merge relies on\<close>

text \<open>
  \<open>opened it\<close>: the iterator may be sought and runs over the ascending keys \<open>keys it\<close>.  \<open>ok it\<close>: it stands at a key and the keys from there on are \<open>ahead it\<close>.
\<close>

locale key_stream =
  fixes ops :: "('it, 'k::linorder) iterOps" and opened :: "'it \<Rightarrow> bool" and keys :: "'it \<Rightarrow> 'k list" and ok :: "'it \<Rightarrow> bool" and ahead :: "'it \<Rightarrow> 'k list"
  assumes seek_opened: "opened it \<Longrightarrow> \<exists>it'. io_seek ops it k = Some (Inr (dropWhile (\<lambda>x. x < k) (keys it) \<noteq> [], it')) \<and> io_blockId ops it' = io_blockId ops it \<and>
      (dropWhile (\<lambda>x. x < k) (keys it) \<noteq> [] \<longrightarrow> ok it' \<and> ahead it' = dropWhile (\<lambda>x. x < k) (keys it))"
    and at_key: "ok it \<Longrightarrow> ahead it = x # xs \<Longrightarrow> io_key ops it = Inr x"
    and ahead_sorted: "ok it \<Longrightarrow> ahead it \<noteq> [] \<and> sorted_wrt (<) (ahead it)"
    and next_last: "ok it \<Longrightarrow> ahead it = [x] \<Longrightarrow> \<exists>it'. io_next ops it = Some (Inr (False, it'))"
    and next_more: "ok it \<Longrightarrow> ahead it = x # y # ys \<Longrightarrow>
      \<exists>it'. io_next ops it = Some (Inr (True, it')) \<and> ok it' \<and> ahead it' = y # ys \<and> io_blockId ops it' = io_blockId ops it"
begin

text \<open>The heap holds one iterator, or two in the order of their keys; the first is the current one.\<close>

definition one :: "'it kway \<Rightarrow> nat \<Rightarrow> bool" where
  "one s i \<longleftrightarrow> currentSize (kw_heap s) = 1 \<and> h (kw_heap s) ! 1 = i \<and> i < length (kw_iters s) \<and> ok (kw_iters s ! i) \<and> kw_current s = Some i \<and>
     2 \<le> length (h (kw_heap s))"

definition two :: "'it kway \<Rightarrow> nat \<Rightarrow> nat \<Rightarrow> bool" where
  "two s i j \<longleftrightarrow> currentSize (kw_heap s) = 2 \<and> h (kw_heap s) ! 1 = i \<and> h (kw_heap s) ! 2 = j \<and> i < length (kw_iters s) \<and> j < length (kw_iters s) \<and> i \<noteq> j \<and>
     ok (kw_iters s ! i) \<and> ok (kw_iters s ! j) \<and> kw_current s = Some i \<and> 3 \<le> length (h (kw_heap s)) \<and>
     io_blockId ops (kw_iters s ! i) \<noteq> io_blockId ops (kw_iters s ! j)"

abbreviation blk :: "'it kway \<Rightarrow> nat \<Rightarrow> nat" where "blk s i \<equiv> io_blockId ops (kw_iters s ! i)"
abbreviation fut :: "'it kway \<Rightarrow> nat \<Rightarrow> 'k list" where "fut s i \<equiv> ahead (kw_iters s ! i)"

definition pending :: "'it kway \<Rightarrow> ('k \<times> nat) list \<Rightarrow> bool" where
  "pending s l \<longleftrightarrow> (\<exists>i. one s i \<and> l = map (\<lambda>k. (k, blk s i)) (fut s i)) \<or>
     (\<exists>i j. two s i j \<and> hd (fut s i) < hd (fut s j) \<and> l = merge2 (blk s i) (fut s i) (blk s j) (fut s j))"

lemma less_keys:
  assumes "ok (its ! i)" and "ok (its ! j)"
  shows "kw_less ops increaseCompare its i j \<longleftrightarrow> hd (ahead (its ! i)) < hd (ahead (its ! j))" and "same_key ops its i j \<longleftrightarrow> hd (ahead (its ! i)) = hd (ahead (its ! j))"
proof -
  obtain x xs y ys where "ahead (its ! i) = x # xs" "ahead (its ! j) = y # ys" using ahead_sorted assms by (metis list.exhaust)
  then show "kw_less ops increaseCompare its i j \<longleftrightarrow> hd (ahead (its ! i)) < hd (ahead (its ! j))" "same_key ops its i j \<longleftrightarrow> hd (ahead (its ! i)) = hd (ahead (its ! j))"
    using at_key [OF assms(1)] at_key [OF assms(2)] by (simp_all add: kw_less_def same_key_def increaseCompare_def)
qed

text \<open>A step of one iterator leaves the other alone.\<close>

lemma step_other:
  assumes "kw_step ops s i = Some (Inr (b, s'))" and "j \<noteq> i"
  shows "kw_iters s' ! j = kw_iters s ! j" and "kw_heap s' = kw_heap s" and "kw_current s' = kw_current s" and "length (kw_iters s') = length (kw_iters s)"
  using assms by (auto simp: kw_step_def sbind_eq_Inr)

lemma step_last:
  assumes "ok (kw_iters s ! i)" and "fut s i = [x]"
  obtains s' where "kw_step ops s i = Some (Inr (False, s'))"
  using next_last [OF assms] by (force simp: kw_step_def)

lemma step_more:
  assumes "ok (kw_iters s ! i)" and "fut s i = x # y # ys" and "i < length (kw_iters s)"
  obtains s' where "kw_step ops s i = Some (Inr (True, s'))" and "ok (kw_iters s' ! i)" and "fut s' i = y # ys" and "blk s' i = blk s i"
  using next_more [OF assms(1,2)] assms(3) by (force simp: kw_step_def)

lemma second_two: "two s i j \<Longrightarrow> heap_getSecond lt (kw_heap s) = Some (1, j)"
  by (auto simp: two_def heap_getSecond_def)

lemma dedup_one:
  assumes "one s i"
  shows "kw_dedup ops lt s c = Some (Inr s)"
  using assms by (subst kw_dedup.simps) (simp add: one_def heap_one(3))

lemma dedup_distinct:
  assumes "two s i j" and "hd (fut s i) \<noteq> hd (fut s j)"
  shows "kw_dedup ops lt s i = Some (Inr s)"
proof -
  have "ok (kw_iters s ! i)" "ok (kw_iters s ! j)" using assms(1) by (simp_all add: two_def)
  then have "\<not> same_key ops (kw_iters s) i j" using less_keys(2) assms(2) by blast
  then show ?thesis by (subst kw_dedup.simps) (simp add: second_two [OF assms(1)])
qed

lemma pendingI:
  "one s i \<Longrightarrow> pending s (map (\<lambda>k. (k, blk s i)) (fut s i))"
  "two s i j \<Longrightarrow> hd (fut s i) < hd (fut s j) \<Longrightarrow> pending s (merge2 (blk s i) (fut s i) (blk s j) (fut s j))"
  by (auto simp: pending_def)

text \<open>After the loop the keys that are pending are merged.\<close>

lemma dedup_two:
  assumes two: "two s i j" and le: "hd (fut s i) \<le> hd (fut s j)"
  shows "\<exists>s'. kw_dedup ops increaseCompare s i = Some (Inr s') \<and> pending s' (merge2 (blk s i) (fut s i) (blk s j) (fut s j))"
proof (cases "hd (fut s i) = hd (fut s j)")
  case False
  then show ?thesis using dedup_distinct [OF two False] pendingI(2) [OF two] le by simp
next
  case True
  let ?lt = "\<lambda>s. kw_less ops increaseCompare (kw_iters s)"
  have ok: "ok (kw_iters s ! i)" "ok (kw_iters s ! j)" and lens: "i < length (kw_iters s)" "j < length (kw_iters s)" "i \<noteq> j" "j \<noteq> i"
    and hp: "currentSize (kw_heap s) = 2" "3 \<le> length (h (kw_heap s))" "h (kw_heap s) ! 1 = i" "h (kw_heap s) ! 2 = j" and bl: "blk s i \<noteq> blk s j"
    using two by (simp_all add: two_def)
  obtain x xs ys where f: "fut s i = x # xs" "fut s j = x # ys" using ahead_sorted [OF ok(1)] ahead_sorted [OF ok(2)] True by (metis list.exhaust list.sel(1))
  have srt: "\<forall>y \<in> set xs. x < y" "\<forall>y \<in> set ys. x < y" using ahead_sorted [OF ok(1)] ahead_sorted [OF ok(2)] f by simp_all
  have same: "same_key ops (kw_iters s) i j" using less_keys(2) [OF ok] True by simp
  show ?thesis
  proof (cases "blk s j > blk s i")
    case newer: True
    have step: "kw_dedup ops increaseCompare s i = (case kw_step ops s i of None \<Rightarrow> None | Some (Inl f) \<Rightarrow> Some (Inl f)
      | Some (Inr (ok, s)) \<Rightarrow> (case (if ok then heap_popAndInsert (?lt s) (kw_heap s) i else heap_pop (?lt s) (kw_heap s)) of
          None \<Rightarrow> None | Some hp \<Rightarrow> kw_dedup ops increaseCompare (s\<lparr>kw_heap := hp, kw_current := Some j\<rparr>) j))"
      using newer same by (subst kw_dedup.simps) (simp add: second_two [OF two])
    show ?thesis
    proof (cases xs)
      case Nil
      obtain s1 where s1: "kw_step ops s i = Some (Inr (False, s1))" using step_last [OF ok(1)] f Nil by metis
      note o = step_other [OF s1 lens(4)]
      define s2 where "s2 = s1\<lparr>kw_heap := (kw_heap s)\<lparr>h := (h (kw_heap s))[1 := j], currentSize := 1\<rparr>, kw_current := Some j\<rparr>"
      have "one s2 j" using o ok lens hp by (simp add: s2_def one_def)
      moreover have "kw_dedup ops increaseCompare s i = kw_dedup ops increaseCompare s2 j" using step s1 heap_two(2) [OF hp(1,2)] hp(4) by (simp add: o s2_def)
      moreover have "blk s2 j = blk s j" "fut s2 j = fut s j" by (simp_all add: s2_def o)
      ultimately show ?thesis using dedup_one pendingI(1) [of s2 j] newer f Nil by simp
    next
      case (Cons y zs)
      obtain s1 where s1: "kw_step ops s i = Some (Inr (True, s1))" "ok (kw_iters s1 ! i)" "fut s1 i = xs" "blk s1 i = blk s i"
        using step_more [OF ok(1) _ lens(1)] f Cons by metis
      note o = step_other [OF s1(1) lens(4)]
      define s2 where "s2 = s1\<lparr>kw_heap := (kw_heap s)\<lparr>h := (h (kw_heap s))[1 := j, 2 := i]\<rparr>, kw_current := Some j\<rparr>"
      have lt: "\<not> ?lt s1 i j" using less_keys(1) [OF s1(2), of j] o ok f s1(3) Cons srt(1) by (simp add: not_less less_imp_le)
      have two2: "two s2 j i" using o ok lens hp bl s1 by (simp add: s2_def two_def)
      have e: "blk s2 j = blk s j" "fut s2 j = fut s j" "blk s2 i = blk s i" "fut s2 i = xs" by (simp_all add: s2_def o s1)
      have "hd (fut s2 j) < hd (fut s2 i)" using f Cons srt(1) unfolding e by simp
      moreover from this have "kw_dedup ops increaseCompare s2 j = Some (Inr s2)" by (intro dedup_distinct [OF two2]) simp
      moreover have "kw_dedup ops increaseCompare s i = kw_dedup ops increaseCompare s2 j"
        using step s1(1) heap_two(1) [OF hp(1,2), of "?lt s1" i] lt hp(4) by (simp add: o s2_def)
      ultimately show ?thesis using pendingI(2) [OF two2] newer f Cons srt(1) unfolding e by (simp add: merge2_swap [of "blk s j" ys])
    qed
  next
    case older: False
    have step: "kw_dedup ops increaseCompare s i = (case kw_step ops s j of None \<Rightarrow> None | Some (Inl f) \<Rightarrow> Some (Inl f)
      | Some (Inr (ok, s)) \<Rightarrow> (case (if ok then heap_replaceAt (?lt s) (kw_heap s) j (Suc 0) else heap_popAt (?lt s) (kw_heap s) (Suc 0)) of
          None \<Rightarrow> None | Some hp \<Rightarrow> kw_dedup ops increaseCompare (s\<lparr>kw_heap := hp\<rparr>) i))"
      using older same by (subst kw_dedup.simps) (simp add: second_two [OF two])
    show ?thesis
    proof (cases ys)
      case Nil
      obtain s1 where s1: "kw_step ops s j = Some (Inr (False, s1))" using step_last [OF ok(2)] f Nil by metis
      note o = step_other [OF s1 lens(3)]
      define s2 where "s2 = s1\<lparr>kw_heap := (kw_heap s)\<lparr>currentSize := 1\<rparr>\<rparr>"
      have "one s2 i" using o ok lens hp two by (simp add: s2_def one_def two_def)
      moreover have "kw_dedup ops increaseCompare s i = kw_dedup ops increaseCompare s2 i" using step s1 heap_two(4) [OF hp(1,2)] by (simp add: o s2_def)
      moreover have "blk s2 i = blk s i" "fut s2 i = fut s i" by (simp_all add: s2_def o)
      ultimately show ?thesis using dedup_one pendingI(1) [of s2 i] older bl f Nil by simp
    next
      case (Cons y zs)
      obtain s1 where s1: "kw_step ops s j = Some (Inr (True, s1))" "ok (kw_iters s1 ! j)" "fut s1 j = ys" "blk s1 j = blk s j"
        using step_more [OF ok(2) _ lens(2)] f Cons by metis
      note o = step_other [OF s1(1) lens(3)]
      define s2 where "s2 = s1\<lparr>kw_heap := (kw_heap s)\<lparr>h := (h (kw_heap s))[2 := j]\<rparr>\<rparr>"
      have two2: "two s2 i j" using o ok lens hp bl s1 two by (simp add: s2_def two_def)
      have e: "blk s2 j = blk s j" "fut s2 j = ys" "blk s2 i = blk s i" "fut s2 i = fut s i" by (simp_all add: s2_def o s1)
      have "hd (fut s2 i) < hd (fut s2 j)" using f Cons srt(2) unfolding e by simp
      moreover from this have "kw_dedup ops increaseCompare s2 i = Some (Inr s2)" by (intro dedup_distinct [OF two2]) simp
      moreover have "kw_dedup ops increaseCompare s i = kw_dedup ops increaseCompare s2 i"
        using step s1(1) heap_two(3) [OF hp(1,2), of "?lt s1" j] by (simp add: o s2_def)
      ultimately show ?thesis using pendingI(2) [OF two2] older bl f Cons srt(2) unfolding e by simp
    qed
  qed
qed

text \<open>One step from two iterators, where the keys may be equal: the current key is consumed and the rest is merged.\<close>

lemma next_two:
  assumes two: "two s i j" and le: "hd (fut s i) \<le> hd (fut s j)"
  shows "\<exists>s'. kw_next ops increaseCompare s = Some (Inr (S_OK, s')) \<and> pending s' (merge2 (blk s i) (tl (fut s i)) (blk s j) (fut s j))"
proof -
  let ?lt = "\<lambda>s. kw_less ops increaseCompare (kw_iters s)"
  have ok: "ok (kw_iters s ! i)" "ok (kw_iters s ! j)" and lens: "i < length (kw_iters s)" "j < length (kw_iters s)" "i \<noteq> j" "j \<noteq> i"
    and hp: "currentSize (kw_heap s) = 2" "3 \<le> length (h (kw_heap s))" "h (kw_heap s) ! 1 = i" "h (kw_heap s) ! 2 = j" and bl: "blk s i \<noteq> blk s j"
    and cur: "kw_current s = Some i" using two by (simp_all add: two_def)
  obtain x xs where f: "fut s i = x # xs" using ahead_sorted [OF ok(1)] by (metis list.exhaust)
  obtain z zs where g: "fut s j = z # zs" using ahead_sorted [OF ok(2)] by (metis list.exhaust)
  show ?thesis
  proof (cases xs)
    case Nil
    obtain s1 where s1: "kw_step ops s i = Some (Inr (False, s1))" using step_last [OF ok(1)] f Nil by metis
    note o = step_other [OF s1 lens(4)]
    define s2 where "s2 = s1\<lparr>kw_heap := (kw_heap s)\<lparr>h := (h (kw_heap s))[1 := j], currentSize := 1\<rparr>, kw_current := Some j\<rparr>"
    have one: "one s2 j" using o ok lens hp by (simp add: s2_def one_def)
    have e: "blk s2 j = blk s j" "fut s2 j = fut s j" by (simp_all add: s2_def o)
    have "kw_next ops increaseCompare s = Some (Inr (S_OK, s2))"
      using s1 heap_two(2) [OF hp(1,2)] hp cur dedup_one [OF one, of increaseCompare j]
      by (simp add: kw_next_def heap_size_def heap_get_def o s2_def Let_def)
    then show ?thesis using pendingI(1) [OF one] f Nil unfolding e by simp
  next
    case (Cons y ys)
    obtain s1 where s1: "kw_step ops s i = Some (Inr (True, s1))" "ok (kw_iters s1 ! i)" "fut s1 i = xs" "blk s1 i = blk s i"
      using step_more [OF ok(1) _ lens(1)] f Cons by metis
    note o = step_other [OF s1(1) lens(4)]
    have lt: "?lt s1 i j \<longleftrightarrow> y < z" using less_keys(1) [OF s1(2), of j] o ok g s1(3) Cons by simp
    define a where "a = (if y < z then i else j)"
    define b where "b = (if y < z then j else i)"
    define s2 where "s2 = s1\<lparr>kw_heap := (if y < z then (kw_heap s)\<lparr>h := (h (kw_heap s))[1 := i]\<rparr> else (kw_heap s)\<lparr>h := (h (kw_heap s))[1 := j, 2 := i]\<rparr>), kw_current := Some a\<rparr>"
    have two2: "two s2 a b" using o ok lens hp bl s1 by (auto simp: s2_def two_def a_def b_def)
    have e: "blk s2 i = blk s i" "fut s2 i = xs" "blk s2 j = blk s j" "fut s2 j = fut s j" by (simp_all add: s2_def o s1)
    have "hd (fut s2 a) \<le> hd (fut s2 b)" using Cons g by (auto simp: a_def b_def e)
    from dedup_two [OF two2 this] obtain s3 where s3: "kw_dedup ops increaseCompare s2 a = Some (Inr s3)"
      "pending s3 (merge2 (blk s2 a) (fut s2 a) (blk s2 b) (fut s2 b))" by blast
    have "merge2 (blk s2 a) (fut s2 a) (blk s2 b) (fut s2 b) = merge2 (blk s i) xs (blk s j) (fut s j)"
      using merge2_swap [of "blk s j" "fut s j"] by (simp add: a_def b_def e)
    moreover have "kw_next ops increaseCompare s = Some (Inr (S_OK, s3))"
      using s1(1) heap_two(1) [OF hp(1,2), of "?lt s1" i] hp cur s3(1) lt
      by (cases "y < z") (simp_all add: kw_next_def heap_size_def heap_get_def o s2_def a_def Let_def)
    ultimately show ?thesis using s3(2) f by auto
  qed
qed

lemma next_one:
  assumes one: "one s i"
  shows "case tl (fut s i) of [] \<Rightarrow> \<exists>s'. kw_next ops lt s = Some (Inr (S_ENDED, s'))
    | _ \<Rightarrow> \<exists>s'. kw_next ops lt s = Some (Inr (S_OK, s')) \<and> pending s' (map (\<lambda>k. (k, blk s i)) (tl (fut s i)))"
proof -
  have ok: "ok (kw_iters s ! i)" and lens: "i < length (kw_iters s)" and hp: "currentSize (kw_heap s) = 1" "2 \<le> length (h (kw_heap s))" "h (kw_heap s) ! 1 = i"
    and cur: "kw_current s = Some i" using one by (simp_all add: one_def)
  obtain x xs where f: "fut s i = x # xs" using ahead_sorted [OF ok] by (metis list.exhaust)
  show ?thesis
  proof (cases xs)
    case Nil
    obtain s1 where s1: "kw_step ops s i = Some (Inr (False, s1))" using step_last [OF ok] f Nil by metis
    note o = step_other(2) [OF s1, of "Suc i"]
    show ?thesis using s1 heap_one(2) [OF hp(1)] hp(1) cur f Nil by (simp add: kw_next_def heap_size_def o)
  next
    case (Cons y ys)
    obtain s1 where s1: "kw_step ops s i = Some (Inr (True, s1))" "ok (kw_iters s1 ! i)" "fut s1 i = xs" "blk s1 i = blk s i"
      using step_more [OF ok _ lens] f Cons by metis
    note o = step_other(2-4) [OF s1(1), of "Suc i", simplified]
    define s2 where "s2 = s1\<lparr>kw_heap := (kw_heap s)\<lparr>h := (h (kw_heap s))[1 := i]\<rparr>, kw_current := Some i\<rparr>"
    have one2: "one s2 i" using o lens hp s1 by (simp add: s2_def one_def)
    have "kw_next ops lt s = Some (Inr (S_OK, s2))"
      using s1(1) heap_one(1) [OF hp(1)] hp cur dedup_one [OF one2, of lt i] by (simp add: kw_next_def heap_size_def heap_get_def o s2_def Let_def)
    moreover have "blk s2 i = blk s i" "fut s2 i = xs" by (simp_all add: s2_def s1)
    ultimately show ?thesis using pendingI(1) [OF one2] f Cons by simp
  qed
qed

lemma pending_step:
  assumes "pending s l"
  shows "\<exists>k b l'. l = (k, b) # l' \<and> kw_key ops s = Inr k \<and> blk s (the (kw_current s)) = b \<and>
    (if l' = [] then \<exists>s'. kw_next ops increaseCompare s = Some (Inr (S_ENDED, s')) else \<exists>s'. kw_next ops increaseCompare s = Some (Inr (S_OK, s')) \<and> pending s' l')"
proof -
  from assms consider i where "one s i" "l = map (\<lambda>k. (k, blk s i)) (fut s i)"
    | i j where "two s i j" "hd (fut s i) < hd (fut s j)" "l = merge2 (blk s i) (fut s i) (blk s j) (fut s j)" by (auto simp: pending_def)
  then show ?thesis
  proof cases
    case 1
    then have ok: "ok (kw_iters s ! i)" "kw_current s = Some i" by (simp_all add: one_def)
    obtain x xs where f: "fut s i = x # xs" using ahead_sorted [OF ok(1)] by (metis list.exhaust)
    then show ?thesis using next_one [OF 1(1), of increaseCompare] at_key [OF ok(1) f] ok(2) 1(2) by (cases xs) (simp_all add: kw_key_def)
  next
    case 2
    then have ok: "ok (kw_iters s ! i)" "ok (kw_iters s ! j)" "kw_current s = Some i" by (simp_all add: two_def)
    obtain x xs y ys where f: "fut s i = x # xs" "fut s j = y # ys" using ahead_sorted [OF ok(1)] ahead_sorted [OF ok(2)] by (metis list.exhaust)
    have "merge2 (blk s i) xs (blk s j) (y # ys) \<noteq> []" by (cases xs) auto
    then show ?thesis using next_two [OF 2(1)] at_key [OF ok(1) f(1)] ok(3) 2(2,3) f by (simp add: kw_key_def)
  qed
qed

lemma walk_pending: "pending s l \<Longrightarrow> length l \<le> n \<Longrightarrow> kw_walk n ops increaseCompare s = Some l"
proof (induction l arbitrary: s n)
  case Nil
  then show ?case using pending_step by blast
next
  case (Cons e l)
  obtain m where n: "n = Suc m" "length l \<le> m" using Cons.prems(2) by (cases n) auto
  obtain k b where e: "e = (k, b)" by (cases e)
  have P: "kw_key ops s = Inr k" "blk s (the (kw_current s)) = b"
    "if l = [] then \<exists>s'. kw_next ops increaseCompare s = Some (Inr (S_ENDED, s')) else \<exists>s'. kw_next ops increaseCompare s = Some (Inr (S_OK, s')) \<and> pending s' l"
    using pending_step [OF Cons.prems(1)] e by auto
  show ?case using P Cons.IH n e by (auto split: if_splits)
qed

abbreviation from_key :: "'k \<Rightarrow> 'it \<Rightarrow> 'k list" where "from_key k it \<equiv> dropWhile (\<lambda>x. x < k) (keys it)"

lemma seek_two:
  assumes "opened a" and "opened b" and "from_key k a \<noteq> []" and "from_key k b \<noteq> []" and "io_blockId ops a \<noteq> io_blockId ops b"
  obtains s i j where "kw_seek ops increaseCompare (kw_new [a, b]) k = Some (Inr s)" and "two s i j" and "hd (fut s i) \<le> hd (fut s j)"
    and "(i = 0 \<and> j = 1 \<or> i = 1 \<and> j = 0 \<and> hd (fut s i) < hd (fut s j)) \<and> fut s 0 = from_key k a \<and> fut s 1 = from_key k b \<and> blk s 0 = io_blockId ops a \<and> blk s 1 = io_blockId ops b"
proof -
  obtain a' where a': "io_seek ops a k = Some (Inr (True, a'))" "io_blockId ops a' = io_blockId ops a" "ok a'" "ahead a' = from_key k a"
    using seek_opened [OF assms(1), of k] assms(3) by auto
  obtain b' where b': "io_seek ops b k = Some (Inr (True, b'))" "io_blockId ops b' = io_blockId ops b" "ok b'" "ahead b' = from_key k b"
    using seek_opened [OF assms(2), of k] assms(4) by auto
  define less where "less = (hd (ahead b') < hd (ahead a'))"
  define i where "i = (if less then 1 else 0 :: nat)"
  define j where "j = (if less then 0 else 1 :: nat)"
  define s where "s = \<lparr>kw_iters = [a', b'], kw_heap = \<lparr>h = [0, i, j], maxSize = 2, currentSize = 2\<rparr>, kw_current = Some i, kw_status = S_INVALID\<rparr>"
  have less: "kw_less ops increaseCompare [a', b'] (Suc 0) 0 = less" using less_keys(1) [of "[a', b']" "Suc 0" 0] a'(3) b'(3) by (simp add: less_def)
  have ins0: "heap_insert lt \<lparr>h = [0, 0, 0], maxSize = 2, currentSize = 0\<rparr> 0 = Inr \<lparr>h = [0, 0, 0], maxSize = 2, currentSize = 1\<rparr>" for lt :: "nat \<Rightarrow> nat \<Rightarrow> bool"
    by (simp add: heap_insert_def insert_up.simps)
  have ins1: "heap_insert (kw_less ops increaseCompare [a', b']) \<lparr>h = [0, 0, 0], maxSize = 2, currentSize = 1\<rparr> 1 = Inr \<lparr>h = [0, i, j], maxSize = 2, currentSize = 2\<rparr>"
    using less by (auto simp: heap_insert_def insert_up.simps heap_parent_def heap_swap_def i_def j_def numeral_2_eq_2)
  have "kw_seek ops increaseCompare (kw_new [a, b]) k = Some (Inr s)"
    using a'(1) b'(1) ins0 ins1 by (simp add: kw_seek_def kw_new_def heap_new_def heap_clear_def s_def heap_size_def heap_get_def Let_def numeral_3_eq_3 numeral_2_eq_2 upt_rec)
  moreover have "two s i j" using a' b' assms(5) by (auto simp: two_def s_def i_def j_def)
  moreover have "hd (fut s i) \<le> hd (fut s j)" by (auto simp: s_def i_def j_def less_def)
  moreover have "(i = 0 \<and> j = 1 \<or> i = 1 \<and> j = 0 \<and> hd (fut s i) < hd (fut s j)) \<and> fut s 0 = from_key k a \<and> fut s 1 = from_key k b \<and> blk s 0 = io_blockId ops a \<and> blk s 1 = io_blockId ops b"
    using a' b' by (auto simp: s_def i_def j_def less_def)
  ultimately show thesis using that by blast
qed

text \<open>Two iterators that stand at different keys after the seek are merged.\<close>

lemma merges_two:
  assumes "opened a" and "opened b" and "from_key k a \<noteq> []" and "from_key k b \<noteq> []" and "io_blockId ops a \<noteq> io_blockId ops b"
    and ne: "hd (from_key k a) \<noteq> hd (from_key k b)" and len: "length (from_key k a) + length (from_key k b) \<le> n"
  shows "\<exists>s. kw_seek ops increaseCompare (kw_new [a, b]) k = Some (Inr s) \<and>
    kw_walk n ops increaseCompare s = Some (merge2 (io_blockId ops a) (from_key k a) (io_blockId ops b) (from_key k b))"
proof -
  obtain s i j where s: "kw_seek ops increaseCompare (kw_new [a, b]) k = Some (Inr s)" "two s i j" "hd (fut s i) \<le> hd (fut s j)"
    "(i = 0 \<and> j = 1 \<or> i = 1 \<and> j = 0 \<and> hd (fut s i) < hd (fut s j)) \<and> fut s 0 = from_key k a \<and> fut s 1 = from_key k b \<and> blk s 0 = io_blockId ops a \<and> blk s 1 = io_blockId ops b"
    using seek_two [OF assms(1-5)] by metis
  let ?l = "merge2 (io_blockId ops a) (from_key k a) (io_blockId ops b) (from_key k b)"
  have "pending s (merge2 (blk s i) (fut s i) (blk s j) (fut s j))" using s(2-4) ne by (intro pendingI(2)) auto
  moreover have "merge2 (blk s i) (fut s i) (blk s j) (fut s j) = ?l" using s(4) merge2_swap by metis
  moreover have "length ?l \<le> n" using len merge2_length le_trans by blast
  ultimately show ?thesis using s(1) walk_pending [of s ?l n] by auto
qed

text \<open>Two iterators that stand at the same key after the seek show it twice.\<close>

lemma shows_twice:
  assumes "opened a" and "opened b" and "from_key k a = x # xs" and "from_key k b = x # ys" and "io_blockId ops a \<noteq> io_blockId ops b"
    and len: "length xs + length ys + 2 \<le> n"
  shows "\<exists>s. kw_seek ops increaseCompare (kw_new [a, b]) k = Some (Inr s) \<and>
    kw_walk n ops increaseCompare s = Some ((x, io_blockId ops a) # merge2 (io_blockId ops a) xs (io_blockId ops b) (x # ys))"
proof -
  obtain s where s: "kw_seek ops increaseCompare (kw_new [a, b]) k = Some (Inr s)" "two s 0 1" "fut s 0 = x # xs" "fut s 1 = x # ys"
    "blk s 0 = io_blockId ops a" "blk s 1 = io_blockId ops b" using seek_two [OF assms(1,2) _ _ assms(5), of k] assms(3,4) by (metis list.distinct(1) list.sel(1) less_irrefl)
  have ok: "ok (kw_iters s ! 0)" "kw_current s = Some 0" using s(2) by (simp_all add: two_def)
  obtain s' where s': "kw_next ops increaseCompare s = Some (Inr (S_OK, s'))" "pending s' (merge2 (io_blockId ops a) xs (io_blockId ops b) (x # ys))"
    using next_two [OF s(2)] s(3-6) by auto
  obtain m where n: "n = Suc m" "length xs + length (x # ys) \<le> m" using len by (cases n) auto
  have "kw_walk m ops increaseCompare s' = Some (merge2 (io_blockId ops a) xs (io_blockId ops b) (x # ys))"
    by (rule walk_pending [OF s'(2) le_trans [OF merge2_length n(2)]])
  then show ?thesis using s(1,5) s'(1) at_key [OF ok(1) s(3)] ok(2) by (intro exI [of _ s]) (simp add: n(1) kw_key_def)
qed

text \<open>Three iterators: after the first key the greater of the other two is shown first.\<close>

lemma three_out_of_order:
  assumes "opened a" and "opened b" and "opened c" and "from_key k a = x # x' # xs" and "from_key k b = y # ys" and "from_key k c = z # zs"
    and "x < z" and "z < y" and "y \<le> x'"
  shows "\<exists>s s'. kw_seek ops increaseCompare (kw_new [a, b, c]) k = Some (Inr s) \<and> kw_key ops s = Inr x \<and>
    kw_next ops increaseCompare s = Some (Inr (S_OK, s')) \<and> kw_key ops s' = Inr y \<and> io_key ops (kw_iters s' ! 2) = Inr z"
proof -
  obtain a' where a': "io_seek ops a k = Some (Inr (True, a'))" "ok a'" "ahead a' = x # x' # xs"
    using seek_opened [OF assms(1), of k] assms(4) by auto
  obtain b' where b': "io_seek ops b k = Some (Inr (True, b'))" "ok b'" "ahead b' = y # ys"
    using seek_opened [OF assms(2), of k] assms(5) by auto
  obtain c' where c': "io_seek ops c k = Some (Inr (True, c'))" "ok c'" "ahead c' = z # zs"
    using seek_opened [OF assms(3), of k] assms(6) by auto
  obtain a2 where a2: "io_next ops a' = Some (Inr (True, a2))" "ok a2" "ahead a2 = x' # xs" using next_more [OF a'(2,3)] by blast
  note k = at_key [OF a'(2,3)] at_key [OF b'(2,3)] at_key [OF c'(2,3)] at_key [OF a2(2,3)]
  define s where "s = \<lparr>kw_iters = [a', b', c'], kw_heap = \<lparr>h = [0, 0, 1, 2], maxSize = 3, currentSize = 3\<rparr>, kw_current = Some 0, kw_status = S_INVALID\<rparr>"
  define s' where "s' = \<lparr>kw_iters = [a2, b', c'], kw_heap = \<lparr>h = [0, 1, 0, 2], maxSize = 3, currentSize = 3\<rparr>, kw_current = Some 1, kw_status = S_INVALID\<rparr>"
  have ins: "heap_insert lt \<lparr>h = [0, 0, 0, 0], maxSize = 3, currentSize = 0\<rparr> 0 = Inr \<lparr>h = [0, 0, 0, 0], maxSize = 3, currentSize = 1\<rparr>"
    "\<not> lt 1 0 \<Longrightarrow> heap_insert lt \<lparr>h = [0, 0, 0, 0], maxSize = 3, currentSize = 1\<rparr> 1 = Inr \<lparr>h = [0, 0, 1, 0], maxSize = 3, currentSize = 2\<rparr>"
    "\<not> lt 2 0 \<Longrightarrow> heap_insert lt \<lparr>h = [0, 0, 1, 0], maxSize = 3, currentSize = 2\<rparr> 2 = Inr \<lparr>h = [0, 0, 1, 2], maxSize = 3, currentSize = 3\<rparr>"
    for lt :: "nat \<Rightarrow> nat \<Rightarrow> bool"
  proof -
    have u: "[0, 0, 0, 0][2 := 1] = [0, 0, 1, 0 :: nat]" "[0, 0, 1, 0][3 := 2] = [0, 0, 1, 2 :: nat]" by (simp_all add: numeral_2_eq_2 numeral_3_eq_3)
    show "heap_insert lt \<lparr>h = [0, 0, 0, 0], maxSize = 3, currentSize = 0\<rparr> 0 = Inr \<lparr>h = [0, 0, 0, 0], maxSize = 3, currentSize = 1\<rparr>"
      by (simp add: heap_insert_def insert_up.simps)
    show "heap_insert lt \<lparr>h = [0, 0, 0, 0], maxSize = 3, currentSize = 1\<rparr> 1 = Inr \<lparr>h = [0, 0, 1, 0], maxSize = 3, currentSize = 2\<rparr>" if "\<not> lt 1 0"
      using that u(1) by (simp add: heap_insert_def insert_up.simps [of lt _ "Suc (Suc 0)"] heap_parent_def)
    show "heap_insert lt \<lparr>h = [0, 0, 1, 0], maxSize = 3, currentSize = 2\<rparr> 2 = Inr \<lparr>h = [0, 0, 1, 2], maxSize = 3, currentSize = 3\<rparr>" if "\<not> lt 2 0"
      using that u(2) by (simp add: heap_insert_def insert_up.simps [of lt _ 3] heap_parent_def)
  qed
  have less: "\<not> kw_less ops increaseCompare [a', b', it] 1 0" "\<not> kw_less ops increaseCompare [a', b', c'] 2 0" for it
    using k assms(7,8) by (auto simp: kw_less_def increaseCompare_def)
  have "kw_seek ops increaseCompare (kw_new [a, b, c]) k = Some (Inr s)"
    using a'(1) b'(1) c'(1) ins(1) ins(2) [of "kw_less ops increaseCompare [a', b', c]"] less(1) [of c] ins(3) [of "kw_less ops increaseCompare [a', b', c']"] less(2)
    by (simp add: kw_seek_def kw_new_def heap_new_def heap_clear_def s_def heap_size_def heap_get_def Let_def numeral_3_eq_3 numeral_2_eq_2 upt_rec)
  moreover have "kw_next ops increaseCompare s = Some (Inr (S_OK, s'))"
  proof -
    have "adjust (kw_less ops increaseCompare [a2, b', c']) [0, 0, 1, 2] 1 3 = Some [0, 1, 0, 2]"
      unfolding adjust_def heap_left_def using k assms(8,9)
      by (subst adjust_loop.simps, subst adjust_loop.simps) (auto simp: kw_less_def increaseCompare_def heap_swap_def heap_left_def numeral_2_eq_2 numeral_3_eq_3)
    then have p: "heap_popAndInsert (kw_less ops increaseCompare [a2, b', c']) (kw_heap s) 0 = Some (kw_heap s')"
      by (simp add: heap_popAndInsert_def heap_replaceAt_def s_def s'_def)
    have "heap_getSecond (kw_less ops increaseCompare [a2, b', c']) (kw_heap s') = Some (2, 2)"
      using k assms(8,9) by (auto simp: heap_getSecond_def s'_def kw_less_def increaseCompare_def numeral_2_eq_2 numeral_3_eq_3)
    then have d: "kw_dedup ops increaseCompare s' 1 = Some (Inr s')"
      using k less_imp_neq [OF assms(8)] by (subst kw_dedup.simps) (auto simp: s'_def same_key_def numeral_2_eq_2)
    show ?thesis using a2(1) p d by (simp add: kw_next_def kw_step_def heap_size_def heap_get_def s_def s'_def Let_def)
  qed
  moreover have "kw_key ops s = Inr x" "kw_key ops s' = Inr y" "io_key ops (kw_iters s' ! 2) = Inr z" using k by (simp_all add: kw_key_def s_def s'_def numeral_2_eq_2)
  ultimately show ?thesis by blast
qed

end

section \<open>Index iterators of open blocks\<close>

definition ax_ops :: "('k::linorder abIndexIter, 'k) iterOps" where
  "ax_ops = \<lparr>io_seek = ax_seek keyComparator, io_next = ax_next keyComparator, io_key = ax_key, io_blockId = ax_blockId\<rparr>"

abbreviation ax_x :: "'k abIndexIter \<Rightarrow> 'k appendingIndex" where "ax_x it \<equiv> ap_index (ax_iter it)"

text \<open>The keys from a node on, and all keys; both enumerate the lowest level of the skip list.\<close>

definition ax_ahead :: "'k abIndexIter \<Rightarrow> 'k list" where
  "ax_ahead it = map fst (the (sl_walk (m_keyCount (ax_x it) + 1) (m_index (ax_x it)) (ap_node (ax_iter it))))"

definition ax_keys :: "'k abIndexIter \<Rightarrow> 'k list" where
  "ax_keys it = map fst (the (ai_iterate (ax_x it)))"

definition ax_opened :: "'k::linorder abIndexIter \<Rightarrow> bool" where
  "ax_opened it \<longleftrightarrow> (\<exists>ns. ai_inv keyComparator (ax_x it) ns) \<and> ax_flag it = 0 \<and> ii_flag (ax_iter it) = 0"

definition ax_ok :: "'k::linorder abIndexIter \<Rightarrow> bool" where
  "ax_ok it \<longleftrightarrow> (\<exists>us n vs. ai_inv keyComparator (ax_x it) (us @ n # vs) \<and> ap_node (ax_iter it) = Some n) \<and> ax_flag it = 0 \<and> ii_flag (ax_iter it) = 0"

lemma ax_ahead_nodes:
  assumes "ai_inv keyComparator (ax_x it) (us @ vs)" and "ap_node (ax_iter it) = (case vs of [] \<Rightarrow> None | v # _ \<Rightarrow> Some v)"
  shows "ax_ahead it = map (ap_nodeKey (ax_iter it)) vs"
proof -
  have "sl_inv (kt_compare keyComparator) (m_index (ax_x it)) (us @ vs)" "length vs < m_keyCount (ax_x it) + 1" using assms(1) by (simp_all add: ai_inv_def)
  from sl_walk_suffix [OF this] show ?thesis by (simp add: ax_ahead_def assms(2) ap_nodeKey_def)
qed

lemma ax_keys_nodes:
  assumes "ai_inv keyComparator (ax_x it) ns"
  shows "ax_keys it = map (ap_nodeKey (ax_iter it)) ns" and "sorted_wrt (<) (ax_keys it)"
proof -
  show k: "ax_keys it = map (ap_nodeKey (ax_iter it)) ns" using iterate_contents [OF assms] by (simp add: ax_keys_def ai_contents_def ap_nodeKey_def)
  have "sorted_wrt (\<lambda>a b. kt_compare keyComparator (sl_key (m_index (ax_x it)) a) (sl_key (m_index (ax_x it)) b) < 0) ns"
    using assms sl_invD(7) by (auto simp: ai_inv_def)
  then show "sorted_wrt (<) (ax_keys it)" by (simp add: k sorted_wrt_map kt_compare_def keyComparator_less ap_nodeKey_def)
qed

lemma ax_seek_node:
  assumes inv: "ai_inv keyComparator (ax_x it) ns" and fl: "ax_flag it = 0" "ii_flag (ax_iter it) = 0"
  shows "\<exists>it' us vs. ax_seek keyComparator it k = Some (Inr (vs \<noteq> [], it')) \<and> ns = us @ vs \<and> map (ap_nodeKey (ax_iter it)) vs = dropWhile (\<lambda>x. x < k) (ax_keys it) \<and>
    ax_x it' = ax_x it \<and> ax_flag it' = 0 \<and> ii_flag (ax_iter it') = 0 \<and> ax_blockId it' = ax_blockId it \<and> ap_node (ax_iter it') = (case vs of [] \<Rightarrow> None | v # _ \<Rightarrow> Some v)"
proof -
  let ?key = "ap_nodeKey (ax_iter it)"
  obtain us vs where S: "ns = us @ vs" "\<forall>n \<in> set us. keyComparator (?key n) k < 0" "\<forall>n \<in> set vs. \<not> keyComparator (?key n) k < 0"
    "iter_Seek (kt_compare keyComparator) (m_index (ax_x it)) (k, 0) = Some (Inr (case vs of [] \<Rightarrow> None | v # _ \<Rightarrow> Some v))"
    using lin_index.split_nodes(1-4) [OF inv, of k] that unfolding ap_nodeKey_def by blast
  define node where "node = (case vs of [] \<Rightarrow> None | v # _ \<Rightarrow> Some v)"
  define i0 where "i0 = (ax_iter it)\<lparr>ap_node := node\<rparr>"
  define i' where "i' = (case vs of [] \<Rightarrow> i0 | v # _ \<Rightarrow> ap_count i0 v)"
  have "cc_count (ap_child i0 v) \<noteq> 0" if "v \<in> set vs" for v
  proof -
    have "child_ok (ap_child i0 v)" using inv S(1) that by (auto simp: ai_inv_def ap_child_def ap_array_def i0_def)
    then show ?thesis by (simp add: child_ok_def)
  qed
  then have f: "ap_found (ax_iter it) node = (vs \<noteq> [], i')" by (cases vs) (auto simp: ap_found_def node_def i0_def i'_def Let_def)
  have i': "ap_index i' = ax_x it" "ap_node i' = node" "ii_flag i' = 0" using fl(2) by (auto simp: i'_def i0_def split: list.splits)
  have "dropWhile (\<lambda>x. x < k) (map ?key us @ map ?key vs) = map ?key vs"
    using S(2,3) by (cases vs) (auto simp: dropWhile_append keyComparator_less)
  then have "map ?key vs = dropWhile (\<lambda>x. x < k) (ax_keys it)" using ax_keys_nodes(1) [OF inv] S(1) by simp
  moreover have "ax_seek keyComparator it k = Some (Inr (vs \<noteq> [], it\<lparr>ax_iter := i'\<rparr>))"
    using S(4) fl f by (simp add: ax_seek_def ap_seek_def ap_seekIncrease_def node_def)
  ultimately show ?thesis using S(1) fl(1) i' by (intro exI [of _ "it\<lparr>ax_iter := i'\<rparr>"] exI [of _ us] exI [of _ vs]) (simp add: node_def)
qed

lemma ax_next_node:
  assumes inv: "ai_inv keyComparator (ax_x it) (us @ n # vs)" and n: "ap_node (ax_iter it) = Some n" and fl: "ax_flag it = 0" "ii_flag (ax_iter it) = 0"
  shows "\<exists>it'. ax_next keyComparator it = Some (Inr (vs \<noteq> [], it')) \<and> ax_x it' = ax_x it \<and> ax_flag it' = 0 \<and> ii_flag (ax_iter it') = 0 \<and>
    ax_blockId it' = ax_blockId it \<and> ap_node (ax_iter it') = (case vs of [] \<Rightarrow> None | v # _ \<Rightarrow> Some v)"
  using ap_nextKey_step [OF inv n] fl by (cases vs) (auto simp: ax_next_def)

interpretation ax: key_stream "ax_ops :: ('k::linorder abIndexIter, 'k) iterOps" ax_opened ax_keys ax_ok ax_ahead
proof
  fix it :: "'k abIndexIter" and k
  assume "ax_opened it"
  then obtain ns where inv: "ai_inv keyComparator (ax_x it) ns" and fl: "ax_flag it = 0" "ii_flag (ax_iter it) = 0" by (auto simp: ax_opened_def)
  obtain it' us vs where s: "ax_seek keyComparator it k = Some (Inr (vs \<noteq> [], it'))" "ns = us @ vs" "map (ap_nodeKey (ax_iter it)) vs = dropWhile (\<lambda>x. x < k) (ax_keys it)"
    "ax_x it' = ax_x it" "ax_flag it' = 0" "ii_flag (ax_iter it') = 0" "ax_blockId it' = ax_blockId it" "ap_node (ax_iter it') = (case vs of [] \<Rightarrow> None | v # _ \<Rightarrow> Some v)"
    using ax_seek_node [OF inv fl, of k] by blast
  have e: "dropWhile (\<lambda>x. x < k) (ax_keys it) \<noteq> [] \<longleftrightarrow> vs \<noteq> []" unfolding s(3) [symmetric] by simp
  have "ax_ahead it' = map (ap_nodeKey (ax_iter it')) vs" using ax_ahead_nodes [of it' us vs] inv s by simp
  moreover have "ap_nodeKey (ax_iter it') = ap_nodeKey (ax_iter it)" using s(4) by (simp add: ap_nodeKey_def fun_eq_iff)
  moreover have "ax_ok it'" if "vs \<noteq> []" using that inv s by (cases vs) (auto simp: ax_ok_def)
  ultimately show "\<exists>it'. io_seek ax_ops it k = Some (Inr (dropWhile (\<lambda>x. x < k) (ax_keys it) \<noteq> [], it')) \<and> io_blockId ax_ops it' = io_blockId ax_ops it \<and>
      (dropWhile (\<lambda>x. x < k) (ax_keys it) \<noteq> [] \<longrightarrow> ax_ok it' \<and> ax_ahead it' = dropWhile (\<lambda>x. x < k) (ax_keys it))"
    using s(1,3,7) unfolding e by (intro exI [of _ it']) (simp add: ax_ops_def)
next
  fix it :: "'k abIndexIter" and x xs
  assume "ax_ok it" and a: "ax_ahead it = x # xs"
  then obtain us n vs where n: "ai_inv keyComparator (ax_x it) (us @ n # vs)" "ap_node (ax_iter it) = Some n" by (auto simp: ax_ok_def)
  have "ax_ahead it = map (ap_nodeKey (ax_iter it)) (n # vs)" using ax_ahead_nodes [OF n(1)] n(2) by simp
  then show "io_key ax_ops it = Inr x" using a n(2) by (simp add: ax_ops_def ax_key_def ap_key_def iter_key_def ap_nodeKey_def)
next
  fix it :: "'k abIndexIter"
  assume "ax_ok it"
  then obtain us n vs where n: "ai_inv keyComparator (ax_x it) (us @ n # vs)" "ap_node (ax_iter it) = Some n" by (auto simp: ax_ok_def)
  have "ax_ahead it = map (ap_nodeKey (ax_iter it)) (n # vs)" using ax_ahead_nodes [OF n(1)] n(2) by simp
  then show "ax_ahead it \<noteq> [] \<and> sorted_wrt (<) (ax_ahead it)" using ax_keys_nodes [OF n(1)] by (simp add: sorted_wrt_append)
next
  fix it :: "'k abIndexIter" and x
  assume o: "ax_ok it" and a: "ax_ahead it = [x]"
  then obtain us n vs where n: "ai_inv keyComparator (ax_x it) (us @ n # vs)" "ap_node (ax_iter it) = Some n" by (auto simp: ax_ok_def)
  then have "vs = []" using ax_ahead_nodes [OF n(1)] a by simp
  then show "\<exists>it'. io_next ax_ops it = Some (Inr (False, it'))" using ax_next_node [OF n] o by (auto simp: ax_ops_def ax_ok_def)
next
  fix it :: "'k abIndexIter" and x y ys
  assume o: "ax_ok it" and a: "ax_ahead it = x # y # ys"
  then obtain us n vs where n: "ai_inv keyComparator (ax_x it) (us @ n # vs)" "ap_node (ax_iter it) = Some n" by (auto simp: ax_ok_def)
  have vs: "map (ap_nodeKey (ax_iter it)) vs = y # ys" using ax_ahead_nodes [OF n(1)] n(2) a by simp
  then obtain v ws where v: "vs = v # ws" by (cases vs) auto
  obtain it' where it': "ax_next keyComparator it = Some (Inr (True, it'))" "ax_x it' = ax_x it" "ax_flag it' = 0" "ii_flag (ax_iter it') = 0"
    "ax_blockId it' = ax_blockId it" "ap_node (ax_iter it') = Some v" using ax_next_node [OF n] o v by (auto simp: ax_ok_def)
  have inv: "ai_inv keyComparator (ax_x it') ((us @ [n]) @ v # ws)" using n(1) v it'(2) by simp
  have "ax_ahead it' = map (ap_nodeKey (ax_iter it')) vs" using ax_ahead_nodes [OF inv] it'(6) v by simp
  moreover have "ap_nodeKey (ax_iter it') = ap_nodeKey (ax_iter it)" using it'(2) by (simp add: ap_nodeKey_def fun_eq_iff)
  moreover have "ax_ok it'" using inv it'(3,4,6) unfolding ax_ok_def by blast
  ultimately show "\<exists>it'. io_next ax_ops it = Some (Inr (True, it')) \<and> ax_ok it' \<and> ax_ahead it' = y # ys \<and> io_blockId ax_ops it' = io_blockId ax_ops it"
    using it'(1,5) vs by (auto simp: ax_ops_def)
qed

section \<open>Merging the indexes of blocks\<close>

text \<open>The index of a block to which pairs of a key and a record id were appended, with its iterator.\<close>

lemma opened_index:
  fixes k0 :: "'k::linorder"
  obtains x where "append_all keyComparator (ai_new k0) ops = Some (Inr x)" and "ax_opened (ax_new 0 b x)" and "ax_keys (ax_new 0 b x) = sorted_list_of_set (fst ` set ops)"
    and "io_blockId ax_ops (ax_new 0 b x) = b"
proof -
  obtain x ns where x: "append_all keyComparator (ai_new k0) ops = Some (Inr x)" "ai_inv keyComparator x ns" "\<forall>k. map_of (ai_contents x ns) k = ids_of ops k"
    using append_all_contents [of k0 ops] by blast
  define it where "it = ax_new 0 b x"
  have it: "ax_x it = x" "ax_flag it = 0" "ii_flag (ax_iter it) = 0" "ax_blockId it = b" by (simp_all add: it_def ax_new_def ap_new_def)
  note K = ax_keys_nodes [of it ns, unfolded it(1), OF x(2)]
  have "set (ax_keys it) = fst ` set ops" using contents_keys [OF x(3)] K(1) by (simp add: ap_nodeKey_def it(1))
  then have "ax_keys it = sorted_list_of_set (fst ` set ops)" using K(2) by (metis sorted_list_of_set.idem_if_sorted_distinct strict_sorted_iff)
  moreover have "ax_opened it" using x(2) it by (auto simp: ax_opened_def)
  ultimately show thesis using that [OF x(1)] it(4) by (simp add: it_def ax_ops_def)
qed

text \<open>The keys of the appends that are not smaller than \<open>d\<close>.\<close>

definition keys_from :: "('k::linorder \<times> nat) list \<Rightarrow> 'k \<Rightarrow> 'k set" where
  "keys_from ops d = {k \<in> fst ` set ops. d \<le> k}"

lemma keys_from_card: "card (keys_from ops d) \<le> length ops"
proof -
  have "card (keys_from ops d) \<le> card (fst ` set ops)" by (rule card_mono) (auto simp: keys_from_def)
  also have "\<dots> \<le> length ops" using card_image_le [of "set ops" fst] card_length [of ops] by simp
  finally show ?thesis .
qed

lemma dropWhile_sorted_set:
  fixes A :: "'k::linorder set"
  assumes "finite A"
  shows "dropWhile (\<lambda>x. x < d) (sorted_list_of_set A) = sorted_list_of_set {k \<in> A. d \<le> k}"
proof -
  have gen: "dropWhile (\<lambda>x. x < d) l = filter (\<lambda>x. d \<le> x) l" if "sorted l" for l :: "'k list"
    using that
  proof (induction l)
    case (Cons x l)
    show ?case
    proof (cases "x < d")
      case False
      then have "filter (\<lambda>x. d \<le> x) l = l" using Cons.prems by (intro filter_True) auto
      then show ?thesis using False by simp
    qed (use Cons in simp)
  qed simp
  let ?f = "filter (\<lambda>x. d \<le> x) (sorted_list_of_set A)"
  have "sorted_list_of_set (set ?f) = ?f" by (rule sorted_list_of_set.idem_if_sorted_distinct) (simp_all add: sorted_wrt_filter)
  moreover have "set ?f = {k \<in> A. d \<le> k}" using assms by auto
  ultimately show ?thesis using gen [of "sorted_list_of_set A"] by simp
qed

text \<open>
  C4: The indexes of two open blocks, whatever was appended to them, are merged: after a seek to a key from which both have keys, the iterator shows every key of either
  block from there on exactly once and in ascending order, and a key of both blocks from the newer block.  Only when both blocks begin with the same key, this key is shown
  twice, first from the block that comes first even when it is the older one: \<^verbatim>\<open>seek\<close> does not drop equal keys as \<^verbatim>\<open>next\<close> does.
\<close>

theorem kway_merges_two_blocks:
  fixes d :: "'k::linorder"
  assumes "A = keys_from ops1 d" and "B = keys_from ops2 d" and "A \<noteq> {}" and "B \<noteq> {}" and "p \<noteq> q"
    and "l = map (\<lambda>k. (k, if k \<in> A \<inter> B then max p q else if k \<in> A then p else q)) (sorted_list_of_set (A \<union> B))"
  shows "\<exists>x1 x2 s. append_all keyComparator (ai_new k0) ops1 = Some (Inr x1) \<and> append_all keyComparator (ai_new k0) ops2 = Some (Inr x2) \<and>
    kw_seek ax_ops increaseCompare (kw_new [ax_new 0 p x1, ax_new 0 q x2]) d = Some (Inr s) \<and>
    kw_walk (length ops1 + length ops2) ax_ops increaseCompare s = Some (if Min A = Min B then (Min A, p) # (Min A, q) # tl l else l)"
proof -
  obtain x1 where x1: "append_all keyComparator (ai_new k0) ops1 = Some (Inr x1)" "ax_opened (ax_new 0 p x1)" "ax_keys (ax_new 0 p x1) = sorted_list_of_set (fst ` set ops1)"
    "io_blockId ax_ops (ax_new 0 p x1) = p" by (rule opened_index [where ops = ops1 and b = p and ?k0.0 = k0])
  obtain x2 where x2: "append_all keyComparator (ai_new k0) ops2 = Some (Inr x2)" "ax_opened (ax_new 0 q x2)" "ax_keys (ax_new 0 q x2) = sorted_list_of_set (fst ` set ops2)"
    "io_blockId ax_ops (ax_new 0 q x2) = q" by (rule opened_index [where ops = ops2 and b = q and ?k0.0 = k0])
  have fin: "finite A" "finite B" by (simp_all add: assms(1,2) keys_from_def)
  define x xs where "x = Min A" and "xs = sorted_list_of_set (A - {x})"
  define y ys where "y = Min B" and "ys = sorted_list_of_set (B - {y})"
  have AB: "sorted_list_of_set A = x # xs" "sorted_list_of_set B = y # ys"
    using assms(3,4) fin by (simp_all add: sorted_list_of_set_nonempty x_def xs_def y_def ys_def)
  have f: "dropWhile (\<lambda>x. x < d) (ax_keys (ax_new 0 p x1)) = x # xs" "dropWhile (\<lambda>x. x < d) (ax_keys (ax_new 0 q x2)) = y # ys"
    unfolding x1(3) x2(3) AB [symmetric] assms(1,2) keys_from_def by (simp_all add: dropWhile_sorted_set)
  have "length (x # xs) \<le> length ops1" "length (y # ys) \<le> length ops2"
    unfolding AB [symmetric] using keys_from_card [of ops1 d] keys_from_card [of ops2 d] by (simp_all add: assms(1,2))
  then have len: "length (x # xs) + length (y # ys) \<le> length ops1 + length ops2" "length xs + length ys + 2 \<le> length ops1 + length ops2" by simp_all
  have srt: "sorted_wrt (<) (x # xs)" "sorted_wrt (<) (y # ys)" unfolding AB [symmetric] by (rule strict_sorted_list_of_set)+
  have sets: "set (x # xs) = A" "set (y # ys) = B" unfolding AB [symmetric] using fin by simp_all
  have l: "l = merge2 p (x # xs) q (y # ys)" unfolding assms(6) merge2_map [OF srt] owner_def sets by (rule refl)
  have "\<exists>s. kw_seek ax_ops increaseCompare (kw_new [ax_new 0 p x1, ax_new 0 q x2]) d = Some (Inr s) \<and>
    kw_walk (length ops1 + length ops2) ax_ops increaseCompare s = Some (if x = y then (x, p) # (x, q) # tl l else l)"
  proof (cases "x = y")
    case False
    then show ?thesis using ax.merges_two [OF x1(2) x2(2), where k = d, unfolded f x1(4) x2(4), OF _ _ assms(5) _ len(1)] l by simp
  next
    case True
    have "merge2 p xs q (x # ys) = (x, q) # tl l" using srt by (cases xs) (auto simp: l True)
    then show ?thesis using ax.shows_twice [OF x1(2) x2(2) f(1) f(2) [folded True], unfolded x1(4) x2(4), OF assms(5) len(2)] True by simp
  qed
  then show ?thesis using x1(1) x2(1) unfolding x_def y_def by blast
qed

lemma sample_keys:
  "keys_from [(1 :: int, 0), (4, 1)] 0 = {1, 4}" "keys_from [(2 :: int, 0), (4, 1)] 0 = {2, 4}"
  by (auto simp: keys_from_def)

theorem kway_merges_two_blocks_witness:
  "\<exists>x1 x2 s. append_all keyComparator (ai_new 0) [(1, 0), (4, 1)] = Some (Inr x1) \<and> append_all keyComparator (ai_new 0) [(2, 0), (4, 1)] = Some (Inr x2) \<and>
    kw_seek ax_ops increaseCompare (kw_new [ax_new 0 7 x1, ax_new 0 8 x2]) 0 = Some (Inr s) \<and> kw_walk 4 ax_ops increaseCompare s = Some [(1 :: int, 7), (2, 8), (4, 8)]"
proof -
  have "sorted_list_of_set (set [1, 2, 4 :: int]) = [1, 2, 4]" by (rule sorted_list_of_set.idem_if_sorted_distinct) simp_all
  moreover have "{1, 4} \<union> {2, 4} = set [1, 2, 4 :: int]" by auto
  ultimately have l: "sorted_list_of_set ({1, 4} \<union> {2, 4}) = [1, 2, 4 :: int]" by simp
  have len: "length [(1 :: int, 0 :: nat), (4, 1)] + length [(2 :: int, 0 :: nat), (4, 1)] = 4" by simp
  from kway_merges_two_blocks [OF refl refl _ _ _ refl, of "[(1 :: int, 0), (4, 1)]" 0 "[(2, 0), (4, 1)]" 7 8 0, unfolded sample_keys l len] show ?thesis
    by (simp del: append_all.simps)
qed

text \<open>
  C39: Three blocks are merged in the wrong order: with the keys 1 and 10 in the first block, 5 in the second and 2 in the third, the iterator shows 5 after 1
  while the third block still stands at 2, because the heap loses its order when the root of three elements is replaced.
\<close>

theorem kway_three_blocks_out_of_order:
  "\<exists>x1 x2 x3 s s'. append_all keyComparator (ai_new 0) [(1, 0), (10, 1)] = Some (Inr x1) \<and> append_all keyComparator (ai_new 0) [(5, 0)] = Some (Inr x2) \<and>
    append_all keyComparator (ai_new 0) [(2, 0)] = Some (Inr x3) \<and>
    kw_seek ax_ops increaseCompare (kw_new [ax_new 0 7 x1, ax_new 0 8 x2, ax_new 0 9 x3]) 0 = Some (Inr s) \<and> kw_key ax_ops s = Inr (1 :: int) \<and>
    kw_next ax_ops increaseCompare s = Some (Inr (S_OK, s')) \<and> kw_key ax_ops s' = Inr 5 \<and> io_key ax_ops (kw_iters s' ! 2) = Inr 2"
proof -
  obtain x1 where x1: "append_all keyComparator (ai_new 0) [(1 :: int, 0), (10, 1)] = Some (Inr x1)" "ax_opened (ax_new 0 7 x1)" "ax_keys (ax_new 0 7 x1) = sorted_list_of_set (fst ` set [(1, 0 :: nat), (10, 1)])"
    "io_blockId ax_ops (ax_new 0 7 x1) = 7"
    by (rule opened_index [where ops = "[(1, 0), (10, 1)]" and b = 7 and ?k0.0 = "0 :: int"])
  obtain x2 where x2: "append_all keyComparator (ai_new 0) [(5 :: int, 0)] = Some (Inr x2)" "ax_opened (ax_new 0 8 x2)" "ax_keys (ax_new 0 8 x2) = sorted_list_of_set (fst ` set [(5, 0 :: nat)])"
    "io_blockId ax_ops (ax_new 0 8 x2) = 8"
    by (rule opened_index [where ops = "[(5, 0)]" and b = 8 and ?k0.0 = "0 :: int"])
  obtain x3 where x3: "append_all keyComparator (ai_new 0) [(2 :: int, 0)] = Some (Inr x3)" "ax_opened (ax_new 0 9 x3)" "ax_keys (ax_new 0 9 x3) = sorted_list_of_set (fst ` set [(2, 0 :: nat)])"
    "io_blockId ax_ops (ax_new 0 9 x3) = 9"
    by (rule opened_index [where ops = "[(2, 0)]" and b = 9 and ?k0.0 = "0 :: int"])
  have "fst ` set [(1 :: int, 0 :: nat), (10, 1)] = set [1, 10]" by auto
  then have k: "ax_keys (ax_new 0 7 x1) = [1, 10]" "ax_keys (ax_new 0 8 x2) = [5]" "ax_keys (ax_new 0 9 x3) = [2]" unfolding x1(3) x2(3) x3(3) by simp_all
  from ax.three_out_of_order [OF x1(2) x2(2) x3(2), of 0 1 10 "[]" 5 "[]" 2 "[]"] show ?thesis using x1(1) x2(1) x3(1) by (simp add: k del: append_all.simps)
qed

end
