(* ===== verification/BlockKeys.thy ===== *)
theory BlockKeys
  imports AppendingIndex BlockProofs
begin

text \<open>
  Finding the records of an open block by key: \<^verbatim>\<open>append\<close> of \<^verbatim>\<open>database/appendingBlock.cpp\<close> adds every row to the indexes of its table, and \<^verbatim>\<open>getRecord\<close> of
  \<^verbatim>\<open>appendingBlock.h\<close> looks a key up in them.  The contract \<open>block_index\<close> says what the block relies on of an index; it is interpreted on the
  indexes of integer keys of \<^verbatim>\<open>appendingIndex.cpp\<close>.  The indexes of the other key types stay a parameter.  In every history of a block a
  lookup gives the newest record that was appended with the key.
\<close>

section \<open>The indexes of a block\<close>

datatype 'x blockIndex = IntIndex unionKeyMeta "int appendingIndex" | OtherIndex 'x

text \<open>\<^verbatim>\<open>m_type\<close> of an index.\<close>

definition index_type :: "unionKeyMeta \<Rightarrow> COLUMN_TYPE" where
  "index_type k = (if unat (uk_columnCount k) > 1 then T_UNION else kc_type (uk_columnInfo k ! 0))"

text \<open>The types for which \<^verbatim>\<open>getRecord\<close> has no case although the index has one.\<close>

definition unsearchable :: "COLUMN_TYPE \<Rightarrow> bool" where
  "unsearchable t \<longleftrightarrow> t = T_YEAR \<or> t = T_DATE \<or> t = T_DATETIME \<or> t = T_TIME"

definition bx_new :: "'x indexOps \<Rightarrow> unionKeyMeta \<Rightarrow> tableMeta \<Rightarrow> fault + 'x blockIndex" where
  "bx_new other k t =
     (if index_type k \<in> int_types then Inr (IntIndex k (ai_new 0))
      else if index_type k \<in> {T_FLOAT, T_DOUBLE, T_BLOB, T_STRING, T_UNION} then sbind (ix_new other k t) (\<lambda>x. Inr (OtherIndex x))
      else Inl Aborted)"

definition bx_append :: "'x indexOps \<Rightarrow> mem \<Rightarrow> 'x blockIndex \<Rightarrow> DMLRecord \<Rightarrow> nat \<Rightarrow> (fault + 'x blockIndex) option" where
  "bx_append other m x r i =
     (case x of IntIndex k ix \<Rightarrow> obind (ai_append m k (appendIndexByType (index_type k) m k) ix r i) (\<lambda>ix. Some (Inr (IntIndex k ix)))
      | OtherIndex y \<Rightarrow> obind (ix_append other m y r i) (\<lambda>y. Some (Inr (OtherIndex y))))"

definition bx_find :: "'x indexOps \<Rightarrow> mem \<Rightarrow> 'x blockIndex \<Rightarrow> nat \<Rightarrow> (fault + int) option" where
  "bx_find other m x key =
     (case x of IntIndex k ix \<Rightarrow> if unsearchable (index_type k) then Some (Inl Aborted) else ai_find keyComparator ix (key_int (index_type k) m key)
      | OtherIndex y \<Rightarrow> ix_find other m y key)"

definition block_ops :: "'x indexOps \<Rightarrow> 'x blockIndex indexOps" where
  "block_ops other = \<lparr>ix_new = bx_new other, ix_append = bx_append other, ix_find = bx_find other\<rparr>"

section \<open>Histories with the keys of a table\<close>

text \<open>\<open>described D r\<close>: a row belongs to the one description that its table id has, and is not of table 0, which is the default data of the block.\<close>

fun described :: "(u64 \<Rightarrow> tableMeta) \<Rightarrow> brec \<Rightarrow> bool" where
  "described D (Dml d) \<longleftrightarrow> dml_meta d = D (tbl_id (dml_meta d)) \<and> tbl_id (dml_meta d) \<noteq> 0"
| "described D (Other a) \<longleftrightarrow> True"

type_synonym 'k keyPairs = "mem \<Rightarrow> unionKeyMeta \<Rightarrow> DMLRecord \<Rightarrow> nat \<Rightarrow> ('k \<times> nat) list"

text \<open>The pairs of a key and an inner id that a stored record adds to the primary key of its table.\<close>

fun add_pairs :: "'k keyPairs \<Rightarrow> (u64 \<Rightarrow> ('k \<times> nat) list) \<Rightarrow> mem \<Rightarrow> brec \<Rightarrow> nat \<Rightarrow> u64 \<Rightarrow> ('k \<times> nat) list" where
  "add_pairs pairs P m (Dml d) i =
     (if is_dml m (dml_data d)
      then case tbl_primaryKey (dml_meta d) of None \<Rightarrow> P | Some k \<Rightarrow> P(tbl_id (dml_meta d) := P (tbl_id (dml_meta d)) @ pairs m k d i)
      else P)"
| "add_pairs pairs P m (Other a) i = P"

text \<open>
  The steps of \<open>ab_reach\<close>, with the pairs of every table.  An append that is refused for its log offset changes nothing.  No description refers to data of a block
  with the number of the new one.
\<close>

inductive keyed_reach :: "'ix indexOps \<Rightarrow> 'k keyPairs \<Rightarrow> (u64 \<Rightarrow> tableMeta) \<Rightarrow> 'ix appendingBlock \<Rightarrow> u8 list list \<Rightarrow> (u64 \<Rightarrow> ('k \<times> nat) list) \<Rightarrow> bool" for ops pairs D where
  k_new: "bufSize div (32 * 1204) mod 2 ^ 16 \<le> 4096 \<Longrightarrow> (\<And>t b n. userData t = Some (b, n) \<Longrightarrow> b \<noteq> blockId) \<Longrightarrow>
    keyed_reach ops pairs D (ab_new blockId hasRedo bufSize startID m userData) [] (\<lambda>_. [])"
| k_caller: "keyed_reach ops pairs D s log P \<Longrightarrow> (\<And>j. m' j \<noteq> ab_mem s j \<Longrightarrow> unused s j) \<Longrightarrow> keyed_reach ops pairs D (s\<lparr>ab_mem := m'\<rparr>) log P"
| k_alloc: "keyed_reach ops pairs D s log P \<Longrightarrow> fresh_page s a \<Longrightarrow> sz \<le> 2 ^ 20 \<Longrightarrow> allocMemForRecord a s n sz = (st, b, s') \<Longrightarrow> keyed_reach ops pairs D s' log P"
| k_append: "keyed_reach ops pairs D s log P \<Longrightarrow> fresh_page s a \<Longrightarrow> source_ok s a (rec_data r) \<Longrightarrow> described D r \<Longrightarrow> copyRecord ops a s r = Inr (st0, r', s1) \<Longrightarrow>
    ab_append ops a redo s r = Some (Inr (st, s')) \<Longrightarrow> st \<noteq> B_ILLEGAL \<Longrightarrow>
    keyed_reach ops pairs D s' (if st = B_OK then log @ [stamp_bytes (ab_minRecordId s + length log) (record_bytes (ab_mem s) (rec_data r))] else log)
      (if st = B_OK then add_pairs pairs P (ab_mem s1) r' (length log) else P)"

lemma keyed_reach_ab: "keyed_reach ops pairs D s log P \<Longrightarrow> ab_reach ops s log"
  by (induction rule: keyed_reach.induct) (blast intro: ab_reach.intros)+

section \<open>What the block relies on\<close>

locale block_index =
  fixes ops :: "'ix indexOps" and good :: "unionKeyMeta \<Rightarrow> bool" and holds :: "unionKeyMeta \<Rightarrow> 'ix \<Rightarrow> ('k \<times> nat) list \<Rightarrow> bool" and pairs :: "'k keyPairs"
    and probe :: "mem \<Rightarrow> unionKeyMeta \<Rightarrow> nat \<Rightarrow> 'k"
  assumes new_holds: "good k \<Longrightarrow> ix_new ops k t = Inr x \<Longrightarrow> holds k x []"
    and append_holds: "good k \<Longrightarrow> holds k x l \<Longrightarrow> ix_append ops m x r i = Some (Inr x') \<Longrightarrow> holds k x' (l @ pairs m k r i)"
    and find_holds: "good k \<Longrightarrow> holds k x l \<Longrightarrow> ix_find ops m x a = Some (Inr (case ids_of l (probe m k a) of None \<Rightarrow> -1 | Some ids \<Rightarrow> int32 (last ids)))"
    and pairs_id: "(d, j) \<in> set (pairs m k r i) \<Longrightarrow> j = i"
begin

text \<open>The tables of the block and the primary keys they hold.\<close>

definition tables_ok :: "(u64 \<Rightarrow> tableMeta) \<Rightarrow> 'ix appendingBlock \<Rightarrow> (u64 \<Rightarrow> ('k \<times> nat) list) \<Rightarrow> bool" where
  "tables_ok D s P \<longleftrightarrow>
     (\<forall>t n. ab_userData s t = Some (ab_blockID s, n) \<longrightarrow> n < ab_tableNext s \<and> t \<noteq> 0 \<and> map_of (ab_tableDatas s) t = Some n \<and>
        (\<forall>t'. ab_userData s t' = Some (ab_blockID s, n) \<longrightarrow> t' = t) \<and>
        (case tbl_primaryKey (D t) of None \<Rightarrow> td_primaryKey (ab_tables s n) = None
         | Some k \<Rightarrow> \<exists>x. td_primaryKey (ab_tables s n) = Some x \<and> (good k \<longrightarrow> holds k x (P t)))) \<and>
     (\<forall>t. (\<forall>n. ab_userData s t \<noteq> Some (ab_blockID s, n)) \<longrightarrow> P t = [] \<and> (t \<noteq> 0 \<longrightarrow> map_of (ab_tableDatas s) t = None))"

lemma tables_okD:
  assumes "tables_ok D s P" and "ab_userData s t = Some (ab_blockID s, n)"
  shows "map_of (ab_tableDatas s) t = Some n" and "tbl_primaryKey (D t) = None \<Longrightarrow> td_primaryKey (ab_tables s n) = None"
    and "tbl_primaryKey (D t) = Some k \<Longrightarrow> \<exists>x. td_primaryKey (ab_tables s n) = Some x \<and> (good k \<longrightarrow> holds k x (P t))"
proof -
  have "map_of (ab_tableDatas s) t = Some n \<and> (case tbl_primaryKey (D t) of None \<Rightarrow> td_primaryKey (ab_tables s n) = None
      | Some k \<Rightarrow> \<exists>x. td_primaryKey (ab_tables s n) = Some x \<and> (good k \<longrightarrow> holds k x (P t)))" using assms unfolding tables_ok_def by blast
  then show "map_of (ab_tableDatas s) t = Some n" "tbl_primaryKey (D t) = None \<Longrightarrow> td_primaryKey (ab_tables s n) = None"
    "tbl_primaryKey (D t) = Some k \<Longrightarrow> \<exists>x. td_primaryKey (ab_tables s n) = Some x \<and> (good k \<longrightarrow> holds k x (P t))" by auto
qed

definition same_tables :: "'ix appendingBlock \<Rightarrow> 'ix appendingBlock \<Rightarrow> bool" where
  "same_tables s s' \<longleftrightarrow> ab_userData s' = ab_userData s \<and> ab_blockID s' = ab_blockID s \<and> ab_tableNext s' = ab_tableNext s \<and> ab_tableDatas s' = ab_tableDatas s \<and>
     (\<forall>n. td_primaryKey (ab_tables s' n) = td_primaryKey (ab_tables s n))"

lemma same_tables_ok: "same_tables s s' \<Longrightarrow> tables_ok D s P \<Longrightarrow> tables_ok D s' P"
  unfolding tables_ok_def same_tables_def by (simp cong: option.case_cong)

lemma same_alloc: "allocMemForRecord a s n sz = (st, b, s') \<Longrightarrow> same_tables s s'"
  by (auto simp: allocMemForRecord_def same_tables_def Let_def split: if_splits option.splits)

lemma same_stamp: "stamp_record s n r = Inr (st, r', s') \<Longrightarrow> same_tables s s' \<and> st = B_OK \<and> r' = r"
  by (auto simp: stamp_record_def same_tables_def Let_def split: if_splits option.splits)

lemma map_insert_new: "map_of es k = None \<Longrightarrow> map_of (map_insert k v es) = (map_of es)(k \<mapsto> v)"
  by (induction k v es rule: map_insert.induct) (auto simp: fun_eq_iff)

lemma init_primary:
  assumes "tableData_init ops t = Inr td"
  shows "case tbl_primaryKey t of None \<Rightarrow> td_primaryKey td = None | Some k \<Rightarrow> \<exists>x. td_primaryKey td = Some x \<and> (good k \<longrightarrow> holds k x [])"
  using assms new_holds by (auto simp: tableData_init_def defaultData_def split: option.splits)

lemma getTableData_tables:
  assumes ok: "tables_ok D s P" and res: "getTableData ops s meta = Inr (n, s')" and d: "\<forall>t. meta = Some t \<longrightarrow> t = D (tbl_id t) \<and> tbl_id t \<noteq> 0"
  shows "tables_ok D s' P \<and> (\<forall>t. meta = Some t \<longrightarrow> ab_userData s' (tbl_id t) = Some (ab_blockID s', n))"
proof (cases "\<exists>t. meta = Some t \<and> (\<forall>n. ab_userData s (tbl_id t) \<noteq> Some (ab_blockID s, n))")
  case False
  then have "s' = s \<and> (\<forall>t. meta = Some t \<longrightarrow> ab_userData s (tbl_id t) = Some (ab_blockID s, n))"
    using res by (auto simp: getTableData_def Let_def split: option.splits if_splits)
  then show ?thesis using ok by auto
next
  case True
  then obtain t where t: "meta = Some t" "\<forall>n. ab_userData s (tbl_id t) \<noteq> Some (ab_blockID s, n)" by blast
  have D: "D (tbl_id t) = t" "tbl_id t \<noteq> 0" using d t(1) by auto
  obtain td where td: "tableData_init ops t = Inr td" and n: "n = ab_tableNext s"
    and s': "s' = s\<lparr>ab_tables := (ab_tables s)(n := td), ab_tableNext := n + 1, ab_userData := (ab_userData s)(tbl_id t \<mapsto> (ab_blockID s, n)),
      ab_tableDatas := map_insert (tbl_id t) n (ab_tableDatas s), ab_tableCount := ab_tableCount s + 1\<rparr>"
    using res t by (auto simp: getTableData_def Let_def split: option.splits if_splits)
  have P: "P (tbl_id t) = []" "map_of (ab_tableDatas s) (tbl_id t) = None" using ok t(2) D(2) unfolding tables_ok_def by blast+
  note pk = init_primary [OF td]
  have less: "m < n" if "ab_userData s t' = Some (ab_blockID s, m)" for t' m using ok that n unfolding tables_ok_def by blast
  have "tables_ok D s' P" unfolding tables_ok_def
  proof (intro conjI allI impI, goal_cases)
    case (1 t' m)
    then show ?case using less [of t' m] n by (auto simp: s' split: if_splits)
  next
    case (2 t' m)
    then show ?case using ok D(2) unfolding tables_ok_def by (auto simp: s' split: if_splits)
  next
    case (3 t' m)
    then show ?case using ok map_insert_new [OF P(2), of n] unfolding tables_ok_def by (auto simp: s' split: if_splits)
  next
    case (4 t' m t'')
    then show ?case using ok less [of t' m] less [of t'' m] unfolding tables_ok_def by (auto simp: s' split: if_splits)
  next
    case (5 t' m)
    then show ?case
    proof (cases "t' = tbl_id t")
      case True
      then show ?thesis using 5 pk D(1) P(1) by (auto simp: s' split: option.splits)
    next
      case False
      then have u: "ab_userData s t' = Some (ab_blockID s, m)" using 5 by (simp add: s')
      then have "td_primaryKey (ab_tables s' m) = td_primaryKey (ab_tables s m)" using less [OF u] by (simp add: s')
      then show ?thesis using ok u unfolding tables_ok_def by (auto cong: option.case_cong)
    qed
  next
    case (6 t')
    then show ?case using ok t(2) unfolding tables_ok_def by (auto simp: s' split: if_splits)
  next
    case (7 t')
    then have "t' \<noteq> tbl_id t" "\<forall>n. ab_userData s t' \<noteq> Some (ab_blockID s, n)" by (auto simp: s' split: if_splits)
    then show ?case using ok 7(2) map_insert_new [OF P(2), of n] unfolding tables_ok_def by (simp add: s')
  qed
  then show ?thesis using t(1) by (simp add: s')
qed

lemma same_tables_trans: "same_tables s s' \<Longrightarrow> same_tables s' s'' \<Longrightarrow> same_tables s s''"
  by (simp add: same_tables_def)

lemma same_tables_mem [simp]: "same_tables s (s\<lparr>ab_mem := m\<rparr>)"
  by (simp add: same_tables_def)

lemma copyRecord_tables:
  assumes ok: "tables_ok D s P" and d: "described D r" and res: "copyRecord ops a s r = Inr (st, r', s')"
  shows "tables_ok D s' P \<and> described D r' \<and> (st = B_OK \<longrightarrow> (\<forall>d'. r' = Dml d' \<and> is_dml (ab_mem s) (rec_data r) \<longrightarrow> (\<exists>n. ab_userData s' (tbl_id (dml_meta d')) = Some (ab_blockID s', n))))"
proof -
  define dml where "dml = is_dml (ab_mem s) (rec_data r)"
  obtain meta n s1 where m: "(if dml then (case r of Dml d \<Rightarrow> Inr (Some (dml_meta d)) | Other _ \<Rightarrow> Inl Uninitialised) else Inr None) = Inr meta"
    and g: "getTableData ops s meta = Inr (n, s1)" using res by (auto simp: copyRecord_def Let_def dml_def)
  have meta: "\<forall>t. meta = Some t \<longrightarrow> t = D (tbl_id t) \<and> tbl_id t \<noteq> 0" using m d by (auto split: if_splits brec.splits)
  note T = getTableData_tables [OF ok g meta]
  have res1: "(if (case cur_page s1 n of None \<Rightarrow> False | Some p \<Rightarrow> bp_data p + bp_used p = rec_data r) then stamp_record s1 n r
        else let sz = head_size (ab_mem s1) (rec_data r) in
          (case allocMemForRecord a s1 n sz of (st, b, s2) \<Rightarrow>
             if st \<noteq> B_OK then Inr (st, r, s2)
             else let m = write_bytes (ab_mem s2) b (read_bytes (ab_mem s2) (rec_data r) sz); s2 = s2\<lparr>ab_mem := m\<rparr> in
               (case meta of Some t \<Rightarrow> stamp_record s2 n (Dml (dml_load m b t))
                | None \<Rightarrow> if head_type m b = RTYPE R_DDL then stamp_record s2 n (Other b) else Inl Aborted))) = Inr (st, r', s')"
    using res m g by (simp add: copyRecord_def Let_def dml_def)
  have "same_tables s1 s' \<and> (r' = r \<or> (\<exists>t m b. meta = Some t \<and> r' = Dml (dml_load m b t)) \<or> (\<exists>b. r' = Other b))"
  proof (cases "case cur_page s1 n of None \<Rightarrow> False | Some p \<Rightarrow> bp_data p + bp_used p = rec_data r")
    case True
    then show ?thesis using res1 same_stamp [of s1 n r st r' s'] by simp
  next
    case False
    obtain st2 b s2 where al: "allocMemForRecord a s1 n (head_size (ab_mem s1) (rec_data r)) = (st2, b, s2)" by (metis surj_pair)
    define m where "m = write_bytes (ab_mem s2) b (read_bytes (ab_mem s2) (rec_data r) (head_size (ab_mem s1) (rec_data r)))"
    have s2: "same_tables s1 s2" "same_tables s1 (s2\<lparr>ab_mem := m\<rparr>)" using same_alloc [OF al] same_tables_trans same_tables_mem by blast+
    have res2: "(if st2 \<noteq> B_OK then Inr (st2, r, s2) else (case meta of Some t \<Rightarrow> stamp_record (s2\<lparr>ab_mem := m\<rparr>) n (Dml (dml_load m b t))
        | None \<Rightarrow> if head_type m b = RTYPE R_DDL then stamp_record (s2\<lparr>ab_mem := m\<rparr>) n (Other b) else Inl Aborted)) = Inr (st, r', s')"
      using res1 unfolding Let_def if_not_P [OF False] al prod.case m_def [symmetric] .
    consider "st2 \<noteq> B_OK" | t where "st2 = B_OK" "meta = Some t" | "st2 = B_OK" "meta = None" by blast
    then show ?thesis
    proof cases
      case 1
      then show ?thesis using res2 s2 by simp
    next
      case 2
      then show ?thesis using res2 same_stamp [of "s2\<lparr>ab_mem := m\<rparr>" n "Dml (dml_load m b t)" st r' s'] same_tables_trans [OF s2(2)] by auto
    next
      case 3
      then show ?thesis using res2 same_stamp [of "s2\<lparr>ab_mem := m\<rparr>" n "Other b" st r' s'] same_tables_trans [OF s2(2)] by (auto split: if_splits)
    qed
  qed
  moreover have l: "dml_meta (dml_load m b t) = t" for m b t by (simp add: dml_load_def Let_def)
  ultimately have same: "same_tables s1 s'" and r': "described D r'" "\<forall>d'. r' = Dml d' \<and> dml \<longrightarrow> meta = Some (dml_meta d')"
    using d meta m by (auto split: if_splits brec.splits)
  have "tables_ok D s' P" using same_tables_ok [OF same] T by blast
  moreover have "ab_userData s' = ab_userData s1" "ab_blockID s' = ab_blockID s1" using same by (simp_all add: same_tables_def)
  ultimately show ?thesis using r' T dml_def by auto
qed

lemma append_indexes_tables:
  assumes ok: "tables_ok D s P" and d: "described D (Dml r)" and dml: "is_dml (ab_mem s) (dml_data r)" and res: "append_indexes ops s r = Some (Inr s')"
    and here: "ab_userData s (tbl_id (dml_meta r)) = Some (ab_blockID s, n)"
  shows "tables_ok D s' (add_pairs pairs P (ab_mem s) (Dml r) (ab_recordCount s))"
proof -
  let ?t = "tbl_id (dml_meta r)" and ?i = "ab_recordCount s" and ?m = "ab_mem s"
  have D: "D ?t = dml_meta r" using d by simp
  obtain pk uks where pk: "(case td_primaryKey (ab_tables s n) of None \<Rightarrow> Some (Inr None) | Some x \<Rightarrow> obind (ix_append ops ?m x r ?i) (\<lambda>x. Some (Inr (Some x)))) = Some (Inr pk)"
    and s': "s' = s\<lparr>ab_tables := (ab_tables s)(n := (ab_tables s n)\<lparr>td_recordIds := td_recordIds (ab_tables s n) @ [?i], td_primaryKey := pk, td_uniqueKeys := uks\<rparr>)\<rparr>"
    using res here by (auto simp: append_indexes_def obind_Some Let_def)
  define P' where "P' = add_pairs pairs P ?m (Dml r) ?i"
  have other: "P' t' = P t'" if "t' \<noteq> ?t" for t' using that dml by (auto simp: P'_def split: option.splits)
  have uniq: "m \<noteq> n" if "ab_userData s t' = Some (ab_blockID s, m)" "t' \<noteq> ?t" for t' m using ok here that unfolding tables_ok_def by blast
  have new: "case tbl_primaryKey (D ?t) of None \<Rightarrow> pk = None | Some k \<Rightarrow> \<exists>x. pk = Some x \<and> (good k \<longrightarrow> holds k x (P' ?t))"
  proof (cases "tbl_primaryKey (D ?t)")
    case None
    then have "td_primaryKey (ab_tables s n) = None" using tables_okD(2) [OF ok here] by simp
    then show ?thesis using None pk by simp
  next
    case (Some k)
    then obtain x where x: "td_primaryKey (ab_tables s n) = Some x" "good k \<longrightarrow> holds k x (P ?t)" using tables_okD(3) [OF ok here] by blast
    then obtain x' where "ix_append ops ?m x r ?i = Some (Inr x')" "pk = Some x'" using pk by (auto simp: obind_Some)
    moreover have "P' ?t = P ?t @ pairs ?m k r ?i" using Some D dml by (simp add: P'_def)
    ultimately show ?thesis using Some x(2) append_holds by auto
  qed
  show ?thesis unfolding P'_def [symmetric] tables_ok_def
  proof (intro conjI allI impI, goal_cases)
    case (5 t' m)
    then show ?case
    proof (cases "t' = ?t")
      case True
      then have "m = n" using 5 here by (simp add: s')
      then have e: "td_primaryKey (ab_tables s' m) = pk" by (simp add: s')
      show ?thesis unfolding e True by (rule new)
    next
      case False
      then have "ab_userData s t' = Some (ab_blockID s, m)" using 5 by (simp add: s')
      moreover from uniq [OF this False] have "td_primaryKey (ab_tables s' m) = td_primaryKey (ab_tables s m)" by (simp add: s')
      ultimately show ?thesis using ok other [OF False] unfolding tables_ok_def by (auto cong: option.case_cong)
    qed
  next
    case (6 t')
    then have "t' \<noteq> ?t" using here by (auto simp: s')
    then show ?case using ok 6 other unfolding tables_ok_def by (simp add: s')
  qed (use ok in \<open>unfold tables_ok_def, auto simp: s'\<close>)
qed

lemma finish_same: "same_tables s (finish_append s a)"
  by (simp add: same_tables_def finish_append_def Let_def)

text \<open>The inner ids in the pairs are those of records of the block.\<close>

definition ids_below :: "(u64 \<Rightarrow> ('k \<times> nat) list) \<Rightarrow> nat \<Rightarrow> bool" where
  "ids_below P n \<longleftrightarrow> (\<forall>t d i. (d, i) \<in> set (P t) \<longrightarrow> i < n)"

lemma ids_below_add: "ids_below P n \<Longrightarrow> ids_below (add_pairs pairs P m r n) (Suc n)"
  using pairs_id by (cases r) (fastforce simp: ids_below_def less_Suc_eq split: option.splits)+

lemma append_tables:
  assumes ok: "tables_ok D s P" and d: "described D r" and cp: "copyRecord ops a s r = Inr (st0, r1, s1)" and cnt: "ab_recordCount s1 = ab_recordCount s"
    and ty: "st0 = B_OK \<Longrightarrow> is_dml (ab_mem s1) (rec_data r1) = is_dml (ab_mem s) (rec_data r)"
    and ap: "ab_append ops a redo s r = Some (Inr (st, s'))" and st: "st \<noteq> B_ILLEGAL"
  shows "tables_ok D s' (if st = B_OK then add_pairs pairs P (ab_mem s1) r1 (ab_recordCount s) else P)"
proof -
  note C = copyRecord_tables [OF ok d cp]
  have res: "(if st0 \<noteq> B_OK then Some (Inr (st0, s1)) else if ab_hasRedo s1 \<and> redo \<noteq> B_OK then Some (Inr (redo, s1))
      else obind (case r1 of Dml d \<Rightarrow> if is_dml (ab_mem s1) (rec_data r1) then append_indexes ops s1 d else Some (Inr s1) | Other _ \<Rightarrow> Some (Inr s1))
        (\<lambda>s. Some (Inr (B_OK, finish_append s (rec_data r1))))) = Some (Inr (st, s'))"
    using ap st cp by (auto simp: ab_append_def split: if_splits)
  consider "st \<noteq> B_OK" "s' = s1" | s2 where "st0 = B_OK" "st = B_OK" "s' = finish_append s2 (rec_data r1)"
      "(case r1 of Dml d \<Rightarrow> if is_dml (ab_mem s1) (rec_data r1) then append_indexes ops s1 d else Some (Inr s1) | Other _ \<Rightarrow> Some (Inr s1)) = Some (Inr s2)"
    using res by (auto simp: obind_Some split: if_splits)
  then show ?thesis
  proof cases
    case 1
    then show ?thesis using C by simp
  next
    case 2
    have "tables_ok D s2 (add_pairs pairs P (ab_mem s1) r1 (ab_recordCount s))"
    proof (cases "\<exists>d. r1 = Dml d \<and> is_dml (ab_mem s1) (dml_data d)")
      case True
      then obtain d' where d': "r1 = Dml d'" "is_dml (ab_mem s1) (dml_data d')" by blast
      obtain n where n: "ab_userData s1 (tbl_id (dml_meta d')) = Some (ab_blockID s1, n)" using C 2(1) d' ty by auto
      have "append_indexes ops s1 d' = Some (Inr s2)" using 2(4) d' by simp
      from append_indexes_tables [OF _ _ d'(2) this n, of D P] show ?thesis using C d'(1) cnt by simp
    next
      case False
      then have "s2 = s1" "add_pairs pairs P (ab_mem s1) r1 (ab_recordCount s) = P" using 2(4) by (cases r1; auto)+
      then show ?thesis using C by simp
    qed
    then show ?thesis using 2(2,3) same_tables_ok [OF finish_same] by simp
  qed
qed

text \<open>The type of a record survives its copy.\<close>

lemma copy_type:
  assumes "ab_frame s" and "fresh_page s a" and "source_ok s a (rec_data r)" and "copyRecord ops a s r = Inr (B_OK, r1, s1)"
  shows "is_dml (ab_mem s1) (rec_data r1) = is_dml (ab_mem s) (rec_data r)"
proof -
  let ?i = "ab_recordCount s" and ?n = "head_size (ab_mem s) (rec_data r)"
  have C: "entry_ok s1 ?i" "entry_addr s1 ?i = rec_data r1" "entry_bytes s1 ?i = stamp_bytes (ab_minRecordId s + ?i) (read_bytes (ab_mem s) (rec_data r) ?n)"
    using copyRecord_ok [OF assms] by blast+
  have n: "38 \<le> head_size (ab_mem s1) (rec_data r1)" using C(1,2) by (auto simp: entry_ok_def recordHeadSize_def)
  have n0: "38 \<le> ?n" using assms(3) by (simp add: source_ok_def Let_def recordHeadSize_def)
  have "ab_mem s1 (rec_data r1 + H_type) = entry_bytes s1 ?i ! H_type" using n C(2) by (simp add: entry_bytes_def H_type_def)
  also have "\<dots> = ab_mem s (rec_data r + H_type)" using n0 unfolding C(3) by (simp add: stamp_bytes_def nth_append H_type_def)
  finally show ?thesis by (simp add: is_dml_def)
qed

lemma keyed_tables: "keyed_reach ops pairs D s log P \<Longrightarrow> tables_ok D s P \<and> ids_below P (length log)"
proof (induction rule: keyed_reach.induct)
  case (k_new bufSize userData blockId hasRedo startID m)
  have "ab_userData (ab_new blockId hasRedo bufSize startID m userData) t \<noteq> Some (blockId, n)" for t n using k_new(2) [of t] by (auto simp: ab_new_def)
  then show ?case by (auto simp: tables_ok_def ids_below_def) (auto simp: ab_new_def)
next
  case (k_caller s log P m')
  then show ?case using same_tables_ok [of s "s\<lparr>ab_mem := m'\<rparr>"] by simp
next
  case (k_alloc s log P a sz n st b s')
  then show ?case using same_tables_ok [OF same_alloc] by blast
next
  case (k_append s log P a r st0 r1 s1 redo st s')
  note R = reach_inv [OF keyed_reach_ab [OF k_append(1)]] and n = reach_nth(1) [OF keyed_reach_ab [OF k_append(1)]]
  have fr: "ab_frame s" using R by (simp add: ab_inv_def ab_inv_upto_def)
  have "ab_recordCount s1 = ab_recordCount s" using copyRecord_ok [OF fr k_append(2,3,5)] by (simp add: keeps_def)
  moreover have "is_dml (ab_mem s1) (rec_data r1) = is_dml (ab_mem s) (rec_data r)" if "st0 = B_OK" using copy_type [OF fr k_append(2,3)] k_append(5) that by blast
  ultimately have "tables_ok D s' (if st = B_OK then add_pairs pairs P (ab_mem s1) r1 (ab_recordCount s) else P)"
    using append_tables [OF _ k_append(4,5) _ _ k_append(6,7)] k_append.IH by blast
  then show ?case using ids_below_add k_append.IH n by (cases "st = B_OK") simp_all
qed

text \<open>A lookup by the primary key gives the newest record with the key.\<close>

lemma find_by_key:
  assumes r: "keyed_reach ops pairs D s log P" and t: "tbl_id t = tid" "D tid = t" "tid \<noteq> 0" and k: "tbl_primaryKey t = Some k" "good k"
  shows "getRecord_byKey ops s t PRIMARY_KEY keyId a = Some (Inr (map_option (\<lambda>ids. log ! last ids) (ids_of (P tid) (probe (ab_mem s) k a))))"
proof -
  have ok: "tables_ok D s P" and below: "ids_below P (length log)" using keyed_tables [OF r] by blast+
  show ?thesis
  proof (cases "\<exists>n. ab_userData s tid = Some (ab_blockID s, n)")
    case False
    then have "P tid = []" "map_of (ab_tableDatas s) tid = None" using ok t(3) unfolding tables_ok_def by blast+
    then show ?thesis using t(1) by (simp add: getRecord_byKey_def table_byId_def ids_of_def)
  next
    case True
    then obtain n where n: "ab_userData s tid = Some (ab_blockID s, n)" by blast
    have m: "map_of (ab_tableDatas s) tid = Some n" using tables_okD(1) [OF ok n] .
    obtain x where x: "td_primaryKey (ab_tables s n) = Some x" "holds k x (P tid)" using tables_okD(3) [OF ok n] t(2) k by blast
    have idx: "getTableIndex (ab_tables s n) t PRIMARY_KEY keyId = Some x" using k(1) x(1) by (simp add: getTableIndex_def)
    note f = find_holds [OF k(2) x(2), of "ab_mem s" a]
    show ?thesis
    proof (cases "ids_of (P tid) (probe (ab_mem s) k a)")
      case None
      then show ?thesis using t(1) m idx f by (simp add: getRecord_byKey_def table_byId_def obind_def)
    next
      case (Some ids)
      then have "ids \<noteq> []" "set ids \<subseteq> snd ` set (P tid)" by (auto simp: ids_of_def Let_def split: if_splits)
      then have "last ids \<in> snd ` set (P tid)" using last_in_set by blast
      then have less: "last ids < length log" using below by (auto simp: ids_below_def)
      have "length log \<le> maxRecordInBlock" using reach_inv [OF keyed_reach_ab [OF r]] reach_nth(1) [OF keyed_reach_ab [OF r]]
        by (simp add: ab_inv_def ab_inv_upto_def ab_frame_def)
      then have narrow: "int32 (last ids) = int (last ids)" using less by (intro int32_small) (simp add: maxRecordInBlock_def)
      from reach_record [OF keyed_reach_ab [OF r] less] obtain b where "getRecordByIdx s (last ids) = Inr b" "record_bytes (ab_mem s) b = log ! last ids" by blast
      then show ?thesis using t(1) m idx f Some narrow by (simp add: getRecord_byKey_def table_byId_def obind_def record_bytes_def)
    qed
  qed
qed

end

section \<open>Integer keys\<close>

text \<open>The key of a row and, for an update of the key, the key it had before.\<close>

definition int_pairs :: "int keyPairs" where
  "int_pairs m k r i =
     (let c = unat (kc_columnId (uk_columnInfo k ! 0)); t = rd 1 m (dml_data r + H_type);
          pair = (\<lambda>a. case a of None \<Rightarrow> [] | Some a \<Rightarrow> [(key_int (index_type k) m a, i)])
      in pair (dml_column m r c) @
        (if (t = RTYPE R_UPDATE \<or> t = RTYPE R_REPLACE) \<and> isKeyUpdated m r k = Inr True
         then (case oldColumnOfUpdateType m r c of Inl f \<Rightarrow> [] | Inr a \<Rightarrow> pair a) else []))"

definition int_probe :: "mem \<Rightarrow> unionKeyMeta \<Rightarrow> nat \<Rightarrow> int" where
  "int_probe m k a = key_int (index_type k) m a"

definition int_key :: "unionKeyMeta \<Rightarrow> bool" where
  "int_key k \<longleftrightarrow> index_type k \<in> int_types \<and> \<not> unsearchable (index_type k)"

definition ix_holds :: "int appendingIndex \<Rightarrow> (int \<times> nat) list \<Rightarrow> bool" where
  "ix_holds x l \<longleftrightarrow> (\<exists>ns. ai_inv keyComparator x ns \<and> sorted_wrt (<) (map fst (ai_contents x ns)) \<and> (\<forall>d. map_of (ai_contents x ns) d = ids_of l d))"

fun int_holds :: "unionKeyMeta \<Rightarrow> 'x blockIndex \<Rightarrow> (int \<times> nat) list \<Rightarrow> bool" where
  "int_holds k (IntIndex k' x) l \<longleftrightarrow> k' = k \<and> ix_holds x l"
| "int_holds k (OtherIndex y) l \<longleftrightarrow> False"

lemma ids_of_snoc: "ids_of (l @ [(k, i)]) = (ids_of l)(k \<mapsto> (case ids_of l k of None \<Rightarrow> [] | Some ids \<Rightarrow> ids) @ [i])"
  by (auto simp: ids_of_def Let_def fun_eq_iff)

lemma ix_holds_fields [simp]: "ix_holds (x\<lparr>m_allCount := c\<rparr>) l = ix_holds x l" "ix_holds (x\<lparr>m_varSize := c\<rparr>) l = ix_holds x l"
  by (simp_all add: ix_holds_def ai_inv_def ai_contents_def)

lemma append_at_holds:
  assumes "ix_holds x l" and "append_at keyComparator rd0 vs x (Some a) i = Some (Inr x')"
  shows "ix_holds x' (l @ [(rd0 a, i)])"
proof -
  obtain ns where ns: "ai_inv keyComparator x ns" "sorted_wrt (<) (map fst (ai_contents x ns))" "\<forall>d. map_of (ai_contents x ns) d = ids_of l d"
    using assms(1) by (auto simp: ix_holds_def)
  obtain new y ns' where y: "appendIndex keyComparator x (rd0 a) i = Some (Inr (new, y))" "ai_inv keyComparator y ns'"
    "ai_contents y ns' = add_id keyComparator (rd0 a) i (ai_contents x ns)" using lin_index.append_ok [OF ns(1)] by blast
  have "ix_holds y (l @ [(rd0 a, i)])" unfolding ix_holds_def
    using y(2,3) add_id_map_of [OF ns(2), of "rd0 a" i] ns(3) by (intro exI [of _ ns']) (simp add: ids_of_snoc)
  moreover have "x' = y \<or> (\<exists>c. x' = y\<lparr>m_varSize := c\<rparr>)" using assms(2) y(1) by (auto simp: append_at_def split: if_splits)
  ultimately show ?thesis by auto
qed

lemma append_type_holds:
  assumes h: "ix_holds x l" and ap: "appendIndexByType (index_type k) m k x r i b = Some (Inr x')"
  shows "\<exists>a. dml_column m r (unat (kc_columnId (uk_columnInfo k ! 0))) = Some a \<and>
    (if b then \<exists>o'. oldColumnOfUpdateType m r (unat (kc_columnId (uk_columnInfo k ! 0))) = Inr (Some o') \<and>
        ix_holds x' (l @ [(key_int (index_type k) m a, i), (key_int (index_type k) m o', i)])
     else ix_holds x' (l @ [(key_int (index_type k) m a, i)]))"
proof -
  let ?c = "unat (kc_columnId (uk_columnInfo k ! 0))" and ?key = "key_int (index_type k) m"
  obtain y where y: "append_at keyComparator ?key (\<lambda>_. 0) x (dml_column m r ?c) i = Some (Inr y)"
    "(if b then (case oldColumnOfUpdateType m r ?c of Inl f \<Rightarrow> Some (Inl f) | Inr a \<Rightarrow> append_at keyComparator ?key (\<lambda>_. 0) y a i) else Some (Inr y)) = Some (Inr x')"
    using ap by (auto simp: appendIndexByType_def Let_def split: option.splits sum.splits)
  obtain a where a: "dml_column m r ?c = Some a" using y(1) by (cases "dml_column m r ?c") (auto simp: append_at_def)
  have hy: "ix_holds y (l @ [(?key a, i)])" using append_at_holds [OF h] y(1) a by simp
  show ?thesis
  proof (cases b)
    case False
    then show ?thesis using hy a y(2) by simp
  next
    case True
    then obtain z where z: "oldColumnOfUpdateType m r ?c = Inr z" "append_at keyComparator ?key (\<lambda>_. 0) y z i = Some (Inr x')" using y(2) by (auto split: sum.splits)
    obtain o' where o': "z = Some o'" using z(2) by (cases z) (auto simp: append_at_def)
    have "ix_holds x' ((l @ [(?key a, i)]) @ [(?key o', i)])" using append_at_holds [OF hy] z(2) o' by simp
    then show ?thesis using a z(1) o' True by simp
  qed
qed

lemma ai_append_holds:
  assumes h: "ix_holds x l" and ap: "ai_append m k (appendIndexByType (index_type k) m k) x r i = Some (Inr x')"
  shows "ix_holds x' (l @ int_pairs m k r i)"
proof -
  define upd where "upd = (rd 1 m (dml_data r + H_type) = RTYPE R_UPDATE \<or> rd 1 m (dml_data r + H_type) = RTYPE R_REPLACE)"
  obtain b y where y: "if upd then isKeyUpdated m r k = Inr b else \<not> b" "appendIndexByType (index_type k) m k x r i b = Some (Inr y)" "\<exists>c. x' = y\<lparr>m_allCount := c\<rparr>"
    using ap unfolding ai_append_def Let_def upd_def [symmetric] by (cases upd) (auto split: sum.splits)
  note T = append_type_holds [OF h y(2)]
  have "b \<longleftrightarrow> upd \<and> isKeyUpdated m r k = Inr True" using y(1) by (auto split: if_splits)
  then have "ix_holds y (l @ int_pairs m k r i)" using T unfolding int_pairs_def Let_def upd_def [symmetric] by (auto split: if_splits)
  then show ?thesis using y(3) by auto
qed

lemma int_pairs_id: "set (int_pairs m k r i) \<subseteq> UNIV \<times> {i}"
proof -
  have p: "set (case a of None \<Rightarrow> [] | Some a \<Rightarrow> [(f a, i)]) \<subseteq> UNIV \<times> {i}" for a and f :: "nat \<Rightarrow> int" by (cases a) auto
  have q: "set (case z of Inl e \<Rightarrow> [] | Inr a \<Rightarrow> (case a of None \<Rightarrow> [] | Some a \<Rightarrow> [(f a, i)])) \<subseteq> UNIV \<times> {i}" for z :: "fault + nat option" and f :: "nat \<Rightarrow> int"
    using p by (cases z) auto
  have ite: "set (if b then xs else []) \<subseteq> A" if "set xs \<subseteq> A" for b and xs :: "(int \<times> nat) list" and A using that by (cases b) auto
  show ?thesis unfolding int_pairs_def Let_def set_append by (intro Un_least p ite q)
qed

interpretation int_block: block_index "block_ops other" int_key int_holds int_pairs int_probe
proof
  fix k t x assume "int_key k" and "ix_new (block_ops other) k t = Inr x"
  then have "x = IntIndex k (ai_new 0)" by (simp add: block_ops_def bx_new_def int_key_def)
  then show "int_holds k x []" using ai_new_inv [of keyComparator 0] by (auto simp: ix_holds_def ai_contents_def ids_of_def intro!: exI [of _ "[]"])
next
  fix k and x :: "'a blockIndex" and l m r i x' assume "int_key k" and h: "int_holds k x l" and ap: "ix_append (block_ops other) m x r i = Some (Inr x')"
  then obtain y where y: "x = IntIndex k y" "ix_holds y l" by (cases x) auto
  then show "int_holds k x' (l @ int_pairs m k r i)" using ap ai_append_holds [OF y(2)] by (auto simp: block_ops_def bx_append_def obind_Some)
next
  fix k and x :: "'a blockIndex" and l m a assume k: "int_key k" and h: "int_holds k x l"
  then obtain y where y: "x = IntIndex k y" "ix_holds y l" by (cases x) auto
  obtain ns where "ai_inv keyComparator y ns" "sorted_wrt (<) (map fst (ai_contents y ns))" "\<forall>d. map_of (ai_contents y ns) d = ids_of l d"
    using y(2) by (auto simp: ix_holds_def)
  then show "ix_find (block_ops other) m x a = Some (Inr (case ids_of l (int_probe m k a) of None \<Rightarrow> - 1 | Some ids \<Rightarrow> int32 (last ids)))"
    using find_contents [of y ns "int_probe m k a"] y(1) k by (simp add: block_ops_def bx_find_def int_key_def int_probe_def)
next
  fix d j m k r i assume "(d, j) \<in> set (int_pairs m k r i)"
  then show "j = i" using int_pairs_id by fastforce
qed

text \<open>
  C2: In every history of an open block, looking up the primary key of a table, when it is a single integer column, gives the bytes of the newest record of that table that was
  appended with the key, or of an update that changed the key from it, and null when there is none; records of other tables and refused records never interfere.
\<close>

theorem block_finds_newest_by_key:
  assumes "keyed_reach (block_ops other) int_pairs D s log P" and "D (tbl_id t) = t" and "tbl_id t \<noteq> 0" and "tbl_primaryKey t = Some k" and "int_key k"
  shows "getRecord_byKey (block_ops other) s t PRIMARY_KEY keyId a =
    Some (Inr (map_option (\<lambda>ids. log ! last ids) (ids_of (P (tbl_id t)) (key_int (index_type k) (ab_mem s) a))))"
  using int_block.find_by_key [OF assms(1) refl assms(2-5)] by (simp add: int_probe_def)

text \<open>An inserted row of a table with one integer column, which is its key.  The memory holds the bytes of the row at 0 and at the address of the next page.\<close>

definition row_key :: unionKeyMeta where
  "row_key = \<lparr>uk_columnCount = 1, uk_size = 4, uk_fixed = 1, uk_keyType = 0, uk_keyId = 0, uk_varColumnCount = 0, uk_columnInfo = [\<lparr>kc_type = T_INT32, kc_columnId = 0\<rparr>]\<rparr>"

definition row_table :: tableMeta where
  "row_table = (tableMeta_new True)\<lparr>tbl_columns := [sample_column ''a'' T_INT32], tbl_realIndexInRowFormat := [0], tbl_fixedColumnOffsetsInRecord := [0, 4],
     tbl_fixedColumnCount := 1, tbl_id := 1, tbl_primaryKey := Some row_key\<rparr>"

definition row_mem :: mem where
  "row_mem = (\<lambda>i. if i \<in> {0, 0x100000} then 55 else if i \<in> {5, 0x100005} then 38 else if i \<in> {38, 46, 0x100026, 0x10002E} then 1
     else if i \<in> {47, 0x10002F} then 7 else if i \<in> {51, 0x100033} then 8 else 0)"

definition row_block :: "unit blockIndex appendingBlock" where
  "row_block = ab_new 1 False 0x200000 0 row_mem (\<lambda>_. None)"

abbreviation row_ops :: "unit blockIndex indexOps" where "row_ops \<equiv> block_ops no_index"

lemma row_table_fields [simp]: "tbl_id row_table = 1" "tbl_primaryKey row_table = Some row_key" "tbl_uniqueKeys row_table = []" "columnsCount row_table = 1"
  "tbl_varColumnCount row_table = 0" "fixed_end row_table = 4" "column_type row_table 0 = T_INT32" "fixed_offset row_table 0 = 0"
  by (simp_all add: row_table_def tableMeta_new_def fixed_end_def column_type_def sample_column_def fixed_offset_def real_index_def)

lemma row_key_facts [simp]: "index_type row_key = T_INT32" "int_key row_key" "uk_columnInfo row_key ! 0 = \<lparr>kc_type = T_INT32, kc_columnId = 0\<rparr>"
  by (simp_all add: row_key_def index_type_def int_key_def int_types_def unsearchable_def)

lemma le_bytes_0: "le_bytes n 0 = replicate n 0"
  by (induction n) simp_all

lemma row_copied:
  "write_bytes row_mem 0x100000 (read_bytes row_mem 0 55) = row_mem" "wr 8 row_mem 0x10000A 0 = row_mem"
proof -
  have c: "row_mem (0x100000 + i) = row_mem i" if "i < 55" for i using that by (auto simp: row_mem_def)
  have "write_bytes row_mem 0x100000 (read_bytes row_mem 0 55) i = row_mem i" for i
  proof (cases "0x100000 \<le> i \<and> i < 0x100037")
    case True
    then obtain k where k: "i = 0x100000 + k" using le_Suc_ex by blast
    then have "k < 55" using True by simp
    then show ?thesis unfolding k using c [of k] by (simp add: write_bytes_inside)
  next
    case False
    then show ?thesis by (auto simp: write_bytes_def)
  qed
  then show "write_bytes row_mem 0x100000 (read_bytes row_mem 0 55) = row_mem" by blast
  have "row_mem i = 0" if "0x10000A \<le> i" "i < 0x100012" for i using that by (simp add: row_mem_def)
  then show "wr 8 row_mem 0x10000A 0 = row_mem" by (auto simp: wr_def le_bytes_0 write_bytes_def fun_eq_iff)
qed

lemma row_head: "head_size row_mem 0 = 55" "head_size row_mem 0x100000 = 55" "head_type row_mem 0 = 0" "head_type row_mem 0x100000 = 0"
  "headSize row_mem 0 = 38" "headSize row_mem 0x100000 = 38" "head_logOffset row_mem 0 = 0" "head_logOffset row_mem 0x100000 = 0"
  "key_int T_INT32 row_mem 47 = 7" "key_int T_INT32 row_mem 0x10002F = 7"
  by (simp_all add: row_mem_def head_size_def head_logOffset_def H_size_def H_type_def H_headSize_def read_eval)

lemma row_types [simp]: "row_mem H_type = 0" "row_mem (0x100000 + H_type) = 0" "is_dml row_mem 0" "is_dml row_mem 0x100000"
  by (simp_all add: row_mem_def H_type_def is_dml_def)

definition row_at :: "nat \<Rightarrow> DMLRecord" where "row_at a = dml_load row_mem a row_table"

lemma row_at_fields: "dml_data (row_at 0) = 0" "dml_data (row_at 0x100000) = 0x100000" "dml_meta (row_at a) = row_table"
  "dml_column row_mem (row_at 0x100000) 0 = Some 0x10002F"
  using row_head by (simp_all add: row_at_def dml_load_def Let_def dml_column_def column_in_def TEST_BITMAP_def BITMAP_SIZE_def) (simp add: row_mem_def columnInfos_def)

text \<open>The block after the row was copied into its page.\<close>

definition row_copy :: "unit blockIndex appendingBlock" where
  "row_copy = (case copyRecord row_ops 0x100000 row_block (Dml (row_at 0)) of Inr (_, _, s) \<Rightarrow> s | _ \<Rightarrow> row_block)"

lemma row_copy_fields:
  "copyRecord row_ops 0x100000 row_block (Dml (row_at 0)) = Inr (B_OK, Dml (row_at 0x100000), row_copy)" "ab_mem row_copy = row_mem"
  "ab_hasRedo row_copy = False" "ab_userData row_copy 1 = Some (1, 1)" "ab_recordCount row_copy = 0" "td_primaryKey (ab_tables row_copy 1) = Some (IntIndex row_key (ai_new 0))"
proof -
  have new: "tableData_init row_ops row_table = Inr ((defaultData DEFAULT_PAGE_SIZE)\<lparr>td_meta := Some row_table, td_primaryKey := Some (IntIndex row_key (ai_new 0)), td_uniqueKeys := []\<rparr>)"
    using row_key_facts(2) by (simp add: tableData_init_def block_ops_def bx_new_def int_key_def)
  note e = row_copy_def block_eval row_block_def ab_new_def defaultData_def new row_at_fields row_head row_copied H_recordId_def row_at_def [symmetric] DEFAULT_PAGE_SIZE_def
  show "copyRecord row_ops 0x100000 row_block (Dml (row_at 0)) = Inr (B_OK, Dml (row_at 0x100000), row_copy)" "ab_mem row_copy = row_mem"
    "ab_hasRedo row_copy = False" "ab_userData row_copy 1 = Some (1, 1)" "ab_recordCount row_copy = 0" "td_primaryKey (ab_tables row_copy 1) = Some (IntIndex row_key (ai_new 0))"
    by (simp_all add: e)
qed

lemma row_reach:
  "\<exists>s. keyed_reach row_ops int_pairs (\<lambda>_. row_table) s [stamp_bytes 0 (record_bytes row_mem 0)] ((\<lambda>_. [])(1 := [(7, 0)])) \<and> ab_mem s = row_mem"
proof -
  have n: "keyed_reach row_ops int_pairs (\<lambda>_. row_table) row_block [] (\<lambda>_. [])" unfolding row_block_def by (rule keyed_reach.k_new) simp_all
  have f: "fresh_page row_block 0x100000" "source_ok row_block 0x100000 (rec_data (Dml (row_at 0)))" "described (\<lambda>_. row_table) (Dml (row_at 0))"
    using row_head by (simp_all add: fresh_page_def source_ok_def row_block_def ab_new_def in_free_def recordHeadSize_def row_at_fields)
  obtain new y where y: "appendIndex keyComparator (ai_new 0 :: int appendingIndex) 7 0 = Some (Inr (new, y))" using lin_index.append_ok [OF ai_new_inv] by blast
  have "\<exists>x. ix_append row_ops row_mem (IntIndex row_key (ai_new 0)) (row_at 0x100000) 0 = Some (Inr x)"
    using y row_head row_at_fields by (simp add: block_ops_def bx_append_def ai_append_def appendIndexByType_def append_at_def obind_def H_type_def)
  then obtain s where s: "append_indexes row_ops row_copy (row_at 0x100000) = Some (Inr s)" "ab_mem s = row_mem"
    using row_copy_fields(2-) row_at_fields by (auto simp: append_indexes_def obind_def Let_def)
  have ap: "ab_append row_ops 0x100000 B_OK row_block (Dml (row_at 0)) = Some (Inr (B_OK, finish_append s 0x100000))"
    using row_copy_fields s row_head by (simp add: ab_append_def row_at_fields is_dml_def obind_def) (simp add: row_block_def ab_new_def)
  have "int_pairs row_mem row_key (row_at 0x100000) 0 = [(7, 0)]" using row_head row_at_fields by (simp add: int_pairs_def Let_def H_type_def)
  then have P: "add_pairs int_pairs (\<lambda>_. []) (ab_mem row_copy) (Dml (row_at 0x100000)) 0 = (\<lambda>_. [])(1 := [(7, 0)])"
    using row_copy_fields(2) row_head by (simp add: is_dml_def row_at_fields)
  have "keyed_reach row_ops int_pairs (\<lambda>_. row_table) (finish_append s 0x100000) [stamp_bytes 0 (record_bytes row_mem 0)] ((\<lambda>_. [])(1 := [(7, 0)]))"
    using keyed_reach.k_append [OF n f row_copy_fields(1) ap] P by (simp add: row_at_fields row_block_def ab_new_def)
  then show ?thesis using s(2) by (intro exI [of _ "finish_append s 0x100000"]) (simp add: finish_append_def Let_def)
qed

theorem block_finds_newest_by_key_witness:
  "\<exists>s. keyed_reach row_ops int_pairs (\<lambda>_. row_table) s [stamp_bytes 0 (record_bytes row_mem 0)] ((\<lambda>_. [])(1 := [(7, 0)])) \<and>
     getRecord_byKey row_ops s row_table PRIMARY_KEY 0 47 = Some (Inr (Some (stamp_bytes 0 (record_bytes row_mem 0))))"
proof -
  obtain s where s: "keyed_reach row_ops int_pairs (\<lambda>_. row_table) s [stamp_bytes 0 (record_bytes row_mem 0)] ((\<lambda>_. [])(1 := [(7, 0)]))" "ab_mem s = row_mem"
    using row_reach by blast
  have "ids_of [(7 :: int, 0 :: nat)] 7 = Some [0]" by (simp add: ids_of_def)
  then show ?thesis using s block_finds_newest_by_key [OF s(1), of row_table row_key 0 47] row_head by (intro exI [of _ s]) simp
qed

end
