(* ===== verification/Spec2Isabelle.thy ===== *)
theory Spec2Isabelle
  imports ArrayQueue RingFixedQueue MinHeap PageTable BitUtil DateTime ColumnType Names MetaDataProofs RecordKeys DdlRecords Timeline TableIdTree PageLru ThreadLocal KWaySort BlockKeys
begin

text \<open>
  DBStream: the storage core of a change-data-capture database.

  \<^bold>\<open>The program.\<close>  DBStream reads the log of a source database, turns every change into a \<^emph>\<open>record\<close>, and keeps the records
  in \<^emph>\<open>blocks\<close> that are appended to while they are open and are read through indexes once they are closed.  What a record
  means depends on the description of its table at that point of the log, so the descriptions are kept by version.  The parts
  interact as follows.

  \<^item> \<^verbatim>\<open>meta/\<close> describes tables: column types and their sizes, keys, the layout of a row, the DDL operations that change them
    (\<^verbatim>\<open>metaData.h/.cpp\<close>, \<^verbatim>\<open>columnType.h/.cpp\<close>), names and character sets, the versions of a table along the log
    (\<^verbatim>\<open>metaTimeline.h\<close>) and by the id the log uses (\<^verbatim>\<open>tableIdTree.h\<close>).
  \<^item> \<^verbatim>\<open>message/record.h\<close> lays a change out in bytes: a head, then the row (fixed columns, offsets, variable-length columns, null
    bitmap), for an update also the changed columns; or the text of a DDL statement.
  \<^item> \<^verbatim>\<open>database/\<close> stores records in blocks: the index of an open block is a skip list (\<^verbatim>\<open>appendingIndex.h/.cpp\<close>,
    \<^verbatim>\<open>util/skiplist.h\<close>), the index of a closed block a page that is searched by bisection (\<^verbatim>\<open>solidIndex.h/.cpp\<close>); the blocks
    are found by id in \<^verbatim>\<open>util/pageTable.h\<close>, and the pages that no reader uses are collected (\<^verbatim>\<open>page.h\<close>, \<^verbatim>\<open>database.cpp\<close>).
  \<^item> \<^verbatim>\<open>util/\<close> and \<^verbatim>\<open>thread/\<close> hold the containers and helpers the others share: the queues between threads, the heap that merges
    sorted streams, linked lists with locks, thread-local variables, number printing.

  \<^bold>\<open>Conventions.\<close>  Every operation of the code is a function on an explicit state (a record with the fields of the class) that
  returns the new state.  Memory that the code addresses through casts is a function from addresses to bytes (theory
  \<open>Prelude\<close>: \<open>rd\<close> and \<open>wr\<close> are the little-endian accesses).  Where the C++ code would abort, dereference null or freed memory,
  fail an assertion, leave an array or block on a lock it holds itself, the model returns a value of the type \<open>fault\<close> in the
  left part of a sum.  Loops that end are total functions; the searches of the skip list and the sift of the heap, which could
  run forever on other data, are partial functions into \<open>option\<close>, and their theorems say that they return.  There is no fuel
  apart from walks over lists, whose length is part of the statement.  Machine integers keep their width wherever the code
  relies on it (positions of the queues, packed times, printed numbers, seeds, ids); sizes that the invariants keep
  far below their width are natural numbers, which the theory then says.

  \<^bold>\<open>Theories.\<close>  In the order in which they build on each other:

  \<^item> \<open>Prelude\<close>: byte memory, encodings, faults and the lemma collection \<open>mem_simps\<close>.  \<open>Ring\<close>: circular buffers as lists and the
    contract \<open>bounded_fifo\<close> of a bounded queue.
  \<^item> \<open>ArrayQueue\<close> (\<^verbatim>\<open>util/arrayQueue.h\<close>) and \<open>RingFixedQueue\<close> (\<^verbatim>\<open>util/ringFixedQueue.h\<close>): both interpret \<open>bounded_fifo\<close>.  One producer
    and one consumer of an \<^verbatim>\<open>arrayQueue\<close> interleaved statement by statement lose, duplicate and reorder nothing; two consumers of
    a \<^verbatim>\<open>ringFixedQueue\<close> can take an element twice.  The waits take the wake-ups as a list, so that a waiting push is shown to succeed
    once the peer frees a slot.
  \<^item> \<open>MinHeap\<close> (\<^verbatim>\<open>util/heap.h\<close>): the contract \<open>comparison\<close> of a strict weak order, the contract \<open>bounded_pq\<close> of a bounded priority queue
    which it gives, heap order and multiset kept by every operation, and sorting by insertion and removal.
  \<^item> \<open>PageTable\<close> (\<^verbatim>\<open>util/pageTable.h\<close>): the three-level table interprets the contract \<open>id_table\<close> of a finite map; what clearing and
    purging free, and the pointer that purging leaves dangling.
  \<^item> \<open>BitUtil\<close>, \<open>ItoaSse\<close>, \<open>DateTime\<close>: bit positions, decimal printing with SSE2 lanes, and the packed time types, equal to
    their reference definitions.
  \<^item> \<open>ColumnType\<close> (\<^verbatim>\<open>meta/columnType.h/.cpp\<close>): types, keys and the comparison of serialised keys, which is the lexicographic order of the
    column values under stated bounds.  \<open>Names\<close>: name comparison and the character set table.
  \<^item> \<open>MetaData\<close>, \<open>MetaDataProofs\<close> (\<^verbatim>\<open>meta/metaData.h/.cpp\<close>): table descriptions and the DDL operations, the layout of a row, the
    invariant every sequence of DDL operations keeps, and the operations that damage keys.
  \<^item> \<open>DmlRecords\<close>, \<open>DmlRecordProofs\<close>, \<open>DdlRecords\<close> (\<^verbatim>\<open>message/record.h\<close>): building and reading records; a row or a statement that is written
    is read back.  \<open>RecordKeys\<close>: the key built from a row; keys of two rows compare like the rows.
  \<^item> \<open>Timeline\<close> (\<^verbatim>\<open>meta/metaTimeline.h\<close>), \<open>TableIdTree\<close> (\<^verbatim>\<open>meta/tableIdTree.h\<close>): the version of a table that governs a position of the log,
    also while a writer appends versions; the tree refines a map from ids to version lists.
  \<^item> \<open>DualLinkList\<close>, \<open>GlobalList\<close> (\<^verbatim>\<open>util/dualLinkList.h\<close>): two linked lists with locks, both interpretations of the contract
    \<open>list_machine\<close>.  \<open>ThreadLocal\<close> (\<^verbatim>\<open>thread/threadLocal.h/.cpp\<close>) and \<open>PageLru\<close> (\<^verbatim>\<open>util/ref.h\<close>, \<^verbatim>\<open>database/page.h\<close>) use them: thread ids, the
    registry of variables, the pages and their collection.
  \<^item> \<open>SkipList\<close> (\<^verbatim>\<open>util/skiplist.h\<close>, \<^verbatim>\<open>util/random.h\<close>): the contract \<open>key_order\<close> of a comparison and, inside it, that the list refines a sorted
    sequence.  \<open>SolidIndex\<close>, \<open>SolidIndexProofs\<close> (\<^verbatim>\<open>database/solidIndex.h/.cpp\<close>): both page layouts are read back as written and
    searched correctly.  \<open>AppendingIndex\<close> (\<^verbatim>\<open>database/appendingIndex.h/.cpp\<close>): the contract \<open>index_keys\<close>, interpreted on the comparison of
    integers and byte strings; from appended records to lookups in the finished page, and when the reserved size is enough.
  \<^item> \<open>AppendingBlock\<close> (\<^verbatim>\<open>database/appendingBlock.h/.cpp\<close>, \<^verbatim>\<open>database/block.h\<close>): the block that records are appended to, its pages and the data per table.
    \<open>BlockProofs\<close>: every history of allocations and appends refines a log of records, which are found by their ids with their bytes.
    \<open>BlockIterators\<close> (\<^verbatim>\<open>database/iterator.h\<close>, \<^verbatim>\<open>database/filter.h\<close>): the iterators over the records of a block, their filters and seeks.
    \<open>BlockKeys\<close>: the indexes that \<^verbatim>\<open>append\<close> maintains; the contract \<open>block_index\<close> of an index as the block uses it, interpreted on integer keys, gives
    that a lookup by key finds the newest record with the key.
  \<^item> \<open>IndexIterators\<close> (\<^verbatim>\<open>database/indexIterator.h\<close>): the iterators over the keys of both kinds of index.  \<open>KWaySort\<close> (\<^verbatim>\<open>database/kWaySortIterator.h\<close>): the
    contract \<open>key_stream\<close> of an iterator over ascending keys, interpreted on the iterator of an open block; merging two blocks shows every key
    once and from the newer block, apart from a first key that both have, which is shown twice; merging three can lose the order.

  \<^bold>\<open>Bounds.\<close>  Theorems about records and keys bound sizes by the width of the field that stores them (offsets of 16 or 32 bits, 24-bit
  offsets in an index page, fewer than 65536 columns); each theorem states its bounds as hypotheses with a witness.  An index page of
  up to 800000 records stays below its 24-bit offsets.

  \<^bold>\<open>Not modelled.\<close>  Third-party code (\<^verbatim>\<open>lz4/\<close>, \<^verbatim>\<open>util/sparsepp/\<close>, \<^verbatim>\<open>util/dtoa.cpp\<close>, \<^verbatim>\<open>MySQLParser/mysql_funcs/\<close>, \<^verbatim>\<open>crypt/\<close>); the reading of the
  MySQL and Oracle logs (\<^verbatim>\<open>MySQLParser/\<close>, \<^verbatim>\<open>dataSource/\<close>) and the SQL grammar (\<^verbatim>\<open>sqlParser/\<close>), which follow external formats; files,
  sockets and processes (\<^verbatim>\<open>cluster/\<close>, \<^verbatim>\<open>store/\<close>, \<^verbatim>\<open>net/\<close>, \<^verbatim>\<open>client/\<close>, \<^verbatim>\<open>auth/\<close>, \<^verbatim>\<open>shell/\<close>, \<^verbatim>\<open>replicator/\<close>); the concurrency inside the spin locks of
  \<^verbatim>\<open>thread/\<close>; the redo log of a block, its conversion into a file and what reads such files (\<^verbatim>\<open>solidBlock\<close>, \<^verbatim>\<open>database.cpp\<close>), of which only the
  index pages, the page cache and the iterators over keys are modelled; indexes over floating-point keys, whose comparison is no order.
\<close>

end
